(* ===== verification/Prelude.thy ===== *)
theory Prelude
  imports Main "HOL-Library.Word"
begin

text \<open>
  Shared ground of the development: the machine integers of the Rust sources as words, arrays and
  byte strings as lists, the little-endian reading of a list of words (bytes or 32-bit limbs), the
  checked and saturating operations of the Rust standard library, and the result type that stands
  for \<open>Result\<close>. The collections \<open>digit_simps\<close> and \<open>rust_simps\<close> carry the
  automation of the component theories.
\<close>

unbundle bit_operations_syntax

named_theorems digit_simps
named_theorems rust_simps

type_synonym u8 = "8 word"
type_synonym u16 = "16 word"
type_synonym u32 = "32 word"
type_synonym u64 = "64 word"
type_synonym u128 = "128 word"
type_synonym bytes = "u8 list"
type_synonym limbs = "u32 list"

section \<open>Results\<close>

text \<open>\<open>Result<T, E>\<close> is a sum, \<open>Inl\<close> the error; \<open>?\<close> is \<open>result_bind\<close>.\<close>

type_synonym ('e, 'a) result = "'e + 'a"

fun result_bind :: "('e, 'a) result \<Rightarrow> ('a \<Rightarrow> ('e, 'b) result) \<Rightarrow> ('e, 'b) result" where
  "result_bind (Inl e) f = Inl e"
| "result_bind (Inr a) f = f a"

definition ok_or :: "'e \<Rightarrow> 'a option \<Rightarrow> ('e, 'a) result" where
  "ok_or e m = (case m of None \<Rightarrow> Inl e | Some a \<Rightarrow> Inr a)"

lemma result_bind_Inr_iff [rust_simps]:
  "result_bind m f = Inr b \<longleftrightarrow> (\<exists>a. m = Inr a \<and> f a = Inr b)"
  by (cases m) auto

lemma result_bind_cong [fundef_cong]:
  "m = m' \<Longrightarrow> (\<And>a. m' = Inr a \<Longrightarrow> f a = g a) \<Longrightarrow> result_bind m f = result_bind m' g"
  by (cases m') auto

lemma ok_or_Inr_iff [rust_simps]: "ok_or e m = Inr a \<longleftrightarrow> m = Some a"
  by (auto simp: ok_or_def split: option.splits)

section \<open>Little-endian digits\<close>

text \<open>
  \<open>le_nat\<close> reads a list of words, least significant first; \<open>nat_le k x\<close> writes the low \<open>k\<close>
  digits of \<open>x\<close>. Instances: bytes (\<open>to_le_bytes\<close>, \<open>from_le_bytes\<close>) and the 32-bit limbs of
  the field and scalar arithmetic.
\<close>

fun le_nat :: "'a::len word list \<Rightarrow> nat" where
  "le_nat [] = 0"
| "le_nat (x # xs) = unat x + 2 ^ LENGTH('a) * le_nat xs"

fun nat_le :: "nat \<Rightarrow> nat \<Rightarrow> 'a::len word list" where
  "nat_le 0 x = []"
| "nat_le (Suc k) x = word_of_nat x # nat_le k (x div 2 ^ LENGTH('a))"

lemma length_nat_le [simp]: "length (nat_le k x) = k"
  by (induction k arbitrary: x) auto

lemma le_nat_less: "le_nat (xs :: 'a::len word list) < (2 ^ LENGTH('a)) ^ length xs"
proof (induction xs)
  case (Cons x xs)
  let ?B = "2 ^ LENGTH('a) :: nat"
  have "unat x < ?B" by simp
  moreover have "?B * le_nat xs + ?B \<le> ?B * ?B ^ length xs"
    using Cons mult_le_mono2 [of "Suc (le_nat xs)" "?B ^ length xs" ?B] by simp
  ultimately show ?case by (simp del: unsigned_less)
qed simp

lemma le_nat_nat_le [digit_simps]:
  "le_nat (nat_le k x :: 'a::len word list) = x mod (2 ^ LENGTH('a)) ^ k"
proof (induction k arbitrary: x)
  case (Suc k)
  then show ?case
    by (simp add: unat_of_nat mod_mult2_eq)
qed simp

lemma nat_le_le_nat [digit_simps]: "nat_le (length xs) (le_nat xs) = xs"
proof (induction xs)
  case (Cons x xs)
  have "(unat x + 2 ^ LENGTH('a) * le_nat xs) div 2 ^ LENGTH('a) = le_nat xs"
    by simp
  with Cons show ?case by simp
qed simp

lemma le_nat_append:
  "le_nat (xs @ ys :: 'a::len word list) = le_nat xs + (2 ^ LENGTH('a)) ^ length xs * le_nat ys"
  by (induction xs) (simp_all add: algebra_simps)

lemma le_nat_inj: "length xs = length ys \<Longrightarrow> le_nat xs = le_nat ys \<Longrightarrow> xs = ys"
  by (metis nat_le_le_nat)

lemma le_nat_replicate_0 [simp]: "le_nat (replicate n 0) = 0"
  by (induction n) auto

lemma le_nat_eq_0_iff: "le_nat xs = 0 \<longleftrightarrow> (\<forall>x\<in>set xs. x = 0)"
  by (induction xs) (auto simp: unat_eq_zero)

lemma digit_mod: "(u :: nat) < b \<Longrightarrow> u + b * (r mod n) = (u + b * r) mod (b * n)"
  by (simp add: mod_mult2_eq)

lemma len8: "LENGTH(8) = 8"
  by simp

section \<open>Byte strings of the integers\<close>

definition to_le_bytes :: "'a::len word \<Rightarrow> bytes" where
  "to_le_bytes w = nat_le (LENGTH('a) div 8) (unat w)"

definition from_le_bytes :: "bytes \<Rightarrow> 'a::len word" where
  "from_le_bytes bs = word_of_nat (le_nat bs)"

definition to_be_bytes :: "'a::len word \<Rightarrow> bytes" where
  "to_be_bytes w = rev (to_le_bytes w)"

definition from_be_bytes :: "bytes \<Rightarrow> 'a::len word" where
  "from_be_bytes bs = from_le_bytes (rev bs)"

lemma length_to_le_bytes [simp]: "length (to_le_bytes (w :: 'a::len word)) = LENGTH('a) div 8"
  by (simp add: to_le_bytes_def)

lemma length_to_be_bytes [simp]: "length (to_be_bytes (w :: 'a::len word)) = LENGTH('a) div 8"
  by (simp add: to_be_bytes_def)

lemma from_to_le_bytes:
  assumes "8 dvd LENGTH('a::len)"
  shows "from_le_bytes (to_le_bytes w) = (w :: 'a word)"
proof -
  have "((2::nat) ^ 8) ^ (LENGTH('a) div 8) = 2 ^ LENGTH('a)"
    using assms by (metis dvd_mult_div_cancel power_mult)
  then show ?thesis
    by (simp only: from_le_bytes_def to_le_bytes_def le_nat_nat_le len8) simp
qed

lemma to_from_le_bytes:
  assumes "length bs = LENGTH('a::len) div 8" and "8 dvd LENGTH('a)"
  shows "to_le_bytes (from_le_bytes bs :: 'a word) = bs"
proof -
  have "((2::nat) ^ 8) ^ (LENGTH('a) div 8) = 2 ^ LENGTH('a)"
    using assms(2) by (metis dvd_mult_div_cancel power_mult)
  with le_nat_less [of bs] assms(1) have "le_nat bs < 2 ^ LENGTH('a)" by (simp only: len8)
  then have "unat (from_le_bytes bs :: 'a word) = le_nat bs"
    by (simp add: from_le_bytes_def unat_of_nat)
  with assms(1) show ?thesis
    by (metis to_le_bytes_def nat_le_le_nat)
qed

lemma le_nat_to_le_bytes: "8 dvd LENGTH('a) \<Longrightarrow> le_nat (to_le_bytes (w :: 'a::len word)) = unat w"
proof -
  assume "8 dvd LENGTH('a)"
  then have "(2 ^ 8) ^ (LENGTH('a) div 8) = (2 :: nat) ^ LENGTH('a)" by (metis dvd_mult_div_cancel power_mult)
  moreover have "unat w < 2 ^ LENGTH('a)" by (rule unsigned_less)
  ultimately show ?thesis by (simp add: to_le_bytes_def le_nat_nat_le)
qed

lemma from_to_be_bytes: "8 dvd LENGTH('a::len) \<Longrightarrow> from_be_bytes (to_be_bytes w) = (w :: 'a word)"
  by (simp add: from_be_bytes_def to_be_bytes_def from_to_le_bytes)

lemma to_from_be_bytes:
  "length bs = LENGTH('a::len) div 8 \<Longrightarrow> 8 dvd LENGTH('a) \<Longrightarrow>
    to_be_bytes (from_be_bytes bs :: 'a word) = bs"
  by (simp add: from_be_bytes_def to_be_bytes_def to_from_le_bytes)

lemmas word_bytes_simps [rust_simps] =
  from_to_le_bytes to_from_le_bytes from_to_be_bytes to_from_be_bytes

section \<open>Checked and saturating arithmetic\<close>

definition checked_add :: "'a::len word \<Rightarrow> 'a word \<Rightarrow> 'a word option" where
  "checked_add a b = (if unat a + unat b < 2 ^ LENGTH('a) then Some (a + b) else None)"

definition checked_sub :: "'a::len word \<Rightarrow> 'a word \<Rightarrow> 'a word option" where
  "checked_sub a b = (if b \<le> a then Some (a - b) else None)"

definition checked_mul :: "'a::len word \<Rightarrow> 'a word \<Rightarrow> 'a word option" where
  "checked_mul a b = (if unat a * unat b < 2 ^ LENGTH('a) then Some (a * b) else None)"

definition saturating_add :: "'a::len word \<Rightarrow> 'a word \<Rightarrow> 'a word" where
  "saturating_add a b = (if unat a + unat b < 2 ^ LENGTH('a) then a + b else - 1)"

definition saturating_sub :: "'a::len word \<Rightarrow> 'a word \<Rightarrow> 'a word" where
  "saturating_sub a b = (if b \<le> a then a - b else 0)"

definition saturating_mul :: "'a::len word \<Rightarrow> 'a word \<Rightarrow> 'a word" where
  "saturating_mul a b = (if unat a * unat b < 2 ^ LENGTH('a) then a * b else - 1)"

text \<open>\<open>div_ceil\<close> of the unsigned integers (the divisor is never zero where the code calls it).\<close>

definition div_ceil :: "nat \<Rightarrow> nat \<Rightarrow> nat" where
  "div_ceil a b = a div b + (if a mod b = 0 then 0 else 1)"

lemma unat_checked_add: "checked_add a b = Some c \<Longrightarrow> unat c = unat a + unat b"
  by (auto simp: checked_add_def unat_word_ariths split: if_splits)

lemma unat_checked_sub: "checked_sub a b = Some c \<Longrightarrow> unat c = unat a - unat b \<and> unat b \<le> unat a"
  by (auto simp: checked_sub_def unat_sub word_le_nat_alt split: if_splits)

lemma unat_checked_mul: "checked_mul a b = Some c \<Longrightarrow> unat c = unat a * unat b"
  by (auto simp: checked_mul_def unat_word_ariths split: if_splits)

lemma unat_saturating_sub: "unat (saturating_sub a b) = unat a - unat b"
  by (auto simp: saturating_sub_def unat_sub word_le_nat_alt)

lemma unat_minus_1: "unat (- 1 :: 'a::len word) = 2 ^ LENGTH('a) - 1"
  by (simp add: unsigned_minus_1_eq_mask mask_eq_exp_minus_1)

lemma unat_saturating_add: "unat (saturating_add a b) = min (unat a + unat b) (2 ^ LENGTH('a) - 1)"
  for a b :: "'a::len word"
  by (auto simp: saturating_add_def unat_word_ariths unat_minus_1)

lemma unat_saturating_mul: "unat (saturating_mul a b) = min (unat a * unat b) (2 ^ LENGTH('a) - 1)"
  for a b :: "'a::len word"
  by (auto simp: saturating_mul_def unat_word_ariths unat_minus_1)

lemma div_ceil_bounds: "0 < b \<Longrightarrow> a \<le> div_ceil a b * b \<and> div_ceil a b * b < a + b"
proof -
  assume b: "0 < b"
  have 1: "a = a div b * b + a mod b" by simp
  have 2: "a mod b < b" using b by simp
  show ?thesis
  proof (cases "a mod b = 0")
    case True
    with 1 2 show ?thesis by (simp add: div_ceil_def)
  next
    case False
    then have "div_ceil a b * b = a div b * b + b" by (simp add: div_ceil_def)
    with 1 2 False show ?thesis by linarith
  qed
qed

lemma div_ceil_le: "0 < b \<Longrightarrow> a \<le> n * b \<Longrightarrow> div_ceil a b \<le> n"
proof -
  assume b: "0 < b" and a: "a \<le> n * b"
  from div_ceil_bounds [OF b, of a] a have "div_ceil a b * b < Suc n * b" by simp
  then show "div_ceil a b \<le> n" using mult_less_cancel2 less_Suc_eq_le by blast
qed

lemmas checked_simps [rust_simps] = unat_saturating_sub unat_saturating_add unat_saturating_mul

section \<open>Words and slices\<close>

lemma unat_drop_bit: "unat (drop_bit n w) = unat w div 2 ^ n"
  by (metis drop_bit_eq_div unat_drop_bit_eq)

lemma unat_and_mask: "unat (w AND mask n) = unat w mod 2 ^ n"
  by (metis take_bit_eq_mask take_bit_eq_mod unsigned_take_bit_eq)

lemma unat_ucast: "unat (ucast (w :: 'a::len word) :: 'b::len word) = unat w mod 2 ^ LENGTH('b)"
  by (simp add: unsigned_ucast_eq take_bit_eq_mod)

lemma unat_ucast_up:
  assumes "LENGTH('a::len) \<le> LENGTH('b::len)"
  shows "unat (ucast (w :: 'a word) :: 'b word) = unat w"
proof -
  have "unat w < 2 ^ LENGTH('a)" by simp
  also have "\<dots> \<le> 2 ^ LENGTH('b)" using assms by simp
  finally show ?thesis by (simp add: unat_ucast)
qed

lemma unat_diff: "unat (x - y :: 'a::len word) = (unat x + 2 ^ LENGTH('a) - unat y) mod 2 ^ LENGTH('a)"
proof -
  have "unat y \<le> unat x + 2 ^ LENGTH('a)"
    by (metis less_imp_le trans_le_add2 unsigned_less)
  then have "word_of_nat (unat x + 2 ^ LENGTH('a) - unat y) = x - y"
    by (simp add: of_nat_diff)
  then show ?thesis by (metis unat_of_nat)
qed

lemma unat_diff_diff:
  "unat (x - y - z :: 'a::len word) = (unat x + 2 * 2 ^ LENGTH('a) - unat y - unat z) mod 2 ^ LENGTH('a)"
proof -
  have "unat y < 2 ^ LENGTH('a)" "unat z < 2 ^ LENGTH('a)" by simp_all
  then have "unat y + unat z \<le> unat x + 2 * 2 ^ LENGTH('a)" by linarith
  then have "word_of_nat (unat x + 2 * 2 ^ LENGTH('a) - (unat y + unat z)) = x - y - z"
    by (subst of_nat_diff) simp_all
  then show ?thesis by (metis unat_of_nat diff_diff_left)
qed

lemma unat_add_add:
  "unat x + unat y + unat z < 2 ^ LENGTH('a) \<Longrightarrow> unat (x + y + z :: 'a::len word) = unat x + unat y + unat z"
  by (simp add: unat_word_ariths)

lemmas unat_word_simps [rust_simps] = unat_drop_bit unat_and_mask unat_ucast

lemma mul_div_le: "b \<le> n \<Longrightarrow> a * b div n \<le> (a :: nat)"
proof (cases "n = 0")
  case False
  assume "b \<le> n"
  then have "a * b div n \<le> a * n div n" by (intro div_le_mono mult_le_mono2)
  with False show ?thesis by simp
qed simp

lemma unat_widening_mul:
  fixes a :: "'a::len word" and b :: "'b::len word"
  assumes "LENGTH('a) + LENGTH('b) \<le> LENGTH('c::len)"
  shows "unat ((ucast a :: 'c word) * ucast b) = unat a * unat b"
proof -
  have "unat a * unat b < 2 ^ LENGTH('a) * 2 ^ LENGTH('b)"
    by (rule mult_strict_mono) simp_all
  also have "\<dots> \<le> 2 ^ LENGTH('c)" using assms by (simp flip: power_add)
  finally show ?thesis using assms by (simp add: unat_word_ariths unat_ucast_up)
qed

lemma unat_widening_add:
  fixes a b :: "'a::len word"
  assumes "LENGTH('a) < LENGTH('c::len)"
  shows "unat ((ucast a :: 'c word) + ucast b) = unat a + unat b"
proof -
  have "unat a + unat b < 2 * 2 ^ LENGTH('a)"
    using unsigned_less [of a, where ?'a = nat] unsigned_less [of b, where ?'a = nat] by linarith
  also have "\<dots> \<le> 2 ^ LENGTH('c)" using assms power_increasing [of "Suc LENGTH('a)" "LENGTH('c)" "2::nat"] by simp
  finally show ?thesis using assms by (simp add: unat_word_ariths unat_ucast_up)
qed

text \<open>\<open>subrange bs i j\<close> is \<open>bs[i..j]\<close> where the range is in bounds.\<close>

definition subrange :: "'a list \<Rightarrow> nat \<Rightarrow> nat \<Rightarrow> 'a list" where
  "subrange bs i j = take (j - i) (drop i bs)"

lemma length_subrange [simp]: "j \<le> length bs \<Longrightarrow> length (subrange bs i j) = j - i"
  by (simp add: subrange_def)

lemma subrange_append1: "j \<le> length xs \<Longrightarrow> subrange (xs @ ys) i j = subrange xs i j"
  by (simp add: subrange_def)

lemma subrange_append2:
  "length xs \<le> i \<Longrightarrow> subrange (xs @ ys) i j = subrange ys (i - length xs) (j - length xs)"
  by (simp add: subrange_def)

lemma subrange_self: "subrange xs 0 (length xs) = xs"
  by (simp add: subrange_def)

lemma subrange_full: "length xs = j \<Longrightarrow> subrange xs 0 j = xs"
  by (simp add: subrange_def)

lemma subrange_join: "i \<le> j \<Longrightarrow> j \<le> k \<Longrightarrow> subrange bs i j @ subrange bs j k = subrange bs i k"
proof -
  assume "i \<le> j" "j \<le> k"
  then have "take (k - i) (drop i bs) = take (j - i) (drop i bs) @ take (k - j) (drop (j - i) (drop i bs))"
    by (metis Nat.diff_diff_eq diff_add_inverse2 le_add_diff_inverse take_add Nat.add_diff_assoc2 add.commute)
  with \<open>i \<le> j\<close> show ?thesis by (simp add: subrange_def)
qed

lemma subrange_join_append:
  "i \<le> j \<Longrightarrow> j \<le> k \<Longrightarrow> subrange bs i j @ subrange bs j k @ rest = subrange bs i k @ rest"
  by (metis append_assoc subrange_join)

lemma subrange_single: "i < length bs \<Longrightarrow> subrange bs i (Suc i) = [bs ! i]"
  by (simp add: subrange_def take_Suc_conv_app_nth)

lemma subrange_Cons: "0 < i \<Longrightarrow> subrange (x # xs) i j = subrange xs (i - 1) (j - 1)"
  by (cases i; cases j) (simp_all add: subrange_def)

lemma subrange_take: "subrange bs 0 j = take j bs"
  by (simp add: subrange_def)

lemma subrange_drop: "subrange bs i (length bs) = drop i bs"
  by (simp add: subrange_def)

lemmas subrange_simps = subrange_append1 subrange_append2 subrange_full subrange_Cons

section \<open>The digest interface\<close>

text \<open>
  The coordinator calls SHA-256 through the \<open>sha2\<close> crate: the models of its code take the digest as
  an argument, and this is all they rely on. \<open>Sha256\<close> interprets it on the standard's function.
\<close>

locale hash32 =
  fixes sha :: "bytes \<Rightarrow> bytes"
  assumes length_sha [simp]: "length (sha m) = 32"

end
