(* ===== verification/Wide.thy ===== *)
theory Wide
  imports Prelude
begin

text \<open>
  \<open>rust-engine/src/wide.rs\<close>: the 64-bit intermediates of the limb arithmetic. The source
  compiles one of two implementations of the same operations: \<open>u64\<close> on native targets and a pair
  of 32-bit words (\<open>portable::Wide\<close>) for SPIR-V. The record \<open>wide_ops\<close> is the module \<open>w\<close> the
  arithmetic is written against, the locale \<open>wide_arith\<close> the contract its clients rely on, and
  both implementations interpret it.
\<close>

section \<open>The interface\<close>

record 'w wide_ops =
  w_zero :: 'w
  w_extend :: "u32 \<Rightarrow> 'w"
  w_mul :: "u32 \<Rightarrow> u32 \<Rightarrow> 'w"
  w_low :: "'w \<Rightarrow> u32"
  w_high :: "'w \<Rightarrow> 'w"
  w_nonzero :: "'w \<Rightarrow> bool"
  w_sign :: "'w \<Rightarrow> 'w"
  w_scale :: "'w \<Rightarrow> u32 \<Rightarrow> 'w"
  w_sub :: "'w \<Rightarrow> 'w \<Rightarrow> 'w"
  w_add :: "'w \<Rightarrow> 'w \<Rightarrow> 'w"

section \<open>The native form: u64\<close>

definition wide_extend :: "u32 \<Rightarrow> u64" where
  "wide_extend x = ucast x"

definition wide_mul :: "u32 \<Rightarrow> u32 \<Rightarrow> u64" where
  "wide_mul a b = ucast a * ucast b"

definition wide_low :: "u64 \<Rightarrow> u32" where
  "wide_low x = ucast x"

definition wide_high :: "u64 \<Rightarrow> u64" where
  "wide_high x = drop_bit 32 x"

definition wide_nonzero :: "u64 \<Rightarrow> bool" where
  "wide_nonzero x \<longleftrightarrow> x \<noteq> 0"

definition wide_sign :: "u64 \<Rightarrow> u64" where
  "wide_sign x = drop_bit 63 x"

definition wide_scale :: "u64 \<Rightarrow> u32 \<Rightarrow> u64" where
  "wide_scale x k = x * ucast k"

definition wide_sub :: "u64 \<Rightarrow> u64 \<Rightarrow> u64" where
  "wide_sub a b = a - b"

definition native_wide :: "u64 wide_ops" where
  "native_wide = \<lparr>w_zero = 0, w_extend = wide_extend, w_mul = wide_mul, w_low = wide_low,
     w_high = wide_high, w_nonzero = wide_nonzero, w_sign = wide_sign, w_scale = wide_scale,
     w_sub = wide_sub, w_add = (+)\<rparr>"

section \<open>The portable form: two words\<close>

record portable_wide =
  lo :: u32
  hi :: u32

definition portable_zero :: portable_wide where
  "portable_zero = \<lparr>lo = 0, hi = 0\<rparr>"

definition portable_extend :: "u32 \<Rightarrow> portable_wide" where
  "portable_extend x = \<lparr>lo = x, hi = 0\<rparr>"

definition portable_mul :: "u32 \<Rightarrow> u32 \<Rightarrow> portable_wide" where
  "portable_mul a b =
     (let a0 = a AND 0xffff; a1 = drop_bit 16 a; b0 = b AND 0xffff; b1 = drop_bit 16 b;
          low = a0 * b0;
          cross = a1 * b0;
          middle = a0 * b1 + drop_bit 16 low + (cross AND 0xffff)
      in \<lparr>lo = push_bit 16 middle OR (low AND 0xffff),
          hi = a1 * b1 + drop_bit 16 middle + drop_bit 16 cross\<rparr>)"

definition portable_low :: "portable_wide \<Rightarrow> u32" where
  "portable_low x = lo x"

definition portable_high :: "portable_wide \<Rightarrow> portable_wide" where
  "portable_high x = \<lparr>lo = hi x, hi = 0\<rparr>"

definition portable_nonzero :: "portable_wide \<Rightarrow> bool" where
  "portable_nonzero x \<longleftrightarrow> (lo x OR hi x) \<noteq> 0"

definition portable_sign :: "portable_wide \<Rightarrow> portable_wide" where
  "portable_sign x = \<lparr>lo = drop_bit 31 (hi x), hi = 0\<rparr>"

definition portable_scale :: "portable_wide \<Rightarrow> u32 \<Rightarrow> portable_wide" where
  "portable_scale x k =
     (let product = portable_mul (lo x) k
      in \<lparr>lo = lo product, hi = hi product + hi x * k\<rparr>)"

definition portable_sub :: "portable_wide \<Rightarrow> portable_wide \<Rightarrow> portable_wide" where
  "portable_sub a b =
     \<lparr>lo = lo a - lo b, hi = hi a - hi b - (if lo a < lo b then 1 else 0)\<rparr>"

definition portable_add :: "portable_wide \<Rightarrow> portable_wide \<Rightarrow> portable_wide" where
  "portable_add a b =
     (let l = lo a + lo b
      in \<lparr>lo = l, hi = hi a + hi b + (if l < lo a then 1 else 0)\<rparr>)"

definition portable :: "portable_wide wide_ops" where
  "portable = \<lparr>w_zero = portable_zero, w_extend = portable_extend, w_mul = portable_mul,
     w_low = portable_low, w_high = portable_high, w_nonzero = portable_nonzero,
     w_sign = portable_sign, w_scale = portable_scale, w_sub = portable_sub,
     w_add = portable_add\<rparr>"

section \<open>The contract\<close>

text \<open>\<open>val\<close> reads a wide value as a number below \<open>2 ^ 64\<close>.\<close>

locale wide_arith =
  fixes W :: "'w wide_ops" and val :: "'w \<Rightarrow> nat"
  assumes val_less: "val x < 2 ^ 64"
    and val_zero: "val (w_zero W) = 0"
    and val_extend: "val (w_extend W a) = unat a"
    and val_mul: "val (w_mul W a b) = unat a * unat b"
    and unat_low: "unat (w_low W x) = val x mod 2 ^ 32"
    and val_high: "val (w_high W x) = val x div 2 ^ 32"
    and nonzero_iff: "w_nonzero W x \<longleftrightarrow> val x \<noteq> 0"
    and val_sign: "val (w_sign W x) = val x div 2 ^ 63"
    and val_scale: "val (w_scale W x k) = val x * unat k mod 2 ^ 64"
    and val_sub: "val (w_sub W x y) = (val x + 2 ^ 64 - val y) mod 2 ^ 64"
    and val_add: "val (w_add W x y) = (val x + val y) mod 2 ^ 64"
begin

lemmas wide_simps =
  val_zero val_extend val_mul unat_low val_high nonzero_iff val_sign val_scale val_sub val_add

lemma low_high: "unat (w_low W x) + 2 ^ 32 * val (w_high W x) = val x"
  by (simp add: unat_low val_high)

lemma val_add_exact: "val x + val y < 2 ^ 64 \<Longrightarrow> val (w_add W x y) = val x + val y"
  by (simp add: val_add)

lemma val_scale_exact: "val x * unat k < 2 ^ 64 \<Longrightarrow> val (w_scale W x k) = val x * unat k"
  by (simp add: val_scale)

end

section \<open>Both implementations meet it\<close>

lemma unat_u32_less: "unat (a :: u32) < 2 ^ 32"
  using unsigned_less [of a] by simp

lemma unat_wide_mul: "unat (wide_mul a b) = unat a * unat b"
proof -
  have "unat a * unat b < 2 ^ 32 * 2 ^ 32"
    by (intro mult_strict_mono unat_u32_less) simp_all
  then show ?thesis
    by (simp add: wide_mul_def unat_word_ariths unat_ucast_up)
qed

lemma unat_wide_extend: "unat (wide_extend a) = unat a"
  by (simp add: wide_extend_def unat_ucast_up)

lemma unat_wide_low: "unat (wide_low x) = unat x mod 2 ^ 32"
  by (simp add: wide_low_def unat_ucast)

lemma unat_wide_scale: "unat (wide_scale x k) = unat x * unat k mod 2 ^ 64"
  by (simp add: wide_scale_def unat_ucast_up unat_word_ariths)

lemma word_div_mod_64: "unat (x :: u64) < 2 ^ 64"
  using unsigned_less [of x] by simp

interpretation native: wide_arith native_wide unat
proof
  fix x y :: u64 and k :: u32
  show "unat x < 2 ^ 64" by (rule word_div_mod_64)
  show "unat (w_sub native_wide x y) = (unat x + 2 ^ 64 - unat y) mod 2 ^ 64"
    by (simp add: native_wide_def wide_sub_def unat_diff)
qed (simp_all add: native_wide_def unat_wide_mul unat_wide_extend unat_wide_low unat_wide_scale
    wide_high_def wide_nonzero_def wide_sign_def unat_drop_bit unat_word_ariths unat_eq_zero)

text \<open>The four 16-bit products of \<open>portable_mul\<close> never overflow a word.\<close>

definition portable_val :: "portable_wide \<Rightarrow> nat" where
  "portable_val x = unat (lo x) + 2 ^ 32 * unat (hi x)"

lemma half_product_less:
  assumes "x < 2 ^ 16" and "y < 2 ^ 16"
  shows "x * y \<le> (2 ^ 16 - 1) * (2 ^ 16 - 1 :: nat)"
  using assms by (intro mult_le_mono) simp_all

lemma unat_and_ffff: "unat (a AND 0xffff :: u32) = unat a mod 2 ^ 16"
  using unat_and_mask [of a 16] by (simp add: mask_eq_exp_minus_1)

lemma or_disjoint_16: "unat (push_bit 16 m OR (l AND 0xffff) :: u32) = unat m mod 2 ^ 16 * 2 ^ 16 + unat l mod 2 ^ 16"
proof -
  have "push_bit 16 m OR (l AND 0xffff) = push_bit 16 m + (l AND 0xffff)"
  proof (rule disjunctive_add [symmetric])
    fix n
    have *: "(0xffff :: u32) = mask 16" by (simp add: mask_eq_exp_minus_1)
    show "\<not> bit (push_bit 16 m) n \<or> \<not> bit (l AND 0xffff) n"
      unfolding * by (auto simp: bit_simps)
  qed
  moreover have "unat (push_bit 16 m :: u32) = unat m mod 2 ^ 16 * 2 ^ 16"
    by (simp add: unsigned_push_bit_eq take_bit_eq_mod push_bit_eq_mult mult_mod_left unat_word_ariths)
  ultimately show ?thesis
    by (simp add: unat_word_ariths unat_and_ffff)
qed

lemma recombine_16:
  fixes M A C D E :: nat
  assumes "M = 2 ^ 16 * M1 + M0" "A = 2 ^ 16 * A1 + A0" "C = 2 ^ 16 * C1 + C0" "M = D + A1 + C0"
  shows "M0 * 2 ^ 16 + A0 + 2 ^ 32 * (E + M1 + C1) = E * 2 ^ 32 + (D + C) * 2 ^ 16 + A"
  using assms by simp

lemma portable_mul_val: "portable_val (portable_mul a b) = unat a * unat b"
proof -
  define a0 a1 b0 b1 where ab: "a0 = unat a mod 2 ^ 16" "a1 = unat a div 2 ^ 16"
    "b0 = unat b mod 2 ^ 16" "b1 = unat b div 2 ^ 16"
  have less: "a0 < 2 ^ 16" "a1 < 2 ^ 16" "b0 < 2 ^ 16" "b1 < 2 ^ 16"
    using unat_u32_less [of a] unat_u32_less [of b] by (auto simp: ab)
  define m where "m = a0 * b1 + a0 * b0 div 2 ^ 16 + a1 * b0 mod 2 ^ 16"
  note P = half_product_less [OF less(1,3)] half_product_less [OF less(1,4)]
    half_product_less [OF less(2,3)] half_product_less [OF less(2,4)]
  have low: "unat ((a AND 0xffff) * (b AND 0xffff)) = a0 * b0"
    using P(1) by (simp add: unat_word_ariths unat_and_ffff ab)
  have cross: "unat (drop_bit 16 a * (b AND 0xffff)) = a1 * b0"
    using P(3) by (simp add: unat_word_ariths unat_and_ffff unat_drop_bit ab)
  have middle: "unat ((a AND 0xffff) * drop_bit 16 b + drop_bit 16 ((a AND 0xffff) * (b AND 0xffff))
      + (drop_bit 16 a * (b AND 0xffff) AND 0xffff)) = m"
  proof -
    have "unat ((a AND 0xffff) * drop_bit 16 b) = a0 * b1"
      using P(2) by (simp add: unat_word_ariths unat_and_ffff unat_drop_bit ab)
    then show ?thesis
      using P(1,2,3) by (simp add: unat_word_ariths(1) unat_and_ffff unat_drop_bit low cross m_def)
  qed
  have m_less: "m < 2 ^ 32" using P(1,2,3) by (simp add: m_def)
  have high: "unat (drop_bit 16 a * drop_bit 16 b) = a1 * b1"
    using P(4) by (simp add: unat_word_ariths unat_drop_bit ab)
  have eq: "unat a * unat b = a1 * b1 * 2 ^ 32 + (a0 * b1 + a1 * b0) * 2 ^ 16 + a0 * b0"
  proof -
    have "unat a = a1 * 2 ^ 16 + a0" "unat b = b1 * 2 ^ 16 + b0" by (simp_all add: ab)
    then show ?thesis by (simp only:) (simp add: algebra_simps)
  qed
  have split: "m mod 2 ^ 16 * 2 ^ 16 + a0 * b0 mod 2 ^ 16 + 2 ^ 32 * (a1 * b1 + m div 2 ^ 16 + a1 * b0 div 2 ^ 16)
      = unat a * unat b"
  proof -
    have "m = 2 ^ 16 * (m div 2 ^ 16) + m mod 2 ^ 16"
      "a0 * b0 = 2 ^ 16 * (a0 * b0 div 2 ^ 16) + a0 * b0 mod 2 ^ 16"
      "a1 * b0 = 2 ^ 16 * (a1 * b0 div 2 ^ 16) + a1 * b0 mod 2 ^ 16"
      by simp_all
    moreover have "m = a0 * b1 + a0 * b0 div 2 ^ 16 + a1 * b0 mod 2 ^ 16" by (fact m_def)
    ultimately show ?thesis unfolding eq by (rule recombine_16)
  qed
  have "a1 * b1 + m div 2 ^ 16 + a1 * b0 div 2 ^ 16 < 2 ^ 32"
  proof -
    have "unat a * unat b < 2 ^ 32 * 2 ^ 32"
      by (intro mult_strict_mono unat_u32_less) simp_all
    with split show ?thesis by simp
  qed
  then have "unat (drop_bit 16 a * drop_bit 16 b + drop_bit 16 ((a AND 0xffff) * drop_bit 16 b
      + drop_bit 16 ((a AND 0xffff) * (b AND 0xffff)) + (drop_bit 16 a * (b AND 0xffff) AND 0xffff))
      + drop_bit 16 (drop_bit 16 a * (b AND 0xffff))) = a1 * b1 + m div 2 ^ 16 + a1 * b0 div 2 ^ 16"
    by (subst unat_add_add) (simp_all only: unat_drop_bit high middle cross, simp_all)
  then show ?thesis
    using split by (simp add: portable_val_def portable_mul_def Let_def or_disjoint_16 middle low)
qed

lemma portable_val_less: "portable_val x < 2 ^ 64"
proof -
  have "unat (hi x) \<le> 2 ^ 32 - 1" "unat (lo x) < 2 ^ 32"
    using unat_u32_less [of "hi x"] unat_u32_less [of "lo x"] by simp_all
  then show ?thesis by (simp add: portable_val_def)
qed

text \<open>A pair of word sums with the carry (or borrow) of the low word is the sum modulo \<open>2 ^ 64\<close>.\<close>

lemma pair_mod:
  fixes l h :: nat
  assumes "l < 2 ^ 32"
  shows "l + 2 ^ 32 * (h mod 2 ^ 32) = (l + 2 ^ 32 * h) mod 2 ^ 64"
proof -
  have "(l + 2 ^ 32 * h) mod (2 ^ 32 * 2 ^ 32) = 2 ^ 32 * ((l + 2 ^ 32 * h) div 2 ^ 32 mod 2 ^ 32) + (l + 2 ^ 32 * h) mod 2 ^ 32"
    by (rule mod_mult2_eq)
  with assms show ?thesis by simp
qed

lemma portable_add_val: "portable_val (portable_add x y) = (portable_val x + portable_val y) mod 2 ^ 64"
proof -
  let ?c = "if lo x + lo y < lo x then 1 else 0 :: nat"
  have lx: "unat (lo x) < 2 ^ 32" and ly: "unat (lo y) < 2 ^ 32" by (rule unat_u32_less)+
  have carry: "unat (lo x + lo y) + 2 ^ 32 * ?c = unat (lo x) + unat (lo y)"
    using lx ly by (auto simp: word_less_nat_alt unat_word_ariths mod_if)
  have "unat (hi (portable_add x y)) = (unat (hi x) + unat (hi y) + ?c) mod 2 ^ 32"
    by (auto simp: portable_add_def Let_def unat_word_ariths mod_simps)
  then have "portable_val (portable_add x y)
      = (unat (lo x + lo y) + 2 ^ 32 * (unat (hi x) + unat (hi y) + ?c)) mod 2 ^ 64"
    using pair_mod [OF unat_u32_less [of "lo x + lo y"], of "unat (hi x) + unat (hi y) + ?c"]
    by (simp add: portable_val_def portable_add_def Let_def)
  also have "unat (lo x + lo y) + 2 ^ 32 * (unat (hi x) + unat (hi y) + ?c) = portable_val x + portable_val y"
    using carry by (simp add: portable_val_def algebra_simps)
  finally show ?thesis .
qed

lemma portable_sub_val:
  "portable_val (portable_sub x y) = (portable_val x + 2 ^ 64 - portable_val y) mod 2 ^ 64"
proof -
  let ?b = "if lo x < lo y then 1 else 0 :: nat"
  let ?h = "unat (hi x) + 2 * 2 ^ 32 - unat (hi y) - ?b"
  have lx: "unat (lo x) < 2 ^ 32" and ly: "unat (lo y) < 2 ^ 32" and hy: "unat (hi y) < 2 ^ 32"
    by (rule unat_u32_less)+
  have borrow: "unat (lo x - lo y) + unat (lo y) = unat (lo x) + 2 ^ 32 * ?b"
    using lx ly by (auto simp: word_less_nat_alt unat_diff mod_if)
  have h: "unat (hi (portable_sub x y)) = ?h mod 2 ^ 32"
    by (simp add: portable_sub_def unat_diff_diff)
  have "portable_val (portable_sub x y) = (unat (lo x - lo y) + 2 ^ 32 * ?h) mod 2 ^ 64"
    using pair_mod [OF unat_u32_less [of "lo x - lo y"], of ?h] h
    by (simp add: portable_val_def portable_sub_def)
  also have "unat (lo x - lo y) + 2 ^ 32 * ?h = portable_val x + 2 ^ 64 - portable_val y + 2 ^ 64"
    using borrow hy ly unfolding portable_val_def by (cases "lo x < lo y"; simp; linarith)
  finally show ?thesis by (simp only: mod_add_self2)
qed

lemma portable_scale_val: "portable_val (portable_scale x k) = portable_val x * unat k mod 2 ^ 64"
proof -
  let ?p = "portable_mul (lo x) k"
  have "unat (hi ?p + hi x * k) = (unat (hi ?p) + unat (hi x) * unat k) mod 2 ^ 32"
    by (simp add: unat_word_ariths mod_simps)
  then have "portable_val (portable_scale x k)
      = (unat (lo ?p) + 2 ^ 32 * (unat (hi ?p) + unat (hi x) * unat k)) mod 2 ^ 64"
    using pair_mod [OF unat_u32_less [of "lo ?p"], of "unat (hi ?p) + unat (hi x) * unat k"]
    by (simp add: portable_val_def portable_scale_def Let_def)
  also have "unat (lo ?p) + 2 ^ 32 * (unat (hi ?p) + unat (hi x) * unat k) = portable_val x * unat k"
    using portable_mul_val [of "lo x" k] by (simp add: portable_val_def algebra_simps)
  finally show ?thesis .
qed

interpretation portable: wide_arith portable portable_val
proof
  fix x y :: portable_wide and a b k :: u32
  show "portable_val x < 2 ^ 64" by (rule portable_val_less)
  show "unat (w_low portable x) = portable_val x mod 2 ^ 32"
    using unat_u32_less [of "lo x"] by (simp add: portable_def portable_low_def portable_val_def)
  show "portable_val (w_high portable x) = portable_val x div 2 ^ 32"
    using unat_u32_less [of "lo x"] by (simp add: portable_def portable_high_def portable_val_def)
  show "portable_val (w_sign portable x) = portable_val x div 2 ^ 63"
  proof -
    have "(unat (lo x) + 2 ^ 32 * unat (hi x)) div (2 ^ 32 * 2 ^ 31) = unat (hi x) div 2 ^ 31"
      using unat_u32_less [of "lo x"] by (simp only: div_mult2_eq) simp
    then show ?thesis
      by (simp add: portable_def portable_sign_def portable_val_def unat_drop_bit)
  qed
  show "w_nonzero portable x \<longleftrightarrow> portable_val x \<noteq> 0"
    by (auto simp: portable_def portable_nonzero_def portable_val_def unat_eq_zero or_eq_0_iff)
  show "portable_val (w_mul portable a b) = unat a * unat b"
    by (simp add: portable_def portable_mul_val)
  show "portable_val (w_scale portable x k) = portable_val x * unat k mod 2 ^ 64"
    by (simp only: portable_def wide_ops.simps portable_scale_val)
  show "portable_val (w_sub portable x y) = (portable_val x + 2 ^ 64 - portable_val y) mod 2 ^ 64"
    by (simp only: portable_def wide_ops.simps portable_sub_val)
  show "portable_val (w_add portable x y) = (portable_val x + portable_val y) mod 2 ^ 64"
    by (simp only: portable_def wide_ops.simps portable_add_val)
qed (simp_all add: portable_def portable_zero_def portable_extend_def portable_val_def)

end
