(* ===== verification/Field.thy ===== *)
theory Field
  imports Wide
begin

text \<open>
  \<open>rust-engine/src/field.rs\<close>: canonical field elements modulo \<open>p = 2^256 - 2^32 - 977\<close>, eight
  32-bit limbs, least significant first. Every operation takes the wide arithmetic \<open>W\<close> it is
  compiled against; the lemmas are proved once, in the contract \<open>wide_arith\<close>, and hold for the
  native and the portable build.
\<close>

section \<open>Definitions\<close>

definition P :: limbs where
  "P = [0xfffffc2f, 0xfffffffe, 0xffffffff, 0xffffffff, 0xffffffff, 0xffffffff, 0xffffffff,
        0xffffffff]"

text \<open>The SPIR-V word-by-word equality.\<close>

definition equal_limbs :: "limbs \<Rightarrow> limbs \<Rightarrow> bool" where
  "equal_limbs a b \<longleftrightarrow>
     ((a ! 0 XOR b ! 0) OR (a ! 1 XOR b ! 1) OR (a ! 2 XOR b ! 2) OR (a ! 3 XOR b ! 3) OR
      (a ! 4 XOR b ! 4) OR (a ! 5 XOR b ! 5) OR (a ! 6 XOR b ! 6) OR (a ! 7 XOR b ! 7)) = 0"

fun sub_limbs :: "'w wide_ops \<Rightarrow> limbs \<Rightarrow> limbs \<Rightarrow> 'w \<Rightarrow> limbs \<times> 'w" where
  "sub_limbs W (a # as) (b # bs) borrow =
     (let v = w_sub W (w_extend W a) (w_add W (w_extend W b) borrow);
          (rs, out) = sub_limbs W as bs (w_sign W v)
      in (w_low W v # rs, out))"
| "sub_limbs W _ _ borrow = ([], borrow)"

definition subtract :: "'w wide_ops \<Rightarrow> limbs \<Rightarrow> limbs \<Rightarrow> limbs \<times> u32" where
  "subtract W a b = (let (r, borrow) = sub_limbs W a b (w_zero W) in (r, w_low W borrow))"

fun add_limbs :: "'w wide_ops \<Rightarrow> limbs \<Rightarrow> limbs \<Rightarrow> 'w \<Rightarrow> limbs \<times> 'w" where
  "add_limbs W (a # as) (b # bs) carry =
     (let c = w_add W carry (w_add W (w_extend W a) (w_extend W b));
          (rs, out) = add_limbs W as bs (w_high W c)
      in (w_low W c # rs, out))"
| "add_limbs W _ _ carry = ([], carry)"

definition field_ZERO :: limbs where
  "field_ZERO = replicate 8 0"

definition field_ONE :: limbs where
  "field_ONE = [1, 0, 0, 0, 0, 0, 0, 0]"

text \<open>
  The source repeats two bodies for the field and for the scalars, with the modulus \<open>P\<close> or \<open>N\<close>:
  the conditional subtraction of the modulus, and the modular sum. They are written once here,
  with the modulus \<open>M\<close> as an argument.
\<close>

definition reduce_once :: "'w wide_ops \<Rightarrow> limbs \<Rightarrow> limbs \<Rightarrow> limbs" where
  "reduce_once W M words = (let (r, borrow) = subtract W words M in if borrow = 0 then r else words)"

definition sum_mod :: "'w wide_ops \<Rightarrow> limbs \<Rightarrow> limbs \<Rightarrow> limbs \<Rightarrow> limbs" where
  "sum_mod W M a b =
     (let (words, carry) = add_limbs W a b (w_zero W);
          (r, borrow) = subtract W words M
      in if w_nonzero W carry \<or> borrow = 0 then r else words)"

definition reduced :: "'w wide_ops \<Rightarrow> limbs \<Rightarrow> limbs" where
  "reduced W words = reduce_once W P words"

definition add_mod :: "'w wide_ops \<Rightarrow> limbs \<Rightarrow> limbs \<Rightarrow> limbs" where
  "add_mod W a b = sum_mod W P a b"

definition sub_mod :: "'w wide_ops \<Rightarrow> limbs \<Rightarrow> limbs \<Rightarrow> limbs" where
  "sub_mod W a b =
     (let (words, borrow) = subtract W a b;
          m = 0 - borrow
      in fst (add_limbs W words (map (\<lambda>x. x AND m) P) (w_zero W)))"

text \<open>
  \<open>reduce_wide\<close>: the first pass folds the high half in as \<open>977\<close> and a shift by one limb; the
  two later passes (the same statements twice in the source) fold the limb above the eighth.
\<close>

fun reduce_pass :: "'w wide_ops \<Rightarrow> limbs \<Rightarrow> limbs \<Rightarrow> limbs \<Rightarrow> 'w \<Rightarrow> limbs \<times> 'w" where
  "reduce_pass W (l # ls) (h # hs) (q # qs) carry =
     (let c = w_add W carry (w_add W (w_add W (w_extend W l) (w_mul W h 977)) (w_extend W q));
          (rs, out) = reduce_pass W ls hs qs (w_high W c)
      in (w_low W c # rs, out))"
| "reduce_pass W _ _ _ carry = ([], carry)"

fun carry_limbs :: "'w wide_ops \<Rightarrow> limbs \<Rightarrow> 'w \<Rightarrow> limbs \<times> 'w" where
  "carry_limbs W (a # as) carry =
     (let c = w_add W carry (w_extend W a);
          (rs, out) = carry_limbs W as (w_high W c)
      in (w_low W c # rs, out))"
| "carry_limbs W [] carry = ([], carry)"

definition fold_top :: "'w wide_ops \<Rightarrow> limbs \<Rightarrow> 'w \<Rightarrow> limbs \<times> 'w" where
  "fold_top W words t8 =
     (let c0 = w_add W (w_extend W (words ! 0)) (w_scale W t8 977);
          c1 = w_add W (w_add W (w_high W c0) (w_extend W (words ! 1))) t8;
          (rs, out) = carry_limbs W (drop 2 words) (w_high W c1)
      in (w_low W c0 # w_low W c1 # rs, out))"

definition reduce_wide :: "'w wide_ops \<Rightarrow> limbs \<Rightarrow> limbs" where
  "reduce_wide W t =
     (let c0 = w_add W (w_extend W (t ! 0)) (w_mul W (t ! 8) 977);
          (rs, carry) = reduce_pass W (take 7 (drop 1 t)) (take 7 (drop 9 t)) (take 7 (drop 8 t))
             (w_high W c0);
          t8 = w_add W carry (w_extend W (t ! 15));
          (words, overflow) = fold_top W (w_low W c0 # rs) t8
      in reduced W (fst (fold_top W words overflow)))"

text \<open>The explicit columns of \<open>mul_mod\<close>: the column and the limbs of \<open>self\<close> it multiplies.\<close>

definition mul_table :: "(nat \<times> nat list) list" where
  "mul_table =
    [(0, [0]), (1, [0, 1]), (2, [0, 1, 2]), (3, [0, 1, 2, 3]), (4, [0, 1, 2, 3, 4]),
     (5, [0, 1, 2, 3, 4, 5]), (6, [0, 1, 2, 3, 4, 5, 6]), (7, [0, 1, 2, 3, 4, 5, 6, 7]),
     (8, [1, 2, 3, 4, 5, 6, 7]), (9, [2, 3, 4, 5, 6, 7]), (10, [3, 4, 5, 6, 7]),
     (11, [4, 5, 6, 7]), (12, [5, 6, 7]), (13, [6, 7]), (14, [7])]"

fun column_terms :: "'w wide_ops \<Rightarrow> limbs \<Rightarrow> limbs \<Rightarrow> nat \<Rightarrow> nat list \<Rightarrow> 'w \<times> 'w \<Rightarrow> 'w \<times> 'w" where
  "column_terms W a b c [] lh = lh"
| "column_terms W a b c (i # is) (low, high) =
     (let product = w_mul W (a ! i) (b ! (c - i))
      in column_terms W a b c is
           (w_add W low (w_extend W (w_low W product)), w_add W high (w_high W product)))"

definition mul_column :: "'w wide_ops \<Rightarrow> limbs \<Rightarrow> limbs \<Rightarrow> nat \<times> nat list \<Rightarrow> 'w \<Rightarrow> u32 \<times> 'w" where
  "mul_column W a b ci carry =
     (let (low, high) = column_terms W a b (fst ci) (snd ci) (carry, w_zero W)
      in (w_low W low, w_add W (w_high W low) high))"

fun columns :: "'w wide_ops \<Rightarrow> (nat \<times> nat list \<Rightarrow> 'w \<Rightarrow> u32 \<times> 'w) \<Rightarrow> (nat \<times> nat list) list \<Rightarrow> 'w \<Rightarrow> limbs"
where
  "columns W f [] carry = [w_low W carry]"
| "columns W f (ci # cis) carry = (let (w, out) = f ci carry in w # columns W f cis out)"

definition mul_mod :: "'w wide_ops \<Rightarrow> limbs \<Rightarrow> limbs \<Rightarrow> limbs" where
  "mul_mod W a b = reduce_wide W (columns W (mul_column W a b) mul_table (w_zero W))"

definition square_table :: "(nat \<times> nat list) list" where
  "square_table =
    [(0, []), (1, [0]), (2, [0]), (3, [0, 1]), (4, [0, 1]), (5, [0, 1, 2]), (6, [0, 1, 2]),
     (7, [0, 1, 2, 3]), (8, [1, 2, 3]), (9, [2, 3, 4]), (10, [3, 4]), (11, [4, 5]), (12, [5]),
     (13, [6]), (14, [])]"

definition square_column :: "'w wide_ops \<Rightarrow> limbs \<Rightarrow> nat \<times> nat list \<Rightarrow> 'w \<Rightarrow> u32 \<times> 'w" where
  "square_column W a ci carry =
     (let c = fst ci;
          (low, high) = column_terms W a a c (snd ci) (w_zero W, w_zero W);
          low = w_scale W low 2;
          high = w_scale W high 2;
          (low, high) =
            (if c mod 2 = 0 then
               (let diagonal = w_mul W (a ! (c div 2)) (a ! (c div 2))
                in (w_add W low (w_extend W (w_low W diagonal)), w_add W high (w_high W diagonal)))
             else (low, high));
          low = w_add W low carry
      in (w_low W low, w_add W (w_high W low) high))"

definition square :: "'w wide_ops \<Rightarrow> limbs \<Rightarrow> limbs" where
  "square W a = reduce_wide W (columns W (square_column W a) square_table (w_zero W))"

fun square_n :: "'w wide_ops \<Rightarrow> limbs \<Rightarrow> nat \<Rightarrow> limbs" where
  "square_n W a 0 = a"
| "square_n W a (Suc n) = square_n W (square W a) n"

definition chain223 :: "'w wide_ops \<Rightarrow> limbs \<Rightarrow> limbs \<times> limbs \<times> limbs" where
  "chain223 W a =
     (let x2 = mul_mod W (square W a) a;
          x3 = mul_mod W (square W x2) a;
          x6 = mul_mod W (square_n W x3 3) x3;
          x9 = mul_mod W (square_n W x6 3) x3;
          x11 = mul_mod W (square_n W x9 2) x2;
          x22 = mul_mod W (square_n W x11 11) x11;
          x44 = mul_mod W (square_n W x22 22) x22;
          x88 = mul_mod W (square_n W x44 44) x44;
          x176 = mul_mod W (square_n W x88 88) x88;
          x220 = mul_mod W (square_n W x176 44) x44
      in (x2, x22, mul_mod W (square_n W x220 3) x3))"

definition inverse_chain :: "'w wide_ops \<Rightarrow> limbs \<Rightarrow> limbs" where
  "inverse_chain W a =
     (let (x2, x22, x223) = chain223 W a;
          y = mul_mod W (square_n W x223 23) x22;
          y = mul_mod W (square_n W y 5) a;
          y = mul_mod W (square_n W y 3) x2
      in mul_mod W (square_n W y 2) a)"

definition is_square :: "'w wide_ops \<Rightarrow> limbs \<Rightarrow> bool" where
  "is_square W a =
     (let (x2, x22, x223) = chain223 W a;
          y = mul_mod W (square_n W x223 23) x22;
          y = mul_mod W (square_n W y 6) x2
      in square W (square_n W y 2) = a)"

definition field_to_be_bytes :: "limbs \<Rightarrow> bytes" where
  "field_to_be_bytes a = concat (map to_be_bytes (rev a))"

section \<open>Canonical elements\<close>

definition p_nat :: nat where
  "p_nat = 2 ^ 256 - 2 ^ 32 - 977"

definition wf_limbs :: "limbs \<Rightarrow> bool" where
  "wf_limbs a \<longleftrightarrow> length a = 8"

definition canonical :: "limbs \<Rightarrow> bool" where
  "canonical a \<longleftrightarrow> length a = 8 \<and> le_nat a < p_nat"

lemma le_nat_P: "le_nat P = p_nat"
  by (simp add: P_def p_nat_def)

lemma le_nat_limbs_less: "length a = 8 \<Longrightarrow> le_nat (a :: limbs) < 2 ^ 256"
  using le_nat_less [of a] by simp

lemma le_nat_Cons_32: "le_nat ((x :: u32) # xs) = unat x + 2 ^ 32 * le_nat xs"
  by simp

section \<open>Chains of limbs\<close>

text \<open>One limb of a subtraction: the low word and the borrow out of the wrapped difference.\<close>

lemma borrow_step:
  fixes A B c v :: nat
  assumes "A < 2 ^ 32" "B < 2 ^ 32" "c \<le> 1" and v: "v = (A + 2 ^ 64 - (B + c)) mod 2 ^ 64"
  shows "v mod 2 ^ 32 + B + c = A + 2 ^ 32 * (v div 2 ^ 63)"
proof (cases "B + c \<le> A")
  case True
  then have "A + 2 ^ 64 - (B + c) = 2 ^ 64 + (A - (B + c))" by linarith
  with v assms(1) have "v = A - (B + c)" by (simp only: mod_add_self1) simp
  with True assms(1) show ?thesis by simp
next
  case False
  define d where "d = A + 2 ^ 32 - (B + c)"
  have d: "d < 2 ^ 32" "d + B + c = A + 2 ^ 32" using False assms by (auto simp: d_def)
  have v': "v = 2 ^ 32 * (2 ^ 32 - 1) + d" using v False assms by (simp add: d_def)
  have "v mod 2 ^ 32 = d" using d(1) by (simp only: v' mod_mult_self4 mod_less)
  moreover have "v div 2 ^ 63 = 1" using v' d(1) by (simp add: div_nat_eqI)
  ultimately show ?thesis using d(2) by simp
qed

text \<open>Joining a limb to the rest of a chain.\<close>

lemma chain_join:
  fixes x r b :: nat
  assumes "x + b0 = a0 + 2 ^ 32 * k" and "r + bs + k = as + N * out"
  shows "x + 2 ^ 32 * r + (b0 + 2 ^ 32 * bs) = a0 + 2 ^ 32 * as + 2 ^ 32 * N * out"
proof -
  from assms(2) have "2 ^ 32 * r + 2 ^ 32 * bs + 2 ^ 32 * k = 2 ^ 32 * as + 2 ^ 32 * (N * out)"
    by (metis distrib_left)
  with assms(1) show ?thesis by (simp add: algebra_simps)
qed

context wide_arith
begin

lemma val_sign_le: "val (w_sign W x) \<le> 1"
  using val_less [of x] by (simp add: val_sign)

lemma sub_limb:
  fixes a b :: u32
  assumes "val borrow \<le> 1"
  defines "v \<equiv> w_sub W (w_extend W a) (w_add W (w_extend W b) borrow)"
  shows "unat (w_low W v) + (unat b + val borrow) = unat a + 2 ^ 32 * val (w_sign W v)"
proof -
  have "val (w_add W (w_extend W b) borrow) = unat b + val borrow"
    using unat_u32_less [of b] assms(1) by (simp add: val_add val_extend)
  then have "val v = (unat a + 2 ^ 64 - (unat b + val borrow)) mod 2 ^ 64"
    by (simp add: v_def val_sub val_extend)
  from borrow_step [OF unat_u32_less unat_u32_less assms(1) this] show ?thesis
    by (simp add: unat_low val_sign)
qed

lemma sub_limbs_correct:
  assumes "length as = length bs" and "val borrow \<le> 1" and "sub_limbs W as bs borrow = (rs, out)"
  shows "length rs = length as \<and> val out \<le> 1 \<and>
      le_nat rs + (le_nat bs + val borrow) = le_nat as + (2 ^ 32) ^ length as * val out"
  using assms
proof (induction as bs arbitrary: borrow rs out rule: list_induct2)
  case (Cons a as b bs)
  define v where "v = w_sub W (w_extend W a) (w_add W (w_extend W b) borrow)"
  obtain rs' where rec: "sub_limbs W as bs (w_sign W v) = (rs', out)" and rs: "rs = w_low W v # rs'"
    using Cons.prems(2) by (auto simp: v_def Let_def split: prod.splits)
  from Cons.IH [OF val_sign_le rec] have IH: "length rs' = length as" "val out \<le> 1"
    "le_nat rs' + le_nat bs + val (w_sign W v) = le_nat as + (2 ^ 32) ^ length as * val out"
    by simp_all
  from chain_join [OF sub_limb [OF Cons.prems(1), of a b, folded v_def] IH(3)] IH(1,2)
  show ?case by (simp add: rs)
qed simp

lemma subtract_correct:
  assumes "length a = 8" and "length b = 8" and "subtract W a b = (r, borrow)"
  shows "length r = 8" and "borrow = (if le_nat a < le_nat b then 1 else 0)"
    and "le_nat r + le_nat b = le_nat a + 2 ^ 256 * unat borrow"
proof -
  obtain out where s: "sub_limbs W a b (w_zero W) = (r, out)" and bo: "borrow = w_low W out"
    using assms(3) by (auto simp: subtract_def Let_def split: prod.splits)
  have "val (w_zero W) \<le> 1" by (simp add: val_zero)
  from sub_limbs_correct [OF _ this s] assms(1,2)
  have r: "length r = 8" and out: "val out \<le> 1"
    and eq: "le_nat r + le_nat b = le_nat a + 2 ^ 256 * val out"
    by (simp_all add: val_zero)
  have uo: "unat borrow = val out" using out by (simp add: bo unat_low)
  show "length r = 8" by (rule r)
  show "le_nat r + le_nat b = le_nat a + 2 ^ 256 * unat borrow" using eq uo by simp
  have "le_nat r < 2 ^ 256" "le_nat b < 2 ^ 256"
    using le_nat_limbs_less r assms(2) by blast+
  then have "val out = (if le_nat a < le_nat b then 1 else 0)"
    using eq out by (cases "val out = 0") auto
  then show "borrow = (if le_nat a < le_nat b then 1 else 0)"
    using uo by (simp add: word_unat_eq_iff)
qed

lemma add_limb:
  fixes a b :: u32
  assumes "val carry \<le> 1"
  defines "c \<equiv> w_add W carry (w_add W (w_extend W a) (w_extend W b))"
  shows "val (w_high W c) \<le> 1" and "unat (w_low W c) + 2 ^ 32 * val (w_high W c) = unat a + unat b + val carry"
proof -
  have c: "val c = unat a + unat b + val carry"
    using unat_u32_less [of a] unat_u32_less [of b] assms(1)
    by (simp add: c_def val_add val_extend)
  then show "unat (w_low W c) + 2 ^ 32 * val (w_high W c) = unat a + unat b + val carry"
    by (simp only: low_high)
  show "val (w_high W c) \<le> 1"
    using unat_u32_less [of a] unat_u32_less [of b] assms(1) by (simp add: val_high c)
qed

lemma add_limbs_correct:
  assumes "length as = length bs" and "val carry \<le> 1" and "add_limbs W as bs carry = (rs, out)"
  shows "length rs = length as \<and> val out \<le> 1 \<and>
      le_nat rs + (2 ^ 32) ^ length as * val out = le_nat as + le_nat bs + val carry"
  using assms
proof (induction as bs arbitrary: carry rs out rule: list_induct2)
  case (Cons a as b bs)
  define c where "c = w_add W carry (w_add W (w_extend W a) (w_extend W b))"
  obtain rs' where rec: "add_limbs W as bs (w_high W c) = (rs', out)" and rs: "rs = w_low W c # rs'"
    using Cons.prems(2) by (auto simp: c_def Let_def split: prod.splits)
  note limb = add_limb [OF Cons.prems(1), of a b, folded c_def]
  from Cons.IH [OF limb(1) rec] have IH: "length rs' = length as" "val out \<le> 1"
    "le_nat rs' + (2 ^ 32) ^ length as * val out = le_nat as + le_nat bs + val (w_high W c)"
    by simp_all
  then have "2 ^ 32 * le_nat rs' + 2 ^ 32 * ((2 ^ 32) ^ length as * val out) =
      2 ^ 32 * le_nat as + 2 ^ 32 * le_nat bs + 2 ^ 32 * val (w_high W c)"
    by (metis distrib_left)
  with limb(2) IH(1,2) show ?case by (simp add: rs)
qed simp

lemma add_limbs_8:
  assumes "length a = 8" and "length b = 8" and "add_limbs W a b (w_zero W) = (r, out)"
  shows "length r = 8" and "val out \<le> 1" and "le_nat r + 2 ^ 256 * val out = le_nat a + le_nat b"
  using add_limbs_correct [OF _ _ assms(3)] assms(1,2) by (simp_all add: val_zero)

lemma reduce_once_correct:
  assumes "length a = 8" and M: "length M = 8" and "le_nat a < 2 * le_nat M"
  shows "length (reduce_once W M a) = 8" and "le_nat (reduce_once W M a) = le_nat a mod le_nat M"
proof -
  obtain r borrow where s: "subtract W a M = (r, borrow)" by (cases "subtract W a M")
  note c = subtract_correct [OF assms(1) M s]
  show "length (reduce_once W M a) = 8" using c(1) assms(1) by (simp add: reduce_once_def s)
  show "le_nat (reduce_once W M a) = le_nat a mod le_nat M"
  proof (cases "le_nat a < le_nat M")
    case True
    then show ?thesis using c(2) by (simp add: reduce_once_def s)
  next
    case False
    then have "le_nat r + le_nat M = le_nat a" using c(2,3) by simp
    moreover have "le_nat r < le_nat M" using calculation assms(3) by linarith
    ultimately have "le_nat a mod le_nat M = le_nat r" by (metis mod_add_self2 mod_less)
    then show ?thesis using c(2) False by (simp add: reduce_once_def s)
  qed
qed

lemma sum_mod_correct:
  assumes ab: "length a = 8" "length b = 8" and M: "length M = 8"
    and less: "le_nat a < le_nat M" "le_nat b < le_nat M"
  shows "length (sum_mod W M a b) = 8" and "le_nat (sum_mod W M a b) = (le_nat a + le_nat b) mod le_nat M"
proof -
  obtain words carry where w: "add_limbs W a b (w_zero W) = (words, carry)"
    by (cases "add_limbs W a b (w_zero W)")
  note A = add_limbs_8 [OF ab w]
  obtain r borrow where s: "subtract W words M = (r, borrow)" by (cases "subtract W words M")
  note S = subtract_correct [OF A(1) M s]
  have m: "le_nat M < 2 ^ 256" using le_nat_limbs_less [OF M] .
  have vc: "val carry = 0 \<or> val carry = 1" using A(2) by linarith
  have result: "sum_mod W M a b = (if val carry \<noteq> 0 \<or> borrow = 0 then r else words)"
    by (simp add: sum_mod_def w s nonzero_iff)
  show "length (sum_mod W M a b) = 8" using A(1) S(1) by (simp add: result)
  show "le_nat (sum_mod W M a b) = (le_nat a + le_nat b) mod le_nat M"
  proof (cases "le_nat a + le_nat b < le_nat M")
    case True
    then have c0: "val carry = 0" using A(3) m vc by auto
    then have "le_nat words = le_nat a + le_nat b" using A(3) by simp
    then show ?thesis using True S(2) c0 by (simp add: result)
  next
    case False
    have "val carry \<noteq> 0 \<or> borrow = 0" using A(3) False S(2) by auto
    moreover have "le_nat r + le_nat M = le_nat a + le_nat b"
      using vc
    proof
      assume "val carry = 0"
      then show ?thesis using A(3) S(2,3) False by simp
    next
      assume "val carry = 1"
      then show ?thesis using A(3) S(2,3) less m by (cases "le_nat words < le_nat M") simp_all
    qed
    moreover have "le_nat r < le_nat M" using calculation(2) less by linarith
    ultimately show ?thesis by (simp add: result) (metis mod_add_self2 mod_less)
  qed
qed

lemma length_P: "length P = 8"
  by (simp add: P_def)

lemma reduced_correct:
  assumes "length a = 8"
  shows "canonical (reduced W a)" and "le_nat (reduced W a) = le_nat a mod p_nat"
proof -
  have "le_nat a < 2 * le_nat P" using le_nat_limbs_less [OF assms] by (simp add: le_nat_P p_nat_def)
  note r = reduce_once_correct [OF assms length_P this]
  show "le_nat (reduced W a) = le_nat a mod p_nat" using r(2) by (simp add: reduced_def le_nat_P)
  then show "canonical (reduced W a)" using r(1) by (simp add: canonical_def reduced_def p_nat_def)
qed

lemma add_mod_correct:
  assumes "canonical a" and "canonical b"
  shows "canonical (add_mod W a b)" and "le_nat (add_mod W a b) = (le_nat a + le_nat b) mod p_nat"
proof -
  note s = sum_mod_correct [of a b P, unfolded le_nat_P, OF _ _ length_P]
  show "le_nat (add_mod W a b) = (le_nat a + le_nat b) mod p_nat"
    using s(2) assms by (simp add: add_mod_def canonical_def)
  then show "canonical (add_mod W a b)"
    using s(1) assms by (simp add: canonical_def add_mod_def p_nat_def)
qed

lemma sub_mod_correct:
  assumes "canonical a" and "canonical b"
  shows "canonical (sub_mod W a b)"
    and "le_nat (sub_mod W a b) = (le_nat a + p_nat - le_nat b) mod p_nat"
proof -
  have ab: "length a = 8" "length b = 8" "le_nat a < p_nat" "le_nat b < p_nat"
    using assms by (auto simp: canonical_def)
  obtain words borrow where s: "subtract W a b = (words, borrow)" by (cases "subtract W a b")
  note S = subtract_correct [OF ab(1,2) s]
  define M where "M = map (\<lambda>x. x AND - borrow) P"
  have M: "length M = 8" by (simp add: M_def length_P)
  have M_val: "le_nat M = (if le_nat a < le_nat b then p_nat else 0)"
  proof (cases "le_nat a < le_nat b")
    case True
    then have "M = P" using S(2) by (simp add: M_def)
    then show ?thesis using True by (simp add: le_nat_P)
  next
    case False
    then have "M = replicate 8 0" using S(2) by (simp add: M_def map_replicate_const length_P)
    then show ?thesis using False by simp
  qed
  obtain r out where w: "add_limbs W words M (w_zero W) = (r, out)"
    by (cases "add_limbs W words M (w_zero W)")
  note A = add_limbs_8 [OF S(1) M w]
  have result: "sub_mod W a b = r" by (simp add: sub_mod_def s Let_def w flip: M_def)
  have r: "le_nat r < 2 ^ 256" using le_nat_limbs_less [OF A(1)] .
  have vo: "val out = 0 \<or> val out = 1" using A(2) by linarith
  have sum: "le_nat r + le_nat b = le_nat a + (if le_nat a < le_nat b then p_nat else 0)"
    using vo
  proof
    assume "val out = 0"
    then show ?thesis using A(3) S(2,3) M_val ab r by (cases "le_nat a < le_nat b") (simp_all add: p_nat_def)
  next
    assume "val out = 1"
    then show ?thesis using A(3) S(2,3) M_val ab r by (cases "le_nat a < le_nat b") (simp_all add: p_nat_def)
  qed
  then have "le_nat r < p_nat" using ab by (auto split: if_splits)
  then show "canonical (sub_mod W a b)" using A(1) by (simp add: canonical_def result)
  show "le_nat (sub_mod W a b) = (le_nat a + p_nat - le_nat b) mod p_nat"
  proof (cases "le_nat a < le_nat b")
    case True
    then have "le_nat r = le_nat a + p_nat - le_nat b" using sum by simp
    with \<open>le_nat r < p_nat\<close> show ?thesis by (simp add: result)
  next
    case False
    then have "le_nat a + p_nat - le_nat b = le_nat r + p_nat" using sum by simp
    with \<open>le_nat r < p_nat\<close> show ?thesis by (simp add: result)
  qed
qed

end

section \<open>Reduction of a 512-bit product\<close>

text \<open>A column function that is exact for the column sums \<open>S\<close> gives the digits of their total.\<close>

fun columns_val :: "(nat \<times> nat list \<Rightarrow> nat) \<Rightarrow> (nat \<times> nat list) list \<Rightarrow> nat" where
  "columns_val S [] = 0"
| "columns_val S (ci # cis) = S ci + 2 ^ 32 * columns_val S cis"

context wide_arith
begin

lemma reduce_limb:
  fixes l h q :: u32
  assumes "val carry \<le> 979"
  defines "c \<equiv> w_add W carry (w_add W (w_add W (w_extend W l) (w_mul W h 977)) (w_extend W q))"
  shows "val (w_high W c) \<le> 979"
    and "unat (w_low W c) + 2 ^ 32 * val (w_high W c) = unat l + 977 * unat h + unat q + val carry"
proof -
  have c: "val c = unat l + 977 * unat h + unat q + val carry"
    using unat_u32_less [of l] unat_u32_less [of h] unat_u32_less [of q] assms(1)
    by (simp add: c_def val_add val_mul val_extend)
  then show "unat (w_low W c) + 2 ^ 32 * val (w_high W c) = unat l + 977 * unat h + unat q + val carry"
    by (simp only: low_high)
  show "val (w_high W c) \<le> 979"
    using unat_u32_less [of l] unat_u32_less [of h] unat_u32_less [of q] assms(1)
    by (simp add: val_high c)
qed

lemma reduce_pass_correct:
  assumes "length ls = length hs" and "length hs = length qs" and "val carry \<le> 979"
    and "reduce_pass W ls hs qs carry = (rs, out)"
  shows "length rs = length ls \<and> val out \<le> 979 \<and>
    le_nat rs + (2 ^ 32) ^ length ls * val out = le_nat ls + 977 * le_nat hs + le_nat qs + val carry"
  using assms
proof (induction ls hs qs arbitrary: carry rs out rule: list_induct3)
  case (Cons l ls h hs q qs)
  define c where "c = w_add W carry (w_add W (w_add W (w_extend W l) (w_mul W h 977)) (w_extend W q))"
  obtain rs' where rec: "reduce_pass W ls hs qs (w_high W c) = (rs', out)" and rs: "rs = w_low W c # rs'"
    using Cons.prems(2) by (auto simp: c_def Let_def split: prod.splits)
  note limb = reduce_limb [OF Cons.prems(1), of l h q, folded c_def]
  from Cons.IH [OF limb(1) rec] have IH: "length rs' = length ls" "val out \<le> 979"
    "le_nat rs' + (2 ^ 32) ^ length ls * val out = le_nat ls + 977 * le_nat hs + le_nat qs + val (w_high W c)"
    by simp_all
  then have "2 ^ 32 * le_nat rs' + 2 ^ 32 * ((2 ^ 32) ^ length ls * val out) =
      2 ^ 32 * le_nat ls + 2 ^ 32 * (977 * le_nat hs) + 2 ^ 32 * le_nat qs + 2 ^ 32 * val (w_high W c)"
    by (metis distrib_left)
  with limb(2) IH(1,2) show ?case by (simp add: rs)
qed simp

lemma carry_limbs_correct:
  assumes "val carry < 2 ^ 34" and "carry_limbs W as carry = (rs, out)"
  shows "length rs = length as \<and> val out < 2 ^ 34 \<and>
    le_nat rs + (2 ^ 32) ^ length as * val out = le_nat as + val carry"
  using assms
proof (induction as arbitrary: carry rs out)
  case (Cons a as)
  define c where "c = w_add W carry (w_extend W a)"
  obtain rs' where rec: "carry_limbs W as (w_high W c) = (rs', out)" and rs: "rs = w_low W c # rs'"
    using Cons.prems(2) by (auto simp: c_def Let_def split: prod.splits)
  have c: "val c = unat a + val carry"
    using unat_u32_less [of a] Cons.prems(1) by (simp add: c_def val_add val_extend)
  have high: "val (w_high W c) < 2 ^ 34"
    using unat_u32_less [of a] Cons.prems(1) by (simp add: val_high c)
  have low: "unat (w_low W c) + 2 ^ 32 * val (w_high W c) = unat a + val carry"
    by (simp only: low_high c)
  from Cons.IH [OF high rec] have IH: "length rs' = length as" "val out < 2 ^ 34"
    "le_nat rs' + (2 ^ 32) ^ length as * val out = le_nat as + val (w_high W c)"
    by simp_all
  then have "2 ^ 32 * le_nat rs' + 2 ^ 32 * ((2 ^ 32) ^ length as * val out) =
      2 ^ 32 * le_nat as + 2 ^ 32 * val (w_high W c)"
    by (metis distrib_left)
  with low IH(1,2) show ?case by (simp add: rs)
qed simp

lemma fold_top_correct:
  assumes "length words = 8" and "val t8 \<le> 2 ^ 32 + 978" and "fold_top W words t8 = (rs, out)"
  shows "length rs = 8" and "le_nat rs + 2 ^ 256 * val out = le_nat words + (2 ^ 32 + 977) * val t8"
proof -
  obtain w0 w1 ws where words: "words = w0 # w1 # ws" and ws: "length ws = 6"
    using assms(1) by (auto simp: length_Suc_conv eval_nat_numeral)
  define c0 where "c0 = w_add W (w_extend W w0) (w_scale W t8 977)"
  define c1 where "c1 = w_add W (w_add W (w_high W c0) (w_extend W w1)) t8"
  obtain rs' where rec: "carry_limbs W ws (w_high W c1) = (rs', out)"
    and rs: "rs = w_low W c0 # w_low W c1 # rs'"
    using assms(3) by (auto simp: fold_top_def words c0_def c1_def Let_def split: prod.splits)
  have c0: "val c0 = unat w0 + 977 * val t8"
    using unat_u32_less [of w0] assms(2) by (simp add: c0_def val_add val_extend val_scale)
  have h0: "val (w_high W c0) \<le> 2 ^ 32"
    using unat_u32_less [of w0] assms(2) by (simp add: val_high c0)
  have c1: "val c1 = val (w_high W c0) + unat w1 + val t8"
    using unat_u32_less [of w1] assms(2) h0 by (simp add: c1_def val_add val_extend)
  have h1: "val (w_high W c1) < 2 ^ 34"
    using unat_u32_less [of w1] assms(2) h0 by (simp add: val_high c1)
  note C = carry_limbs_correct [OF h1 rec]
  have "unat (w_low W c0) + 2 ^ 32 * val (w_high W c0) = unat w0 + 977 * val t8"
    "unat (w_low W c1) + 2 ^ 32 * val (w_high W c1) = val (w_high W c0) + unat w1 + val t8"
    by (simp_all only: low_high c0 c1)
  then show "le_nat rs + 2 ^ 256 * val out = le_nat words + (2 ^ 32 + 977) * val t8"
    using C ws by (simp add: rs words)
  show "length rs = 8" using C ws by (simp add: rs)
qed

text \<open>The reduction is exact: the first pass gives at most 34 bits above the eighth limb, the
  second at most one, and the third none.\<close>

lemma reduce_first_pass:
  assumes "length t = 16"
    and c0: "c0 = w_add W (w_extend W (t ! 0)) (w_mul W (t ! 8) 977)"
    and pass: "reduce_pass W (take 7 (drop 1 t)) (take 7 (drop 9 t)) (take 7 (drop 8 t)) (w_high W c0)
      = (rs, carry)"
    and t8: "t8 = w_add W carry (w_extend W (t ! 15))"
  shows "length rs = 7" and "val t8 \<le> 2 ^ 32 + 978"
    and "le_nat (w_low W c0 # rs) + 2 ^ 256 * val t8
      = le_nat (take 8 t) + (2 ^ 32 + 977) * le_nat (drop 8 t)"
proof -
  define ls hs qs where "ls = take 7 (drop 1 t)" and "hs = take 7 (drop 9 t)" and "qs = take 7 (drop 8 t)"
  have len: "length ls = 7" "length hs = 7" "length qs = 7"
    using assms(1) by (simp_all add: ls_def hs_def qs_def)
  have low: "take 8 t = t ! 0 # ls"
    using assms(1) by (cases t) (simp_all add: ls_def)
  have high: "drop 8 t = t ! 8 # hs"
    using assms(1) Cons_nth_drop_Suc [of 8 t] by (simp add: hs_def)
  have high': "drop 8 t = qs @ [t ! 15]"
    using assms(1) take_Suc_conv_app_nth [of 7 "drop 8 t"] by (simp add: qs_def)
  have v0: "val c0 = unat (t ! 0) + 977 * unat (t ! 8)"
    using unat_u32_less [of "t ! 0"] unat_u32_less [of "t ! 8"]
    by (simp add: c0 val_add val_extend val_mul)
  have "val (w_high W c0) \<le> 979"
    using unat_u32_less [of "t ! 0"] unat_u32_less [of "t ! 8"] by (simp add: val_high v0)
  note R = reduce_pass_correct [OF _ _ this pass [folded ls_def hs_def qs_def], unfolded len, OF refl refl]
  have v8: "val t8 = val carry + unat (t ! 15)"
    using unat_u32_less [of "t ! 15"] R by (simp add: t8 val_add val_extend)
  show "length rs = 7" using R by simp
  show "val t8 \<le> 2 ^ 32 + 978" using unat_u32_less [of "t ! 15"] R v8 by simp
  have "unat (w_low W c0) + 2 ^ 32 * val (w_high W c0) = unat (t ! 0) + 977 * unat (t ! 8)"
    by (simp only: low_high v0)
  moreover have "le_nat (drop 8 t) = le_nat qs + 2 ^ 224 * unat (t ! 15)"
    using high' len by (simp add: le_nat_append)
  moreover have "le_nat (drop 8 t) = unat (t ! 8) + 2 ^ 32 * le_nat hs" using high by simp
  ultimately show "le_nat (w_low W c0 # rs) + 2 ^ 256 * val t8
      = le_nat (take 8 t) + (2 ^ 32 + 977) * le_nat (drop 8 t)"
    using R by (simp add: v8 low)
qed

lemma reduce_sum:
  fixes Q p K :: nat
  assumes "Q = p + K" "w0 + Q * v = l + K * h" "w + Q * c = w0 + K * v" "ws = w + K * c" "t = l + Q * h"
  shows "t = ws + p * (v + c + h)"
  using assms by (simp add: distrib_left distrib_right)

lemma reduce_wide_correct:
  assumes "length t = 16"
  shows "canonical (reduce_wide W t)" and "le_nat (reduce_wide W t) = le_nat t mod p_nat"
proof -
  define c0 where "c0 = w_add W (w_extend W (t ! 0)) (w_mul W (t ! 8) 977)"
  obtain rs carry where pass: "reduce_pass W (take 7 (drop 1 t)) (take 7 (drop 9 t)) (take 7 (drop 8 t))
      (w_high W c0) = (rs, carry)" by fastforce
  define t8 where "t8 = w_add W carry (w_extend W (t ! 15))"
  note F = reduce_first_pass [OF assms c0_def pass t8_def]
  obtain words overflow where f1: "fold_top W (w_low W c0 # rs) t8 = (words, overflow)" by fastforce
  have len0: "length (w_low W c0 # rs) = 8" using F(1) by simp
  note S = fold_top_correct [OF len0 F(2) f1]
  obtain ws out where f2: "fold_top W words overflow = (ws, out)" by fastforce
  have result: "reduce_wide W t = reduced W ws"
    using pass f1 f2 by (simp add: reduce_wide_def Let_def flip: c0_def t8_def)
  have words: "le_nat words < 2 ^ 256" "le_nat (w_low W c0 # rs) < 2 ^ 256"
    using le_nat_limbs_less S(1) len0 by blast+
  have fold_small: "(2 ^ 32 + 977) * val t8 \<le> (2 ^ 32 + 977) * (2 ^ 32 + 978)"
    using F(2) by (rule mult_le_mono2)
  have one: "val overflow = 0 \<or> val overflow = 1 \<and> le_nat words < 2 ^ 255"
    using S(2) words(2) fold_small by (cases "val overflow \<le> 1") auto
  have "val overflow \<le> 2 ^ 32 + 978" using one by auto
  note T = fold_top_correct [OF S(1) this f2]
  have ws: "le_nat ws < 2 ^ 256" using le_nat_limbs_less T(1) by blast
  have out: "val out = 0"
    using one T(2) words(1) ws by auto
  have "le_nat t = le_nat (take 8 t) + 2 ^ 256 * le_nat (drop 8 t)"
    using le_nat_append [of "take 8 t" "drop 8 t"] assms by simp
  then have "le_nat t = le_nat ws + p_nat * (val t8 + val overflow + le_nat (drop 8 t))"
    using reduce_sum [OF _ F(3) S(2), of p_nat] T(2) out by (simp add: p_nat_def)
  then have "le_nat t mod p_nat = le_nat ws mod p_nat" by simp
  then show "le_nat (reduce_wide W t) = le_nat t mod p_nat"
    by (simp add: result reduced_correct(2) [OF T(1)])
  show "canonical (reduce_wide W t)" unfolding result by (rule reduced_correct(1) [OF T(1)])
qed

lemma column_terms_correct:
  assumes "length is \<le> 8" and "val low + 2 ^ 32 * length is < 2 ^ 63" and "val high + 2 ^ 32 * length is < 2 ^ 63"
    and "column_terms W a b c is (low, high) = (low', high')"
  shows "val low' + 2 ^ 32 * val high' = val low + 2 ^ 32 * val high
      + (\<Sum>i\<leftarrow>is. unat (a ! i) * unat (b ! (c - i)))"
    and "val low' \<le> val low + 2 ^ 32 * length is" and "val high' \<le> val high + 2 ^ 32 * length is"
proof -
  have "val low' + 2 ^ 32 * val high' = val low + 2 ^ 32 * val high
      + (\<Sum>i\<leftarrow>is. unat (a ! i) * unat (b ! (c - i))) \<and>
      val low' \<le> val low + 2 ^ 32 * length is \<and> val high' \<le> val high + 2 ^ 32 * length is"
    using assms
  proof (induction "is" arbitrary: low high)
    case (Cons i js)
    define q where "q = w_mul W (a ! i) (b ! (c - i))"
    define l h where "l = w_add W low (w_extend W (w_low W q))" and "h = w_add W high (w_high W q)"
    have low: "unat (w_low W q) < 2 ^ 32" by (rule unat_u32_less)
    have high: "val (w_high W q) < 2 ^ 32" using val_less [of q] by (simp add: val_high)
    have l: "val l = val low + unat (w_low W q)" and h: "val h = val high + val (w_high W q)"
      using low high Cons.prems(2,3) by (simp_all add: l_def h_def val_add val_extend)
    have q: "unat (w_low W q) + 2 ^ 32 * val (w_high W q) = unat (a ! i) * unat (b ! (c - i))"
      by (simp only: low_high) (simp add: q_def val_mul)
    have "column_terms W a b c js (l, h) = (low', high')"
      using Cons.prems(4) by (simp add: l_def h_def q_def Let_def)
    from Cons.IH [OF _ _ _ this] Cons.prems(1-3) low high
    show ?case unfolding l h by (simp add: q [symmetric])
  qed simp
  then show "val low' + 2 ^ 32 * val high' = val low + 2 ^ 32 * val high
      + (\<Sum>i\<leftarrow>is. unat (a ! i) * unat (b ! (c - i)))"
    "val low' \<le> val low + 2 ^ 32 * length is" "val high' \<le> val high + 2 ^ 32 * length is"
    by blast+
qed

lemma columns_correct:
  assumes "\<forall>ci\<in>set cis. \<forall>carry w out. val carry < 2 ^ 40 \<longrightarrow> f ci carry = (w, out) \<longrightarrow>
      unat w + 2 ^ 32 * val out = val carry + S ci \<and> val out < 2 ^ 40"
    and "val carry < 2 ^ 40"
  shows "length (columns W f cis carry) = Suc (length cis) \<and>
    le_nat (columns W f cis carry) = (val carry + columns_val S cis) mod (2 ^ 32) ^ Suc (length cis)"
  using assms
proof (induction cis arbitrary: carry)
  case Nil
  show ?case by (simp add: unat_low)
next
  case (Cons ci cis)
  obtain w out where fc: "f ci carry = (w, out)" by fastforce
  have o: "unat w + 2 ^ 32 * val out = val carry + S ci" "val out < 2 ^ 40"
    using Cons.prems fc by simp_all
  have tail: "\<forall>ci\<in>set cis. \<forall>carry w out. val carry < 2 ^ 40 \<longrightarrow> f ci carry = (w, out) \<longrightarrow>
      unat w + 2 ^ 32 * val out = val carry + S ci \<and> val out < 2 ^ 40"
    using Cons.prems(1) by (meson list.set_intros(2))
  let ?N = "(2 ^ 32) ^ Suc (length cis) :: nat" and ?R = "val out + columns_val S cis"
  have IH: "length (columns W f cis out) = Suc (length cis)" "le_nat (columns W f cis out) = ?R mod ?N"
    using Cons.IH [OF tail o(2)] by blast+
  have "le_nat (columns W f (ci # cis) carry) = unat w + 2 ^ 32 * (?R mod ?N)"
    using IH(2) by (simp add: fc)
  also have "\<dots> = (unat w + 2 ^ 32 * ?R) mod (2 ^ 32 * ?N)"
    by (rule digit_mod) (rule unat_u32_less)
  also have "unat w + 2 ^ 32 * ?R = val carry + columns_val S (ci # cis)"
    using o(1) by simp
  finally show ?case using IH(1) by (simp add: fc)
qed

lemma mul_column_correct:
  assumes "length (snd ci) \<le> 8" and "val carry < 2 ^ 40" and "mul_column W a b ci carry = (w, out)"
  shows "unat w + 2 ^ 32 * val out
      = val carry + (\<Sum>i\<leftarrow>snd ci. unat (a ! i) * unat (b ! (fst ci - i))) \<and> val out < 2 ^ 40"
proof -
  obtain low high where t: "column_terms W a b (fst ci) (snd ci) (carry, w_zero W) = (low, high)"
    by fastforce
  note T = column_terms_correct [OF assms(1) _ _ t]
  have bounds: "val low < 2 ^ 41" "val high \<le> 2 ^ 35"
    and sum: "val low + 2 ^ 32 * val high = val carry + (\<Sum>i\<leftarrow>snd ci. unat (a ! i) * unat (b ! (fst ci - i)))"
    using T assms(1,2) by (auto simp: val_zero)
  have w: "w = w_low W low" and out: "out = w_add W (w_high W low) high"
    using assms(3) by (simp_all add: mul_column_def t)
  have "val out = val (w_high W low) + val high"
    using bounds by (simp add: out val_add val_high)
  moreover have "val (w_high W low) < 2 ^ 9" using bounds by (simp add: val_high)
  ultimately show ?thesis
    using low_high [of low] sum bounds by (simp add: w)
qed

lemma square_column_correct:
  assumes "length (snd ci) \<le> 8" and "val carry < 2 ^ 40" and "square_column W a ci carry = (w, out)"
  shows "unat w + 2 ^ 32 * val out = val carry
      + (2 * (\<Sum>i\<leftarrow>snd ci. unat (a ! i) * unat (a ! (fst ci - i)))
         + (if fst ci mod 2 = 0 then unat (a ! (fst ci div 2)) * unat (a ! (fst ci div 2)) else 0))
      \<and> val out < 2 ^ 40"
proof -
  let ?S = "\<Sum>i\<leftarrow>snd ci. unat (a ! i) * unat (a ! (fst ci - i))"
  let ?d = "a ! (fst ci div 2)"
  define D where "D = w_mul W ?d ?d"
  obtain low high where t: "column_terms W a a (fst ci) (snd ci) (w_zero W, w_zero W) = (low, high)"
    by fastforce
  note T = column_terms_correct [OF assms(1) _ _ t]
  have bounds: "val low \<le> 2 ^ 35" "val high \<le> 2 ^ 35" and sum: "val low + 2 ^ 32 * val high = ?S"
    using T assms(1) by (auto simp: val_zero)
  define l2 h2 where "l2 = w_scale W low 2" and "h2 = w_scale W high 2"
  have v2: "val l2 = 2 * val low" "val h2 = 2 * val high"
    using bounds by (simp_all add: l2_def h2_def val_scale)
  define l3 h3 where "l3 = (if fst ci mod 2 = 0 then w_add W l2 (w_extend W (w_low W D)) else l2)"
    and "h3 = (if fst ci mod 2 = 0 then w_add W h2 (w_high W D) else h2)"
  have D: "unat (w_low W D) < 2 ^ 32" "val (w_high W D) < 2 ^ 32"
    "unat (w_low W D) + 2 ^ 32 * val (w_high W D) = unat ?d * unat ?d"
    using unat_u32_less val_less [of D] by (simp_all only: low_high) (simp_all add: val_high D_def val_mul)
  have v3: "val l3 = 2 * val low + (if fst ci mod 2 = 0 then unat (w_low W D) else 0)"
    "val h3 = 2 * val high + (if fst ci mod 2 = 0 then val (w_high W D) else 0)"
    using bounds D by (simp_all add: l3_def h3_def val_add val_extend v2)
  have w: "w = w_low W (w_add W l3 carry)" and out: "out = w_add W (w_high W (w_add W l3 carry)) h3"
    using assms(3) by (auto simp: square_column_def t Let_def l3_def h3_def l2_def h2_def D_def split: if_splits)
  have l4: "val (w_add W l3 carry) = val l3 + val carry"
    using v3 bounds D assms(2) by (simp add: val_add)
  have l3_less: "val l3 < 2 ^ 37" and h3_less: "val h3 < 2 ^ 37"
    using v3 bounds D by (auto split: if_splits)
  then have h4: "val (w_high W (w_add W l3 carry)) < 2 ^ 9"
    using assms(2) by (simp add: val_high l4)
  have o: "val out = val (w_high W (w_add W l3 carry)) + val h3"
    using h4 h3_less by (simp add: out val_add)
  have "val l3 + 2 ^ 32 * val h3 = 2 * ?S + (if fst ci mod 2 = 0 then unat ?d * unat ?d else 0)"
    using v3 sum D(3) by (auto split: if_splits)
  then show ?thesis
    using low_high [of "w_add W l3 carry"] l4 h4 h3_less o by (simp add: w)
qed

end

text \<open>The columns of the two tables add up to the product of the eight-limb numbers.\<close>

lemma length_8_cases:
  assumes "length a = 8"
  obtains a0 a1 a2 a3 a4 a5 a6 a7 where "a = [a0, a1, a2, a3, a4, a5, a6, a7]"
  using assms by (auto simp: length_Suc_conv eval_nat_numeral)

lemma mul_table_product:
  assumes "length a = 8" and "length b = 8"
  shows "columns_val (\<lambda>ci. \<Sum>i\<leftarrow>snd ci. unat (a ! i) * unat (b ! (fst ci - i))) mul_table
    = le_nat (a :: limbs) * le_nat (b :: limbs)"
proof -
  obtain a0 a1 a2 a3 a4 a5 a6 a7 where a: "a = [a0, a1, a2, a3, a4, a5, a6, a7]"
    using assms(1) by (rule length_8_cases)
  obtain b0 b1 b2 b3 b4 b5 b6 b7 where b: "b = [b0, b1, b2, b3, b4, b5, b6, b7]"
    using assms(2) by (rule length_8_cases)
  show ?thesis
    by (simp add: a b mul_table_def del: distrib_left_numeral distrib_right_numeral) algebra
qed

lemma square_table_product:
  assumes "length a = 8"
  shows "columns_val (\<lambda>ci. 2 * (\<Sum>i\<leftarrow>snd ci. unat (a ! i) * unat (a ! (fst ci - i)))
      + (if fst ci mod 2 = 0 then unat (a ! (fst ci div 2)) * unat (a ! (fst ci div 2)) else 0)) square_table
    = le_nat (a :: limbs) * le_nat a"
proof -
  obtain a0 a1 a2 a3 a4 a5 a6 a7 where a: "a = [a0, a1, a2, a3, a4, a5, a6, a7]"
    using assms by (rule length_8_cases)
  show ?thesis
    by (simp add: a square_table_def del: distrib_left_numeral distrib_right_numeral) algebra
qed

lemma product_less:
  assumes "length a = 8" and "length b = 8"
  shows "le_nat (a :: limbs) * le_nat (b :: limbs) < (2 ^ 32) ^ 16"
proof -
  have "le_nat a * le_nat b < 2 ^ 256 * 2 ^ 256"
    using le_nat_limbs_less [OF assms(1)] le_nat_limbs_less [OF assms(2)] by (intro mult_strict_mono) simp_all
  then show ?thesis by simp
qed

context wide_arith
begin

lemma mul_wide:
  assumes "length a = 8" and "length b = 8"
  defines "t \<equiv> columns W (mul_column W a b) mul_table (w_zero W)"
  shows "length t = 16" and "le_nat t = le_nat a * le_nat b"
proof -
  have "\<forall>ci\<in>set mul_table. length (snd ci) \<le> 8" by (simp add: mul_table_def)
  then have exact: "\<forall>ci\<in>set mul_table. \<forall>carry w out. val carry < 2 ^ 40 \<longrightarrow>
      mul_column W a b ci carry = (w, out) \<longrightarrow> unat w + 2 ^ 32 * val out
      = val carry + (\<Sum>i\<leftarrow>snd ci. unat (a ! i) * unat (b ! (fst ci - i))) \<and> val out < 2 ^ 40"
    using mul_column_correct by blast
  have "length mul_table = 15" by (simp add: mul_table_def)
  with columns_correct [OF exact, of "w_zero W", folded t_def] product_less [OF assms(1,2)]
  show "length t = 16" "le_nat t = le_nat a * le_nat b"
    by (simp_all add: val_zero mul_table_product assms(1,2))
qed

lemma mul_mod_correct:
  assumes "length a = 8" and "length b = 8"
  shows "canonical (mul_mod W a b)" and "le_nat (mul_mod W a b) = le_nat a * le_nat b mod p_nat"
  using reduce_wide_correct [OF mul_wide(1) [OF assms]] mul_wide(2) [OF assms]
  by (simp_all add: mul_mod_def)

lemma square_wide:
  assumes "length a = 8"
  defines "t \<equiv> columns W (square_column W a) square_table (w_zero W)"
  shows "length t = 16" and "le_nat t = le_nat a * le_nat a"
proof -
  have "\<forall>ci\<in>set square_table. length (snd ci) \<le> 8" by (simp add: square_table_def)
  then have exact: "\<forall>ci\<in>set square_table. \<forall>carry w out. val carry < 2 ^ 40 \<longrightarrow>
      square_column W a ci carry = (w, out) \<longrightarrow> unat w + 2 ^ 32 * val out
      = val carry + (2 * (\<Sum>i\<leftarrow>snd ci. unat (a ! i) * unat (a ! (fst ci - i)))
         + (if fst ci mod 2 = 0 then unat (a ! (fst ci div 2)) * unat (a ! (fst ci div 2)) else 0))
      \<and> val out < 2 ^ 40"
    using square_column_correct by blast
  have "length square_table = 15" by (simp add: square_table_def)
  with columns_correct [OF exact, of "w_zero W", folded t_def] product_less [OF assms(1) assms(1)]
  show "length t = 16" "le_nat t = le_nat a * le_nat a"
    by (simp_all add: val_zero square_table_product assms(1))
qed

lemma square_correct:
  assumes "length a = 8"
  shows "canonical (square W a)" and "le_nat (square W a) = le_nat a * le_nat a mod p_nat"
  using reduce_wide_correct [OF square_wide(1) [OF assms]] square_wide(2) [OF assms]
  by (simp_all add: square_def)

end

section \<open>Powers\<close>

text \<open>\<open>pow_of a e x\<close>: the element \<open>x\<close> is the canonical \<open>a ^ e\<close>.\<close>

definition pow_of :: "limbs \<Rightarrow> nat \<Rightarrow> limbs \<Rightarrow> bool" where
  "pow_of a e x \<longleftrightarrow> canonical x \<and> le_nat x = le_nat a ^ e mod p_nat"

lemma canonical_length: "canonical a \<Longrightarrow> length a = 8"
  by (simp add: canonical_def)

lemma pow_of_1: "canonical a \<Longrightarrow> pow_of a 1 a"
  by (simp add: pow_of_def canonical_def)

lemma pow_of_cong: "pow_of a e x \<Longrightarrow> e = e' \<Longrightarrow> pow_of a e' x"
  by simp

context wide_arith
begin

lemma pow_of_mul: "pow_of a e x \<Longrightarrow> pow_of a f y \<Longrightarrow> pow_of a (e + f) (mul_mod W x y)"
  using mul_mod_correct [of x y]
  by (simp add: pow_of_def canonical_def power_add mod_simps)

lemma pow_of_square: "pow_of a e x \<Longrightarrow> pow_of a (2 * e) (square W x)"
  using square_correct [of x]
  by (simp add: pow_of_def canonical_def mult_2 power_add mod_simps)

lemma pow_of_square_n: "pow_of a e x \<Longrightarrow> pow_of a (e * 2 ^ n) (square_n W x n)"
proof (induction n arbitrary: x e)
  case (Suc n)
  from Suc.IH [OF pow_of_square [OF Suc.prems]] show ?case by (simp add: ac_simps)
qed simp

lemma pow_of_step: "pow_of a e x \<Longrightarrow> pow_of a f y \<Longrightarrow> g = e * 2 ^ n + f \<Longrightarrow>
    pow_of a g (mul_mod W (square_n W x n) y)"
  using pow_of_mul [OF pow_of_square_n] by blast

lemma chain223_correct:
  assumes "canonical a" and "chain223 W a = (x2, x22, x223)"
  shows "pow_of a (2 ^ 2 - 1) x2" and "pow_of a (2 ^ 22 - 1) x22" and "pow_of a (2 ^ 223 - 1) x223"
proof -
  note one = pow_of_1 [OF assms(1)]
  define y2 where "y2 = mul_mod W (square W a) a"
  define y3 where "y3 = mul_mod W (square W y2) a"
  define y6 where "y6 = mul_mod W (square_n W y3 3) y3"
  define y9 where "y9 = mul_mod W (square_n W y6 3) y3"
  define y11 where "y11 = mul_mod W (square_n W y9 2) y2"
  define y22 where "y22 = mul_mod W (square_n W y11 11) y11"
  define y44 where "y44 = mul_mod W (square_n W y22 22) y22"
  define y88 where "y88 = mul_mod W (square_n W y44 44) y44"
  define y176 where "y176 = mul_mod W (square_n W y88 88) y88"
  define y220 where "y220 = mul_mod W (square_n W y176 44) y44"
  have result: "x2 = y2" "x22 = y22" "x223 = mul_mod W (square_n W y220 3) y3"
    using assms(2)
    by (simp_all add: chain223_def Let_def flip: y2_def y3_def y6_def y9_def y11_def y22_def
        y44_def y88_def y176_def y220_def)
  have p2: "pow_of a (2 ^ 2 - 1) y2"
    unfolding y2_def by (rule pow_of_cong [OF pow_of_mul [OF pow_of_square [OF one] one]]) simp
  have p3: "pow_of a (2 ^ 3 - 1) y3"
    unfolding y3_def by (rule pow_of_cong [OF pow_of_mul [OF pow_of_square [OF p2] one]]) simp
  have p6: "pow_of a (2 ^ 6 - 1) y6" unfolding y6_def by (rule pow_of_step [OF p3 p3]) simp
  have p9: "pow_of a (2 ^ 9 - 1) y9" unfolding y9_def by (rule pow_of_step [OF p6 p3]) simp
  have p11: "pow_of a (2 ^ 11 - 1) y11" unfolding y11_def by (rule pow_of_step [OF p9 p2]) simp
  have p22: "pow_of a (2 ^ 22 - 1) y22" unfolding y22_def by (rule pow_of_step [OF p11 p11]) simp
  have p44: "pow_of a (2 ^ 44 - 1) y44" unfolding y44_def by (rule pow_of_step [OF p22 p22]) simp
  have p88: "pow_of a (2 ^ 88 - 1) y88" unfolding y88_def by (rule pow_of_step [OF p44 p44]) simp
  have p176: "pow_of a (2 ^ 176 - 1) y176" unfolding y176_def by (rule pow_of_step [OF p88 p88]) simp
  have p220: "pow_of a (2 ^ 220 - 1) y220" unfolding y220_def by (rule pow_of_step [OF p176 p44]) simp
  show "pow_of a (2 ^ 2 - 1) x2" "pow_of a (2 ^ 22 - 1) x22" using result p2 p22 by simp_all
  show "pow_of a (2 ^ 223 - 1) x223" unfolding result by (rule pow_of_step [OF p220 p3]) simp
qed

lemma inverse_chain_correct:
  assumes "canonical a"
  shows "pow_of a (p_nat - 2) (inverse_chain W a)"
proof -
  obtain x2 x22 x223 where c: "chain223 W a = (x2, x22, x223)" by (cases "chain223 W a")
  note C = chain223_correct [OF assms c] and one = pow_of_1 [OF assms]
  define y1 where "y1 = mul_mod W (square_n W x223 23) x22"
  define y2 where "y2 = mul_mod W (square_n W y1 5) a"
  define y3 where "y3 = mul_mod W (square_n W y2 3) x2"
  have "pow_of a (2 ^ 246 - 2 ^ 22 - 1) y1" unfolding y1_def by (rule pow_of_step [OF C(3,2)]) simp
  then have "pow_of a ((2 ^ 246 - 2 ^ 22 - 1) * 2 ^ 5 + 1) y2"
    unfolding y2_def by (rule pow_of_step [OF _ one]) simp
  then have "pow_of a (((2 ^ 246 - 2 ^ 22 - 1) * 2 ^ 5 + 1) * 2 ^ 3 + 3) y3"
    unfolding y3_def by (rule pow_of_step [OF _ C(1)]) simp
  then have "pow_of a (p_nat - 2) (mul_mod W (square_n W y3 2) a)"
    by (rule pow_of_step [OF _ one]) (simp add: p_nat_def)
  then show ?thesis by (simp add: inverse_chain_def c Let_def y3_def y2_def y1_def)
qed

lemma is_square_correct:
  assumes "canonical a"
  obtains r where "pow_of a ((p_nat + 1) div 4) r" and "is_square W a \<longleftrightarrow> square W r = a"
proof -
  obtain x2 x22 x223 where c: "chain223 W a = (x2, x22, x223)" by (cases "chain223 W a")
  note C = chain223_correct [OF assms c]
  define y1 where "y1 = mul_mod W (square_n W x223 23) x22"
  define y2 where "y2 = mul_mod W (square_n W y1 6) x2"
  have "pow_of a (2 ^ 246 - 2 ^ 22 - 1) y1" unfolding y1_def by (rule pow_of_step [OF C(3,2)]) simp
  then have "pow_of a ((2 ^ 246 - 2 ^ 22 - 1) * 2 ^ 6 + 3) y2"
    unfolding y2_def by (rule pow_of_step [OF _ C(1)]) simp
  then have "pow_of a ((p_nat + 1) div 4) (square_n W y2 2)"
    by (rule pow_of_cong [OF pow_of_square_n]) (simp add: p_nat_def)
  moreover have "is_square W a \<longleftrightarrow> square W (square_n W y2 2) = a"
    by (simp add: is_square_def c Let_def y2_def y1_def)
  ultimately show ?thesis by (rule that)
qed

text \<open>Canonical elements are equal when their values are.\<close>

lemma canonical_eq: "canonical a \<Longrightarrow> canonical b \<Longrightarrow> le_nat a = le_nat b \<Longrightarrow> a = b"
  by (auto simp: canonical_def intro: le_nat_inj)

end

section \<open>Properties\<close>

text \<open>C23. \<open>Field::mul_mod\<close> multiplies modulo \<open>p\<close>: for all eight-limb operands the columns, the three
  reduction passes and the final subtraction give the canonical residue of the product, no 64-bit
  intermediate overflows on the way, and the portable two-word build gives the same limbs as the
  native build.\<close>

theorem mul_mod_exact:
  assumes "length a = 8" and "length b = 8"
  shows "canonical (mul_mod native_wide a b) \<and>
    le_nat (mul_mod native_wide a b) = le_nat a * le_nat b mod p_nat \<and>
    mul_mod portable a b = mul_mod native_wide a b"
  using native.mul_mod_correct [OF assms] portable.mul_mod_correct [OF assms]
  by (auto intro: native.canonical_eq)

theorem mul_mod_exact_witness:
  "le_nat (mul_mod native_wide
      [0xffffffff, 0xffffffff, 0xffffffff, 0xffffffff, 0xffffffff, 0xffffffff, 0xffffffff, 0xffffffff]
      [0xffffffff, 0xffffffff, 0xffffffff, 0xffffffff, 0xffffffff, 0xffffffff, 0xffffffff, 0xffffffff])
    = (2 ^ 256 - 1) * (2 ^ 256 - 1) mod p_nat"
  using mul_mod_exact [of
      "[0xffffffff, 0xffffffff, 0xffffffff, 0xffffffff, 0xffffffff, 0xffffffff, 0xffffffff, 0xffffffff]"
      "[0xffffffff, 0xffffffff, 0xffffffff, 0xffffffff, 0xffffffff, 0xffffffff, 0xffffffff, 0xffffffff]"]
  by simp

text \<open>\<open>Field::square\<close>, the halved column table with a doubled sum and a diagonal term, is
  equivalent to \<open>mul_mod\<close> of the element with itself, in both builds.\<close>

theorem square_eq_mul_mod:
  assumes "length a = 8"
  shows "square native_wide a = mul_mod native_wide a a \<and> square portable a = mul_mod native_wide a a"
  using native.mul_mod_correct [OF assms assms] native.square_correct [OF assms]
    portable.square_correct [OF assms]
  by (auto intro: native.canonical_eq)

theorem square_eq_mul_mod_witness: "square portable P = mul_mod native_wide P P"
  using square_eq_mul_mod [of P] by (simp add: P_def)

text \<open>\<open>Field::add_mod\<close> and \<open>Field::sub_mod\<close> keep elements canonical and compute the sum and the
  difference modulo \<open>p\<close>, each inverting the other, in both builds.\<close>

theorem add_sub_mod_exact:
  assumes "canonical a" and "canonical b"
  shows "canonical (add_mod native_wide a b) \<and>
    le_nat (add_mod native_wide a b) = (le_nat a + le_nat b) mod p_nat \<and>
    add_mod portable a b = add_mod native_wide a b \<and>
    canonical (sub_mod native_wide a b) \<and>
    le_nat (sub_mod native_wide a b) = (le_nat a + p_nat - le_nat b) mod p_nat \<and>
    sub_mod portable a b = sub_mod native_wide a b \<and>
    add_mod native_wide (sub_mod native_wide a b) b = a"
proof -
  note n = native.add_mod_correct [OF assms] native.sub_mod_correct [OF assms]
  note q = portable.add_mod_correct [OF assms] portable.sub_mod_correct [OF assms]
  have ab: "le_nat a < p_nat" "le_nat b < p_nat" using assms by (simp_all add: canonical_def)
  have "(le_nat (sub_mod native_wide a b) + le_nat b) mod p_nat = (le_nat a + p_nat - le_nat b + le_nat b) mod p_nat"
    unfolding n(4) by (rule mod_add_left_eq)
  then have "(le_nat (sub_mod native_wide a b) + le_nat b) mod p_nat = le_nat a" using ab by simp
  then have "add_mod native_wide (sub_mod native_wide a b) b = a"
    using native.add_mod_correct [OF n(3) assms(2)] assms(1) by (auto intro: native.canonical_eq)
  then show ?thesis using n q by (auto intro: native.canonical_eq)
qed

theorem add_sub_mod_exact_witness:
  "le_nat (sub_mod native_wide field_ZERO field_ONE) = p_nat - 1"
  using add_sub_mod_exact [of field_ZERO field_ONE]
  by (simp add: canonical_def field_ZERO_def field_ONE_def p_nat_def)

text \<open>The addition chains of \<open>Field::inverse\<close> and \<open>Field::is_square\<close>: the inverse is the canonical
  \<open>a ^ (p - 2)\<close>, and \<open>is_square\<close> answers true exactly when \<open>a ^ ((p + 1) / 2) = a\<close>; then \<open>a\<close> is the
  square of the canonical element \<open>a ^ ((p + 1) / 4)\<close>.\<close>

theorem inverse_and_square_chains:
  assumes "canonical a"
  shows "le_nat (inverse_chain native_wide a) = le_nat a ^ (p_nat - 2) mod p_nat \<and>
    is_square native_wide a = (le_nat a ^ ((p_nat + 1) div 2) mod p_nat = le_nat a) \<and>
    (is_square native_wide a \<longrightarrow> (\<exists>r. canonical r \<and> mul_mod native_wide r r = a))"
proof -
  obtain r where r: "pow_of a ((p_nat + 1) div 4) r" and sq: "is_square native_wide a \<longleftrightarrow> square native_wide r = a"
    by (rule native.is_square_correct [OF assms])
  have c: "canonical r" and l: "length r = 8" using r by (simp_all add: pow_of_def canonical_def)
  have "pow_of a (2 * ((p_nat + 1) div 4)) (square native_wide r)"
    by (rule native.pow_of_square [OF r])
  then have s: "canonical (square native_wide r)" "le_nat (square native_wide r) = le_nat a ^ ((p_nat + 1) div 2) mod p_nat"
    by (simp_all add: pow_of_def p_nat_def)
  then have "square native_wide r = a \<longleftrightarrow> le_nat a ^ ((p_nat + 1) div 2) mod p_nat = le_nat a"
    using assms by (auto intro: native.canonical_eq)
  moreover have "square native_wide r = mul_mod native_wide r r"
    using native.mul_mod_correct [OF l l] native.square_correct [OF l] by (auto intro: native.canonical_eq)
  ultimately show ?thesis
    using native.inverse_chain_correct [OF assms] sq c by (auto simp: pow_of_def)
qed

theorem inverse_and_square_chains_witness:
  "le_nat (inverse_chain native_wide [2, 0, 0, 0, 0, 0, 0, 0]) = 2 ^ (p_nat - 2) mod p_nat"
proof -
  have "canonical [2, 0, 0, 0, 0, 0, 0, 0]" by (simp add: canonical_def p_nat_def)
  from inverse_and_square_chains [OF this] show ?thesis by simp
qed

end
