(* ===== verification/Point.thy ===== *)
theory Point
  imports Field
begin

text \<open>
  \<open>rust-engine/src/point.rs\<close>: points of \<open>y\<^sup>2 = x\<^sup>3 + 7\<close> in Jacobian coordinates, doubling, mixed
  addition, double-and-add multiplication of the generator and the affine form. As in the field
  theory every operation takes the word arithmetic of its build.
\<close>

section \<open>Points\<close>

record Point =
  pt_x :: limbs
  pt_y :: limbs
  pt_z :: limbs

definition INFINITY :: Point where
  "INFINITY = \<lparr>pt_x = field_ZERO, pt_y = field_ZERO, pt_z = field_ZERO\<rparr>"

definition GENERATOR :: Point where
  "GENERATOR = \<lparr>
     pt_x = [0x16f81798, 0x59f2815b, 0x2dce28d9, 0x029bfcdb, 0xce870b07, 0x55a06295, 0xf9dcbbac, 0x79be667e],
     pt_y = [0xfb10d4b8, 0x9c47d08f, 0xa6855419, 0xfd17b448, 0x0e1108a8, 0x5da4fbfc, 0x26a3c465, 0x483ada77],
     pt_z = field_ONE\<rparr>"

definition double :: "'w wide_ops \<Rightarrow> Point \<Rightarrow> Point" where
  "double W p =
     (if equal_limbs (pt_z p) field_ZERO \<or> equal_limbs (pt_y p) field_ZERO then INFINITY
      else let yy = square W (pt_y p);
               s = mul_mod W (pt_x p) yy;
               s = add_mod W s s;
               s = add_mod W s s;
               xx = square W (pt_x p);
               m = add_mod W (add_mod W xx xx) xx;
               x = sub_mod W (square W m) (add_mod W s s);
               yyyy = square W yy;
               yyyy = add_mod W yyyy yyyy;
               yyyy = add_mod W yyyy yyyy;
               yyyy = add_mod W yyyy yyyy;
               yz = mul_mod W (pt_y p) (pt_z p)
           in \<lparr>pt_x = x,
               pt_y = sub_mod W (mul_mod W m (sub_mod W s x)) yyyy,
               pt_z = add_mod W yz yz\<rparr>)"

definition add_affine :: "'w wide_ops \<Rightarrow> Point \<Rightarrow> limbs \<Rightarrow> limbs \<Rightarrow> Point" where
  "add_affine W p x y =
     (if equal_limbs (pt_z p) field_ZERO then \<lparr>pt_x = x, pt_y = y, pt_z = field_ONE\<rparr>
      else let zz = square W (pt_z p);
               h = sub_mod W (mul_mod W x zz) (pt_x p);
               r = sub_mod W (mul_mod W y (mul_mod W zz (pt_z p))) (pt_y p)
           in if equal_limbs h field_ZERO
              then if equal_limbs r field_ZERO then double W p else INFINITY
              else let hh = square W h;
                       hhh = mul_mod W hh h;
                       v = mul_mod W (pt_x p) hh;
                       x = sub_mod W (sub_mod W (square W r) hhh) (add_mod W v v)
                   in \<lparr>pt_x = x,
                       pt_y = sub_mod W (mul_mod W r (sub_mod W v x)) (mul_mod W (pt_y p) hhh),
                       pt_z = mul_mod W (pt_z p) h\<rparr>)"

text \<open>The two loops of \<open>generator_mul\<close>: bytes from the first to the last, bits 7 down to 0.\<close>

fun generator_bits :: "'w wide_ops \<Rightarrow> u8 \<Rightarrow> nat list \<Rightarrow> Point \<Rightarrow> Point" where
  "generator_bits W b [] point = point"
| "generator_bits W b (i # is) point =
     (let point = double W point
      in generator_bits W b is
           (if b AND push_bit i 1 \<noteq> 0 then add_affine W point (pt_x GENERATOR) (pt_y GENERATOR) else point))"

fun generator_bytes :: "'w wide_ops \<Rightarrow> bytes \<Rightarrow> Point \<Rightarrow> Point" where
  "generator_bytes W [] point = point"
| "generator_bytes W (b # bs) point = generator_bytes W bs (generator_bits W b [7, 6, 5, 4, 3, 2, 1, 0] point)"

definition generator_mul :: "'w wide_ops \<Rightarrow> bytes \<Rightarrow> Point" where
  "generator_mul W scalar = generator_bytes W scalar INFINITY"

definition affine :: "'w wide_ops \<Rightarrow> Point \<Rightarrow> (limbs \<times> limbs) option" where
  "affine W p =
     (if equal_limbs (pt_z p) field_ZERO then None
      else let inverse = inverse_chain W (pt_z p);
               squared = square W inverse
           in Some (mul_mod W (pt_x p) squared, mul_mod W (pt_y p) (mul_mod W squared inverse)))"

section \<open>Values modulo the field prime\<close>

text \<open>\<open>elem a A\<close>: the limbs \<open>a\<close> are the canonical element of the class of the integer \<open>A\<close>.\<close>

definition elem :: "limbs \<Rightarrow> int \<Rightarrow> bool" where
  "elem a A \<longleftrightarrow> canonical a \<and> int p_nat dvd int (le_nat a) - A"

lemma elem_self: "canonical a \<Longrightarrow> elem a (int (le_nat a))"
  by (simp add: elem_def)

lemma elem_cong: "elem a A \<Longrightarrow> int p_nat dvd A - B \<Longrightarrow> elem a B"
  using dvd_add [of "int p_nat" "int (le_nat a) - A" "A - B"] by (simp add: elem_def)

lemma elem_diff: "elem a A \<Longrightarrow> elem a B \<Longrightarrow> int p_nat dvd A - B"
  using dvd_diff [of "int p_nat" "int (le_nat a) - B" "int (le_nat a) - A"] by (simp add: elem_def)

lemma elem_canonical: "elem a A \<Longrightarrow> canonical a"
  by (simp add: elem_def)

lemma p_pos: "0 < p_nat"
  by (simp add: p_nat_def)

lemma dvd_mod_self: "int m dvd int (x mod m) - int x"
  by (metis dvd_minus_mod dvd_diff_commute of_nat_mod)

lemma canonical_consts: "canonical field_ZERO" "canonical field_ONE" "le_nat field_ZERO = 0" "le_nat field_ONE = 1"
  by (simp_all add: canonical_def field_ZERO_def field_ONE_def p_nat_def)

lemma elem_consts: "elem field_ZERO 0" "elem field_ONE 1"
  using canonical_consts by (simp_all add: elem_def)

lemma word_xor_eq_0: "a XOR b = 0 \<longleftrightarrow> a = (b :: 'a::len word)"
  by (metis xor.assoc xor.left_neutral xor_self_eq)

lemma word_or_eq_0: "a OR b = 0 \<longleftrightarrow> a = 0 \<and> b = (0 :: 'a::len word)"
  by (metis or.left_neutral or_eq_0_iff)

lemma equal_limbs_iff: "length a = 8 \<Longrightarrow> length b = 8 \<Longrightarrow> equal_limbs a b \<longleftrightarrow> a = b"
proof -
  assume l: "length a = 8" "length b = 8"
  obtain a0 a1 a2 a3 a4 a5 a6 a7 where a: "a = [a0, a1, a2, a3, a4, a5, a6, a7]" by (rule length_8_cases [OF l(1)])
  obtain b0 b1 b2 b3 b4 b5 b6 b7 where b: "b = [b0, b1, b2, b3, b4, b5, b6, b7]" by (rule length_8_cases [OF l(2)])
  show ?thesis unfolding equal_limbs_def word_or_eq_0 word_xor_eq_0 by (simp add: a b)
qed

lemma elem_zero_iff: "elem a A \<Longrightarrow> equal_limbs a field_ZERO \<longleftrightarrow> int p_nat dvd A"
proof -
  assume e: "elem a A"
  have c: "length a = 8" "le_nat a < p_nat" using e by (simp_all add: elem_def canonical_def)
  have "a = field_ZERO \<longleftrightarrow> le_nat a = 0"
    using c(1) canonical_consts le_nat_inj [of a field_ZERO] by (auto simp: canonical_def)
  also have "\<dots> \<longleftrightarrow> int p_nat dvd int (le_nat a)" using c(2) by (auto dest: nat_dvd_not_less)
  also have "\<dots> \<longleftrightarrow> int p_nat dvd A" using e unfolding elem_def by (metis dvd_diff_left_iff dvd_diff_right_iff)
  finally show ?thesis using c(1) canonical_consts by (simp add: equal_limbs_iff canonical_def)
qed

context wide_arith
begin

lemma elem_mul:
  assumes "elem a A" and "elem b B"
  shows "elem (mul_mod W a b) (A * B)"
proof -
  have l: "length a = 8" "length b = 8" using assms by (auto simp: elem_def canonical_def)
  have "int p_nat dvd int (le_nat (mul_mod W a b)) - int (le_nat a) * int (le_nat b)"
    using dvd_mod_self [of p_nat "le_nat a * le_nat b"] mul_mod_correct [OF l] by simp
  moreover have "int p_nat dvd (int (le_nat a) - A) * int (le_nat b) + A * (int (le_nat b) - B)"
    using assms by (simp add: elem_def)
  ultimately have "int p_nat dvd (int (le_nat (mul_mod W a b)) - int (le_nat a) * int (le_nat b)) +
      ((int (le_nat a) - A) * int (le_nat b) + A * (int (le_nat b) - B))" by (rule dvd_add)
  then show ?thesis using mul_mod_correct(1) [OF l] by (simp add: elem_def algebra_simps)
qed

lemma elem_square: "elem a A \<Longrightarrow> elem (square W a) (A * A)"
  using elem_mul [of a A a A] square_correct [of a] mul_mod_correct [of a a]
  by (simp add: elem_def canonical_def)

lemma elem_add:
  assumes "elem a A" and "elem b B"
  shows "elem (add_mod W a b) (A + B)"
proof -
  have c: "canonical a" "canonical b" using assms by (auto simp: elem_def)
  have "int p_nat dvd int (le_nat (add_mod W a b)) - (int (le_nat a) + int (le_nat b))"
    using dvd_mod_self [of p_nat "le_nat a + le_nat b"] add_mod_correct [OF c] by simp
  then have "int p_nat dvd (int (le_nat (add_mod W a b)) - (int (le_nat a) + int (le_nat b))) +
      ((int (le_nat a) - A) + (int (le_nat b) - B))"
    by (rule dvd_add [OF _ dvd_add]) (use assms in \<open>simp_all add: elem_def\<close>)
  then show ?thesis using add_mod_correct(1) [OF c] by (simp add: elem_def algebra_simps)
qed

lemma elem_sub:
  assumes "elem a A" and "elem b B"
  shows "elem (sub_mod W a b) (A - B)"
proof -
  have c: "canonical a" "canonical b" using assms by (auto simp: elem_def)
  have "int (le_nat a + p_nat - le_nat b) = int (le_nat a) + int p_nat - int (le_nat b)"
    using c by (simp add: canonical_def)
  then have "int p_nat dvd int (le_nat (sub_mod W a b)) - (int (le_nat a) + int p_nat - int (le_nat b))"
    using dvd_mod_self [of p_nat "le_nat a + p_nat - le_nat b"] sub_mod_correct [OF c] by simp
  then have "int p_nat dvd (int (le_nat (sub_mod W a b)) - (int (le_nat a) + int p_nat - int (le_nat b))) +
      (((int (le_nat a) - A) - (int (le_nat b) - B)) + int p_nat)"
    by (rule dvd_add [OF _ dvd_add [OF dvd_diff [OF _ _] dvd_refl]]) (use assms in \<open>simp_all add: elem_def\<close>)
  then show ?thesis using sub_mod_correct(1) [OF c] by (simp add: elem_def algebra_simps)
qed

lemmas elem_rules = elem_mul elem_square elem_add elem_sub

end

section \<open>The curve\<close>

lemma tangent_identity:
  fixes x y z :: int
  defines "M \<equiv> 3 * x^2" and "S \<equiv> 4 * x * y^2"
  defines "X \<equiv> M^2 - 2 * S"
  defines "Y \<equiv> M * (S - X) - 8 * y ^ 4"
  shows "Y^2 - X^3 - 7 * (2 * y * z)^6 = 64 * y^6 * (y^2 - x^3 - 7 * z^6)"
  unfolding assms by algebra

lemma chord_identity:
  fixes X Y U S c R H A B :: int
  assumes "R = S - Y" "H = U - X" "A = R^2 - H^3 - 2 * X * H^2" "B = R * (X * H^2 - A) - Y * H^3"
  shows "B^2 - A^3 - c * H^6 = H^6 * (Y^2 - X^3 - c) - H^3 * (A - X * H^2) * ((Y^2 - X^3 - c) - (S^2 - U^3 - c))"
  using assms by algebra

text \<open>
  \<open>on_curve p\<close>: canonical coordinates with \<open>Y\<^sup>2 = X\<^sup>3 + 7 Z\<^sup>6\<close> modulo the prime. \<open>represents p x y\<close>:
  an invertible \<open>Z\<close> and \<open>X = x Z\<^sup>2\<close>, \<open>Y = y Z\<^sup>3\<close>.
\<close>

definition curve_eq :: "int \<Rightarrow> int \<Rightarrow> int \<Rightarrow> bool" where
  "curve_eq X Y Z \<longleftrightarrow> int p_nat dvd Y ^ 2 - X ^ 3 - 7 * Z ^ 6"

definition on_curve :: "Point \<Rightarrow> bool" where
  "on_curve p \<longleftrightarrow> canonical (pt_x p) \<and> canonical (pt_y p) \<and> canonical (pt_z p) \<and>
     curve_eq (int (le_nat (pt_x p))) (int (le_nat (pt_y p))) (int (le_nat (pt_z p)))"

definition represents :: "Point \<Rightarrow> int \<Rightarrow> int \<Rightarrow> bool" where
  "represents p x y \<longleftrightarrow> (\<exists>Z. coprime Z (int p_nat) \<and> elem (pt_z p) Z \<and> elem (pt_x p) (x * Z ^ 2) \<and> elem (pt_y p) (y * Z ^ 3))"

lemma dvd_diff_mult:
  fixes m :: int
  assumes "m dvd a - A" and "m dvd b - B"
  shows "m dvd a * b - A * B"
proof -
  have "a * b - A * B = (a - A) * b + A * (b - B)" by (simp add: algebra_simps)
  then show ?thesis using assms by simp
qed

lemma dvd_diff_power: "m dvd a - A \<Longrightarrow> m dvd a ^ n - A ^ n" for m :: int
  by (induction n) (simp_all add: dvd_diff_mult)

text \<open>The curve equation may be read off any integers the coordinates stand for.\<close>

lemma curve_eq_elem:
  assumes "elem x X" and "elem y Y" and "elem z Z"
  shows "curve_eq (int (le_nat x)) (int (le_nat y)) (int (le_nat z)) \<longleftrightarrow> curve_eq X Y Z"
proof -
  define x' y' z' where [simp]: "x' = int (le_nat x)" "y' = int (le_nat y)" "z' = int (le_nat z)"
  have "int p_nat dvd (y' ^ 2 - Y ^ 2) - (x' ^ 3 - X ^ 3) - 7 * (z' ^ 6 - Z ^ 6)"
    by (rule dvd_diff [OF dvd_diff dvd_mult]; rule dvd_diff_power) (use assms in \<open>simp_all add: elem_def\<close>)
  also have "\<dots> = (y' ^ 2 - x' ^ 3 - 7 * z' ^ 6) - (Y ^ 2 - X ^ 3 - 7 * Z ^ 6)" by (simp add: algebra_simps)
  finally show ?thesis unfolding curve_eq_def x'_y'_z'_def [symmetric]
    by (metis dvd_diff_left_iff dvd_diff_right_iff)
qed

lemma on_curve_elem:
  "elem (pt_x p) X \<Longrightarrow> elem (pt_y p) Y \<Longrightarrow> elem (pt_z p) Z \<Longrightarrow> on_curve p \<longleftrightarrow> curve_eq X Y Z"
  by (simp add: on_curve_def curve_eq_elem elem_def)

lemma on_curve_INFINITY: "on_curve INFINITY"
  using on_curve_elem [of INFINITY 0 0 0] elem_consts by (simp add: INFINITY_def curve_eq_def)

context wide_arith
begin

text \<open>The coordinates of a doubled point and of a sum, as integer polynomials.\<close>

lemma double_coordinates:
  assumes "elem (pt_x p) X" and "elem (pt_y p) Y" and "elem (pt_z p) Z"
    and "\<not> int p_nat dvd Y" and "\<not> int p_nat dvd Z"
  defines "M \<equiv> 3 * X ^ 2" and "S \<equiv> 4 * X * Y ^ 2"
  defines "X' \<equiv> M ^ 2 - 2 * S"
  shows "elem (pt_x (double W p)) X'" and "elem (pt_y (double W p)) (M * (S - X') - 8 * Y ^ 4)"
    and "elem (pt_z (double W p)) (2 * Y * Z)"
proof -
  note x = assms(1) and y = assms(2) and z = assms(3)
  define yy where "yy = square W (pt_y p)"
  define s1 where "s1 = mul_mod W (pt_x p) yy"
  define s where "s = add_mod W (add_mod W s1 s1) (add_mod W s1 s1)"
  define xx where "xx = square W (pt_x p)"
  define m where "m = add_mod W (add_mod W xx xx) xx"
  define x' where "x' = sub_mod W (square W m) (add_mod W s s)"
  define y4 where "y4 = add_mod W (square W yy) (square W yy)"
  define y8 where "y8 = add_mod W (add_mod W y4 y4) (add_mod W y4 y4)"
  define yz where "yz = mul_mod W (pt_y p) (pt_z p)"
  have yy: "elem yy (Y * Y)" and xx: "elem xx (X * X)" and yz: "elem yz (Y * Z)"
    using x y z by (simp_all add: yy_def xx_def yz_def elem_square elem_mul)
  have s1: "elem s1 (X * (Y * Y))" unfolding s1_def by (rule elem_mul [OF x yy])
  have "elem s ((X * (Y * Y) + X * (Y * Y)) + (X * (Y * Y) + X * (Y * Y)))"
    unfolding s_def by (intro elem_add s1)
  then have s: "elem s S" by (simp add: S_def power2_eq_square algebra_simps)
  have "elem m (X * X + X * X + X * X)" unfolding m_def by (intro elem_add xx)
  then have m: "elem m M" by (simp add: M_def power2_eq_square algebra_simps)
  have "elem x' (M * M - (S + S))" unfolding x'_def by (intro elem_sub elem_square elem_add m s)
  then have x': "elem x' X'" by (simp add: X'_def power2_eq_square algebra_simps)
  have y4: "elem y4 ((Y * Y) * (Y * Y) + (Y * Y) * (Y * Y))" unfolding y4_def by (intro elem_add elem_square yy)
  have "elem y8 (((Y * Y) * (Y * Y) + (Y * Y) * (Y * Y) + ((Y * Y) * (Y * Y) + (Y * Y) * (Y * Y)))
     + ((Y * Y) * (Y * Y) + (Y * Y) * (Y * Y) + ((Y * Y) * (Y * Y) + (Y * Y) * (Y * Y))))"
    unfolding y8_def by (intro elem_add y4)
  then have y8: "elem y8 (8 * Y ^ 4)" by (simp add: power4_eq_xxxx algebra_simps)
  have y': "elem (sub_mod W (mul_mod W m (sub_mod W s x')) y8) (M * (S - X') - 8 * Y ^ 4)"
    by (intro elem_sub elem_mul m s x' y8)
  have "elem (add_mod W yz yz) (Y * Z + Y * Z)" by (intro elem_add yz)
  then have z': "elem (add_mod W yz yz) (2 * Y * Z)" by (simp add: algebra_simps)
  have "\<not> equal_limbs (pt_z p) field_ZERO" "\<not> equal_limbs (pt_y p) field_ZERO"
    using assms(4,5) y z by (simp_all add: elem_zero_iff)
  then have d: "double W p = \<lparr>pt_x = x', pt_y = sub_mod W (mul_mod W m (sub_mod W s x')) y8, pt_z = add_mod W yz yz\<rparr>"
    by (simp add: double_def Let_def yy_def s1_def s_def xx_def m_def x'_def y4_def y8_def yz_def)
  show "elem (pt_x (double W p)) X'" "elem (pt_y (double W p)) (M * (S - X') - 8 * Y ^ 4)"
    "elem (pt_z (double W p)) (2 * Y * Z)"
    unfolding d using x' y' z' by simp_all
qed

end

context wide_arith
begin

lemma add_coordinates:
  assumes "elem (pt_x p) X" and "elem (pt_y p) Y" and "elem (pt_z p) Z" and "elem x x2" and "elem y y2"
    and "\<not> int p_nat dvd Z"
  defines "H \<equiv> x2 * Z ^ 2 - X" and "R \<equiv> y2 * Z ^ 3 - Y"
  defines "X' \<equiv> R ^ 2 - H ^ 3 - 2 * X * H ^ 2"
  shows "int p_nat dvd H \<Longrightarrow> int p_nat dvd R \<Longrightarrow> add_affine W p x y = double W p"
    and "int p_nat dvd H \<Longrightarrow> \<not> int p_nat dvd R \<Longrightarrow> add_affine W p x y = INFINITY"
    and "\<not> int p_nat dvd H \<Longrightarrow> elem (pt_x (add_affine W p x y)) X' \<and>
      elem (pt_y (add_affine W p x y)) (R * (X * H ^ 2 - X') - Y * H ^ 3) \<and> elem (pt_z (add_affine W p x y)) (Z * H)"
proof -
  note px = assms(1) and py = assms(2) and pz = assms(3) and ax = assms(4) and ay = assms(5)
  define zz where "zz = square W (pt_z p)"
  define h where "h = sub_mod W (mul_mod W x zz) (pt_x p)"
  define r where "r = sub_mod W (mul_mod W y (mul_mod W zz (pt_z p))) (pt_y p)"
  define hh where "hh = square W h"
  define hhh where "hhh = mul_mod W hh h"
  define v where "v = mul_mod W (pt_x p) hh"
  define x' where "x' = sub_mod W (sub_mod W (square W r) hhh) (add_mod W v v)"
  have zz: "elem zz (Z * Z)" unfolding zz_def by (rule elem_square [OF pz])
  have "elem h (x2 * (Z * Z) - X)" unfolding h_def by (intro elem_sub elem_mul ax zz px)
  then have h: "elem h H" by (simp add: H_def power2_eq_square)
  have "elem r (y2 * (Z * Z * Z) - Y)" unfolding r_def by (intro elem_sub elem_mul ay zz pz py)
  then have r: "elem r R" by (simp add: R_def power3_eq_cube)
  have z0: "\<not> equal_limbs (pt_z p) field_ZERO" using assms(6) pz by (simp add: elem_zero_iff)
  note add = add_affine_def [of W p x y, folded zz_def, unfolded Let_def, folded h_def r_def]
  show "add_affine W p x y = double W p" if "int p_nat dvd H" "int p_nat dvd R"
    using that z0 h r by (simp add: add_affine_def Let_def elem_zero_iff flip: zz_def h_def r_def)
  show "add_affine W p x y = INFINITY" if "int p_nat dvd H" "\<not> int p_nat dvd R"
    using that z0 h r by (simp add: add_affine_def Let_def elem_zero_iff flip: zz_def h_def r_def)
  assume H0: "\<not> int p_nat dvd H"
  have hh: "elem hh (H * H)" unfolding hh_def by (rule elem_square [OF h])
  have hhh: "elem hhh (H * H * H)" unfolding hhh_def by (rule elem_mul [OF hh h])
  have v: "elem v (X * (H * H))" unfolding v_def by (rule elem_mul [OF px hh])
  have "elem x' (R * R - H * H * H - (X * (H * H) + X * (H * H)))"
    unfolding x'_def by (intro elem_sub elem_square elem_add r hhh v)
  then have x': "elem x' X'" by (simp add: X'_def power2_eq_square power3_eq_cube algebra_simps)
  have "elem (sub_mod W (mul_mod W r (sub_mod W v x')) (mul_mod W (pt_y p) hhh)) (R * (X * (H * H) - X') - Y * (H * H * H))"
    by (intro elem_sub elem_mul r v x' py hhh)
  moreover have "elem (mul_mod W (pt_z p) h) (Z * H)" by (rule elem_mul [OF pz h])
  moreover have "add_affine W p x y = \<lparr>pt_x = x', pt_y = sub_mod W (mul_mod W r (sub_mod W v x')) (mul_mod W (pt_y p) hhh),
      pt_z = mul_mod W (pt_z p) h\<rparr>"
    using z0 H0 h by (simp add: add_affine_def Let_def elem_zero_iff x'_def v_def hhh_def hh_def flip: zz_def h_def r_def)
  ultimately show "elem (pt_x (add_affine W p x y)) X' \<and> elem (pt_y (add_affine W p x y)) (R * (X * H ^ 2 - X') - Y * H ^ 3) \<and>
      elem (pt_z (add_affine W p x y)) (Z * H)"
    using x' by (simp add: power2_eq_square power3_eq_cube mult.assoc)
qed

lemma double_on_curve:
  assumes "on_curve p"
  shows "on_curve (double W p)"
proof (cases "equal_limbs (pt_z p) field_ZERO \<or> equal_limbs (pt_y p) field_ZERO")
  case True
  then show ?thesis by (simp add: double_def on_curve_INFINITY)
next
  case False
  define X Y Z where "X = int (le_nat (pt_x p))" "Y = int (le_nat (pt_y p))" "Z = int (le_nat (pt_z p))"
  have e: "elem (pt_x p) X" "elem (pt_y p) Y" "elem (pt_z p) Z"
    using assms by (simp_all add: on_curve_def X_Y_Z_def elem_self)
  have nz: "\<not> int p_nat dvd Y" "\<not> int p_nat dvd Z" using False e by (simp_all add: elem_zero_iff)
  have "int p_nat dvd 64 * Y ^ 6 * (Y ^ 2 - X ^ 3 - 7 * Z ^ 6)"
    using assms on_curve_elem [OF e] by (simp add: curve_eq_def)
  then show ?thesis
    unfolding on_curve_elem [OF double_coordinates [OF e nz]] curve_eq_def tangent_identity [of X Y Z, symmetric] .
qed

lemma add_affine_on_curve:
  assumes "on_curve p" and "on_curve \<lparr>pt_x = x, pt_y = y, pt_z = field_ONE\<rparr>"
  shows "on_curve (add_affine W p x y)"
proof (cases "equal_limbs (pt_z p) field_ZERO")
  case True
  then show ?thesis using assms(2) by (simp add: add_affine_def)
next
  case False
  define X Y Z where "X = int (le_nat (pt_x p))" "Y = int (le_nat (pt_y p))" "Z = int (le_nat (pt_z p))"
  have e: "elem (pt_x p) X" "elem (pt_y p) Y" "elem (pt_z p) Z"
    using assms(1) by (simp_all add: on_curve_def X_Y_Z_def elem_self)
  define x2 y2 where "x2 = int (le_nat x)" "y2 = int (le_nat y)"
  have a: "elem x x2" "elem y y2" using assms(2) by (simp_all add: on_curve_def x2_y2_def elem_self)
  have nz: "\<not> int p_nat dvd Z" using False e by (simp add: elem_zero_iff)
  note add = add_coordinates [OF e a nz]
  define H R where "H = x2 * Z ^ 2 - X" "R = y2 * Z ^ 3 - Y"
  define A where "A = R ^ 2 - H ^ 3 - 2 * X * H ^ 2"
  define B where "B = R * (X * H ^ 2 - A) - Y * H ^ 3"
  have E1: "int p_nat dvd Y ^ 2 - X ^ 3 - 7 * Z ^ 6" using assms(1) on_curve_elem [OF e] by (simp add: curve_eq_def)
  have "int p_nat dvd y2 ^ 2 - x2 ^ 3 - 7 * 1 ^ 6"
    using assms(2) on_curve_elem [of "\<lparr>pt_x = x, pt_y = y, pt_z = field_ONE\<rparr>" x2 y2 1] a elem_consts(2) by (simp add: curve_eq_def)
  then have "int p_nat dvd Z ^ 6 * (y2 ^ 2 - x2 ^ 3 - 7)" by simp
  also have "\<dots> = (y2 * Z ^ 3) ^ 2 - (x2 * Z ^ 2) ^ 3 - 7 * Z ^ 6" by algebra
  finally have E2: "int p_nat dvd (y2 * Z ^ 3) ^ 2 - (x2 * Z ^ 2) ^ 3 - 7 * Z ^ 6" .
  have "int p_nat dvd B ^ 2 - A ^ 3 - 7 * Z ^ 6 * H ^ 6"
    unfolding chord_identity [OF H_R_def(2,1) A_def B_def, of "7 * Z ^ 6"]
    by (intro dvd_diff dvd_mult E1 E2)
  then have C: "curve_eq A B (Z * H)" by (simp add: curve_eq_def power_mult_distrib mult.assoc)
  consider "int p_nat dvd H" "int p_nat dvd R" | "int p_nat dvd H" "\<not> int p_nat dvd R" | "\<not> int p_nat dvd H" by blast
  then show ?thesis
  proof cases
    case 1 with add(1) assms(1) show ?thesis by (simp add: H_R_def double_on_curve)
  next
    case 2 with add(2) show ?thesis by (simp add: H_R_def on_curve_INFINITY)
  next
    case 3
    with add(3) have "elem (pt_x (add_affine W p x y)) A" "elem (pt_y (add_affine W p x y)) B" "elem (pt_z (add_affine W p x y)) (Z * H)"
      by (simp_all add: H_R_def A_def B_def)
    with C show ?thesis by (simp add: on_curve_elem)
  qed
qed

end

lemma on_curve_GENERATOR: "on_curve GENERATOR"
proof -
  have v: "le_nat (pt_x GENERATOR) = 0x79be667ef9dcbbac55a06295ce870b07029bfcdb2dce28d959f2815b16f81798" "le_nat (pt_y GENERATOR) = 0x483ada7726a3c4655da4fbfc0e1108a8fd17b448a68554199c47d08ffb10d4b8"
    by (simp_all add: GENERATOR_def)
  have "int (le_nat (pt_y GENERATOR)) ^ 2 - int (le_nat (pt_x GENERATOR)) ^ 3 - 7
      = int p_nat * - 0x1b888e01a06e974017a28a5b4da436169761c9730b7aeedf75fc60f6a33cfc7792fe74711f025d590b10e57f1b3a7ce38ffc4c885c515894b45c19c9f413e5e9"
    unfolding v p_nat_def by simp
  then have "int p_nat dvd (int (le_nat (pt_y GENERATOR))) ^ 2 - (int (le_nat (pt_x GENERATOR))) ^ 3 - 7 * 1"
    by simp
  moreover have "canonical (pt_x GENERATOR)" "canonical (pt_y GENERATOR)" "pt_z GENERATOR = field_ONE"
    by (simp_all add: GENERATOR_def canonical_def p_nat_def)
  ultimately show ?thesis by (simp add: on_curve_def curve_eq_def canonical_consts)
qed

lemma Point_eta: "\<lparr>pt_x = pt_x GENERATOR, pt_y = pt_y GENERATOR, pt_z = field_ONE\<rparr> = GENERATOR"
  by (simp add: GENERATOR_def)

lemma coprime_not_dvd: "coprime a (int p_nat) \<Longrightarrow> \<not> int p_nat dvd a"
  using coprime_common_divisor [of a "int p_nat" "int p_nat"] by (auto simp: p_nat_def)

context wide_arith
begin

lemma generator_bits_on_curve: "on_curve point \<Longrightarrow> on_curve (generator_bits W b is point)"
  by (induction "is" arbitrary: point)
    (simp_all add: Let_def double_on_curve add_affine_on_curve Point_eta on_curve_GENERATOR)

lemma generator_bytes_on_curve: "on_curve point \<Longrightarrow> on_curve (generator_bytes W bs point)"
  by (induction bs arbitrary: point) (simp_all add: generator_bits_on_curve del: generator_bits.simps)

lemma generator_mul_on_curve: "on_curve (generator_mul W scalar)"
  by (simp add: generator_mul_def generator_bytes_on_curve on_curve_INFINITY)

text \<open>The tangent and chord laws of the affine points the coordinates represent; the slope is given by its
  defining equation, so no inverse is needed to state them.\<close>

lemma double_represents:
  assumes p: "represents p x1 y1" and y1: "coprime (2 * y1) (int p_nat)"
    and slope: "int p_nat dvd l * (2 * y1) - 3 * x1 ^ 2"
  defines "x3 \<equiv> l ^ 2 - 2 * x1"
  shows "represents (double W p) x3 (l * (x1 - x3) - y1)"
proof -
  obtain Z where cz: "coprime Z (int p_nat)" and z: "elem (pt_z p) Z" and x: "elem (pt_x p) (x1 * Z ^ 2)"
    and y: "elem (pt_y p) (y1 * Z ^ 3)" using p by (auto simp: represents_def)
  have cy: "coprime (y1 * Z ^ 3) (int p_nat)" using y1 cz by simp
  define Z3 where "Z3 = 2 * (y1 * Z ^ 3) * Z"
  define k where "k = 3 * x1 ^ 2 - l * (2 * y1)"
  have k: "int p_nat dvd k" using slope by (simp add: k_def dvd_diff_commute)
  have M: "3 * (x1 * Z ^ 2) ^ 2 = l * Z3 + k * Z ^ 4" by (simp add: k_def Z3_def power_mult_distrib algebra_simps power4_eq_xxxx power3_eq_cube power2_eq_square)
  note d = double_coordinates [OF x y z coprime_not_dvd [OF cy] coprime_not_dvd [OF cz], folded Z3_def]
  have dx: "int p_nat dvd ((3 * (x1 * Z ^ 2) ^ 2) ^ 2 - 2 * (4 * (x1 * Z ^ 2) * (y1 * Z ^ 3) ^ 2)) - x3 * Z3 ^ 2"
  proof -
    have "((3 * (x1 * Z ^ 2) ^ 2) ^ 2 - 2 * (4 * (x1 * Z ^ 2) * (y1 * Z ^ 3) ^ 2)) - x3 * Z3 ^ 2
        = k * (Z ^ 4 * (2 * l * Z3 + k * Z ^ 4))"
      unfolding M x3_def Z3_def by algebra
    then show ?thesis using k by simp
  qed
  have dy: "int p_nat dvd (3 * (x1 * Z ^ 2) ^ 2 * (4 * (x1 * Z ^ 2) * (y1 * Z ^ 3) ^ 2 - x3 * Z3 ^ 2) - 8 * (y1 * Z ^ 3) ^ 4)
      - (l * (x1 - x3) - y1) * Z3 ^ 3"
  proof -
    have "(3 * (x1 * Z ^ 2) ^ 2 * (4 * (x1 * Z ^ 2) * (y1 * Z ^ 3) ^ 2 - x3 * Z3 ^ 2) - 8 * (y1 * Z ^ 3) ^ 4)
        - (l * (x1 - x3) - y1) * Z3 ^ 3 = k * (Z ^ 4 * (Z3 ^ 2 * (x1 - x3)))"
      unfolding M Z3_def by algebra
    then show ?thesis using k by simp
  qed
  have e: "elem (pt_x (double W p)) (x3 * Z3 ^ 2)" by (rule elem_cong [OF d(1) dx])
  define X' where "X' = (3 * (x1 * Z ^ 2) ^ 2) ^ 2 - 2 * (4 * (x1 * Z ^ 2) * (y1 * Z ^ 3) ^ 2)"
  have "int p_nat dvd - (3 * (x1 * Z ^ 2) ^ 2) * (X' - x3 * Z3 ^ 2)"
    using dx unfolding X'_def by (rule dvd_mult)
  from dvd_add [OF this dy]
  have "elem (pt_y (double W p)) ((l * (x1 - x3) - y1) * Z3 ^ 3)"
    by (intro elem_cong [OF d(2)]) (simp add: X'_def algebra_simps)
  moreover have "coprime Z3 (int p_nat)" using y1 cz by (simp add: Z3_def mult.assoc [symmetric])
  ultimately show ?thesis using e d(3) by (auto simp: represents_def)
qed

lemma add_represents:
  assumes p: "represents p x1 y1" and a: "elem x x2" "elem y y2"
    and c: "coprime (x2 - x1) (int p_nat)" and slope: "int p_nat dvd l * (x2 - x1) - (y2 - y1)"
  defines "x3 \<equiv> l ^ 2 - x1 - x2"
  shows "represents (add_affine W p x y) x3 (l * (x1 - x3) - y1)"
proof -
  obtain Z where cz: "coprime Z (int p_nat)" and z: "elem (pt_z p) Z" and px: "elem (pt_x p) (x1 * Z ^ 2)"
    and py: "elem (pt_y p) (y1 * Z ^ 3)" using p by (auto simp: represents_def)
  define k where "k = (y2 - y1) - l * (x2 - x1)"
  have k: "int p_nat dvd k" using slope by (simp add: k_def dvd_diff_commute)
  define H where "H = x2 * Z ^ 2 - x1 * Z ^ 2"
  have H: "H = (x2 - x1) * Z ^ 2" by (simp add: H_def algebra_simps)
  have cH: "coprime H (int p_nat)" using c cz by (simp add: H)
  define Z3 where "Z3 = Z * H"
  define R where "R = y2 * Z ^ 3 - y1 * Z ^ 3"
  have R: "R = l * Z3 + k * Z ^ 3" by (simp add: R_def k_def Z3_def H power3_eq_cube power2_eq_square algebra_simps)
  define X' where "X' = R ^ 2 - H ^ 3 - 2 * (x1 * Z ^ 2) * H ^ 2"
  note d = add_coordinates(3) [OF px py z a coprime_not_dvd [OF cz], folded H_def R_def, folded X'_def Z3_def, OF coprime_not_dvd [OF cH]]
  have "X' - x3 * Z3 ^ 2 = k * (Z ^ 3 * (2 * l * Z3 + k * Z ^ 3))"
    unfolding X'_def R x3_def Z3_def H by algebra
  then have dx: "int p_nat dvd X' - x3 * Z3 ^ 2" using k by simp
  have "(R * (x1 * Z ^ 2 * H ^ 2 - X') - y1 * Z ^ 3 * H ^ 3) - (l * (x1 - x3) - y1) * Z3 ^ 3
      = - R * (X' - x3 * Z3 ^ 2) + k * (Z ^ 3 * (Z3 ^ 2 * (x1 - x3)))"
    unfolding R Z3_def by algebra
  then have dy: "int p_nat dvd (R * (x1 * Z ^ 2 * H ^ 2 - X') - y1 * Z ^ 3 * H ^ 3) - (l * (x1 - x3) - y1) * Z3 ^ 3"
    using dx k by simp
  have "coprime Z3 (int p_nat)" using cz cH by (simp add: Z3_def)
  then show ?thesis using d elem_cong [OF _ dx] elem_cong [OF _ dy] by (auto simp: represents_def)
qed

end

context wide_arith
begin

lemma affine_None_iff: "on_curve p \<Longrightarrow> affine W p = None \<longleftrightarrow> pt_z p = field_ZERO"
  by (simp add: affine_def Let_def equal_limbs_iff on_curve_def canonical_def field_ZERO_def)

text \<open>Where the power \<open>z ^ (p - 2)\<close> inverts \<open>z\<close>, the affine form of a point on the curve is on it too.\<close>

lemma affine_on_curve:
  assumes "on_curve p" and "affine W p = Some (x, y)"
    and inv: "(le_nat (pt_z p) ^ (p_nat - 2) * le_nat (pt_z p)) mod p_nat = 1"
  shows "on_curve \<lparr>pt_x = x, pt_y = y, pt_z = field_ONE\<rparr>"
proof -
  define X Y Z where "X = int (le_nat (pt_x p))" "Y = int (le_nat (pt_y p))" "Z = int (le_nat (pt_z p))"
  have e: "elem (pt_x p) X" "elem (pt_y p) Y" "elem (pt_z p) Z"
    using assms(1) by (simp_all add: on_curve_def X_Y_Z_def elem_self)
  define I where "I = int (le_nat (pt_z p) ^ (p_nat - 2) mod p_nat)"
  have "elem (inverse_chain W (pt_z p)) I"
    using inverse_chain_correct [of "pt_z p"] e(3) by (simp add: I_def pow_of_def elem_def)
  then have "elem x (X * (I * I))" "elem y (Y * (I * I * I))"
    using assms(2) e by (auto simp: affine_def Let_def elem_rules split: if_splits)
  moreover have "int p_nat dvd I * Z - 1"
  proof -
    have "(le_nat (pt_z p) ^ (p_nat - 2) mod p_nat * le_nat (pt_z p)) mod p_nat = 1" using inv by (simp add: mod_mult_left_eq)
    then have "(I * Z) mod int p_nat = 1" by (simp add: I_def X_Y_Z_def flip: of_nat_mult of_nat_mod)
    then show ?thesis by (metis dvd_minus_mod)
  qed
  then have "int p_nat dvd (I * Z) ^ 6 - 1 ^ 6" by (rule dvd_diff_power)
  then have "int p_nat dvd (I * Z) ^ 6 - 1" by simp
  moreover have "int p_nat dvd Y ^ 2 - X ^ 3 - 7 * Z ^ 6" using assms(1) on_curve_elem [OF e] by (simp add: curve_eq_def)
  ultimately have "int p_nat dvd I ^ 6 * (Y ^ 2 - X ^ 3 - 7 * Z ^ 6) + 7 * ((I * Z) ^ 6 - 1)" by (intro dvd_add dvd_mult)
  also have "\<dots> = (Y * (I * I * I)) ^ 2 - (X * (I * I)) ^ 3 - 7" by algebra
  finally show ?thesis
    using on_curve_elem [of "\<lparr>pt_x = x, pt_y = y, pt_z = field_ONE\<rparr>" "X * (I * I)" "Y * (I * I * I)" 1] elem_consts(2)
      \<open>elem x (X * (I * I))\<close> \<open>elem y (Y * (I * I * I))\<close> by (simp add: curve_eq_def)
qed

lemma affine_None: "affine W INFINITY = None"
  by (simp add: affine_def INFINITY_def equal_limbs_def)

end

section \<open>Properties\<close>

text \<open>C33. The curve is an invariant of point arithmetic: from any points on it doubling and mixed addition
  give canonical coordinates on it, on every branch, so whatever the scalar \<open>generator_mul\<close> gives a
  point on the curve, in both builds.\<close>

theorem points_stay_on_curve:
  assumes "on_curve p" and "on_curve \<lparr>pt_x = x, pt_y = y, pt_z = field_ONE\<rparr>"
  shows "on_curve (double native_wide p) \<and> on_curve (double portable p) \<and>
    on_curve (add_affine native_wide p x y) \<and> on_curve (add_affine portable p x y) \<and>
    on_curve (generator_mul native_wide scalar) \<and> on_curve (generator_mul portable scalar)"
  using assms by (simp add: native.double_on_curve native.add_affine_on_curve native.generator_mul_on_curve
    portable.double_on_curve portable.add_affine_on_curve portable.generator_mul_on_curve)

theorem points_stay_on_curve_witness:
  "on_curve (double native_wide GENERATOR) \<and> on_curve (add_affine portable GENERATOR (pt_x GENERATOR) (pt_y GENERATOR))"
  using points_stay_on_curve [of GENERATOR "pt_x GENERATOR" "pt_y GENERATOR"] by (simp add: Point_eta on_curve_GENERATOR)

text \<open>C34. Point arithmetic implements the group law: where \<open>p\<close> stands for the affine point
  \<open>(x\<^sub>1, y\<^sub>1)\<close>, mixed addition gives the third point on the chord of slope \<open>l\<close>, doubling the one on the
  tangent, adding the point itself is doubling, adding the opposite point gives infinity, and infinity
  plus a point is the point.\<close>

theorem point_addition_is_group_law:
  assumes "represents p x1 y1" and "elem x x2" and "elem y y2"
  shows "(coprime (x2 - x1) (int p_nat) \<and> int p_nat dvd l * (x2 - x1) - (y2 - y1) \<longrightarrow>
      represents (add_affine native_wide p x y) (l ^ 2 - x1 - x2) (l * (x1 - (l ^ 2 - x1 - x2)) - y1)) \<and>
    (coprime (2 * y1) (int p_nat) \<and> int p_nat dvd l * (2 * y1) - 3 * x1 ^ 2 \<longrightarrow>
      represents (double native_wide p) (l ^ 2 - 2 * x1) (l * (x1 - (l ^ 2 - 2 * x1)) - y1)) \<and>
    (int p_nat dvd x2 - x1 \<and> int p_nat dvd y2 - y1 \<longrightarrow> add_affine native_wide p x y = double native_wide p) \<and>
    (int p_nat dvd x2 - x1 \<and> coprime (y2 - y1) (int p_nat) \<longrightarrow> add_affine native_wide p x y = INFINITY) \<and>
    represents (add_affine native_wide INFINITY x y) x2 y2"
proof -
  obtain Z where cz: "coprime Z (int p_nat)" and z: "elem (pt_z p) Z" and px: "elem (pt_x p) (x1 * Z ^ 2)"
    and py: "elem (pt_y p) (y1 * Z ^ 3)" using assms(1) by (auto simp: represents_def)
  note add = native.add_coordinates [OF px py z assms(2,3) coprime_not_dvd [OF cz]]
  have f: "x2 * Z ^ 2 - x1 * Z ^ 2 = (x2 - x1) * Z ^ 2" "y2 * Z ^ 3 - y1 * Z ^ 3 = (y2 - y1) * Z ^ 3"
    by (simp_all add: algebra_simps)
  have same: "add_affine native_wide p x y = double native_wide p" if "int p_nat dvd x2 - x1" "int p_nat dvd y2 - y1"
    using add(1) that by (simp add: f)
  have "add_affine native_wide p x y = INFINITY" if "int p_nat dvd x2 - x1" "coprime (y2 - y1) (int p_nat)"
    using add(2) that coprime_not_dvd [of "(y2 - y1) * Z ^ 3"] cz by (simp add: f)
  moreover have "represents (add_affine native_wide INFINITY x y) x2 y2"
    using assms(2,3) elem_consts(2)
    by (auto simp: add_affine_def INFINITY_def equal_limbs_def represents_def intro!: exI [of _ 1])
  ultimately show ?thesis
    using same native.add_represents [OF assms] native.double_represents [OF assms(1)] by blast
qed

theorem point_addition_is_group_law_witness:
  "represents (add_affine native_wide INFINITY (pt_x GENERATOR) (pt_y GENERATOR))
     (int (le_nat (pt_x GENERATOR))) (int (le_nat (pt_y GENERATOR)))"
proof -
  have "elem (pt_x GENERATOR) (int (le_nat (pt_x GENERATOR)))" "elem (pt_y GENERATOR) (int (le_nat (pt_y GENERATOR)))"
    using on_curve_GENERATOR by (simp_all add: on_curve_def elem_self)
  moreover from this have "represents GENERATOR (int (le_nat (pt_x GENERATOR))) (int (le_nat (pt_y GENERATOR)))"
    using elem_consts(2) by (auto simp: represents_def GENERATOR_def intro!: exI [of _ 1])
  ultimately show ?thesis using point_addition_is_group_law by blast
qed

end
