(* ===== verification/Binary_Euclid.thy ===== *)
theory Binary_Euclid
  imports Point
begin

text \<open>
  The variable-time loops of \<open>rust-engine/src/sign.rs\<close>: the binary extended Euclid inverse and the binary
  Jacobi symbol, with the one-bit shift and the field half they use. The loops are partial functions:
  \<open>None\<close> is a loop that does not end.
\<close>

section \<open>Shifts and tests\<close>

definition is_zero :: "limbs \<Rightarrow> bool" where
  "is_zero v \<longleftrightarrow> (v ! 0 OR v ! 1 OR v ! 2 OR v ! 3 OR v ! 4 OR v ! 5 OR v ! 6 OR v ! 7) = 0"

definition is_one :: "limbs \<Rightarrow> bool" where
  "is_one v \<longleftrightarrow> v ! 0 = 1 \<and> (v ! 1 OR v ! 2 OR v ! 3 OR v ! 4 OR v ! 5 OR v ! 6 OR v ! 7) = 0"

definition shift_right :: "limbs \<Rightarrow> u32 \<Rightarrow> limbs" where
  "shift_right v high =
     [drop_bit 1 (v ! 0) OR push_bit 31 (v ! 1),
      drop_bit 1 (v ! 1) OR push_bit 31 (v ! 2),
      drop_bit 1 (v ! 2) OR push_bit 31 (v ! 3),
      drop_bit 1 (v ! 3) OR push_bit 31 (v ! 4),
      drop_bit 1 (v ! 4) OR push_bit 31 (v ! 5),
      drop_bit 1 (v ! 5) OR push_bit 31 (v ! 6),
      drop_bit 1 (v ! 6) OR push_bit 31 (v ! 7),
      drop_bit 1 (v ! 7) OR push_bit 31 high]"

definition half :: "'w wide_ops \<Rightarrow> limbs \<Rightarrow> limbs" where
  "half W value =
     (if value ! 0 AND 1 = 0 then shift_right value 0
      else let (words, carry) = add_limbs W value P (w_zero W)
           in shift_right words (w_low W carry))"

section \<open>The inverse\<close>

partial_function (option) strip_half :: "'w wide_ops \<Rightarrow> limbs \<Rightarrow> limbs \<Rightarrow> (limbs \<times> limbs) option" where
  "strip_half W u x =
     (if u ! 0 AND 1 = 0 then strip_half W (shift_right u 0) (half W x) else Some (u, x))"

partial_function (option) inverse_loop :: "'w wide_ops \<Rightarrow> limbs \<Rightarrow> limbs \<Rightarrow> limbs \<Rightarrow> limbs \<Rightarrow> limbs option" where
  "inverse_loop W u v x1 x2 =
     (if is_one u then Some x1
      else if is_one v then Some x2
      else Option.bind (strip_half W u x1) (\<lambda>(u, x1).
           Option.bind (strip_half W v x2) (\<lambda>(v, x2).
             let (difference, borrow) = subtract W u v
             in if borrow = 0 then inverse_loop W difference v (sub_mod W x1 x2) x2
                else inverse_loop W u (fst (subtract W v u)) x1 (sub_mod W x2 x1))))"

definition inverse_binary :: "'w wide_ops \<Rightarrow> limbs \<Rightarrow> limbs option" where
  "inverse_binary W value =
     (if is_zero value then Some field_ZERO else inverse_loop W value P field_ONE field_ZERO)"

section \<open>The Jacobi symbol\<close>

partial_function (option) strip_jacobi :: "limbs \<Rightarrow> limbs \<Rightarrow> bool \<Rightarrow> (limbs \<times> bool) option" where
  "strip_jacobi n a negative =
     (if a ! 0 AND 1 = 0
      then let residue = n ! 0 AND 7
           in strip_jacobi n (shift_right a 0) (negative \<noteq> (residue = 3 \<or> residue = 5))
      else Some (a, negative))"

partial_function (option) jacobi_loop :: "'w wide_ops \<Rightarrow> limbs \<Rightarrow> limbs \<Rightarrow> bool \<Rightarrow> (limbs \<times> bool) option" where
  "jacobi_loop W a n negative =
     (if is_zero a then Some (n, negative)
      else Option.bind (strip_jacobi n a negative) (\<lambda>(a, negative).
             let (difference, borrow) = subtract W a n
             in if borrow = 0 then jacobi_loop W difference n negative
                else jacobi_loop W (fst (subtract W n a)) a
                       (negative \<noteq> (a ! 0 AND 3 = 3 \<and> n ! 0 AND 3 = 3))))"

definition is_square_binary :: "'w wide_ops \<Rightarrow> limbs \<Rightarrow> bool option" where
  "is_square_binary W value =
     map_option (\<lambda>(n, negative). is_one n \<and> \<not> negative) (jacobi_loop W value P False)"

section \<open>Values\<close>

lemma is_zero_iff: "length v = 8 \<Longrightarrow> is_zero v \<longleftrightarrow> le_nat v = 0"
  by (erule length_8_cases) (simp add: is_zero_def word_or_eq_0 unat_eq_zero)

lemma is_one_iff: "length v = 8 \<Longrightarrow> is_one v \<longleftrightarrow> le_nat v = 1"
proof (erule length_8_cases)
  fix a0 a1 a2 a3 a4 a5 a6 a7 assume v: "v = [a0, a1, a2, a3, a4, a5, a6, a7]"
  have "le_nat v = 1 \<longleftrightarrow> unat a0 = 1 \<and> le_nat [a1, a2, a3, a4, a5, a6, a7] = 0"
    unfolding v le_nat_Cons_32 [of a0] using unat_u32_less [of a0] by (cases "le_nat [a1, a2, a3, a4, a5, a6, a7] = 0") auto
  moreover have "unat a0 = 1 \<longleftrightarrow> a0 = 1" by (metis unat_1 word_unat_eq_iff)
  ultimately show ?thesis unfolding is_one_def v by (simp add: word_or_eq_0 unat_eq_zero)
qed

lemma even_iff: "length v = 8 \<Longrightarrow> v ! 0 AND 1 = 0 \<longleftrightarrow> even (le_nat (v :: limbs))"
proof -
  assume "length v = 8"
  then obtain x xs where v: "v = x # xs" by (cases v) auto
  have "x AND 1 = 0 \<longleftrightarrow> even (unat x)"
    using unat_and_mask [of x 1] by (simp add: word_unat_eq_iff even_iff_mod_2_eq_zero)
  then show ?thesis by (simp add: v le_nat_Cons_32)
qed

lemma shift_word: "unat (drop_bit 1 x OR push_bit 31 y :: u32) = unat x div 2 + 2 ^ 31 * (unat y mod 2)"
proof -
  have "drop_bit 1 x OR push_bit 31 y = drop_bit 1 x + push_bit 31 (y :: u32)"
    by (rule disjunctive_add [symmetric]) (auto simp: bit_simps dest: bit_imp_le_length)
  moreover have "unat (push_bit 31 y :: u32) = unat y mod 2 * 2 ^ 31"
    by (simp add: unsigned_push_bit_eq take_bit_eq_mod push_bit_eq_mult mult_mod_left unat_word_ariths)
  moreover have "unat (drop_bit 1 x) = unat x div 2" by (simp add: unat_drop_bit)
  ultimately show ?thesis using unat_u32_less [of x]
    by (simp add: unat_word_ariths)
qed

lemma shift_step:
  fixes x y :: u32
  assumes "le_nat rest = le_nat (y # ys) div 2 + c"
  shows "le_nat ((drop_bit 1 x OR push_bit 31 y) # rest) = le_nat (x # y # ys) div 2 + 2 ^ 32 * c"
proof -
  define V where "V = le_nat (y # ys)"
  have "V = unat y + 2 * (2 ^ 31 * le_nat ys)" unfolding V_def le_nat_Cons_32 by simp
  then have m: "unat y mod 2 = V mod 2" by (simp only: mod_mult_self2)
  have "le_nat (x # y # ys) div 2 = unat x div 2 + 2 ^ 31 * V" unfolding le_nat_Cons_32 [of x] V_def [symmetric] by simp
  moreover have "le_nat ((drop_bit 1 x OR push_bit 31 y) # rest) = unat x div 2 + 2 ^ 31 * (V mod 2) + 2 ^ 32 * (V div 2 + c)"
    unfolding le_nat_Cons_32 [of _ rest] shift_word m assms V_def [symmetric] ..
  moreover have "2 ^ 31 * (V mod 2) + 2 ^ 32 * (V div 2) = 2 ^ 31 * V"
  proof -
    have "2 ^ 31 * (V mod 2) + 2 ^ 32 * (V div 2) = 2 ^ 31 * (V mod 2 + 2 * (V div 2))" by (simp only: distrib_left) simp
    then show ?thesis by (simp only: mod_mult_div_eq)
  qed
  ultimately show ?thesis by simp
qed

lemma shift_right_value:
  assumes "length v = 8"
  shows "length (shift_right v high) = 8" and "le_nat (shift_right v high) = le_nat v div 2 + 2 ^ 255 * (unat high mod 2)"
proof -
  obtain a0 a1 a2 a3 a4 a5 a6 a7 where v: "v = [a0, a1, a2, a3, a4, a5, a6, a7]" by (rule length_8_cases [OF assms])
  show "length (shift_right v high) = 8" by (simp add: shift_right_def)
  have "le_nat [drop_bit 1 a7 OR push_bit 31 high] = le_nat [a7] div 2 + 2 ^ 31 * (unat high mod 2)"
    by (simp add: shift_word [unfolded One_nat_def])
  from shift_step [OF shift_step [OF shift_step [OF shift_step [OF shift_step [OF shift_step [OF shift_step [OF this]]]]]]]
  show "le_nat (shift_right v high) = le_nat v div 2 + 2 ^ 255 * (unat high mod 2)"
    unfolding shift_right_def v by simp
qed

lemma shift_right_0: "length v = 8 \<Longrightarrow> le_nat (shift_right v 0) = le_nat v div 2"
  by (simp add: shift_right_value)

context wide_arith
begin

text \<open>\<open>half\<close> halves in the field.\<close>

lemma half_correct:
  assumes "canonical x"
  shows "canonical (half W x) \<and> 2 * le_nat (half W x) mod p_nat = le_nat x"
proof -
  have l: "length x = 8" and xp: "le_nat x < p_nat" using assms by (simp_all add: canonical_def)
  show ?thesis
  proof (cases "even (le_nat x)")
    case True
    then have "half W x = shift_right x 0" using l by (simp add: half_def even_iff)
    then show ?thesis using True l xp shift_right_0 [OF l] shift_right_value(1) [OF l, of 0] by (simp add: canonical_def)
  next
    case False
    obtain words carry where a: "add_limbs W x P (w_zero W) = (words, carry)" by fastforce
    note A = add_limbs_8 [OF l length_P a]
    have "half W x = shift_right words (w_low W carry)" using False l a by (simp add: half_def even_iff)
    moreover have c: "unat (w_low W carry) = val carry" using A(2) by (simp add: unat_low)
    moreover have cm: "val carry mod 2 = val carry" using A(2) by simp
    moreover note S = shift_right_value [OF A(1), of "w_low W carry"]
    moreover have "even (le_nat words + 2 ^ 256 * val carry)" unfolding A(3) le_nat_P using False by (simp add: p_nat_def)
    then have "even (le_nat words)" by simp
    ultimately have "2 * le_nat (half W x) = le_nat x + p_nat" "length (half W x) = 8"
      using A(3) by (simp_all add: le_nat_P)
    then show ?thesis using xp by (simp add: canonical_def)
  qed
qed

end

section \<open>The loops end\<close>

text \<open>\<open>ratio x u a\<close>: the element \<open>x\<close> times \<open>a\<close> is \<open>u\<close> in the field. This is what the inverse keeps of both pairs.\<close>

definition ratio :: "limbs \<Rightarrow> nat \<Rightarrow> nat \<Rightarrow> bool" where
  "ratio x u a \<longleftrightarrow> canonical x \<and> int p_nat dvd int (le_nat x) * int a - int u"

lemma dvd_double_p: "int p_nat dvd 2 * k \<longleftrightarrow> int p_nat dvd k"
proof -
  have "coprime (int p_nat) 2" by (simp add: p_nat_def)
  then show ?thesis by (metis coprime_dvd_mult_right_iff)
qed

lemma coprime_nat_sub: "(v :: nat) \<le> u \<Longrightarrow> coprime (u - v) v \<longleftrightarrow> coprime u v"
  by (metis coprime_iff_gcd_eq_1 gcd_diff1_nat)

lemma odd_part: "0 < (n :: nat) \<Longrightarrow> even n \<Longrightarrow> n div 2 < n \<and> 0 < n div 2"
  by auto

context wide_arith
begin

lemma ratio_half:
  assumes "ratio x u a" and "even u"
  shows "ratio (half W x) (u div 2) a"
proof -
  have x: "canonical x" "int p_nat dvd int (le_nat x) * int a - int u" using assms(1) by (simp_all add: ratio_def)
  note h = half_correct [OF x(1)]
  have "int p_nat dvd int (2 * le_nat (half W x) mod p_nat) - int (2 * le_nat (half W x))" by (rule dvd_mod_self)
  then have "int p_nat dvd (int (le_nat x) * int a - int u) - (int (le_nat x) - 2 * int (le_nat (half W x))) * int a"
    using x(2) h by simp
  also have "\<dots> = 2 * (int (le_nat (half W x)) * int a - int (u div 2))"
    using assms(2) by (auto simp: algebra_simps elim!: evenE)
  finally show ?thesis unfolding dvd_double_p ratio_def using h by blast
qed

lemma ratio_sub:
  assumes "ratio x u a" and "ratio y v a" and "v \<le> u"
  shows "ratio (sub_mod W x y) (u - v) a"
proof -
  have "elem (sub_mod W x y) (int (le_nat x) - int (le_nat y))"
    using assms by (intro elem_sub elem_self) (simp_all add: ratio_def)
  then have e: "canonical (sub_mod W x y)" "int p_nat dvd int (le_nat (sub_mod W x y)) - (int (le_nat x) - int (le_nat y))"
    by (simp_all add: elem_def)
  have "int p_nat dvd (int (le_nat (sub_mod W x y)) - (int (le_nat x) - int (le_nat y))) * int a +
      ((int (le_nat x) * int a - int u) - (int (le_nat y) * int a - int v))"
    by (rule dvd_add [OF dvd_mult2 dvd_diff]) (use e(2) assms(1,2) in \<open>simp_all add: ratio_def\<close>)
  then show ?thesis using e(1) assms(3) by (simp add: ratio_def of_nat_diff algebra_simps)
qed

lemma strip_half_total:
  assumes "length u = 8" and "0 < le_nat u" and "ratio x (le_nat u) a"
  obtains u' x' where "strip_half W u x = Some (u', x')" and "length u' = 8" and "odd (le_nat u')"
    and "le_nat u' \<le> le_nat u" and "le_nat u' dvd le_nat u" and "ratio x' (le_nat u') a"
proof -
  have "\<exists>u' x'. strip_half W u x = Some (u', x') \<and> length u' = 8 \<and> odd (le_nat u') \<and> le_nat u' \<le> le_nat u \<and>
      le_nat u' dvd le_nat u \<and> ratio x' (le_nat u') a"
    using assms
  proof (induction "le_nat u" arbitrary: u x rule: less_induct)
    case less
    note l = less.prems(1)
    show ?case
    proof (cases "even (le_nat u)")
      case True
      note s = shift_right_0 [OF l] shift_right_value(1) [OF l, of 0]
      from odd_part [OF less.prems(2) True] ratio_half [OF less.prems(3) True] s
      obtain u' x' where r: "strip_half W (shift_right u 0) (half W x) = Some (u', x')" "length u' = 8" "odd (le_nat u')"
          "le_nat u' \<le> le_nat u div 2" "le_nat u' dvd le_nat u div 2" "ratio x' (le_nat u') a"
        using less.hyps [of "shift_right u 0" "half W x"] by auto
      have "strip_half W u x = strip_half W (shift_right u 0) (half W x)"
        using True l by (subst strip_half.simps) (simp add: even_iff)
      moreover have "le_nat u div 2 dvd le_nat u" using True by (metis dvd_mult_div_cancel dvd_triv_right)
      then have "le_nat u' dvd le_nat u" by (rule dvd_trans [OF r(5)])
      moreover have "le_nat u' \<le> le_nat u" using r(4) by simp
      ultimately show ?thesis using r by simp
    next
      case False
      then have "strip_half W u x = Some (u, x)" using l by (subst strip_half.simps) (simp add: even_iff)
      then show ?thesis using less.prems False by auto
    qed
  qed
  then show ?thesis using that by blast
qed

text \<open>The loop of \<open>inverse_binary\<close> ends because each pass takes the smaller odd number off the larger.\<close>

lemma inverse_loop_total:
  assumes "length u = 8" "length v = 8" "0 < le_nat v" "coprime (le_nat u) (le_nat v)"
    and "ratio x1 (le_nat u) a" "ratio x2 (le_nat v) a"
  shows "\<exists>r. inverse_loop W u v x1 x2 = Some r \<and> ratio r 1 a"
  using assms
proof (induction "le_nat u + le_nat v" arbitrary: u v x1 x2 rule: less_induct)
  case less
  note l = less.prems(1,2)
  show ?case
  proof (cases "le_nat u = 1 \<or> le_nat v = 1")
    case True
    then show ?thesis using less.prems by (subst inverse_loop.simps) (auto simp: is_one_iff)
  next
    case False
    then have u0: "0 < le_nat u" using less.prems(4) by (cases "le_nat u = 0") auto
    obtain u' x1' where su: "strip_half W u x1 = Some (u', x1')" "length u' = 8" "odd (le_nat u')"
      "le_nat u' \<le> le_nat u" "le_nat u' dvd le_nat u" "ratio x1' (le_nat u') a"
      by (rule strip_half_total [OF l(1) u0 less.prems(5)])
    obtain v' x2' where sv: "strip_half W v x2 = Some (v', x2')" "length v' = 8" "odd (le_nat v')"
      "le_nat v' \<le> le_nat v" "le_nat v' dvd le_nat v" "ratio x2' (le_nat v') a"
      by (rule strip_half_total [OF l(2) less.prems(3,6)])
    have pos: "0 < le_nat u'" "0 < le_nat v'" using su(3) sv(3) by (auto intro: Nat.gr0I)
    have cop: "coprime (le_nat u') (le_nat v')" using less.prems(4) su(5) sv(5) by (meson coprime_divisors)
    obtain d b where s: "subtract W u' v' = (d, b)" by fastforce
    obtain d' b' where s': "subtract W v' u' = (d', b')" by fastforce
    note S = subtract_correct [OF su(2) sv(2) s] and S' = subtract_correct [OF sv(2) su(2) s']
    have loop: "inverse_loop W u v x1 x2 =
        (if b = 0 then inverse_loop W d v' (sub_mod W x1' x2') x2' else inverse_loop W u' d' x1' (sub_mod W x2' x1'))"
      using False l by (subst inverse_loop.simps) (simp add: is_one_iff su(1) sv(1) s s')
    show ?thesis
    proof (cases "le_nat v' \<le> le_nat u'")
      case True
      then have d: "le_nat d = le_nat u' - le_nat v'" "b = 0" using S by simp_all
      have "\<exists>r. inverse_loop W d v' (sub_mod W x1' x2') x2' = Some r \<and> ratio r 1 a"
        using less.hyps [of d v' "sub_mod W x1' x2'" x2'] S(1) sv su pos cop True d ratio_sub [OF su(6) sv(6) True]
        by (simp add: coprime_nat_sub)
      then show ?thesis by (simp add: loop d)
    next
      case lt: False
      then have d: "le_nat d' = le_nat v' - le_nat u'" "b \<noteq> 0" using S S' by simp_all
      have "coprime (le_nat u') (le_nat v' - le_nat u')"
        using cop lt coprime_nat_sub [of "le_nat u'" "le_nat v'"] by (simp add: coprime_commute)
      then have "\<exists>r. inverse_loop W u' d' x1' (sub_mod W x2' x1') = Some r \<and> ratio r 1 a"
        using less.hyps [of u' d' x1' "sub_mod W x2' x1'"] S'(1) sv su pos lt d ratio_sub [OF sv(6) su(6)]
        by simp
      then show ?thesis by (simp add: loop d)
    qed
  qed
qed

lemma inverse_binary_total:
  assumes "canonical a" and "coprime (le_nat a) p_nat"
  shows "\<exists>r. inverse_binary W a = Some r \<and> canonical r \<and> le_nat a * le_nat r mod p_nat = 1"
proof -
  have l: "length a = 8" using assms(1) by (simp add: canonical_def)
  have "ratio field_ONE (le_nat a) (le_nat a)" "ratio field_ZERO p_nat (le_nat a)"
    by (simp_all add: ratio_def canonical_consts)
  from inverse_loop_total [OF l length_P, unfolded le_nat_P, OF p_pos assms(2) this]
  obtain r where r: "inverse_loop W a P field_ONE field_ZERO = Some r" "ratio r 1 (le_nat a)" by blast
  have "p_nat \<noteq> 1" by (simp add: p_nat_def)
  then have "le_nat a \<noteq> 0" using assms(2) by (cases "le_nat a = 0") simp_all
  then have "inverse_binary W a = Some r" using r(1) l by (simp add: inverse_binary_def is_zero_iff)
  moreover have "int (le_nat a * le_nat r) mod int p_nat = 1 mod int p_nat"
    using r(2) by (simp add: ratio_def mod_eq_dvd_iff mult.commute)
  then have "le_nat a * le_nat r mod p_nat = 1 mod p_nat" by (metis of_nat_1 of_nat_eq_iff of_nat_mod)
  ultimately show ?thesis using r(2) by (simp add: ratio_def p_nat_def)
qed

end

lemma gcd_half: "even (a :: nat) \<Longrightarrow> odd n \<Longrightarrow> gcd (a div 2) n = gcd a n"
  by (metis coprime_commute coprime_left_2_iff_odd dvd_mult_div_cancel gcd_mult_left_left_cancel)

context wide_arith
begin

lemma strip_jacobi_total:
  assumes "length a = 8" and "0 < le_nat a" and "odd n"
  obtains a' negative' where "strip_jacobi ns a negative = Some (a', negative')" and "length a' = 8"
    and "odd (le_nat a')" and "le_nat a' \<le> le_nat a" and "gcd (le_nat a') n = gcd (le_nat a) n"
proof -
  have "\<exists>a' negative'. strip_jacobi ns a negative = Some (a', negative') \<and> length a' = 8 \<and> odd (le_nat a') \<and>
      le_nat a' \<le> le_nat a \<and> gcd (le_nat a') n = gcd (le_nat a) n"
    using assms(1,2)
  proof (induction "le_nat a" arbitrary: a negative rule: less_induct)
    case less
    note l = less.prems(1)
    show ?case
    proof (cases "even (le_nat a)")
      case True
      note s = shift_right_0 [OF l] shift_right_value(1) [OF l, of 0]
      define negative2 where "negative2 = (negative \<noteq> (ns ! 0 AND 7 = 3 \<or> ns ! 0 AND 7 = 5))"
      from odd_part [OF less.prems(2) True] s
      obtain a' negative' where r: "strip_jacobi ns (shift_right a 0) negative2 = Some (a', negative')"
        "length a' = 8" "odd (le_nat a')" "le_nat a' \<le> le_nat a div 2" "gcd (le_nat a') n = gcd (le_nat a div 2) n"
        using less.hyps [of "shift_right a 0" negative2] by auto
      have "strip_jacobi ns a negative = strip_jacobi ns (shift_right a 0) negative2"
        using True l by (subst strip_jacobi.simps) (simp add: even_iff negative2_def Let_def)
      moreover have "le_nat a' \<le> le_nat a" using r(4) by simp
      ultimately show ?thesis using r True assms(3) by (simp add: gcd_half)
    next
      case False
      then have "strip_jacobi ns a negative = Some (a, negative)"
        using l by (subst strip_jacobi.simps) (simp add: even_iff)
      then show ?thesis using less.prems False by auto
    qed
  qed
  then show ?thesis using that by blast
qed

lemma jacobi_loop_total:
  assumes "length a = 8" "length n = 8" "odd (le_nat n)"
  shows "\<exists>n' negative'. jacobi_loop W a n negative = Some (n', negative') \<and> length n' = 8 \<and>
    le_nat n' = gcd (le_nat a) (le_nat n)"
  using assms
proof (induction "le_nat a + le_nat n" arbitrary: a n negative rule: less_induct)
  case less
  note l = less.prems(1,2)
  show ?case
  proof (cases "le_nat a = 0")
    case True
    then show ?thesis using less.prems by (subst jacobi_loop.simps) (simp add: is_zero_iff)
  next
    case False
    then have a0: "0 < le_nat a" by simp
    obtain a' neg where sa: "strip_jacobi n a negative = Some (a', neg)" "length a' = 8" "odd (le_nat a')"
      "le_nat a' \<le> le_nat a" "gcd (le_nat a') (le_nat n) = gcd (le_nat a) (le_nat n)"
      by (rule strip_jacobi_total [OF l(1) a0 less.prems(3)])
    have pos: "0 < le_nat a'" "0 < le_nat n" using sa(3) less.prems(3) by (auto intro: Nat.gr0I)
    obtain d b where s: "subtract W a' n = (d, b)" by fastforce
    obtain d' b' where s': "subtract W n a' = (d', b')" by fastforce
    note S = subtract_correct [OF sa(2) l(2) s] and S' = subtract_correct [OF l(2) sa(2) s']
    define neg' where "neg' = (neg \<noteq> (a' ! 0 AND 3 = 3 \<and> n ! 0 AND 3 = 3))"
    have loop: "jacobi_loop W a n negative = (if b = 0 then jacobi_loop W d n neg else jacobi_loop W d' a' neg')"
      using False l by (subst jacobi_loop.simps) (simp add: is_zero_iff sa(1) s s' neg'_def)
    show ?thesis
    proof (cases "le_nat n \<le> le_nat a'")
      case True
      then have d: "le_nat d = le_nat a' - le_nat n" "b = 0" using S by simp_all
      have "gcd (le_nat a' - le_nat n) (le_nat n) = gcd (le_nat a) (le_nat n)"
        using True sa(5) by (simp add: gcd_diff1_nat)
      then show ?thesis using less.hyps [of d n neg] S(1) l sa(4) pos True d less.prems(3) by (simp add: loop)
    next
      case lt: False
      then have d: "le_nat d' = le_nat n - le_nat a'" "b \<noteq> 0" using S S' by simp_all
      have "gcd (le_nat n - le_nat a') (le_nat a') = gcd (le_nat a) (le_nat n)"
        using lt sa(5) gcd_diff1_nat [of "le_nat a'" "le_nat n"] by (simp add: gcd.commute)
      then show ?thesis using less.hyps [of d' a' neg'] S'(1) sa pos lt d by (simp add: loop)
    qed
  qed
qed

lemma is_square_binary_total:
  assumes "canonical a"
  shows "\<exists>answer. is_square_binary W a = Some answer \<and> (answer \<longrightarrow> coprime (le_nat a) p_nat)"
proof -
  have "odd (le_nat P)" by (simp add: le_nat_P p_nat_def)
  from jacobi_loop_total [OF _ length_P this, of a False] assms
  obtain n' negative' where "jacobi_loop W a P False = Some (n', negative')" "length n' = 8" "le_nat n' = gcd (le_nat a) p_nat"
    by (auto simp: canonical_def le_nat_P)
  then show ?thesis by (auto simp: is_square_binary_def is_one_iff coprime_iff_gcd_eq_1)
qed

lemma inverse_binary_zero: "inverse_binary W field_ZERO = Some field_ZERO"
  by (simp add: inverse_binary_def is_zero_def field_ZERO_def)

end

section \<open>Properties\<close>

text \<open>C35. The two variable-time loops end. The binary Euclid inverse of a unit returns after finitely many
  shifts and subtractions with the canonical inverse, and zero gives zero; the binary Jacobi loop returns on
  every canonical element and answers true only for units, never for zero. Both hold for the native and the
  portable word arithmetic.\<close>

theorem binary_loops_end:
  assumes "canonical a"
  shows "inverse_binary W field_ZERO = Some field_ZERO \<and>
    (coprime (le_nat a) p_nat \<longrightarrow>
       (\<exists>r. inverse_binary native_wide a = Some r \<and> canonical r \<and> le_nat a * le_nat r mod p_nat = 1) \<and>
       (\<exists>r. inverse_binary portable a = Some r \<and> canonical r \<and> le_nat a * le_nat r mod p_nat = 1)) \<and>
    (\<exists>answer. is_square_binary native_wide a = Some answer \<and> (answer \<longrightarrow> coprime (le_nat a) p_nat)) \<and>
    (\<exists>answer. is_square_binary portable a = Some answer \<and> (answer \<longrightarrow> coprime (le_nat a) p_nat))"
  using native.inverse_binary_total [OF assms] portable.inverse_binary_total [OF assms]
    native.is_square_binary_total [OF assms] portable.is_square_binary_total [OF assms]
  by (auto simp: inverse_binary_def is_zero_def field_ZERO_def)

theorem binary_loops_end_witness:
  "\<exists>r. inverse_binary portable [2, 0, 0, 0, 0, 0, 0, 0] = Some r \<and> 2 * le_nat r mod p_nat = 1"
proof -
  have "canonical [2, 0, 0, 0, 0, 0, 0, 0]" by (simp add: canonical_def p_nat_def)
  moreover have "coprime (le_nat ([2, 0, 0, 0, 0, 0, 0, 0] :: limbs)) p_nat" by (simp add: p_nat_def)
  ultimately show ?thesis using binary_loops_end [of "[2, 0, 0, 0, 0, 0, 0, 0]" portable] by auto
qed

end
