(* ===== verification/Scalar.thy ===== *)
theory Scalar
  imports Field
begin

text \<open>
  \<open>rust-engine/src/scalar.rs\<close>: scalars modulo the group order \<open>n\<close>: bytes, sum, negation and the
  Montgomery product over ten working limbs.
\<close>

section \<open>Definitions\<close>

definition N :: limbs where
  "N = [0xd0364141, 0xbfd25e8c, 0xaf48a03b, 0xbaaedce6, 0xfffffffe, 0xffffffff, 0xffffffff,
        0xffffffff]"

definition scalar_ZERO :: limbs where
  "scalar_ZERO = replicate 8 0"

definition be_words :: "bytes \<Rightarrow> limbs" where
  "be_words bs = map (\<lambda>i. let j = (7 - i) * 4 in from_be_bytes [bs ! j, bs ! (j + 1), bs ! (j + 2), bs ! (j + 3)])
     [0..<8]"

definition scalar_from_be_bytes :: "'w wide_ops \<Rightarrow> bytes \<Rightarrow> limbs" where
  "scalar_from_be_bytes W bs = reduce_once W N (be_words bs)"

definition scalar_to_be_bytes :: "limbs \<Rightarrow> bytes" where
  "scalar_to_be_bytes a = field_to_be_bytes a"

definition scalar_add_mod :: "'w wide_ops \<Rightarrow> limbs \<Rightarrow> limbs \<Rightarrow> limbs" where
  "scalar_add_mod W a b = sum_mod W N a b"

definition negate :: "'w wide_ops \<Rightarrow> limbs \<Rightarrow> limbs" where
  "negate W a = (if a = scalar_ZERO then a else fst (subtract W N a))"

text \<open>Both inner loops of \<open>montgomery_mul\<close>: \<open>f x\<close> is the product with the limb of the row.\<close>

fun mac_limbs :: "'w wide_ops \<Rightarrow> (u32 \<Rightarrow> 'w) \<Rightarrow> limbs \<Rightarrow> limbs \<Rightarrow> 'w \<Rightarrow> limbs \<times> 'w" where
  "mac_limbs W f (x # xs) (t # ts) carry =
     (let v = w_add W (w_add W (f x) (w_extend W t)) carry;
          (rs, out) = mac_limbs W f xs ts (w_high W v)
      in (w_low W v # rs, out))"
| "mac_limbs W f _ _ carry = ([], carry)"

text \<open>One row: \<open>ts\<close> are \<open>t[0..8]\<close>; the second loop drops its first limb (\<open>j - 1\<close>).\<close>

definition montgomery_row :: "'w wide_ops \<Rightarrow> limbs \<Rightarrow> u32 \<Rightarrow> limbs \<times> u32 \<Rightarrow> limbs \<times> u32" where
  "montgomery_row W a k st =
     (let (ts, t8) = st;
          (ts, carry) = mac_limbs W (\<lambda>x. w_mul W x k) a ts (w_zero W);
          u = w_add W (w_extend W t8) carry;
          t8 = w_low W u;
          t9 = w_low W (w_high W u);
          m = ts ! 0 * 0x5588b13f;
          (ts, carry) = mac_limbs W (\<lambda>x. w_mul W m x) N ts (w_zero W);
          u = w_add W (w_extend W t8) carry
      in (tl ts @ [w_low W u], t9 + w_low W (w_high W u)))"

definition montgomery_mul :: "'w wide_ops \<Rightarrow> limbs \<Rightarrow> limbs \<Rightarrow> limbs" where
  "montgomery_mul W a b =
     (let (words, t8) = fold (montgomery_row W a) b (replicate 8 0, 0);
          (r, borrow) = subtract W words N
      in if t8 \<noteq> 0 \<or> borrow = 0 then r else words)"

section \<open>The group order\<close>

definition n_nat :: nat where
  "n_nat = 0xfffffffffffffffffffffffffffffffebaaedce6af48a03bbfd25e8cd0364141"

definition scalar :: "limbs \<Rightarrow> bool" where
  "scalar a \<longleftrightarrow> length a = 8 \<and> le_nat a < n_nat"

lemma length_N: "length N = 8"
  by (simp add: N_def)

lemma le_nat_N: "le_nat N = n_nat"
  by (simp add: N_def n_nat_def)

lemma n_bounds: "2 ^ 255 < n_nat" "n_nat < 2 ^ 256" "odd n_nat"
  by (simp_all add: n_nat_def)

lemma dvd_2_power_cancel:
  assumes "n_nat dvd 2 ^ k * x"
  shows "n_nat dvd x"
proof -
  have "coprime n_nat (2 ^ k)"
    using n_bounds(3) by simp
  then show ?thesis using assms by (simp add: coprime_dvd_mult_right_iff)
qed

lemma mod_2_power_cancel:
  assumes "2 ^ k * x mod n_nat = 2 ^ k * y mod n_nat"
  shows "x mod n_nat = y mod n_nat"
proof -
  have *: "u mod n_nat = v mod n_nat" if "2 ^ k * u mod n_nat = 2 ^ k * v mod n_nat" and "v \<le> u" for u v
  proof -
    have "n_nat dvd 2 ^ k * u - 2 ^ k * v" using that by (metis mod_eq_dvd_iff_nat mult_le_mono2)
    then have "n_nat dvd 2 ^ k * (u - v)" by (simp add: right_diff_distrib')
    then have "n_nat dvd u - v" by (rule dvd_2_power_cancel)
    then show ?thesis using that(2) by (metis mod_eq_dvd_iff_nat)
  qed
  show ?thesis using *[of x y] *[of y x] assms by (cases "y \<le> x") auto
qed

section \<open>Sum, negation, reduction of bytes\<close>

context wide_arith
begin

lemma scalar_add_mod_correct:
  assumes "scalar a" and "scalar b"
  shows "scalar (scalar_add_mod W a b)"
    and "le_nat (scalar_add_mod W a b) = (le_nat a + le_nat b) mod n_nat"
proof -
  note s = sum_mod_correct [of a b N, unfolded le_nat_N, OF _ _ length_N]
  show "le_nat (scalar_add_mod W a b) = (le_nat a + le_nat b) mod n_nat"
    using s(2) assms by (simp add: scalar_add_mod_def scalar_def)
  then show "scalar (scalar_add_mod W a b)"
    using s(1) assms by (simp add: scalar_add_mod_def scalar_def n_nat_def)
qed

lemma negate_correct:
  assumes "scalar a"
  shows "scalar (negate W a)" and "le_nat (negate W a) = (n_nat - le_nat a) mod n_nat"
proof -
  have a: "length a = 8" "le_nat a < n_nat" using assms by (auto simp: scalar_def)
  obtain r borrow where s: "subtract W N a = (r, borrow)" by fastforce
  note S = subtract_correct [OF length_N a(1) s]
  have r: "le_nat r + le_nat a = n_nat" using S(2,3) a by (simp add: le_nat_N)
  have zero: "a = scalar_ZERO \<longleftrightarrow> le_nat a = 0"
    using a(1) by (auto simp: scalar_ZERO_def intro!: le_nat_inj)
  show "le_nat (negate W a) = (n_nat - le_nat a) mod n_nat"
    using r zero a(2) by (auto simp: negate_def s)
  then show "scalar (negate W a)"
    using S(1) a by (auto simp: negate_def s scalar_def n_nat_def)
qed

lemma reduce_once_N_correct:
  assumes "length a = 8"
  shows "scalar (reduce_once W N a)" and "le_nat (reduce_once W N a) = le_nat a mod n_nat"
proof -
  have "le_nat a < 2 * le_nat N" using le_nat_limbs_less [OF assms] by (simp add: le_nat_N n_nat_def)
  note r = reduce_once_correct [OF assms length_N this]
  show "le_nat (reduce_once W N a) = le_nat a mod n_nat" using r(2) by (simp add: le_nat_N)
  then show "scalar (reduce_once W N a)" using r(1) by (simp add: scalar_def n_nat_def)
qed

section \<open>The Montgomery product\<close>

lemma mac_limbs_correct:
  assumes "length xs = length ts" and "\<And>x. val (f x) = k * unat x" and "k < 2 ^ 32"
    and "val carry < 2 ^ 32" and "mac_limbs W f xs ts carry = (rs, out)"
  shows "length rs = length xs \<and> val out < 2 ^ 32 \<and>
    le_nat rs + (2 ^ 32) ^ length xs * val out = k * le_nat xs + le_nat ts + val carry"
  using assms(1,4,5)
proof (induction xs ts arbitrary: carry rs out rule: list_induct2)
  case (Cons x xs t ts)
  define v where "v = w_add W (w_add W (f x) (w_extend W t)) carry"
  have kx: "k * unat x \<le> (2 ^ 32 - 1) * (2 ^ 32 - 1)"
    using assms(3) unat_u32_less [of x] by (intro mult_le_mono) simp_all
  have v: "val v = k * unat x + unat t + val carry"
    using kx unat_u32_less [of t] Cons.prems(1) by (simp add: v_def val_add val_extend assms(2))
  have high: "val (w_high W v) < 2 ^ 32"
    using kx unat_u32_less [of t] Cons.prems(1) by (simp add: val_high v)
  have low: "unat (w_low W v) + 2 ^ 32 * val (w_high W v) = k * unat x + unat t + val carry"
    by (simp only: low_high v)
  obtain rs' where rec: "mac_limbs W f xs ts (w_high W v) = (rs', out)" and rs: "rs = w_low W v # rs'"
    using Cons.prems(2) by (auto simp: v_def Let_def split: prod.splits)
  from Cons.IH [OF high rec] have IH: "length rs' = length xs" "val out < 2 ^ 32"
    "le_nat rs' + (2 ^ 32) ^ length xs * val out = k * le_nat xs + le_nat ts + val (w_high W v)"
    by simp_all
  then have "2 ^ 32 * le_nat rs' + 2 ^ 32 * ((2 ^ 32) ^ length xs * val out) =
      2 ^ 32 * (k * le_nat xs) + 2 ^ 32 * le_nat ts + 2 ^ 32 * val (w_high W v)"
    by (metis distrib_left)
  with low IH(1,2) show ?case by (simp add: rs distrib_left mult.left_commute)
qed simp

text \<open>\<open>0x5588b13f\<close> is \<open>- n\<^sup>-\<^sup>1\<close> modulo \<open>2 ^ 32\<close>: the row's multiple of \<open>n\<close> clears the low limb.\<close>

lemma residue_step: "(x mod B * n + (t + B * r)) mod B = (x * n + t) mod (B :: nat)"
proof -
  have "(x mod B * n + (t + B * r)) mod B = (x mod B * n + t + B * r) mod B" by (simp add: add.assoc)
  also have "\<dots> = (x mod B * n + t) mod B" by (rule mod_mult_self2)
  also have "\<dots> = (x mod B * n mod B + t) mod B" by (simp only: mod_add_left_eq)
  also have "x mod B * n mod B = x * n mod B" by (rule mod_mult_left_eq)
  finally show ?thesis by (simp only: mod_add_left_eq)
qed

lemma len32: "LENGTH(32) = 32"
  by simp

lemma montgomery_clears:
  assumes "length ts = 8"
  shows "(unat (ts ! 0 * 0x5588b13f :: u32) * n_nat + le_nat ts) mod 2 ^ 32 = 0"
proof -
  obtain t ts' where ts: "ts = t # ts'" using assms by (cases ts) simp_all
  have "(unat (t * 0x5588b13f) * n_nat + le_nat ts) mod 2 ^ 32
      = (unat t * 0x5588b13f * n_nat + unat t) mod 2 ^ 32"
  proof -
    have "unat (t * 0x5588b13f) = unat t * 0x5588b13f mod 2 ^ 32" by (simp add: unat_word_ariths)
    then show ?thesis by (simp only: ts le_nat.simps len32 residue_step)
  qed
  also have "unat t * 0x5588b13f * n_nat + unat t = unat t * (0x5588b13f * n_nat + 1)"
    by (simp add: algebra_simps)
  also have "0x5588b13f * n_nat + 1 = 2 ^ 32 * ((0x5588b13f * n_nat + 1) div 2 ^ 32)"
    by (simp add: n_nat_def)
  finally show ?thesis by (simp add: ts mult.left_commute)
qed

lemma montgomery_row_sum:
  fixes T q :: nat
  assumes "r + 2 ^ 256 * c = k * a + t" "u = t8 + c" "u = l + 2 ^ 32 * h"
    "q + 2 ^ 256 * d = m * n + r" "v = l + d" "v = l' + 2 ^ 32 * h'" "q = 2 ^ 32 * q'"
  shows "2 ^ 32 * (q' + 2 ^ 224 * l' + 2 ^ 256 * (h + h')) = t + 2 ^ 256 * t8 + k * a + m * n"
  using assms by simp

lemma montgomery_row_bound:
  fixes T :: nat
  assumes "2 ^ 32 * T' = T + x + y" "T < 2 * n" "x \<le> (2 ^ 32 - 1) * n" "y \<le> (2 ^ 32 - 1) * n"
  shows "T' < 2 * n"
  using assms by simp

lemma montgomery_row_correct:
  assumes "length a = 8" and a: "le_nat a < n_nat" and "length ts = 8"
    and T: "le_nat ts + 2 ^ 256 * unat t8 < 2 * n_nat"
    and row: "montgomery_row W a k (ts, t8) = (ts', t8')"
  shows "length ts' = 8" and "le_nat ts' + 2 ^ 256 * unat t8' < 2 * n_nat"
    and "\<exists>m. 2 ^ 32 * (le_nat ts' + 2 ^ 256 * unat t8') = le_nat ts + 2 ^ 256 * unat t8 + unat k * le_nat a + m * n_nat"
proof -
  have k: "unat k < 2 ^ 32" by (rule unat_u32_less)
  have zero: "val (w_zero W) < 2 ^ 32" by (simp add: val_zero)
  obtain rs c where m1: "mac_limbs W (\<lambda>x. w_mul W x k) a ts (w_zero W) = (rs, c)" by fastforce
  have R: "length rs = 8" "val c < 2 ^ 32" "le_nat rs + 2 ^ 256 * val c = unat k * le_nat a + le_nat ts"
    using mac_limbs_correct [OF _ _ k zero m1] assms(1,3) by (simp_all add: val_mul val_zero)
  define u where "u = w_add W (w_extend W t8) c"
  define m where "m = rs ! 0 * 0x5588b13f"
  obtain qs d where m2: "mac_limbs W (\<lambda>x. w_mul W m x) N rs (w_zero W) = (qs, d)" by fastforce
  have Q: "length qs = 8" "val d < 2 ^ 32" "le_nat qs + 2 ^ 256 * val d = unat m * n_nat + le_nat rs"
    using mac_limbs_correct [OF _ _ unat_u32_less zero m2, of m] R(1)
    by (simp_all add: val_mul val_zero length_N le_nat_N)
  define v where "v = w_add W (w_extend W (w_low W u)) d"
  have ts': "ts' = tl qs @ [w_low W v]" and t8': "t8' = w_low W (w_high W u) + w_low W (w_high W v)"
    using row by (simp_all add: montgomery_row_def Let_def m1 m2 flip: u_def m_def v_def)
  have t8: "unat t8 \<le> 1" using T n_bounds(2) by (cases "unat t8 \<le> 1") auto
  have u: "val u = unat t8 + val c" using t8 R(2) by (simp add: u_def val_add val_extend)
  have v: "val v = unat (w_low W u) + val d"
    using Q(2) unat_u32_less [of "w_low W u"] by (simp add: v_def val_add val_extend)
  have hu: "unat (w_low W (w_high W u)) = val (w_high W u)" "val (w_high W u) \<le> 1"
    using u t8 R(2) by (simp_all add: unat_low val_high)
  have hv: "unat (w_low W (w_high W v)) = val (w_high W v)" "val (w_high W v) \<le> 1"
    using v Q(2) unat_u32_less [of "w_low W u"] by (simp_all add: unat_low val_high)
  have t8'_val: "unat t8' = val (w_high W u) + val (w_high W v)"
    using hu hv by (simp add: t8' unat_word_ariths)
  obtain q0 qs' where qs: "qs = q0 # qs'" and qs': "length qs' = 7" using Q(1) by (cases qs) simp_all
  have "le_nat qs mod 2 ^ 32 = (unat m * n_nat + le_nat rs) mod 2 ^ 32"
  proof -
    have "(unat m * n_nat + le_nat rs) mod 2 ^ 32 = (le_nat qs + 2 ^ 32 * (2 ^ 224 * val d)) mod 2 ^ 32"
      using Q(3) by simp
    then show ?thesis by (simp only: mod_mult_self2)
  qed
  then have "unat q0 = 0"
    using montgomery_clears [OF R(1)] unat_u32_less [of q0] by (simp add: qs m_def)
  then have q: "le_nat qs = 2 ^ 32 * le_nat qs'" by (simp add: qs)
  have sum: "2 ^ 32 * (le_nat qs' + 2 ^ 224 * unat (w_low W v) + 2 ^ 256 * (val (w_high W u) + val (w_high W v)))
      = le_nat ts + 2 ^ 256 * unat t8 + unat k * le_nat a + unat m * n_nat"
    by (rule montgomery_row_sum [OF R(3) u low_high [of u, symmetric] Q(3) v low_high [of v, symmetric] q])
  have eq: "2 ^ 32 * (le_nat ts' + 2 ^ 256 * unat t8')
      = le_nat ts + 2 ^ 256 * unat t8 + unat k * le_nat a + unat m * n_nat"
    using sum by (simp add: ts' qs le_nat_append qs' t8'_val)
  show "length ts' = 8" by (simp add: ts' qs qs')
  show "\<exists>m. 2 ^ 32 * (le_nat ts' + 2 ^ 256 * unat t8') = le_nat ts + 2 ^ 256 * unat t8 + unat k * le_nat a + m * n_nat"
    using eq by blast
  have "unat k * le_nat a \<le> (2 ^ 32 - 1) * n_nat" using k a by (intro mult_le_mono) simp_all
  moreover have "unat m * n_nat \<le> (2 ^ 32 - 1) * n_nat" using unat_u32_less [of m] by (intro mult_le_mono) simp_all
  ultimately show "le_nat ts' + 2 ^ 256 * unat t8' < 2 * n_nat" by (rule montgomery_row_bound [OF eq T])
qed

lemma montgomery_rows_correct:
  assumes "length a = 8" and "le_nat a < n_nat" and "length ts = 8"
    and "le_nat ts + 2 ^ 256 * unat t8 < 2 * n_nat"
    and "fold (montgomery_row W a) ks (ts, t8) = (ts', t8')"
  shows "length ts' = 8 \<and> le_nat ts' + 2 ^ 256 * unat t8' < 2 * n_nat \<and>
    (\<exists>m. (2 ^ 32) ^ length ks * (le_nat ts' + 2 ^ 256 * unat t8')
      = le_nat ts + 2 ^ 256 * unat t8 + le_nat ks * le_nat a + m * n_nat)"
  using assms(3-5)
proof (induction ks arbitrary: ts t8)
  case (Cons k ks)
  obtain us u8 where row: "montgomery_row W a k (ts, t8) = (us, u8)" by fastforce
  note R = montgomery_row_correct [OF assms(1,2) Cons.prems(1,2) row]
  obtain m where m: "2 ^ 32 * (le_nat us + 2 ^ 256 * unat u8)
      = le_nat ts + 2 ^ 256 * unat t8 + unat k * le_nat a + m * n_nat" using R(3) by blast
  have "fold (montgomery_row W a) ks (us, u8) = (ts', t8')" using Cons.prems(3) row by simp
  from Cons.IH [OF R(1,2) this] obtain m' where IH: "length ts' = 8" "le_nat ts' + 2 ^ 256 * unat t8' < 2 * n_nat"
    "(2 ^ 32) ^ length ks * (le_nat ts' + 2 ^ 256 * unat t8')
      = le_nat us + 2 ^ 256 * unat u8 + le_nat ks * le_nat a + m' * n_nat" by blast
  have "(2 ^ 32) ^ length (k # ks) * (le_nat ts' + 2 ^ 256 * unat t8')
      = 2 ^ 32 * (le_nat us + 2 ^ 256 * unat u8 + le_nat ks * le_nat a + m' * n_nat)"
    using IH(3) by (simp only: length_Cons power_Suc mult.assoc)
  also have "\<dots> = le_nat ts + 2 ^ 256 * unat t8 + le_nat (k # ks) * le_nat a + (m + 2 ^ 32 * m') * n_nat"
    using m by (simp add: distrib_right)
  finally show ?case using IH(1,2) by blast
qed auto

lemma montgomery_mul_correct:
  assumes "scalar a" and "length b = 8"
  shows "scalar (montgomery_mul W a b)"
    and "2 ^ 256 * le_nat (montgomery_mul W a b) mod n_nat = le_nat a * le_nat b mod n_nat"
proof -
  have a: "length a = 8" "le_nat a < n_nat" using assms(1) by (auto simp: scalar_def)
  obtain words t8 where f: "fold (montgomery_row W a) b (replicate 8 0, 0) = (words, t8)" by fastforce
  have "le_nat (replicate 8 0 :: limbs) + 2 ^ 256 * unat (0 :: u32) < 2 * n_nat" by (simp add: n_nat_def)
  from montgomery_rows_correct [OF a _ this f] assms(2)
  obtain m where w: "length words = 8" "le_nat words + 2 ^ 256 * unat t8 < 2 * n_nat"
    "2 ^ 256 * (le_nat words + 2 ^ 256 * unat t8) = le_nat b * le_nat a + m * n_nat" by auto
  obtain r borrow where s: "subtract W words N = (r, borrow)" by fastforce
  note S = subtract_correct [OF w(1) length_N s]
  have result: "montgomery_mul W a b = (if t8 \<noteq> 0 \<or> borrow = 0 then r else words)"
    by (simp add: montgomery_mul_def f s)
  let ?T = "le_nat words + 2 ^ 256 * unat t8"
  have t8: "unat t8 = 0 \<or> unat t8 = 1"
    using w(2) n_bounds(2) by (cases "unat t8 \<le> 1") auto
  have val: "length (montgomery_mul W a b) = 8 \<and> le_nat (montgomery_mul W a b) = ?T mod n_nat"
    using t8
  proof
    assume t: "unat t8 = 0"
    then have "montgomery_mul W a b = reduce_once W N words"
      by (simp add: result reduce_once_def s unat_eq_zero)
    then show ?thesis using reduce_once_N_correct [OF w(1)] t by (simp add: scalar_def)
  next
    assume t: "unat t8 = 1"
    have "le_nat words < n_nat" using w(2) n_bounds(2) t by simp
    then have r: "le_nat r + n_nat = ?T" using S(2,3) t by (simp add: le_nat_N)
    then have "le_nat r < n_nat" using w(2) by simp
    then have "?T mod n_nat = le_nat r" by (metis r mod_add_self2 mod_less)
    moreover have "t8 \<noteq> 0" using t by auto
    ultimately show ?thesis using S(1) by (simp add: result)
  qed
  then show "scalar (montgomery_mul W a b)" by (simp add: scalar_def n_nat_def)
  have "2 ^ 256 * le_nat (montgomery_mul W a b) mod n_nat = 2 ^ 256 * ?T mod n_nat"
    using val by (simp only: mod_mult_right_eq)
  then show "2 ^ 256 * le_nat (montgomery_mul W a b) mod n_nat = le_nat a * le_nat b mod n_nat"
    by (simp only: w(3) mult.commute [of "le_nat b"] mod_mult_self1)
qed

end

section \<open>Properties\<close>

text \<open>C24. \<open>Scalar::montgomery_mul\<close> computes \<open>a * b * 2^-256\<close> modulo \<open>n\<close>: the result is a canonical
  scalar whose \<open>2^256\<close> multiple is congruent to the product, the ten working limbs never overflow,
  and the portable build gives the same limbs as the native one.\<close>

theorem montgomery_mul_exact:
  assumes "scalar a" and "length b = 8"
  shows "scalar (montgomery_mul native_wide a b) \<and>
    2 ^ 256 * le_nat (montgomery_mul native_wide a b) mod n_nat = le_nat a * le_nat b mod n_nat \<and>
    montgomery_mul portable a b = montgomery_mul native_wide a b"
proof -
  note n = native.montgomery_mul_correct [OF assms] and q = portable.montgomery_mul_correct [OF assms]
  have "le_nat (montgomery_mul portable a b) mod n_nat = le_nat (montgomery_mul native_wide a b) mod n_nat"
    by (rule mod_2_power_cancel [of 256]) (simp only: n(2) q(2))
  then have "montgomery_mul portable a b = montgomery_mul native_wide a b"
    using n(1) q(1) by (intro le_nat_inj) (simp_all add: scalar_def)
  then show ?thesis using n by blast
qed

theorem montgomery_mul_exact_witness:
  "2 ^ 256 * le_nat (montgomery_mul native_wide [3, 0, 0, 0, 0, 0, 0, 0] [5, 0, 0, 0, 0, 0, 0, 0]) mod n_nat = 15"
proof -
  have "scalar [3, 0, 0, 0, 0, 0, 0, 0]" by (simp add: scalar_def n_nat_def)
  from montgomery_mul_exact [OF this, of "[5, 0, 0, 0, 0, 0, 0, 0]"] show ?thesis by (simp add: n_nat_def)
qed

text \<open>Scalar sum and negation: \<open>add_mod\<close> is the sum modulo \<open>n\<close> and \<open>negate\<close> its inverse
  (zero for zero), both canonical.\<close>

theorem scalar_sum_and_negation:
  assumes "scalar a" and "scalar b"
  shows "scalar (scalar_add_mod native_wide a b) \<and>
    le_nat (scalar_add_mod native_wide a b) = (le_nat a + le_nat b) mod n_nat \<and>
    scalar (negate native_wide a) \<and> scalar_add_mod native_wide a (negate native_wide a) = scalar_ZERO"
proof -
  note s = native.scalar_add_mod_correct [OF assms] and m = native.negate_correct [OF assms(1)]
  note z = native.scalar_add_mod_correct [OF assms(1) m(1)]
  have "(le_nat a + (n_nat - le_nat a) mod n_nat) mod n_nat = (le_nat a + (n_nat - le_nat a)) mod n_nat"
    by (simp only: mod_add_right_eq)
  then have "le_nat (scalar_add_mod native_wide a (negate native_wide a)) = 0"
    using z(2) m(2) assms(1) by (simp add: scalar_def)
  then have "scalar_add_mod native_wide a (negate native_wide a) = scalar_ZERO"
    using z(1) by (intro le_nat_inj) (simp_all add: scalar_def scalar_ZERO_def)
  then show ?thesis using s m by blast
qed

theorem scalar_sum_and_negation_witness:
  "scalar_add_mod native_wide [1, 0, 0, 0, 0, 0, 0, 0] (negate native_wide [1, 0, 0, 0, 0, 0, 0, 0]) = scalar_ZERO"
proof -
  have "scalar [1, 0, 0, 0, 0, 0, 0, 0]" by (simp add: scalar_def n_nat_def)
  from scalar_sum_and_negation [OF this this] show ?thesis by blast
qed

end
