(* ===== verification/Sha256.thy ===== *)
theory Sha256
  imports Prelude
begin

text \<open>
  \<open>rust-engine/src/sha256.rs\<close> (and the message schedule of \<open>window.rs\<close>): SHA-256 compression for
  GPU registers. The source unrolls 64 rounds over eight variables whose roles rotate, keeps the
  message schedule in a ring of 16 words, can resume at round \<open>START\<close>, and can leave at round 60
  when the top byte of the digest already fails a limit. The reference is the round function of
  the standard over a shifting state and the 64-word schedule.
\<close>

section \<open>Constants\<close>

definition INITIAL :: limbs where
  "INITIAL = [0x6A09E667, 0xBB67AE85, 0x3C6EF372, 0xA54FF53A, 0x510E527F, 0x9B05688C, 0x1F83D9AB,
     0x5BE0CD19]"

definition K :: limbs where
  "K = [
    0x428A2F98, 0x71374491, 0xB5C0FBCF, 0xE9B5DBA5, 0x3956C25B, 0x59F111F1, 0x923F82A4, 0xAB1C5ED5,
    0xD807AA98, 0x12835B01, 0x243185BE, 0x550C7DC3, 0x72BE5D74, 0x80DEB1FE, 0x9BDC06A7, 0xC19BF174,
    0xE49B69C1, 0xEFBE4786, 0x0FC19DC6, 0x240CA1CC, 0x2DE92C6F, 0x4A7484AA, 0x5CB0A9DC, 0x76F988DA,
    0x983E5152, 0xA831C66D, 0xB00327C8, 0xBF597FC7, 0xC6E00BF3, 0xD5A79147, 0x06CA6351, 0x14292967,
    0x27B70A85, 0x2E1B2138, 0x4D2C6DFC, 0x53380D13, 0x650A7354, 0x766A0ABB, 0x81C2C92E, 0x92722C85,
    0xA2BFE8A1, 0xA81A664B, 0xC24B8B70, 0xC76C51A3, 0xD192E819, 0xD6990624, 0xF40E3585, 0x106AA070,
    0x19A4C116, 0x1E376C08, 0x2748774C, 0x34B0BCB5, 0x391C0CB3, 0x4ED8AA4A, 0x5B9CCA4F, 0x682E6FF3,
    0x748F82EE, 0x78A5636F, 0x84C87814, 0x8CC70208, 0x90BEFFFA, 0xA4506CEB, 0xBEF9A3F7, 0xC67178F2]"

section \<open>The unrolled compression\<close>

definition choose_bits :: "u32 \<Rightarrow> u32 \<Rightarrow> u32 \<Rightarrow> u32" where
  "choose_bits a b c = (a AND b) XOR (NOT a AND c)"

definition small_s0 :: "u32 \<Rightarrow> u32" where
  "small_s0 x = word_rotr 7 x XOR word_rotr 18 x XOR drop_bit 3 x"

definition small_s1 :: "u32 \<Rightarrow> u32" where
  "small_s1 y = word_rotr 17 y XOR word_rotr 19 y XOR drop_bit 10 y"

definition big_s0 :: "u32 \<Rightarrow> u32" where
  "big_s0 a = word_rotr 2 a XOR word_rotr 13 a XOR word_rotr 22 a"

definition big_s1 :: "u32 \<Rightarrow> u32" where
  "big_s1 e = word_rotr 6 e XOR word_rotr 11 e XOR word_rotr 25 e"

definition majority :: "u32 \<Rightarrow> u32 \<Rightarrow> u32 \<Rightarrow> u32" where
  "majority a b c = (a AND b) XOR (a AND c) XOR (b AND c)"

text \<open>\<open>high_byte\<close>: the limit and \<open>strict_positive\<close>; the round-60 test on the final top word.\<close>

type_synonym hash_limit = "(u8 \<times> bool) option"

definition over_limit :: "hash_limit \<Rightarrow> u32 \<Rightarrow> bool" where
  "over_limit hl word =
     (case hl of
        None \<Rightarrow> False
      | Some (limit, strict_positive) \<Rightarrow>
          let high = ucast word :: u8;
              comparable = (if strict_positive then high else high AND 0x7f)
          in comparable > limit)"

definition ring_update :: "nat \<Rightarrow> limbs \<Rightarrow> limbs" where
  "ring_update i w =
     (if i \<ge> 16 then
        (let x = w ! ((i + 1) mod 16); y = w ! ((i + 14) mod 16)
         in w[i mod 16 := w ! (i mod 16) + small_s0 x + w ! ((i + 9) mod 16) + small_s1 y])
      else w)"

text \<open>
  \<open>round!(i, a, b, c, d, e, f, g, h)\<close>: \<open>roles\<close> lists which of the eight variables plays each letter.
  \<open>None\<close> is the early \<open>return false\<close>.
\<close>

definition round_macro ::
  "nat \<Rightarrow> hash_limit \<Rightarrow> u32 \<Rightarrow> nat \<Rightarrow> nat list \<Rightarrow> limbs \<times> limbs \<Rightarrow> (limbs \<times> limbs) option" where
  "round_macro START hl state7 i roles rw =
     (let regs = fst rw;
          w = ring_update i (snd rw);
          reg = (\<lambda>k. regs ! (roles ! k))
      in if i \<ge> START then
           (let t = reg 7 + big_s1 (reg 4) + choose_bits (reg 4) (reg 5) (reg 6) + K ! i + w ! (i mod 16);
                d = reg 3 + t
            in if i = 60 \<and> over_limit hl (state7 + d) then None
               else Some (regs[roles ! 3 := d,
                               roles ! 7 := t + big_s0 (reg 0) + majority (reg 0) (reg 1) (reg 2)], w))
         else Some (regs, w))"

text \<open>The eight role rotations of \<open>eight!\<close>.\<close>

definition roles8 :: "nat list list" where
  "roles8 = [[0, 1, 2, 3, 4, 5, 6, 7], [7, 0, 1, 2, 3, 4, 5, 6], [6, 7, 0, 1, 2, 3, 4, 5],
     [5, 6, 7, 0, 1, 2, 3, 4], [4, 5, 6, 7, 0, 1, 2, 3], [3, 4, 5, 6, 7, 0, 1, 2],
     [2, 3, 4, 5, 6, 7, 0, 1], [1, 2, 3, 4, 5, 6, 7, 0]]"

fun run_rounds ::
  "nat \<Rightarrow> hash_limit \<Rightarrow> u32 \<Rightarrow> nat list \<Rightarrow> limbs \<times> limbs \<Rightarrow> (limbs \<times> limbs) option" where
  "run_rounds START hl state7 [] rw = Some rw"
| "run_rounds START hl state7 (i # is) rw =
     (case round_macro START hl state7 i (roles8 ! (i mod 8)) rw of
        None \<Rightarrow> None
      | Some rw' \<Rightarrow> run_rounds START hl state7 is rw')"

definition feed_forward :: "limbs \<Rightarrow> limbs \<Rightarrow> limbs" where
  "feed_forward state regs = map2 (+) state regs"

definition compress_from_limited ::
  "nat \<Rightarrow> limbs \<Rightarrow> limbs \<Rightarrow> limbs \<Rightarrow> hash_limit \<Rightarrow> limbs \<times> bool" where
  "compress_from_limited START state w head hl =
     (let regs = map (\<lambda>i. head ! ((i + START) mod 8)) [0..<8]
      in case run_rounds START hl (state ! 7) [0..<64] (regs, w) of
           None \<Rightarrow> (state, False)
         | Some (regs, _) \<Rightarrow> (feed_forward state regs, True))"

definition compress_from :: "nat \<Rightarrow> limbs \<Rightarrow> limbs \<Rightarrow> limbs \<Rightarrow> limbs" where
  "compress_from START state w head = fst (compress_from_limited START state w head None)"

definition compress :: "limbs \<Rightarrow> limbs \<Rightarrow> limbs" where
  "compress state w = compress_from 0 state w state"

definition round_scheduled :: "limbs \<Rightarrow> nat \<Rightarrow> nat list \<Rightarrow> limbs \<Rightarrow> limbs" where
  "round_scheduled w i roles regs =
     (let reg = (\<lambda>k. regs ! (roles ! k));
          t = reg 7 + big_s1 (reg 4) + choose_bits (reg 4) (reg 5) (reg 6) + K ! i + w ! i
      in regs[roles ! 3 := reg 3 + t,
              roles ! 7 := t + big_s0 (reg 0) + majority (reg 0) (reg 1) (reg 2)])"

definition compress_scheduled :: "limbs \<Rightarrow> limbs \<Rightarrow> limbs" where
  "compress_scheduled state w =
     feed_forward state (fold (\<lambda>i. round_scheduled w i (roles8 ! (i mod 8))) [0..<64] state)"

definition head_round :: "limbs \<Rightarrow> nat \<Rightarrow> limbs \<Rightarrow> limbs" where
  "head_round w i s =
     (let t = s ! 7 + big_s1 (s ! 4) + choose_bits (s ! 4) (s ! 5) (s ! 6) + K ! i + w ! i;
          t2 = big_s0 (s ! 0) + majority (s ! 0) (s ! 1) (s ! 2)
      in [t + t2, s ! 0, s ! 1, s ! 2, s ! 3 + t, s ! 4, s ! 5, s ! 6])"

definition head10 :: "limbs \<Rightarrow> limbs \<Rightarrow> limbs" where
  "head10 state w = fold (head_round w) [0..<10] state"

definition compress_bytes :: "limbs \<Rightarrow> bytes \<Rightarrow> limbs" where
  "compress_bytes state bs =
     compress state (map (\<lambda>i. from_be_bytes [bs ! (i * 4), bs ! (i * 4 + 1), bs ! (i * 4 + 2),
       bs ! (i * 4 + 3)]) [0..<16])"

definition state_bytes :: "limbs \<Rightarrow> bytes" where
  "state_bytes state = map (\<lambda>i. ucast (drop_bit ((3 - i mod 4) * 8) (state ! (i div 4)))) [0..<32]"

definition hash_block :: "limbs \<Rightarrow> limbs" where
  "hash_block first_hash = take 8 first_hash @ [0x80000000, 0, 0, 0, 0, 0, 0, 256]"

definition hash_state :: "limbs \<Rightarrow> bytes" where
  "hash_state first_hash = state_bytes (compress INITIAL (hash_block first_hash))"

definition hash_state_filtered_with_rule :: "limbs \<Rightarrow> u8 \<Rightarrow> bool \<Rightarrow> bytes option" where
  "hash_state_filtered_with_rule first_hash high_byte strict_positive =
     (let (state, ok) = compress_from_limited 0 INITIAL (hash_block first_hash) INITIAL
            (Some (high_byte, strict_positive))
      in if ok then Some (state_bytes state) else None)"

definition hash_state_filtered :: "limbs \<Rightarrow> u8 \<Rightarrow> bytes option" where
  "hash_state_filtered first_hash high_byte = hash_state_filtered_with_rule first_hash high_byte False"

definition hash_state_words_filtered :: "limbs \<Rightarrow> u32 \<Rightarrow> bool \<Rightarrow> limbs \<times> bool" where
  "hash_state_words_filtered first_hash high_byte strict_positive =
     compress_from_limited 0 INITIAL (hash_block first_hash) INITIAL
       (Some (ucast high_byte, strict_positive))"

definition challenge :: "bytes \<Rightarrow> bytes \<Rightarrow> bytes \<Rightarrow> bytes" where
  "challenge r public message =
     (let state = compress_bytes INITIAL (r @ take 32 public);
          block = [public ! 32] @ message @ [0x80] @ replicate 22 0 @ to_be_bytes (97 * 8 :: u64)
      in state_bytes (compress_bytes state block))"

text \<open>The message schedule of \<open>window.rs\<close>.\<close>

fun schedule_fill :: "nat list \<Rightarrow> limbs \<Rightarrow> limbs" where
  "schedule_fill [] w = w"
| "schedule_fill (i # is) w =
     schedule_fill is
       (w[i := w ! (i - 16) + small_s0 (w ! (i - 15)) + w ! (i - 7) + small_s1 (w ! (i - 2))])"

definition schedule :: "limbs \<Rightarrow> limbs" where
  "schedule block = schedule_fill [16..<64] (block @ replicate 48 0)"

section \<open>The reference\<close>

function message_word :: "limbs \<Rightarrow> nat \<Rightarrow> u32" where
  "message_word block i =
     (if i < 16 then block ! i
      else message_word block (i - 16) + small_s0 (message_word block (i - 15))
         + message_word block (i - 7) + small_s1 (message_word block (i - 2)))"
  by pat_completeness auto
termination by (relation "measure snd") auto

declare message_word.simps [simp del]

definition ref_round :: "limbs \<Rightarrow> nat \<Rightarrow> limbs \<Rightarrow> limbs" where
  "ref_round block i s =
     (let t1 = s ! 7 + big_s1 (s ! 4) + choose_bits (s ! 4) (s ! 5) (s ! 6) + K ! i + message_word block i;
          t2 = big_s0 (s ! 0) + majority (s ! 0) (s ! 1) (s ! 2)
      in [t1 + t2, s ! 0, s ! 1, s ! 2, s ! 3 + t1, s ! 4, s ! 5, s ! 6])"

primrec ref_rounds :: "limbs \<Rightarrow> limbs \<Rightarrow> nat \<Rightarrow> limbs" where
  "ref_rounds block s 0 = s"
| "ref_rounds block s (Suc i) = ref_round block i (ref_rounds block s i)"

definition ref_compress :: "limbs \<Rightarrow> limbs \<Rightarrow> limbs" where
  "ref_compress state block = map2 (+) state (ref_rounds block state 64)"

section \<open>Simulation\<close>

text \<open>\<open>view i regs\<close> reads the letters \<open>a\<close> to \<open>h\<close> before round \<open>i\<close> out of the eight variables.\<close>

definition view :: "nat \<Rightarrow> limbs \<Rightarrow> limbs" where
  "view i regs = map (\<lambda>k. regs ! (roles8 ! (i mod 8) ! k)) [0..<8]"

definition ring_inv :: "limbs \<Rightarrow> nat \<Rightarrow> limbs \<Rightarrow> bool" where
  "ring_inv block i w \<longleftrightarrow> length w = 16 \<and>
     (\<forall>j. j < max i 16 \<longrightarrow> max i 16 \<le> j + 16 \<longrightarrow> w ! (j mod 16) = message_word block j)"

lemma length_view [simp]: "length (view i regs) = 8"
  by (simp add: view_def)

lemma list8: "length xs = 8 \<Longrightarrow> xs = [xs ! 0, xs ! 1, xs ! 2, xs ! 3, xs ! 4, xs ! 5, xs ! 6, xs ! 7]"
  by (auto simp: length_Suc_conv eval_nat_numeral)

lemma mod_8_cases: "i mod 8 \<in> {0, 1, 2, 3, 4, 5, 6, 7 :: nat}"
  by auto

lemma ring_init: "length block = 16 \<Longrightarrow> ring_inv block 0 block"
  by (auto simp: ring_inv_def message_word.simps)

lemma ring_step:
  assumes "ring_inv block i w"
  shows "ring_inv block (Suc i) (ring_update i w)" and "ring_update i w ! (i mod 16) = message_word block i"
proof -
  have w: "length w = 16" and inv: "\<And>j. j < max i 16 \<Longrightarrow> max i 16 \<le> j + 16 \<Longrightarrow> w ! (j mod 16) = message_word block j"
    using assms by (auto simp: ring_inv_def)
  have "ring_inv block (Suc i) (ring_update i w) \<and> ring_update i w ! (i mod 16) = message_word block i"
  proof (cases "i < 16")
    case True
    then show ?thesis using w inv by (auto simp: ring_inv_def ring_update_def)
  next
    case False
    have idx: "Suc i mod 16 = (i - 15) mod 16" "(i + 14) mod 16 = (i - 2) mod 16"
      "(i + 9) mod 16 = (i - 7) mod 16" "i mod 16 = (i - 16) mod 16"
      using False by (simp_all add: mod_eq_dvd_iff_nat)
    have new: "ring_update i w = w[i mod 16 := message_word block i]"
      using False inv [of "i - 15"] inv [of "i - 2"] inv [of "i - 7"] inv [of "i - 16"]
      by (simp add: ring_update_def Let_def idx message_word.simps [of block i])
    have "w[i mod 16 := message_word block i] ! (j mod 16) = message_word block j"
      if "j < Suc i" "Suc i \<le> j + 16" for j
    proof (cases "j = i")
      case True
      then show ?thesis using w by simp
    next
      case ne: False
      have "j mod 16 \<noteq> i mod 16"
      proof
        assume "j mod 16 = i mod 16"
        then have "16 dvd i - j" using that by (metis less_Suc_eq_le mod_eq_dvd_iff_nat)
        then show False using that ne by (auto dest!: dvd_imp_le)
      qed
      then show ?thesis using inv [of j] that False ne by simp
    qed
    then show ?thesis using new w False by (simp add: ring_inv_def)
  qed
  then show "ring_inv block (Suc i) (ring_update i w)"
    "ring_update i w ! (i mod 16) = message_word block i" by simp_all
qed

text \<open>One unrolled round does what the reference round does to the view.\<close>

lemma view_round:
  fixes i :: nat
  assumes "length regs = 8"
  defines "s \<equiv> view i regs"
  shows "view (Suc i) (regs[roles8 ! (i mod 8) ! 3 := x, roles8 ! (i mod 8) ! 7 := y])
    = [y, s ! 0, s ! 1, s ! 2, x, s ! 4, s ! 5, s ! 6]"
proof -
  obtain r0 r1 r2 r3 r4 r5 r6 r7 where regs: "regs = [r0, r1, r2, r3, r4, r5, r6, r7]"
    using list8 [OF assms(1)] by blast
  have upt: "[0..<8] = [0, 1, 2, 3, 4, 5, 6, 7 :: nat]" by (simp add: upt_rec)
  have suc: "Suc i mod 8 = (if i mod 8 = 7 then 0 else Suc (i mod 8))" by (simp add: mod_Suc)
  consider "i mod 8 = 0" | "i mod 8 = 1" | "i mod 8 = 2" | "i mod 8 = 3" | "i mod 8 = 4"
    | "i mod 8 = 5" | "i mod 8 = 6" | "i mod 8 = 7"
    using mod_8_cases [of i] by auto
  then show ?thesis
    by cases (simp_all add: s_def view_def upt roles8_def regs suc)
qed

lemma view_nth: "k < 8 \<Longrightarrow> view i regs ! k = regs ! (roles8 ! (i mod 8) ! k)"
  by (simp add: view_def)

lemma view_head:
  assumes "length head = 8"
  shows "view START (map (\<lambda>i. head ! ((i + START) mod 8)) [0..<8]) = head"
proof -
  have upt: "[0..<8] = [0, 1, 2, 3, 4, 5, 6, 7 :: nat]" by (simp add: upt_rec)
  have m: "(k + START) mod 8 = (k + START mod 8) mod 8" for k by (simp add: mod_simps)
  obtain h0 h1 h2 h3 h4 h5 h6 h7 where head: "head = [h0, h1, h2, h3, h4, h5, h6, h7]"
    using list8 [OF assms] by blast
  consider "START mod 8 = 0" | "START mod 8 = 1" | "START mod 8 = 2" | "START mod 8 = 3" | "START mod 8 = 4"
    | "START mod 8 = 5" | "START mod 8 = 6" | "START mod 8 = 7"
    using mod_8_cases [of START] by auto
  then show ?thesis
    by cases (simp_all add: view_def upt roles8_def m head)
qed

lemma view_64: "length regs = 8 \<Longrightarrow> view 64 regs = regs"
  using list8 [of regs] by (simp add: view_def roles8_def upt_rec)

lemma length_ref_rounds: "length s = 8 \<Longrightarrow> length (ref_rounds block s i) = 8"
  by (cases i) (simp_all add: ref_round_def Let_def)

text \<open>The rounds from \<open>i\<close> on: an early exit exactly when the word that becomes the last register
  fails the limit, otherwise the reference state after 64 rounds.\<close>

lemma run_round:
  assumes "length regs = 8" and "ring_inv block i w" and "START \<le> i" and "view i regs = ref_rounds block s i"
  obtains regs' w' where "length regs' = 8" and "ring_inv block (Suc i) w'"
    and "view (Suc i) regs' = ref_rounds block s (Suc i)"
    and "round_macro START hl s7 i (roles8 ! (i mod 8)) (regs, w)
      = (if i = 60 \<and> over_limit hl (s7 + ref_rounds block s (Suc i) ! 4) then None else Some (regs', w'))"
proof -
  let ?r = "roles8 ! (i mod 8)" and ?s = "ref_rounds block s i"
  define t where "t = ?s ! 7 + big_s1 (?s ! 4) + choose_bits (?s ! 4) (?s ! 5) (?s ! 6) + K ! i + message_word block i"
  define y where "y = t + big_s0 (?s ! 0) + majority (?s ! 0) (?s ! 1) (?s ! 2)"
  note R = ring_step [OF assms(2)]
  have n: "regs ! (?r ! 0) = ?s ! 0" "regs ! (?r ! 1) = ?s ! 1" "regs ! (?r ! 2) = ?s ! 2"
    "regs ! (?r ! 3) = ?s ! 3" "regs ! (?r ! 4) = ?s ! 4" "regs ! (?r ! 5) = ?s ! 5"
    "regs ! (?r ! 6) = ?s ! 6" "regs ! (?r ! 7) = ?s ! 7"
    using view_nth [of _ i regs] assms(4) by simp_all
  have ref: "ref_rounds block s (Suc i) = [y, ?s ! 0, ?s ! 1, ?s ! 2, ?s ! 3 + t, ?s ! 4, ?s ! 5, ?s ! 6]"
    by (simp add: ref_round_def Let_def t_def y_def add.assoc)
  have e4: "ref_rounds block s (Suc i) ! 4 = ?s ! 3 + t" by (simp only: ref) simp
  let ?regs = "regs[?r ! 3 := ?s ! 3 + t, ?r ! 7 := y]"
  have "view (Suc i) ?regs = ref_rounds block s (Suc i)"
    using view_round [OF assms(1), of i "?s ! 3 + t" y] by (simp only: assms(4) ref)
  moreover have "round_macro START hl s7 i ?r (regs, w)
      = (if i = 60 \<and> over_limit hl (s7 + ref_rounds block s (Suc i) ! 4) then None
         else Some (?regs, ring_update i w))"
    unfolding round_macro_def Let_def fst_conv snd_conv n R(2) t_def [symmetric] y_def [symmetric] e4
    by (simp only: assms(3) if_True)
  ultimately show ?thesis using that [of ?regs "ring_update i w"] assms(1) R(1) by simp
qed

lemma run_rounds_from:
  assumes "n + i = 64" and "length regs = 8" and "ring_inv block i w" and "START \<le> i"
    and "view i regs = ref_rounds block s i"
  shows "map_option fst (run_rounds START hl s7 [i..<64] (regs, w))
      = (if i \<le> 60 \<and> over_limit hl (s7 + ref_rounds block s 61 ! 4) then None
         else Some (ref_rounds block s 64))"
  using assms
proof (induction n arbitrary: i regs w)
  case 0
  then show ?case using view_64 [of regs] by simp
next
  case (Suc n)
  have upt: "[i..<64] = i # [Suc i..<64]" using Suc.prems(1) by (simp add: upt_rec)
  show ?case
  proof (rule run_round [OF Suc.prems(2-5), of hl s7])
    fix regs' w'
    assume 1: "length regs' = 8" "ring_inv block (Suc i) w'" "view (Suc i) regs' = ref_rounds block s (Suc i)"
      and r: "round_macro START hl s7 i (roles8 ! (i mod 8)) (regs, w)
        = (if i = 60 \<and> over_limit hl (s7 + ref_rounds block s (Suc i) ! 4) then None else Some (regs', w'))"
    have "START \<le> Suc i" "n + Suc i = 64" using Suc.prems(1,4) by simp_all
    note IH = Suc.IH [OF this(2) 1(1,2) this(1) 1(3)]
    show ?thesis
    proof (cases "i = 60")
      case True
      have "Suc i = 61" using True by simp
      with True r IH show ?thesis by (simp add: upt)
    next
      case False
      with r IH show ?thesis by (simp add: upt)
    qed
  qed
qed

lemma run_rounds_skip:
  assumes "n + i = START" and "length regs = 8" and "ring_inv block i w" and "START \<le> 64"
    and "view START regs = ref_rounds block s START"
  shows "map_option fst (run_rounds START hl s7 [i..<64] (regs, w))
      = (if START \<le> 60 \<and> over_limit hl (s7 + ref_rounds block s 61 ! 4) then None
         else Some (ref_rounds block s 64))"
  using assms
proof (induction n arbitrary: i w)
  case 0
  then show ?case using run_rounds_from [of "64 - START" START regs block w START s hl s7] by simp
next
  case (Suc n)
  have upt: "[i..<64] = i # [Suc i..<64]" using Suc.prems(1,4) by (simp add: upt_rec)
  have "round_macro START hl s7 i (roles8 ! (i mod 8)) (regs, w) = Some (regs, ring_update i w)"
    using Suc.prems(1) by (simp add: round_macro_def)
  with Suc.IH [OF _ Suc.prems(2) ring_step(1) [OF Suc.prems(3)] Suc.prems(4,5)] Suc.prems(1)
  show ?case by (simp add: upt)
qed

lemma compress_from_limited_correct:
  assumes "length block = 16" and "length s = 8" and "START \<le> 60"
  shows "compress_from_limited START state block (ref_rounds block s START) hl
      = (if over_limit hl (state ! 7 + ref_rounds block s 61 ! 4) then (state, False)
         else (feed_forward state (ref_rounds block s 64), True))"
proof -
  let ?head = "ref_rounds block s START"
  let ?regs = "map (\<lambda>i. ?head ! ((i + START) mod 8)) [0..<8]"
  have "view START ?regs = ?head" by (rule view_head) (rule length_ref_rounds [OF assms(2)])
  from run_rounds_skip [of START 0 START ?regs block block s hl "state ! 7", OF _ _ ring_init [OF assms(1)] _ this] assms(3)
  have run: "map_option fst (run_rounds START hl (state ! 7) [0..<64] (?regs, block))
      = (if over_limit hl (state ! 7 + ref_rounds block s 61 ! 4) then None else Some (ref_rounds block s 64))"
    by simp
  show ?thesis
    using run by (cases "run_rounds START hl (state ! 7) [0..<64] (?regs, block)")
      (auto simp: compress_from_limited_def split: if_splits)
qed

lemma over_limit_None [simp]: "over_limit None x = False"
  by (simp add: over_limit_def)

lemma compress_from_correct:
  assumes "length block = 16" and "length s = 8" and "START \<le> 60"
  shows "compress_from START state block (ref_rounds block s START) = feed_forward state (ref_rounds block s 64)"
  using compress_from_limited_correct [OF assms, of state None] by (simp add: compress_from_def)

lemma compress_correct:
  assumes "length block = 16" and "length state = 8"
  shows "compress state block = ref_compress state block"
  using compress_from_correct [OF assms, of 0 state]
  by (simp add: compress_def ref_compress_def feed_forward_def)

lemma length_compress: "length block = 16 \<Longrightarrow> length state = 8 \<Longrightarrow> length (compress state block) = 8"
  by (simp add: compress_correct ref_compress_def length_ref_rounds)

lemma head10_correct:
  assumes "length block = 16"
  shows "head10 state block = ref_rounds block state 10"
proof -
  have "head_round block i s = ref_round block i s" if "i < 16" for i s
    using that by (simp add: head_round_def ref_round_def message_word.simps [of block i])
  then show ?thesis by (simp add: head10_def upt_rec eval_nat_numeral)
qed

text \<open>The schedule array of \<open>window.rs\<close> holds the message words.\<close>

lemma schedule_fill_correct:
  assumes "n + i = 64" and "16 \<le> i" and "length w = 64" and "\<forall>j<i. w ! j = message_word block j"
  shows "length (schedule_fill [i..<64] w) = 64 \<and> (\<forall>j<64. schedule_fill [i..<64] w ! j = message_word block j)"
  using assms
proof (induction n arbitrary: i w)
  case (Suc n)
  have upt: "[i..<64] = i # [Suc i..<64]" using Suc.prems(1) by (simp add: upt_rec)
  let ?w = "w[i := w ! (i - 16) + small_s0 (w ! (i - 15)) + w ! (i - 7) + small_s1 (w ! (i - 2))]"
  have "\<forall>j<Suc i. ?w ! j = message_word block j"
    using Suc.prems by (auto simp: less_Suc_eq message_word.simps [of block i])
  from Suc.IH [OF _ _ _ this] Suc.prems show ?case by (simp add: upt)
qed simp

lemma schedule_correct:
  assumes "length block = 16"
  shows "length (schedule block) = 64" and "j < 64 \<Longrightarrow> schedule block ! j = message_word block j"
proof -
  define w where "w = block @ replicate 48 0"
  have w: "length w = 64" using assms by (simp only: w_def length_append length_replicate)
  have "\<forall>j<16. w ! j = message_word block j"
    unfolding w_def using assms by (simp add: nth_append message_word.simps)
  note fill = schedule_fill_correct [of 48 16 w block, OF _ _ w this]
  have "length (schedule_fill [16..<64] w) = 64 \<and> (\<forall>j<64. schedule_fill [16..<64] w ! j = message_word block j)"
    by (rule fill) simp_all
  then show "length (schedule block) = 64" "j < 64 \<Longrightarrow> schedule block ! j = message_word block j"
    unfolding schedule_def w_def [symmetric] by blast+
qed

lemma round_scheduled_correct:
  assumes "length regs = 8" and "view i regs = s" and "w ! i = message_word block i"
  shows "length (round_scheduled w i (roles8 ! (i mod 8)) regs) = 8"
    and "view (Suc i) (round_scheduled w i (roles8 ! (i mod 8)) regs) = ref_round block i s"
proof -
  let ?r = "roles8 ! (i mod 8)"
  define t where "t = s ! 7 + big_s1 (s ! 4) + choose_bits (s ! 4) (s ! 5) (s ! 6) + K ! i + message_word block i"
  have n: "regs ! (?r ! 0) = s ! 0" "regs ! (?r ! 1) = s ! 1" "regs ! (?r ! 2) = s ! 2"
    "regs ! (?r ! 3) = s ! 3" "regs ! (?r ! 4) = s ! 4" "regs ! (?r ! 5) = s ! 5"
    "regs ! (?r ! 6) = s ! 6" "regs ! (?r ! 7) = s ! 7"
    using view_nth [of _ i regs] assms(2) by simp_all
  have new: "round_scheduled w i ?r regs
      = regs[?r ! 3 := s ! 3 + t, ?r ! 7 := t + big_s0 (s ! 0) + majority (s ! 0) (s ! 1) (s ! 2)]"
    unfolding round_scheduled_def Let_def n assms(3) t_def [symmetric] by (rule refl)
  show "length (round_scheduled w i ?r regs) = 8" by (simp only: new length_list_update assms(1))
  show "view (Suc i) (round_scheduled w i ?r regs) = ref_round block i s"
    unfolding new using view_round [OF assms(1), of i] assms(2)
    by (simp add: ref_round_def Let_def t_def add.assoc)
qed

lemma compress_scheduled_correct:
  assumes "length block = 16" and "length state = 8"
  shows "compress_scheduled state (schedule block) = ref_compress state block"
proof -
  define f where "f = (\<lambda>i. round_scheduled (schedule block) i (roles8 ! (i mod 8)))"
  have inv: "length (fold f [0..<i] state) = 8 \<and> view i (fold f [0..<i] state) = ref_rounds block state i"
    if "i \<le> 64" for i
    using that
  proof (induction i)
    case 0
    show ?case using assms(2) list8 [OF assms(2)] by (simp add: view_def roles8_def upt_rec)
  next
    case (Suc i)
    have IH: "length (fold f [0..<i] state) = 8" "view i (fold f [0..<i] state) = ref_rounds block state i"
      using Suc by simp_all
    have w: "schedule block ! i = message_word block i"
      using schedule_correct(2) [OF assms(1)] Suc.prems by simp
    have "fold f [0..<Suc i] state = f i (fold f [0..<i] state)" by simp
    with round_scheduled_correct [OF IH w] show ?case by (simp only: f_def ref_rounds.simps)
  qed
  have "fold f [0..<64] state = ref_rounds block state 64"
    using inv [of 64] view_64 by (metis order_refl)
  then show ?thesis
    by (simp only: compress_scheduled_def ref_compress_def feed_forward_def f_def)
qed

section \<open>Digests\<close>

text \<open>SHA-256 of a byte string by the standard: padding, then the reference compression block by block.\<close>

definition sha_padding :: "nat \<Rightarrow> bytes" where
  "sha_padding n = 0x80 # replicate ((119 - n mod 64) mod 64) 0 @ to_be_bytes (of_nat (n * 8) :: u64)"

definition be_words16 :: "bytes \<Rightarrow> limbs" where
  "be_words16 bs = map (\<lambda>i. from_be_bytes (subrange bs (i * 4) (i * 4 + 4))) [0..<16]"

fun sha_blocks :: "nat \<Rightarrow> limbs \<Rightarrow> bytes \<Rightarrow> limbs" where
  "sha_blocks 0 state bs = state"
| "sha_blocks (Suc n) state bs = sha_blocks n (ref_compress state (be_words16 (take 64 bs))) (drop 64 bs)"

definition sha256 :: "bytes \<Rightarrow> bytes" where
  "sha256 m = (let padded = m @ sha_padding (length m)
               in concat (map to_be_bytes (sha_blocks (length padded div 64) INITIAL padded)))"

lemma nat_le_4: "nat_le 4 n = [word_of_nat n, word_of_nat (n div 2^8), word_of_nat (n div 2^16), word_of_nat (n div 2^24 :: nat) :: u8]"
proof -
  have 4: "4 = Suc (Suc (Suc (Suc 0)))" by simp
  show ?thesis unfolding 4 by (simp add: div_mult2_eq [symmetric])
qed
lemma u32_be: "to_be_bytes (w :: u32) = [ucast (drop_bit 24 w), ucast (drop_bit 16 w), ucast (drop_bit 8 w), ucast w]"
proof -
  have d: "ucast (drop_bit n w) = (word_of_nat (unat w div 2 ^ n) :: u8)" for n
    by (rule word_unat_eq_iff [THEN iffD2]) (simp add: unat_ucast unat_drop_bit unat_of_nat)
  have l: "LENGTH(32) div 8 = 4" by simp
  from d [of 24] d [of 16] d [of 8] d [of 0] show ?thesis
    by (simp only: to_be_bytes_def to_le_bytes_def nat_le_4 l) simp
qed

lemma ref_compress_length: "length s = 8 \<Longrightarrow> length (ref_compress s w) = 8"
  by (simp add: ref_compress_def length_ref_rounds)

lemma sha_blocks_length: "length s = 8 \<Longrightarrow> length (sha_blocks n s bs) = 8"
  by (induction n arbitrary: s bs) (simp_all add: ref_compress_length)

lemma length_concat_const: "(\<And>x. x \<in> set xs \<Longrightarrow> length (f x) = n) \<Longrightarrow> length (concat (map f xs)) = n * length xs"
  by (induction xs) simp_all

lemma subrange_concat:
  assumes "\<And>x. length (f x) = n" and "i < length xs"
  shows "subrange (concat (map f xs)) (i * n) (i * n + n) = f (xs ! i)"
  using assms(2)
proof (induction xs arbitrary: i)
  case (Cons x xs)
  show ?case
  proof (cases i)
    case 0
    then show ?thesis by (simp add: subrange_def assms(1))
  next
    case (Suc j)
    then show ?thesis using Cons.IH [of j] Cons.prems
      by (simp add: subrange_append2 assms(1) add.commute)
  qed
qed simp

lemma be_words16_words: "length ws = 16 \<Longrightarrow> be_words16 (concat (map to_be_bytes ws)) = ws"
  unfolding be_words16_def
  by (rule nth_equalityI) (simp_all add: subrange_concat from_to_be_bytes)

lemma subrange_4:
  assumes "i * 4 + 4 \<le> length bs"
  shows "subrange bs (i * 4) (i * 4 + 4) = [bs ! (i * 4), bs ! (i * 4 + 1), bs ! (i * 4 + 2), bs ! (i * 4 + 3)]"
proof -
  have 4: "4 = Suc (Suc (Suc (Suc 0)))" by simp
  have "subrange bs (i * 4) (i * 4 + 4) = map (\<lambda>k. bs ! (i * 4 + k)) [0..<4]"
    using assms by (intro nth_equalityI) (simp_all add: subrange_def)
  also have "[0..<4] = [0, 1, 2, 3 :: nat]" by (simp add: upt_rec)
  finally show ?thesis by simp
qed

lemma compress_bytes_correct:
  assumes "length bs = 64" and "length state = 8"
  shows "compress_bytes state bs = ref_compress state (be_words16 bs)"
proof -
  have "map (\<lambda>i. from_be_bytes [bs ! (i * 4), bs ! (i * 4 + 1), bs ! (i * 4 + 2), bs ! (i * 4 + 3)]) [0..<16]
      = be_words16 bs"
    unfolding be_words16_def using assms(1) by (intro map_cong refl) (simp add: subrange_4)
  moreover have "length (be_words16 bs) = 16" by (simp add: be_words16_def)
  ultimately show ?thesis
    unfolding compress_bytes_def using compress_correct assms(2) by metis
qed

lemma state_bytes_correct:
  assumes "length state = 8"
  shows "state_bytes state = concat (map to_be_bytes state)"
proof -
  obtain a b c d e f g h where s: "state = [a, b, c, d, e, f, g, h]" using list8 [OF assms] by blast
  have upt: "[0..<32] = [0..<8] @ [8..<16] @ [16..<24] @ [24..<32 :: nat]"
    by (simp add: upt_rec)
  show ?thesis by (simp add: state_bytes_def s upt u32_be) (simp add: upt_rec)
qed

lemma length_INITIAL [simp]: "length INITIAL = 8"
  by (simp add: INITIAL_def)

lemma length_sha_padding: "length (sha_padding n) = (119 - n mod 64) mod 64 + 9"
  by (simp add: sha_padding_def)

lemma length_sha256: "length (sha256 m) = 32"
  by (simp add: sha256_def Let_def length_concat_const [where n = 4] sha_blocks_length)

lemma hash_block_bytes:
  assumes "length h = 8"
  shows "concat (map to_be_bytes h) @ sha_padding 32 = concat (map to_be_bytes (hash_block h))"
proof -
  have pad: "sha_padding 32 = concat (map to_be_bytes ([0x80000000, 0, 0, 0, 0, 0, 0, 256] :: limbs))"
    unfolding sha_padding_def by (simp add: u32_be) code_simp
  show ?thesis using assms by (simp add: pad hash_block_def)
qed

lemma hash_state_sha256:
  assumes "length h = 8"
  shows "hash_state h = sha256 (state_bytes h)"
proof -
  have l: "length (state_bytes h) = 32" by (simp add: state_bytes_def)
  have hl: "length (hash_block h) = 16" using assms by (simp add: hash_block_def)
  have p: "state_bytes h @ sha_padding 32 = concat (map to_be_bytes (hash_block h))"
    using hash_block_bytes [OF assms] by (simp only: state_bytes_correct [OF assms])
  have pl: "length (concat (map to_be_bytes (hash_block h))) = 64"
    by (simp add: length_concat_const [where n = 4] hl)
  have c: "compress INITIAL (hash_block h) = ref_compress INITIAL (hash_block h)"
    by (rule compress_correct) (simp_all add: hl)
  have one: "sha_blocks 1 s bs = ref_compress s (be_words16 (take 64 bs))" for s bs by simp
  have t: "take 64 (concat (map to_be_bytes (hash_block h))) = concat (map to_be_bytes (hash_block h))"
    by (rule take_all) (simp only: pl)
  show ?thesis
    unfolding hash_state_def sha256_def Let_def l p pl c
    by (simp add: one t be_words16_words [OF hl] state_bytes_correct ref_compress_length)
qed

lemma challenge_sha256:
  assumes "length r = 32" and "length public = 33" and "length message = 32"
  shows "challenge r public message = sha256 (r @ public @ message)"
proof -
  have pub: "public = take 32 public @ [public ! 32]"
    using assms(2) take_Suc_conv_app_nth [of 32 public] by simp
  define b1 where "b1 = r @ take 32 public"
  define b2 where "b2 = [public ! 32] @ message @ [0x80] @ replicate 22 0 @ to_be_bytes (97 * 8 :: u64)"
  have pad: "sha_padding 97 = [0x80] @ replicate 22 0 @ to_be_bytes (97 * 8 :: u64)"
    by code_simp
  have l1: "length b1 = 64" using assms by (simp add: b1_def)
  have l2: "length b2 = 64" using assms by (simp add: b2_def)
  have p: "(r @ public @ message) @ sha_padding 97 = b1 @ b2"
    unfolding b1_def b2_def pad by (subst pub) simp
  have len: "length (r @ public @ message) = 97" using assms by simp
  have two: "sha_blocks 2 s (b1 @ b2) = ref_compress (ref_compress s (be_words16 b1)) (be_words16 b2)" for s
    using l1 l2 by (simp add: numeral_2_eq_2)
  have d: "length (b1 @ b2) div 64 = 2" by (simp add: l1 l2)
  show ?thesis
    unfolding challenge_def sha256_def Let_def len p d two b1_def [symmetric] b2_def [symmetric]
    by (simp add: compress_bytes_correct l1 l2 ref_compress_length state_bytes_correct)
qed

lemma ref_rounds_tail: "ref_rounds block s (Suc (Suc (Suc i))) ! 7 = ref_rounds block s i ! 4"
  by (simp add: ref_round_def Let_def)

lemma feed_forward_top:
  assumes "length state = 8"
  shows "feed_forward state (ref_rounds block state 64) ! 7 = state ! 7 + ref_rounds block state 61 ! 4"
proof -
  have s: "Suc (Suc (Suc 61)) = 64" by simp
  have "length (ref_rounds block state 64) = 8" by (rule length_ref_rounds [OF assms])
  then show ?thesis
    using ref_rounds_tail [of block state 61] assms by (simp add: feed_forward_def s)
qed

lemma state_bytes_31: "state_bytes state ! 31 = ucast (state ! 7)"
  by (simp add: state_bytes_def)

lemma filtered_correct:
  assumes "length h = 8"
  shows "compress_from_limited 0 INITIAL (hash_block h) INITIAL (Some (limit, strict))
    = (if (if strict then hash_state h ! 31 else hash_state h ! 31 AND 0x7f) > limit then (INITIAL, False)
       else (compress INITIAL (hash_block h), True))"
proof -
  have hl: "length (hash_block h) = 16" using assms by (simp add: hash_block_def)
  let ?c = "feed_forward INITIAL (ref_rounds (hash_block h) INITIAL 64)"
  have c: "compress INITIAL (hash_block h) = ?c"
    using compress_correct [OF hl length_INITIAL] by (simp only: ref_compress_def feed_forward_def)
  have "over_limit (Some (limit, strict)) (INITIAL ! 7 + ref_rounds (hash_block h) INITIAL 61 ! 4)
      \<longleftrightarrow> (if strict then hash_state h ! 31 else hash_state h ! 31 AND 0x7f) > limit"
    unfolding hash_state_def c state_bytes_31 feed_forward_top [OF length_INITIAL, symmetric]
    by (simp add: over_limit_def Let_def)
  with compress_from_limited_correct [OF hl length_INITIAL, of 0 INITIAL "Some (limit, strict)"]
  show ?thesis by (simp only: c ref_rounds.simps)
qed

interpretation sha: hash32 sha256
  by unfold_locales (rule length_sha256)

section \<open>Properties\<close>

text \<open>C25. The unrolled compression over rotating variables and a 16-word ring, the variant resumed at
  round 10 from \<open>head10\<close>, and the variant over a precomputed 64-word schedule all compute the
  standard's compression function.\<close>

theorem compress_variants_agree:
  assumes "length block = 16" and "length state = 8"
  shows "compress state block = ref_compress state block \<and>
    compress_from 10 state block (head10 state block) = ref_compress state block \<and>
    compress_scheduled state (schedule block) = ref_compress state block"
proof (intro conjI)
  show "compress state block = ref_compress state block" by (rule compress_correct [OF assms])
  show "compress_scheduled state (schedule block) = ref_compress state block"
    by (rule compress_scheduled_correct [OF assms])
  have "compress_from 10 state block (head10 state block) = feed_forward state (ref_rounds block state 64)"
    unfolding head10_correct [OF assms(1)] by (rule compress_from_correct [OF assms]) simp
  then show "compress_from 10 state block (head10 state block) = ref_compress state block"
    by (simp only: ref_compress_def feed_forward_def)
qed

theorem compress_variants_agree_witness:
  "compress INITIAL (replicate 16 0) = ref_compress INITIAL (replicate 16 0) \<and>
   compress_from 10 INITIAL (replicate 16 0) (head10 INITIAL (replicate 16 0)) = ref_compress INITIAL (replicate 16 0) \<and>
   compress_scheduled INITIAL (schedule (replicate 16 0)) = ref_compress INITIAL (replicate 16 0)"
  using compress_variants_agree [OF length_replicate length_INITIAL, of "0 :: u32"] by blast

text \<open>The early exit at round 60 is exact: the filtered hash is dropped if and only if the byte that
  decides (the last byte of the full digest, without its top bit unless \<open>strict_positive\<close>) is above
  the limit, and otherwise it is the full digest.\<close>

theorem hash_filter_exact:
  assumes "length first_hash = 8"
  shows "hash_state_filtered_with_rule first_hash limit strict =
    (if (if strict then hash_state first_hash ! 31 else hash_state first_hash ! 31 AND 0x7f) > limit then None
     else Some (hash_state first_hash))"
  unfolding hash_state_filtered_with_rule_def filtered_correct [OF assms]
  by (simp add: hash_state_def)

theorem hash_filter_exact_witness:
  "hash_state_filtered_with_rule INITIAL 255 True = Some (hash_state INITIAL)"
proof -
  have "\<not> hash_state INITIAL ! 31 > 255"
    unfolding not_less word_le_nat_alt
    using unsigned_less [of "hash_state INITIAL ! 31", where ?'a = nat] by simp
  then show ?thesis using hash_filter_exact [OF length_INITIAL, of 255 True] by simp
qed

text \<open>C26. The two fixed-layout digests are SHA-256 of the byte strings they stand for: the second hash of
  a double hash, and the 97-byte Schnorr challenge.\<close>

theorem digests_are_sha256:
  assumes "length first_hash = 8" and "length r = 32" and "length public = 33" and "length message = 32"
  shows "hash_state first_hash = sha256 (state_bytes first_hash) \<and>
    challenge r public message = sha256 (r @ public @ message)"
  using hash_state_sha256 [OF assms(1)] challenge_sha256 [OF assms(2-4)] by blast

theorem digests_are_sha256_witness:
  "hash_state INITIAL = sha256 (state_bytes INITIAL) \<and>
   challenge (replicate 32 1) (replicate 33 2) (replicate 32 3)
     = sha256 (replicate 32 1 @ replicate 33 2 @ replicate 32 3)"
  using digests_are_sha256 [of INITIAL "replicate 32 1" "replicate 33 2" "replicate 32 3"]
  by (simp only: length_INITIAL length_replicate refl conj_absorb True_implies_equals)

end
