(* ===== verification/Sign.thy ===== *)
theory Sign
  imports Binary_Euclid Scalar Sha256
begin

text \<open>
  \<open>rust-engine/src/sign.rs\<close> and \<open>nonce.rs\<close>: BCH Schnorr signing in big-endian words. The message hash, the
  RFC 6979 nonce as a table of steps around one compression, the 16-bit window digits, the challenge and
  the signature; and the byte-wise nonce over an HMAC, which the \<open>hmac\<close> and \<open>sha2\<close> packages provide and
  which is an argument here. The nonce loops carry fuel, the number of their passes: whether they end
  depends on the digests.
\<close>

section \<open>Words and scalars\<close>

definition R2 :: limbs where
  "R2 = [0x67d7d140, 0x896cf214, 0x0e7cf878, 0x741496c2, 0x5bcd07c6, 0xe697f5e4, 0x81c69bc5, 0x9d671cd5]"

definition TAG :: limbs where
  "TAG = [0x5363686e, 0x6f72722b, 0x53484132, 0x35362020]"

definition reversed :: "limbs \<Rightarrow> limbs" where
  "reversed v = [v ! 7, v ! 6, v ! 5, v ! 4, v ! 3, v ! 2, v ! 1, v ! 0]"

definition scalar_from_be_words :: "'w wide_ops \<Rightarrow> limbs \<Rightarrow> limbs" where
  "scalar_from_be_words W v =
     (let words = reversed v;
          (reduced, borrow) = subtract W words N
      in if borrow = 0 then reduced else words)"

definition swap_bytes :: "u32 \<Rightarrow> u32" where
  "swap_bytes x = from_be_bytes (to_le_bytes x)"

definition window_digit :: "limbs \<Rightarrow> nat \<Rightarrow> nat" where
  "window_digit k window = unat (drop_bit ((window mod 2) * 16) (k ! (window div 2)) AND 0xffff)"

section \<open>Message and challenge\<close>

definition message_words :: "u32 \<Rightarrow> limbs \<Rightarrow> limbs" where
  "message_words nonce t =
     compress INITIAL
       [swap_bytes nonce, t ! 0, t ! 1, t ! 2, t ! 3, t ! 4, t ! 5, t ! 6, t ! 7, 0x80000000, 0, 0, 0, 0, 0, 36 * 8]"

definition challenge_words :: "limbs \<Rightarrow> limbs \<Rightarrow> limbs \<Rightarrow> limbs" where
  "challenge_words r p m =
     (let state = compress INITIAL
            [r ! 0, r ! 1, r ! 2, r ! 3, r ! 4, r ! 5, r ! 6, r ! 7,
             p ! 0, p ! 1, p ! 2, p ! 3, p ! 4, p ! 5, p ! 6, p ! 7]
      in compress state
           [p ! 8 OR drop_bit 8 (m ! 0),
            push_bit 24 (m ! 0) OR drop_bit 8 (m ! 1),
            push_bit 24 (m ! 1) OR drop_bit 8 (m ! 2),
            push_bit 24 (m ! 2) OR drop_bit 8 (m ! 3),
            push_bit 24 (m ! 3) OR drop_bit 8 (m ! 4),
            push_bit 24 (m ! 4) OR drop_bit 8 (m ! 5),
            push_bit 24 (m ! 5) OR drop_bit 8 (m ! 6),
            push_bit 24 (m ! 6) OR drop_bit 8 (m ! 7),
            push_bit 24 (m ! 7) OR 0x00800000,
            0, 0, 0, 0, 0, 0, 97 * 8])"

definition signature_words ::
  "'w wide_ops \<Rightarrow> Point \<Rightarrow> limbs \<Rightarrow> limbs \<Rightarrow> limbs \<Rightarrow> limbs \<Rightarrow> (limbs \<times> limbs) option" where
  "signature_words W point message k public secret =
     Option.bind (inverse_binary W (pt_z point)) (\<lambda>inverse.
       let r = reversed (mul_mod W (pt_x point) (square W inverse))
       in Option.bind (is_square_binary W (mul_mod W (pt_y point) (pt_z point))) (\<lambda>is_square.
            let k = (if is_square then k else negate W k);
                e = scalar_from_be_words W (challenge_words r public message);
                ed = montgomery_mul W (montgomery_mul W e secret) R2
            in Some (r, reversed (scalar_add_mod W k ed))))"

section \<open>Blocks of the RFC 6979 chain\<close>

definition key_block :: "limbs \<Rightarrow> u32 \<Rightarrow> limbs" where
  "key_block k pad =
     [k ! 0 XOR pad, k ! 1 XOR pad, k ! 2 XOR pad, k ! 3 XOR pad, k ! 4 XOR pad, k ! 5 XOR pad, k ! 6 XOR pad,
      k ! 7 XOR pad, pad, pad, pad, pad, pad, pad, pad, pad]"

definition retry_block :: "limbs \<Rightarrow> limbs" where
  "retry_block v =
     [v ! 0, v ! 1, v ! 2, v ! 3, v ! 4, v ! 5, v ! 6, v ! 7, 0x00800000, 0, 0, 0, 0, 0, 0, (64 + 33) * 8]"

definition padded32 :: "limbs \<Rightarrow> limbs" where
  "padded32 m =
     [m ! 0, m ! 1, m ! 2, m ! 3, m ! 4, m ! 5, m ! 6, m ! 7, 0x80000000, 0, 0, 0, 0, 0, 0, (64 + 32) * 8]"

definition first_block :: "limbs \<Rightarrow> u32 \<Rightarrow> limbs \<Rightarrow> limbs" where
  "first_block v separator x =
     [v ! 0, v ! 1, v ! 2, v ! 3, v ! 4, v ! 5, v ! 6, v ! 7,
      push_bit 24 separator OR drop_bit 8 (x ! 0),
      push_bit 24 (x ! 0) OR drop_bit 8 (x ! 1),
      push_bit 24 (x ! 1) OR drop_bit 8 (x ! 2),
      push_bit 24 (x ! 2) OR drop_bit 8 (x ! 3),
      push_bit 24 (x ! 3) OR drop_bit 8 (x ! 4),
      push_bit 24 (x ! 4) OR drop_bit 8 (x ! 5),
      push_bit 24 (x ! 5) OR drop_bit 8 (x ! 6),
      push_bit 24 (x ! 6) OR drop_bit 8 (x ! 7)]"

definition second_block :: "u32 \<Rightarrow> limbs \<Rightarrow> limbs" where
  "second_block x7 h =
     [push_bit 24 x7 OR drop_bit 8 (h ! 0),
      push_bit 24 (h ! 0) OR drop_bit 8 (h ! 1),
      push_bit 24 (h ! 1) OR drop_bit 8 (h ! 2),
      push_bit 24 (h ! 2) OR drop_bit 8 (h ! 3),
      push_bit 24 (h ! 3) OR drop_bit 8 (h ! 4),
      push_bit 24 (h ! 4) OR drop_bit 8 (h ! 5),
      push_bit 24 (h ! 5) OR drop_bit 8 (h ! 6),
      push_bit 24 (h ! 6) OR drop_bit 8 (h ! 7),
      push_bit 24 (h ! 7) OR drop_bit 8 (TAG ! 0),
      push_bit 24 (TAG ! 0) OR drop_bit 8 (TAG ! 1),
      push_bit 24 (TAG ! 1) OR drop_bit 8 (TAG ! 2),
      push_bit 24 (TAG ! 2) OR drop_bit 8 (TAG ! 3),
      push_bit 24 (TAG ! 3) OR 0x00800000,
      0, 0, (64 + 113) * 8]"

definition rfc6979_midstates :: "limbs \<Rightarrow> limbs \<times> limbs" where
  "rfc6979_midstates secret =
     (let inner = compress INITIAL (key_block (replicate 8 0) 0x36363636);
          inner = compress inner (first_block (replicate 8 0x01010101) 0 secret);
          outer = compress INITIAL (key_block (replicate 8 0) 0x5c5c5c5c)
      in (inner, outer))"

section \<open>The table of steps\<close>

record RfcState =
  rs_forced :: u32
  rs_inner :: limbs
  rs_outer :: limbs
  rs_key :: limbs
  rs_v :: limbs
  rs_t :: limbs
  rs_step :: nat

text \<open>The state and the block that a step compresses.\<close>

definition rfc_input :: "limbs \<Rightarrow> limbs \<Rightarrow> RfcState \<Rightarrow> limbs \<times> limbs" where
  "rfc_input secret tail s =
     (let step = rs_step s
      in if step = 0 then (rs_inner s, tail)
         else if step = 6 then (rs_inner s, first_block (rs_v s) 1 secret)
         else if step = 7 then (rs_t s, tail)
         else if step = 15 then (rs_inner s, retry_block (rs_v s))
         else if step \<in> {2, 9, 17} then (INITIAL, key_block (rs_key s) 0x36363636)
         else if step \<in> {3, 10, 18} then (INITIAL, key_block (rs_key s) 0x5c5c5c5c)
         else if step \<in> {4, 11, 13, 19} then (rs_inner s, padded32 (rs_v s))
         else (rs_outer s, padded32 (rs_t s)))"

text \<open>Where its result goes.\<close>

definition rfc_store :: "RfcState \<Rightarrow> limbs \<Rightarrow> RfcState" where
  "rfc_store s out =
     (let step = rs_step s
      in if step \<in> {1, 8, 16} then s\<lparr>rs_key := out\<rparr>
         else if step \<in> {2, 9, 17} then s\<lparr>rs_inner := out\<rparr>
         else if step \<in> {3, 10, 18} then s\<lparr>rs_outer := out\<rparr>
         else if step \<in> {5, 12, 14, 20} then s\<lparr>rs_v := out\<rparr>
         else s\<lparr>rs_t := out\<rparr>)"

text \<open>The next step; \<open>Inl\<close> returns the candidate.\<close>

definition rfc_next :: "'w wide_ops \<Rightarrow> RfcState \<Rightarrow> limbs + RfcState" where
  "rfc_next W s =
     (let step = rs_step s
      in if step = 14 then
           if rs_forced s = 0 \<and> snd (subtract W (reversed (rs_v s)) N) \<noteq> 0 \<and> \<not> is_zero (rs_v s) then Inl (rs_v s)
           else Inr (s\<lparr>rs_forced := (if rs_forced s > 0 then rs_forced s - 1 else rs_forced s), rs_step := 15\<rparr>)
         else if step = 20 then Inr (s\<lparr>rs_step := 13\<rparr>)
         else Inr (s\<lparr>rs_step := step + 1\<rparr>))"

fun rfc_loop :: "'w wide_ops \<Rightarrow> limbs \<Rightarrow> limbs \<Rightarrow> nat \<Rightarrow> RfcState \<Rightarrow> limbs option" where
  "rfc_loop W secret tail 0 s = None"
| "rfc_loop W secret tail (Suc n) s =
     (let (state, block) = rfc_input secret tail s
      in case rfc_next W (rfc_store s (compress state block)) of
           Inl v \<Rightarrow> Some v
         | Inr s \<Rightarrow> rfc_loop W secret tail n s)"

definition rfc6979_words_retrying ::
  "'w wide_ops \<Rightarrow> nat \<Rightarrow> limbs \<times> limbs \<Rightarrow> limbs \<Rightarrow> limbs \<Rightarrow> u32 \<Rightarrow> limbs option" where
  "rfc6979_words_retrying W fuel midstates secret message forced =
     (let tail = second_block (secret ! 7) (reversed (scalar_from_be_words W message))
      in rfc_loop W secret tail fuel
           \<lparr>rs_forced = forced, rs_inner = fst midstates, rs_outer = snd midstates, rs_key = replicate 8 0,
            rs_v = replicate 8 0x01010101, rs_t = replicate 8 0, rs_step = 0\<rparr>)"

definition rfc6979_words :: "'w wide_ops \<Rightarrow> nat \<Rightarrow> limbs \<times> limbs \<Rightarrow> limbs \<Rightarrow> limbs \<Rightarrow> limbs option" where
  "rfc6979_words W fuel midstates secret message = rfc6979_words_retrying W fuel midstates secret message 0"

definition nonce_words ::
  "'w wide_ops \<Rightarrow> nat \<Rightarrow> u32 \<Rightarrow> limbs \<Rightarrow> limbs \<Rightarrow> limbs \<times> limbs \<Rightarrow> (limbs \<times> limbs) option" where
  "nonce_words W fuel nonce target secret midstates =
     (let message = message_words nonce target
      in map_option (\<lambda>k. (message, reversed k)) (rfc6979_words W fuel midstates secret message))"

section \<open>The byte-wise nonce\<close>

definition separator_round :: "(bytes \<Rightarrow> bytes \<Rightarrow> bytes) \<Rightarrow> bytes \<Rightarrow> u8 \<Rightarrow> bytes \<times> bytes \<Rightarrow> bytes \<times> bytes" where
  "separator_round hmac rest separator kv =
     (let (k, v) = kv;
          k = hmac k (v @ [separator] @ rest)
      in (k, hmac k v))"

fun nonce_loop :: "'w wide_ops \<Rightarrow> (bytes \<Rightarrow> bytes \<Rightarrow> bytes) \<Rightarrow> nat \<Rightarrow> bytes \<Rightarrow> bytes \<Rightarrow> bytes option" where
  "nonce_loop W hmac 0 k v = None"
| "nonce_loop W hmac (Suc n) k v =
     (let v = hmac k v;
          scalar = scalar_from_be_bytes W v
      in if scalar \<noteq> scalar_ZERO \<and> scalar_to_be_bytes scalar = v then Some v
         else let k = hmac k (v @ [0])
              in nonce_loop W hmac n k (hmac k v))"

definition bch_rfc6979 ::
  "'w wide_ops \<Rightarrow> (bytes \<Rightarrow> bytes \<Rightarrow> bytes) \<Rightarrow> nat \<Rightarrow> bytes \<Rightarrow> bytes \<Rightarrow> bytes option" where
  "bch_rfc6979 W hmac fuel secret message =
     (let rest = secret @ scalar_to_be_bytes (scalar_from_be_bytes W message) @
            [0x53, 0x63, 0x68, 0x6e, 0x6f, 0x72, 0x72, 0x2b, 0x53, 0x48, 0x41, 0x32, 0x35, 0x36, 0x20, 0x20];
          (k, v) = separator_round hmac rest 1 (separator_round hmac rest 0 (replicate 32 0, replicate 32 1))
      in nonce_loop W hmac fuel k v)"

section \<open>Bytes of words\<close>

definition words_bytes :: "limbs \<Rightarrow> bytes" where
  "words_bytes ws = concat (map to_be_bytes ws)"

lemma words_bytes_simps [simp]: "words_bytes [] = []" "words_bytes (w # ws) = to_be_bytes w @ words_bytes ws"
  "words_bytes (xs @ ys) = words_bytes xs @ words_bytes ys"
  by (simp_all add: words_bytes_def)

lemma length_words_bytes [simp]: "length (words_bytes ws) = 4 * length ws"
  by (induction ws) simp_all

lemma words_bytes_inj: "length xs = length ys \<Longrightarrow> words_bytes xs = words_bytes ys \<Longrightarrow> xs = ys"
proof (induction xs ys rule: list_induct2)
  case (Cons x xs y ys)
  then have "to_be_bytes x = to_be_bytes y" "words_bytes xs = words_bytes ys" by simp_all
  moreover have "from_be_bytes (to_be_bytes z) = z" for z :: u32 by (simp add: from_to_be_bytes)
  ultimately show ?case using Cons.IH by metis
qed simp

text \<open>The byte-shifted words of the blocks.\<close>

lemma byte_parts:
  fixes x y :: u32
  shows "ucast (drop_bit 24 (push_bit 24 x OR drop_bit 8 y)) = (ucast x :: u8)"
    and "ucast (drop_bit 16 (push_bit 24 x OR drop_bit 8 y)) = (ucast (drop_bit 24 y) :: u8)"
    and "ucast (drop_bit 8 (push_bit 24 x OR drop_bit 8 y)) = (ucast (drop_bit 16 y) :: u8)"
    and "ucast (push_bit 24 x OR drop_bit 8 y) = (ucast (drop_bit 8 y) :: u8)"
  by (rule bit_word_eqI, auto simp: bit_simps dest: bit_imp_le_length)+

lemma be_shifted:
  "to_be_bytes (push_bit 24 x OR drop_bit 8 y :: u32) = [ucast x, ucast (drop_bit 24 y), ucast (drop_bit 16 y), ucast (drop_bit 8 y)]"
  by (simp only: u32_be byte_parts)

lemma to_be_swap: "to_be_bytes (swap_bytes x) = to_le_bytes x"
  by (simp add: swap_bytes_def to_from_be_bytes)

lemma be_zero: "to_be_bytes (0 :: u32) = [0, 0, 0, 0]"
  by (simp add: u32_be)

section \<open>Digests of block lists\<close>

definition compress_all :: "limbs \<Rightarrow> limbs list \<Rightarrow> limbs" where
  "compress_all state blocks = fold (\<lambda>b s. compress s b) blocks state"

lemma compress_all_simps [simp]: "compress_all s [] = s" "compress_all s (b # bs) = compress_all (compress s b) bs"
  by (simp_all add: compress_all_def)

lemma length_compress_all: "\<forall>b\<in>set bs. length b = 16 \<Longrightarrow> length s = 8 \<Longrightarrow> length (compress_all s bs) = 8"
  by (induction bs arbitrary: s) (simp_all add: length_compress)

lemma sha_blocks_words:
  "\<forall>b\<in>set bs. length b = 16 \<Longrightarrow> length s = 8 \<Longrightarrow> sha_blocks (length bs) s (words_bytes (concat bs)) = compress_all s bs"
proof (induction bs arbitrary: s)
  case (Cons b bs)
  have "take 64 (words_bytes (b @ concat bs)) = words_bytes b" "drop 64 (words_bytes (b @ concat bs)) = words_bytes (concat bs)"
    using Cons.prems by simp_all
  moreover have "be_words16 (words_bytes b) = b" using Cons.prems be_words16_words [of b] by (simp add: words_bytes_def)
  ultimately show ?case
    using Cons.IH [of "compress s b"] Cons.prems by (simp add: compress_correct ref_compress_length del: words_bytes_simps(3))
qed simp

lemma sha256_blocks:
  assumes "m @ sha_padding (length m) = words_bytes (concat blocks)" and "\<forall>b\<in>set blocks. length b = 16"
  shows "sha256 m = words_bytes (compress_all INITIAL blocks)"
proof -
  have "length (concat blocks) = 16 * length blocks" using assms(2) by (induction blocks) simp_all
  then have "length (words_bytes (concat blocks)) div 64 = length blocks" by simp
  then show ?thesis
    unfolding sha256_def Let_def assms(1) using sha_blocks_words [OF assms(2) length_INITIAL] by (simp add: words_bytes_def)
qed

lemma message_words_sha256:
  assumes "length target = 8"
  shows "words_bytes (message_words nonce target) = sha256 (to_le_bytes nonce @ words_bytes target)"
proof -
  obtain a b c d e f g h where t: "target = [a, b, c, d, e, f, g, h]" using list8 [OF assms] by blast
  have pad: "sha_padding 36 = words_bytes [0x80000000, 0, 0, 0, 0, 0, 36 * 8]"
    unfolding sha_padding_def by (simp add: u32_be) code_simp
  have "sha256 (to_le_bytes nonce @ words_bytes target) = words_bytes (compress_all INITIAL
      [[swap_bytes nonce, a, b, c, d, e, f, g, h, 0x80000000, 0, 0, 0, 0, 0, 36 * 8]])"
    by (rule sha256_blocks) (simp_all add: t pad to_be_swap)
  then show ?thesis by (simp add: message_words_def t)
qed

lemma pad_word: "(0x00800000 :: u32) = drop_bit 8 0x80000000"
  by simp

lemma top_byte: "p AND 0x00ffffff = 0 \<Longrightarrow> push_bit 24 (drop_bit 24 p) = (p :: u32)"
proof -
  assume "p AND 0x00ffffff = 0"
  then have "p AND mask 24 = 0" by (simp add: mask_eq_exp_minus_1)
  then have "unat p mod 2 ^ 24 = 0" using unat_and_mask [of p 24] by simp
  then have "unat p = unat p div 2 ^ 24 * 2 ^ 24" by (metis div_mult_mod_eq add.right_neutral)
  moreover have "unat (push_bit 24 (drop_bit 24 p)) = unat p div 2 ^ 24 * 2 ^ 24"
    using unat_u32_less [of p] by (simp add: push_bit_eq_mult unat_word_ariths unat_drop_bit mult.commute)
  ultimately show ?thesis by (simp add: word_unat_eq_iff)
qed

text \<open>A block of byte-shifted words between a leading byte and a last byte.\<close>

lemma shifted_bytes:
  fixes a b c d e f g h :: u32
  shows "words_bytes [push_bit 24 x OR drop_bit 8 a, push_bit 24 a OR drop_bit 8 b, push_bit 24 b OR drop_bit 8 c,
      push_bit 24 c OR drop_bit 8 d, push_bit 24 d OR drop_bit 8 e, push_bit 24 e OR drop_bit 8 f,
      push_bit 24 f OR drop_bit 8 g, push_bit 24 g OR drop_bit 8 h] @ [ucast h] = ucast x # words_bytes [a, b, c, d, e, f, g, h]"
  unfolding words_bytes_simps be_shifted unfolding u32_be by simp

lemma challenge_words_sha256:
  assumes "length r = 8" and "length public = 9" and "length message = 8" and "public ! 8 AND 0x00ffffff = 0"
  shows "words_bytes (challenge_words r public message) = sha256 (words_bytes r @ take 33 (words_bytes public) @ words_bytes message)"
proof -
  obtain r0 r1 r2 r3 r4 r5 r6 r7 where r: "r = [r0, r1, r2, r3, r4, r5, r6, r7]" by (rule length_8_cases [OF assms(1)])
  obtain a b c d e f g h where m: "message = [a, b, c, d, e, f, g, h]" by (rule length_8_cases [OF assms(3)])
  obtain q p8 where q: "public = q @ [p8]" "length q = 8" using assms(2) by (cases public rule: rev_cases) auto
  obtain p0 p1 p2 p3 p4 p5 p6 p7 where "q = [p0, p1, p2, p3, p4, p5, p6, p7]" by (rule length_8_cases [OF q(2)])
  with q(1) have p: "public = [p0, p1, p2, p3, p4, p5, p6, p7, p8]" by simp
  define x where "x = drop_bit 24 p8"
  have p8: "p8 = push_bit 24 x" using assms(4) top_byte [of p8] by (simp add: p x_def)
  have t33: "take 33 (words_bytes public) = words_bytes [p0, p1, p2, p3, p4, p5, p6, p7] @ [ucast x]"
    unfolding p words_bytes_simps u32_be by (simp add: x_def)
  have pad: "sha_padding 97 = 0x80 # 0 # 0 # words_bytes [0, 0, 0, 0, 0, 0, 97 * 8]"
    unfolding sha_padding_def by (simp add: u32_be) code_simp
  define B1 where "B1 = [r0, r1, r2, r3, r4, r5, r6, r7, p0, p1, p2, p3, p4, p5, p6, p7]"
  define B2 where "B2 = [push_bit 24 x OR drop_bit 8 a, push_bit 24 a OR drop_bit 8 b, push_bit 24 b OR drop_bit 8 c,
      push_bit 24 c OR drop_bit 8 d, push_bit 24 d OR drop_bit 8 e, push_bit 24 e OR drop_bit 8 f,
      push_bit 24 f OR drop_bit 8 g, push_bit 24 g OR drop_bit 8 h]"
  have last: "to_be_bytes (push_bit 24 h OR 0x00800000 :: u32) = [ucast h, 0x80, 0, 0]"
    unfolding pad_word be_shifted by simp
  have "sha256 (words_bytes r @ take 33 (words_bytes public) @ words_bytes message)
      = words_bytes (compress_all INITIAL [B1, B2 @ [push_bit 24 h OR 0x00800000, 0, 0, 0, 0, 0, 0, 97 * 8]])"
  proof (rule sha256_blocks)
    have "(words_bytes r @ take 33 (words_bytes public) @ words_bytes message) @ sha_padding 97
      = words_bytes B1 @ (ucast x # words_bytes [a, b, c, d, e, f, g, h]) @ sha_padding 97"
      unfolding t33 r m B1_def by simp
    also have "\<dots> = words_bytes B1 @ words_bytes B2 @ [ucast h] @ sha_padding 97"
      unfolding shifted_bytes [symmetric] B2_def by simp
    also have "\<dots> = words_bytes (concat [B1, B2 @ [push_bit 24 h OR 0x00800000, 0, 0, 0, 0, 0, 0, 97 * 8]])"
      unfolding pad by (simp add: last be_zero)
    finally show "(words_bytes r @ take 33 (words_bytes public) @ words_bytes message) @
        sha_padding (length (words_bytes r @ take 33 (words_bytes public) @ words_bytes message)) = \<dots>"
      using assms by simp
  qed (simp add: B1_def B2_def)
  then show ?thesis by (simp add: challenge_words_def r p m p8 B1_def B2_def)
qed

section \<open>HMAC\<close>

text \<open>HMAC-SHA256 of a 32-byte key by RFC 2104, and the word forms of the three messages of the chain.\<close>

definition hmac_sha256 :: "bytes \<Rightarrow> bytes \<Rightarrow> bytes" where
  "hmac_sha256 key data =
     sha256 (map (\<lambda>b. b XOR 0x5c) (key @ replicate 32 0) @ sha256 (map (\<lambda>b. b XOR 0x36) (key @ replicate 32 0) @ data))"

definition inner_key :: "limbs \<Rightarrow> limbs" where
  "inner_key key = compress INITIAL (key_block key 0x36363636)"

definition outer_key :: "limbs \<Rightarrow> limbs" where
  "outer_key key = compress INITIAL (key_block key 0x5c5c5c5c)"

definition hmac_words :: "limbs \<Rightarrow> limbs list \<Rightarrow> limbs" where
  "hmac_words key blocks = compress (outer_key key) (padded32 (compress_all (inner_key key) blocks))"

lemma xor_bytes:
  fixes x pad :: u32
  shows "to_be_bytes (x XOR pad) = map2 (XOR) (to_be_bytes x) (to_be_bytes pad)"
  by (simp add: u32_be unsigned_xor_eq)

lemma key_block_bytes:
  assumes "length key = 8" and "to_be_bytes pad = [c, c, c, c]"
  shows "words_bytes (key_block key pad) = map (\<lambda>b. b XOR c) (words_bytes key @ replicate 32 0)"
proof -
  obtain a b c' d e f g h where k: "key = [a, b, c', d, e, f, g, h]" by (rule length_8_cases [OF assms(1)])
  have x: "to_be_bytes (x XOR pad) = map (\<lambda>b. b XOR c) (to_be_bytes x)" for x
    unfolding xor_bytes assms(2) by (simp add: u32_be)
  have p: "to_be_bytes pad = map (\<lambda>b. b XOR c) (to_be_bytes (0 :: u32))" unfolding assms(2) be_zero by simp
  have r: "replicate 32 (0 :: u8) = words_bytes [0, 0, 0, 0, 0, 0, 0, 0]"
    by (simp add: be_zero numeral_eq_Suc)
  show ?thesis unfolding key_block_def r by (simp add: k x p)
qed

lemma length_key_block [simp]: "length (key_block key pad) = 16"
  by (simp add: key_block_def)

lemma padded32_bytes: "length m = 8 \<Longrightarrow> words_bytes (padded32 m) = words_bytes m @ sha_padding 96"
proof -
  assume "length m = 8"
  then obtain a b c d e f g h where m: "m = [a, b, c, d, e, f, g, h]" by (rule length_8_cases)
  have "sha_padding 96 = words_bytes [0x80000000, 0, 0, 0, 0, 0, 0, (64 + 32) * 8]"
    unfolding sha_padding_def by (simp add: u32_be) code_simp
  then show ?thesis by (simp add: padded32_def m)
qed

lemma length_padded32 [simp]: "length (padded32 m) = 16"
  by (simp add: padded32_def)

text \<open>A key block, data and their padding make the blocks of the inner hash; the outer hash takes its digest.\<close>

lemma hmac_words_bytes:
  assumes "length key = 8" and "data @ sha_padding (64 + length data) = words_bytes (concat blocks)"
    and "\<forall>b\<in>set blocks. length b = 16"
  shows "words_bytes (hmac_words key blocks) = hmac_sha256 (words_bytes key) data"
proof -
  define ik where "ik = map (\<lambda>b. b XOR 0x36) (words_bytes key @ replicate 32 0)"
  define ok where "ok = map (\<lambda>b. b XOR 0x5c) (words_bytes key @ replicate 32 0)"
  define h where "h = compress_all (inner_key key) blocks"
  have kb: "words_bytes (key_block key 0x36363636) = ik" "words_bytes (key_block key 0x5c5c5c5c) = ok"
    unfolding ik_def ok_def by (rule key_block_bytes [OF assms(1)], simp add: u32_be)+
  have l: "length ik = 64" "length ok = 64" using assms(1) by (simp_all add: ik_def ok_def)
  have lh: "length h = 8" unfolding h_def inner_key_def by (simp add: length_compress_all assms(3) length_compress)
  have "sha256 (ik @ data) = words_bytes (compress_all INITIAL (key_block key 0x36363636 # blocks))"
    by (rule sha256_blocks) (use assms l in \<open>simp_all add: kb\<close>)
  then have i: "sha256 (ik @ data) = words_bytes h" by (simp add: h_def inner_key_def)
  have "sha256 (ok @ words_bytes h) = words_bytes (compress_all INITIAL [key_block key 0x5c5c5c5c, padded32 h])"
    by (rule sha256_blocks) (use l lh in \<open>simp_all add: kb padded32_bytes\<close>)
  then show ?thesis
    unfolding hmac_sha256_def ik_def [symmetric] ok_def [symmetric] i hmac_words_def outer_key_def h_def [symmetric] by simp
qed

lemma length_hmac_words: "\<forall>b\<in>set blocks. length b = 16 \<Longrightarrow> length (hmac_words key blocks) = 8"
  by (simp add: hmac_words_def outer_key_def length_compress)

lemma hmac_32:
  assumes "length key = 8" and "length v = 8"
  shows "words_bytes (hmac_words key [padded32 v]) = hmac_sha256 (words_bytes key) (words_bytes v)"
  by (rule hmac_words_bytes [OF assms(1)]) (simp_all add: assms padded32_bytes)

lemma length_retry_block [simp]: "length (retry_block v) = 16"
  by (simp add: retry_block_def)

lemma hmac_retry:
  assumes "length key = 8" and "length v = 8"
  shows "words_bytes (hmac_words key [retry_block v]) = hmac_sha256 (words_bytes key) (words_bytes v @ [0])"
proof (rule hmac_words_bytes [OF assms(1)])
  obtain a b c d e f g h where v: "v = [a, b, c, d, e, f, g, h]" by (rule length_8_cases [OF assms(2)])
  have p: "sha_padding 97 = 0x80 # 0 # 0 # words_bytes [0, 0, 0, 0, 0, 0, (64 + 33) * 8]"
    unfolding sha_padding_def by (simp add: u32_be) code_simp
  have w: "to_be_bytes (0x00800000 :: u32) = [0, 0x80, 0, 0]" by (simp add: u32_be)
  have "words_bytes (retry_block v) = words_bytes v @ 0 # sha_padding 97"
    unfolding p by (simp add: retry_block_def v w)
  then show "(words_bytes v @ [0]) @ sha_padding (64 + length (words_bytes v @ [0])) = words_bytes (concat [retry_block v])"
    using assms(2) by simp
qed simp

definition TAG_bytes :: bytes where
  "TAG_bytes = [0x53, 0x63, 0x68, 0x6e, 0x6f, 0x72, 0x72, 0x2b, 0x53, 0x48, 0x41, 0x32, 0x35, 0x36, 0x20, 0x20]"

lemma data_blocks_bytes:
  assumes "length v = 8" and "length x = 8" and "length m = 8"
  shows "words_bytes (first_block v separator x) @ words_bytes (second_block (x ! 7) m)
    = words_bytes v @ [ucast separator] @ words_bytes x @ words_bytes m @ TAG_bytes @ sha_padding 177"
proof -
  obtain v0 v1 v2 v3 v4 v5 v6 v7 where v: "v = [v0, v1, v2, v3, v4, v5, v6, v7]" by (rule length_8_cases [OF assms(1)])
  obtain x0 x1 x2 x3 x4 x5 x6 x7 where x: "x = [x0, x1, x2, x3, x4, x5, x6, x7]" by (rule length_8_cases [OF assms(2)])
  obtain m0 m1 m2 m3 m4 m5 m6 m7 where m: "m = [m0, m1, m2, m3, m4, m5, m6, m7]" by (rule length_8_cases [OF assms(3)])
  define F where "F = words_bytes [push_bit 24 separator OR drop_bit 8 x0, push_bit 24 x0 OR drop_bit 8 x1, push_bit 24 x1 OR drop_bit 8 x2,
      push_bit 24 x2 OR drop_bit 8 x3, push_bit 24 x3 OR drop_bit 8 x4, push_bit 24 x4 OR drop_bit 8 x5,
      push_bit 24 x5 OR drop_bit 8 x6, push_bit 24 x6 OR drop_bit 8 x7]"
  define S where "S = words_bytes [push_bit 24 x7 OR drop_bit 8 m0, push_bit 24 m0 OR drop_bit 8 m1, push_bit 24 m1 OR drop_bit 8 m2,
      push_bit 24 m2 OR drop_bit 8 m3, push_bit 24 m3 OR drop_bit 8 m4, push_bit 24 m4 OR drop_bit 8 m5,
      push_bit 24 m5 OR drop_bit 8 m6, push_bit 24 m6 OR drop_bit 8 m7]"
  have F: "F @ [ucast x7] = ucast separator # words_bytes x" unfolding F_def x by (rule shifted_bytes)
  have S: "S @ [ucast m7] = ucast x7 # words_bytes m" unfolding S_def m by (rule shifted_bytes)
  define T where "T = to_be_bytes (push_bit 24 m7 OR drop_bit 8 (TAG ! 0)) @ words_bytes
     [push_bit 24 (TAG ! 0) OR drop_bit 8 (TAG ! 1), push_bit 24 (TAG ! 1) OR drop_bit 8 (TAG ! 2),
      push_bit 24 (TAG ! 2) OR drop_bit 8 (TAG ! 3), push_bit 24 (TAG ! 3) OR 0x00800000, 0, 0, (64 + 113) * 8]"
  have pad: "sha_padding 177 = 0x80 # 0 # 0 # 0 # 0 # 0 # 0 # to_be_bytes (177 * 8 :: u64)"
    by code_simp
  have "T = ucast m7 # TAG_bytes @ sha_padding 177"
    unfolding T_def pad words_bytes_simps pad_word be_shifted
    by (simp add: TAG_def TAG_bytes_def u32_be) code_simp
  moreover have "words_bytes (first_block v separator x) = words_bytes v @ F" by (simp add: first_block_def F_def v x)
  moreover have "words_bytes (second_block (x ! 7) m) = S @ T" by (simp add: second_block_def S_def T_def x m)
  ultimately show ?thesis using S F by (simp add: append_assoc [symmetric] del: append_assoc) (metis append_Cons append_assoc append_Nil)
qed

lemma hmac_data:
  assumes "length key = 8" and "length v = 8" and "length x = 8" and "length m = 8"
  shows "words_bytes (hmac_words key [first_block v separator x, second_block (x ! 7) m])
    = hmac_sha256 (words_bytes key) (words_bytes v @ [ucast separator] @ words_bytes x @ words_bytes m @ TAG_bytes)"
  by (rule hmac_words_bytes [OF assms(1)])
    (use assms data_blocks_bytes [OF assms(2-4), of separator] in \<open>simp_all add: TAG_bytes_def first_block_def second_block_def\<close>)

section \<open>The table runs the chain\<close>

lemmas rfc_step_simps = rfc_input_def rfc_store_def rfc_next_def

text \<open>Setting up a key and running \<open>V\<close> through it takes four steps, at three places of the table.\<close>

lemma rfc_key_steps:
  assumes "(step, next) \<in> {(2, 6), (9, 13), (17, 13)}"
  shows "rfc_loop W secret tail (n + 4)
      \<lparr>rs_forced = f, rs_inner = i, rs_outer = w, rs_key = key, rs_v = v, rs_t = t, rs_step = step\<rparr>
    = rfc_loop W secret tail n
      \<lparr>rs_forced = f, rs_inner = inner_key key, rs_outer = outer_key key, rs_key = key, rs_v = hmac_words key [padded32 v],
       rs_t = compress (inner_key key) (padded32 v), rs_step = next\<rparr>"
proof -
  have s: "n + 4 = Suc (Suc (Suc (Suc n)))" by simp
  consider "step = 2" "next = 6" | "step = 9" "next = 13" | "step = 17" "next = 13" using assms by blast
  then show ?thesis unfolding s
    by cases (simp_all add: rfc_step_simps hmac_words_def inner_key_def [symmetric] outer_key_def [symmetric])
qed

lemma rfc_first_key:
  "rfc_loop W secret tail (n + 2)
      \<lparr>rs_forced = f, rs_inner = i, rs_outer = w, rs_key = k, rs_v = v, rs_t = t, rs_step = 0\<rparr>
    = rfc_loop W secret tail n
      \<lparr>rs_forced = f, rs_inner = i, rs_outer = w, rs_key = compress w (padded32 (compress i tail)), rs_v = v,
       rs_t = compress i tail, rs_step = 2\<rparr>"
  by (simp add: rfc_step_simps numeral_2_eq_2)

lemma rfc_second_key:
  "rfc_loop W secret tail (n + 3)
      \<lparr>rs_forced = f, rs_inner = inner_key key, rs_outer = outer_key key, rs_key = k, rs_v = v, rs_t = t, rs_step = 6\<rparr>
    = rfc_loop W secret tail n
      \<lparr>rs_forced = f, rs_inner = inner_key key, rs_outer = outer_key key, rs_key = hmac_words key [first_block v 1 secret, tail], rs_v = v,
       rs_t = compress (compress (inner_key key) (first_block v 1 secret)) tail, rs_step = 9\<rparr>"
proof -
  have s: "n + 3 = Suc (Suc (Suc n))" by simp
  show ?thesis unfolding s by (simp add: rfc_step_simps hmac_words_def)
qed

lemma rfc_start:
  fixes W :: "'w wide_ops" and secret tail :: limbs
  defines "zeros \<equiv> replicate 8 0" and "ones \<equiv> replicate 8 0x01010101"
  defines "K1 \<equiv> hmac_words zeros [first_block ones 0 secret, tail]"
  defines "V1 \<equiv> hmac_words K1 [padded32 ones]"
  defines "K2 \<equiv> hmac_words K1 [first_block V1 1 secret, tail]"
  defines "V2 \<equiv> hmac_words K2 [padded32 V1]"
  shows "rfc_loop W secret tail (n + 13)
      \<lparr>rs_forced = f, rs_inner = fst (rfc6979_midstates secret), rs_outer = snd (rfc6979_midstates secret), rs_key = k,
       rs_v = ones, rs_t = t, rs_step = 0\<rparr>
    = rfc_loop W secret tail n \<lparr>rs_forced = f, rs_inner = inner_key K2, rs_outer = outer_key K2, rs_key = K2,
       rs_v = V2, rs_t = compress (inner_key K2) (padded32 V1), rs_step = 13\<rparr>"
proof -
  have m: "rfc6979_midstates secret = (compress (inner_key zeros) (first_block ones 0 secret), outer_key zeros)"
    by (simp add: rfc6979_midstates_def Let_def inner_key_def outer_key_def zeros_def ones_def)
  have k1: "K1 = compress (outer_key zeros) (padded32 (compress (compress (inner_key zeros) (first_block ones 0 secret)) tail))"
    by (simp add: K1_def hmac_words_def)
  have s: "n + 13 = n + 4 + 3 + 4 + 2" by simp
  have p1: "(2 :: nat, 6 :: nat) \<in> {(2, 6), (9, 13), (17, 13)}" and p2: "(9 :: nat, 13 :: nat) \<in> {(2, 6), (9, 13), (17, 13)}" by simp_all
  show ?thesis
    unfolding s m fst_conv snd_conv
    apply (subst rfc_first_key)
    apply (subst k1 [symmetric])
    apply (subst rfc_key_steps [OF p1])
    apply (subst V1_def [symmetric])
    apply (subst rfc_second_key)
    apply (subst K2_def [symmetric])
    apply (subst rfc_key_steps [OF p2])
    apply (simp only: V2_def)
    done
qed

definition accepted :: "'w wide_ops \<Rightarrow> limbs \<Rightarrow> bool" where
  "accepted W v \<longleftrightarrow> snd (subtract W (reversed v) N) \<noteq> 0 \<and> \<not> is_zero v"

lemma rfc_candidate:
  fixes W :: "'w wide_ops" and K v :: limbs
  defines "C \<equiv> hmac_words K [padded32 v]"
  defines "K' \<equiv> hmac_words K [retry_block C]"
  assumes "accepted W C"
  shows "rfc_loop W secret tail (n + 2)
      \<lparr>rs_forced = 0, rs_inner = inner_key K, rs_outer = outer_key K, rs_key = K, rs_v = v, rs_t = t, rs_step = 13\<rparr> = Some C"
proof -
  have s: "n + 2 = Suc (Suc n)" by simp
  show ?thesis using assms(3) unfolding s
    by (simp add: rfc_input_def rfc_store_def rfc_next_def C_def hmac_words_def accepted_def)
qed

lemma rfc_retry:
  fixes W :: "'w wide_ops" and K v :: limbs
  defines "C \<equiv> hmac_words K [padded32 v]"
  defines "K' \<equiv> hmac_words K [retry_block C]"
  assumes "\<not> accepted W C"
  shows "rfc_loop W secret tail (n + 8)
      \<lparr>rs_forced = 0, rs_inner = inner_key K, rs_outer = outer_key K, rs_key = K, rs_v = v, rs_t = t, rs_step = 13\<rparr>
    = rfc_loop W secret tail n
      \<lparr>rs_forced = 0, rs_inner = inner_key K', rs_outer = outer_key K', rs_key = K', rs_v = hmac_words K' [padded32 C],
       rs_t = compress (inner_key K') (padded32 C), rs_step = 13\<rparr>"
proof -
  define m where "m = n + 4"
  have s: "n + 8 = Suc (Suc (Suc (Suc m)))" by (simp add: m_def)
  have c: "compress (outer_key K) (padded32 (compress (inner_key K) (padded32 v))) = C"
    "compress (outer_key K) (padded32 (compress (inner_key K) (retry_block C))) = K'"
    by (simp_all add: C_def K'_def hmac_words_def)
  have a: "\<not> (snd (subtract W (reversed C) N) \<noteq> 0 \<and> \<not> is_zero C)" using assms(3) by (simp add: accepted_def)
  have p3: "(17 :: nat, 13 :: nat) \<in> {(2, 6), (9, 13), (17, 13)}" by simp
  have "rfc_loop W secret tail (n + 8)
      \<lparr>rs_forced = 0, rs_inner = inner_key K, rs_outer = outer_key K, rs_key = K, rs_v = v, rs_t = t, rs_step = 13\<rparr>
    = rfc_loop W secret tail m
      \<lparr>rs_forced = 0, rs_inner = inner_key K, rs_outer = outer_key K, rs_key = K', rs_v = C,
         rs_t = compress (inner_key K) (retry_block C), rs_step = 17\<rparr>"
    unfolding s using a by (auto simp: rfc_step_simps c)
  then show ?thesis unfolding m_def by (simp only: rfc_key_steps [OF p3])
qed

section \<open>Scalars of bytes and words\<close>

lemma reversed_rev: "length v = 8 \<Longrightarrow> reversed v = rev v"
  by (erule length_8_cases) (simp add: reversed_def)

lemma be_words_words: "length v = 8 \<Longrightarrow> be_words (words_bytes v) = reversed v"
proof -
  assume l: "length v = 8"
  have w: "from_be_bytes [words_bytes v ! (i * 4), words_bytes v ! (i * 4 + 1), words_bytes v ! (i * 4 + 2), words_bytes v ! (i * 4 + 3)] = v ! i"
    if "i < 8" for i
  proof -
    have "subrange (words_bytes v) (i * 4) (i * 4 + 4) = to_be_bytes (v ! i)"
      using that l subrange_concat [of "to_be_bytes :: u32 \<Rightarrow> bytes" 4 i v] by (simp add: words_bytes_def)
    moreover have "i * 4 + 4 \<le> length (words_bytes v)" using that l by simp
    moreover have "from_be_bytes (to_be_bytes (v ! i)) = v ! i" by (simp add: from_to_be_bytes)
    ultimately show ?thesis using subrange_4 [of i "words_bytes v"] by metis
  qed
  have upt: "[0..<8] = [0, 1, 2, 3, 4, 5, 6, 7 :: nat]" by (simp add: upt_rec)
  show ?thesis
    using w [of 0] w [of 1] w [of 2] w [of 3] w [of 4] w [of 5] w [of 6] w [of 7]
    unfolding be_words_def upt reversed_def Let_def by simp
qed

lemma scalar_to_be_words: "scalar_to_be_bytes a = words_bytes (rev a)"
  by (simp add: scalar_to_be_bytes_def field_to_be_bytes_def words_bytes_def)

lemma be_ones: "to_be_bytes (0x01010101 :: u32) = [1, 1, 1, 1]"
  by (simp add: u32_be)

lemma replicate_words:
  "replicate 32 (0 :: u8) = words_bytes (replicate 8 0)" "replicate 32 (1 :: u8) = words_bytes (replicate 8 0x01010101)"
proof -
  have r: "replicate 32 x = concat (replicate 8 [x, x, x, x])" for x :: u8
    by (simp only: numeral_eq_Suc pred_numeral_simps arith_simps BitM.simps replicate.simps concat.simps append.simps)
  have w: "words_bytes (replicate 8 y) = concat (replicate 8 (to_be_bytes y))" for y by (simp add: words_bytes_def)
  show "replicate 32 (0 :: u8) = words_bytes (replicate 8 0)" "replicate 32 (1 :: u8) = words_bytes (replicate 8 0x01010101)"
    by (simp_all only: r w be_zero be_ones)
qed

lemma le_nat_rev_0: "le_nat (rev v) = 0 \<longleftrightarrow> le_nat v = 0"
  by (simp add: le_nat_eq_0_iff)

text \<open>The digits of a scalar: sixteen windows of sixteen bits.\<close>

lemma window_digit_value:
  assumes "length k = 8"
  shows "(\<Sum>window<16. window_digit k window * 2 ^ (16 * window)) = le_nat k"
proof -
  obtain a b c d e f g h where k: "k = [a, b, c, d, e, f, g, h]" by (rule length_8_cases [OF assms])
  have w: "unat (x AND 0xffff) + 2 ^ 16 * unat (drop_bit 16 x AND 0xffff) = unat x" for x :: u32
    using unat_u32_less [of x] by (simp add: unat_and_ffff unat_drop_bit)
  have s: "{..<16} = {0, 1, 2, 3, 4, 5, 6, 7, 8, 9, 10, 11, 12, 13, 14, 15 :: nat}"
    by (simp add: lessThan_Suc eval_nat_numeral lessThan_nat_numeral lessThan_0 insert_commute)
  show ?thesis
    using w [of a] w [of b] w [of c] w [of d] w [of e] w [of f] w [of g] w [of h]
    unfolding s k window_digit_def by simp
qed

context wide_arith
begin

lemma scalar_from_be_words_correct:
  assumes "length v = 8"
  shows "scalar_from_be_words W v = scalar_from_be_bytes W (words_bytes v)"
    and "scalar (scalar_from_be_words W v)" and "le_nat (scalar_from_be_words W v) = le_nat (rev v) mod n_nat"
proof -
  have e: "scalar_from_be_words W v = reduce_once W N (reversed v)"
    by (simp add: scalar_from_be_words_def reduce_once_def Let_def)
  then show "scalar_from_be_words W v = scalar_from_be_bytes W (words_bytes v)"
    by (simp add: scalar_from_be_bytes_def be_words_words assms)
  show "scalar (scalar_from_be_words W v)" "le_nat (scalar_from_be_words W v) = le_nat (rev v) mod n_nat"
    unfolding e using reduce_once_N_correct [of "reversed v"] assms by (simp_all add: reversed_rev)
qed

lemma accepted_iff:
  assumes "length v = 8"
  shows "accepted W v \<longleftrightarrow> 0 < le_nat (rev v) \<and> le_nat (rev v) < n_nat"
proof -
  obtain d b where s: "subtract W (reversed v) N = (d, b)" by fastforce
  have "length (reversed v) = 8" by (simp add: reversed_def)
  note S = subtract_correct [OF this length_N s]
  have "is_zero v \<longleftrightarrow> le_nat (rev v) = 0" using assms by (simp add: is_zero_iff le_nat_rev_0)
  then show ?thesis using S(2) assms unfolding accepted_def s by (auto simp: le_nat_N reversed_rev)
qed

lemma accepted_bytes:
  assumes "length v = 8"
  defines "s \<equiv> scalar_from_be_bytes W (words_bytes v)"
  shows "s \<noteq> scalar_ZERO \<and> scalar_to_be_bytes s = words_bytes v \<longleftrightarrow> accepted W v"
proof -
  note c = scalar_from_be_words_correct [OF assms(1), folded s_def]
  have sc: "length s = 8" "le_nat s = le_nat (rev v) mod n_nat" "le_nat s < n_nat" using c by (simp_all add: scalar_def s_def)
  have "s = scalar_ZERO \<longleftrightarrow> le_nat s = 0"
    using sc(1) by (auto simp: scalar_ZERO_def intro!: le_nat_inj)
  moreover have "scalar_to_be_bytes s = words_bytes v \<longleftrightarrow> s = rev v"
    using sc(1) assms(1) words_bytes_inj [of "rev s" v] by (auto simp: scalar_to_be_words)
  moreover have "s = rev v \<longleftrightarrow> le_nat s = le_nat (rev v)" using sc(1) assms(1) by (auto intro!: le_nat_inj)
  moreover have "le_nat (rev v) mod n_nat = le_nat (rev v) \<longleftrightarrow> le_nat (rev v) < n_nat" by (metis mod_less sc(2,3))
  ultimately show ?thesis unfolding accepted_iff [OF assms(1)] using sc(2) by auto
qed

text \<open>From a candidate on, eight steps of the table are one pass of the byte-wise loop.\<close>

lemma rfc_loop_nonce_loop:
  assumes "length key = 8" and "length v = 8"
  shows "map_option words_bytes (rfc_loop W secret tail (8 * n)
      \<lparr>rs_forced = 0, rs_inner = inner_key key, rs_outer = outer_key key, rs_key = key, rs_v = v, rs_t = t, rs_step = 13\<rparr>)
    = nonce_loop W hmac_sha256 n (words_bytes key) (words_bytes v)"
  using assms
proof (induction n arbitrary: key v t)
  case (Suc n)
  define C where "C = hmac_words key [padded32 v]"
  define key' where "key' = hmac_words key [retry_block C]"
  have lC: "length C = 8" "length key' = 8" by (simp_all add: C_def key'_def length_hmac_words)
  have c: "hmac_sha256 (words_bytes key) (words_bytes v) = words_bytes C"
    "hmac_sha256 (words_bytes key) (words_bytes C @ [0]) = words_bytes key'"
    "hmac_sha256 (words_bytes key') (words_bytes C) = words_bytes (hmac_words key' [padded32 C])"
    using hmac_32 [OF Suc.prems] hmac_retry [OF Suc.prems(1) lC(1)] hmac_32 [OF lC(2,1)] by (simp_all add: C_def key'_def)
  have s: "8 * Suc n = 8 * n + 8" "8 * Suc n = (8 * n + 6) + 2" by simp_all
  show ?case
  proof (cases "accepted W C")
    case True
    then have "nonce_loop W hmac_sha256 (Suc n) (words_bytes key) (words_bytes v) = Some (words_bytes C)"
      using accepted_bytes [OF lC(1)] by (simp add: c)
    moreover note rfc_candidate [OF True [unfolded C_def], of secret tail "8 * n + 6" t]
    ultimately show ?thesis unfolding s(2) by (simp only: C_def option.map)
  next
    case False
    then have "nonce_loop W hmac_sha256 (Suc n) (words_bytes key) (words_bytes v)
        = nonce_loop W hmac_sha256 n (words_bytes key') (words_bytes (hmac_words key' [padded32 C]))"
      using accepted_bytes [OF lC(1)] unfolding nonce_loop.simps Let_def c by (simp only: if_False)
    moreover note rfc_retry [OF False [unfolded C_def], of secret tail "8 * n" t, folded C_def, folded key'_def]
    moreover have "length (hmac_words key' [padded32 C]) = 8" by (simp add: length_hmac_words)
    ultimately show ?thesis unfolding s(1) using Suc.IH [OF lC(2)] by simp
  qed
qed simp

lemma rfc6979_refines_bch_rfc6979:
  assumes "length secret = 8" and "length message = 8"
  shows "map_option words_bytes (rfc6979_words W (8 * n + 13) (rfc6979_midstates secret) secret message)
    = bch_rfc6979 W hmac_sha256 n (words_bytes secret) (words_bytes message)"
proof -
  define h where "h = reversed (scalar_from_be_words W message)"
  have hl: "length h = 8" by (simp add: h_def reversed_def)
  have hb: "scalar_to_be_bytes (scalar_from_be_bytes W (words_bytes message)) = words_bytes h"
    using scalar_from_be_words_correct [OF assms(2)] by (simp add: h_def scalar_to_be_words reversed_rev scalar_def)
  define tail where "tail = second_block (secret ! 7) h"
  define zeros ones where "zeros = (replicate 8 0 :: limbs)" "ones = (replicate 8 0x01010101 :: limbs)"
  have lz: "length zeros = 8" "length ones = 8" by (simp_all add: zeros_ones_def)
  define K1 where "K1 = hmac_words zeros [first_block ones 0 secret, tail]"
  define V1 where "V1 = hmac_words K1 [padded32 ones]"
  define K2 where "K2 = hmac_words K1 [first_block V1 1 secret, tail]"
  define V2 where "V2 = hmac_words K2 [padded32 V1]"
  have l: "length K1 = 8" "length V1 = 8" "length K2 = 8" "length V2 = 8"
    by (simp_all add: K1_def V1_def K2_def V2_def length_hmac_words first_block_def tail_def second_block_def)
  define rest where "rest = words_bytes secret @ words_bytes h @ TAG_bytes"
  have z: "replicate 32 0 = words_bytes zeros" "replicate 32 1 = words_bytes ones"
    by (simp_all only: replicate_words zeros_ones_def)
  have r0: "separator_round hmac_sha256 rest 0 (words_bytes zeros, words_bytes ones) = (words_bytes K1, words_bytes V1)"
    using hmac_data [OF lz assms(1) hl, of 0] hmac_32 [OF l(1) lz(2)]
    by (simp add: separator_round_def Let_def rest_def K1_def V1_def tail_def)
  have r1: "separator_round hmac_sha256 rest 1 (words_bytes K1, words_bytes V1) = (words_bytes K2, words_bytes V2)"
    using hmac_data [OF l(1,2) assms(1) hl, of 1] hmac_32 [OF l(3,2)]
    by (simp add: separator_round_def Let_def rest_def K2_def V2_def tail_def)
  have "bch_rfc6979 W hmac_sha256 n (words_bytes secret) (words_bytes message)
      = nonce_loop W hmac_sha256 n (words_bytes K2) (words_bytes V2)"
    unfolding bch_rfc6979_def hb z by (simp add: r0 r1 rest_def [unfolded TAG_bytes_def, symmetric])
  moreover have "rfc6979_words W (8 * n + 13) (rfc6979_midstates secret) secret message
      = rfc_loop W secret tail (8 * n) \<lparr>rs_forced = 0, rs_inner = inner_key K2, rs_outer = outer_key K2, rs_key = K2,
         rs_v = V2, rs_t = compress (inner_key K2) (padded32 V1), rs_step = 13\<rparr>"
    unfolding rfc6979_words_def rfc6979_words_retrying_def Let_def h_def [symmetric] tail_def [symmetric]
      zeros_ones_def [symmetric]
    using rfc_start [of W secret tail "8 * n" 0 zeros zeros] by (simp only: zeros_ones_def K1_def V1_def K2_def V2_def)
  ultimately show ?thesis using rfc_loop_nonce_loop [OF l(3,4)] by simp
qed

end

section \<open>Signatures\<close>

lemma R2_value: "le_nat R2 = 2 ^ 512 mod n_nat" "length R2 = 8"
  by (simp_all add: R2_def n_nat_def)

text \<open>A second Montgomery product, with \<open>2^512\<close>, takes the factor of the first one away.\<close>

lemma mod_sum_prod: "(a mod n + b mod n mod n * d) mod n = (a + b * d) mod (n :: nat)"
proof -
  have "(b mod n * d) mod n = (b * d) mod n" by (simp add: mod_mult_left_eq)
  then show ?thesis by (metis mod_add_cong mod_mod_trivial)
qed

lemma square_pair_mod: "x * (i * i mod p) * z ^ 2 mod p = x * (z * i mod p) * (z * i mod p) mod (p :: nat)"
proof -
  have "x * (i * i mod p) * z ^ 2 mod p = x * (i * i) * z ^ 2 mod p" by (metis mod_mult_left_eq mod_mult_right_eq)
  also have "\<dots> = x * (z * i) * (z * i) mod p" by (simp add: power2_eq_square algebra_simps)
  also have "\<dots> = x * (z * i mod p) * (z * i mod p) mod p" by (metis mod_mult_left_eq mod_mult_right_eq)
  finally show ?thesis .
qed

lemma be_value: "le_nat (rev ws) = le_nat (rev (words_bytes ws))"
proof (induction ws rule: rev_induct)
  case (snoc w ws)
  have "le_nat (to_le_bytes w) = unat w" by (simp add: to_le_bytes_def le_nat_nat_le unat_u32_less [simplified])
  moreover have "rev (to_be_bytes w) = to_le_bytes w" by (simp add: to_be_bytes_def)
  ultimately show ?case using snoc by (simp add: le_nat_append le_nat_Cons_32)
qed simp

context wide_arith
begin

lemma montgomery_pair:
  assumes "scalar e" and "scalar d"
  shows "scalar (montgomery_mul W (montgomery_mul W e d) R2)"
    and "le_nat (montgomery_mul W (montgomery_mul W e d) R2) = le_nat e * le_nat d mod n_nat"
proof -
  have ld: "length d = 8" using assms(2) by (simp add: scalar_def)
  define t where "t = montgomery_mul W e d"
  define u where "u = montgomery_mul W t R2"
  note T = montgomery_mul_correct [OF assms(1) ld, folded t_def]
  note U = montgomery_mul_correct [OF T(1) R2_value(2), folded u_def]
  have p: "(2 :: nat) ^ 512 = 2 ^ 256 * 2 ^ 256" by simp
  have "2 ^ 256 * le_nat u mod n_nat = le_nat t * (2 ^ 256 * 2 ^ 256) mod n_nat"
    unfolding U(2) R2_value(1) p by (simp only: mod_mult_right_eq)
  also have "\<dots> = 2 ^ 256 * (2 ^ 256 * le_nat t mod n_nat) mod n_nat"
    by (simp only: mod_mult_right_eq mult_ac)
  also have "\<dots> = 2 ^ 256 * (le_nat e * le_nat d) mod n_nat"
    unfolding T(2) by (simp only: mod_mult_right_eq)
  finally have "le_nat u mod n_nat = le_nat e * le_nat d mod n_nat" by (rule mod_2_power_cancel)
  then show "scalar (montgomery_mul W (montgomery_mul W e d) R2)"
    "le_nat (montgomery_mul W (montgomery_mul W e d) R2) = le_nat e * le_nat d mod n_nat"
    using U(1) by (simp_all add: u_def t_def scalar_def)
qed

lemma length_challenge_words: "length (challenge_words r public message) = 8"
  by (simp add: challenge_words_def Let_def length_compress)

lemma signature_words_correct:
  assumes point: "canonical (pt_x point)" "canonical (pt_y point)" "canonical (pt_z point)" "coprime (le_nat (pt_z point)) p_nat"
    and scalars: "scalar k" "scalar secret"
    and lengths: "length public = 9" "length message = 8" "public ! 8 AND 0x00ffffff = 0"
  obtains r s is_square where "signature_words W point message k public secret = Some (r, s)"
    and "length r = 8" and "le_nat (rev r) < p_nat"
    and "le_nat (rev r) * le_nat (pt_z point) ^ 2 mod p_nat = le_nat (pt_x point)"
    and "is_square_binary W (mul_mod W (pt_y point) (pt_z point)) = Some is_square"
    and "length s = 8" and "le_nat (rev s) =
      ((if is_square then le_nat k else n_nat - le_nat k) +
       le_nat (rev (sha256 (words_bytes r @ take 33 (words_bytes public) @ words_bytes message))) * le_nat secret) mod n_nat"
proof -
  obtain i where i: "inverse_binary W (pt_z point) = Some i" "canonical i" "le_nat (pt_z point) * le_nat i mod p_nat = 1"
    using inverse_binary_total [OF point(3,4)] by blast
  have li: "length i = 8" using i(2) by (simp add: canonical_def)
  have lx: "length (pt_x point) = 8" "length (pt_y point) = 8" "length (pt_z point) = 8" using point by (simp_all add: canonical_def)
  note sq = square_correct [OF li]
  have lsq: "length (square W i) = 8" using sq(1) by (simp add: canonical_def)
  define a where "a = mul_mod W (pt_x point) (square W i)"
  note A = mul_mod_correct [OF lx(1) lsq, folded a_def]
  have la: "length a = 8" using A(1) by (simp add: canonical_def)
  note M = mul_mod_correct [OF lx(2,3)]
  obtain q where q: "is_square_binary W (mul_mod W (pt_y point) (pt_z point)) = Some q"
    using is_square_binary_total [OF M(1)] by blast
  define k' where "k' = (if q then k else negate W k)"
  define r where "r = reversed a"
  define e where "e = scalar_from_be_words W (challenge_words r public message)"
  define ed where "ed = montgomery_mul W (montgomery_mul W e secret) R2"
  have lr: "length r = 8" by (simp add: r_def reversed_def)
  note E = scalar_from_be_words_correct [OF length_challenge_words [of r public message], folded e_def]
  note D = montgomery_pair [OF E(2) scalars(2), folded ed_def]
  have k': "scalar k'" "le_nat k' mod n_nat = (if q then le_nat k else n_nat - le_nat k) mod n_nat"
    using scalars(1) negate_correct [OF scalars(1)] by (simp_all add: k'_def)
  note S = scalar_add_mod_correct [OF k'(1) D(1)]
  have ls: "length (scalar_add_mod W k' ed) = 8" using S(1) by (simp add: scalar_def)
  have "signature_words W point message k public secret = Some (r, reversed (scalar_add_mod W k' ed))"
    by (simp add: signature_words_def i(1) q Let_def k'_def r_def e_def ed_def a_def)
  moreover have "le_nat (rev r) = le_nat a" using la by (simp add: r_def reversed_rev)
  moreover have "le_nat a * le_nat (pt_z point) ^ 2 mod p_nat = le_nat (pt_x point)"
  proof -
    have "le_nat a * le_nat (pt_z point) ^ 2 mod p_nat
        = le_nat (pt_x point) * (le_nat i * le_nat i mod p_nat) * le_nat (pt_z point) ^ 2 mod p_nat"
      unfolding A(2) sq(2) by (simp only: mod_mult_left_eq)
    also have "\<dots> = le_nat (pt_x point) * (le_nat (pt_z point) * le_nat i mod p_nat) * (le_nat (pt_z point) * le_nat i mod p_nat) mod p_nat"
      by (rule square_pair_mod)
    also have "\<dots> = le_nat (pt_x point)" unfolding i(3) using point(1) by (simp add: canonical_def)
    finally show ?thesis .
  qed
  moreover have "le_nat (rev (reversed (scalar_add_mod W k' ed))) =
      ((if q then le_nat k else n_nat - le_nat k) +
       le_nat (rev (sha256 (words_bytes r @ take 33 (words_bytes public) @ words_bytes message))) * le_nat secret) mod n_nat"
  proof -
    have c: "le_nat (rev (challenge_words r public message)) = le_nat (rev (sha256 (words_bytes r @ take 33 (words_bytes public) @ words_bytes message)))"
      unfolding challenge_words_sha256 [OF lr lengths, symmetric] by (rule be_value)
    have "le_nat (rev (reversed (scalar_add_mod W k' ed))) = (le_nat k' + le_nat e * le_nat secret mod n_nat) mod n_nat"
      using S(2) D(2) ls by (simp add: reversed_rev)
    also have "\<dots> = (le_nat k' mod n_nat + (le_nat e mod n_nat) * le_nat secret) mod n_nat"
      using mod_sum_prod [of "le_nat k'" n_nat "le_nat e" "le_nat secret"] by (simp add: mod_add_right_eq)
    also have "\<dots> = ((if q then le_nat k else n_nat - le_nat k) mod n_nat + le_nat (rev (challenge_words r public message)) mod n_nat mod n_nat * le_nat secret) mod n_nat"
      unfolding k'(2) E(3) ..
    finally show ?thesis unfolding c mod_sum_prod .
  qed
  ultimately show ?thesis using that lr A(1) q ls by (simp add: canonical_def reversed_def)
qed

end

text \<open>Both word arithmetics give the same byte-wise nonce.\<close>

lemma scalar_from_be_bytes_builds: "scalar_from_be_bytes portable = scalar_from_be_bytes native_wide"
proof
  fix bs
  have "length (be_words bs) = 8" by (simp add: be_words_def)
  then show "scalar_from_be_bytes portable bs = scalar_from_be_bytes native_wide bs"
    using native.reduce_once_N_correct [of "be_words bs"] portable.reduce_once_N_correct [of "be_words bs"]
    by (auto simp: scalar_from_be_bytes_def scalar_def intro!: le_nat_inj)
qed

lemma nonce_loop_builds: "nonce_loop portable hmac n k v = nonce_loop native_wide hmac n k v"
  by (induction n arbitrary: k v) (simp_all add: scalar_from_be_bytes_builds Let_def)

lemma bch_rfc6979_builds: "bch_rfc6979 portable hmac n secret message = bch_rfc6979 native_wide hmac n secret message"
  by (simp add: bch_rfc6979_def scalar_from_be_bytes_builds nonce_loop_builds)

text \<open>The loop only calls the HMAC with 32-byte keys.\<close>

lemma length_hmac_sha256: "length (hmac_sha256 key data) = 32"
  by (simp add: hmac_sha256_def length_sha256)

lemma nonce_loop_hmac:
  assumes "\<And>key data. length key = 32 \<Longrightarrow> hmac key data = hmac_sha256 key data" and "length k = 32"
  shows "nonce_loop W hmac n k v = nonce_loop W hmac_sha256 n k v"
  using assms(2) by (induction n arbitrary: k v) (simp_all add: assms(1) Let_def length_hmac_sha256)

lemma bch_rfc6979_hmac:
  assumes "\<And>key data. length key = 32 \<Longrightarrow> hmac key data = hmac_sha256 key data"
  shows "bch_rfc6979 W hmac n secret message = bch_rfc6979 W hmac_sha256 n secret message"
  by (simp add: bch_rfc6979_def separator_round_def Let_def nonce_loop_hmac [OF assms] assms length_hmac_sha256)

section \<open>Properties\<close>

text \<open>C36. A portable signature satisfies the BCH Schnorr equation: for a point with an invertible \<open>z\<close> the
  signer returns, \<open>r\<close> is the affine \<open>x\<close> coordinate of the point, and \<open>s\<close> is \<open>k + e d\<close> modulo the group order,
  with \<open>k\<close> negated when the Jacobi loop rejects \<open>y z\<close>, and with the challenge \<open>e\<close> the SHA-256 digest of \<open>r\<close>,
  the 33 bytes of the public key and the message.\<close>

theorem signature_is_schnorr:
  assumes "canonical (pt_x point)" and "canonical (pt_y point)" and "canonical (pt_z point)"
    and "coprime (le_nat (pt_z point)) p_nat" and "scalar k" and "scalar secret"
    and "length public = 9" and "length message = 8" and "public ! 8 AND 0x00ffffff = 0"
  shows "\<exists>r s is_square. signature_words portable point message k public secret = Some (r, s) \<and>
    length r = 8 \<and> length s = 8 \<and> le_nat (rev r) < p_nat \<and>
    le_nat (rev r) * le_nat (pt_z point) ^ 2 mod p_nat = le_nat (pt_x point) \<and>
    is_square_binary portable (mul_mod portable (pt_y point) (pt_z point)) = Some is_square \<and>
    le_nat (rev s) = ((if is_square then le_nat k else n_nat - le_nat k) +
      le_nat (rev (sha256 (words_bytes r @ take 33 (words_bytes public) @ words_bytes message))) * le_nat secret) mod n_nat"
  by (rule portable.signature_words_correct [OF assms]) blast

theorem signature_is_schnorr_witness:
  "\<exists>r s. signature_words portable GENERATOR (replicate 8 7) [1, 0, 0, 0, 0, 0, 0, 0]
     [0x02000000, 0, 0, 0, 0, 0, 0, 0, 0x05000000] [3, 0, 0, 0, 0, 0, 0, 0] = Some (r, s) \<and> length r = 8 \<and> length s = 8"
proof -
  have g: "canonical (pt_x GENERATOR)" "canonical (pt_y GENERATOR)" "canonical (pt_z GENERATOR)"
    using on_curve_GENERATOR by (simp_all add: on_curve_def)
  have z: "coprime (le_nat (pt_z GENERATOR)) p_nat" by (simp add: GENERATOR_def canonical_consts)
  have s: "scalar [1, 0, 0, 0, 0, 0, 0, 0]" "scalar [3, 0, 0, 0, 0, 0, 0, 0]" by (simp_all add: scalar_def n_nat_def)
  have p: "length ([0x02000000, 0, 0, 0, 0, 0, 0, 0, 0x05000000] :: limbs) = 9" "length (replicate 8 7 :: limbs) = 8"
    "[0x02000000, 0, 0, 0, 0, 0, 0, 0, 0x05000000 :: u32] ! 8 AND 0x00ffffff = 0" by simp_all
  show ?thesis using signature_is_schnorr [OF g z s p] by blast
qed

text \<open>C37. The table of steps refines the byte-wise RFC 6979 chain: with the midstates of the key, \<open>13 + 8 n\<close>
  steps of the table return the big-endian words of the nonce that \<open>n\<close> passes of \<open>bch_rfc6979\<close> return, and
  return nothing when those passes find none, in both builds. The HMAC package computes HMAC-SHA256.\<close>

theorem nonce_table_refines_hmac_chain:
  assumes "\<And>key data. length key = 32 \<Longrightarrow> hmac key data = hmac_sha256 key data"
    and "length secret = 8" and "length message = 8"
  shows "map_option words_bytes (rfc6979_words portable (8 * n + 13) (rfc6979_midstates secret) secret message)
      = bch_rfc6979 native_wide hmac n (words_bytes secret) (words_bytes message) \<and>
    map_option words_bytes (rfc6979_words native_wide (8 * n + 13) (rfc6979_midstates secret) secret message)
      = bch_rfc6979 native_wide hmac n (words_bytes secret) (words_bytes message)"
proof -
  have "bch_rfc6979 native_wide hmac n (words_bytes secret) (words_bytes message)
      = bch_rfc6979 native_wide hmac_sha256 n (words_bytes secret) (words_bytes message)"
    by (rule bch_rfc6979_hmac) (rule assms(1))
  then show ?thesis
    using portable.rfc6979_refines_bch_rfc6979 [OF assms(2,3)] native.rfc6979_refines_bch_rfc6979 [OF assms(2,3)]
    by (simp add: bch_rfc6979_builds)
qed

theorem nonce_table_refines_hmac_chain_witness:
  "map_option words_bytes (rfc6979_words portable (8 * 1 + 13) (rfc6979_midstates (replicate 8 1)) (replicate 8 1) (replicate 8 2))
    = bch_rfc6979 native_wide hmac_sha256 1 (words_bytes (replicate 8 1)) (words_bytes (replicate 8 2))"
proof -
  have l: "length (replicate 8 1 :: limbs) = 8" "length (replicate 8 2 :: limbs) = 8" by simp_all
  show ?thesis using nonce_table_refines_hmac_chain [of hmac_sha256, OF refl l, of 1] by blast
qed

end
