(* ===== verification/Window.thy ===== *)
theory Window
  imports Sign
begin

text \<open>
  \<open>rust-engine/src/window.rs\<close>, \<open>t2_block.rs\<close> and \<open>electric.rs\<close>: the words of a signed PHOTON transaction with
  its SHA-256 padding, the transaction blocks of T2 amount grinding in their native and portable form,
  the PHOTON target test, and ELECTRIC's proof digest, nonce coordinate and difficulty test.
\<close>

section \<open>Transaction words\<close>

definition byte :: "limbs \<Rightarrow> nat \<Rightarrow> u32" where
  "byte words offset = drop_bit ((3 - offset mod 4) * 8) (words ! (offset div 4)) AND 0xff"

definition byte32 :: "limbs \<Rightarrow> nat \<Rightarrow> u32" where
  "byte32 words offset = drop_bit ((3 - offset mod 4) * 8) (words ! (offset div 4)) AND 0xff"

text \<open>The \<open>value\<close> of one byte position of \<open>tx_word\<close>.\<close>

definition tx_value :: "limbs \<Rightarrow> nat \<Rightarrow> nat \<Rightarrow> u32 \<Rightarrow> limbs \<Rightarrow> limbs \<Rightarrow> nat \<Rightarrow> u32" where
  "tx_value template shift len nonce r s offset =
     (if offset < len then
        if offset \<ge> 390 + shift \<and> offset < 394 + shift then drop_bit (8 * (offset - 390 - shift)) nonce AND 0xff
        else if offset \<ge> 426 + shift \<and> offset < 458 + shift then byte32 r (offset - 426 - shift)
        else if offset \<ge> 458 + shift \<and> offset < 490 + shift then byte32 s (offset - 458 - shift)
        else byte template offset
      else if offset = len then 0x80
      else if offset \<ge> 636 then drop_bit ((639 - offset) * 8) (of_nat len * 8) AND 0xff
      else 0)"

definition tx_word :: "limbs \<Rightarrow> nat \<Rightarrow> nat \<Rightarrow> u32 \<Rightarrow> limbs \<Rightarrow> limbs \<Rightarrow> nat \<Rightarrow> u32" where
  "tx_word template shift len nonce r s w =
     fold (\<lambda>b word. push_bit 8 word OR tx_value template shift len nonce r s (384 + w * 4 + b)) [0, 1, 2, 3] 0"

section \<open>The PHOTON target\<close>

fun below_loop :: "limbs \<Rightarrow> limbs \<Rightarrow> nat \<Rightarrow> nat \<Rightarrow> bool" where
  "below_loop digest template target_offset 0 = False"
| "below_loop digest template target_offset (Suc i) =
     (let value = (if i = 31 then byte32 digest i AND 0x7f else byte32 digest i);
          target = byte template (target_offset + i)
      in if value \<noteq> target then value < target else below_loop digest template target_offset i)"

definition below_target :: "limbs \<Rightarrow> limbs \<Rightarrow> nat \<Rightarrow> bool \<Rightarrow> bool" where
  "below_target d template target_offset positive =
     (if positive \<and> (d ! 7 AND 0x80 \<noteq> 0 \<or>
          (d ! 0 OR d ! 1 OR d ! 2 OR d ! 3 OR d ! 4 OR d ! 5 OR d ! 6 OR d ! 7) = 0) then False
      else below_loop d template target_offset 32)"

section \<open>T2 transaction blocks\<close>

record Amount =
  am_lo :: u32
  am_hi :: u32

definition amount_add :: "Amount \<Rightarrow> u32 \<Rightarrow> Amount" where
  "amount_add value j =
     (let lo = am_lo value + j
      in \<lparr>am_lo = lo, am_hi = am_hi value + (if lo < am_lo value then 1 else 0)\<rparr>)"

definition amount_sub :: "Amount \<Rightarrow> u32 \<Rightarrow> Amount" where
  "amount_sub value j =
     \<lparr>am_lo = am_lo value - j, am_hi = am_hi value - (if am_lo value < j then 1 else 0)\<rparr>"

definition amount_byte :: "Amount \<Rightarrow> nat \<Rightarrow> u32" where
  "amount_byte value offset =
     (let word = (if offset < 4 then am_lo value else am_hi value)
      in drop_bit ((offset mod 4) * 8) word AND 255)"

text \<open>\<open>byte_body!\<close> in a native and in a SPIR-V build.\<close>

definition byte_native :: "bytes \<Rightarrow> u64 \<Rightarrow> u64 \<Rightarrow> u32 \<Rightarrow> nat \<Rightarrow> nat \<Rightarrow> u8" where
  "byte_native tx baton reward j SHIFT pos =
     (if pos \<ge> 491 + SHIFT \<and> pos < 499 + SHIFT then ucast (drop_bit (8 * (pos - 491 - SHIFT)) (baton + ucast j))
      else if pos \<ge> 578 + SHIFT \<and> pos < 586 + SHIFT then ucast (drop_bit (8 * (pos - 578 - SHIFT)) (reward - ucast j))
      else if pos < 615 + SHIFT then tx ! pos
      else if pos = 615 + SHIFT then 0x80
      else if pos \<ge> 632 then ucast (drop_bit (8 * (639 - pos)) (of_nat (615 + SHIFT) * 8 :: u64))
      else 0)"

definition byte_portable :: "limbs \<Rightarrow> nat \<Rightarrow> nat \<Rightarrow> bool \<Rightarrow> Amount \<Rightarrow> Amount \<Rightarrow> u32 \<Rightarrow> nat \<Rightarrow> nat \<Rightarrow> u32" where
  "byte_portable tx tx_start tx_origin big_endian baton reward j SHIFT pos =
     (if pos \<ge> 491 + SHIFT \<and> pos < 499 + SHIFT then amount_byte (amount_add baton j) (pos - 491 - SHIFT)
      else if pos \<ge> 578 + SHIFT \<and> pos < 586 + SHIFT then amount_byte (amount_sub reward j) (pos - 578 - SHIFT)
      else if pos < 615 + SHIFT then
        let byte_index = (if big_endian then 3 - pos mod 4 else pos mod 4)
        in drop_bit (byte_index * 8) (tx ! (tx_start + pos div 4 - tx_origin div 4)) AND 255
      else if pos = 615 + SHIFT then 0x80
      else if pos \<ge> 632 then
        if pos < 636 then 0 else drop_bit (8 * (639 - pos)) (of_nat (615 + SHIFT) * 8) AND 255
      else 0)"

definition block_native :: "bytes \<Rightarrow> u64 \<Rightarrow> u64 \<Rightarrow> u32 \<Rightarrow> nat \<Rightarrow> nat \<Rightarrow> limbs" where
  "block_native tx baton reward j SHIFT BLOCK =
     map (\<lambda>i. from_be_bytes (map (\<lambda>k. byte_native tx baton reward j SHIFT (BLOCK * 64 + i * 4 + k)) [0, 1, 2, 3]))
       [0, 1, 2, 3, 4, 5, 6, 7, 8, 9, 10, 11, 12, 13, 14, 15]"

definition block_portable :: "limbs \<Rightarrow> nat \<Rightarrow> nat \<Rightarrow> bool \<Rightarrow> Amount \<Rightarrow> Amount \<Rightarrow> u32 \<Rightarrow> nat \<Rightarrow> nat \<Rightarrow> limbs" where
  "block_portable tx tx_start tx_origin big_endian baton reward j SHIFT BLOCK =
     (let b = byte_portable tx tx_start tx_origin big_endian baton reward j SHIFT
      in map (\<lambda>i. push_bit 24 (b (BLOCK * 64 + i * 4)) OR push_bit 16 (b (BLOCK * 64 + i * 4 + 1)) OR
             push_bit 8 (b (BLOCK * 64 + i * 4 + 2)) OR b (BLOCK * 64 + i * 4 + 3))
           [0, 1, 2, 3, 4, 5, 6, 7, 8, 9, 10, 11, 12, 13, 14, 15])"

section \<open>ELECTRIC\<close>

definition digest :: "limbs \<Rightarrow> u32 \<Rightarrow> u32 \<Rightarrow> limbs" where
  "digest prefix nonce_lo nonce_hi =
     (let tail = [0x80000000, 0, 0, 0, 0, 0, 0, 256];
          block = [prefix ! 0, prefix ! 1, prefix ! 2, prefix ! 3, prefix ! 4, prefix ! 5,
                   swap_bytes nonce_lo, swap_bytes nonce_hi] @ tail;
          state = compress INITIAL block;
          block = [state ! 0, state ! 1, state ! 2, state ! 3, state ! 4, state ! 5, state ! 6, state ! 7] @ tail
      in compress INITIAL block)"

definition candidate :: "limbs \<Rightarrow> u32 \<Rightarrow> limbs" where
  "candidate control index =
     (let lo = control ! 6 + index;
          hi = control ! 7 + (if lo < control ! 6 then 1 else 0)
      in digest [control ! 0, control ! 1, control ! 2, control ! 3, control ! 4, control ! 5] lo hi)"

fun meets_loop :: "limbs \<Rightarrow> u32 \<Rightarrow> nat list \<Rightarrow> bool" where
  "meets_loop d difficulty [] = True"
| "meets_loop d difficulty (i # is) =
     (if difficulty \<le> of_nat i * 4 then True
      else let bytes = min (difficulty - of_nat i * 4) 4
           in if bytes = 4 then (if d ! i \<noteq> 0 then False else meets_loop d difficulty is)
              else if bytes \<noteq> 0 \<and> drop_bit (unat (32 - bytes * 8)) (d ! i) \<noteq> 0 then False
              else meets_loop d difficulty is)"

definition meets :: "limbs \<Rightarrow> u32 \<Rightarrow> bool" where
  "meets d difficulty = (if difficulty > 32 then False else meets_loop d difficulty [0, 1, 2, 3, 4, 5, 6, 7])"

section \<open>Bytes of words\<close>

lemma words_bytes_nth:
  "offset < 4 * length ws \<Longrightarrow> words_bytes ws ! offset = to_be_bytes (ws ! (offset div 4)) ! (offset mod 4)"
proof (induction ws arbitrary: offset)
  case (Cons w ws)
  show ?case
  proof (cases "offset < 4")
    case True
    then show ?thesis by (simp add: nth_append)
  next
    case False
    then have "offset div 4 = Suc ((offset - 4) div 4)" "offset mod 4 = (offset - 4) mod 4"
      by (simp_all add: le_div_geq le_mod_geq)
    then show ?thesis using Cons.IH [of "offset - 4"] Cons.prems False by (simp add: nth_append)
  qed
qed simp

lemma be_nth: "k < 4 \<Longrightarrow> to_be_bytes (w :: u32) ! k = ucast (drop_bit ((3 - k) * 8) w)"
proof -
  assume "k < 4"
  then consider "k = 0" | "k = 1" | "k = 2" | "k = 3" by linarith
  then show ?thesis by cases (simp_all add: u32_be)
qed

lemma low_byte: "w AND 0xff = ucast (ucast (w :: u32) :: u8)"
proof -
  have "(0xff :: u32) = mask 8" by (simp add: mask_eq_exp_minus_1)
  then have "unat (w AND 0xff) = unat w mod 2 ^ 8" by (simp only: unat_and_mask)
  then show ?thesis by (simp add: word_unat_eq_iff unat_ucast)
qed

lemma byte_words: "offset < 4 * length ws \<Longrightarrow> byte ws offset = ucast (words_bytes ws ! offset)"
  unfolding byte_def low_byte by (simp add: words_bytes_nth be_nth)

lemma byte32_byte: "byte32 = byte"
  by (simp add: fun_eq_iff byte_def byte32_def)

text \<open>A word assembled from four bytes.\<close>

lemma or_bytes:
  fixes a b c d :: u8
  shows "push_bit 24 (ucast a) OR push_bit 16 (ucast b) OR push_bit 8 (ucast c) OR ucast d = (from_be_bytes [a, b, c, d] :: u32)"
proof -
  define w :: u32 where "w = push_bit 24 (ucast a) OR push_bit 16 (ucast b) OR push_bit 8 (ucast c) OR ucast d"
  have "to_be_bytes w = [a, b, c, d]"
    unfolding u32_be w_def
    by (intro list.inject [THEN iffD2] conjI; (rule bit_word_eqI)?; auto simp: bit_simps dest: bit_imp_le_length)
  then have "from_be_bytes [a, b, c, d] = (from_be_bytes (to_be_bytes w) :: u32)" by simp
  then show ?thesis by (simp add: w_def from_to_be_bytes)
qed

lemma fold_bytes:
  fixes a b c d :: u8
  shows "push_bit 8 (push_bit 8 (push_bit 8 (push_bit 8 0 OR ucast a) OR ucast b) OR ucast c) OR ucast d = (from_be_bytes [a, b, c, d] :: u32)"
  unfolding or_bytes [symmetric] by (simp add: push_bit_or or.assoc)

lemma words_bytes_from_be:
  assumes "\<forall>i\<in>set is. f i = from_be_bytes (subrange bs (base + i * 4) (base + i * 4 + 4))" and "\<forall>i\<in>set is. base + i * 4 + 4 \<le> length bs"
  shows "words_bytes (map f is) = concat (map (\<lambda>i. subrange bs (base + i * 4) (base + i * 4 + 4)) is)"
  using assms by (induction "is") (simp_all add: to_from_be_bytes)

lemma concat_subranges:
  "base + n * 4 \<le> length bs \<Longrightarrow> concat (map (\<lambda>i. subrange bs (base + i * 4) (base + i * 4 + 4)) [0..<n]) = subrange bs base (base + n * 4)"
proof (induction n)
  case (Suc n)
  show ?case using Suc subrange_join [of base "base + n * 4" "base + n * 4 + 4" bs] by (simp add: ac_simps)
qed (simp add: subrange_def)


lemma nat_le_nth: "i < k \<Longrightarrow> nat_le k x ! i = (word_of_nat (x div (2 ^ LENGTH('a)) ^ i) :: 'a::len word)"
proof (induction k arbitrary: x i)
  case (Suc k)
  then show ?case by (cases i) (simp_all add: div_mult2_eq)
qed simp

lemma le_bytes_nth: "i < LENGTH('a) div 8 \<Longrightarrow> to_le_bytes (w :: 'a::len word) ! i = ucast (drop_bit (8 * i) w)"
  by (simp add: to_le_bytes_def nat_le_nth word_unat_eq_iff unat_ucast unat_drop_bit unat_of_nat power_mult)

lemma be_bytes_nth: "i < LENGTH('a) div 8 \<Longrightarrow> to_be_bytes (w :: 'a::len word) ! i = ucast (drop_bit (8 * (LENGTH('a) div 8 - Suc i)) w)"
  by (simp add: to_be_bytes_def rev_nth le_bytes_nth)

text \<open>The padding of a message that ends in the tenth block.\<close>

lemma padding_zeros: "568 \<le> n \<Longrightarrow> n \<le> 631 \<Longrightarrow> (119 - n mod 64) mod 64 = 631 - (n :: nat)"
proof (cases "n < 576")
  case True
  assume "568 \<le> n"
  then have "n mod 64 = n - 512" using True mod_mult_self2 [of "n - 512" 64 8] by simp
  then show ?thesis using True \<open>568 \<le> n\<close> by (simp add: le_mod_geq)
next
  case False
  assume "n \<le> 631"
  then have "n mod 64 = n - 576" using False mod_mult_self2 [of "n - 576" 64 9] by simp
  then show ?thesis using False \<open>n \<le> 631\<close> by (simp add: le_mod_geq)
qed

lemma padding_nth:
  assumes "568 \<le> n" and "n \<le> 631" and "n \<le> offset" and "offset < 640"
  shows "sha_padding n ! (offset - n) = (if offset = n then 0x80
    else if 632 \<le> offset then ucast (drop_bit (8 * (639 - offset)) (of_nat n * 8 :: u64)) else 0)"
proof -
  have "sha_padding n = 0x80 # replicate (631 - n) 0 @ to_be_bytes (of_nat n * 8 :: u64)"
    using padding_zeros [OF assms(1,2)] by (simp add: sha_padding_def)
  moreover have "8 - Suc (offset - 632) = 639 - offset" if "632 \<le> offset" using that assms(4) by simp
  ultimately show ?thesis
    using assms by (auto simp: nth_Cons' nth_append be_bytes_nth)
qed

lemma length_sha_padding_10: "568 \<le> n \<Longrightarrow> n \<le> 631 \<Longrightarrow> length (sha_padding n) = 640 - n"
  by (simp add: length_sha_padding padding_zeros)

section \<open>The padded transaction\<close>

definition write_at :: "bytes \<Rightarrow> nat \<Rightarrow> bytes \<Rightarrow> bytes" where
  "write_at bs pos new = take pos bs @ new @ drop (pos + length new) bs"

lemma length_write_at: "pos + length new \<le> length bs \<Longrightarrow> length (write_at bs pos new) = length bs"
  by (simp add: write_at_def)

lemma write_at_nth:
  assumes "pos + length new \<le> length bs" and "i < length bs"
  shows "write_at bs pos new ! i = (if pos \<le> i \<and> i < pos + length new then new ! (i - pos) else bs ! i)"
  using assms by (auto simp: write_at_def nth_append min_def)

text \<open>The signed transaction: nonce, \<open>r\<close> and \<open>s\<close> written into the template.\<close>

definition signed_tx :: "limbs \<Rightarrow> nat \<Rightarrow> nat \<Rightarrow> u32 \<Rightarrow> limbs \<Rightarrow> limbs \<Rightarrow> bytes" where
  "signed_tx template shift len nonce r s =
     take len (write_at (write_at (write_at (words_bytes template) (390 + shift) (to_le_bytes nonce))
       (426 + shift) (words_bytes r)) (458 + shift) (words_bytes s))"

definition padded :: "bytes \<Rightarrow> bytes" where
  "padded tx = tx @ sha_padding (length tx)"

lemma length_padded: "568 \<le> length tx \<Longrightarrow> length tx \<le> 631 \<Longrightarrow> length (padded tx) = 640"
  by (simp add: padded_def length_sha_padding_10)

lemma padded_nth:
  assumes "568 \<le> length tx" and "length tx \<le> 631" and "offset < 640"
  shows "padded tx ! offset = (if offset < length tx then tx ! offset else if offset = length tx then 0x80
    else if 632 \<le> offset then ucast (drop_bit (8 * (639 - offset)) (of_nat (length tx) * 8 :: u64)) else 0)"
  using assms padding_nth [of "length tx" offset] by (auto simp: padded_def nth_append)

lemma length_signed_tx:
  assumes "length r = 8" and "length s = 8" and "490 + shift \<le> len" and "len \<le> 4 * length template"
  shows "length (signed_tx template shift len nonce r s) = len"
  using assms by (simp add: signed_tx_def length_write_at)

lemma signed_tx_nth:
  assumes "length r = 8" and "length s = 8" and "490 + shift \<le> len" and "len \<le> 4 * length template" and "offset < len"
  shows "signed_tx template shift len nonce r s ! offset =
    (if 390 + shift \<le> offset \<and> offset < 394 + shift then to_le_bytes nonce ! (offset - 390 - shift)
     else if 426 + shift \<le> offset \<and> offset < 458 + shift then words_bytes r ! (offset - 426 - shift)
     else if 458 + shift \<le> offset \<and> offset < 490 + shift then words_bytes s ! (offset - 458 - shift)
     else words_bytes template ! offset)"
proof -
  let ?t = "words_bytes template"
  have l1: "length (write_at ?t (390 + shift) (to_le_bytes nonce)) = length ?t"
    using assms by (simp add: length_write_at)
  have l2: "length (write_at (write_at ?t (390 + shift) (to_le_bytes nonce)) (426 + shift) (words_bytes r)) = length ?t"
    using assms l1 by (simp add: length_write_at)
  show ?thesis
    using assms l1 l2 by (simp add: signed_tx_def write_at_nth)
qed

lemma small_length_bytes:
  assumes "n \<le> 631" and "k < 8"
  shows "ucast (drop_bit (8 * k) (of_nat n * 8 :: u64)) = (if k < 4 then ucast (drop_bit (k * 8) (of_nat n * 8 :: u32)) else (0 :: u8))"
proof -
  have u64: "unat (of_nat n * 8 :: u64) = n * 8" using assms(1) by (simp add: unat_word_ariths unat_of_nat)
  have u32: "unat (of_nat n * 8 :: u32) = n * 8" using assms(1) by (simp add: unat_word_ariths unat_of_nat)
  show ?thesis
  proof (cases "k < 4")
    case True
    then show ?thesis by (simp add: word_unat_eq_iff unat_ucast unat_drop_bit u64 u32 mult.commute)
  next
    case False
    then have "(2 :: nat) ^ 32 \<le> 2 ^ (8 * k)" by (intro power_increasing) auto
    then have "n * 8 div 2 ^ (8 * k) = 0" using assms(1) by (intro div_less) (simp add: order_less_le_trans)
    then show ?thesis using False by (simp add: word_unat_eq_iff unat_ucast unat_drop_bit u64)
  qed
qed

text \<open>Every byte position of \<open>tx_word\<close> is the byte of the padded transaction.\<close>

lemma tx_value_padded:
  assumes "length r = 8" and "length s = 8" and "568 \<le> len" and "490 + shift \<le> len" and "len \<le> 631"
    and "len \<le> 4 * length template" and "offset < 640"
  shows "tx_value template shift len nonce r s offset = ucast (padded (signed_tx template shift len nonce r s) ! offset)"
proof -
  let ?tx = "signed_tx template shift len nonce r s"
  have l: "length ?tx = len" by (rule length_signed_tx) (use assms in simp_all)
  show ?thesis
  proof (cases "offset < len")
    case True
    then have "padded ?tx ! offset = ?tx ! offset" using assms l by (simp add: padded_nth)
    moreover have "?tx ! offset = (if 390 + shift \<le> offset \<and> offset < 394 + shift then to_le_bytes nonce ! (offset - 390 - shift)
       else if 426 + shift \<le> offset \<and> offset < 458 + shift then words_bytes r ! (offset - 426 - shift)
       else if 458 + shift \<le> offset \<and> offset < 490 + shift then words_bytes s ! (offset - 458 - shift)
       else words_bytes template ! offset)"
      by (rule signed_tx_nth) (use assms True in simp_all)
    moreover have "byte r (offset - 426 - shift) = ucast (words_bytes r ! (offset - 426 - shift))" if "426 + shift \<le> offset" "offset < 458 + shift"
      using that assms(1) by (intro byte_words) simp
    moreover have "byte s (offset - 458 - shift) = ucast (words_bytes s ! (offset - 458 - shift))" if "458 + shift \<le> offset" "offset < 490 + shift"
      using that assms(2) by (intro byte_words) simp
    moreover have "to_le_bytes nonce ! (offset - 390 - shift) = ucast (drop_bit (8 * (offset - 390 - shift)) nonce)"
      if "390 + shift \<le> offset" "offset < 394 + shift" using that by (intro le_bytes_nth) simp
    moreover have "byte template offset = ucast (words_bytes template ! offset)" using True assms(6) by (intro byte_words) simp
    ultimately show ?thesis
      using True unfolding tx_value_def byte32_byte low_byte by (simp del: diff_diff_left)
  next
    case False
    have "639 - offset < 4 \<longleftrightarrow> 636 \<le> offset" using assms(7) by auto
    then show ?thesis
      using False assms l small_length_bytes [of len "639 - offset"] unfolding tx_value_def low_byte
      by (simp add: padded_nth)
  qed
qed

lemma tx_word_padded:
  assumes "length r = 8" and "length s = 8" and "568 \<le> len" and "490 + shift \<le> len" and "len \<le> 631"
    and "len \<le> 4 * length template" and "w < 64"
  shows "tx_word template shift len nonce r s w
    = from_be_bytes (subrange (padded (signed_tx template shift len nonce r s)) (384 + w * 4) (384 + w * 4 + 4))"
proof -
  let ?p = "padded (signed_tx template shift len nonce r s)"
  have v: "tx_value template shift len nonce r s (384 + w * 4 + b) = ucast (?p ! (384 + w * 4 + b))" if "b < 4" for b
    by (rule tx_value_padded) (use assms that in simp_all)
  have "length ?p = 640" using assms length_signed_tx [OF assms(1,2,4,6)] by (simp add: length_padded)
  then have "subrange ?p ((96 + w) * 4) ((96 + w) * 4 + 4) = [?p ! (384 + w * 4), ?p ! (384 + w * 4 + 1), ?p ! (384 + w * 4 + 2), ?p ! (384 + w * 4 + 3)]"
    using subrange_4 [of "96 + w" ?p] assms(7) by simp
  moreover have "(96 + w) * 4 = 384 + w * 4" by simp
  ultimately show ?thesis
    using v [of 0] v [of 1] v [of 2] v [of 3] fold_bytes by (simp add: tx_word_def)
qed

lemma tx_words_padded:
  assumes "length r = 8" and "length s = 8" and "568 \<le> len" and "490 + shift \<le> len" and "len \<le> 631"
    and "len \<le> 4 * length template"
  shows "words_bytes (map (tx_word template shift len nonce r s) [0..<64])
    = subrange (padded (signed_tx template shift len nonce r s)) 384 640"
proof -
  let ?p = "padded (signed_tx template shift len nonce r s)"
  have l: "length ?p = 640" using assms length_signed_tx [OF assms(1,2,4,6)] by (simp add: length_padded)
  have "words_bytes (map (tx_word template shift len nonce r s) [0..<64])
      = concat (map (\<lambda>w. subrange ?p (384 + w * 4) (384 + w * 4 + 4)) [0..<64])"
    by (rule words_bytes_from_be) (use tx_word_padded [OF assms] l in simp_all)
  also have "\<dots> = subrange ?p 384 (384 + 64 * 4)" by (rule concat_subranges) (simp add: l)
  finally show ?thesis by simp
qed

section \<open>T2 blocks\<close>

definition amount_val :: "Amount \<Rightarrow> u64" where
  "amount_val a = ucast (am_lo a) + push_bit 32 (ucast (am_hi a))"

lemma unat_amount_val: "unat (amount_val a) = unat (am_lo a) + 2 ^ 32 * unat (am_hi a)"
proof -
  have "unat (push_bit 32 (ucast (am_hi a)) :: u64) = 2 ^ 32 * unat (am_hi a)"
    using unat_u32_less [of "am_hi a"] by (simp add: push_bit_eq_mult unat_word_ariths unat_ucast_up)
  moreover have "unat (ucast (am_lo a) :: u64) = unat (am_lo a)" by (simp add: unat_ucast_up)
  ultimately show ?thesis using unat_u32_less [of "am_lo a"] unat_u32_less [of "am_hi a"]
    by (simp add: amount_val_def unat_word_ariths)
qed

lemma amount_add_val: "amount_val (amount_add a j) = amount_val a + ucast j"
proof -
  define c :: nat where "c = (if am_lo a + j < am_lo a then 1 else 0)"
  have lo: "unat (am_lo a + j) + 2 ^ 32 * c = unat (am_lo a) + unat j"
    using unat_u32_less [of "am_lo a"] unat_u32_less [of j]
    by (cases "unat (am_lo a) + unat j < 2 ^ 32") (auto simp: c_def word_less_nat_alt unat_word_ariths le_mod_geq)
  have hi: "unat (am_hi a + (if am_lo a + j < am_lo a then 1 else 0)) = (unat (am_hi a) + c) mod 2 ^ 32"
    by (simp add: c_def unat_word_ariths)
  have "unat (amount_val (amount_add a j)) = unat (am_lo a + j) + 2 ^ 32 * ((unat (am_hi a) + c) mod 2 ^ 32)"
    unfolding unat_amount_val by (simp add: amount_add_def Let_def hi [simplified])
  also have "\<dots> = (unat (am_lo a + j) + 2 ^ 32 * (unat (am_hi a) + c)) mod (2 ^ 32 * 2 ^ 32)"
    by (rule digit_mod) (rule unat_u32_less)
  also have "unat (am_lo a + j) + 2 ^ 32 * (unat (am_hi a) + c) = unat (amount_val a) + unat j"
    unfolding unat_amount_val distrib_left using lo by linarith
  also have "(2 :: nat) ^ 32 * 2 ^ 32 = 2 ^ 64" by simp
  finally show ?thesis by (simp add: word_unat_eq_iff unat_word_ariths unat_ucast_up)
qed

lemma amount_sub_add: "amount_add (amount_sub a j) j = a"
proof -
  have "am_lo a - j + j < am_lo a - j \<longleftrightarrow> am_lo a < j"
    by (simp add: word_less_nat_alt unat_sub_if_size word_size not_le) (use unat_u32_less [of j] unat_u32_less [of "am_lo a"] in auto)
  then show ?thesis by (simp add: amount_add_def amount_sub_def Let_def)
qed

lemma amount_sub_val: "amount_val (amount_sub a j) = amount_val a - ucast j"
  using amount_add_val [of "amount_sub a j" j] by (simp add: amount_sub_add)

lemma amount_byte_val: "k < 8 \<Longrightarrow> amount_byte a k = ucast (ucast (drop_bit (8 * k) (amount_val a)) :: u8)"
proof -
  assume k: "k < 8"
  have "unat (amount_val a) div 2 ^ (8 * k) mod 2 ^ 8 = unat (if k < 4 then am_lo a else am_hi a) div 2 ^ (k mod 4 * 8) mod 2 ^ 8"
  proof (cases "k < 4")
    case True
    then have "32 = 8 * k + (8 + (24 - 8 * k))" by simp
    then have p: "(2 :: nat) ^ 32 = 2 ^ (8 * k) * (2 ^ 8 * 2 ^ (24 - 8 * k))" by (metis power_add)
    have "unat (amount_val a) div 2 ^ (8 * k) = unat (am_lo a) div 2 ^ (8 * k) + 2 ^ 8 * (2 ^ (24 - 8 * k) * unat (am_hi a))"
      unfolding unat_amount_val p mult.assoc by (rule div_mult_self2 [THEN trans]) (simp_all add: add.commute)
    then show ?thesis using True by (simp only: mod_mult_self2) (simp add: mult.commute)
  next
    case False
    then have e: "8 * k = 32 + (k - 4) * 8" "k mod 4 = k - 4" using k by (simp_all add: le_mod_geq)
    have "unat (amount_val a) div 2 ^ 32 = unat (am_hi a)" unfolding unat_amount_val using unat_u32_less [of "am_lo a"] by simp
    then have "unat (amount_val a) div 2 ^ (8 * k) = unat (am_hi a) div 2 ^ ((k - 4) * 8)"
      unfolding e(1) power_add div_mult2_eq by simp
    then show ?thesis using False e(2) by simp
  qed
  then show ?thesis unfolding amount_byte_def Let_def low_byte
    by (simp add: word_unat_eq_iff unat_ucast unat_drop_bit)
qed

text \<open>The T2 transaction: the baton and the reward amounts of coordinate \<open>j\<close> written into it.\<close>

definition t2_tx :: "bytes \<Rightarrow> u64 \<Rightarrow> u64 \<Rightarrow> u32 \<Rightarrow> nat \<Rightarrow> bytes" where
  "t2_tx tx baton reward j SHIFT =
     write_at (write_at (take (615 + SHIFT) tx) (491 + SHIFT) (to_le_bytes (baton + ucast j)))
       (578 + SHIFT) (to_le_bytes (reward - ucast j))"

lemma length_t2_tx: "615 + SHIFT \<le> length tx \<Longrightarrow> length (t2_tx tx baton reward j SHIFT) = 615 + SHIFT"
  by (simp add: t2_tx_def length_write_at)

lemma byte_native_padded:
  assumes "615 + SHIFT \<le> length tx" and "SHIFT \<le> 16" and "pos < 640"
  shows "byte_native tx baton reward j SHIFT pos = padded (t2_tx tx baton reward j SHIFT) ! pos"
proof -
  let ?t = "t2_tx tx baton reward j SHIFT"
  have l: "length ?t = 615 + SHIFT" by (rule length_t2_tx [OF assms(1)])
  have p: "padded ?t ! pos = (if pos < 615 + SHIFT then ?t ! pos else if pos = 615 + SHIFT then 0x80
    else if 632 \<le> pos then ucast (drop_bit (8 * (639 - pos)) (of_nat (615 + SHIFT) * 8 :: u64)) else 0)"
    using padded_nth [of ?t pos] assms unfolding l by simp
  have n: "?t ! pos = (if 578 + SHIFT \<le> pos \<and> pos < 586 + SHIFT then to_le_bytes (reward - ucast j) ! (pos - (578 + SHIFT))
      else if 491 + SHIFT \<le> pos \<and> pos < 499 + SHIFT then to_le_bytes (baton + ucast j) ! (pos - (491 + SHIFT)) else tx ! pos)"
    if "pos < 615 + SHIFT"
    using that assms(1) unfolding t2_tx_def by (subst write_at_nth; simp add: length_write_at write_at_nth)
  have b: "to_le_bytes x ! (pos - k) = ucast (drop_bit (8 * (pos - k)) (x :: u64))" if "k \<le> pos" "pos < k + 8" for x k
    using that by (intro le_bytes_nth) simp
  show ?thesis
    unfolding p byte_native_def using n b [of "578 + SHIFT" "reward - ucast j"] b [of "491 + SHIFT" "baton + ucast j"] by simp
qed

lemma list_0_15: "[0, 1, 2, 3, 4, 5, 6, 7, 8, 9, 10, 11, 12, 13, 14, 15] = [0..<16 :: nat]"
  by (simp add: upt_rec)

lemma block_native_padded:
  assumes "615 + SHIFT \<le> length tx" and "SHIFT \<le> 16" and "BLOCK < 10"
  shows "words_bytes (block_native tx baton reward j SHIFT BLOCK)
    = subrange (padded (t2_tx tx baton reward j SHIFT)) (BLOCK * 64) (BLOCK * 64 + 64)"
proof -
  let ?p = "padded (t2_tx tx baton reward j SHIFT)"
  have l: "length ?p = 640" using assms by (simp add: length_padded length_t2_tx)
  have w: "from_be_bytes (map (\<lambda>k. byte_native tx baton reward j SHIFT (BLOCK * 64 + i * 4 + k)) [0, 1, 2, 3])
      = (from_be_bytes (subrange ?p (BLOCK * 64 + i * 4) (BLOCK * 64 + i * 4 + 4)) :: u32)" if "i < 16" for i
  proof -
    have e: "BLOCK * 64 + i * 4 = (BLOCK * 16 + i) * 4" by simp
    have "(BLOCK * 16 + i) * 4 + 4 \<le> length ?p" using that assms(3) l by simp
    then have "subrange ?p (BLOCK * 64 + i * 4) (BLOCK * 64 + i * 4 + 4) = map (\<lambda>k. ?p ! (BLOCK * 64 + i * 4 + k)) [0, 1, 2, 3]"
      using subrange_4 [of "BLOCK * 16 + i" ?p] unfolding e by simp
    also have "\<dots> = map (\<lambda>k. byte_native tx baton reward j SHIFT (BLOCK * 64 + i * 4 + k)) [0, 1, 2, 3]"
      using that assms by (intro map_cong refl byte_native_padded [symmetric]) auto
    finally show ?thesis by simp
  qed
  have "words_bytes (block_native tx baton reward j SHIFT BLOCK)
      = concat (map (\<lambda>i. subrange ?p (BLOCK * 64 + i * 4) (BLOCK * 64 + i * 4 + 4)) [0..<16])"
    unfolding block_native_def list_0_15
    by (rule words_bytes_from_be) (use w l assms(3) in simp_all)
  also have "\<dots> = subrange ?p (BLOCK * 64) (BLOCK * 64 + 16 * 4)"
    by (rule concat_subranges) (use l assms(3) in simp)
  finally show ?thesis by simp
qed

text \<open>A portable record of the transaction: the word that covers a byte position packs the four bytes around
  it, big- or little-endian; the last word may go past the end.\<close>

definition packs :: "limbs \<Rightarrow> nat \<Rightarrow> nat \<Rightarrow> bool \<Rightarrow> bytes \<Rightarrow> nat \<Rightarrow> nat \<Rightarrow> bool" where
  "packs words tx_start tx_origin big_endian tx from until \<longleftrightarrow>
     (\<forall>i\<in>{from div 4..<(until + 3) div 4}. words ! (tx_start + i - tx_origin div 4) =
        (if big_endian then from_be_bytes else from_le_bytes) (subrange (tx @ [0, 0, 0]) (i * 4) (i * 4 + 4)))"

lemma packed_byte:
  assumes "w = (if big_endian then from_be_bytes else from_le_bytes) [b0, b1, b2, b3]" and "k < 4"
  shows "drop_bit ((if big_endian then 3 - k else k) * 8) (w :: u32) AND 255 = ucast ([b0, b1, b2, b3] ! k)"
proof (cases big_endian)
  case True
  then have "to_be_bytes w = [b0, b1, b2, b3]" using assms(1) by (simp add: to_from_be_bytes)
  then show ?thesis using True be_nth [OF assms(2), of w] by (simp add: low_byte)
next
  case False
  then have "to_le_bytes w = [b0, b1, b2, b3]" using assms(1) by (simp add: to_from_le_bytes)
  then show ?thesis using False le_bytes_nth [of k w] assms(2) by (simp add: low_byte mult.commute)
qed

lemma byte_portable_native:
  assumes "615 + SHIFT \<le> length tx" and "SHIFT \<le> 16" and "from \<le> pos" and "pos < 640"
    and "packs words tx_start tx_origin big_endian tx from (615 + SHIFT)"
  shows "byte_portable words tx_start tx_origin big_endian baton reward j SHIFT pos
    = ucast (byte_native tx (amount_val baton) (amount_val reward) j SHIFT pos)"
proof -
  have amt: "amount_byte (amount_add baton j) (pos - 491 - SHIFT) = ucast (ucast (drop_bit (8 * (pos - 491 - SHIFT)) (amount_val baton + ucast j)) :: u8)"
    if "491 + SHIFT \<le> pos" "pos < 499 + SHIFT"
    using that amount_byte_val [of "pos - 491 - SHIFT" "amount_add baton j"] by (simp add: amount_add_val)
  have amt2: "amount_byte (amount_sub reward j) (pos - 578 - SHIFT) = ucast (ucast (drop_bit (8 * (pos - 578 - SHIFT)) (amount_val reward - ucast j)) :: u8)"
    if "578 + SHIFT \<le> pos" "pos < 586 + SHIFT"
    using that amount_byte_val [of "pos - 578 - SHIFT" "amount_sub reward j"] by (simp add: amount_sub_val)
  have tx: "drop_bit ((if big_endian then 3 - pos mod 4 else pos mod 4) * 8) (words ! (tx_start + pos div 4 - tx_origin div 4)) AND 255
      = (ucast (tx ! pos) :: u32)" if "pos < 615 + SHIFT"
  proof -
    let ?i = "pos div 4" and ?b = "tx @ [0, 0, 0]"
    have i: "?i \<in> {from div 4..<(615 + SHIFT + 3) div 4}" using that assms(3) by (auto intro: div_le_mono)
    have "?i * 4 + 4 \<le> length ?b" using that assms(1) by simp
    note sub = subrange_4 [OF this]
    have "words ! (tx_start + ?i - tx_origin div 4) = (if big_endian then from_be_bytes else from_le_bytes)
        [?b ! (?i * 4), ?b ! (?i * 4 + 1), ?b ! (?i * 4 + 2), ?b ! (?i * 4 + 3)]"
      using bspec [OF assms(5) [unfolded packs_def] i] unfolding sub .
    note r = packed_byte [OF this, of "pos mod 4"]
    have "[?b ! (?i * 4), ?b ! (?i * 4 + 1), ?b ! (?i * 4 + 2), ?b ! (?i * 4 + 3)] ! (pos mod 4) = ?b ! (?i * 4 + pos mod 4)"
    proof -
      consider "pos mod 4 = 0" | "pos mod 4 = 1" | "pos mod 4 = 2" | "pos mod 4 = 3" using mod_less_divisor [of 4 pos] by linarith
      then show ?thesis by cases simp_all
    qed
    also have "\<dots> = tx ! pos" using that assms(1) by (simp add: nth_append)
    finally show ?thesis using r by simp
  qed
  have k: "639 - pos < 4 \<longleftrightarrow> 636 \<le> pos" "639 - pos < 8 \<longleftrightarrow> 632 \<le> pos" using assms(4) by auto
  have pad: "(ucast (ucast (drop_bit (8 * (639 - pos)) (of_nat (615 + SHIFT) * 8 :: u64)) :: u8) :: u32)
      = (if pos < 636 then 0 else drop_bit (8 * (639 - pos)) (of_nat (615 + SHIFT) * 8) AND 255)" if "632 \<le> pos"
    using that small_length_bytes [of "615 + SHIFT" "639 - pos"] assms(2) k unfolding low_byte
    by (simp add: mult.commute [of _ 8])
  show ?thesis
    unfolding byte_portable_def byte_native_def Let_def using amt amt2 tx pad by (simp del: diff_diff_left)
qed

lemma block_portable_native:
  assumes "615 + SHIFT \<le> length tx" and "SHIFT \<le> 16" and "BLOCK < 10"
    and "packs words tx_start tx_origin big_endian tx (BLOCK * 64) (615 + SHIFT)"
  shows "block_portable words tx_start tx_origin big_endian baton reward j SHIFT BLOCK
    = block_native tx (amount_val baton) (amount_val reward) j SHIFT BLOCK"
proof -
  have b: "byte_portable words tx_start tx_origin big_endian baton reward j SHIFT (BLOCK * 64 + i * 4 + k)
      = ucast (byte_native tx (amount_val baton) (amount_val reward) j SHIFT (BLOCK * 64 + i * 4 + k))" if "i < 16" "k < 4" for i k
    by (rule byte_portable_native [OF assms(1,2) _ _ assms(4)]) (use that assms(3) in simp_all)
  show ?thesis
    unfolding block_portable_def block_native_def Let_def list_0_15
  proof (rule map_cong [OF refl])
    fix i :: nat assume "i \<in> set [0..<16]"
    then show "push_bit 24 (byte_portable words tx_start tx_origin big_endian baton reward j SHIFT (BLOCK * 64 + i * 4)) OR
        push_bit 16 (byte_portable words tx_start tx_origin big_endian baton reward j SHIFT (BLOCK * 64 + i * 4 + 1)) OR
        push_bit 8 (byte_portable words tx_start tx_origin big_endian baton reward j SHIFT (BLOCK * 64 + i * 4 + 2)) OR
        byte_portable words tx_start tx_origin big_endian baton reward j SHIFT (BLOCK * 64 + i * 4 + 3) =
        from_be_bytes (map (\<lambda>k. byte_native tx (amount_val baton) (amount_val reward) j SHIFT (BLOCK * 64 + i * 4 + k)) [0, 1, 2, 3])"
      using b [of i 0] b [of i 1] b [of i 2] b [of i 3] by (simp add: or_bytes)
  qed
qed

section \<open>The target as a number\<close>

lemma le_nat_snoc_less:
  fixes xs ys :: bytes
  assumes "length xs = length ys"
  shows "le_nat (xs @ [x]) < le_nat (ys @ [y]) \<longleftrightarrow> (if x \<noteq> y then x < y else le_nat xs < le_nat ys)"
proof -
  let ?b = "(2 ^ 8 :: nat) ^ length xs"
  have s: "le_nat (xs @ [x]) = le_nat xs + ?b * unat x" "le_nat (ys @ [y]) = le_nat ys + ?b * unat y"
    using assms by (simp_all add: le_nat_append)
  have l: "le_nat xs < ?b" "le_nat ys < ?b" using le_nat_less [of xs] le_nat_less [of ys] assms by simp_all
  have less: "u + ?b * m < v + ?b * n" if "m < n" "u < ?b" for u v m n
  proof -
    have "?b * m + ?b \<le> ?b * n" using that(1) by (metis Suc_leI mult_Suc_right add.commute mult_le_mono2)
    then show ?thesis using that(2) by linarith
  qed
  consider "x = y" | "unat x < unat y" | "unat y < unat x" by (metis linorder_cases word_unat_eq_iff)
  then show ?thesis
  proof cases
    case 1
    have "le_nat (xs @ [y]) = le_nat xs + ?b * unat y" by (simp add: le_nat_append)
    then show ?thesis using 1 s(2) by simp
  next
    case 2 then show ?thesis using less [OF 2 l(1)] by (auto simp: s word_less_nat_alt)
  next
    case 3 then show ?thesis using less [OF 3 l(2), of "le_nat xs"] by (auto simp: s word_less_nat_alt)
  qed
qed

text \<open>The digest bytes with the top bit of byte 31 cleared.\<close>

definition masked :: "limbs \<Rightarrow> bytes" where
  "masked d = (words_bytes d)[31 := words_bytes d ! 31 AND 0x7f]"

lemma below_loop_number:
  assumes "length d = 8" and "n \<le> 32" and "off + 32 \<le> 4 * length template"
  shows "below_loop d template off n \<longleftrightarrow> le_nat (take n (masked d)) < le_nat (subrange (words_bytes template) off (off + n))"
  using assms(2)
proof (induction n)
  case (Suc i)
  have i: "i < 32" using Suc.prems by simp
  have l: "length (masked d) = 32" using assms(1) by (simp add: masked_def)
  have v: "(if i = 31 then byte32 d i AND 0x7f else byte32 d i) = ucast (masked d ! i)"
  proof -
    have "byte d i = ucast (words_bytes d ! i)" using i assms(1) by (intro byte_words) simp
    then show ?thesis using assms(1) by (cases "i = 31") (simp_all add: byte32_byte masked_def unsigned_and_eq)
  qed
  have t: "byte template (off + i) = ucast (words_bytes template ! (off + i))"
    using i assms(3) by (intro byte_words) simp
  have "take (Suc i) (masked d) = take i (masked d) @ [masked d ! i]" using i l by (simp add: take_Suc_conv_app_nth)
  moreover have "subrange (words_bytes template) off (off + Suc i) = subrange (words_bytes template) off (off + i) @ [words_bytes template ! (off + i)]"
    using subrange_join [of off "off + i" "off + Suc i" "words_bytes template"] subrange_single [of "off + i" "words_bytes template"] i assms(3) by simp
  moreover have "length (take i (masked d)) = length (subrange (words_bytes template) off (off + i))"
    using i l assms(3) by simp
  ultimately have "le_nat (take (Suc i) (masked d)) < le_nat (subrange (words_bytes template) off (off + Suc i)) \<longleftrightarrow>
      (if masked d ! i \<noteq> words_bytes template ! (off + i) then masked d ! i < words_bytes template ! (off + i)
       else le_nat (take i (masked d)) < le_nat (subrange (words_bytes template) off (off + i)))"
    using le_nat_snoc_less by presburger
  moreover have "(ucast x :: u32) < ucast y \<longleftrightarrow> x < y" "(ucast x :: u32) = ucast y \<longleftrightarrow> x = y" for x y :: u8
    by (simp_all add: word_less_nat_alt word_unat_eq_iff unat_ucast_up)
  ultimately show ?case using Suc.IH Suc.prems unfolding below_loop.simps Let_def v t by simp
qed (simp add: subrange_def)

lemma masked_value: "length d = 8 \<Longrightarrow> le_nat (masked d) = le_nat (words_bytes d) mod 2 ^ 255"
proof -
  assume l: "length d = 8"
  define b where "b = words_bytes d"
  have lb: "length b = 32" using l by (simp add: b_def)
  have s: "b = take 31 b @ [b ! 31]" using lb take_Suc_conv_app_nth [of 31 b] by simp
  have m: "masked d = take 31 b @ [b ! 31 AND 0x7f]" unfolding masked_def b_def [symmetric] using lb
    by (subst s) (simp add: list_update_append)
  have t: "le_nat (take 31 b) < 2 ^ 248" using le_nat_less [of "take 31 b"] lb by simp
  have "unat (b ! 31 AND 0x7f) = unat (b ! 31) mod 2 ^ 7" using unat_and_mask [of "b ! 31" 7] by (simp add: mask_eq_exp_minus_1)
  then have "le_nat (masked d) = le_nat (take 31 b) + 2 ^ 248 * (unat (b ! 31) mod 2 ^ 7)"
    using lb by (simp add: m le_nat_append)
  also have "\<dots> = (le_nat (take 31 b) + 2 ^ 248 * unat (b ! 31)) mod (2 ^ 248 * 2 ^ 7)" by (rule digit_mod [OF t])
  also have "le_nat (take 31 b) + 2 ^ 248 * unat (b ! 31) = le_nat b" using lb by (subst (3) s) (simp add: le_nat_append)
  finally show ?thesis by (simp add: b_def)
qed

lemma top_bit_value:
  assumes "length d = 8"
  shows "d ! 7 AND 0x80 \<noteq> 0 \<longleftrightarrow> 2 ^ 255 \<le> le_nat (words_bytes d)"
    and "(d ! 0 OR d ! 1 OR d ! 2 OR d ! 3 OR d ! 4 OR d ! 5 OR d ! 6 OR d ! 7) = 0 \<longleftrightarrow> le_nat (words_bytes d) = 0"
proof -
  have lt: "le_nat (words_bytes d) < 2 ^ 256" using le_nat_less [of "words_bytes d"] assms by simp
  show "(d ! 0 OR d ! 1 OR d ! 2 OR d ! 3 OR d ! 4 OR d ! 5 OR d ! 6 OR d ! 7) = 0 \<longleftrightarrow> le_nat (words_bytes d) = 0"
    using is_zero_iff [OF assms] be_value [of "rev d"] le_nat_rev_0 [of "words_bytes d"] be_value [of d] le_nat_rev_0 [of d]
    by (simp add: is_zero_def)
  define b where "b = words_bytes d"
  have lb: "length b = 32" using assms by (simp add: b_def)
  have s: "b = take 31 b @ [b ! 31]" using lb take_Suc_conv_app_nth [of 31 b] by simp
  have t: "le_nat (take 31 b) < 2 ^ 248" using le_nat_less [of "take 31 b"] lb by simp
  have v: "le_nat b = le_nat (take 31 b) + 2 ^ 248 * unat (b ! 31)" using lb by (subst s) (simp add: le_nat_append)
  have b31: "b ! 31 = ucast (d ! 7)" using words_bytes_nth [of 31 d] be_nth [of 3 "d ! 7"] assms by (simp add: b_def)
  have "d ! 7 AND 0x80 \<noteq> 0 \<longleftrightarrow> bit (d ! 7) 7"
    using and_exp_eq_0_iff_not_bit [of "d ! 7" 7] by simp
  also have "\<dots> \<longleftrightarrow> bit (b ! 31) 7" by (simp add: b31 bit_simps)
  also have "\<dots> \<longleftrightarrow> 2 ^ 7 \<le> unat (b ! 31)"
  proof -
    have "unat (b ! 31) < 256" using unsigned_less [of "b ! 31", where ?'a = nat] by simp
    then have "unat (b ! 31) div 2 ^ 7 < 2" by (simp add: less_mult_imp_div_less)
    moreover have "bit (b ! 31) 7 \<longleftrightarrow> odd (unat (b ! 31) div 2 ^ 7)"
      using bit_unsigned_iff [of "b ! 31" 7, where ?'a = nat] by (simp add: bit_iff_odd)
    ultimately show ?thesis by (cases "unat (b ! 31) div 2 ^ 7 = 0") (auto simp: div_eq_0_iff)
  qed
  also have "\<dots> \<longleftrightarrow> 2 ^ 255 \<le> le_nat b" using v t by auto
  finally show "d ! 7 AND 0x80 \<noteq> 0 \<longleftrightarrow> 2 ^ 255 \<le> le_nat (words_bytes d)" by (simp add: b_def)
qed

section \<open>ELECTRIC's digest and difficulty\<close>

lemma amount_bytes: "to_le_bytes (amount_val a) = to_le_bytes (am_lo a) @ to_le_bytes (am_hi a)"
  by (rule le_nat_inj) (simp_all add: le_nat_append le_nat_to_le_bytes unat_amount_val)

lemma digest_sha256d:
  assumes "length prefix = 6"
  shows "words_bytes (digest prefix nlo nhi) = sha256 (sha256 (words_bytes prefix @ to_le_bytes nlo @ to_le_bytes nhi))"
proof -
  obtain a b c d e f where p: "prefix = [a, b, c, d, e, f]" using assms by (auto simp: length_Suc_conv eval_nat_numeral)
  define tail :: limbs where "tail = [0x80000000, 0, 0, 0, 0, 0, 0, 256]"
  have pad: "sha_padding 32 = words_bytes tail" unfolding sha_padding_def tail_def by (simp add: u32_be) code_simp
  define B where "B = [a, b, c, d, e, f, swap_bytes nlo, swap_bytes nhi]"
  define state where "state = compress INITIAL (B @ tail)"
  have l: "length state = 8" unfolding state_def by (rule length_compress) (simp_all add: B_def tail_def)
  have "sha256 (words_bytes prefix @ to_le_bytes nlo @ to_le_bytes nhi) = words_bytes (compress_all INITIAL [B @ tail])"
    by (rule sha256_blocks) (simp_all add: p pad B_def to_be_swap tail_def)
  then have "sha256 (words_bytes prefix @ to_le_bytes nlo @ to_le_bytes nhi) = words_bytes state" by (simp add: state_def)
  moreover have "sha256 (words_bytes state) = words_bytes (compress_all INITIAL [state @ tail])"
    by (rule sha256_blocks) (simp_all add: l pad tail_def)
  moreover have "digest prefix nlo nhi = compress INITIAL (state @ tail)"
  proof -
    have "digest prefix nlo nhi = compress INITIAL ([state ! 0, state ! 1, state ! 2, state ! 3, state ! 4, state ! 5, state ! 6, state ! 7] @ tail)"
      unfolding digest_def Let_def tail_def [symmetric] p by (simp add: state_def B_def)
    then show ?thesis using list8 [OF l] by metis
  qed
  ultimately show ?thesis by simp
qed

lemma candidate_sha256d:
  assumes "length control = 10"
  shows "words_bytes (candidate control index) =
    sha256 (sha256 (words_bytes (take 6 control) @ to_le_bytes (amount_val \<lparr>am_lo = control ! 6, am_hi = control ! 7\<rparr> + ucast index)))"
proof -
  have t: "take 6 control = [control ! 0, control ! 1, control ! 2, control ! 3, control ! 4, control ! 5]"
    using assms by (auto simp: length_Suc_conv eval_nat_numeral)
  have "candidate control index = digest (take 6 control) (am_lo (amount_add \<lparr>am_lo = control ! 6, am_hi = control ! 7\<rparr> index))
      (am_hi (amount_add \<lparr>am_lo = control ! 6, am_hi = control ! 7\<rparr> index))"
    by (simp add: candidate_def Let_def t amount_add_def)
  moreover have "length (take 6 control) = 6" using assms by simp
  ultimately show ?thesis by (simp add: digest_sha256d amount_bytes flip: amount_add_val)
qed

lemma le_nat_drop: "j \<le> length xs \<Longrightarrow> le_nat (drop j (xs :: bytes)) = le_nat xs div 2 ^ (8 * j)"
proof -
  assume j: "j \<le> length xs"
  have "le_nat xs = le_nat (take j xs) + (2 ^ 8) ^ length (take j xs) * le_nat (drop j xs)"
    using le_nat_append [of "take j xs" "drop j xs"] by simp
  moreover have "le_nat (take j xs) < (2 ^ 8) ^ length (take j xs)" using le_nat_less [of "take j xs"] by simp
  moreover have "(2 ^ 8) ^ length (take j xs) = (2 :: nat) ^ (8 * j)" using j by (simp add: power_mult)
  ultimately show ?thesis by simp
qed

lemma leading_bytes_zero:
  fixes w :: u32
  assumes "m \<le> 4"
  shows "unat w div 2 ^ (32 - 8 * m) = 0 \<longleftrightarrow> (\<forall>k<m. to_be_bytes w ! k = 0)"
proof -
  have e: "8 * (4 - m) = 32 - 8 * m" by simp
  have "unat w div 2 ^ (32 - 8 * m) = le_nat (drop (4 - m) (to_le_bytes w))"
    using assms le_nat_drop [of "4 - m" "to_le_bytes w"] unfolding e by (simp add: le_nat_to_le_bytes)
  also have "drop (4 - m) (to_le_bytes w) = rev (take m (to_be_bytes w))"
    using assms by (simp add: to_be_bytes_def take_rev)
  also have "le_nat (rev (take m (to_be_bytes w))) = 0 \<longleftrightarrow> (\<forall>x\<in>set (take m (to_be_bytes w)). x = 0)"
    by (simp add: le_nat_eq_0_iff)
  also have "\<dots> \<longleftrightarrow> (\<forall>k<m. to_be_bytes w ! k = 0)" using assms by (auto simp: set_conv_nth)
  finally show ?thesis .
qed

lemma meets_loop_zero:
  assumes "length d = 8" and "unat difficulty \<le> 32" and "i \<le> 8"
  shows "meets_loop d difficulty [i..<8] \<longleftrightarrow> (\<forall>k. 4 * i \<le> k \<and> k < unat difficulty \<longrightarrow> words_bytes d ! k = 0)"
  using assms(3)
proof (induction "8 - i" arbitrary: i)
  case 0
  then have "i = 8" by simp
  then show ?case using assms(2) by auto
next
  case (Suc n)
  then have i: "i < 8" by simp
  let ?n = "unat difficulty"
  have u: "unat (of_nat i * 4 :: u32) = 4 * i" using i by (simp add: unat_word_ariths unat_of_nat)
  have IH: "meets_loop d difficulty [Suc i..<8] \<longleftrightarrow> (\<forall>k. 4 * Suc i \<le> k \<and> k < ?n \<longrightarrow> words_bytes d ! k = 0)"
    using Suc.hyps(1) [of "Suc i"] Suc.hyps(2) i by simp
  have upt: "[i..<8] = i # [Suc i..<8]" using i by (simp add: upt_conv_Cons)
  show ?case
  proof (cases "?n \<le> 4 * i")
    case True
    then have "difficulty \<le> of_nat i * 4" by (simp add: word_le_nat_alt u)
    then show ?thesis using True by (auto simp: upt)
  next
    case False
    then have nle: "\<not> difficulty \<le> of_nat i * 4" by (simp add: word_le_nat_alt u)
    define b where "b = min (difficulty - of_nat i * 4) (4 :: u32)"
    define m where "m = min (?n - 4 * i) 4"
    have du: "unat (difficulty - of_nat i * 4) = ?n - 4 * i"
      using False u by (subst unat_sub) (simp_all add: word_le_nat_alt)
    have bm: "unat b = m" unfolding b_def m_def min_def word_le_nat_alt du by (simp add: du)
    have m: "0 < m" "m \<le> 4" using False by (auto simp: m_def)
    have b4: "b = 4 \<longleftrightarrow> m = 4" "b \<noteq> 0" using bm m by (auto simp: word_unat_eq_iff)
    have sh: "unat (32 - b * 8) = 32 - 8 * m"
    proof -
      have "unat (b * 8) = m * 8" using bm m(2) by (simp add: unat_word_ariths)
      then show ?thesis using m(2) by (subst unat_sub) (simp_all add: word_le_nat_alt mult.commute)
    qed
    have word: "drop_bit (unat (32 - b * 8)) (d ! i) = 0 \<longleftrightarrow> (\<forall>k<m. words_bytes d ! (4 * i + k) = 0)"
    proof -
      have "words_bytes d ! (4 * i + k) = to_be_bytes (d ! i) ! k" if "k < m" for k
        using words_bytes_nth [of "4 * i + k" d] assms(1) i that m(2) by simp
      then show ?thesis unfolding sh using leading_bytes_zero [OF m(2), of "d ! i"]
        by (simp add: word_unat_eq_iff unat_drop_bit)
    qed
    have "meets_loop d difficulty [i..<8] \<longleftrightarrow>
        drop_bit (unat (32 - b * 8)) (d ! i) = 0 \<and> meets_loop d difficulty [Suc i..<8]"
    proof (cases "m = 4")
      case True
      then have "drop_bit (unat (32 - b * 8)) (d ! i) = d ! i" unfolding sh by simp
      then show ?thesis using nle True b4 by (simp add: upt Let_def b_def)
    next
      case m4: False
      then show ?thesis using nle b4 by (simp add: upt Let_def b_def)
    qed
    also have "\<dots> \<longleftrightarrow> (\<forall>k. 4 * i \<le> k \<and> k < ?n \<longrightarrow> words_bytes d ! k = 0)"
      unfolding word IH
    proof (intro iffI allI impI conjI)
      fix k assume a: "(\<forall>k<m. words_bytes d ! (4 * i + k) = 0) \<and> (\<forall>k. 4 * Suc i \<le> k \<and> k < ?n \<longrightarrow> words_bytes d ! k = 0)"
        and k: "4 * i \<le> k \<and> k < ?n"
      show "words_bytes d ! k = 0"
      proof (cases "k < 4 * Suc i")
        case True
        then have "k - 4 * i < m" using k by (auto simp: m_def)
        then have "words_bytes d ! (4 * i + (k - 4 * i)) = 0" using a by blast
        then show ?thesis using k by simp
      qed (use a k in auto)
    next
      fix k assume a: "\<forall>k. 4 * i \<le> k \<and> k < ?n \<longrightarrow> words_bytes d ! k = 0" and "k < m"
      then show "words_bytes d ! (4 * i + k) = 0" using False by (auto simp: m_def)
    next
      fix k assume a: "\<forall>k. 4 * i \<le> k \<and> k < ?n \<longrightarrow> words_bytes d ! k = 0" and "4 * Suc i \<le> k \<and> k < ?n"
      then show "words_bytes d ! k = 0" by auto
    qed
    finally show ?thesis .
  qed
qed

lemma meets_zero_bytes:
  assumes "length d = 8"
  shows "meets d difficulty \<longleftrightarrow> unat difficulty \<le> 32 \<and> (\<forall>k<unat difficulty. words_bytes d ! k = 0)"
proof -
  have "[0, 1, 2, 3, 4, 5, 6, 7] = [0..<8 :: nat]" by (simp add: upt_rec)
  then show ?thesis
    using meets_loop_zero [OF assms, of difficulty 0] by (auto simp: meets_def word_less_nat_alt not_less)
qed

section \<open>Properties\<close>

text \<open>C38. The transaction blocks of T2 grinding: for every layout shift and block, the native build assembles the
  bytes of the SHA-256-padded transaction in which the baton carries \<open>j\<close> more and the reward \<open>j\<close> less, and
  the portable build, from a packed word record of either byte order and two-word amounts, assembles the same
  block.\<close>

theorem t2_blocks_are_padded_transaction:
  assumes "615 + SHIFT \<le> length tx" and "SHIFT \<le> 16" and "BLOCK < 10"
    and "packs words tx_start tx_origin big_endian tx (BLOCK * 64) (615 + SHIFT)"
  shows "words_bytes (block_native tx (amount_val baton) (amount_val reward) j SHIFT BLOCK)
      = subrange (padded (t2_tx tx (amount_val baton) (amount_val reward) j SHIFT)) (BLOCK * 64) (BLOCK * 64 + 64) \<and>
    block_portable words tx_start tx_origin big_endian baton reward j SHIFT BLOCK
      = block_native tx (amount_val baton) (amount_val reward) j SHIFT BLOCK"
  using block_native_padded [OF assms(1-3)] block_portable_native [OF assms] by blast

theorem t2_blocks_are_padded_transaction_witness:
  "block_portable (replicate 156 0) 0 0 True \<lparr>am_lo = 0xffffffff, am_hi = 0\<rparr> \<lparr>am_lo = 5, am_hi = 1\<rparr> 9 9 9
    = block_native (replicate 624 0) (amount_val \<lparr>am_lo = 0xffffffff, am_hi = 0\<rparr>) (amount_val \<lparr>am_lo = 5, am_hi = 1\<rparr>) 9 9 9"
proof -
  have z: "subrange (replicate 624 0 @ [0, 0, 0]) (i * 4) (i * 4 + 4) = ([0, 0, 0, 0] :: bytes)" if "i < 156" for i
  proof -
    have "i * 4 + 4 \<le> length (replicate 624 0 @ [0, 0, 0 :: u8])" using that by simp
    from subrange_4 [OF this] show ?thesis using that by (simp add: nth_append)
  qed
  have "from_be_bytes [0, 0, 0, 0] = (0 :: u32)" by (simp add: from_be_bytes_def from_le_bytes_def)
  then have "packs (replicate 156 0) 0 0 True (replicate 624 0) (9 * 64) (615 + 9)"
    by (auto simp: packs_def z)
  from t2_blocks_are_padded_transaction [OF _ _ _ this] show ?thesis by simp
qed

text \<open>The mining tests of the engine: the words of a signed transaction window are the last four blocks of the
  padded transaction with nonce and signature written in; the PHOTON test compares the digest, read as a
  little-endian number below \<open>2^255\<close>, with the target and its positive rule excludes zero and the top bit;
  ELECTRIC's candidate is the double SHA-256 of the prefix and a 64-bit nonce that carries between its
  words, and its difficulty counts leading zero bytes.\<close>

theorem window_tests_exact:
  assumes "length r = 8" and "length s = 8" and "568 \<le> len" and "490 + shift \<le> len" and "len \<le> 631"
    and "len \<le> 4 * length template" and "length d = 8" and "target_offset + 32 \<le> 4 * length template"
    and "length control = 10"
  shows "words_bytes (map (tx_word template shift len nonce r s) [0..<64])
      = subrange (padded (signed_tx template shift len nonce r s)) 384 640 \<and>
    below_target d template target_offset positive =
      (le_nat (words_bytes d) mod 2 ^ 255 < le_nat (subrange (words_bytes template) target_offset (target_offset + 32)) \<and>
       (positive \<longrightarrow> 0 < le_nat (words_bytes d) \<and> le_nat (words_bytes d) < 2 ^ 255)) \<and>
    words_bytes (candidate control index) = sha256 (sha256 (words_bytes (take 6 control) @
      to_le_bytes (amount_val \<lparr>am_lo = control ! 6, am_hi = control ! 7\<rparr> + ucast index))) \<and>
    meets d difficulty = (unat difficulty \<le> 32 \<and> (\<forall>k<unat difficulty. words_bytes d ! k = 0))"
proof -
  have "length (masked d) = 32" using assms(7) by (simp add: masked_def)
  then have "take 32 (masked d) = masked d" by simp
  then have "below_target d template target_offset positive =
      (le_nat (words_bytes d) mod 2 ^ 255 < le_nat (subrange (words_bytes template) target_offset (target_offset + 32)) \<and>
       (positive \<longrightarrow> 0 < le_nat (words_bytes d) \<and> le_nat (words_bytes d) < 2 ^ 255))"
    unfolding below_target_def top_bit_value [OF assms(7)]
    using below_loop_number [OF assms(7) _ assms(8), of 32] masked_value [OF assms(7)] by auto
  then show ?thesis
    using tx_words_padded [OF assms(1-6)] candidate_sha256d [OF assms(9)] meets_zero_bytes [OF assms(7)] by blast
qed

theorem window_tests_exact_witness:
  "words_bytes (candidate (replicate 10 0xffffffff) 7) = sha256 (sha256 (words_bytes (take 6 (replicate 10 0xffffffff)) @
     to_le_bytes (amount_val \<lparr>am_lo = replicate 10 0xffffffff ! 6, am_hi = replicate 10 0xffffffff ! 7\<rparr> + ucast (7 :: u32))))"
proof -
  have l: "length (replicate 8 0 :: limbs) = 8" "(568 :: nat) \<le> 600" "490 + (0 :: nat) \<le> 600" "(600 :: nat) \<le> 631"
    "600 \<le> 4 * length (replicate 160 0 :: limbs)" "length (replicate 8 0 :: limbs) = 8"
    "0 + 32 \<le> 4 * length (replicate 160 0 :: limbs)" "length (replicate 10 0xffffffff :: limbs) = 10" by simp_all
  show ?thesis using window_tests_exact [OF l(1) l(1) l(2-8)] by blast
qed

end
