(* ===== verification/Aux_Tree.thy ===== *)
theory Aux_Tree
  imports Prelude
begin

text \<open>
  \<open>src/stratum_v2/merge/tree.rs\<close>: the aux tree of merge mining. A category's slot is a hash of the
  salt and the category, the layout search looks for the first height and salt that give every
  category its own slot, the tree is built level by level, and a proof folds a leaf up its branch.
  The digest is the argument \<open>sha\<close>.
\<close>

section \<open>Model\<close>

definition MAX_HEIGHT :: u8 where
  "MAX_HEIGHT = 16"

definition MAX_LEAVES :: nat where
  "MAX_LEAVES = 16"

definition SALTS :: nat where
  "SALTS = 2 ^ 16"

definition NODE_PREFIX :: u8 where
  "NODE_PREFIX = 0x01"

definition SLOT_PREFIX :: u8 where
  "SLOT_PREFIX = 0x02"

definition slot :: "(bytes \<Rightarrow> bytes) \<Rightarrow> bytes \<Rightarrow> u32 \<Rightarrow> u8 \<Rightarrow> u32" where
  "slot sha category salt height =
     (let digest = sha ([SLOT_PREFIX] @ to_le_bytes salt @ category);
          value = from_le_bytes [digest ! 0, digest ! 1, digest ! 2, digest ! 3] :: u32
      in value AND (push_bit (unat (min height MAX_HEIGHT)) 1 - 1))"

definition node :: "(bytes \<Rightarrow> bytes) \<Rightarrow> bytes \<Rightarrow> bytes \<Rightarrow> bytes" where
  "node sha left right = sha ([NODE_PREFIX] @ left @ right)"

record Layout =
  l_height :: u8
  l_salt :: u32
  l_slots :: "u32 list"

datatype LayoutError = Duplicate | TooMany | NoSalt

text \<open>\<open>count.max(1).next_power_of_two().trailing_zeros()\<close>.\<close>

function ceil_log2 :: "nat \<Rightarrow> nat" where
  "ceil_log2 n = (if n \<le> 1 then 0 else Suc (ceil_log2 ((n + 1) div 2)))"
  by pat_completeness auto
termination by (relation "measure id") auto

declare ceil_log2.simps [simp del]

definition min_height :: "nat \<Rightarrow> nat" where
  "min_height count = ceil_log2 (max count 1)"

text \<open>
  One salt: the slots are written into the shared vector as they are found, and the first
  collision with an earlier one abandons the salt (\<open>continue 'salts\<close>) with the vector as it is.
\<close>

fun place :: "(bytes \<Rightarrow> bytes) \<Rightarrow> u32 \<Rightarrow> u8 \<Rightarrow> nat \<Rightarrow> bytes list \<Rightarrow> u32 list \<Rightarrow> bool \<times> u32 list" where
  "place sha salt height index [] slots = (True, slots)"
| "place sha salt height index (category # rest) slots =
     (let placed = slot sha category salt height
      in if placed \<in> set (take index slots) then (False, slots)
         else place sha salt height (Suc index) rest (slots[index := placed]))"

fun try_salts :: "(bytes \<Rightarrow> bytes) \<Rightarrow> bytes list \<Rightarrow> u8 \<Rightarrow> nat list \<Rightarrow> u32 list \<Rightarrow> Layout option \<times> u32 list" where
  "try_salts sha categories height [] slots = (None, slots)"
| "try_salts sha categories height (salt # salts) slots =
     (case place sha (word_of_nat salt) height 0 categories slots of
        (True, slots') \<Rightarrow> (Some \<lparr>l_height = height, l_salt = word_of_nat salt, l_slots = slots'\<rparr>, slots')
      | (False, slots') \<Rightarrow> try_salts sha categories height salts slots')"

fun try_heights :: "(bytes \<Rightarrow> bytes) \<Rightarrow> bytes list \<Rightarrow> nat list \<Rightarrow> u32 list \<Rightarrow> Layout option" where
  "try_heights sha categories [] slots = None"
| "try_heights sha categories (height # heights) slots =
     (case try_salts sha categories (word_of_nat height) [0..<SALTS] slots of
        (Some layout, _) \<Rightarrow> Some layout
      | (None, slots') \<Rightarrow> try_heights sha categories heights slots')"

definition search :: "(bytes \<Rightarrow> bytes) \<Rightarrow> bytes list \<Rightarrow> u8 \<Rightarrow> (LayoutError, Layout) result" where
  "search sha categories max_height =
     (if length categories > MAX_LEAVES then Inl TooMany
      else if \<exists>index<length categories. categories ! index \<in> set (take index categories) then Inl Duplicate
      else ok_or NoSalt
        (try_heights sha categories
          [min_height (length categories)..<Suc (unat (min max_height MAX_HEIGHT))]
          (replicate (length categories) 0)))"

text \<open>The tree: leaves first, root last. \<open>as_chunks::<2>()\<close> pairs the nodes of a level.\<close>

fun pair_up :: "(bytes \<Rightarrow> bytes) \<Rightarrow> bytes list \<Rightarrow> bytes list" where
  "pair_up sha (a # b # rest) = node sha a b # pair_up sha rest"
| "pair_up sha _ = []"

lemma length_pair_up: "length (pair_up sha xs) = length xs div 2"
  by (induction sha xs rule: pair_up.induct) auto

function build_levels :: "(bytes \<Rightarrow> bytes) \<Rightarrow> bytes list \<Rightarrow> bytes list list" where
  "build_levels sha level = (if length level > 1 then level # build_levels sha (pair_up sha level) else [level])"
  by pat_completeness auto
termination by (relation "measure (\<lambda>(sha, level). length level)") (auto simp: length_pair_up)

declare build_levels.simps [simp del]

fun put_leaves :: "(u32 \<times> bytes) list \<Rightarrow> bytes list \<Rightarrow> bytes list" where
  "put_leaves [] level = level"
| "put_leaves ((s, leaf) # rest) level =
     put_leaves rest (if unat s < length level then level[unat s := leaf] else level)"

definition build :: "(bytes \<Rightarrow> bytes) \<Rightarrow> Layout \<Rightarrow> bytes list \<Rightarrow> bytes list list" where
  "build sha layout leaves =
     build_levels sha (put_leaves (zip (l_slots layout) leaves)
       (replicate (2 ^ unat (min (l_height layout) MAX_HEIGHT)) (replicate 32 0)))"

definition tree_height :: "bytes list list \<Rightarrow> u8" where
  "tree_height levels = word_of_nat (length levels - 1)"

definition root :: "bytes list list \<Rightarrow> bytes" where
  "root levels = (if levels = [] then replicate 32 0 else last levels ! 0)"

fun branch_from :: "bytes list list \<Rightarrow> nat \<Rightarrow> bytes list" where
  "branch_from [] index = []"
| "branch_from (level # levels) index =
     level ! min (index XOR 1) (length level - 1) # branch_from levels (drop_bit 1 index)"

definition branch :: "bytes list list \<Rightarrow> u32 \<Rightarrow> bytes list" where
  "branch levels s = branch_from (take (length levels - 1) levels) (unat s)"

fun fold_branch :: "(bytes \<Rightarrow> bytes) \<Rightarrow> bytes \<Rightarrow> u32 \<Rightarrow> bytes list \<Rightarrow> bytes" where
  "fold_branch sha current index [] = current"
| "fold_branch sha current index (sibling # rest) =
     fold_branch sha (if index AND 1 = 1 then node sha sibling current else node sha current sibling)
       (drop_bit 1 index) rest"

section \<open>The layout search\<close>

text \<open>The reference: the first candidate, by height and then by salt, whose slots are distinct.\<close>

definition place_all :: "(bytes \<Rightarrow> bytes) \<Rightarrow> bytes list \<Rightarrow> u32 \<Rightarrow> u8 \<Rightarrow> u32 list" where
  "place_all sha categories salt height = map (\<lambda>c. slot sha c salt height) categories"

definition candidates :: "nat \<Rightarrow> u8 \<Rightarrow> (nat \<times> nat) list" where
  "candidates count max_height =
     List.product [min_height count..<Suc (unat (min max_height MAX_HEIGHT))] [0..<SALTS]"

definition layout_at :: "(bytes \<Rightarrow> bytes) \<Rightarrow> bytes list \<Rightarrow> nat \<times> nat \<Rightarrow> Layout" where
  "layout_at sha categories hs = \<lparr>l_height = word_of_nat (fst hs), l_salt = word_of_nat (snd hs),
     l_slots = place_all sha categories (word_of_nat (snd hs)) (word_of_nat (fst hs))\<rparr>"

lemma place_spec:
  assumes "take (length done) slots = place_all sha done salt height" and "length slots = length (done @ rest)"
    and "distinct (place_all sha done salt height)"
  shows "case place sha salt height (length done) rest slots of (ok, slots') \<Rightarrow>
    length slots' = length slots \<and> (ok \<longleftrightarrow> distinct (place_all sha (done @ rest) salt height)) \<and>
    (ok \<longrightarrow> slots' = place_all sha (done @ rest) salt height)"
  using assms
proof (induction rest arbitrary: "done" slots)
  case Nil
  then show ?case by (simp add: place_all_def)
next
  case (Cons c rest)
  let ?s = "slot sha c salt height"
  show ?case
  proof (cases "?s \<in> set (place_all sha done salt height)")
    case True
    then show ?thesis using Cons.prems by (auto simp: place_all_def)
  next
    case False
    have "take (length (done @ [c])) (slots[length done := ?s]) = place_all sha (done @ [c]) salt height"
      using Cons.prems by (simp add: place_all_def take_Suc_conv_app_nth)
    moreover have "distinct (place_all sha (done @ [c]) salt height)"
      using Cons.prems False by (simp add: place_all_def)
    ultimately show ?thesis
      using Cons.IH [of "done @ [c]" "slots[length done := ?s]"] Cons.prems False
      by simp
  qed
qed

lemma place_start:
  assumes "length slots = length categories"
  obtains slots' where "length slots' = length categories"
    and "place sha salt height 0 categories slots
      = (if distinct (place_all sha categories salt height) then (True, place_all sha categories salt height)
         else (False, slots'))"
proof -
  have "take (length []) slots = place_all sha [] salt height" by (simp add: place_all_def)
  note spec = place_spec [OF this, of categories]
  obtain ok slots' where p: "place sha salt height 0 categories slots = (ok, slots')" by fastforce
  have "length slots' = length categories \<and> (ok \<longleftrightarrow> distinct (place_all sha categories salt height)) \<and>
      (ok \<longrightarrow> slots' = place_all sha categories salt height)"
    using spec assms by (simp add: p) (simp add: place_all_def)
  then show ?thesis using that [of slots'] p by (cases ok) auto
qed

lemma try_salts_spec:
  assumes "length slots = length categories"
  shows "fst (try_salts sha categories height salts slots)
      = map_option (\<lambda>s. \<lparr>l_height = height, l_salt = word_of_nat s,
          l_slots = place_all sha categories (word_of_nat s) height\<rparr>)
          (find (\<lambda>s. distinct (place_all sha categories (word_of_nat s) height)) salts) \<and>
    length (snd (try_salts sha categories height salts slots)) = length categories"
  using assms
proof (induction salts arbitrary: slots)
  case (Cons s salts)
  show ?case
  proof (rule place_start [OF Cons.prems, of sha "word_of_nat s" height])
    fix slots'
    assume "length slots' = length categories"
      and "place sha (word_of_nat s) height 0 categories slots
      = (if distinct (place_all sha categories (word_of_nat s) height)
         then (True, place_all sha categories (word_of_nat s) height) else (False, slots'))"
    then show ?thesis using Cons.IH [of slots'] by (simp add: place_all_def)
  qed
qed simp

lemma find_append: "find P (xs @ ys) = (case find P xs of None \<Rightarrow> find P ys | Some x \<Rightarrow> Some x)"
  by (induction xs) auto

lemma find_map: "find P (map f xs) = map_option f (find (P \<circ> f) xs)"
  by (induction xs) auto

lemma try_heights_spec:
  assumes "length slots = length categories"
  shows "try_heights sha categories heights slots
      = map_option (layout_at sha categories)
          (find (\<lambda>hs. distinct (l_slots (layout_at sha categories hs))) (List.product heights [0..<SALTS]))"
  using assms
proof (induction heights arbitrary: slots)
  case (Cons h heights)
  define salts where "salts = [0..<SALTS]"
  let ?f = "find (\<lambda>s. distinct (place_all sha categories (word_of_nat s) (word_of_nat h))) salts"
  from try_salts_spec [OF Cons.prems, of sha "word_of_nat h" "salts"]
  obtain slots' where slots': "length slots' = length categories"
    and step: "try_salts sha categories (word_of_nat h) salts slots
      = (map_option (\<lambda>s. layout_at sha categories (h, s)) ?f, slots')"
    by (cases "try_salts sha categories (word_of_nat h) salts slots") (simp add: layout_at_def)
  have "find (\<lambda>hs. distinct (l_slots (layout_at sha categories hs))) (map (Pair h) salts)
      = map_option (Pair h) ?f"
    by (simp add: find_map comp_def layout_at_def)
  then show ?case
    using Cons.IH [OF slots'] unfolding salts_def [symmetric]
    by (cases ?f) (simp_all only: try_heights.simps product.simps find_append step salts_def [symmetric]
      prod.case option.case option.map comp_def)
qed simp

lemma duplicate_iff: "(\<exists>index<length xs. xs ! index \<in> set (take index xs)) \<longleftrightarrow> \<not> distinct xs"
proof (induction xs rule: rev_induct)
  case (snoc x xs)
  have "(\<exists>index<length (xs @ [x]). (xs @ [x]) ! index \<in> set (take index (xs @ [x])))
      \<longleftrightarrow> (\<exists>index<length xs. xs ! index \<in> set (take index xs)) \<or> x \<in> set xs"
    by (simp add: less_Suc_eq nth_append conj_disj_distribR ex_disj_distrib cong: conj_cong)
  with snoc show ?case by auto
qed simp

lemma search_spec:
  "search sha categories max_height =
     (if length categories > MAX_LEAVES then Inl TooMany
      else if \<not> distinct categories then Inl Duplicate
      else ok_or NoSalt (map_option (layout_at sha categories)
        (find (\<lambda>hs. distinct (l_slots (layout_at sha categories hs)))
          (candidates (length categories) max_height))))"
  by (simp only: search_def duplicate_iff candidates_def try_heights_spec length_replicate)

lemma ceil_log2_bound: "n \<le> 2 ^ ceil_log2 n \<and> (\<forall>h<ceil_log2 n. 2 ^ h < n)"
proof (induction n rule: ceil_log2.induct)
  case (1 n)
  show ?case
  proof (cases "n \<le> 1")
    case True
    then show ?thesis by (simp add: ceil_log2.simps)
  next
    case False
    let ?m = "(n + 1) div 2"
    have c: "ceil_log2 n = Suc (ceil_log2 ?m)" using False by (subst ceil_log2.simps) simp
    have "2 ^ h < n" if "h < ceil_log2 n" for h
    proof (cases h)
      case 0
      then show ?thesis using False by simp
    next
      case (Suc k)
      then have "2 ^ k < ?m" using 1 False that c by simp
      then show ?thesis using Suc by simp
    qed
    then show ?thesis using 1 False c by auto
  qed
qed

section \<open>Building, branches and folding\<close>

lemma slot_bound: "unat (slot sha category salt height) < 2 ^ unat (min height MAX_HEIGHT)"
proof -
  have "push_bit n 1 - 1 = (mask n :: u32)" for n by (simp add: mask_eq_exp_minus_1 push_bit_eq_mult)
  then show ?thesis by (simp only: slot_def Let_def unat_and_mask) simp
qed

lemma pair_up_nth:
  assumes "Suc (2 * i) < length level"
  shows "pair_up sha level ! i = node sha (level ! (2 * i)) (level ! Suc (2 * i))"
  using assms
proof (induction sha level arbitrary: i rule: pair_up.induct)
  case (1 sha a b rest)
  then show ?case by (cases i) simp_all
qed simp_all

lemma build_levels_nonempty: "build_levels sha level \<noteq> []"
  by (subst build_levels.simps) simp

lemma xor_1_nat: "(n :: nat) XOR 1 = (if even n then Suc n else n - 1)"
  by (auto simp: xor_Suc_0_eq)

text \<open>A perfect level folds up its branch to the root.\<close>

fun fold_nat :: "(bytes \<Rightarrow> bytes) \<Rightarrow> bytes \<Rightarrow> nat \<Rightarrow> bytes list \<Rightarrow> bytes" where
  "fold_nat sha current index [] = current"
| "fold_nat sha current index (sibling # rest) =
     fold_nat sha (if odd index then node sha sibling current else node sha current sibling) (index div 2) rest"

lemma fold_branch_nat: "fold_branch sha current index siblings = fold_nat sha current (unat index) siblings"
proof (induction siblings arbitrary: current index)
  case (Cons sibling rest)
  have "(index AND 1 = 1) \<longleftrightarrow> odd (unat index)"
    using unat_and_mask [of index 1] by (simp add: word_unat_eq_iff odd_iff_mod_2_eq_one)
  with Cons show ?case by (simp add: unat_drop_bit)
qed simp

lemma fold_nat_branch:
  assumes "length level = 2 ^ h" and "index < 2 ^ h"
  shows "fold_nat sha (level ! index) index
      (branch_from (take (length (build_levels sha level) - 1) (build_levels sha level)) index)
      = root (build_levels sha level) \<and> length (build_levels sha level) = Suc h"
  using assms
proof (induction h arbitrary: level index)
  case 0
  then show ?case by (simp add: build_levels.simps root_def)
next
  case (Suc h)
  let ?up = "pair_up sha level" and ?levels = "build_levels sha (pair_up sha level)"
  have up: "length ?up = 2 ^ h" "index div 2 < 2 ^ h" using Suc.prems by (simp_all add: length_pair_up)
  have n: "length ?levels = Suc h" using Suc.IH [OF up] by blast
  have IH: "fold_nat sha (?up ! (index div 2)) (index div 2) (branch_from (take h ?levels) (index div 2)) = root ?levels"
    using conjunct1 [OF Suc.IH [OF up]] by (simp add: n)
  have l: "build_levels sha level = level # ?levels"
    using Suc.prems(1) one_less_power [of "2 :: nat" "Suc h"] by (subst build_levels.simps) (simp del: power_Suc)
  have take: "take (length ?levels) (level # ?levels) = level # take (length ?levels - 1) ?levels"
    using build_levels_nonempty [of sha ?up] by (cases "length ?levels") simp_all
  have sib: "min (index XOR Suc 0) (length level - Suc 0) = (if even index then Suc index else index - 1)"
    using Suc.prems xor_1_nat [of index] by (auto elim!: evenE oddE simp: min_def)
  have node: "?up ! (index div 2)
      = (if odd index then node sha (level ! (index - 1)) (level ! index)
         else node sha (level ! index) (level ! Suc index))"
    using Suc.prems pair_up_nth [of "index div 2" level sha] by (auto elim!: evenE oddE)
  have r: "root (level # ?levels) = root ?levels" using build_levels_nonempty by (simp add: root_def)
  show ?case
    using IH n unfolding l by (cases "odd index") (simp_all add: take sib r drop_bit_Suc node)
qed

lemma length_put_leaves [simp]: "length (put_leaves ls level) = length level"
  by (induction ls level rule: put_leaves.induct) simp_all

lemma put_leaves_other:
  "i \<notin> unat ` fst ` set ls \<Longrightarrow> put_leaves ls level ! i = level ! i"
  by (induction ls level rule: put_leaves.induct) auto

lemma put_leaves_nth:
  assumes "distinct (map fst ls)" and "(s, leaf) \<in> set ls" and "unat s < length level"
  shows "put_leaves ls level ! unat s = leaf"
  using assms
proof (induction ls level rule: put_leaves.induct)
  case (2 s' leaf' rest level)
  then show ?case
  proof (cases "s = s'")
    case True
    then have "unat s' \<notin> unat ` fst ` set rest" using 2(2) by (auto simp: image_iff dest: word_unat_eq_iff [THEN iffD2])
    moreover have "leaf = leaf'" using 2(2,3) True by (force simp: image_iff)
    ultimately show ?thesis using 2(4) True by (simp add: put_leaves_other)
  next
    case False
    then show ?thesis using 2 by auto
  qed
qed simp

lemma build_branch:
  assumes "distinct (l_slots layout)" and "length leaves = length (l_slots layout)" and "i < length leaves"
    and "unat (l_slots layout ! i) < 2 ^ unat (min (l_height layout) MAX_HEIGHT)"
  shows "fold_branch sha (leaves ! i) (l_slots layout ! i) (branch (build sha layout leaves) (l_slots layout ! i))
      = root (build sha layout leaves)"
    and "length (branch (build sha layout leaves) (l_slots layout ! i)) = unat (min (l_height layout) MAX_HEIGHT)"
proof -
  let ?h = "unat (min (l_height layout) MAX_HEIGHT)" and ?s = "l_slots layout ! i"
  define level where "level = put_leaves (zip (l_slots layout) leaves) (replicate (2 ^ ?h) (replicate 32 0))"
  have len: "length level = 2 ^ ?h" by (simp add: level_def)
  have "(?s, leaves ! i) \<in> set (zip (l_slots layout) leaves)"
    using assms(2,3) by (metis in_set_zip length_zip min_less_iff_conj nth_zip set_zip_leftD fst_conv snd_conv)
  then have leaf: "level ! unat ?s = leaves ! i"
    unfolding level_def using assms by (intro put_leaves_nth) simp_all
  have b: "build sha layout leaves = build_levels sha level" by (simp only: build_def level_def)
  from conjunct1 [OF fold_nat_branch [OF len assms(4), of sha]] leaf
  show "fold_branch sha (leaves ! i) ?s (branch (build sha layout leaves) ?s) = root (build sha layout leaves)"
    by (simp only: b branch_def fold_branch_nat)
  have "length (branch_from ls n) = length ls" for ls n by (induction ls n rule: branch_from.induct) simp_all
  with fold_nat_branch [OF len assms(4), of sha]
  show "length (branch (build sha layout leaves) ?s) = ?h" by (simp add: b branch_def)
qed

text \<open>A slot no leaf was put in opens to the zero hash.\<close>

lemma build_branch_empty:
  assumes "s \<notin> set (l_slots layout)" and "unat s < 2 ^ unat (min (l_height layout) MAX_HEIGHT)"
  shows "fold_branch sha (replicate 32 0) s (branch (build sha layout leaves) s) = root (build sha layout leaves)"
    and "length (branch (build sha layout leaves) s) = unat (min (l_height layout) MAX_HEIGHT)"
proof -
  let ?h = "unat (min (l_height layout) MAX_HEIGHT)"
  define level where "level = put_leaves (zip (l_slots layout) leaves) (replicate (2 ^ ?h) (replicate 32 0))"
  have len: "length level = 2 ^ ?h" by (simp add: level_def)
  have "unat s \<notin> unat ` fst ` set (zip (l_slots layout) leaves)"
    using assms(1) by (auto simp: word_unat_eq_iff [symmetric] dest: set_zip_leftD)
  then have leaf: "level ! unat s = replicate 32 0" unfolding level_def using assms(2) by (simp add: put_leaves_other)
  have b: "build sha layout leaves = build_levels sha level" by (simp only: build_def level_def)
  from conjunct1 [OF fold_nat_branch [OF len assms(2), of sha]] leaf
  show "fold_branch sha (replicate 32 0) s (branch (build sha layout leaves) s) = root (build sha layout leaves)"
    by (simp only: b branch_def fold_branch_nat)
  have "length (branch_from ls n) = length ls" for ls n by (induction ls n rule: branch_from.induct) simp_all
  with fold_nat_branch [OF len assms(2), of sha]
  show "length (branch (build sha layout leaves) s) = ?h" by (simp add: b branch_def)
qed

text \<open>Binding: two openings of one root at one slot with different leaves are a collision of the digest.\<close>

fun fold_collision :: "(bytes \<Rightarrow> bytes) \<Rightarrow> bytes \<Rightarrow> bytes \<Rightarrow> u32 \<Rightarrow> bytes list \<Rightarrow> bytes list \<Rightarrow> (bytes \<times> bytes) option" where
  "fold_collision sha c c' index (s # rest) (s' # rest') =
     (let m = (if index AND 1 = 1 then [NODE_PREFIX] @ s @ c else [NODE_PREFIX] @ c @ s);
          m' = (if index AND 1 = 1 then [NODE_PREFIX] @ s' @ c' else [NODE_PREFIX] @ c' @ s')
      in if m \<noteq> m' \<and> sha m = sha m' then Some (m, m')
         else fold_collision sha (sha m) (sha m') (drop_bit 1 index) rest rest')"
| "fold_collision sha c c' index _ _ = None"

definition collides :: "(bytes \<Rightarrow> bytes) \<Rightarrow> (bytes \<times> bytes) option \<Rightarrow> bool" where
  "collides sha pair = (case pair of Some (m, m') \<Rightarrow> m \<noteq> m' \<and> sha m = sha m' | None \<Rightarrow> False)"

lemma fold_binding:
  assumes "length branch1 = length branch2" and "length c = length c'" and "c \<noteq> c'"
    and "\<forall>s\<in>set branch1 \<union> set branch2. length s = 32" and "hash32 sha"
    and "fold_branch sha c index branch1 = fold_branch sha c' index branch2"
  shows "collides sha (fold_collision sha c c' index branch1 branch2)"
  using assms
proof (induction branch1 branch2 arbitrary: c c' index rule: list_induct2)
  case (Cons s rest s' rest')
  let ?m = "if index AND 1 = 1 then [NODE_PREFIX] @ s @ c else [NODE_PREFIX] @ c @ s"
  let ?m' = "if index AND 1 = 1 then [NODE_PREFIX] @ s' @ c' else [NODE_PREFIX] @ c' @ s'"
  have ne: "?m \<noteq> ?m'" using Cons.prems by auto
  have f: "fold_branch sha (sha ?m) (drop_bit 1 index) rest = fold_branch sha (sha ?m') (drop_bit 1 index) rest'"
    using Cons.prems(5) by (simp add: node_def split: if_splits)
  show ?case
  proof (cases "sha ?m = sha ?m'")
    case True
    then show ?thesis using ne by (simp add: collides_def Let_def)
  next
    case False
    from Cons.IH [OF _ False _ Cons.prems(4) f] Cons.prems(3,4) False
    show ?thesis by (simp add: hash32.length_sha Let_def)
  qed
qed simp

lemma search_layout:
  assumes "search sha categories max_height = Inr layout"
  shows "distinct (l_slots layout)"
    and "l_slots layout = place_all sha categories (l_salt layout) (l_height layout)"
    and "min (l_height layout) MAX_HEIGHT = l_height layout"
    and "l_height layout \<le> max_height"
    and "length categories \<le> 2 ^ unat (l_height layout)"
proof -
  obtain hs where f: "find (\<lambda>hs. distinct (l_slots (layout_at sha categories hs)))
      (candidates (length categories) max_height) = Some hs" and l: "layout = layout_at sha categories hs"
    using assms by (auto simp: search_spec ok_or_Inr_iff split: if_splits)
  have hs: "hs \<in> set (candidates (length categories) max_height)" and d: "distinct (l_slots layout)"
    using f l by (auto simp: find_Some_iff)
  let ?m = "unat (min max_height MAX_HEIGHT)"
  have h: "min_height (length categories) \<le> fst hs" "fst hs \<le> ?m"
    using hs by (auto simp: candidates_def)
  have m: "?m \<le> 16" "?m \<le> unat max_height"
    by (simp_all add: MAX_HEIGHT_def min_def word_le_nat_alt)
  have u: "unat (l_height layout) = fst hs"
    using h(2) m(1) by (simp add: l layout_at_def unat_of_nat)
  show "distinct (l_slots layout)" by (rule d)
  show "l_slots layout = place_all sha categories (l_salt layout) (l_height layout)"
    by (simp add: l layout_at_def)
  show "min (l_height layout) MAX_HEIGHT = l_height layout"
    using h(2) m(1) u by (simp add: min_def word_le_nat_alt MAX_HEIGHT_def)
  show "l_height layout \<le> max_height" using h(2) m(2) u by (simp add: word_le_nat_alt)
  have "length categories \<le> 2 ^ min_height (length categories)"
    using ceil_log2_bound [of "max (length categories) 1"] by (simp add: min_height_def)
  also have "\<dots> \<le> 2 ^ unat (l_height layout)" using h(1) u by simp
  finally show "length categories \<le> 2 ^ unat (l_height layout)" .
qed

text \<open>A digest that is simple to evaluate, for the witnesses: the bytes after the fifth, cut to 32.\<close>

definition demo_sha :: "bytes \<Rightarrow> bytes" where
  "demo_sha m = take 32 (drop 5 m @ replicate 32 0)"

lemma demo_sha_hash32: "hash32 demo_sha"
  by unfold_locales (simp add: demo_sha_def)

lemma demo_slot: "length category = 32 \<Longrightarrow> demo_sha (SLOT_PREFIX # to_le_bytes (salt :: u32) @ category) = category"
  by (simp add: demo_sha_def)

lemma demo_search:
  "search demo_sha [replicate 32 0, replicate 32 1] 16 = Inr \<lparr>l_height = 1, l_salt = 0, l_slots = [0, 1]\<rparr>"
proof -
  have s: "slot demo_sha (replicate 32 0) 0 1 = 0" "slot demo_sha (replicate 32 1) 0 1 = 1"
    by (simp_all add: slot_def demo_slot MAX_HEIGHT_def from_le_bytes_def)
  have "0 < SALTS" by (simp add: SALTS_def)
  then have salts: "[0..<SALTS] = 0 # [Suc 0..<SALTS]" by (rule upt_conv_Cons)
  have heights: "[min_height 2..<Suc (unat (min 16 MAX_HEIGHT))] = 1 # [2..<17]"
    by (simp add: min_height_def ceil_log2.simps MAX_HEIGHT_def upt_conv_Cons)
  define more where "more = map (Pair 1) [Suc 0..<SALTS] @ List.product [2..<17] [0..<SALTS]"
  have c: "candidates 2 16 = (1, 0) # more"
    unfolding candidates_def heights more_def product.simps by (subst salts) simp
  have "distinct (l_slots (layout_at demo_sha [replicate 32 0, replicate 32 1] (1, 0)))"
    by (simp add: layout_at_def place_all_def s)
  then show ?thesis
    unfolding search_spec by (simp add: MAX_LEAVES_def c ok_or_def layout_at_def place_all_def s numeral_2_eq_2 [symmetric])
qed

section \<open>Properties\<close>

text \<open>C27. The layout search, which reuses one vector and drops a salt at its first collision, returns the
  first candidate (the smallest height that can hold the leaves first, then the smallest salt) whose
  slots are all distinct, an error for too many or repeated categories, and \<open>NoSalt\<close> exactly
  when no candidate works.\<close>

theorem search_is_first_layout:
  "search sha categories max_height =
     (if length categories > MAX_LEAVES then Inl TooMany
      else if \<not> distinct categories then Inl Duplicate
      else case find (\<lambda>hs. distinct (l_slots (layout_at sha categories hs)))
             (candidates (length categories) max_height) of
             None \<Rightarrow> Inl NoSalt
           | Some hs \<Rightarrow> Inr (layout_at sha categories hs))"
  by (simp add: search_spec ok_or_def split: option.splits)

text \<open>In the tree built for a searched layout, the branch of a category's slot has the tree's height
  and folds that category's leaf to the root.\<close>

theorem searched_tree_opens:
  assumes "search sha categories max_height = Inr layout" and "length leaves = length categories"
    and "i < length categories"
  shows "fold_branch sha (leaves ! i) (slot sha (categories ! i) (l_salt layout) (l_height layout))
      (branch (build sha layout leaves) (slot sha (categories ! i) (l_salt layout) (l_height layout)))
      = root (build sha layout leaves) \<and>
    length (branch (build sha layout leaves) (slot sha (categories ! i) (l_salt layout) (l_height layout)))
      = unat (l_height layout)"
proof -
  note S = search_layout [OF assms(1)]
  have s: "l_slots layout ! i = slot sha (categories ! i) (l_salt layout) (l_height layout)"
    using assms(3) by (subst S(2)) (simp add: place_all_def)
  have l: "length leaves = length (l_slots layout)"
    using assms(2) by (subst S(2)) (simp add: place_all_def)
  have "unat (l_slots layout ! i) < 2 ^ unat (min (l_height layout) MAX_HEIGHT)"
    unfolding s by (rule slot_bound)
  from build_branch [OF S(1) l _ this, of sha] assms(2,3) show ?thesis by (simp add: s S(3))
qed

theorem searched_tree_opens_witness:
  "fold_branch demo_sha (replicate 32 7) (slot demo_sha (replicate 32 1) 0 1)
     (branch (build demo_sha \<lparr>l_height = 1, l_salt = 0, l_slots = [0, 1]\<rparr> [replicate 32 5, replicate 32 7])
       (slot demo_sha (replicate 32 1) 0 1))
   = root (build demo_sha \<lparr>l_height = 1, l_salt = 0, l_slots = [0, 1]\<rparr> [replicate 32 5, replicate 32 7])"
  using searched_tree_opens [OF demo_search, of "[replicate 32 5, replicate 32 7]" 1]
  by (simp only: list.size Layout.simps nth_Cons_0 One_nat_def nth_Cons_Suc)

text \<open>A root binds the leaf at a slot: two different leaves that fold to one root at the same slot and
  height give two different messages with the same digest, found along the two branches.\<close>

theorem root_binds_leaf:
  assumes "hash32 sha" and "length branch1 = length branch2"
    and "\<forall>s\<in>set branch1 \<union> set branch2. length s = 32" and "length leaf1 = 32" and "length leaf2 = 32"
    and "fold_branch sha leaf1 index branch1 = fold_branch sha leaf2 index branch2" and "leaf1 \<noteq> leaf2"
  shows "collides sha (fold_collision sha leaf1 leaf2 index branch1 branch2)"
  using fold_binding [OF assms(2) _ assms(7,3,1,6)] assms(4,5) by simp

theorem root_binds_leaf_witness:
  "collides demo_sha (fold_collision demo_sha (1 # replicate 31 0) (2 # replicate 31 0) 0 [replicate 32 3] [replicate 32 3])"
proof (rule root_binds_leaf [OF demo_sha_hash32])
  show "fold_branch demo_sha (1 # replicate 31 0) 0 [replicate 32 3]
      = fold_branch demo_sha (2 # replicate 31 0) 0 [replicate 32 3]"
    by (simp add: node_def demo_sha_def numeral_eq_Suc)
qed simp_all

end
