(* ===== verification/Merge_Format.thy ===== *)
theory Merge_Format
  imports Aux_Tree
begin

text \<open>
  The byte layouts of merge mining: \<open>src/stratum_v2/merge/leaf.rs\<close> (a token's 169-byte leaf),
  \<open>commitment.rs\<close> (coinbase output 0 and the fixed-shape head) and \<open>header.rs\<close> (the forwarder
  script and the \<open>HeaderWin\<close> record). A fixed-size array written field by field is the
  concatenation of the fields in offset order; the records carry the array lengths as a predicate.
\<close>

type_synonym hash = bytes

definition double_sha256 :: "(bytes \<Rightarrow> bytes) \<Rightarrow> bytes \<Rightarrow> hash" where
  "double_sha256 sha bs = sha (sha bs)"

definition ZERO_HASH :: hash where
  "ZERO_HASH = replicate 32 0"

section \<open>The leaf\<close>

record Leaf =
  lf_category :: hash
  lf_lock_hash :: hash
  lf_state_hash :: hash
  lf_payout_hash :: hash
  lf_target_bits :: u32
  lf_ext :: hash

definition leaf_wf :: "Leaf \<Rightarrow> bool" where
  "leaf_wf l \<longleftrightarrow> length (lf_category l) = 32 \<and> length (lf_lock_hash l) = 32 \<and> length (lf_state_hash l) = 32 \<and>
     length (lf_payout_hash l) = 32 \<and> length (lf_ext l) = 32"

definition LEAF_TAG :: bytes where
  "LEAF_TAG = [0x43, 0x54, 0x4d, 0x4c]"

definition LEAF_VERSION :: u8 where
  "LEAF_VERSION = 2"

definition LEAF_LEN :: nat where
  "LEAF_LEN = 169"

definition LEAF_PREFIX :: u8 where
  "LEAF_PREFIX = 0x00"

definition leaf_new :: "(bytes \<Rightarrow> bytes) \<Rightarrow> hash \<Rightarrow> hash \<Rightarrow> hash \<Rightarrow> bytes \<Rightarrow> u32 \<Rightarrow> hash \<Rightarrow> Leaf" where
  "leaf_new sha category lock state payout target ext =
     \<lparr>lf_category = category, lf_lock_hash = lock, lf_state_hash = state,
      lf_payout_hash = double_sha256 sha payout, lf_target_bits = target, lf_ext = ext\<rparr>"

definition leaf_preimage :: "Leaf \<Rightarrow> bytes" where
  "leaf_preimage l = LEAF_TAG @ [LEAF_VERSION] @ lf_category l @ lf_lock_hash l @ lf_state_hash l @
     lf_payout_hash l @ to_le_bytes (lf_target_bits l) @ lf_ext l"

definition leaf_parse :: "bytes \<Rightarrow> Leaf option" where
  "leaf_parse bs =
     (if length bs \<noteq> LEAF_LEN then None
      else if subrange bs 0 4 \<noteq> LEAF_TAG \<or> bs ! 4 \<noteq> LEAF_VERSION then None
      else Some \<lparr>lf_category = subrange bs 5 37, lf_lock_hash = subrange bs 37 69,
             lf_state_hash = subrange bs 69 101, lf_payout_hash = subrange bs 101 133,
             lf_target_bits = from_le_bytes (subrange bs 133 137), lf_ext = subrange bs 137 169\<rparr>)"

definition leaf_hash :: "(bytes \<Rightarrow> bytes) \<Rightarrow> Leaf \<Rightarrow> hash" where
  "leaf_hash sha l = sha ([LEAF_PREFIX] @ leaf_preimage l)"

definition lock_hash :: "(bytes \<Rightarrow> bytes) \<Rightarrow> bytes \<Rightarrow> hash" where
  "lock_hash sha locking_bytecode = double_sha256 sha locking_bytecode"

section \<open>The commitment\<close>

record AuxCommitment =
  ac_root :: hash
  ac_height :: u8
  ac_salt :: u32

definition COMMIT_MAGIC :: bytes where
  "COMMIT_MAGIC = [0x43, 0x54, 0x4d, 0x4d]"

definition COMMIT_VERSION :: u8 where
  "COMMIT_VERSION = 2"

definition OUTPUT_LEN :: nat where
  "OUTPUT_LEN = 53"

definition SCRIPT_LEN :: nat where
  "SCRIPT_LEN = 44"

definition MAX_SCRIPT_SIG :: nat where
  "MAX_SCRIPT_SIG = 100"

definition NULL_INPUT :: bytes where
  "NULL_INPUT = [1] @ replicate 32 0 @ replicate 4 0xff"

definition EMPTY_COMMITMENT :: AuxCommitment where
  "EMPTY_COMMITMENT = \<lparr>ac_root = ZERO_HASH, ac_height = 0, ac_salt = 0\<rparr>"

definition commitment_script :: "AuxCommitment \<Rightarrow> bytes" where
  "commitment_script c = [0x6a, 0x2a] @ COMMIT_MAGIC @ [COMMIT_VERSION] @ ac_root c @ [ac_height c] @
     to_le_bytes (ac_salt c)"

definition commitment_output :: "AuxCommitment \<Rightarrow> bytes" where
  "commitment_output c = replicate 8 0 @ [word_of_nat SCRIPT_LEN] @ commitment_script c"

definition parse_script :: "bytes \<Rightarrow> AuxCommitment option" where
  "parse_script script =
     (if length script \<noteq> SCRIPT_LEN then None
      else if subrange script 0 2 \<noteq> [0x6a, 0x2a] \<or> subrange script 2 6 \<noteq> COMMIT_MAGIC
           \<or> script ! 6 \<noteq> COMMIT_VERSION \<or> script ! 39 > MAX_HEIGHT then None
      else let c = \<lparr>ac_root = subrange script 7 39, ac_height = script ! 39,
                   ac_salt = from_le_bytes (subrange script 40 44)\<rparr>
           in if ac_root c = ZERO_HASH \<and> c \<noteq> EMPTY_COMMITMENT then None else Some c)"

definition commitment_parse :: "bytes \<Rightarrow> AuxCommitment option" where
  "commitment_parse output =
     (if length output < 8 then None
      else let rest = drop 8 output
           in case rest of
                [] \<Rightarrow> None
              | len # script \<Rightarrow>
                  if take 8 output \<noteq> replicate 8 0 \<or> unat len \<noteq> SCRIPT_LEN then None
                  else parse_script script)"

text \<open>\<open>get\<close> and slicing are checked: out of range is \<open>None\<close>.\<close>

definition get_byte :: "bytes \<Rightarrow> nat \<Rightarrow> u8 option" where
  "get_byte bs i = (if i < length bs then Some (bs ! i) else None)"

definition get_range :: "bytes \<Rightarrow> nat \<Rightarrow> nat \<Rightarrow> bytes option" where
  "get_range bs i j = (if i \<le> j \<and> j \<le> length bs then Some (subrange bs i j) else None)"

definition check_head :: "bytes \<Rightarrow> bool" where
  "check_head head =
     (case get_byte head 41 of
        None \<Rightarrow> False
      | Some l \<Rightarrow> unat l \<le> MAX_SCRIPT_SIG \<and> length head = 47 + unat l \<and> subrange head 4 41 = NULL_INPUT
          \<and> 1 \<le> head ! (length head - 1) \<and> head ! (length head - 1) < 0xfd)"

definition head_len :: "bytes \<Rightarrow> nat option" where
  "head_len coinbase =
     (case get_byte coinbase 41 of
        None \<Rightarrow> None
      | Some l \<Rightarrow> (case get_range coinbase 0 (47 + unat l) of
            None \<Rightarrow> None
          | Some head \<Rightarrow> if check_head head then Some (47 + unat l) else None))"

definition output_zero :: "bytes \<Rightarrow> bytes option" where
  "output_zero coinbase =
     (case head_len coinbase of None \<Rightarrow> None | Some head \<Rightarrow> get_range coinbase head (head + OUTPUT_LEN))"

datatype own_root_error = NotOurCommitment | NotFixedShape

definition check_own_root :: "bytes \<Rightarrow> AuxCommitment \<Rightarrow> (own_root_error, unit) result" where
  "check_own_root coinbase expected =
     (case output_zero coinbase of
        Some output \<Rightarrow> if output = commitment_output expected then Inr () else Inl NotOurCommitment
      | None \<Rightarrow> Inl NotFixedShape)"

section \<open>Header-shaped jobs\<close>

definition MAX_P2S :: nat where
  "MAX_P2S = 201"

definition PXH1 :: bytes where
  "PXH1 = [0x50, 0x58, 0x48, 0x31]"

definition OP_DROP :: u8 where
  "OP_DROP = 0x75"

datatype forwarder_error = DestinationLength | ForwarderTooLong

definition forwarder_body :: "bytes \<Rightarrow> (forwarder_error, bytes) result" where
  "forwarder_body destination =
     (if destination = [] \<or> length destination > 75 then Inl DestinationLength
      else Inr ([0xc0, 0xcd, word_of_nat (length destination)] @ destination @
        [0x88, 0xc0, 0xd1, 0xc0, 0xce, 0x88, 0xc0, 0xd3, 0xc0, 0xd0, 0x9c]))"

definition extended_parts :: "u32 \<Rightarrow> bytes \<Rightarrow> (forwarder_error, bytes \<times> bytes) result" where
  "extended_parts job_id destination =
     (let prefix = [0x20] @ PXH1 @ to_le_bytes job_id
      in result_bind (forwarder_body destination) (\<lambda>body.
           let suffix = [OP_DROP] @ body
           in if length prefix + 16 + 8 + length suffix > MAX_P2S then Inl ForwarderTooLong
              else Inr (prefix, suffix)))"

definition standard_script :: "u32 \<Rightarrow> bytes \<Rightarrow> bytes \<Rightarrow> (forwarder_error, bytes) result" where
  "standard_script job_id channel_prefix destination =
     result_bind (forwarder_body destination) (\<lambda>body.
       let script = [0x18] @ PXH1 @ to_le_bytes job_id @ channel_prefix @ [OP_DROP] @ body
       in if length script > MAX_P2S then Inl ForwarderTooLong else Inr script)"

record OutPoint =
  op_txid :: hash
  op_vout :: u32

record HeaderWin =
  hw_layout :: u8
  hw_header :: bytes
  hw_age :: u16
  hw_thread :: OutPoint
  hw_script :: bytes

definition WIN_MAGIC :: bytes where
  "WIN_MAGIC = [0x43, 0x54, 0x4d, 0x48]"

definition win_encode :: "HeaderWin \<Rightarrow> bytes" where
  "win_encode w = WIN_MAGIC @ [1] @ [hw_layout w] @ hw_header w @ to_le_bytes (hw_age w) @
     op_txid (hw_thread w) @ to_le_bytes (op_vout (hw_thread w)) @ [word_of_nat (length (hw_script w))] @
     hw_script w"

datatype win_error = NotHeaderWin | WrongScriptLength

definition win_decode :: "bytes \<Rightarrow> (win_error, HeaderWin) result" where
  "win_decode bs =
     (if length bs < 125 \<or> subrange bs 0 4 \<noteq> WIN_MAGIC \<or> bs ! 4 \<noteq> 1 then Inl NotHeaderWin
      else let len = unat (bs ! 124)
           in if len > MAX_P2S \<or> length bs \<noteq> 125 + len then Inl WrongScriptLength
              else Inr \<lparr>hw_layout = bs ! 5, hw_header = subrange bs 6 86,
                      hw_age = from_le_bytes (subrange bs 86 88),
                      hw_thread = \<lparr>op_txid = subrange bs 88 120, op_vout = from_le_bytes (subrange bs 120 124)\<rparr>,
                      hw_script = drop 125 bs\<rparr>)"

definition win_wf :: "HeaderWin \<Rightarrow> bool" where
  "win_wf w \<longleftrightarrow> length (hw_header w) = 80 \<and> length (op_txid (hw_thread w)) = 32 \<and> length (hw_script w) \<le> MAX_P2S"

section \<open>Round trips\<close>

lemma bytes_split:
  "i < length bs \<Longrightarrow> bs ! i = x \<longleftrightarrow> subrange bs i (Suc i) = [x]"
  by (simp add: subrange_single)

lemma leaf_parse_preimage:
  assumes "leaf_wf l"
  shows "leaf_parse (leaf_preimage l) = Some l"
proof -
  have tag: "length LEAF_TAG = 4" by (simp add: LEAF_TAG_def)
  have len: "length (leaf_preimage l) = LEAF_LEN"
    using assms by (simp add: leaf_preimage_def leaf_wf_def tag LEAF_LEN_def)
  show ?thesis
    using assms unfolding leaf_parse_def len
    by (simp add: leaf_preimage_def leaf_wf_def tag nth_append subrange_simps
        from_to_le_bytes)
qed

lemma leaf_parse_Some:
  assumes "leaf_parse bs = Some l"
  shows "leaf_wf l" and "bs = leaf_preimage l"
proof -
  have len: "length bs = 169" and tag: "LEAF_TAG = subrange bs 0 4" and v: "LEAF_VERSION = bs ! 4"
    and l: "l = \<lparr>lf_category = subrange bs 5 37, lf_lock_hash = subrange bs 37 69,
             lf_state_hash = subrange bs 69 101, lf_payout_hash = subrange bs 101 133,
             lf_target_bits = from_le_bytes (subrange bs 133 137), lf_ext = subrange bs 137 169\<rparr>"
    using assms by (auto simp: leaf_parse_def LEAF_LEN_def split: if_splits)
  show "leaf_wf l" by (simp add: leaf_wf_def l len)
  have b: "[bs ! 4] = subrange bs 4 5" using subrange_single [of 4 bs] len by simp
  show "bs = leaf_preimage l"
    by (simp only: leaf_preimage_def l Leaf.simps tag v b)
      (simp add: to_from_le_bytes len subrange_join subrange_join_append subrange_full)
qed

lemma leaf_parse_iff: "leaf_parse bs = Some l \<longleftrightarrow> leaf_wf l \<and> bs = leaf_preimage l"
  using leaf_parse_preimage leaf_parse_Some by blast

definition commitment_wf :: "AuxCommitment \<Rightarrow> bool" where
  "commitment_wf c \<longleftrightarrow> length (ac_root c) = 32 \<and> ac_height c \<le> MAX_HEIGHT \<and>
     (ac_root c = ZERO_HASH \<longrightarrow> c = EMPTY_COMMITMENT)"

lemma parse_script_iff: "parse_script script = Some c \<longleftrightarrow> commitment_wf c \<and> script = commitment_script c"
proof
  have magic: "length COMMIT_MAGIC = 4" by (simp add: COMMIT_MAGIC_def)
  assume c: "commitment_wf c \<and> script = commitment_script c"
  then have len: "length (commitment_script c) = SCRIPT_LEN"
    by (simp add: commitment_script_def commitment_wf_def magic SCRIPT_LEN_def)
  have r: "length (ac_root c) = 32" using c by (simp add: commitment_wf_def)
  have parts: "subrange (commitment_script c) 0 2 = [0x6a, 0x2a]" "subrange (commitment_script c) 2 6 = COMMIT_MAGIC"
    "commitment_script c ! 6 = COMMIT_VERSION" "subrange (commitment_script c) 7 39 = ac_root c"
    "commitment_script c ! 39 = ac_height c" "from_le_bytes (subrange (commitment_script c) 40 44) = ac_salt c"
    unfolding commitment_script_def
    by (simp_all add: r magic nth_append subrange_simps from_to_le_bytes
        subrange_def [of "_ # _"] take_Cons' drop_Cons')
  then show "parse_script script = Some c"
    using c unfolding parse_script_def by (auto simp: len parts commitment_wf_def Let_def not_less)
next
  assume p: "parse_script script = Some c"
  then have len: "length script = 44" and a: "[0x6a, 0x2a] = subrange script 0 2" and m: "COMMIT_MAGIC = subrange script 2 6"
    and v: "COMMIT_VERSION = script ! 6"
    and c: "c = \<lparr>ac_root = subrange script 7 39, ac_height = script ! 39,
                   ac_salt = from_le_bytes (subrange script 40 44)\<rparr>"
    by (auto simp: parse_script_def SCRIPT_LEN_def Let_def split: if_splits)
  have wf: "commitment_wf c" using p len
    by (auto simp: parse_script_def commitment_wf_def Let_def not_less split: if_splits)
  have b: "[script ! 6] = subrange script 6 7" "[script ! 39] = subrange script 39 40"
    using subrange_single [of 6 script] subrange_single [of 39 script] len by simp_all
  have "script = commitment_script c"
    by (simp only: commitment_script_def c AuxCommitment.simps a m v b)
      (simp add: to_from_le_bytes len subrange_join subrange_join_append subrange_full)
  with wf show "commitment_wf c \<and> script = commitment_script c" by simp
qed

lemma commitment_parse_iff:
  "commitment_parse output = Some c \<longleftrightarrow> commitment_wf c \<and> output = commitment_output c"
proof -
  have u: "unat (len :: u8) = SCRIPT_LEN \<longleftrightarrow> len = word_of_nat SCRIPT_LEN" for len
    by (simp add: SCRIPT_LEN_def word_unat_eq_iff)
  have "commitment_parse output = Some c \<longleftrightarrow>
      (\<exists>len script. length output \<ge> 8 \<and> drop 8 output = len # script \<and> take 8 output = replicate 8 0 \<and>
        unat len = SCRIPT_LEN \<and> parse_script script = Some c)"
    by (auto simp: commitment_parse_def split: list.splits)
  also have "\<dots> \<longleftrightarrow> (\<exists>script. output = replicate 8 0 @ [word_of_nat SCRIPT_LEN] @ script \<and> parse_script script = Some c)"
  proof -
    have "length output \<ge> 8 \<and> drop 8 output = len # script \<and> take 8 output = replicate 8 0
        \<longleftrightarrow> output = replicate 8 0 @ len # script" for len script
      by (metis append_eq_conv_conj append_take_drop_id length_append length_replicate le_add1)
    then show ?thesis by (auto simp: u)
  qed
  also have "\<dots> \<longleftrightarrow> commitment_wf c \<and> output = commitment_output c"
    by (auto simp: parse_script_iff commitment_output_def)
  finally show ?thesis .
qed

section \<open>Output 0 and the head\<close>

lemma length_commitment_output: "length (ac_root c) = 32 \<Longrightarrow> length (commitment_output c) = OUTPUT_LEN"
  by (simp add: commitment_output_def commitment_script_def COMMIT_MAGIC_def OUTPUT_LEN_def)

lemma check_head_length:
  assumes "check_head head"
  shows "42 \<le> length head" and "length head = 47 + unat (head ! 41)"
  using assms by (auto simp: check_head_def get_byte_def split: option.splits if_splits)

lemma head_len_iff:
  "head_len coinbase = Some n \<longleftrightarrow> n \<le> length coinbase \<and> check_head (take n coinbase) \<and> length (take n coinbase) = n"
proof
  assume "head_len coinbase = Some n"
  then show "n \<le> length coinbase \<and> check_head (take n coinbase) \<and> length (take n coinbase) = n"
    by (auto simp: head_len_def get_range_def subrange_take split: option.splits if_splits)
next
  assume a: "n \<le> length coinbase \<and> check_head (take n coinbase) \<and> length (take n coinbase) = n"
  note l = check_head_length [of "take n coinbase"]
  have n: "42 \<le> n" "n = 47 + unat (coinbase ! 41)" using a l by auto
  have g: "get_byte coinbase 41 = Some (coinbase ! 41)" using a n(1) by (simp add: get_byte_def)
  show "head_len coinbase = Some n"
    using a n(2) by (simp add: head_len_def g get_range_def subrange_take)
qed

lemma output_zero_iff:
  "output_zero coinbase = Some out \<longleftrightarrow>
    (\<exists>head tail. coinbase = head @ out @ tail \<and> check_head head \<and> length out = OUTPUT_LEN)"
proof
  assume "output_zero coinbase = Some out"
  then obtain n where n: "head_len coinbase = Some n" and r: "get_range coinbase n (n + OUTPUT_LEN) = Some out"
    by (auto simp: output_zero_def split: option.splits)
  from r have out: "out = take OUTPUT_LEN (drop n coinbase)" and len: "n + OUTPUT_LEN \<le> length coinbase"
    by (auto simp: get_range_def subrange_def split: if_splits)
  have "coinbase = take n coinbase @ out @ drop OUTPUT_LEN (drop n coinbase)"
    unfolding out by (simp only: append_take_drop_id)
  with n out len show "\<exists>head tail. coinbase = head @ out @ tail \<and> check_head head \<and> length out = OUTPUT_LEN"
    by (intro exI [of _ "take n coinbase"] exI [of _ "drop OUTPUT_LEN (drop n coinbase)"]) (simp add: head_len_iff)
next
  assume "\<exists>head tail. coinbase = head @ out @ tail \<and> check_head head \<and> length out = OUTPUT_LEN"
  then obtain head tail where c: "coinbase = head @ out @ tail" "check_head head" "length out = OUTPUT_LEN" by blast
  then have "head_len coinbase = Some (length head)" by (simp add: head_len_iff)
  with c show "output_zero coinbase = Some out"
    by (simp add: output_zero_def get_range_def subrange_def)
qed

lemma check_own_root_iff:
  assumes "length (ac_root expected) = 32"
  shows "check_own_root coinbase expected = Inr () \<longleftrightarrow>
    (\<exists>head tail. coinbase = head @ commitment_output expected @ tail \<and> check_head head)"
proof -
  have "check_own_root coinbase expected = Inr () \<longleftrightarrow> output_zero coinbase = Some (commitment_output expected)"
    by (auto simp: check_own_root_def split: option.splits)
  then show ?thesis using length_commitment_output [OF assms] by (simp add: output_zero_iff)
qed

section \<open>Header wins and forwarders\<close>

lemma win_decode_iff: "win_decode bs = Inr w \<longleftrightarrow> win_wf w \<and> bs = win_encode w"
proof
  have magic: "length WIN_MAGIC = 4" by (simp add: WIN_MAGIC_def)
  assume w: "win_wf w \<and> bs = win_encode w"
  have lens: "length (hw_header w) = 80" "length (op_txid (hw_thread w)) = 32" "length (hw_script w) \<le> 201"
    using w by (simp_all add: win_wf_def MAX_P2S_def)
  have u: "unat (word_of_nat (length (hw_script w)) :: u8) = length (hw_script w)"
    using lens(3) by (simp add: unat_of_nat)
  have len: "length (win_encode w) = 125 + length (hw_script w)"
    using lens by (simp add: win_encode_def magic)
  have parts: "subrange (win_encode w) 0 4 = WIN_MAGIC" "win_encode w ! 4 = 1" "win_encode w ! 5 = hw_layout w"
    "subrange (win_encode w) 6 86 = hw_header w" "from_le_bytes (subrange (win_encode w) 86 88) = hw_age w"
    "subrange (win_encode w) 88 120 = op_txid (hw_thread w)"
    "from_le_bytes (subrange (win_encode w) 120 124) = op_vout (hw_thread w)"
    "win_encode w ! 124 = word_of_nat (length (hw_script w))" "drop 125 (win_encode w) = hw_script w"
    unfolding win_encode_def
    by (simp_all add: lens magic nth_append subrange_simps from_to_le_bytes drop_Cons')
  show "win_decode bs = Inr w"
    using w lens(3) by (simp add: win_decode_def len parts u MAX_P2S_def)
next
  assume d: "win_decode bs = Inr w"
  then have len: "length bs = 125 + unat (bs ! 124)" and s: "unat (bs ! 124) \<le> 201"
    and m: "WIN_MAGIC = subrange bs 0 4" and v: "1 = bs ! 4"
    and w: "w = \<lparr>hw_layout = bs ! 5, hw_header = subrange bs 6 86,
                      hw_age = from_le_bytes (subrange bs 86 88),
                      hw_thread = \<lparr>op_txid = subrange bs 88 120, op_vout = from_le_bytes (subrange bs 120 124)\<rparr>,
                      hw_script = drop 125 bs\<rparr>"
    by (auto simp: win_decode_def MAX_P2S_def Let_def split: if_splits)
  have b: "[bs ! 4] = subrange bs 4 5" "[bs ! 5] = subrange bs 5 6" "[bs ! 124] = subrange bs 124 125"
    using subrange_single [of 4 bs] subrange_single [of 5 bs] subrange_single [of 124 bs] len by simp_all
  have n: "word_of_nat (length (drop 125 bs)) = bs ! 124" using len by simp
  have "bs = win_encode w"
    by (simp only: win_encode_def w HeaderWin.simps OutPoint.simps m v n b, simp only: subrange_drop [symmetric])
      (simp add: to_from_le_bytes len subrange_join subrange_join_append subrange_full)
  moreover have "win_wf w" using len s by (simp add: win_wf_def w MAX_P2S_def)
  ultimately show "win_wf w \<and> bs = win_encode w" by simp
qed

text \<open>Both forwarder scripts fit in 201 bytes for every destination they accept: the second error never happens.\<close>

lemma forwarders_fit:
  "extended_parts job_id destination =
     (if destination = [] \<or> length destination > 75 then Inl DestinationLength
      else Inr ([0x20] @ PXH1 @ to_le_bytes job_id, [OP_DROP] @ projr (forwarder_body destination)))"
  by (simp add: extended_parts_def forwarder_body_def PXH1_def MAX_P2S_def Let_def)

lemma leaf_preimage_inj: "leaf_wf l \<Longrightarrow> leaf_wf l' \<Longrightarrow> leaf_preimage l = leaf_preimage l' \<Longrightarrow> l = l'"
  by (metis leaf_parse_preimage option.inject)

section \<open>Properties\<close>

text \<open>A leaf's parser accepts exactly the 169-byte preimages of well-formed leaves and returns the
  leaf that was written: the encoding is canonical and loses nothing.\<close>

theorem leaf_round_trip: "leaf_parse bs = Some l \<longleftrightarrow> leaf_wf l \<and> bs = leaf_preimage l"
  by (rule leaf_parse_iff)

text \<open>The commitment parser accepts exactly the 53-byte outputs of well-formed commitments (height at
  most 16, and the zero root only as the empty commitment) and returns the one that was written.\<close>

theorem commitment_round_trip:
  "commitment_parse output = Some c \<longleftrightarrow> commitment_wf c \<and> output = commitment_output c"
  by (rule commitment_parse_iff)

text \<open>The own-root check passes exactly when the coinbase is a fixed-shape head followed by this
  server's commitment output.\<close>

theorem own_root_check_exact:
  assumes "length (ac_root expected) = 32"
  shows "check_own_root coinbase expected = Inr () \<longleftrightarrow>
    (\<exists>head tail. coinbase = head @ commitment_output expected @ tail \<and> check_head head)"
  by (rule check_own_root_iff [OF assms])

definition demo_head :: bytes where
  "demo_head = [2, 0, 0, 0] @ NULL_INPUT @ [3, 7, 8, 9, 255, 255, 255, 255, 2]"

lemma length_NULL_INPUT: "length NULL_INPUT = 37"
  by (simp add: NULL_INPUT_def)

lemma demo_head_ok: "check_head demo_head"
  by (simp add: check_head_def demo_head_def length_NULL_INPUT get_byte_def MAX_SCRIPT_SIG_def subrange_simps nth_append)

theorem own_root_check_exact_witness:
  "check_own_root (demo_head @ commitment_output EMPTY_COMMITMENT @ [0, 0, 0, 0]) EMPTY_COMMITMENT = Inr ()"
proof -
  have "length (ac_root EMPTY_COMMITMENT) = 32" by (simp add: EMPTY_COMMITMENT_def ZERO_HASH_def)
  from own_root_check_exact [OF this] demo_head_ok show ?thesis by blast
qed

text \<open>A win record decodes exactly from the encoding of a record with an 80-byte header, a 32-byte
  transaction id and a script of at most 201 bytes, and decodes to that record.\<close>

theorem header_win_round_trip: "win_decode bs = Inr w \<longleftrightarrow> win_wf w \<and> bs = win_encode w"
  by (rule win_decode_iff)

end
