(* ===== verification/Merge_Verify.thy ===== *)
theory Merge_Verify
  imports Merge_Format
begin

text \<open>
  \<open>src/stratum_v2/merge/proof.rs\<close> (the canonical encoding of an \<open>AuxProof\<close>) and \<open>verify.rs\<close> (the
  reference verifier of what a token covenant checks), with the target comparison of \<open>template.rs\<close>.
\<close>

section \<open>Proofs and their encoding\<close>

datatype ProofError =
  Decode | Shape | Height | Target | CoinbaseHead | CoinbaseTail | MerkleRoot | Work | NotInJob

record AuxProof =
  ap_header :: bytes
  ap_height :: u8
  ap_salt :: u32
  ap_aux_branch :: "hash list"
  ap_cb_head :: bytes
  ap_cb_tail :: bytes
  ap_cb_branch :: "hash list"

definition PROOF_MAGIC :: bytes where
  "PROOF_MAGIC = [0x43, 0x54, 0x4d, 0x50]"

definition PROOF_VERSION :: u8 where
  "PROOF_VERSION = 2"

definition MAX_COINBASE_BRANCH :: nat where
  "MAX_COINBASE_BRANCH = 25"

definition FIXED_LEN :: nat where
  "FIXED_LEN = 4 + 1 + 80 + 1 + 4 + 2 + 2 + 1"

definition check_shape :: "AuxProof \<Rightarrow> (ProofError, unit) result" where
  "check_shape p =
     (if ap_height p \<le> MAX_HEIGHT \<and> length (ap_aux_branch p) = unat (ap_height p)
         \<and> length (ap_cb_branch p) \<le> MAX_COINBASE_BRANCH \<and> length (ap_cb_head p) \<le> 65535
         \<and> length (ap_cb_tail p) \<le> 65535
      then Inr () else Inl Shape)"

definition encoded_len :: "AuxProof \<Rightarrow> nat" where
  "encoded_len p = FIXED_LEN + 32 * length (ap_aux_branch p) + length (ap_cb_head p) + length (ap_cb_tail p)
     + 32 * length (ap_cb_branch p)"

definition put_part :: "bytes \<Rightarrow> bytes" where
  "put_part part = to_le_bytes (word_of_nat (length part) :: u16) @ part"

definition to_bytes :: "AuxProof \<Rightarrow> (ProofError, bytes) result" where
  "to_bytes p = result_bind (check_shape p) (\<lambda>_.
     Inr (PROOF_MAGIC @ [PROOF_VERSION] @ ap_header p @ [ap_height p] @ to_le_bytes (ap_salt p) @
       concat (ap_aux_branch p) @ put_part (ap_cb_head p) @ put_part (ap_cb_tail p) @
       [word_of_nat (length (ap_cb_branch p))] @ concat (ap_cb_branch p)))"

text \<open>The reader: what was taken, and the bytes left.\<close>

definition rd_take :: "nat \<Rightarrow> bytes \<Rightarrow> (ProofError, bytes \<times> bytes) result" where
  "rd_take count bs = (if length bs < count then Inl Decode else Inr (take count bs, drop count bs))"

definition rd_byte :: "bytes \<Rightarrow> (ProofError, u8 \<times> bytes) result" where
  "rd_byte bs = result_bind (rd_take 1 bs) (\<lambda>(taken, rest). Inr (taken ! 0, rest))"

fun rd_hashes :: "nat \<Rightarrow> bytes \<Rightarrow> (ProofError, hash list \<times> bytes) result" where
  "rd_hashes 0 bs = Inr ([], bs)"
| "rd_hashes (Suc count) bs =
     result_bind (rd_take 32 bs) (\<lambda>(h, rest).
       result_bind (rd_hashes count rest) (\<lambda>(hs, rest'). Inr (h # hs, rest')))"

definition rd_part :: "bytes \<Rightarrow> (ProofError, bytes \<times> bytes) result" where
  "rd_part bs = result_bind (rd_take 2 bs) (\<lambda>(len, rest). rd_take (unat (from_le_bytes len :: u16)) rest)"

definition from_bytes :: "bytes \<Rightarrow> (ProofError, AuxProof) result" where
  "from_bytes bs =
     result_bind (rd_take 4 bs) (\<lambda>(magic, bs).
     if magic \<noteq> PROOF_MAGIC then Inl Decode else
     result_bind (rd_byte bs) (\<lambda>(version, bs).
     if version \<noteq> PROOF_VERSION then Inl Decode else
     result_bind (rd_take 80 bs) (\<lambda>(header, bs).
     result_bind (rd_byte bs) (\<lambda>(height, bs).
     if height > MAX_HEIGHT then Inl Decode else
     result_bind (rd_take 4 bs) (\<lambda>(salt, bs).
     result_bind (rd_hashes (unat height) bs) (\<lambda>(aux_branch, bs).
     result_bind (rd_part bs) (\<lambda>(cb_head, bs).
     result_bind (rd_part bs) (\<lambda>(cb_tail, bs).
     result_bind (rd_byte bs) (\<lambda>(depth, bs).
     if unat depth > MAX_COINBASE_BRANCH then Inl Decode else
     result_bind (rd_hashes (unat depth) bs) (\<lambda>(cb_branch, bs).
     if bs \<noteq> [] then Inl Decode else
     Inr \<lparr>ap_header = header, ap_height = height, ap_salt = from_le_bytes salt, ap_aux_branch = aux_branch,
          ap_cb_head = cb_head, ap_cb_tail = cb_tail, ap_cb_branch = cb_branch\<rparr>))))))))))"

section \<open>Verification\<close>

record ClaimView =
  cv_category :: hash
  cv_lock_hash :: hash
  cv_state_hash :: hash
  cv_payout :: bytes
  cv_target_bits :: u32
  cv_ext :: hash
  cv_max_aux_height :: u8

definition claim_leaf :: "(bytes \<Rightarrow> bytes) \<Rightarrow> ClaimView \<Rightarrow> Leaf" where
  "claim_leaf sha view = leaf_new sha (cv_category view) (cv_lock_hash view) (cv_state_hash view)
     (cv_payout view) (cv_target_bits view) (cv_ext view)"

definition expand_compact :: "u32 \<Rightarrow> hash option" where
  "expand_compact bits =
     (let exp = unat (drop_bit 24 bits);
          mant = bits AND 0x00ffffff
      in if \<not> (3 \<le> exp \<and> exp \<le> 32) \<or> mant = 0 \<or> mant \<ge> 0x00800000 then None
         else Some (replicate (exp - 3) 0 @ take 3 (to_le_bytes mant) @ replicate (32 - exp) 0))"

text \<open>\<open>Iterator::cmp\<close> of two byte sequences, as \<open>is_le\<close> reads it.\<close>

fun cmp_le :: "bytes \<Rightarrow> bytes \<Rightarrow> bool" where
  "cmp_le [] _ = True"
| "cmp_le (_ # _) [] = False"
| "cmp_le (a # as) (b # bs) = (a < b \<or> a = b \<and> cmp_le as bs)"

definition meets_target :: "hash \<Rightarrow> hash \<Rightarrow> bool" where
  "meets_target h target = cmp_le (rev h) (rev target)"

fun merkle_fold :: "(bytes \<Rightarrow> bytes) \<Rightarrow> hash \<Rightarrow> hash list \<Rightarrow> hash" where
  "merkle_fold sha merkle [] = merkle"
| "merkle_fold sha merkle (sibling # rest) = merkle_fold sha (double_sha256 sha (merkle @ sibling)) rest"

definition leaf_root :: "(bytes \<Rightarrow> bytes) \<Rightarrow> AuxProof \<Rightarrow> Leaf \<Rightarrow> hash" where
  "leaf_root sha p leaf =
     fold_branch sha (leaf_hash sha leaf) (slot sha (lf_category leaf) (ap_salt p) (ap_height p)) (ap_aux_branch p)"

definition proof_coinbase :: "(bytes \<Rightarrow> bytes) \<Rightarrow> AuxProof \<Rightarrow> Leaf \<Rightarrow> bytes" where
  "proof_coinbase sha p leaf =
     ap_cb_head p @
     commitment_output \<lparr>ac_root = leaf_root sha p leaf, ac_height = ap_height p, ac_salt = ap_salt p\<rparr> @
     ap_cb_tail p"

definition verify_leaf :: "(bytes \<Rightarrow> bytes) \<Rightarrow> AuxProof \<Rightarrow> Leaf \<Rightarrow> u8 \<Rightarrow> (ProofError, unit) result" where
  "verify_leaf sha p leaf max_aux_height =
     result_bind (check_shape p) (\<lambda>_.
     result_bind (ok_or Target (expand_compact (lf_target_bits leaf))) (\<lambda>target.
     if ap_height p > min max_aux_height MAX_HEIGHT then Inl Height
     else if \<not> check_head (ap_cb_head p) then Inl CoinbaseHead
     else if length (ap_cb_tail p) < 4 then Inl CoinbaseTail
     else let merkle = merkle_fold sha (double_sha256 sha (proof_coinbase sha p leaf)) (ap_cb_branch p)
          in if subrange (ap_header p) 36 68 \<noteq> merkle then Inl MerkleRoot
             else if \<not> meets_target (double_sha256 sha (ap_header p)) target then Inl Work
             else Inr ()))"

definition verify_proof :: "(bytes \<Rightarrow> bytes) \<Rightarrow> AuxProof \<Rightarrow> ClaimView \<Rightarrow> (ProofError, unit) result" where
  "verify_proof sha p view = verify_leaf sha p (claim_leaf sha view) (cv_max_aux_height view)"

definition verify :: "(bytes \<Rightarrow> bytes) \<Rightarrow> bytes \<Rightarrow> ClaimView \<Rightarrow> (ProofError, AuxProof) result" where
  "verify sha bs view =
     result_bind (from_bytes bs) (\<lambda>p. result_bind (verify_proof sha p view) (\<lambda>_. Inr p))"

section \<open>The encoding is canonical\<close>

definition proof_wf :: "AuxProof \<Rightarrow> bool" where
  "proof_wf p \<longleftrightarrow> length (ap_header p) = 80 \<and> list_all (\<lambda>h. length h = 32) (ap_aux_branch p) \<and>
     list_all (\<lambda>h. length h = 32) (ap_cb_branch p)"

lemma rd_take_iff: "rd_take n bs = Inr (x, rest) \<longleftrightarrow> bs = x @ rest \<and> length x = n"
  by (auto simp: rd_take_def not_less)

lemma rd_byte_iff: "rd_byte bs = Inr (b, rest) \<longleftrightarrow> bs = b # rest"
  by (auto simp: rd_byte_def result_bind_Inr_iff rd_take_iff length_Suc_conv split: prod.splits)

lemma rd_hashes_iff:
  "rd_hashes n bs = Inr (hs, rest) \<longleftrightarrow> bs = concat hs @ rest \<and> length hs = n \<and> list_all (\<lambda>h. length h = 32) hs"
proof (induction n arbitrary: bs hs)
  case (Suc n)
  show ?case
    by (cases hs) (auto simp: result_bind_Inr_iff rd_take_iff Suc split: prod.splits)
qed auto

lemma rd_part_iff: "rd_part bs = Inr (x, rest) \<longleftrightarrow> bs = put_part x @ rest \<and> length x \<le> 65535"
proof -
  have lt: "unat (w :: u16) \<le> 65535" for w using unsigned_less [of w, where ?'a = nat] by simp
  have "rd_part bs = Inr (x, rest) \<longleftrightarrow>
      (\<exists>len. length len = 2 \<and> bs = len @ x @ rest \<and> length x = unat (from_le_bytes len :: u16))"
    by (auto simp: rd_part_def result_bind_Inr_iff rd_take_iff split: prod.splits)
  also have "\<dots> \<longleftrightarrow> bs = to_le_bytes (word_of_nat (length x) :: u16) @ x @ rest \<and> length x \<le> 65535"
  proof (intro iffI conjI; elim exE conjE)
    fix len assume len: "length (len :: bytes) = 2" "bs = len @ x @ rest" "length x = unat (from_le_bytes len :: u16)"
    then show "bs = to_le_bytes (word_of_nat (length x) :: u16) @ x @ rest"
      by (simp add: to_from_le_bytes)
    show "length x \<le> 65535" using len(3) lt by simp
  next
    assume a: "bs = to_le_bytes (word_of_nat (length x) :: u16) @ x @ rest" "length x \<le> 65535"
    then have "unat (word_of_nat (length x) :: u16) = length x" by (simp add: unat_of_nat)
    with a show "\<exists>len. length len = 2 \<and> bs = len @ x @ rest \<and> length x = unat (from_le_bytes len :: u16)"
      by (intro exI [of _ "to_le_bytes (word_of_nat (length x) :: u16)"]) (simp add: from_to_le_bytes)
  qed
  finally show ?thesis by (simp add: put_part_def)
qed

lemma rd_steps:
  "length x = n \<Longrightarrow> rd_take n (x @ rest) = Inr (x, rest)"
  "rd_byte (b # rest) = Inr (b, rest)"
  "length hs = n \<Longrightarrow> list_all (\<lambda>h. length h = 32) hs \<Longrightarrow> rd_hashes n (concat hs @ rest) = Inr (hs, rest)"
  "length hs = n \<Longrightarrow> list_all (\<lambda>h. length h = 32) hs \<Longrightarrow> rd_hashes n (concat hs) = Inr (hs, [])"
  "length x \<le> 65535 \<Longrightarrow> rd_part (put_part x @ rest) = Inr (x, rest)"
  by (simp_all add: rd_take_iff rd_byte_iff rd_hashes_iff rd_part_iff)

lemma from_to_bytes:
  assumes "proof_wf p" and "to_bytes p = Inr bs"
  shows "from_bytes bs = Inr p"
proof -
  have magic: "length PROOF_MAGIC = 4" by (simp add: PROOF_MAGIC_def)
  have "check_shape p = Inr ()" using assms(2) by (simp add: to_bytes_def result_bind_Inr_iff)
  then have sh: "ap_height p \<le> MAX_HEIGHT" "length (ap_aux_branch p) = unat (ap_height p)"
         "length (ap_cb_branch p) \<le> MAX_COINBASE_BRANCH" "length (ap_cb_head p) \<le> 65535"
         "length (ap_cb_tail p) \<le> 65535"
    by (auto simp: check_shape_def split: if_splits)
  have d: "unat (word_of_nat (length (ap_cb_branch p)) :: u8) = length (ap_cb_branch p)"
    using sh(3) by (simp add: unat_of_nat MAX_COINBASE_BRANCH_def)
  show ?thesis
    using assms sh unfolding from_bytes_def to_bytes_def proof_wf_def \<open>check_shape p = Inr ()\<close>
    by (clarsimp simp: rd_steps magic d from_to_le_bytes not_less)
qed

lemma from_bytes_Inr:
  assumes "from_bytes bs = Inr p"
  shows "proof_wf p" and "to_bytes p = Inr bs"
proof -
  have magic: "length PROOF_MAGIC = 4" by (simp add: PROOF_MAGIC_def)
  have "proof_wf p \<and> to_bytes p = Inr bs"
    using assms unfolding from_bytes_def
    by (clarsimp simp: result_bind_Inr_iff rd_take_iff rd_byte_iff rd_hashes_iff rd_part_iff not_less proof_wf_def
        to_bytes_def check_shape_def to_from_le_bytes split: if_splits)
  then show "proof_wf p" "to_bytes p = Inr bs" by simp_all
qed

lemma from_bytes_iff: "from_bytes bs = Inr p \<longleftrightarrow> proof_wf p \<and> to_bytes p = Inr bs"
  using from_to_bytes from_bytes_Inr by blast

lemma length_to_bytes: "proof_wf p \<Longrightarrow> to_bytes p = Inr bs \<Longrightarrow> length bs = encoded_len p"
proof -
  have c: "list_all (\<lambda>h. length h = 32) hs \<Longrightarrow> length (concat hs) = 32 * length hs" for hs :: "hash list"
    by (induction hs) simp_all
  show "proof_wf p \<Longrightarrow> to_bytes p = Inr bs \<Longrightarrow> length bs = encoded_len p"
    by (auto simp: to_bytes_def result_bind_Inr_iff proof_wf_def encoded_len_def FIXED_LEN_def put_part_def
        PROOF_MAGIC_def c)
qed

section \<open>Targets\<close>

lemma cmp_le_be: "length as = length bs \<Longrightarrow> cmp_le as bs \<longleftrightarrow> le_nat (rev as) \<le> le_nat (rev bs)"
proof (induction as bs rule: list_induct2)
  case (Cons a as b bs)
  let ?B = "(2 ^ 8) ^ length as :: nat"
  have lt: "le_nat (rev as) < ?B" "le_nat (rev bs) < ?B"
    using le_nat_less [of "rev as"] le_nat_less [of "rev bs"] Cons.hyps by simp_all
  have e: "le_nat (rev (a # as)) = le_nat (rev as) + ?B * unat a" "le_nat (rev (b # bs)) = le_nat (rev bs) + ?B * unat b"
    using Cons.hyps by (simp_all add: le_nat_append)
  consider "unat a < unat b" | "unat a = unat b" | "unat b < unat a" by linarith
  then show ?case
  proof cases
    case 1
    then have "?B * unat a + ?B \<le> ?B * unat b" using mult_le_mono2 [of "Suc (unat a)" "unat b" ?B] by simp
    with lt have "le_nat (rev (a # as)) \<le> le_nat (rev (b # bs))" unfolding e by linarith
    with 1 show ?thesis by (simp add: word_less_nat_alt)
  next
    case 2
    then have "a = b" by (simp add: word_unat_eq_iff)
    with Cons.IH e show ?thesis by simp
  next
    case 3
    then have "?B * unat b + ?B \<le> ?B * unat a" using mult_le_mono2 [of "Suc (unat b)" "unat a" ?B] by simp
    with lt have "\<not> le_nat (rev (a # as)) \<le> le_nat (rev (b # bs))" unfolding e by linarith
    moreover have "\<not> a < b" "a \<noteq> b" using 3 by (auto simp: word_less_nat_alt)
    ultimately show ?thesis by simp
  qed
qed simp

lemma meets_target_iff: "length h = length t \<Longrightarrow> meets_target h t \<longleftrightarrow> le_nat h \<le> le_nat t"
  by (simp add: meets_target_def cmp_le_be)

lemma expand_compact_value:
  assumes "expand_compact bits = Some t"
  shows "length t = 32" and "le_nat t = unat bits mod 2 ^ 24 * 256 ^ (unat bits div 2 ^ 24 - 3)"
    and "0 < le_nat t"
proof -
  let ?e = "unat bits div 2 ^ 24" and ?m = "bits AND 0x00ffffff"
  have m: "unat ?m = unat bits mod 2 ^ 24"
    using unat_and_mask [of bits 24] by (simp add: mask_eq_exp_minus_1)
  have e: "3 \<le> ?e" "?e \<le> 32" and m0: "?m \<noteq> 0"
    and t: "t = replicate (?e - 3) 0 @ take 3 (to_le_bytes ?m) @ replicate (32 - ?e) 0"
    using assms by (auto simp: expand_compact_def Let_def unat_drop_bit split: if_splits)
  show "length t = 32" using e by (simp add: t)
  have three: "le_nat (take 3 (to_le_bytes ?m)) = unat ?m"
  proof -
    define bs where "bs = to_le_bytes ?m"
    have l: "LENGTH(32) div 8 = 4" by simp
    have "le_nat bs = unat ?m mod (2 ^ LENGTH(8)) ^ 4"
      unfolding bs_def to_le_bytes_def l by (rule le_nat_nat_le)
    also have "\<dots> = unat ?m" using m by simp
    finally have v: "le_nat bs = unat ?m" .
    have s: "le_nat bs = le_nat (take 3 bs) + 2 ^ 24 * le_nat (drop 3 bs)"
      using le_nat_append [of "take 3 bs" "drop 3 bs"] by (simp add: bs_def)
    have "unat ?m < 2 ^ 24" using m by simp
    with v s have "le_nat (drop 3 bs) = 0" by (cases "le_nat (drop 3 bs)") simp_all
    with v s show ?thesis by (simp add: bs_def)
  qed
  have len: "length (take 3 (to_le_bytes ?m)) = 3" by simp
  have "le_nat t = (2 ^ 8) ^ (?e - 3) * unat ?m"
    unfolding t le_nat_append len three by simp
  then show v: "le_nat t = unat bits mod 2 ^ 24 * 256 ^ (?e - 3)" by (simp add: m)
  show "0 < le_nat t" using v m m0 by (simp add: word_unat_eq_iff)
qed

section \<open>One header pays one leaf\<close>

text \<open>
  The messages the verifier hashes, in order. Two accepted proofs either agree or two of these
  messages, one of each proof, are different with the same digest.
\<close>

definition collision :: "(bytes \<Rightarrow> bytes) \<Rightarrow> bytes list \<Rightarrow> bytes list \<Rightarrow> bool" where
  "collision sha qs qs' \<longleftrightarrow> (\<exists>m\<in>set qs. \<exists>m'\<in>set qs'. m \<noteq> m' \<and> sha m = sha m')"

fun merkle_queries :: "(bytes \<Rightarrow> bytes) \<Rightarrow> bytes \<Rightarrow> hash list \<Rightarrow> bytes list" where
  "merkle_queries sha m [] = [m, sha m]"
| "merkle_queries sha m (s # rest) = m # sha m # merkle_queries sha (double_sha256 sha m @ s) rest"

fun fold_queries :: "(bytes \<Rightarrow> bytes) \<Rightarrow> bytes \<Rightarrow> u32 \<Rightarrow> hash list \<Rightarrow> bytes list" where
  "fold_queries sha c index [] = []"
| "fold_queries sha c index (s # rest) =
     (let m = (if index AND 1 = 1 then [NODE_PREFIX] @ s @ c else [NODE_PREFIX] @ c @ s)
      in m # fold_queries sha (sha m) (drop_bit 1 index) rest)"

definition verifier_queries :: "(bytes \<Rightarrow> bytes) \<Rightarrow> AuxProof \<Rightarrow> Leaf \<Rightarrow> bytes list" where
  "verifier_queries sha p leaf =
     ([LEAF_PREFIX] @ leaf_preimage leaf) #
     fold_queries sha (leaf_hash sha leaf) (slot sha (lf_category leaf) (ap_salt p) (ap_height p)) (ap_aux_branch p) @
     merkle_queries sha (proof_coinbase sha p leaf) (ap_cb_branch p)"

lemma collision_mono: "collision sha qs qs' \<Longrightarrow> set qs \<subseteq> set rs \<Longrightarrow> set qs' \<subseteq> set rs' \<Longrightarrow> collision sha rs rs'"
  by (auto simp: collision_def)

lemma double_collision:
  "double_sha256 sha m = double_sha256 sha m' \<Longrightarrow> m = m' \<or> collision sha [m, sha m] [m', sha m']"
  by (auto simp: collision_def double_sha256_def)

lemma merkle_queries_start: "{m, sha m} \<subseteq> set (merkle_queries sha m b)"
  by (cases b) auto

lemma merkle_queries_snoc:
  "merkle_queries sha m (b @ [s])
    = merkle_queries sha m b @ merkle_queries sha (merkle_fold sha (double_sha256 sha m) b @ s) []"
  by (induction b arbitrary: m) simp_all

lemma merkle_fold_snoc:
  "merkle_fold sha m (b @ [s]) = double_sha256 sha (merkle_fold sha m b @ s)"
  by (induction b arbitrary: m) simp_all

lemma length_double [simp]: "hash32 sha \<Longrightarrow> length (double_sha256 sha m) = 32"
  by (simp add: double_sha256_def hash32.length_sha)

lemma length_merkle_fold:
  "hash32 sha \<Longrightarrow> length m = 32 \<Longrightarrow> length (merkle_fold sha m b) = 32"
  by (induction b arbitrary: m) simp_all

text \<open>A message of more than 64 bytes is never an inner node, so branches of different depths cannot meet.\<close>

lemma merkle_binding:
  assumes "hash32 sha" and "length m > 64" and "length m' > 64"
    and "list_all (\<lambda>h. length h = 32) b" and "list_all (\<lambda>h. length h = 32) b'"
    and "merkle_fold sha (double_sha256 sha m) b = merkle_fold sha (double_sha256 sha m') b'"
  shows "m = m' \<or> collision sha (merkle_queries sha m b) (merkle_queries sha m' b')"
  using assms(4-6)
proof (induction b arbitrary: b' rule: rev_induct)
  case Nil
  show ?case
  proof (cases b' rule: rev_cases)
    case Nil
    then show ?thesis using \<open>merkle_fold _ _ [] = _\<close> double_collision by auto
  next
    case (snoc c s)
    let ?pair = "merkle_fold sha (double_sha256 sha m') c @ s"
    have "length ?pair = 64" using Nil.prems(2) snoc assms(1) by (simp add: length_merkle_fold)
    then have "m \<noteq> ?pair" using assms(2) by auto
    moreover have "double_sha256 sha m = double_sha256 sha ?pair" using Nil.prems(3) snoc by (simp add: merkle_fold_snoc)
    ultimately have "collision sha [m, sha m] [?pair, sha ?pair]" using double_collision by blast
    then show ?thesis using snoc by (auto simp: merkle_queries_snoc intro: collision_mono)
  qed
next
  case (snoc s b)
  let ?pair = "merkle_fold sha (double_sha256 sha m) b @ s"
  have len: "length ?pair = 64" using snoc.prems(1) assms(1) by (simp add: length_merkle_fold)
  show ?case
  proof (cases b' rule: rev_cases)
    case Nil
    then have "m' \<noteq> ?pair" using len assms(3) by auto
    moreover have "double_sha256 sha ?pair = double_sha256 sha m'" using snoc.prems(3) Nil by (simp add: merkle_fold_snoc)
    ultimately have "collision sha [?pair, sha ?pair] [m', sha m']" using double_collision by blast
    then show ?thesis using Nil by (auto simp: merkle_queries_snoc intro: collision_mono)
  next
    case 2: (snoc c t)
    let ?pair' = "merkle_fold sha (double_sha256 sha m') c @ t"
    have "double_sha256 sha ?pair = double_sha256 sha ?pair'" using snoc.prems(3) 2 by (simp add: merkle_fold_snoc)
    then consider "collision sha [?pair, sha ?pair] [?pair', sha ?pair']" | "?pair = ?pair'"
      using double_collision by blast
    then show ?thesis
    proof cases
      case 1
      then show ?thesis by (auto simp: 2 merkle_queries_snoc intro: collision_mono)
    next
      case eq: 2
      have "length (merkle_fold sha (double_sha256 sha m) b) = length (merkle_fold sha (double_sha256 sha m') c)"
        using assms(1) by (simp add: length_merkle_fold)
      with eq have "merkle_fold sha (double_sha256 sha m) b = merkle_fold sha (double_sha256 sha m') c" by simp
      then have "m = m' \<or> collision sha (merkle_queries sha m b) (merkle_queries sha m' c)"
        using snoc.IH [of c] snoc.prems(1,2) 2 by simp
      then show ?thesis by (auto simp: 2 merkle_queries_snoc intro: collision_mono)
    qed
  qed
qed

lemma fold_collision_queries:
  assumes "collides sha (fold_collision sha c c' index b b')"
  shows "collision sha (fold_queries sha c index b) (fold_queries sha c' index b')"
  using assms
  by (induction sha c c' index b b' rule: fold_collision.induct)
    (auto simp: collides_def collision_def Let_def split: if_splits)

lemma head_binding:
  assumes "check_head h" and "check_head h'" and "length x = length x'" and "h @ x @ t = h' @ x' @ t'"
  shows "h = h' \<and> x = x' \<and> t = t'"
proof -
  have "(h @ x @ t) ! 41 = h ! 41" "(h' @ x' @ t') ! 41 = h' ! 41"
    using check_head_length(1) [OF assms(1)] check_head_length(1) [OF assms(2)] by (simp_all add: nth_append)
  then have "length h = length h'"
    using check_head_length(2) [OF assms(1)] check_head_length(2) [OF assms(2)] assms(4) by simp
  with assms(3,4) show ?thesis by simp
qed

lemma commitment_output_inj:
  assumes "length (ac_root c) = 32" and "length (ac_root c') = 32" and "commitment_output c = commitment_output c'"
  shows "c = c'"
proof -
  have "ac_root c @ [ac_height c] @ to_le_bytes (ac_salt c) = ac_root c' @ [ac_height c'] @ to_le_bytes (ac_salt c')"
    using assms(3) by (simp only: commitment_output_def commitment_script_def same_append_eq)
  with assms(1,2) have *: "ac_root c = ac_root c'" "ac_height c = ac_height c'"
    "to_le_bytes (ac_salt c) = to_le_bytes (ac_salt c')" by simp_all
  have "8 dvd LENGTH(32)" by simp
  with *(3) have "ac_salt c = ac_salt c'" by (metis from_to_le_bytes)
  with * show ?thesis by simp
qed

lemma verify_leaf_accepts:
  "verify_leaf sha p leaf mh = Inr () \<longleftrightarrow>
    check_shape p = Inr () \<and> ap_height p \<le> min mh MAX_HEIGHT \<and> check_head (ap_cb_head p) \<and> 4 \<le> length (ap_cb_tail p) \<and>
    merkle_fold sha (double_sha256 sha (proof_coinbase sha p leaf)) (ap_cb_branch p) = subrange (ap_header p) 36 68 \<and>
    (\<exists>target. expand_compact (lf_target_bits leaf) = Some target \<and> meets_target (double_sha256 sha (ap_header p)) target)"
  by (auto simp: verify_leaf_def result_bind_Inr_iff ok_or_Inr_iff Let_def not_less not_le split: if_splits)

lemma length_leaf_root: "hash32 sha \<Longrightarrow> length (leaf_root sha p leaf) = 32"
proof -
  assume h: "hash32 sha"
  then have "length c = 32 \<Longrightarrow> length (fold_branch sha c i b) = 32" for c i b
    by (induction b arbitrary: c i) (simp_all add: node_def hash32.length_sha)
  with h show ?thesis by (simp add: leaf_root_def leaf_hash_def hash32.length_sha)
qed

lemma length_proof_coinbase:
  assumes "hash32 sha" and "check_head (ap_cb_head p)"
  shows "length (proof_coinbase sha p leaf) > 64"
  using check_head_length(1) [OF assms(2)] length_leaf_root [OF assms(1), of p leaf]
  by (simp add: proof_coinbase_def length_commitment_output OUTPUT_LEN_def)

lemma accepted_leaves_agree:
  assumes sha: "hash32 sha" and wf: "proof_wf p" "proof_wf p'" "leaf_wf leaf" "leaf_wf leaf'"
    and header: "ap_header p = ap_header p'" and cat: "lf_category leaf = lf_category leaf'"
    and ok: "verify_leaf sha p leaf mh = Inr ()" "verify_leaf sha p' leaf' mh' = Inr ()"
  shows "leaf = leaf' \<or> collision sha (verifier_queries sha p leaf) (verifier_queries sha p' leaf')"
proof (rule ccontr)
  assume "\<not> ?thesis"
  then have ne: "leaf \<noteq> leaf'" and nc: "\<not> collision sha (verifier_queries sha p leaf) (verifier_queries sha p' leaf')"
    by simp_all
  note A = ok(1) [unfolded verify_leaf_accepts] ok(2) [unfolded verify_leaf_accepts]
  let ?c = "proof_coinbase sha p leaf" and ?c' = "proof_coinbase sha p' leaf'"
  have heads: "check_head (ap_cb_head p)" "check_head (ap_cb_head p')" using A by blast+
  have "merkle_fold sha (double_sha256 sha ?c) (ap_cb_branch p) = merkle_fold sha (double_sha256 sha ?c') (ap_cb_branch p')"
    using A header by simp
  from merkle_binding [OF sha length_proof_coinbase [OF sha heads(1)] length_proof_coinbase [OF sha heads(2)] _ _ this]
  have "?c = ?c' \<or> collision sha (merkle_queries sha ?c (ap_cb_branch p)) (merkle_queries sha ?c' (ap_cb_branch p'))"
    using wf by (simp add: proof_wf_def)
  with nc have "?c = ?c'" by (auto simp: verifier_queries_def intro: collision_mono)
  then have "commitment_output \<lparr>ac_root = leaf_root sha p leaf, ac_height = ap_height p, ac_salt = ap_salt p\<rparr>
      = commitment_output \<lparr>ac_root = leaf_root sha p' leaf', ac_height = ap_height p', ac_salt = ap_salt p'\<rparr>"
    unfolding proof_coinbase_def using head_binding [OF heads] length_leaf_root [OF sha]
    by (metis AuxCommitment.select_convs(1) length_commitment_output)
  from commitment_output_inj [OF _ _ this] length_leaf_root [OF sha]
  have eq: "leaf_root sha p leaf = leaf_root sha p' leaf'" "ap_height p = ap_height p'" "ap_salt p = ap_salt p'"
    by simp_all
  let ?s = "slot sha (lf_category leaf) (ap_salt p) (ap_height p)"
  have f: "fold_branch sha (leaf_hash sha leaf) ?s (ap_aux_branch p) = fold_branch sha (leaf_hash sha leaf') ?s (ap_aux_branch p')"
    using eq cat by (simp add: leaf_root_def)
  have lens: "length (ap_aux_branch p) = length (ap_aux_branch p')"
    using A eq(2) by (auto simp: check_shape_def split: if_splits)
  have b: "\<forall>s\<in>set (ap_aux_branch p) \<union> set (ap_aux_branch p'). length s = 32"
    using wf by (auto simp: proof_wf_def list_all_iff)
  have "leaf_hash sha leaf = leaf_hash sha leaf'"
  proof (rule ccontr)
    assume d: "leaf_hash sha leaf \<noteq> leaf_hash sha leaf'"
    have "length (leaf_hash sha leaf) = length (leaf_hash sha leaf')"
      using sha by (simp add: leaf_hash_def hash32.length_sha)
    from fold_collision_queries [OF fold_binding [OF lens this d b sha f]] nc eq cat
    show False by (auto simp: verifier_queries_def intro: collision_mono)
  qed
  moreover have "leaf_preimage leaf \<noteq> leaf_preimage leaf'" using ne leaf_preimage_inj wf by blast
  ultimately have "collision sha [[LEAF_PREFIX] @ leaf_preimage leaf] [[LEAF_PREFIX] @ leaf_preimage leaf']"
    by (simp add: collision_def leaf_hash_def)
  with nc show False by (auto simp: verifier_queries_def intro: collision_mono)
qed

text \<open>A constant digest, and a proof and leaf it accepts.\<close>

definition zero_sha :: "bytes \<Rightarrow> bytes" where
  "zero_sha m = ZERO_HASH"

lemma zero_sha_hash32: "hash32 zero_sha"
  by unfold_locales (simp add: zero_sha_def ZERO_HASH_def)

definition demo_proof :: AuxProof where
  "demo_proof = \<lparr>ap_header = replicate 80 0, ap_height = 0, ap_salt = 7, ap_aux_branch = [],
     ap_cb_head = demo_head, ap_cb_tail = [0, 0, 0, 0], ap_cb_branch = []\<rparr>"

definition demo_leaf :: Leaf where
  "demo_leaf = \<lparr>lf_category = replicate 32 1, lf_lock_hash = replicate 32 2, lf_state_hash = replicate 32 3,
     lf_payout_hash = replicate 32 4, lf_target_bits = 0x20000001, lf_ext = ZERO_HASH\<rparr>"

lemma demo_wf: "proof_wf demo_proof" "leaf_wf demo_leaf"
  by (simp_all add: proof_wf_def demo_proof_def leaf_wf_def demo_leaf_def ZERO_HASH_def)

lemma demo_target: "expand_compact 0x20000001 = Some (replicate 29 0 @ take 3 (to_le_bytes (1 :: u32)))"
  by (simp add: expand_compact_def word_le_nat_alt)

lemma demo_accepted:
  assumes "lf_target_bits leaf = 0x20000001"
  shows "verify_leaf zero_sha demo_proof leaf 16 = Inr ()"
proof -
  have len: "length demo_head = 50" by (simp add: demo_head_def NULL_INPUT_def)
  have shape: "check_shape demo_proof = Inr ()"
    by (simp add: check_shape_def demo_proof_def MAX_HEIGHT_def len)
  have head: "subrange (ap_header demo_proof) 36 68 = ZERO_HASH"
    by (simp add: demo_proof_def ZERO_HASH_def subrange_def)
  have z: "double_sha256 zero_sha m = ZERO_HASH" for m by (simp add: double_sha256_def zero_sha_def)
  have "meets_target ZERO_HASH (replicate 29 0 @ take 3 (to_le_bytes (1 :: u32)))"
    by (subst meets_target_iff) (simp_all add: ZERO_HASH_def)
  then show ?thesis
    unfolding verify_leaf_accepts using shape head demo_head_ok
    by (simp add: z demo_target assms) (simp add: demo_proof_def MAX_HEIGHT_def)
qed
section \<open>Properties\<close>

text \<open>The proof decoder accepts exactly the encodings of well-formed proofs within the format's limits and
  returns the proof that was encoded: nothing else decodes, and nothing is lost.\<close>

theorem proof_round_trip: "from_bytes bs = Inr p \<longleftrightarrow> proof_wf p \<and> to_bytes p = Inr bs"
  by (rule from_bytes_iff)

text \<open>C29. A win cannot be redirected: if one block header is accepted for two leaves of the same token
  category, by whatever proofs (their coinbases and branches may differ, also in depth), the leaves are
  the same, so the payout is the same, or two of the messages the verifier hashed collide.\<close>

theorem header_pays_one_leaf:
  assumes "hash32 sha" and "proof_wf p" and "proof_wf p'" and "leaf_wf leaf" and "leaf_wf leaf'"
    and "ap_header p = ap_header p'" and "lf_category leaf = lf_category leaf'"
    and "verify_leaf sha p leaf mh = Inr ()" and "verify_leaf sha p' leaf' mh' = Inr ()"
  shows "leaf = leaf' \<or> collision sha (verifier_queries sha p leaf) (verifier_queries sha p' leaf')"
  by (rule accepted_leaves_agree [OF assms])

theorem header_pays_one_leaf_witness:
  "collision zero_sha (verifier_queries zero_sha demo_proof demo_leaf)
    (verifier_queries zero_sha demo_proof (demo_leaf\<lparr>lf_payout_hash := replicate 32 5\<rparr>))"
proof -
  let ?other = "demo_leaf\<lparr>lf_payout_hash := replicate 32 5\<rparr>"
  have o: "leaf_wf ?other" "lf_category demo_leaf = lf_category ?other" "demo_leaf \<noteq> ?other"
    using demo_wf(2) by (simp_all add: leaf_wf_def demo_leaf_def)
  have "verify_leaf zero_sha demo_proof demo_leaf 16 = Inr ()" "verify_leaf zero_sha demo_proof ?other 16 = Inr ()"
    by (simp_all add: demo_accepted demo_leaf_def)
  from header_pays_one_leaf [OF zero_sha_hash32 demo_wf(1) demo_wf(1) demo_wf(2) o(1) refl o(2) this] o(3)
  show ?thesis by blast
qed

text \<open>The work rule: an accepted header's double hash, read as a little-endian number, is at most the
  leaf's target \<open>mantissa * 256^(exponent - 3)\<close>, whatever the header's own difficulty says.\<close>

theorem accepted_header_meets_target:
  assumes "hash32 sha" and "verify_leaf sha p leaf mh = Inr ()"
  shows "le_nat (double_sha256 sha (ap_header p))
    \<le> unat (lf_target_bits leaf) mod 2 ^ 24 * 256 ^ (unat (lf_target_bits leaf) div 2 ^ 24 - 3)"
proof -
  obtain t where t: "expand_compact (lf_target_bits leaf) = Some t" "meets_target (double_sha256 sha (ap_header p)) t"
    using assms(2) by (auto simp: verify_leaf_accepts)
  then show ?thesis
    using meets_target_iff [of "double_sha256 sha (ap_header p)" t] expand_compact_value [OF t(1)] assms(1) by simp
qed
theorem accepted_header_meets_target_witness:
  "le_nat (double_sha256 zero_sha (ap_header demo_proof)) \<le> 1 * 256 ^ 29"
  using accepted_header_meets_target [OF zero_sha_hash32 demo_accepted, of demo_leaf]
  by (simp add: demo_leaf_def)

end
