(* ===== verification/Donation.thy ===== *)
theory Donation
  imports Prelude
begin

text \<open>
  \<open>src/donation.rs\<close>: the token fee policy. A donation rate in hundredths of a percent with its
  parser, printer and steps; the schemes; the integer split of a reward; and the work schedule
  that says whom each batch of hashes is for. Text is ASCII.
\<close>

section \<open>Donation rates\<close>

datatype TokenDonation = TokenDonation u16

definition MAX_TOKEN_DONATION_BPS :: u16 where
  "MAX_TOKEN_DONATION_BPS = 9950"

definition TOKEN_DONATION_STEP_BPS :: u16 where
  "TOKEN_DONATION_STEP_BPS = 50"

definition from_bps :: "u16 \<Rightarrow> TokenDonation" where
  "from_bps bps = TokenDonation (if bps > MAX_TOKEN_DONATION_BPS then MAX_TOKEN_DONATION_BPS else bps)"

definition NEW_TOKEN_DONATION :: TokenDonation where
  "NEW_TOKEN_DONATION = TokenDonation 150"

fun bps :: "TokenDonation \<Rightarrow> u16" where
  "bps (TokenDonation b) = b"

instantiation TokenDonation :: linorder
begin

definition less_eq_TokenDonation :: "TokenDonation \<Rightarrow> TokenDonation \<Rightarrow> bool" where
  "a \<le> b \<longleftrightarrow> bps a \<le> bps b"

definition less_TokenDonation :: "TokenDonation \<Rightarrow> TokenDonation \<Rightarrow> bool" where
  "a < b \<longleftrightarrow> bps a < bps b"

instance
proof
  fix a b c :: TokenDonation
  show "a < b \<longleftrightarrow> a \<le> b \<and> \<not> b \<le> a" "a \<le> a" "a \<le> b \<Longrightarrow> b \<le> c \<Longrightarrow> a \<le> c" "a \<le> b \<or> b \<le> a"
    by (auto simp: less_eq_TokenDonation_def less_TokenDonation_def)
  show "a \<le> b \<Longrightarrow> b \<le> a \<Longrightarrow> a = b"
    by (cases a; cases b) (auto simp: less_eq_TokenDonation_def)
qed

end

definition adjusted :: "TokenDonation \<Rightarrow> bool \<Rightarrow> TokenDonation" where
  "adjusted d increase =
     from_bps
       (if increase then saturating_mul (bps d div TOKEN_DONATION_STEP_BPS + 1) TOKEN_DONATION_STEP_BPS
        else saturating_sub (word_of_nat (div_ceil (unat (bps d)) (unat TOKEN_DONATION_STEP_BPS))) 1
               * TOKEN_DONATION_STEP_BPS)"

definition work_shares :: "TokenDonation \<Rightarrow> TokenDonation \<Rightarrow> u16 \<times> u16 \<Rightarrow> u16 \<times> u16" where
  "work_shares d dflt shares =
     (if d \<ge> dflt then (saturating_add (fst shares) (bps d - bps dflt), snd shares)
      else let collaborator = ucast ((ucast (snd shares) :: u32) * ucast (bps d) div ucast (max (bps dflt) 1))
           in (bps d - collaborator, collaborator))"

datatype donation_error = NotAPercentage | TooHigh

definition try_from :: "u16 \<Rightarrow> (donation_error, TokenDonation) result" where
  "try_from b = (if b > MAX_TOKEN_DONATION_BPS then Inl TooHigh else Inr (TokenDonation b))"

section \<open>Text\<close>

definition is_space :: "char \<Rightarrow> bool" where
  "is_space c \<longleftrightarrow> of_char c \<in> {9, 10, 11, 12, 13, 32, 133, 160 :: nat}"

definition trim :: "string \<Rightarrow> string" where
  "trim s = rev (dropWhile is_space (rev (dropWhile is_space s)))"

definition is_digit :: "char \<Rightarrow> bool" where
  "is_digit c \<longleftrightarrow> 48 \<le> (of_char c :: nat) \<and> (of_char c :: nat) \<le> 57"

definition digit :: "char \<Rightarrow> nat" where
  "digit c = of_char c - 48"

text \<open>\<open>split_once\<close>; and \<open>parse\<close> of a string that is checked to be digits, into an integer of \<open>w\<close> bits.\<close>

fun split_once :: "char \<Rightarrow> string \<Rightarrow> (string \<times> string) option" where
  "split_once c [] = None"
| "split_once c (x # xs) = (if x = c then Some ([], xs) else map_option (\<lambda>(a, b). (x # a, b)) (split_once c xs))"

definition digits_value :: "string \<Rightarrow> nat" where
  "digits_value s = foldl (\<lambda>n c. n * 10 + digit c) 0 s"

definition parse_digits :: "nat \<Rightarrow> string \<Rightarrow> nat option" where
  "parse_digits w s = (if s \<noteq> [] \<and> list_all is_digit s \<and> digits_value s < 2 ^ w then Some (digits_value s) else None)"

definition from_str :: "string \<Rightarrow> (donation_error, TokenDonation) result" where
  "from_str value =
     (let (whole, fraction) = (case split_once CHR ''.'' (trim value) of Some parts \<Rightarrow> parts | None \<Rightarrow> (trim value, []))
      in if whole = [] \<or> length whole > 3 \<or> length fraction > 2 \<or> \<not> list_all is_digit (whole @ fraction)
         then Inl NotAPercentage
         else result_bind (ok_or NotAPercentage (parse_digits 16 whole)) (\<lambda>w.
              result_bind (ok_or NotAPercentage (parse_digits 16 (fraction @ replicate (2 - length fraction) CHR ''0''))) (\<lambda>f.
              result_bind (ok_or NotAPercentage
                (case checked_mul (word_of_nat w :: u16) 100 of
                   None \<Rightarrow> None
                 | Some b \<Rightarrow> checked_add b (word_of_nat f))) try_from)))"

definition digit_char :: "nat \<Rightarrow> char" where
  "digit_char n = char_of (48 + n)"

fun show_nat :: "nat \<Rightarrow> string" where
  "show_nat n = (if n < 10 then [digit_char n] else show_nat (n div 10) @ [digit_char (n mod 10)])"

declare show_nat.simps [simp del]

text \<open>\<open>{:02}\<close> of a number below 100.\<close>

definition show_02 :: "nat \<Rightarrow> string" where
  "show_02 n = [digit_char (n div 10), digit_char (n mod 10)]"

definition display :: "TokenDonation \<Rightarrow> string" where
  "display d = show_nat (unat (bps d) div 100) @ ''.'' @ show_02 (unat (bps d) mod 100) @ ''%''"

section \<open>Schemes\<close>

datatype Scheme =
  Work "u16 \<times> u16"
| RewardSplit "u16 \<times> u16"
| Hybrid (hybrid_work: "u16 \<times> u16") (hybrid_reward: "u16 \<times> u16")

fun scheme_work :: "Scheme \<Rightarrow> u16 \<times> u16" where
  "scheme_work (Work shares) = shares"
| "scheme_work (Hybrid work reward) = work"
| "scheme_work (RewardSplit shares) = (0, 0)"

fun scheme_reward :: "Scheme \<Rightarrow> u16 \<times> u16" where
  "scheme_reward (RewardSplit shares) = shares"
| "scheme_reward (Hybrid work reward) = reward"
| "scheme_reward (Work shares) = (0, 0)"

datatype scheme_error = NoMinerAllocation | InvalidPeriod | CrossedAllocation | RewardSplitUnsupported

definition leaves_miner :: "u16 \<times> u16 \<Rightarrow> bool" where
  "leaves_miner shares \<longleftrightarrow> (ucast (fst shares) :: u32) + ucast (snd shares) < 10000"

definition validate :: "Scheme \<Rightarrow> (scheme_error, unit) result" where
  "validate scheme =
     (if leaves_miner (scheme_work scheme) \<and> leaves_miner (scheme_reward scheme) then Inr () else Inl NoMinerAllocation)"

datatype Recipient = Miner | Project | Collaborator

definition reward_share :: "u128 \<Rightarrow> u16 \<Rightarrow> u128" where
  "reward_share amount b = amount div 10000 * ucast b + amount mod 10000 * ucast b div 10000"

definition split_reward :: "Scheme \<Rightarrow> u128 \<Rightarrow> Recipient \<Rightarrow> (scheme_error, u128 \<times> u128 \<times> u128) result" where
  "split_reward scheme amount recipient =
     result_bind (validate scheme) (\<lambda>_.
       case recipient of
         Project \<Rightarrow> Inr (0, amount, 0)
       | Collaborator \<Rightarrow> Inr (0, 0, amount)
       | Miner \<Rightarrow>
           let a = reward_share amount (fst (scheme_reward scheme));
               b = reward_share amount (snd (scheme_reward scheme))
           in Inr (amount - a - b, a, b))"

definition require_direct_reward_policy :: "Scheme \<Rightarrow> (scheme_error, unit) result" where
  "require_direct_reward_policy scheme =
     result_bind (validate scheme) (\<lambda>_.
       if scheme_reward scheme \<noteq> (0, 0) then Inl RewardSplitUnsupported else Inr ())"

section \<open>The work schedule\<close>

record Schedule =
  s_unit :: u64
  s_weights :: "u64 \<times> u64 \<times> u64"
  s_position :: u64

function gcd_loop :: "u64 \<Rightarrow> u64 \<Rightarrow> u64" where
  "gcd_loop a b = (if b = 0 then a else gcd_loop b (a mod b))"
  by pat_completeness auto
termination
  by (relation "measure (\<lambda>(a, b). unat b)") (auto simp: unat_mod_distrib unat_gt_0)

declare gcd_loop.simps [simp del]

fun weight_sum :: "u64 \<times> u64 \<times> u64 \<Rightarrow> u64" where
  "weight_sum (m, p, c) = m + p + c"

definition cycle :: "Schedule \<Rightarrow> u64" where
  "cycle s = weight_sum (s_weights s) * s_unit s"

definition schedule_new :: "Scheme \<Rightarrow> u64 \<Rightarrow> u64 \<Rightarrow> (scheme_error, Schedule) result" where
  "schedule_new scheme unit random =
     result_bind (validate scheme) (\<lambda>_.
       let a = ucast (fst (scheme_work scheme)) :: u64;
           b = ucast (snd (scheme_work scheme)) :: u64;
           m = 10000 - a - b;
           divisor = gcd_loop (gcd_loop m a) b;
           weights = (m div divisor, a div divisor, b div divisor)
       in case checked_mul (weight_sum weights) unit of
            None \<Rightarrow> Inl InvalidPeriod
          | Some cyc \<Rightarrow> if cyc > 0 then Inr \<lparr>s_unit = unit, s_weights = weights, s_position = random mod cyc\<rparr>
                      else Inl InvalidPeriod)"

definition set_scheme :: "Schedule \<Rightarrow> Scheme \<Rightarrow> (scheme_error, Schedule) result" where
  "set_scheme s scheme =
     result_bind (schedule_new scheme (s_unit s) 0) (\<lambda>next.
       Inr (next\<lparr>s_position := ucast ((ucast (s_position s) :: u128) * ucast (cycle next) div ucast (cycle s))\<rparr>))"

definition recipient :: "Schedule \<Rightarrow> Recipient" where
  "recipient s =
     (let slot = s_position s div s_unit s
      in case s_weights s of (m, p, _) \<Rightarrow>
           if slot < m then Miner else if slot < m + p then Project else Collaborator)"

definition limit_batch :: "Schedule \<Rightarrow> u32 \<Rightarrow> u32" where
  "limit_batch s requested = ucast (min (ucast requested) (s_unit s - s_position s mod s_unit s))"

definition record_work :: "Schedule \<Rightarrow> u32 \<Rightarrow> (scheme_error, Schedule) result" where
  "record_work s completed =
     (if completed > limit_batch s completed then Inl CrossedAllocation
      else Inr (s\<lparr>s_position :=
        ucast (((ucast (s_position s) :: u128) + ucast completed) mod ucast (cycle s))\<rparr>))"

section \<open>Shares of work and of rewards\<close>

definition donation_wf :: "TokenDonation \<Rightarrow> bool" where
  "donation_wf d \<longleftrightarrow> bps d \<le> MAX_TOKEN_DONATION_BPS"

lemma from_bps_wf: "donation_wf (from_bps b)"
  by (simp add: donation_wf_def from_bps_def not_less)

lemma try_from_wf: "try_from b = Inr d \<longleftrightarrow> donation_wf d \<and> b = bps d"
  by (cases d) (auto simp: try_from_def donation_wf_def not_less split: if_splits)

lemma unat_u16_product: "unat ((ucast (a :: u16) :: u32) * ucast (b :: u16)) = unat a * unat b"
  by (rule unat_widening_mul) simp

lemma work_shares_total:
  assumes "donation_wf d" and "donation_wf dflt" and "unat (fst sh) + unat (snd sh) = unat (bps dflt)"
  shows "unat (fst (work_shares d dflt sh)) + unat (snd (work_shares d dflt sh)) = unat (bps d)"
proof (cases "d \<ge> dflt")
  case True
  then have le: "unat (bps dflt) \<le> unat (bps d)" by (simp add: less_eq_TokenDonation_def word_le_nat_alt)
  have "unat (bps d) < 2 ^ 16" using unsigned_less [of "bps d", where ?'a = nat] by simp
  then have small: "unat (fst sh) + (unat (bps d) - unat (bps dflt)) \<le> 2 ^ 16 - 1" using le assms(3) by simp
  have diff: "unat (bps d - bps dflt) = unat (bps d) - unat (bps dflt)"
    using le by (simp add: unat_sub word_le_nat_alt)
  have "unat (fst (work_shares d dflt sh)) = unat (fst sh) + (unat (bps d) - unat (bps dflt))"
    using True small by (simp add: work_shares_def unat_saturating_add diff)
  then show ?thesis
    using True le assms(3) by (simp add: work_shares_def)
next
  case False
  then have lt: "unat (bps d) < unat (bps dflt)"
    by (simp add: less_eq_TokenDonation_def word_le_nat_alt)
  let ?c = "unat (snd sh) * unat (bps d) div unat (bps dflt)"
  have m: "unat (max (bps dflt) 1) = unat (bps dflt)"
    using lt by (auto simp: max_def word_le_nat_alt)
  have le: "?c \<le> unat (bps d)"
    using mul_div_le [of "unat (snd sh)" "unat (bps dflt)" "unat (bps d)"] assms(3) by (simp add: mult.commute)
  define c where "c = (ucast ((ucast (snd sh) :: u32) * ucast (bps d) div ucast (max (bps dflt) 1)) :: u16)"
  have d16: "unat (bps d) < 2 ^ 16" using unsigned_less [of "bps d", where ?'a = nat] by simp
  have "unat c = ?c mod 2 ^ 16"
    unfolding c_def by (subst unat_ucast) (simp add: unat_div_distrib unat_u16_product unat_ucast_up m)
  with le d16 have c: "unat c = ?c" by simp
  have ws: "work_shares d dflt sh = (bps d - c, c)" using False by (simp add: work_shares_def c_def Let_def)
  have "unat (bps d - c) = unat (bps d) - ?c" using le c by (simp add: unat_sub word_le_nat_alt)
  then show ?thesis using le c by (simp add: ws)
qed

lemma leaves_miner_iff: "leaves_miner sh \<longleftrightarrow> unat (fst sh) + unat (snd sh) < 10000"
proof -
  have "unat ((ucast (fst sh) :: u32) + ucast (snd sh)) = unat (fst sh) + unat (snd sh)"
    by (rule unat_widening_add) simp
  then show ?thesis by (simp add: leaves_miner_def word_less_nat_alt)
qed

lemma validate_iff:
  "validate s = Inr () \<longleftrightarrow> unat (fst (scheme_work s)) + unat (snd (scheme_work s)) < 10000 \<and>
     unat (fst (scheme_reward s)) + unat (snd (scheme_reward s)) < 10000"
  by (simp add: validate_def leaves_miner_iff)

lemma div_mod_share: "0 < n \<Longrightarrow> a div n * b + a mod n * b div n = a * b div (n :: nat)"
proof -
  assume n: "0 < n"
  have "a * b = (a div n * b) * n + a mod n * b"
    by (metis add_mult_distrib div_mult_mod_eq mult.assoc mult.commute)
  then show ?thesis using n by simp
qed

lemma unat_reward_share:
  assumes "unat b \<le> 10000"
  shows "unat (reward_share amount b) = unat amount * unat b div 10000"
proof -
  have a: "unat amount < 2 ^ 128" using unsigned_less [of amount, where ?'a = nat] by simp
  have q: "unat amount div 10000 * unat b + unat amount mod 10000 * unat b div 10000 = unat amount * unat b div 10000"
    by (rule div_mod_share) simp
  have le: "unat amount * unat b div 10000 \<le> unat amount" by (rule mul_div_le [OF assms])
  have "unat amount mod 10000 * unat b \<le> 10000 * 10000" using assms by (intro mult_le_mono) simp_all
  then have m: "unat (amount mod 10000 * ucast b) = unat amount mod 10000 * unat b"
    by (simp add: unat_word_ariths unat_mod_distrib unat_ucast_up)
  have "unat amount div 10000 * unat b < 2 ^ 128" using q le a by linarith
  then have d: "unat (amount div 10000 * ucast b) = unat amount div 10000 * unat b"
    using div_le_dividend [of "unat amount" 10000] a
    by (simp add: unat_word_ariths unat_div_distrib unat_ucast_up)
  have "unat amount div 10000 * unat b + unat amount mod 10000 * unat b div 10000 < 2 ^ 128" using q le a by linarith
  then show ?thesis
    unfolding reward_share_def by (subst unat_add_lem [THEN iffD1]) (simp_all add: d m unat_div_distrib q)
qed

lemma split_reward_conserves:
  assumes "split_reward scheme amount r = Inr (m, p, c)"
  shows "unat m + unat p + unat c = unat amount"
    and "r = Miner \<Longrightarrow> unat p = unat amount * unat (fst (scheme_reward scheme)) div 10000 \<and>
      unat c = unat amount * unat (snd (scheme_reward scheme)) div 10000"
proof -
  let ?a = "unat (fst (scheme_reward scheme))" and ?b = "unat (snd (scheme_reward scheme))"
  have v: "validate scheme = Inr ()" using assms by (cases "validate scheme") (auto simp: split_reward_def)
  then have ab: "?a + ?b < 10000" by (simp add: validate_iff)
  let ?p = "reward_share amount (fst (scheme_reward scheme))" and ?c = "reward_share amount (snd (scheme_reward scheme))"
  have s: "unat ?p = unat amount * ?a div 10000" "unat ?c = unat amount * ?b div 10000"
    using ab by (simp_all add: unat_reward_share)
  have "unat amount * ?a div 10000 + unat amount * ?b div 10000 \<le> (unat amount * ?a + unat amount * ?b) div 10000"
    by (metis add.commute div_add1_eq le_add1)
  also have "\<dots> = unat amount * (?a + ?b) div 10000" by (simp add: distrib_left)
  also have "\<dots> \<le> unat amount" using ab by (intro mul_div_le) simp
  finally have le: "unat ?p + unat ?c \<le> unat amount" using s by simp
  have "unat (amount - ?p) = unat amount - unat ?p" using le by (simp add: unat_sub word_le_nat_alt)
  then have "unat (amount - ?p - ?c) = unat amount - unat ?p - unat ?c" using le by (simp add: unat_sub word_le_nat_alt)
  then show "unat m + unat p + unat c = unat amount"
    using assms v le by (cases r) (auto simp: split_reward_def Let_def)
  show "r = Miner \<Longrightarrow> unat p = unat amount * ?a div 10000 \<and> unat c = unat amount * ?b div 10000"
    using assms v s by (auto simp: split_reward_def Let_def)
qed

section \<open>The schedule\<close>

lemma unat_gcd_loop: "unat (gcd_loop a b) = gcd (unat a) (unat b)"
proof (induction a b rule: gcd_loop.induct)
  case (1 a b)
  show ?case
  proof (cases "b = 0")
    case True
    then show ?thesis by (simp add: gcd_loop.simps)
  next
    case False
    have "unat (gcd_loop a b) = unat (gcd_loop b (a mod b))" using False by (subst gcd_loop.simps) simp
    also have "\<dots> = gcd (unat b) (unat a mod unat b)" using 1 False by (simp add: unat_mod_distrib)
    also have "\<dots> = gcd (unat a) (unat b)" by (metis gcd_red_nat)
    finally show ?thesis .
  qed
qed

text \<open>The weight of a recipient, its slots in a cycle, and the recipient of a position as numbers.\<close>

fun weight :: "Schedule \<Rightarrow> Recipient \<Rightarrow> nat" where
  "weight s Miner = unat (fst (s_weights s))"
| "weight s Project = unat (fst (snd (s_weights s)))"
| "weight s Collaborator = unat (snd (snd (s_weights s)))"

definition slots :: "Schedule \<Rightarrow> nat" where
  "slots s = weight s Miner + weight s Project + weight s Collaborator"

definition slot_recipient :: "Schedule \<Rightarrow> nat \<Rightarrow> Recipient" where
  "slot_recipient s k = (if k < weight s Miner then Miner else if k < weight s Miner + weight s Project then Project
     else Collaborator)"

definition schedule_wf :: "Schedule \<Rightarrow> bool" where
  "schedule_wf s \<longleftrightarrow> 0 < weight s Miner \<and> slots s \<le> 10000 \<and> 0 < unat (s_unit s) \<and> slots s * unat (s_unit s) < 2 ^ 64 \<and>
     unat (s_position s) < slots s * unat (s_unit s)"

lemma unat_weight_sum:
  assumes "slots s < 2 ^ 64"
  shows "unat (weight_sum (s_weights s)) = slots s"
proof -
  obtain m p c where w: "s_weights s = (m, p, c)" by (metis prod_cases3)
  have "unat (m + p + c) = unat m + unat p + unat c"
    using assms by (intro unat_add_add) (simp add: slots_def w)
  then show ?thesis by (simp add: w slots_def)
qed

lemma unat_cycle:
  assumes "schedule_wf s"
  shows "unat (cycle s) = slots s * unat (s_unit s)"
proof -
  have "slots s < 2 ^ 64" using assms by (simp add: schedule_wf_def)
  from unat_weight_sum [OF this] assms show ?thesis
    by (simp add: cycle_def unat_word_ariths schedule_wf_def)
qed

lemma recipient_slot:
  assumes "schedule_wf s"
  shows "recipient s = slot_recipient s (unat (s_position s) div unat (s_unit s))"
proof -
  obtain m p c where w: "s_weights s = (m, p, c)" by (metis prod_cases3)
  have "unat m + unat p < 2 ^ 64" using assms by (simp add: schedule_wf_def slots_def w)
  then have "unat (m + p) = unat m + unat p" by (simp add: unat_word_ariths)
  then show ?thesis
    by (simp add: recipient_def slot_recipient_def w word_less_nat_alt unat_div_distrib)
qed

lemma schedule_new_wf:
  assumes "schedule_new scheme unit random = Inr s"
  obtains g where "schedule_wf s" and "s_unit s = unit" and "0 < g"
    and "weight s Project * g = unat (fst (scheme_work scheme))"
    and "weight s Collaborator * g = unat (snd (scheme_work scheme))" and "slots s * g = 10000"
proof -
  define a where "a = (ucast (fst (scheme_work scheme)) :: u64)"
  define b where "b = (ucast (snd (scheme_work scheme)) :: u64)"
  define m where "m = 10000 - a - b"
  define d where "d = gcd_loop (gcd_loop m a) b"
  have v: "validate scheme = Inr ()" using assms by (cases "validate scheme") (auto simp: schedule_new_def)
  have ua: "unat a = unat (fst (scheme_work scheme))" "unat b = unat (snd (scheme_work scheme))"
    by (simp_all add: a_def b_def unat_ucast_up)
  have ab: "unat a + unat b < 10000" using v by (simp add: validate_iff ua)
  have "unat (10000 - a) = 10000 - unat a" using ab by (simp add: unat_sub word_le_nat_alt)
  then have um: "unat m = 10000 - unat a - unat b" unfolding m_def using ab by (simp add: unat_sub word_le_nat_alt)
  let ?g = "unat d"
  have g: "?g = gcd (gcd (unat m) (unat a)) (unat b)" by (simp add: d_def unat_gcd_loop)
  have dv: "?g dvd unat m" "?g dvd unat a" "?g dvd unat b" unfolding g by (meson gcd_dvd1 gcd_dvd2 dvd_trans)+
  have g0: "0 < ?g" using um ab unfolding g by simp
  from assms v obtain cyc where cyc: "checked_mul (weight_sum (m div d, a div d, b div d)) unit = Some cyc" "cyc > 0"
    and s: "s = \<lparr>s_unit = unit, s_weights = (m div d, a div d, b div d), s_position = random mod cyc\<rparr>"
    by (auto simp: schedule_new_def Let_def a_def [symmetric] b_def [symmetric] m_def [symmetric] d_def [symmetric]
        split: option.splits if_splits)
  have w: "weight s Miner = unat m div ?g" "weight s Project = unat a div ?g" "weight s Collaborator = unat b div ?g"
    by (simp_all add: s unat_div_distrib)
  have sl: "slots s * ?g = 10000"
    unfolding slots_def w using dv um ab by (simp add: add_mult_distrib)
  have le: "slots s \<le> 10000" using sl g0 by (metis dvd_imp_le dvd_triv_left zero_less_numeral)
  then have "unat (weight_sum (s_weights s)) = slots s" by (intro unat_weight_sum) simp
  then have u: "unat cyc = slots s * unat unit" using unat_checked_mul [OF cyc(1)] by (simp add: s)
  have c0: "0 < slots s * unat unit" "slots s * unat unit < 2 ^ 64"
    using cyc(2) unsigned_less [of cyc, where ?'a = nat] by (simp_all add: u [symmetric] unat_gt_0 word_gt_0)
  have "unat (s_position s) < slots s * unat unit"
    using c0(1) by (simp add: s unat_mod_distrib u)
  moreover have "?g \<le> unat m" using dv(1) um ab by (intro dvd_imp_le) simp_all
  then have "0 < weight s Miner" unfolding w(1) using g0 by (rule div_greater_zero_iff [THEN iffD2, OF conjI])
  ultimately have "schedule_wf s" using c0 le by (auto simp: schedule_wf_def s)
  then show ?thesis using that [of ?g] g0 sl dv w ua by (simp add: s)
qed

lemma unat_limit_batch:
  assumes "schedule_wf s"
  shows "unat (limit_batch s r) = min (unat r) (unat (s_unit s) - unat (s_position s) mod unat (s_unit s))"
proof -
  let ?u = "unat (s_unit s)" and ?p = "unat (s_position s)"
  have "s_position s mod s_unit s \<le> s_unit s"
    using assms by (simp add: schedule_wf_def word_le_nat_alt unat_mod_distrib)
  then have d: "unat (s_unit s - s_position s mod s_unit s) = ?u - ?p mod ?u"
    by (simp add: unat_sub unat_mod_distrib)
  have m: "unat (min (ucast r) (s_unit s - s_position s mod s_unit s)) = min (unat r) (?u - ?p mod ?u)"
    using d by (simp add: min_def word_le_nat_alt unat_ucast_up)
  have "min (unat r) (?u - ?p mod ?u) < 2 ^ 32"
    using unsigned_less [of r, where ?'a = nat] by (simp add: min_def)
  then show ?thesis unfolding limit_batch_def by (subst unat_ucast) (simp add: m)
qed

lemma record_work_Inr:
  assumes "schedule_wf s"
  shows "record_work s k = Inr s' \<longleftrightarrow>
    unat k \<le> unat (s_unit s) - unat (s_position s) mod unat (s_unit s) \<and>
    s' = s\<lparr>s_position := word_of_nat ((unat (s_position s) + unat k) mod (slots s * unat (s_unit s)))\<rparr>"
proof -
  have a: "unat ((ucast (s_position s) :: u128) + ucast k) = unat (s_position s) + unat k"
  proof -
    have "unat (s_position s) < 2 ^ 64" "unat k < 2 ^ 32"
      using unsigned_less [of "s_position s", where ?'a = nat] unsigned_less [of k, where ?'a = nat] by simp_all
    then show ?thesis by (simp add: unat_word_ariths unat_ucast_up)
  qed
  have "(ucast (((ucast (s_position s) :: u128) + ucast k) mod ucast (cycle s)) :: u64)
      = word_of_nat ((unat (s_position s) + unat k) mod (slots s * unat (s_unit s)))"
    by (rule word_unat_eq_iff [THEN iffD2], subst unat_ucast)
      (simp add: unat_mod_distrib a unat_ucast_up unat_cycle [OF assms] unat_of_nat)
  moreover have "k > limit_batch s k \<longleftrightarrow> \<not> unat k \<le> unat (s_unit s) - unat (s_position s) mod unat (s_unit s)"
    by (simp add: word_less_nat_alt unat_limit_batch [OF assms] min_def)
  ultimately show ?thesis by (auto simp: record_work_def)
qed

lemma record_work_step:
  assumes "schedule_wf s" and "record_work s k = Inr s'"
  shows "schedule_wf s'" and "s_weights s' = s_weights s" and "s_unit s' = s_unit s"
    and "unat (s_position s') = (unat (s_position s) + unat k) mod (slots s * unat (s_unit s))"
proof -
  let ?C = "slots s * unat (s_unit s)"
  have C: "0 < ?C" "?C < 2 ^ 64" using assms(1) unfolding schedule_wf_def by linarith+
  have s': "s' = s\<lparr>s_position := word_of_nat ((unat (s_position s) + unat k) mod ?C)\<rparr>"
    using assms by (simp add: record_work_Inr)
  have "(unat (s_position s) + unat k) mod ?C < 2 ^ 64" using C by (meson mod_less_divisor order.strict_trans)
  then show pos: "unat (s_position s') = (unat (s_position s) + unat k) mod ?C" by (simp add: s' unat_of_nat)
  have same: "slots s' = slots s" "weight s' Miner = weight s Miner" "s_unit s' = s_unit s"
    by (simp_all add: s' slots_def)
  show "s_weights s' = s_weights s" "s_unit s' = s_unit s" by (simp_all add: s')
  show "schedule_wf s'"
    using assms(1) C unfolding schedule_wf_def same pos by (simp del: weight.simps)
qed

text \<open>A batch within the limit stays in one slot.\<close>

lemma slot_of_batch:
  assumes "k \<le> u - p mod u" and "i < k" and "p < W * (u :: nat)"
  shows "(p + i) div u = p div u" and "(p + i) mod (W * u) = p + i"
proof -
  have u: "0 < u" using assms(3) by (cases u) simp_all
  have p: "p = p div u * u + p mod u" by simp
  have m: "p mod u + i < u" using assms(1,2) by linarith
  have e: "(q * u + x) div u = q" if "x < u" for q x using that by simp
  have "(p + i) div u = (p div u * u + (p mod u + i)) div u" using p by (metis add.assoc)
  also have "\<dots> = p div u" by (rule e [OF m])
  finally show d: "(p + i) div u = p div u" .
  have "p div u < W" using assms(3) u by (simp add: less_mult_imp_div_less)
  then have "(p + i) div u < W" by (simp add: d)
  then have "p + i < W * u" using u by (simp add: div_less_iff_less_mult)
  then show "(p + i) mod (W * u) = p + i" by simp
qed

text \<open>Work done for a recipient by a run of records, and the same counted hash by hash.\<close>

fun run_work :: "Schedule \<Rightarrow> u32 list \<Rightarrow> (scheme_error, Schedule) result" where
  "run_work s [] = Inr s"
| "run_work s (k # ks) = result_bind (record_work s k) (\<lambda>s'. run_work s' ks)"

fun work_for :: "Recipient \<Rightarrow> Schedule \<Rightarrow> u32 list \<Rightarrow> nat" where
  "work_for r s [] = 0"
| "work_for r s (k # ks) = (if recipient s = r then unat k else 0) +
     (case record_work s k of Inl _ \<Rightarrow> 0 | Inr s' \<Rightarrow> work_for r s' ks)"

definition hash_for :: "Recipient \<Rightarrow> Schedule \<Rightarrow> nat \<Rightarrow> nat" where
  "hash_for r s position = of_bool (slot_recipient s (position div unat (s_unit s)) = r)"

lemma sum_lessThan_add: "(\<Sum>i<k + n. f i) = (\<Sum>i<k. f i) + (\<Sum>i<n. f (k + i))" for f :: "nat \<Rightarrow> nat"
  by (induction n) simp_all

lemma work_for_count:
  assumes "schedule_wf s" and "run_work s ks = Inr s'"
  shows "work_for r s ks = (\<Sum>i\<in>{..<sum_list (map unat ks)}.
    hash_for r s ((unat (s_position s) + i) mod (slots s * unat (s_unit s))))"
  using assms
proof (induction ks arbitrary: s)
  case (Cons k ks)
  obtain t where t: "record_work s k = Inr t" and rest: "run_work t ks = Inr s'"
    using Cons.prems(2) by (auto simp: result_bind_Inr_iff)
  note step = record_work_step [OF Cons.prems(1) t]
  let ?C = "slots s * unat (s_unit s)" and ?p = "unat (s_position s)"
  have w: "weight t r = weight s r" for r by (cases r) (simp_all add: step)
  have same: "slots t = slots s" "slot_recipient t = slot_recipient s" "hash_for r t = hash_for r s"
    by (simp_all add: fun_eq_iff slots_def slot_recipient_def hash_for_def step(2,3))
  have le: "unat k \<le> unat (s_unit s) - ?p mod unat (s_unit s)"
    using t Cons.prems(1) by (simp add: record_work_Inr)
  have p: "?p < ?C" using Cons.prems(1) by (simp add: schedule_wf_def)
  have "hash_for r s ((?p + i) mod ?C) = of_bool (recipient s = r)" if "i < unat k" for i
    using slot_of_batch [OF le that p] by (simp add: hash_for_def recipient_slot [OF Cons.prems(1)])
  then have 1: "(\<Sum>i<unat k. hash_for r s ((?p + i) mod ?C)) = (if recipient s = r then unat k else 0)"
    by simp
  have 2: "((?p + unat k) mod ?C + i) mod ?C = (?p + (unat k + i)) mod ?C" for i
    by (simp add: mod_add_left_eq add.assoc)
  show ?case
    using Cons.IH [OF step(1) rest]
    by (simp add: t sum_lessThan_add 1 same step(3,4) 2)
qed simp

lemma sum_slots: "(\<Sum>j<W * u. f (j div u)) = (\<Sum>k<W. u * f k)" for f :: "nat \<Rightarrow> nat"
proof (induction W)
  case (Suc W)
  have "(\<Sum>j<Suc W * u. f (j div u)) = (\<Sum>j<W * u + u. f (j div u))" by (simp add: add.commute)
  also have "\<dots> = (\<Sum>j<W * u. f (j div u)) + (\<Sum>i<u. f ((W * u + i) div u))" by (rule sum_lessThan_add)
  also have "(\<Sum>i<u. f ((W * u + i) div u)) = u * f W" by simp
  finally show ?case using Suc by simp
qed simp

lemma sum_slot_recipient: "(\<Sum>k\<in>{..<slots s}. of_bool (slot_recipient s k = r)) = weight s r"
proof -
  let ?m = "weight s Miner" and ?p = "weight s Project" and ?c = "weight s Collaborator"
  have "(\<Sum>k\<in>{..<slots s}. of_bool (slot_recipient s k = r) :: nat)
      = (\<Sum>k<?m. of_bool (slot_recipient s k = r)) + (\<Sum>i<?p. of_bool (slot_recipient s (?m + i) = r))
        + (\<Sum>i<?c. of_bool (slot_recipient s (?m + ?p + i) = r))"
    by (simp only: slots_def sum_lessThan_add)
  also have "\<dots> = (\<Sum>k<?m. of_bool (Miner = r)) + (\<Sum>i<?p. of_bool (Project = r)) + (\<Sum>i<?c. of_bool (Collaborator = r))"
    by (simp add: slot_recipient_def del: weight.simps)
  also have "\<dots> = weight s r" by (cases r) simp_all
  finally show ?thesis .
qed

lemma one_cycle: "p < C \<Longrightarrow> (\<Sum>i<C. f ((p + i) mod C)) = (\<Sum>j<C. f j)" for f :: "nat \<Rightarrow> nat"
proof -
  assume p: "p < C"
  have "(\<Sum>i<C. f ((p + i) mod C)) = (\<Sum>i<C - p. f ((p + i) mod C)) + (\<Sum>i<p. f ((p + (C - p + i)) mod C))"
    using sum_lessThan_add [of "\<lambda>i. f ((p + i) mod C)" "C - p" p] p by simp
  also have "(\<Sum>i<C - p. f ((p + i) mod C)) = (\<Sum>i<C - p. f (p + i))" by (rule sum.cong) simp_all
  also have "(\<Sum>i<p. f ((p + (C - p + i)) mod C)) = (\<Sum>i<p. f i)" using p by (intro sum.cong) simp_all
  finally show ?thesis using sum_lessThan_add [of f p "C - p"] p by simp
qed

lemma whole_cycles:
  fixes f :: "nat \<Rightarrow> nat"
  assumes "p < C"
  shows "(\<Sum>i<n * C. f ((p + i) mod C)) = n * (\<Sum>j<C. f j)"
proof (induction n)
  case (Suc n)
  have "(\<Sum>i<Suc n * C. f ((p + i) mod C)) = (\<Sum>i<n * C + C. f ((p + i) mod C))" by (simp add: add.commute)
  also have "\<dots> = (\<Sum>i<n * C. f ((p + i) mod C)) + (\<Sum>i<C. f ((p + (n * C + i)) mod C))" by (rule sum_lessThan_add)
  also have "(\<Sum>i<C. f ((p + (n * C + i)) mod C)) = (\<Sum>j<C. f j)"
    using one_cycle [OF assms, of f] by (simp add: add.left_commute [of p])
  finally show ?case using Suc by simp
qed simp

lemma fair_over_cycles:
  assumes "schedule_wf s" and "run_work s ks = Inr s'" and "sum_list (map unat ks) = n * (slots s * unat (s_unit s))"
  shows "work_for r s ks = n * (weight s r * unat (s_unit s))"
proof -
  let ?u = "unat (s_unit s)" and ?C = "slots s * unat (s_unit s)"
  have p: "unat (s_position s) < ?C" using assms(1) by (simp add: schedule_wf_def)
  have "work_for r s ks = n * (\<Sum>j\<in>{..<?C}. hash_for r s j)"
    by (simp only: work_for_count [OF assms(1,2)] assms(3) whole_cycles [OF p])
  also have "(\<Sum>j\<in>{..<?C}. hash_for r s j) = (\<Sum>k\<in>{..<slots s}. ?u * of_bool (slot_recipient s k = r))"
    unfolding hash_for_def by (rule sum_slots)
  also have "\<dots> = weight s r * ?u"
    by (simp only: sum_distrib_left [symmetric] sum_slot_recipient mult.commute)
  finally show ?thesis .
qed

lemma set_scheme_keeps:
  assumes "schedule_wf s" and "set_scheme s scheme = Inr s'"
  shows "schedule_wf s'" and "s_unit s' = s_unit s"
    and "unat (s_position s') = unat (s_position s) * (slots s' * unat (s_unit s)) div (slots s * unat (s_unit s))"
proof -
  obtain t where t: "schedule_new scheme (s_unit s) 0 = Inr t"
    and s': "s' = t\<lparr>s_position := ucast ((ucast (s_position s) :: u128) * ucast (cycle t) div ucast (cycle s))\<rparr>"
    using assms(2) by (auto simp: set_scheme_def result_bind_Inr_iff)
  obtain wt: "schedule_wf t" and ut: "s_unit t = s_unit s" using schedule_new_wf [OF t] by metis
  let ?p = "unat (s_position s)" and ?C = "slots s * unat (s_unit s)" and ?D = "slots t * unat (s_unit s)"
  have p: "?p < ?C" and D: "0 < ?D" "?D < 2 ^ 64"
    using assms(1) wt unfolding schedule_wf_def ut by linarith+
  have "?p * ?D < ?C * ?D" using p D(1) by simp
  then have lt: "?p * ?D div ?C < ?D" using p by (metis div_less_iff_less_mult gr0I less_nat_zero_code mult.commute)
  have "unat ((ucast (s_position s) :: u128) * ucast (cycle t) div ucast (cycle s)) = ?p * ?D div ?C"
    by (simp add: unat_div_distrib unat_widening_mul unat_ucast_up unat_cycle [OF assms(1)] unat_cycle [OF wt] ut)
  then have "unat (s_position s') = (?p * ?D div ?C) mod 2 ^ 64" by (simp add: s' unat_ucast)
  with lt D(2) have pos: "unat (s_position s') = ?p * ?D div ?C" by simp
  have same: "slots s' = slots t" "weight s' Miner = weight t Miner" "s_unit s' = s_unit s"
    by (simp_all add: s' slots_def ut)
  then show "unat (s_position s') = ?p * (slots s' * unat (s_unit s)) div ?C" "s_unit s' = s_unit s" using pos by simp_all
  show "schedule_wf s'" using wt lt unfolding schedule_wf_def same pos ut by (simp del: weight.simps)
qed

section \<open>Text\<close>

lemma of_digit_char: "n < 10 \<Longrightarrow> (of_char (digit_char n) :: nat) = 48 + n"
  by (simp add: digit_char_def)

lemma digit_char_simps: "n < 10 \<Longrightarrow> is_digit (digit_char n)" "n < 10 \<Longrightarrow> digit (digit_char n) = n"
  by (simp_all add: is_digit_def digit_def of_digit_char)

lemma digits_value_snoc: "digits_value (s @ [c]) = digits_value s * 10 + digit c"
  by (simp add: digits_value_def)

lemma show_nat_digits: "show_nat n \<noteq> [] \<and> list_all is_digit (show_nat n) \<and> digits_value (show_nat n) = n"
proof (induction n rule: show_nat.induct)
  case (1 n)
  show ?case
  proof (cases "n < 10")
    case True
    then show ?thesis by (simp add: show_nat.simps [of n] digit_char_simps digits_value_def)
  next
    case False
    then have "list_all is_digit (show_nat (n div 10))" "digits_value (show_nat (n div 10)) = n div 10" using 1 by simp_all
    with False show ?thesis by (simp add: show_nat.simps [of n] digits_value_snoc digit_char_simps)
  qed
qed

lemma show_nat_length: "n < 100 \<Longrightarrow> length (show_nat n) \<le> 2"
  by (simp add: show_nat.simps [of n] show_nat.simps [of "n div 10"] less_mult_imp_div_less)

lemma split_once_digits: "list_all is_digit s \<Longrightarrow> split_once CHR ''.'' (s @ CHR ''.'' # rest) = Some (s, rest)"
  by (induction s) (auto simp: is_digit_def)

lemma trim_no_space: "list_all (\<lambda>c. \<not> is_space c) s \<Longrightarrow> trim s = s"
proof -
  have d: "dropWhile is_space xs = xs" if "list_all (\<lambda>c. \<not> is_space c) xs" for xs
    using that by (cases xs) simp_all
  show "list_all (\<lambda>c. \<not> is_space c) s \<Longrightarrow> trim s = s" by (simp add: trim_def d)
qed

lemma digit_not_space: "is_digit c \<Longrightarrow> \<not> is_space c"
  by (auto simp: is_digit_def is_space_def)

lemma parse_percent:
  assumes "w < 100" and "f < 100"
  shows "from_str (show_nat w @ ''.'' @ show_02 f) = try_from (word_of_nat (w * 100 + f))"
proof -
  note W = show_nat_digits [of w]
  let ?s = "show_nat w @ CHR ''.'' # show_02 f"
  have F: "list_all is_digit (show_02 f)" "length (show_02 f) = 2" "digits_value (show_02 f) = f" "show_02 f \<noteq> []"
    using assms(2) by (simp_all add: show_02_def digit_char_simps digits_value_def)
  have "list_all (\<lambda>c. \<not> is_space c) ?s"
    using W F(1) by (auto simp: list_all_iff digit_not_space is_space_def [of "CHR ''.''"])
  then have t: "trim ?s = ?s" by (rule trim_no_space)
  have sp: "split_once CHR ''.'' ?s = Some (show_nat w, show_02 f)" using W by (intro split_once_digits) simp
  have p: "parse_digits 16 (show_nat w) = Some w" "parse_digits 16 (show_02 f) = Some f"
    using W F assms by (simp_all add: parse_digits_def)
  have m: "checked_mul (word_of_nat w :: u16) 100 = Some (word_of_nat (w * 100))"
    using assms(1) by (simp add: checked_mul_def unat_of_nat)
  have a: "checked_add (word_of_nat (w * 100) :: u16) (word_of_nat f) = Some (word_of_nat (w * 100 + f))"
    using assms by (simp add: checked_add_def unat_of_nat del: of_nat_mult)
  show ?thesis
    unfolding from_str_def append_Cons append_Nil t sp Let_def option.case prod.case
    using show_nat_length [OF assms(1)] W F p m a by (simp add: ok_or_def)
qed

section \<open>Properties\<close>

text \<open>C31. Fairness of the work schedule: over any run of recorded batches that adds up to whole cycles, however
  the batches are cut and wherever the schedule starts, the project and the collaborator receive exactly
  their rate in hundredths of a percent of the hashes, and the miner the rest.\<close>

theorem schedule_is_fair:
  assumes "schedule_new scheme unit random = Inr s" and "run_work s ks = Inr s'"
    and "sum_list (map unat ks) = n * unat (cycle s)"
  shows "10000 * work_for Project s ks = unat (fst (scheme_work scheme)) * sum_list (map unat ks) \<and>
    10000 * work_for Collaborator s ks = unat (snd (scheme_work scheme)) * sum_list (map unat ks) \<and>
    work_for Miner s ks + work_for Project s ks + work_for Collaborator s ks = sum_list (map unat ks)"
proof (rule schedule_new_wf [OF assms(1)])
  fix g assume wf: "schedule_wf s" and u: "s_unit s = unit" and g: "0 < g"
    and w: "weight s Project * g = unat (fst (scheme_work scheme))"
      "weight s Collaborator * g = unat (snd (scheme_work scheme))" and sl: "slots s * g = 10000"
  let ?u = "unat unit"
  have total: "sum_list (map unat ks) = n * (slots s * ?u)" using assms(3) unat_cycle [OF wf] u by simp
  have work: "work_for r s ks = n * (weight s r * ?u)" for r
    using fair_over_cycles [OF wf assms(2)] total u by simp
  have "10000 * (n * (x * ?u)) = (x * g) * (n * (slots s * ?u))" for x
    by (simp only: sl [symmetric] mult.assoc mult.left_commute mult.commute)
  then have "10000 * work_for r s ks = (weight s r * g) * sum_list (map unat ks)" for r
    by (simp only: work total)
  then show ?thesis
    using w by (simp add: work total slots_def distrib_left distrib_right del: weight.simps)
qed

definition demo_schedule :: Schedule where
  "demo_schedule = \<lparr>s_unit = 10, s_weights = (2, 1, 1), s_position = 3\<rparr>"

lemma demo_schedule_new: "schedule_new (Work (2500, 2500)) 10 3 = Inr demo_schedule"
  by (simp add: schedule_new_def validate_def leaves_miner_iff gcd_loop.simps checked_mul_def demo_schedule_def word_gt_0)

lemma demo_run: "run_work demo_schedule [7, 10, 4, 6, 10, 3] = Inr demo_schedule"
  by (simp add: record_work_def limit_batch_def demo_schedule_def cycle_def min_def word_le_nat_alt word_less_nat_alt)

theorem schedule_is_fair_witness: "10000 * work_for Project demo_schedule [7, 10, 4, 6, 10, 3] = 2500 * 40"
  using schedule_is_fair [OF demo_schedule_new demo_run, of 1]
  by (simp add: cycle_def demo_schedule_def)

text \<open>A batch cut to the limit is always accepted, is not empty when work is asked for, and belongs to one
  recipient: every hash of it falls in a slot of the recipient announced before hashing.\<close>

theorem batch_has_one_recipient:
  assumes "schedule_wf s" and "i < unat (limit_batch s requested)"
  shows "(\<exists>s'. record_work s (limit_batch s requested) = Inr s' \<and> schedule_wf s') \<and>
    slot_recipient s ((unat (s_position s) + i) mod unat (cycle s) div unat (s_unit s)) = recipient s"
proof
  let ?u = "unat (s_unit s)" and ?p = "unat (s_position s)" and ?k = "limit_batch s requested"
  have le: "unat ?k \<le> ?u - ?p mod ?u" using unat_limit_batch [OF assms(1)] by simp
  then obtain s' where s': "record_work s ?k = Inr s'" using record_work_Inr [OF assms(1)] by blast
  with record_work_step(1) [OF assms(1) s'] show "\<exists>s'. record_work s ?k = Inr s' \<and> schedule_wf s'" by blast
  have "?p < slots s * ?u" using assms(1) by (simp add: schedule_wf_def)
  from slot_of_batch [OF le assms(2) this] show "slot_recipient s ((?p + i) mod unat (cycle s) div ?u) = recipient s"
    by (simp add: unat_cycle [OF assms(1)] recipient_slot [OF assms(1)])
qed

lemma demo_schedule_wf: "schedule_wf demo_schedule"
  by (simp add: schedule_wf_def demo_schedule_def slots_def)

theorem batch_has_one_recipient_witness:
  "slot_recipient demo_schedule ((3 + 6) mod unat (cycle demo_schedule) div 10) = recipient demo_schedule"
proof -
  have "6 < unat (limit_batch demo_schedule 50)"
    using unat_limit_batch [OF demo_schedule_wf, of 50] by (simp add: demo_schedule_def)
  from batch_has_one_recipient [OF demo_schedule_wf this] show ?thesis by (simp add: demo_schedule_def)
qed

text \<open>Changing the scheme keeps the schedule's invariant, its unit and its progress: the new position is
  the same fraction of the new cycle, rounded down.\<close>

theorem set_scheme_keeps_progress:
  assumes "schedule_wf s" and "set_scheme s scheme = Inr s'"
  shows "schedule_wf s' \<and> s_unit s' = s_unit s \<and>
    unat (s_position s') = unat (s_position s) * unat (cycle s') div unat (cycle s)"
  using set_scheme_keeps [OF assms] by (simp add: unat_cycle assms(1))

lemma demo_set_scheme:
  "set_scheme demo_schedule (Work (5000, 0)) = Inr \<lparr>s_unit = 10, s_weights = (1, 1, 0), s_position = 1\<rparr>"
  by (simp add: set_scheme_def schedule_new_def validate_def leaves_miner_iff gcd_loop.simps checked_mul_def demo_schedule_def
      cycle_def word_gt_0)

theorem set_scheme_keeps_progress_witness:
  "schedule_wf \<lparr>s_unit = 10, s_weights = (1, 1, 0), s_position = 1\<rparr>"
  using set_scheme_keeps_progress [OF demo_schedule_wf demo_set_scheme] by blast

text \<open>The split of a reward conserves it for every 128-bit amount, with no overflow on the way: the three
  parts add up to the amount, and for personal work each fee is the exact floor of its rate.\<close>

theorem split_reward_exact:
  assumes "split_reward scheme amount r = Inr (m, p, c)"
  shows "unat m + unat p + unat c = unat amount \<and>
    (r = Miner \<longrightarrow> unat p = unat amount * unat (fst (scheme_reward scheme)) div 10000 \<and>
      unat c = unat amount * unat (snd (scheme_reward scheme)) div 10000)"
  using split_reward_conserves [OF assms] by blast

theorem split_reward_exact_witness:
  "unat (985003 :: u128) + unat (10000 :: u128) + unat (5000 :: u128) = unat (1000003 :: u128)"
proof -
  have "split_reward (RewardSplit (100, 50)) 1000003 Miner = Inr (985003, 10000, 5000)"
    by (simp add: split_reward_def validate_def leaves_miner_iff reward_share_def)
  from split_reward_exact [OF this] show ?thesis by blast
qed

text \<open>Raising or lowering a token's donation keeps the total exact: the project's and the collaborator's
  work shares always add up to the chosen rate, and lowering it never makes the difference wrap.\<close>

theorem work_shares_exact:
  assumes "donation_wf d" and "donation_wf dflt" and "unat (fst sh) + unat (snd sh) = unat (bps dflt)"
  shows "unat (fst (work_shares d dflt sh)) + unat (snd (work_shares d dflt sh)) = unat (bps d)"
  by (rule work_shares_total [OF assms])

theorem work_shares_exact_witness:
  "work_shares (TokenDonation 100) (TokenDonation 150) (100, 50) = (67, 33) \<and> unat (67 :: u16) + unat (33 :: u16) = 100"
proof -
  have w: "work_shares (TokenDonation 100) (TokenDonation 150) (100, 50) = (67, 33)"
    by (simp add: work_shares_def less_eq_TokenDonation_def max_def word_le_nat_alt)
  have "donation_wf (TokenDonation 100)" "donation_wf (TokenDonation 150)"
    by (simp_all add: donation_wf_def MAX_TOKEN_DONATION_BPS_def)
  from work_shares_exact [OF this, of "(100, 50)"] w show ?thesis by simp
qed

text \<open>A rate printed with two decimals reads back as the same rate.\<close>

theorem donation_text_round_trip:
  assumes "donation_wf d"
  shows "from_str (butlast (display d)) = Inr d"
proof -
  have b: "unat (bps d) \<le> 9950" using assms by (simp add: donation_wf_def MAX_TOKEN_DONATION_BPS_def word_le_nat_alt)
  have "butlast (display d) = show_nat (unat (bps d) div 100) @ ''.'' @ show_02 (unat (bps d) mod 100)"
    by (simp add: display_def butlast_append)
  also have "from_str \<dots> = try_from (word_of_nat (unat (bps d) div 100 * 100 + unat (bps d) mod 100))"
    using b by (intro parse_percent) simp_all
  also have "word_of_nat (unat (bps d) div 100 * 100 + unat (bps d) mod 100) = bps d"
    by (simp only: div_mult_mod_eq) simp
  finally show ?thesis using assms by (simp add: try_from_wf)
qed
theorem donation_text_round_trip_witness:
  "butlast (display (TokenDonation 625)) = ''6.25'' \<and> from_str ''6.25'' = Inr (TokenDonation 625)"
proof -
  have d: "butlast (display (TokenDonation 625)) = ''6.25''"
    by code_simp
  have "donation_wf (TokenDonation 625)" by (simp add: donation_wf_def MAX_TOKEN_DONATION_BPS_def)
  from donation_text_round_trip [OF this] d show ?thesis by simp
qed

end
