(* ===== verification/Merge_Split.thy ===== *)
theory Merge_Split
  imports Merge_Format
begin

text \<open>
  \<open>src/stratum_v2/merge/split.rs\<close>: how a token win is shared. Two slots (a donation, then a fee), the
  canonical 69-byte preimage a leaf's \<open>ext\<close> commits to, the shares of a reward in integer
  arithmetic, the minimum share at the vault's price, and the check of a claim's outputs.
\<close>

section \<open>Slots and splits\<close>

definition SPLIT_PREFIX :: u8 where
  "SPLIT_PREFIX = 0x03"

definition PREIMAGE_LEN :: nat where
  "PREIMAGE_LEN = 1 + 2 * (2 + 32)"

definition MAX_BPS :: u16 where
  "MAX_BPS = 10000"

definition MIN_SHARE_SATS :: u64 where
  "MIN_SHARE_SATS = 1000"

definition SPLIT_OUTPUT_SATS :: u64 where
  "SPLIT_OUTPUT_SATS = 800"

definition SPLIT_OUTPUT_BYTES :: u64 where
  "SPLIT_OUTPUT_BYTES = 90"

datatype SplitError = Rate | ZeroHash | StrayHash | EmptyPreimage | Preimage | Outputs

record Slot =
  sl_bps :: u16
  sl_script_hash :: hash

definition EMPTY_SLOT :: Slot where
  "EMPTY_SLOT = \<lparr>sl_bps = 0, sl_script_hash = ZERO_HASH\<rparr>"

definition slot_from_hash :: "u16 \<Rightarrow> hash \<Rightarrow> (SplitError, Slot) result" where
  "slot_from_hash bps script_hash =
     (if bps > MAX_BPS then Inl Rate
      else case (bps = 0, script_hash = ZERO_HASH) of
             (False, True) \<Rightarrow> Inl ZeroHash
           | (True, False) \<Rightarrow> Inl StrayHash
           | _ \<Rightarrow> Inr \<lparr>sl_bps = bps, sl_script_hash = script_hash\<rparr>)"

definition slot_new :: "(bytes \<Rightarrow> bytes) \<Rightarrow> u16 \<Rightarrow> bytes \<Rightarrow> (SplitError, Slot) result" where
  "slot_new sha bps script = (if bps = 0 then Inr EMPTY_SLOT else slot_from_hash bps (double_sha256 sha script))"

definition slot_is_empty :: "Slot \<Rightarrow> bool" where
  "slot_is_empty s \<longleftrightarrow> sl_bps s = 0"

definition share :: "Slot \<Rightarrow> u64 \<Rightarrow> u64" where
  "share s left = ucast ((ucast left :: u128) * ucast (sl_bps s) div ucast MAX_BPS)"

record Split =
  sp_donation :: Slot
  sp_fee :: Slot

record Shares =
  sh_miner :: u64
  sh_donation :: u64
  sh_fee :: u64

definition NO_SPLIT :: Split where
  "NO_SPLIT = \<lparr>sp_donation = EMPTY_SLOT, sp_fee = EMPTY_SLOT\<rparr>"

definition split_donation :: "(bytes \<Rightarrow> bytes) \<Rightarrow> u16 \<Rightarrow> bytes \<Rightarrow> (SplitError, Split) result" where
  "split_donation sha bps script =
     result_bind (slot_new sha bps script) (\<lambda>s. Inr \<lparr>sp_donation = s, sp_fee = EMPTY_SLOT\<rparr>)"

definition split_is_none :: "Split \<Rightarrow> bool" where
  "split_is_none s \<longleftrightarrow> slot_is_empty (sp_donation s) \<and> slot_is_empty (sp_fee s)"

definition split_preimage :: "Split \<Rightarrow> bytes" where
  "split_preimage s = [SPLIT_PREFIX] @ to_le_bytes (sl_bps (sp_donation s)) @ sl_script_hash (sp_donation s) @
     to_le_bytes (sl_bps (sp_fee s)) @ sl_script_hash (sp_fee s)"

definition split_ext :: "(bytes \<Rightarrow> bytes) \<Rightarrow> Split \<Rightarrow> hash" where
  "split_ext sha s = (if split_is_none s then ZERO_HASH else sha (split_preimage s))"

definition slot_at :: "bytes \<Rightarrow> nat \<Rightarrow> (SplitError, Slot) result" where
  "slot_at bs at = slot_from_hash (from_le_bytes (subrange bs at (at + 2))) (subrange bs (at + 2) (at + 34))"

definition split_parse :: "bytes \<Rightarrow> (SplitError, Split) result" where
  "split_parse preimage =
     (if length preimage \<noteq> PREIMAGE_LEN then Inl Preimage
      else if preimage ! 0 \<noteq> SPLIT_PREFIX then Inl Preimage
      else result_bind (slot_at preimage 1) (\<lambda>donation.
             result_bind (slot_at preimage 35) (\<lambda>fee.
               let split = \<lparr>sp_donation = donation, sp_fee = fee\<rparr>
               in if split_is_none split then Inl EmptyPreimage else Inr split)))"

section \<open>Shares\<close>

definition shares :: "Split \<Rightarrow> u64 \<Rightarrow> Shares" where
  "shares s reward =
     (let donation = share (sp_donation s) reward;
          fee = share (sp_fee s) (reward - donation)
      in \<lparr>sh_miner = reward - donation - fee, sh_donation = donation, sh_fee = fee\<rparr>)"

record Amm =
  amm_cash :: u64
  amm_virtual_sats :: u64
  amm_tokens :: u64

definition amm_value :: "Amm \<Rightarrow> u64 \<Rightarrow> u64 option" where
  "amm_value amm shr =
     (if amm_tokens amm = 0 then None
      else let sats = (case checked_mul ((ucast (amm_cash amm) :: u128) + ucast (amm_virtual_sats amm)) (ucast shr) of
                         None \<Rightarrow> - 1
                       | Some product \<Rightarrow> product div ucast (amm_tokens amm))
           in Some (if unat sats < 2 ^ 64 then ucast sats else - 1))"

definition at_least_min :: "Amm \<Rightarrow> u64 \<Rightarrow> bool" where
  "at_least_min amm shr = (case amm_value amm shr of None \<Rightarrow> False | Some sats \<Rightarrow> sats \<ge> MIN_SHARE_SATS)"

text \<open>One turn of the loop over the donation's and the fee's share: the miner's share and the share itself.\<close>

definition drop_small :: "Amm \<Rightarrow> u64 \<Rightarrow> u64 \<Rightarrow> u64 \<times> u64" where
  "drop_small amm miner shr = (if shr > 0 \<and> \<not> at_least_min amm shr then (miner + shr, 0) else (miner, shr))"

definition claim_shares :: "Split \<Rightarrow> u64 \<Rightarrow> Amm \<Rightarrow> Shares" where
  "claim_shares s reward amm =
     (let raw = shares s reward;
          (miner1, donation) = drop_small amm (sh_miner raw) (sh_donation raw);
          (miner2, fee) = drop_small amm miner1 (sh_fee raw)
      in \<lparr>sh_miner = miner2, sh_donation = donation, sh_fee = fee\<rparr>)"

section \<open>The outputs of a claim\<close>

datatype Role = Miner | Donation | Fee

record ExpectedOutput =
  eo_role :: Role
  eo_script_hash :: hash
  eo_amount :: u64

record TokenOutput =
  to_sats :: u64
  to_script_hash :: hash
  to_category :: hash
  to_nft :: "u8 option"
  to_amount :: u64

definition expected_outputs :: "Split \<Rightarrow> hash \<Rightarrow> Shares \<Rightarrow> ExpectedOutput list" where
  "expected_outputs s payout_hash shr =
     map (\<lambda>(role, script_hash, amount). \<lparr>eo_role = role, eo_script_hash = script_hash, eo_amount = amount\<rparr>)
       (filter (\<lambda>(_, _, amount). amount > 0)
         [(Miner, payout_hash, sh_miner shr),
          (Donation, sl_script_hash (sp_donation s), sh_donation shr),
          (Fee, sl_script_hash (sp_fee s), sh_fee shr)])"

definition split_outputs :: "Shares \<Rightarrow> u64" where
  "split_outputs shr = of_bool (sh_donation shr > 0) + of_bool (sh_fee shr > 0)"

definition split_cost_sats :: "Shares \<Rightarrow> u64 \<Rightarrow> u64" where
  "split_cost_sats shr sats_per_byte = split_outputs shr * (SPLIT_OUTPUT_SATS + SPLIT_OUTPUT_BYTES * sats_per_byte)"

definition fits :: "hash \<Rightarrow> ExpectedOutput \<Rightarrow> TokenOutput \<Rightarrow> bool" where
  "fits category want got \<longleftrightarrow> to_script_hash got = eo_script_hash want \<and> to_category got = category
     \<and> to_nft got = None \<and> to_amount got = eo_amount want \<and> to_amount got \<ge> 1 \<and> to_sats got = SPLIT_OUTPUT_SATS"

definition check_claim_outputs ::
  "ExpectedOutput list \<Rightarrow> TokenOutput list \<Rightarrow> hash \<Rightarrow> (SplitError, unit) result" where
  "check_claim_outputs expected outputs category =
     (if length expected \<noteq> length outputs then Inl Outputs
      else if list_all (\<lambda>(want, got). fits category want got) (zip expected outputs) then Inr ()
      else Inl Outputs)"

section \<open>The shares conserve the reward\<close>

definition slot_wf :: "Slot \<Rightarrow> bool" where
  "slot_wf s \<longleftrightarrow> sl_bps s \<le> MAX_BPS \<and> length (sl_script_hash s) = 32 \<and> (sl_bps s = 0 \<longleftrightarrow> sl_script_hash s = ZERO_HASH)"

definition split_wf :: "Split \<Rightarrow> bool" where
  "split_wf s \<longleftrightarrow> slot_wf (sp_donation s) \<and> slot_wf (sp_fee s)"

lemma unat_share:
  assumes "sl_bps s \<le> MAX_BPS"
  shows "unat (share s left) = unat left * unat (sl_bps s) div 10000" and "unat (share s left) \<le> unat left"
proof -
  have b: "unat (sl_bps s) \<le> 10000" using assms by (simp add: word_le_nat_alt MAX_BPS_def)
  have m: "unat MAX_BPS = 10000" by (simp add: MAX_BPS_def)
  have q: "unat left * unat (sl_bps s) div 10000 \<le> unat left"
    by (rule mul_div_le [OF b])
  have "unat left < 2 ^ 64" using unsigned_less [of left, where ?'a = nat] by simp
  with q have "unat left * unat (sl_bps s) div 10000 < 2 ^ 64" by linarith
  then show "unat (share s left) = unat left * unat (sl_bps s) div 10000"
    by (simp add: share_def unat_ucast unat_div_distrib unat_widening_mul m)
  with q show "unat (share s left) \<le> unat left" by simp
qed

lemma unat_shares:
  fixes reward :: u64
  assumes "split_wf s"
  defines "d \<equiv> unat reward * unat (sl_bps (sp_donation s)) div 10000"
  defines "f \<equiv> (unat reward - d) * unat (sl_bps (sp_fee s)) div 10000"
  shows "unat (sh_donation (shares s reward)) = d" and "unat (sh_fee (shares s reward)) = f"
    and "unat (sh_miner (shares s reward)) = unat reward - d - f" and "d + f \<le> unat reward"
proof -
  have b: "sl_bps (sp_donation s) \<le> MAX_BPS" "sl_bps (sp_fee s) \<le> MAX_BPS"
    using assms(1) by (simp_all add: split_wf_def slot_wf_def)
  define dw where "dw = share (sp_donation s) reward"
  define fw where "fw = share (sp_fee s) (reward - dw)"
  have d: "unat dw = d" "d \<le> unat reward" using unat_share [OF b(1), of reward] by (simp_all add: dw_def d_def)
  have rd: "unat (reward - dw) = unat reward - d" using d by (simp add: unat_sub word_le_nat_alt)
  have f: "unat fw = f" "f \<le> unat reward - d" using unat_share [OF b(2), of "reward - dw"] rd by (simp_all add: fw_def f_def)
  have s: "shares s reward = \<lparr>sh_miner = reward - dw - fw, sh_donation = dw, sh_fee = fw\<rparr>"
    by (simp add: shares_def Let_def dw_def fw_def)
  show "unat (sh_donation (shares s reward)) = d" "unat (sh_fee (shares s reward)) = f" using d f by (simp_all add: s)
  show "unat (sh_miner (shares s reward)) = unat reward - d - f" using rd f by (simp add: s unat_sub word_le_nat_alt)
  show "d + f \<le> unat reward" using d f by linarith
qed

lemma unat_drop_small:
  assumes "unat miner + unat shr < 2 ^ 64" and "drop_small amm miner shr = (miner', shr')"
  shows "unat miner' + unat shr' = unat miner + unat shr"
    and "shr' = (if at_least_min amm shr then shr else 0)"
  using assms by (auto simp: drop_small_def unat_word_ariths word_gt_0 split: if_splits)

lemma claim_shares_spec:
  assumes "split_wf s"
  shows "sh_donation (claim_shares s reward amm)
      = (if at_least_min amm (sh_donation (shares s reward)) then sh_donation (shares s reward) else 0)"
    and "sh_fee (claim_shares s reward amm)
      = (if at_least_min amm (sh_fee (shares s reward)) then sh_fee (shares s reward) else 0)"
    and "unat (sh_miner (claim_shares s reward amm)) + unat (sh_donation (claim_shares s reward amm))
      + unat (sh_fee (claim_shares s reward amm)) = unat reward"
proof -
  let ?r = "shares s reward"
  note S = unat_shares [OF assms, of reward]
  have sum: "unat (sh_miner ?r) + unat (sh_donation ?r) + unat (sh_fee ?r) = unat reward"
    using S by linarith
  have lt: "unat reward < 2 ^ 64" using unsigned_less [of reward, where ?'a = nat] by simp
  obtain m1 d where d: "drop_small amm (sh_miner ?r) (sh_donation ?r) = (m1, d)" by fastforce
  obtain m2 f where f: "drop_small amm m1 (sh_fee ?r) = (m2, f)" by fastforce
  have "unat (sh_miner ?r) + unat (sh_donation ?r) < 2 ^ 64" using sum lt by linarith
  note D = unat_drop_small [OF this d]
  have "unat m1 + unat (sh_fee ?r) \<le> unat reward" using D(1) sum by linarith
  with lt have "unat m1 + unat (sh_fee ?r) < 2 ^ 64" by linarith
  note F = unat_drop_small [OF this f]
  have c: "claim_shares s reward amm = \<lparr>sh_miner = m2, sh_donation = d, sh_fee = f\<rparr>"
    by (simp add: claim_shares_def Let_def d f)
  show "sh_donation (claim_shares s reward amm) = (if at_least_min amm (sh_donation ?r) then sh_donation ?r else 0)"
    "sh_fee (claim_shares s reward amm) = (if at_least_min amm (sh_fee ?r) then sh_fee ?r else 0)"
    using D(2) F(2) by (simp_all add: c)
  show "unat (sh_miner (claim_shares s reward amm)) + unat (sh_donation (claim_shares s reward amm))
      + unat (sh_fee (claim_shares s reward amm)) = unat reward"
    using D(1) F(1) sum by (simp add: c)
qed

lemma amm_value_exact:
  assumes "amm_tokens amm \<noteq> 0"
  shows "map_option unat (amm_value amm shr)
    = Some (min (2 ^ 64 - 1) ((unat (amm_cash amm) + unat (amm_virtual_sats amm)) * unat shr div unat (amm_tokens amm)))"
proof -
  define pool where "pool = (ucast (amm_cash amm) :: u128) + ucast (amm_virtual_sats amm)"
  let ?p = "(unat (amm_cash amm) + unat (amm_virtual_sats amm)) * unat shr" and ?t = "unat (amm_tokens amm)"
  have t: "0 < ?t" "?t < 2 ^ 64"
    using assms unsigned_less [of "amm_tokens amm", where ?'a = nat] by (simp_all add: unat_gt_0)
  have p: "unat pool = unat (amm_cash amm) + unat (amm_virtual_sats amm)" "unat (ucast shr :: u128) = unat shr"
    "unat (ucast (amm_tokens amm) :: u128) = ?t"
    by (simp_all add: pool_def unat_widening_add unat_ucast_up)
  show ?thesis
  proof (cases "?p < 2 ^ 128")
    case True
    have "unat (pool * ucast shr div (ucast (amm_tokens amm) :: u128)) = ?p div ?t"
      using True by (simp add: unat_div_distrib unat_word_ariths p)
    then show ?thesis
      using assms True p
      by (simp add: amm_value_def pool_def [symmetric] checked_mul_def Let_def unat_ucast unat_minus_1 min_def)
  next
    case False
    have "2 ^ 64 * ?t \<le> 2 ^ 64 * 2 ^ 64" using t(2) by simp
    also have "\<dots> \<le> ?p" using False by simp
    finally have "2 ^ 64 * ?t div ?t \<le> ?p div ?t" by (rule div_le_mono)
    then have "2 ^ 64 \<le> ?p div ?t" using t(1) by simp
    then show ?thesis
      using assms False p
      by (simp add: amm_value_def pool_def [symmetric] checked_mul_def Let_def unat_minus_1 min_def)
  qed
qed

section \<open>The preimage\<close>

lemma slot_from_hash_iff:
  "slot_from_hash bps h = Inr s \<longleftrightarrow> bps \<le> MAX_BPS \<and> (bps = 0 \<longleftrightarrow> h = ZERO_HASH) \<and> s = \<lparr>sl_bps = bps, sl_script_hash = h\<rparr>"
  by (auto simp: slot_from_hash_def not_less split: bool.splits)

lemma slot_at_offsets:
  "slot_at p 1 = slot_from_hash (from_le_bytes (subrange p 1 3)) (subrange p 3 35)"
  "slot_at p 35 = slot_from_hash (from_le_bytes (subrange p 35 37)) (subrange p 37 69)"
proof -
  have n: "(1::nat) + 2 = 3" "(1::nat) + 34 = 35" "(35::nat) + 2 = 37" "(35::nat) + 34 = 69" by simp_all
  show "slot_at p 1 = slot_from_hash (from_le_bytes (subrange p 1 3)) (subrange p 3 35)"
    "slot_at p 35 = slot_from_hash (from_le_bytes (subrange p 35 37)) (subrange p 37 69)"
    by (simp_all only: slot_at_def n)
qed

lemma split_parse_iff:
  "split_parse p = Inr s \<longleftrightarrow> split_wf s \<and> \<not> split_is_none s \<and> p = split_preimage s"
proof
  assume s: "split_wf s \<and> \<not> split_is_none s \<and> p = split_preimage s"
  then have e: "p = split_preimage s" by simp
  have l: "length (sl_script_hash (sp_donation s)) = 32" "length (sl_script_hash (sp_fee s)) = 32"
    using s by (simp_all add: split_wf_def slot_wf_def)
  have parts: "length (split_preimage s) = PREIMAGE_LEN" "split_preimage s ! 0 = SPLIT_PREFIX"
    "from_le_bytes (subrange (split_preimage s) 1 3) = sl_bps (sp_donation s)"
    "subrange (split_preimage s) 3 35 = sl_script_hash (sp_donation s)"
    "from_le_bytes (subrange (split_preimage s) 35 37) = sl_bps (sp_fee s)"
    "subrange (split_preimage s) 37 69 = sl_script_hash (sp_fee s)"
    unfolding split_preimage_def
    by (simp_all add: l PREIMAGE_LEN_def subrange_simps from_to_le_bytes)
  have "slot_at p 1 = Inr (sp_donation s)" "slot_at p 35 = Inr (sp_fee s)"
    unfolding slot_at_offsets e parts using s by (simp_all add: slot_from_hash_iff split_wf_def slot_wf_def)
  with s parts(1,2) show "split_parse p = Inr s" by (simp add: split_parse_def Let_def split_is_none_def)
next
  assume "split_parse p = Inr s"
  then have len: "length p = 69" and v: "SPLIT_PREFIX = p ! 0"
    and d: "slot_at p 1 = Inr (sp_donation s)" and f: "slot_at p 35 = Inr (sp_fee s)" and n: "\<not> split_is_none s"
    by (auto simp: split_parse_def PREIMAGE_LEN_def result_bind_Inr_iff Let_def split: if_splits)
  note df = d [unfolded slot_at_offsets slot_from_hash_iff] f [unfolded slot_at_offsets slot_from_hash_iff]
  from df have parts: "sp_donation s = \<lparr>sl_bps = from_le_bytes (subrange p 1 3), sl_script_hash = subrange p 3 35\<rparr>"
    "sp_fee s = \<lparr>sl_bps = from_le_bytes (subrange p 35 37), sl_script_hash = subrange p 37 69\<rparr>"
    by simp_all
  have "split_wf s" using df len by (auto simp: split_wf_def slot_wf_def)
  moreover have b: "[p ! 0] = subrange p 0 1" using subrange_single [of 0 p] len by simp
  have "p = split_preimage s"
    by (simp only: split_preimage_def parts Slot.simps v b)
      (simp add: to_from_le_bytes len subrange_join subrange_join_append subrange_full)
  ultimately show "split_wf s \<and> \<not> split_is_none s \<and> p = split_preimage s" using n by simp
qed

section \<open>Claims pay the whole reward\<close>

lemma check_claim_outputs_iff:
  "check_claim_outputs expected outputs category = Inr () \<longleftrightarrow> list_all2 (fits category) expected outputs"
  by (auto simp: check_claim_outputs_def list_all2_iff list_all_iff)

lemma expected_outputs_sum:
  "(\<Sum>x\<leftarrow>expected_outputs s payout shr. unat (eo_amount x))
    = unat (sh_miner shr) + unat (sh_donation shr) + unat (sh_fee shr)"
  by (simp add: expected_outputs_def word_gt_0)

lemma fits_sum: "list_all2 (fits category) expected outputs \<Longrightarrow>
    (\<Sum>x\<leftarrow>outputs. unat (to_amount x)) = (\<Sum>x\<leftarrow>expected. unat (eo_amount x))"
  by (induction rule: list_all2_induct) (auto simp: fits_def)

section \<open>Properties\<close>

text \<open>C28. A claim's shares are exact and conserve the reward: the raw donation is \<open>floor(R d / 10000)\<close>, the raw
  fee is taken from what the raw donation leaves, each of the two is paid whole or, below the minimum
  value, not at all, and the miner's, the donation's and the fee's shares add up to the reward with no
  wrap-around.\<close>

theorem claim_shares_exact:
  assumes "split_wf s"
  shows "(let raw_d = unat reward * unat (sl_bps (sp_donation s)) div 10000;
              raw_f = (unat reward - raw_d) * unat (sl_bps (sp_fee s)) div 10000;
              c = claim_shares s reward amm
          in unat (sh_donation c) = (if at_least_min amm (sh_donation (shares s reward)) then raw_d else 0) \<and>
             unat (sh_fee c) = (if at_least_min amm (sh_fee (shares s reward)) then raw_f else 0) \<and>
             unat (sh_miner c) + unat (sh_donation c) + unat (sh_fee c) = unat reward)"
  using claim_shares_spec [OF assms] unat_shares [OF assms] by (simp add: Let_def)

definition demo_split :: Split where
  "demo_split = \<lparr>sp_donation = \<lparr>sl_bps = 250, sl_script_hash = replicate 32 1\<rparr>,
     sp_fee = \<lparr>sl_bps = 100, sl_script_hash = replicate 32 2\<rparr>\<rparr>"

lemma demo_split_wf: "split_wf demo_split"
  by (simp add: split_wf_def slot_wf_def demo_split_def MAX_BPS_def ZERO_HASH_def)

definition demo_amm :: Amm where
  "demo_amm = \<lparr>amm_cash = 5000000, amm_virtual_sats = 0, amm_tokens = 100000\<rparr>"

theorem claim_shares_exact_witness:
  "unat (sh_miner (claim_shares demo_split 1000003 demo_amm)) + unat (sh_donation (claim_shares demo_split 1000003 demo_amm))
    + unat (sh_fee (claim_shares demo_split 1000003 demo_amm)) = 1000003"
  using claim_shares_exact [OF demo_split_wf, of 1000003 demo_amm] by (simp add: Let_def)

text \<open>The price of a share is the covenant's formula rounded down, saturated at the largest 64-bit
  value, also where the 128-bit product overflows.\<close>

theorem amm_price_exact:
  assumes "amm_tokens amm \<noteq> 0"
  shows "map_option unat (amm_value amm shr)
    = Some (min (2 ^ 64 - 1) ((unat (amm_cash amm) + unat (amm_virtual_sats amm)) * unat shr div unat (amm_tokens amm)))"
  by (rule amm_value_exact [OF assms])

theorem amm_price_exact_witness: "map_option unat (amm_value demo_amm 7) = Some 350"
  using amm_price_exact [of demo_amm 7] by (simp add: demo_amm_def)

text \<open>A split's preimage parses exactly when it is the 69 bytes of a canonical split that is not empty,
  and parses to that split.\<close>

theorem split_round_trip:
  "split_parse p = Inr s \<longleftrightarrow> split_wf s \<and> \<not> split_is_none s \<and> p = split_preimage s"
  by (rule split_parse_iff)

text \<open>Outputs that pass the check of a claim's split pay out exactly the reward: their amounts add up
  to it, each on a fungible-only output of the vault's category with 800 satoshis.\<close>

theorem checked_claim_pays_reward:
  assumes "split_wf s"
    and "check_claim_outputs (expected_outputs s payout (claim_shares s reward amm)) outputs category = Inr ()"
  shows "(\<Sum>x\<leftarrow>outputs. unat (to_amount x)) = unat reward \<and>
    list_all (\<lambda>x. to_category x = category \<and> to_nft x = None \<and> to_sats x = SPLIT_OUTPUT_SATS) outputs"
proof
  have all: "list_all2 (fits category) (expected_outputs s payout (claim_shares s reward amm)) outputs"
    using assms(2) by (simp add: check_claim_outputs_iff)
  then show "(\<Sum>x\<leftarrow>outputs. unat (to_amount x)) = unat reward"
    using claim_shares_spec(3) [OF assms(1), of reward amm] by (simp add: fits_sum expected_outputs_sum)
  show "list_all (\<lambda>x. to_category x = category \<and> to_nft x = None \<and> to_sats x = SPLIT_OUTPUT_SATS) outputs"
    using all by (induction rule: list_all2_induct) (simp_all add: fits_def)
qed

theorem checked_claim_pays_reward_witness:
  "(\<Sum>x\<leftarrow>[\<lparr>to_sats = 800, to_script_hash = replicate 32 9, to_category = replicate 32 8, to_nft = None, to_amount = 55\<rparr>].
      unat (to_amount x)) = unat (55 :: u64)"
proof -
  have wf: "split_wf NO_SPLIT"
    by (simp add: NO_SPLIT_def EMPTY_SLOT_def split_wf_def slot_wf_def ZERO_HASH_def)
  have "claim_shares NO_SPLIT 55 demo_amm = \<lparr>sh_miner = 55, sh_donation = 0, sh_fee = 0\<rparr>"
    by (simp add: claim_shares_def shares_def share_def NO_SPLIT_def EMPTY_SLOT_def drop_small_def)
  then have "check_claim_outputs (expected_outputs NO_SPLIT (replicate 32 9) (claim_shares NO_SPLIT 55 demo_amm))
      [\<lparr>to_sats = 800, to_script_hash = replicate 32 9, to_category = replicate 32 8, to_nft = None, to_amount = 55\<rparr>]
      (replicate 32 8) = Inr ()"
    by (simp add: check_claim_outputs_def expected_outputs_def fits_def SPLIT_OUTPUT_SATS_def word_gt_0)
  from checked_claim_pays_reward [OF wf this] show ?thesis by simp
qed

end
