(* ===== verification/Payout.thy ===== *)
theory Payout
  imports Donation Merge_Split
begin

text \<open>
  \<open>src/donation/bch.rs\<close> (the BCH donation and a public pool's fee: rates, work and reward shares, the
  amounts of a job) and \<open>src/stratum_v2/payout.rs\<close> (a miner's login, the coinbase outputs of a job
  and the terms its token leaves bind). The check of a payout address is the argument
  \<open>validate_address\<close>.
\<close>

section \<open>The BCH donation\<close>

datatype BchDonation = BchDonation (rate_bps: u16)

definition DEFAULT_DONATION :: BchDonation where
  "DEFAULT_DONATION = BchDonation 150"

datatype bch_error = NotADonation | OutOfRange

definition bch_try_from :: "u16 \<Rightarrow> (bch_error, BchDonation) result" where
  "bch_try_from b = (if b > 10000 then Inl OutOfRange else Inr (BchDonation b))"

definition rsplit_once :: "char \<Rightarrow> string \<Rightarrow> (string \<times> string) option" where
  "rsplit_once c s = map_option (\<lambda>(a, b). (rev b, rev a)) (split_once c (rev s))"

definition bch_from_str :: "string \<Rightarrow> (bch_error, BchDonation) result" where
  "bch_from_str value =
     (let (whole, fraction) = (case split_once CHR ''.'' value of Some parts \<Rightarrow> parts | None \<Rightarrow> (value, []))
      in if whole = [] \<or> \<not> list_all is_digit whole \<or> length fraction > 2 \<or> \<not> list_all is_digit fraction
         then Inl NotADonation
         else result_bind (ok_or NotADonation (parse_digits 16 whole)) (\<lambda>w.
              result_bind (if fraction = [] then Inr 0 else ok_or NotADonation (parse_digits 16 fraction)) (\<lambda>f.
              result_bind (ok_or NotADonation
                (case checked_mul (word_of_nat w :: u16) 100 of
                   None \<Rightarrow> None
                 | Some v \<Rightarrow> checked_add v
                     (word_of_nat f * (case rsplit_once CHR ''.'' value of
                        Some (_, tail) \<Rightarrow> if length tail = 1 then 10 else 1
                      | None \<Rightarrow> 1)))) bch_try_from)))"

definition percent :: "nat \<Rightarrow> string" where
  "percent hundredths = show_nat (hundredths div 100) @ ''.'' @ show_02 (hundredths mod 100) @ ''%''"

definition bch_display :: "BchDonation \<Rightarrow> string" where
  "bch_display d = percent (unat (rate_bps d))"

definition STEP_BPS :: u16 where
  "STEP_BPS = 50"

definition bch_adjusted :: "BchDonation \<Rightarrow> bool \<Rightarrow> BchDonation" where
  "bch_adjusted d increase =
     BchDonation (if increase then min (saturating_mul (rate_bps d div STEP_BPS + 1) STEP_BPS) 10000
       else saturating_sub (word_of_nat (div_ceil (unat (rate_bps d)) (unat STEP_BPS))) 1 * STEP_BPS)"

text \<open>Products and quotients are taken in \<open>u128\<close>, then cut to \<open>u64\<close>.\<close>

definition work_units :: "BchDonation \<Rightarrow> u64 \<Rightarrow> u64" where
  "work_units d units = word_of_nat (div_ceil (unat ((ucast units :: u128) * ucast (rate_bps d))) 30000)"

definition pool_work_units :: "BchDonation \<Rightarrow> u64 \<Rightarrow> u64" where
  "pool_work_units d units = word_of_nat (div_ceil (unat ((ucast units :: u128) * ucast (rate_bps d))) 10000)"

definition reward_units :: "BchDonation \<Rightarrow> u64 \<Rightarrow> u64" where
  "reward_units d units = ucast ((ucast units :: u128) * ucast (rate_bps d) * 2 div 30000)"

definition reward_bps :: "BchDonation \<Rightarrow> u16" where
  "reward_bps d = ucast (reward_units d 10000)"

definition shown_shares :: "BchDonation \<Rightarrow> string \<times> string" where
  "shown_shares d = (percent (div_ceil (unat (rate_bps d)) 3), percent (div_ceil (unat (rate_bps d) * 2) 3))"

datatype FeeMode = Coinbase | WorkMode | Both

record PoolFee =
  pf_rate :: BchDonation
  pf_mode :: FeeMode

definition fee_work_units :: "PoolFee \<Rightarrow> u64 \<Rightarrow> u64" where
  "fee_work_units fee units =
     (case pf_mode fee of
        Coinbase \<Rightarrow> 0
      | WorkMode \<Rightarrow> pool_work_units (pf_rate fee) units
      | Both \<Rightarrow> work_units (pf_rate fee) units)"

definition fee_reward_units :: "PoolFee \<Rightarrow> u64 \<Rightarrow> u64" where
  "fee_reward_units fee units =
     (case pf_mode fee of
        Coinbase \<Rightarrow> ucast ((ucast units :: u128) * ucast (rate_bps (pf_rate fee)) div 10000)
      | WorkMode \<Rightarrow> 0
      | Both \<Rightarrow> reward_units (pf_rate fee) units)"

definition fee_reward_bps :: "PoolFee \<Rightarrow> u16" where
  "fee_reward_bps fee = ucast (fee_reward_units fee 10000)"

record BchPayout =
  bp_donation :: BchDonation
  bp_donation_work :: bool
  bp_fee :: "PoolFee option"
  bp_fee_work :: bool
  bp_token_donation_work :: "bool option"
  bp_token_fee_work :: "bool option"

definition amounts :: "BchPayout \<Rightarrow> u64 \<Rightarrow> u64 list" where
  "amounts policy reward =
     (if bp_donation_work policy then [0, reward, 0]
      else if bp_fee_work policy then [0, 0, reward]
      else let donation = reward_units (bp_donation policy) reward;
               left = reward - donation;
               fee = (case bp_fee policy of None \<Rightarrow> 0 | Some fee \<Rightarrow> fee_reward_units fee left)
           in [left - fee, donation, fee])"

section \<open>Logins\<close>

record Login =
  lg_payout :: string
  lg_donation :: "BchDonation option"

datatype login_error = DonationOption | NotAPayoutAddress

datatype MiningNetwork = Mainnet | Chipnet

fun split_on :: "char \<Rightarrow> string \<Rightarrow> string list" where
  "split_on c [] = [[]]"
| "split_on c (x # xs) = (if x = c then [] # split_on c xs
     else case split_on c xs of [] \<Rightarrow> [[x]] | part # parts \<Rightarrow> (x # part) # parts)"

definition user_payout :: "(MiningNetwork \<Rightarrow> string \<Rightarrow> string option) \<Rightarrow> MiningNetwork \<Rightarrow> string \<Rightarrow> (login_error, string) result" where
  "user_payout validate_address network user =
     (let address = hd (split_on CHR ''.'' (trim user));
          address = (if CHR '':'' \<in> set address then address
                     else (case network of Mainnet \<Rightarrow> ''bitcoincash'' | Chipnet \<Rightarrow> ''bchtest'') @ '':'' @ address)
      in ok_or NotAPayoutAddress (validate_address network address))"

fun read_options :: "string list \<Rightarrow> BchDonation option \<Rightarrow> (login_error, BchDonation option) result" where
  "read_options [] donation = Inr donation"
| "read_options (option # rest) donation =
     (let (key, value) = (case split_once CHR ''='' option of Some kv \<Rightarrow> kv | None \<Rightarrow> (option, []))
      in if trim key \<noteq> ''donation'' \<and> trim key \<noteq> ''pickaxe-donation'' then read_options rest donation
         else case bch_from_str (trim value) of
                Inl _ \<Rightarrow> Inl DonationOption
              | Inr rate \<Rightarrow>
                  if donation \<noteq> None \<or> rate_bps rate mod 50 \<noteq> 0 then Inl DonationOption
                  else read_options rest (Some rate))"

definition identity_login ::
  "(MiningNetwork \<Rightarrow> string \<Rightarrow> string option) \<Rightarrow> MiningNetwork \<Rightarrow> string \<Rightarrow> (login_error, Login) result" where
  "identity_login validate_address network identity =
     (let identity = trim identity;
          (user, options) = (case split_once CHR '','' identity of Some parts \<Rightarrow> parts | None \<Rightarrow> (identity, []))
      in result_bind (read_options (filter (\<lambda>option. trim option \<noteq> []) (split_on CHR '','' options)) None) (\<lambda>donation.
           result_bind (user_payout validate_address network user) (\<lambda>payout.
             Inr \<lparr>lg_payout = payout, lg_donation = donation\<rparr>)))"

section \<open>Coinbase outputs\<close>

definition beneficiary :: "bytes list \<Rightarrow> BchPayout \<Rightarrow> bytes" where
  "beneficiary scripts policy =
     (if bp_donation_work policy then scripts ! 1
      else if bp_fee_work policy \<and> length scripts > 2 then scripts ! 2
      else scripts ! 0)"

text \<open>Adding to the output with this script, or a new one at the end.\<close>

fun add_output :: "u64 \<Rightarrow> bytes \<Rightarrow> (u64 \<times> bytes) list \<Rightarrow> (u64 \<times> bytes) list" where
  "add_output amount script [] = [(amount, script)]"
| "add_output amount script ((paid, existing) # rest) =
     (if existing = script then (paid + amount, existing) # rest
      else (paid, existing) # add_output amount script rest)"

fun join_outputs :: "(u64 \<times> bytes) list \<Rightarrow> (u64 \<times> bytes) list \<Rightarrow> (u64 \<times> bytes) list" where
  "join_outputs [] outs = outs"
| "join_outputs ((amount, script) # rest) outs =
     join_outputs rest (if amount = 0 then outs else add_output amount script outs)"

definition outputs :: "u64 \<Rightarrow> bytes list \<Rightarrow> BchPayout \<Rightarrow> (u64 \<times> bytes) list" where
  "outputs value scripts policy =
     (if value = 0 then [(0, beneficiary scripts policy)]
      else join_outputs (zip (amounts policy value) scripts) [])"

section \<open>Leaf terms\<close>

record LeafTerms =
  lt_payout :: bytes
  lt_split :: Split
  lt_plain_payout :: bytes

definition leaf_terms :: "(bytes \<Rightarrow> bytes) \<Rightarrow> bytes list \<Rightarrow> BchPayout \<Rightarrow> (SplitError, LeafTerms) result" where
  "leaf_terms sha scripts policy =
     (let operator = (if length scripts > 2 then Some (scripts ! 2) else None);
          plain = (if bp_donation_work policy \<or> bp_token_donation_work policy = Some True then scripts ! 1
                   else case operator of
                          Some op \<Rightarrow> if bp_fee_work policy \<or> bp_token_fee_work policy = Some True then op else scripts ! 0
                        | None \<Rightarrow> scripts ! 0)
      in result_bind
           (if bp_donation_work policy then Inr (scripts ! 1, NO_SPLIT)
            else if bp_fee_work policy \<and> operator \<noteq> None then Inr (the operator, NO_SPLIT)
            else result_bind (slot_new sha (reward_bps (bp_donation policy)) (scripts ! 1)) (\<lambda>donation.
                 result_bind (case (bp_fee policy, operator) of
                     (Some fee, Some op) \<Rightarrow> slot_new sha (fee_reward_bps fee) op
                   | _ \<Rightarrow> Inr EMPTY_SLOT) (\<lambda>fee.
                 Inr (scripts ! 0, \<lparr>sp_donation = donation, sp_fee = fee\<rparr>))))
           (\<lambda>(payout, split). Inr \<lparr>lt_payout = payout, lt_split = split, lt_plain_payout = plain\<rparr>))"

section \<open>Shares\<close>

definition rate_ok :: "BchDonation \<Rightarrow> bool" where
  "rate_ok d \<longleftrightarrow> unat (rate_bps d) \<le> 10000"

definition policy_ok :: "BchPayout \<Rightarrow> bool" where
  "policy_ok policy \<longleftrightarrow> rate_ok (bp_donation policy) \<and> (case bp_fee policy of None \<Rightarrow> True | Some fee \<Rightarrow> rate_ok (pf_rate fee))"

lemma bch_try_from_iff: "bch_try_from b = Inr d \<longleftrightarrow> rate_ok d \<and> b = rate_bps d"
  by (cases d) (auto simp: bch_try_from_def rate_ok_def word_less_nat_alt not_less split: if_splits)

lemma bch_adjusted_ok: "rate_ok d \<Longrightarrow> rate_ok (bch_adjusted d increase)"
proof -
  assume d: "rate_ok d"
  have "div_ceil (unat (rate_bps d)) 50 \<le> 200" using d by (intro div_ceil_le) (simp_all add: rate_ok_def)
  then have "unat (saturating_sub (word_of_nat (div_ceil (unat (rate_bps d)) 50)) 1 * 50 :: u16) \<le> 10000"
    by (simp add: unat_word_ariths unat_saturating_sub unat_of_nat)
  then show ?thesis by (auto simp: bch_adjusted_def rate_ok_def STEP_BPS_def min_def word_le_nat_alt)
qed

lemma unat_product: "unat ((ucast (units :: u64) :: u128) * ucast (b :: u16)) = unat units * unat b"
  by (rule unat_widening_mul) simp

lemma unat_cut: "n \<le> unat (units :: u64) \<Longrightarrow> unat (word_of_nat n :: u64) = n"
  using unsigned_less [of units, where ?'a = nat] by (simp add: unat_of_nat)

lemma unat_work_units:
  assumes "rate_ok d"
  shows "unat (work_units d units) = div_ceil (unat units * unat (rate_bps d)) 30000"
    and "unat (pool_work_units d units) = div_ceil (unat units * unat (rate_bps d)) 10000"
    and "unat (work_units d units) \<le> unat units" and "unat (pool_work_units d units) \<le> unat units"
proof -
  have r: "unat (rate_bps d) \<le> 10000" using assms by (simp add: rate_ok_def)
  have "unat units * unat (rate_bps d) \<le> unat units * 10000" using r by simp
  then have 1: "div_ceil (unat units * unat (rate_bps d)) 10000 \<le> unat units"
    and 2: "div_ceil (unat units * unat (rate_bps d)) 30000 \<le> unat units"
    by (intro div_ceil_le; linarith)+
  from 1 2 show "unat (work_units d units) = div_ceil (unat units * unat (rate_bps d)) 30000"
    "unat (pool_work_units d units) = div_ceil (unat units * unat (rate_bps d)) 10000"
    by (simp_all add: work_units_def pool_work_units_def unat_product unat_cut)
  with 1 2 show "unat (work_units d units) \<le> unat units" "unat (pool_work_units d units) \<le> unat units" by simp_all
qed

lemma unat_reward_units:
  assumes "rate_ok d"
  shows "unat (reward_units d units) = unat units * unat (rate_bps d) * 2 div 30000"
    and "unat (reward_units d units) \<le> unat units"
proof -
  have r: "unat (rate_bps d) \<le> 10000" using assms by (simp add: rate_ok_def)
  have u: "unat units < 2 ^ 64" using unsigned_less [of units, where ?'a = nat] by simp
  have "unat units * unat (rate_bps d) \<le> 2 ^ 64 * 10000" using r u by (intro mult_le_mono) simp_all
  then have p: "unat ((ucast units :: u128) * ucast (rate_bps d) * 2) = unat units * unat (rate_bps d) * 2"
    by (subst unat_word_ariths) (simp add: unat_product)
  have le: "unat units * unat (rate_bps d) * 2 div 30000 \<le> unat units"
    using mul_div_le [of "unat (rate_bps d) * 2" 30000 "unat units"] r by (simp add: mult.assoc)
  then show e: "unat (reward_units d units) = unat units * unat (rate_bps d) * 2 div 30000"
    unfolding reward_units_def using u by (subst unat_ucast) (simp add: unat_div_distrib p)
  with le show "unat (reward_units d units) \<le> unat units" by simp
qed

lemma unat_fee_reward_units:
  assumes "rate_ok (pf_rate fee)"
  shows "unat (fee_reward_units fee units) = (case pf_mode fee of
      Coinbase \<Rightarrow> unat units * unat (rate_bps (pf_rate fee)) div 10000
    | WorkMode \<Rightarrow> 0
    | Both \<Rightarrow> unat units * unat (rate_bps (pf_rate fee)) * 2 div 30000)"
    and "unat (fee_reward_units fee units) \<le> unat units"
proof -
  have u: "unat units < 2 ^ 64" using unsigned_less [of units, where ?'a = nat] by simp
  have le: "unat units * unat (rate_bps (pf_rate fee)) div 10000 \<le> unat units"
    using mul_div_le [of "unat (rate_bps (pf_rate fee))" 10000 "unat units"] assms by (simp add: rate_ok_def)
  have "unat (ucast ((ucast units :: u128) * ucast (rate_bps (pf_rate fee)) div 10000) :: u64)
      = unat units * unat (rate_bps (pf_rate fee)) div 10000"
    using le u by (subst unat_ucast) (simp add: unat_div_distrib unat_product)
  then show "unat (fee_reward_units fee units) = (case pf_mode fee of
      Coinbase \<Rightarrow> unat units * unat (rate_bps (pf_rate fee)) div 10000
    | WorkMode \<Rightarrow> 0
    | Both \<Rightarrow> unat units * unat (rate_bps (pf_rate fee)) * 2 div 30000)"
    and "unat (fee_reward_units fee units) \<le> unat units"
    using le unat_reward_units [OF assms] by (simp_all add: fee_reward_units_def split: FeeMode.splits)
qed

lemma amounts_conserve:
  assumes "policy_ok policy"
  obtains m d f where "amounts policy reward = [m, d, f]" and "unat m + unat d + unat f = unat reward"
    and "\<not> bp_donation_work policy \<Longrightarrow> \<not> bp_fee_work policy \<Longrightarrow>
      unat d = unat reward * unat (rate_bps (bp_donation policy)) * 2 div 30000"
proof (cases "bp_donation_work policy \<or> bp_fee_work policy")
  case True
  then show ?thesis
  proof
    assume "bp_donation_work policy"
    then show ?thesis using that [of 0 reward 0] by (simp add: amounts_def)
  next
    assume "bp_fee_work policy"
    then show ?thesis
      using that [of 0 reward 0] that [of 0 0 reward] by (cases "bp_donation_work policy") (simp_all add: amounts_def)
  qed
next
  case False
  define d where "d = reward_units (bp_donation policy) reward"
  define left where "left = reward - d"
  define f where "f = (case bp_fee policy of None \<Rightarrow> 0 | Some fee \<Rightarrow> fee_reward_units fee left)"
  have D: "unat d = unat reward * unat (rate_bps (bp_donation policy)) * 2 div 30000" "unat d \<le> unat reward"
    using unat_reward_units assms by (simp_all add: d_def policy_ok_def)
  have L: "unat left = unat reward - unat d" using D(2) by (simp add: left_def unat_sub word_le_nat_alt)
  have F: "unat f \<le> unat left"
    using unat_fee_reward_units(2) assms by (auto simp: f_def policy_ok_def split: option.splits)
  have "unat (left - f) = unat left - unat f" using F by (simp add: unat_sub word_le_nat_alt)
  then have sum: "unat (left - f) + unat d + unat f = unat reward" using F L D(2) by linarith
  have "amounts policy reward = [left - f, d, f]"
    unfolding f_def left_def d_def using False by (simp add: amounts_def Let_def)
  then show ?thesis using sum D(1) by (rule that)
qed

section \<open>Outputs\<close>

text \<open>What a list of outputs pays a script, and in all.\<close>

definition paid_to :: "bytes \<Rightarrow> (u64 \<times> bytes) list \<Rightarrow> nat" where
  "paid_to script outs = (\<Sum>(a, s)\<leftarrow>outs. if s = script then unat a else 0)"

definition paid_total :: "(u64 \<times> bytes) list \<Rightarrow> nat" where
  "paid_total outs = (\<Sum>(a, _)\<leftarrow>outs. unat a)"

lemma paid_simps [simp]:
  "paid_to x [] = 0" "paid_to x ((a, s) # outs) = (if s = x then unat a else 0) + paid_to x outs"
  "paid_total [] = 0" "paid_total ((a, s) # outs) = unat a + paid_total outs"
  by (simp_all add: paid_to_def paid_total_def)

lemma add_output_spec:
  assumes "paid_total outs + unat amount < 2 ^ 64" and "0 < unat amount" and "distinct (map snd outs)"
    and "list_all (\<lambda>(a, _). 0 < unat a) outs"
  shows "paid_total (add_output amount script outs) = paid_total outs + unat amount \<and>
    paid_to x (add_output amount script outs) = paid_to x outs + (if script = x then unat amount else 0) \<and>
    snd ` set (add_output amount script outs) = insert script (snd ` set outs) \<and>
    distinct (map snd (add_output amount script outs)) \<and>
    list_all (\<lambda>(a, _). 0 < unat a) (add_output amount script outs)"
  using assms
proof (induction amount script outs rule: add_output.induct)
  case (2 amount script paid existing rest)
  show ?case
  proof (cases "existing = script")
    case True
    have "unat paid + unat amount < 2 ^ 64" using 2(2) by simp
    then have "unat (paid + amount) = unat paid + unat amount" by (simp add: unat_word_ariths)
    then show ?thesis using True 2 by auto
  next
    case False
    have "paid_total rest + unat amount < 2 ^ 64" using 2(2) by simp
    with 2 False show ?thesis by auto
  qed
qed simp

lemma join_outputs_spec:
  assumes "paid_total outs + paid_total parts < 2 ^ 64" and "distinct (map snd outs)"
    and "list_all (\<lambda>(a, _). 0 < unat a) outs"
  shows "paid_total (join_outputs parts outs) = paid_total outs + paid_total parts \<and>
    paid_to x (join_outputs parts outs) = paid_to x outs + paid_to x parts \<and>
    distinct (map snd (join_outputs parts outs)) \<and>
    list_all (\<lambda>(a, _). 0 < unat a) (join_outputs parts outs)"
  using assms
proof (induction parts outs rule: join_outputs.induct)
  case (2 amount script rest outs)
  show ?case
  proof (cases "amount = 0")
    case True
    then show ?thesis using 2 by simp
  next
    case False
    then have "0 < unat amount" by (simp add: unat_gt_0)
    moreover have "paid_total outs + unat amount < 2 ^ 64" using 2(2) by simp
    ultimately have A: "paid_total (add_output amount script outs) = paid_total outs + unat amount"
      "paid_to x (add_output amount script outs) = paid_to x outs + (if script = x then unat amount else 0)"
      "distinct (map snd (add_output amount script outs))"
      "list_all (\<lambda>(a, _). 0 < unat a) (add_output amount script outs)" for x
      using add_output_spec 2(3,4) by blast+
    then show ?thesis using 2(1) 2(2) False by simp
  qed
qed simp

lemma outputs_spec:
  assumes "policy_ok policy" and "2 \<le> length scripts" and "bp_fee_work policy \<or> bp_fee policy \<noteq> None \<Longrightarrow> length scripts = 3"
    and "length scripts \<le> 3"
  shows "paid_total (outputs value scripts policy) = unat value \<and> distinct (map snd (outputs value scripts policy)) \<and>
    (0 < unat value \<longrightarrow> list_all (\<lambda>(a, _). 0 < unat a) (outputs value scripts policy) \<and>
       (\<forall>x. paid_to x (outputs value scripts policy) = paid_to x (zip (amounts policy value) scripts)))"
proof (cases "value = 0")
  case True
  then show ?thesis by (simp add: outputs_def)
next
  case False
  obtain m d f where a: "amounts policy value = [m, d, f]" and sum: "unat m + unat d + unat f = unat value"
    using amounts_conserve [OF assms(1)] by metis
  let ?parts = "zip (amounts policy value) scripts"
  have total: "paid_total ?parts = unat value"
  proof (cases "length scripts = 3")
    case True
    then obtain x y z where "scripts = [x, y, z]" by (auto simp: length_Suc_conv numeral_3_eq_3)
    then show ?thesis using sum by (simp add: a)
  next
    case two: False
    then have "length scripts = 2" using assms(2,4) by linarith
    then obtain x y where s: "scripts = [x, y]" by (auto simp: length_Suc_conv numeral_2_eq_2)
    have "\<not> bp_fee_work policy" "bp_fee policy = None" using two assms(3) by blast+
    then have "f = 0" using a by (auto simp: amounts_def Let_def split: if_splits)
    then show ?thesis using sum by (simp add: a s)
  qed
  have "unat value < 2 ^ 64" using unsigned_less [of "value", where ?'a = nat] by simp
  then have "paid_total [] + paid_total ?parts < 2 ^ 64" using total by simp
  from join_outputs_spec [OF this] total False show ?thesis by (simp add: outputs_def)
qed

section \<open>Logins\<close>

lemma bch_from_str_ok: "bch_from_str v = Inr d \<Longrightarrow> rate_ok d"
  by (auto simp: bch_from_str_def result_bind_Inr_iff bch_try_from_iff Let_def split: prod.splits if_splits)

lemma read_options_Some: "read_options opts (Some d) = Inr r \<Longrightarrow> r = Some d"
  by (induction opts) (auto simp: Let_def split: prod.splits sum.splits if_splits)

lemma read_options_None:
  "read_options opts None = Inr (Some d) \<Longrightarrow> rate_ok d \<and> rate_bps d mod 50 = 0"
proof (induction opts)
  case (Cons opt rest)
  obtain key val where kv: "(case split_once CHR ''='' opt of Some kv \<Rightarrow> kv | None \<Rightarrow> (opt, [])) = (key, val)"
    by fastforce
  show ?case
  proof (cases "trim key \<noteq> ''donation'' \<and> trim key \<noteq> ''pickaxe-donation''")
    case True
    then show ?thesis using Cons kv by simp
  next
    case False
    then obtain d' where d: "bch_from_str (trim val) = Inr d'" "rate_bps d' mod 50 = 0"
      and rest: "read_options rest (Some d') = Inr (Some d)"
      using Cons.prems kv by (auto split: sum.splits if_splits)
    from read_options_Some [OF rest] bch_from_str_ok [OF d(1)] d(2) show ?thesis by blast
  qed
qed simp

section \<open>Leaf terms\<close>

lemma slot_new_wf:
  assumes "hash32 sha" and "slot_new sha b script = Inr s"
  shows "slot_wf s" and "sl_bps s = b"
  using assms by (auto simp: slot_new_def slot_from_hash_iff slot_wf_def EMPTY_SLOT_def ZERO_HASH_def double_sha256_def
      hash32.length_sha MAX_BPS_def split: if_splits)

lemma empty_slot_wf: "slot_wf EMPTY_SLOT" "split_wf NO_SPLIT"
  by (simp_all add: split_wf_def slot_wf_def EMPTY_SLOT_def NO_SPLIT_def ZERO_HASH_def)

lemma leaf_terms_spec:
  assumes "hash32 sha" and "leaf_terms sha scripts policy = Inr t"
  shows "split_wf (lt_split t)" and "lt_payout t = beneficiary scripts policy"
    and "split_is_none (lt_split t) \<or> sl_bps (sp_donation (lt_split t)) = reward_bps (bp_donation policy)"
  using assms(2) slot_new_wf [OF assms(1)] empty_slot_wf
  by (auto simp: leaf_terms_def result_bind_Inr_iff beneficiary_def split_wf_def Let_def split_is_none_def NO_SPLIT_def
      EMPTY_SLOT_def slot_is_empty_def split: if_splits option.splits)

section \<open>Text\<close>

lemma bch_parse_percent:
  assumes "w \<le> 100" and "f < 100"
  shows "bch_from_str (show_nat w @ ''.'' @ show_02 f) = bch_try_from (word_of_nat (w * 100 + f))"
proof -
  note W = show_nat_digits [of w]
  let ?s = "show_nat w @ CHR ''.'' # show_02 f"
  have F: "list_all is_digit (show_02 f)" "length (show_02 f) = 2" "digits_value (show_02 f) = f" "show_02 f \<noteq> []"
    using assms(2) by (simp_all add: show_02_def digit_char_simps digits_value_def)
  have sp: "split_once CHR ''.'' ?s = Some (show_nat w, show_02 f)" using W by (intro split_once_digits) simp
  have "split_once CHR ''.'' (rev (show_02 f) @ CHR ''.'' # rev (show_nat w)) = Some (rev (show_02 f), rev (show_nat w))"
    using F(1) by (intro split_once_digits) simp
  then have rs: "rsplit_once CHR ''.'' ?s = Some (show_nat w, show_02 f)" by (simp add: rsplit_once_def)
  have p: "parse_digits 16 (show_nat w) = Some w" "parse_digits 16 (show_02 f) = Some f"
    using W F assms by (simp_all add: parse_digits_def)
  have m: "checked_mul (word_of_nat w :: u16) 100 = Some (word_of_nat (w * 100))"
    using assms(1) by (simp add: checked_mul_def unat_of_nat)
  have a: "checked_add (word_of_nat (w * 100) :: u16) (word_of_nat f) = Some (word_of_nat (w * 100 + f))"
    using assms by (simp add: checked_add_def unat_of_nat del: of_nat_mult)
  show ?thesis
    unfolding bch_from_str_def append_Cons append_Nil sp rs Let_def option.case prod.case
    using W F p m a by (simp add: ok_or_def)
qed

section \<open>Properties\<close>

text \<open>C32. The coinbase of a job pays out exactly its value: the outputs add up to the subsidy and fees with no
  wrap-around, no script appears twice, none is empty, and each script receives exactly what the
  policy's amounts give the recipients that use it. A fee needs the operator's script.\<close>

theorem coinbase_outputs_exact:
  assumes "policy_ok policy" and "2 \<le> length scripts" and "length scripts \<le> 3"
    and "bp_fee_work policy \<or> bp_fee policy \<noteq> None \<Longrightarrow> length scripts = 3"
  shows "paid_total (outputs value scripts policy) = unat value \<and> distinct (map snd (outputs value scripts policy)) \<and>
    (0 < unat value \<longrightarrow> list_all (\<lambda>(a, _). 0 < unat a) (outputs value scripts policy) \<and>
       (\<forall>x. paid_to x (outputs value scripts policy) = paid_to x (zip (amounts policy value) scripts)))"
  by (rule outputs_spec [OF assms(1,2) assms(4) assms(3)])

definition demo_policy :: BchPayout where
  "demo_policy = \<lparr>bp_donation = BchDonation 150, bp_donation_work = False,
     bp_fee = Some \<lparr>pf_rate = BchDonation 200, pf_mode = Coinbase\<rparr>, bp_fee_work = False,
     bp_token_donation_work = None, bp_token_fee_work = None\<rparr>"

theorem coinbase_outputs_exact_witness: "paid_total (outputs 312500123 [[1], [2], [3]] demo_policy) = 312500123"
  using coinbase_outputs_exact [of demo_policy "[[1], [2], [3]]" 312500123]
  by (simp add: demo_policy_def policy_ok_def rate_ok_def)

text \<open>The amounts of a job conserve the reward and the donation comes first: outside work jobs it is the
  floor of two thirds of the rate, and the operator's fee is taken from what it leaves.\<close>

theorem bch_amounts_conserve:
  assumes "policy_ok policy"
  shows "sum_list (map unat (amounts policy reward)) = unat reward \<and> length (amounts policy reward) = 3 \<and>
    (bp_donation_work policy \<or> bp_fee_work policy \<or>
     unat (amounts policy reward ! 1) = unat reward * unat (rate_bps (bp_donation policy)) * 2 div 30000)"
  by (rule amounts_conserve [OF assms, of reward]) auto

theorem bch_amounts_conserve_witness: "sum_list (map unat (amounts demo_policy 1000)) = 1000"
  using bch_amounts_conserve [of demo_policy 1000] by (simp add: demo_policy_def policy_ok_def rate_ok_def)

text \<open>The token leaves of a job pay the same beneficiary as its coinbase, with a canonical split that is
  empty or takes the donation's reward rate.\<close>

theorem leaf_terms_follow_coinbase:
  assumes "hash32 sha" and "leaf_terms sha scripts policy = Inr t"
  shows "lt_payout t = beneficiary scripts policy \<and> split_wf (lt_split t) \<and>
    (split_is_none (lt_split t) \<or> sl_bps (sp_donation (lt_split t)) = reward_bps (bp_donation policy))"
  using leaf_terms_spec [OF assms] by blast

theorem leaf_terms_follow_coinbase_witness:
  "beneficiary [[1], [2]] (demo_policy\<lparr>bp_donation_work := True\<rparr>) = [2]"
proof -
  have "leaf_terms demo_sha [[1], [2]] (demo_policy\<lparr>bp_donation_work := True\<rparr>)
      = Inr \<lparr>lt_payout = [2], lt_split = NO_SPLIT, lt_plain_payout = [2]\<rparr>"
    by (simp add: leaf_terms_def)
  from leaf_terms_follow_coinbase [OF demo_sha_hash32 this] show ?thesis by simp
qed

text \<open>
  \<open>beneficiary\<close> is documented as the same rule as \<open>amounts\<close>. It is not for a fee-work job without an
  operator's script: \<open>beneficiary\<close> falls back to the miner, while \<open>amounts\<close> gives everything to
  the operator, whom no script stands for, and the coinbase has no output at all.
\<close>

lemma fee_work_without_operator:
  assumes "bp_fee_work policy" and "\<not> bp_donation_work policy" and "value \<noteq> 0"
  shows "outputs value [miner, donation] policy = [] \<and> beneficiary [miner, donation] policy = miner"
  using assms by (simp add: outputs_def amounts_def beneficiary_def)

lemma login_demo_trim: "trim ''q.rig,donation=0.5'' = ''q.rig,donation=0.5''" "trim ''donation=0.5'' = ''donation=0.5''" "trim ''donation'' = ''donation''" "trim ''0.5'' = ''0.5''" "trim ''q.rig'' = ''q.rig''"
  by (simp_all add: trim_def is_space_def)

lemma login_demo_rate: "bch_from_str ''0.5'' = Inr (BchDonation 50)"
proof -
  have s: "split_once CHR ''.'' ''0.5'' = Some (''0'', ''5'')" "rsplit_once CHR ''.'' ''0.5'' = Some (''0'', ''5'')" by (simp_all add: rsplit_once_def)
  have p: "parse_digits 16 ''0'' = Some 0" "parse_digits 16 ''5'' = Some 5" "list_all is_digit ''0''" "list_all is_digit ''5''"
    by (simp_all add: parse_digits_def digits_value_def digit_def is_digit_def)
  show ?thesis unfolding bch_from_str_def s p Let_def option.case prod.case
    by (simp add: p checked_mul_def checked_add_def bch_try_from_def ok_or_def is_digit_def)
qed

lemma login_demo: "identity_login (\<lambda>network address. Some address) Chipnet ''q.rig,donation=0.5''
      = Inr \<lparr>lg_payout = ''bchtest:q'', lg_donation = Some (BchDonation 50)\<rparr>"
proof -
  have s: "split_once CHR '','' ''q.rig,donation=0.5'' = Some (''q.rig'', ''donation=0.5'')" 
    "split_on CHR '','' ''donation=0.5'' = [''donation=0.5'']" "split_on CHR ''.'' ''q.rig'' = [''q'', ''rig'']"
     "split_once CHR ''='' ''donation=0.5'' = Some (''donation'', ''0.5'')" by simp_all
  have "read_options [''donation=0.5''] None = Inr (Some (BchDonation 50))"
    by (simp del: split_once.simps split_on.simps add: s login_demo_trim login_demo_rate)
  then show ?thesis unfolding identity_login_def user_payout_def login_demo_trim s Let_def option.case prod.case
    by (simp del: split_once.simps split_on.simps add: s login_demo_trim login_demo_rate ok_or_def)
qed

text \<open>A login's donation option is a rate of at most 100% in 0.5% steps, given once, and the payout is an
  address the network's check accepted.\<close>

theorem login_donation_valid:
  assumes "identity_login validate_address network identity = Inr lg"
  shows "(\<forall>d. lg_donation lg = Some d \<longrightarrow> unat (rate_bps d) \<le> 10000 \<and> rate_bps d mod 50 = 0) \<and>
    (\<exists>address. validate_address network address = Some (lg_payout lg))"
proof -
  obtain user options where split: "(case split_once CHR '','' (trim identity) of Some parts \<Rightarrow> parts | None \<Rightarrow> (trim identity, []))
      = (user, options)" by fastforce
  from assms split have r: "read_options (filter (\<lambda>option. trim option \<noteq> []) (split_on CHR '','' options)) None = Inr (lg_donation lg)"
    and u: "user_payout validate_address network user = Inr (lg_payout lg)"
    by (auto simp: identity_login_def result_bind_Inr_iff)
  have "\<exists>address. validate_address network address = Some (lg_payout lg)"
    using u by (auto simp: user_payout_def ok_or_Inr_iff Let_def)
  with read_options_None r show ?thesis unfolding rate_ok_def by metis
qed

theorem login_donation_valid_witness:
  "unat (rate_bps (BchDonation 50)) \<le> 10000 \<and> rate_bps (BchDonation 50) mod 50 = 0 \<and>
    (\<exists>address. Some address = Some ''bchtest:q'')"
  using login_donation_valid [OF login_demo] by simp

end
