(* ===== verification/Asert.thy ===== *)
theory Asert
  imports Merge_Verify Payout "HOL-Library.Signed_Division"
begin

text \<open>
  \<open>src/stratum_v2/asert.rs\<close> with \<open>compact_target\<close> of \<open>template.rs\<close>, and the covenant's reading of the same rules in
  \<open>merge/safa_auxpow.rs\<close>: compact targets, the aserti3-2d difficulty and the bands a claim's header must meet.
  \<open>BigUint\<close> is \<open>nat\<close>; an \<open>i64\<close> is an \<open>int\<close>, its unchecked operations wrapped at 64 bits.
\<close>

section \<open>Numbers\<close>

text \<open>\<open>BigUint::bits\<close>.\<close>

fun bit_len :: "nat \<Rightarrow> nat" where
  "bit_len n = (if n = 0 then 0 else Suc (bit_len (n div 2)))"

declare bit_len.simps [simp del]

text \<open>\<open>BigUint::to_bytes_le\<close>: no leading zero byte, one byte for 0.\<close>

definition to_bytes_le :: "nat \<Rightarrow> bytes" where
  "to_bytes_le n = nat_le (max 1 ((bit_len n + 7) div 8)) n"

definition wrap_i64 :: "int \<Rightarrow> int" where
  "wrap_i64 x = signed_take_bit 63 x"

definition checked_i64 :: "int \<Rightarrow> int option" where
  "checked_i64 x = (if - (2 ^ 63) \<le> x \<and> x < 2 ^ 63 then Some x else None)"

section \<open>Compact targets\<close>

datatype template_error = InvalidCompact

definition compact_target :: "u32 \<Rightarrow> (template_error, hash) result" where
  "compact_target bits =
     (let size = drop_bit 24 bits;
          word = bits AND 0x007fffff
      in if word = 0 \<or> bits AND 0x00800000 \<noteq> 0 \<or> size > 34 \<or> word > 0xff \<and> size > 33 \<or> word > 0xffff \<and> size > 32
         then Inl InvalidCompact
         else let value = (if size \<le> 3 then unat (drop_bit (unat (8 * (3 - size))) word)
                           else unat word * 2 ^ unat (8 * (size - 3)));
                  bs = to_bytes_le value
              in if length bs > 32 \<or> list_all (\<lambda>b. b = 0) bs then Inl InvalidCompact
                 else Inr (bs @ replicate (32 - length bs) 0))"

definition compact :: "nat \<Rightarrow> u32" where
  "compact target =
     (let size = (word_of_nat ((bit_len target + 7) div 8) :: u32);
          word = (if size \<le> 3 then ucast (push_bit (unat (8 * (3 - size))) (word_of_nat target :: u64))
                  else ucast (word_of_nat (target div 2 ^ unat (8 * (size - 3))) :: u64)) :: u32;
          (word, size) = (if word AND 0x00800000 \<noteq> 0 then (drop_bit 8 word, size + 1) else (word, size))
      in word OR push_bit 24 size)"

section \<open>ASERT as the server computes it\<close>

record Anchor =
  an_height :: u32
  an_bits :: u32
  an_parent_time :: int
  an_half_life :: int

definition CHIPNET :: Anchor where
  "CHIPNET = \<lparr>an_height = 16844, an_bits = 0x1d00ffff, an_parent_time = 1605451779, an_half_life = 60 * 60\<rparr>"

definition SPACING :: int where
  "SPACING = 600"

definition pow_limit :: nat where
  "pow_limit = 2 ^ 224 - 1"

definition cubic :: "u64 \<Rightarrow> u64" where
  "cubic fraction =
     65536 + drop_bit 48 (195766423245049 * fraction + 971821376 * fraction * fraction
       + 5127 * fraction * fraction * fraction + push_bit 47 1)"

definition calculate :: "nat \<Rightarrow> int \<Rightarrow> int \<Rightarrow> nat \<Rightarrow> int \<Rightarrow> nat option" where
  "calculate reference time_diff height_diff limit half_life =
     (if reference = 0 \<or> reference > limit \<or> half_life \<le> 0 then None
      else Option.bind (checked_i64 (SPACING * height_diff)) (\<lambda>scheduled.
        Option.bind (checked_i64 (time_diff - scheduled)) (\<lambda>span.
        if nat \<bar>span\<bar> \<ge> 2 ^ 47 then None
        else let exponent = wrap_i64 (wrap_i64 (span - SPACING) * 65536) sdiv half_life;
                 shifts = exponent div 2 ^ 16 - 16;
                 fraction = ucast (word_of_int exponent :: u16) :: u64;
                 factor = cubic fraction;
                 next = reference * unat factor;
                 next = (if shifts \<le> 0 then next div 2 ^ min (nat \<bar>shifts\<bar>) 256
                         else if bit_len next + nat \<bar>shifts\<bar> > 256 then limit
                         else next * 2 ^ nat \<bar>shifts\<bar>)
             in Some (if next = 0 then 1 else if next > limit then limit else next))))"

definition next_bits :: "Anchor \<Rightarrow> u32 \<Rightarrow> u32 \<Rightarrow> u32 option" where
  "next_bits anchor parent_height parent_time =
     Option.bind (checked_sub parent_height (an_height anchor)) (\<lambda>height_diff.
       let time_diff = wrap_i64 (int (unat parent_time) - an_parent_time anchor)
       in case compact_target (an_bits anchor) of
            Inl _ \<Rightarrow> None
          | Inr reference \<Rightarrow>
              map_option compact
                (calculate (le_nat reference) time_diff (int (unat height_diff)) pow_limit (an_half_life anchor)))"

section \<open>Targets as the covenant reads them\<close>

definition EASE_CAP :: u32 where "EASE_CAP = 288"
definition FALLBACK_DELTA :: u32 where "FALLBACK_DELTA = 4032"
definition POW_LIMIT_BITS :: u32 where "POW_LIMIT_BITS = 0x1d00ffff"

record Band =
  bd_anchor_height :: u32
  bd_anchor_bits :: u32
  bd_anchor_parent_time :: int
  bd_half_life :: int
  bd_allow_pow_limit :: bool
  bd_hard_divisor :: nat
  bd_easy :: "nat \<times> nat"

fun band_of :: "MiningNetwork \<Rightarrow> Band" where
  "band_of Mainnet = \<lparr>bd_anchor_height = 661647, bd_anchor_bits = 0x1804dafe, bd_anchor_parent_time = 1605447844,
     bd_half_life = 172800, bd_allow_pow_limit = False, bd_hard_divisor = 2, bd_easy = (105, 100)\<rparr>"
| "band_of Chipnet = \<lparr>bd_anchor_height = 16844, bd_anchor_bits = 0x1d00ffff, bd_anchor_parent_time = 1605451779,
     bd_half_life = 3600, bd_allow_pow_limit = True, bd_hard_divisor = 8, bd_easy = (8, 1)\<rparr>"

definition max_token_target :: nat where
  "max_token_target = 0x007fffff * 2 ^ 232"

definition expand_token_target :: "u32 \<Rightarrow> nat option" where
  "expand_token_target bits =
     (let exponent = drop_bit 24 bits;
          mantissa = bits AND 0x00ffffff
      in if \<not> (3 \<le> exponent \<and> exponent \<le> 32) \<or> mantissa = 0 \<or> mantissa \<ge> 0x00800000 then None
         else Some (unat mantissa * 2 ^ unat (8 * (exponent - 3))))"

definition encode_token_target :: "nat \<Rightarrow> u32 option" where
  "encode_token_target target =
     (if target = 0 \<or> target > max_token_target then None
      else let size = max ((bit_len target + 1 + 7) div 8) 3;
               mantissa = target div 2 ^ (8 * (size - 3))
           in if mantissa < 2 ^ 32 \<and> size < 2 ^ 32 then Some (push_bit 24 (word_of_nat size) OR word_of_nat mantissa) else None)"

definition claim_target_bits :: "u32 \<Rightarrow> u32 \<Rightarrow> u32 \<Rightarrow> u32 option" where
  "claim_target_bits state_bits height_delta threads =
     (if threads = 0 \<or> height_delta = 0 then None
      else let factor = (ucast (min height_delta EASE_CAP) :: u64) * 5000 div ucast threads + 5000
           in Option.bind (expand_token_target state_bits) (\<lambda>state_target.
                let target = state_target * unat factor div 10000;
                    target = (if target = 0 then 1 else target);
                    target = (if target > max_token_target then max_token_target else target)
                in encode_token_target target))"

definition decode_header_bits :: "u32 \<Rightarrow> nat option" where
  "decode_header_bits bits =
     (let mantissa = bits AND 0x00ffffff
      in if mantissa \<ge> 0x00800000 then None
         else let shift = (int (unat (drop_bit 24 bits)) - 3) * 8
              in if shift > 256 then None
                 else let value = (if shift < 0 then unat mantissa div 2 ^ nat (- shift) else unat mantissa * 2 ^ nat shift)
                      in if value \<noteq> 0 \<and> value \<le> pow_limit then Some value else None)"

definition asert_target :: "nat \<Rightarrow> int \<Rightarrow> int \<Rightarrow> int \<Rightarrow> nat" where
  "asert_target reference time_diff height_diff half_life =
     (let span = time_diff - 600 * height_diff;
          exponent = (span - 600) * 65536 sdiv half_life;
          shifts = exponent div 2 ^ 16;
          fraction = nat (exponent mod 2 ^ 16);
          factor = 65536 + (195766423245049 * fraction + 971821376 * fraction * fraction
                     + 5127 * fraction * fraction * fraction + 2 ^ 47) div 2 ^ 48;
          next = reference * factor;
          shift = shifts - 16;
          next = (if shift \<le> 0 then next div 2 ^ nat (min (- shift) 256) else next * 2 ^ nat (min shift 256))
      in if next = 0 then 1 else min next pow_limit)"

definition asert_band :: "MiningNetwork \<Rightarrow> u32 \<Rightarrow> u32 \<Rightarrow> u32 \<Rightarrow> bool option" where
  "asert_band network bits time height =
     (let band = band_of network
      in Option.bind (decode_header_bits bits) (\<lambda>target.
           if bd_allow_pow_limit band \<and> bits = POW_LIMIT_BITS then Some True
           else let height_diff = int (unat height) - 1 - int (unat (bd_anchor_height band))
                in if height_diff < 0 then None
                   else Option.bind (decode_header_bits (bd_anchor_bits band)) (\<lambda>reference.
                     let computed = asert_target reference (int (unat time) - bd_anchor_parent_time band) height_diff (bd_half_life band)
                     in Some (target \<ge> computed div bd_hard_divisor band \<and>
                          target * snd (bd_easy band) \<le> computed * fst (bd_easy band)))))"

definition fallback_band :: "u32 \<Rightarrow> u32 \<Rightarrow> bool option" where
  "fallback_band bits ref_bits =
     Option.bind (decode_header_bits ref_bits) (\<lambda>reference.
       Option.bind (decode_header_bits bits) (\<lambda>target.
         Some (target \<ge> reference div 2 ^ 4 \<and> target * 10 \<le> reference * 11)))"

section \<open>Thread states and headers\<close>

definition STATE_LEN :: nat where "STATE_LEN = 16"

record ThreadState =
  th_thread :: u32
  th_height :: u32
  th_target_bits :: u32
  th_ref_bits :: u32

definition state_parse :: "bytes \<Rightarrow> ThreadState option" where
  "state_parse commitment =
     (if length commitment \<noteq> STATE_LEN then None
      else Some \<lparr>th_thread = from_le_bytes (subrange commitment 0 4), th_height = from_le_bytes (subrange commitment 4 8),
             th_target_bits = from_le_bytes (subrange commitment 8 12), th_ref_bits = from_le_bytes (subrange commitment 12 16)\<rparr>)"

definition state_encode :: "ThreadState \<Rightarrow> bytes" where
  "state_encode s = to_le_bytes (th_thread s) @ to_le_bytes (th_height s) @ to_le_bytes (th_target_bits s) @ to_le_bytes (th_ref_bits s)"

definition header_bits :: "bytes \<Rightarrow> u32" where
  "header_bits header = from_le_bytes [header ! 72, header ! 73, header ! 74, header ! 75]"

definition bch_header :: "MiningNetwork \<Rightarrow> bytes \<Rightarrow> u32 \<Rightarrow> ThreadState \<Rightarrow> bool" where
  "bch_header network header height state =
     (let time = from_le_bytes [header ! 68, header ! 69, header ! 70, header ! 71];
          bits = header_bits header;
          delta = saturating_sub height (th_height state)
      in case asert_band network bits time height of
           Some True \<Rightarrow> True
         | Some False \<Rightarrow> delta \<ge> FALLBACK_DELTA \<and> fallback_band bits (th_ref_bits state) = Some True
         | None \<Rightarrow> False)"

definition coinbase_height :: "bytes \<Rightarrow> u64 option" where
  "coinbase_height head =
     (if \<not> check_head head then None
      else let len = unat (head ! 41)
           in Option.bind (get_byte head 42) (\<lambda>b.
                let push = unat b
                in if \<not> (1 \<le> push \<and> push \<le> 5) \<or> len < 1 + push then None
                   else Option.bind (get_range head 43 (43 + push)) (\<lambda>bs.
                     let last = bs ! (push - 1)
                     in if last AND 0x80 \<noteq> 0 \<or> last = 0 \<and> (push = 1 \<or> bs ! (push - 2) AND 0x80 = 0) then None
                        else Some (fold (\<lambda>byte value. push_bit 8 value OR ucast byte) (rev bs) 0))))"

section \<open>Bit lengths\<close>

lemma bit_len_le_iff: "bit_len n \<le> k \<longleftrightarrow> n < 2 ^ k"
proof (induction n arbitrary: k rule: bit_len.induct)
  case (1 n)
  show ?case
  proof (cases "n = 0")
    case True
    then show ?thesis by (simp add: bit_len.simps)
  next
    case False
    then show ?thesis using 1 [of "k - 1"] by (cases k) (auto simp: bit_len.simps [of n])
  qed
qed

lemma bit_len_bounds: "n < 2 ^ bit_len n" "0 < n \<Longrightarrow> 0 < bit_len n \<and> 2 ^ (bit_len n - 1) \<le> n"
proof -
  show "n < 2 ^ bit_len n" using bit_len_le_iff [of n "bit_len n"] by simp
  assume n: "0 < n"
  then have "0 < bit_len n" by (simp add: bit_len.simps [of n])
  then show "0 < bit_len n \<and> 2 ^ (bit_len n - 1) \<le> n" using bit_len_le_iff [of n "bit_len n - 1"] by auto
qed

lemma bit_len_unique: "2 ^ (k - 1) \<le> n \<Longrightarrow> n < 2 ^ k \<Longrightarrow> 0 < k \<Longrightarrow> bit_len n = k"
  using bit_len_le_iff [of n k] bit_len_le_iff [of n "k - 1"] by auto

lemma bit_len_mono: "n \<le> m \<Longrightarrow> bit_len n \<le> bit_len m"
  using bit_len_bounds(1) [of m] by (simp add: bit_len_le_iff)

lemma pow256: "(256 :: nat) ^ k = 2 ^ (8 * k)"
  by (simp add: power_mult)

text \<open>Digits after the three leading ones, sign bit included, are dropped.\<close>

definition target_len :: "nat \<Rightarrow> nat" where
  "target_len n = bit_len n div 8 + 1"

definition round_target :: "nat \<Rightarrow> nat" where
  "round_target n = n div 256 ^ (target_len n - 3) * 256 ^ (target_len n - 3)"

lemma target_len_bounds:
  assumes "0 < n"
  shows "n < 2 ^ (8 * target_len n - 1)" and "1 < target_len n \<Longrightarrow> 2 ^ (8 * target_len n - 9) \<le> n"
proof -
  have L: "8 * (bit_len n div 8) \<le> bit_len n" "bit_len n \<le> 8 * (bit_len n div 8) + 7" by presburger+
  have "n < 2 ^ bit_len n" by (rule bit_len_bounds)
  also have "\<dots> \<le> 2 ^ (8 * target_len n - 1)" using L by (intro power_increasing) (simp_all add: target_len_def)
  finally show "n < 2 ^ (8 * target_len n - 1)" .
  assume "1 < target_len n"
  have "2 ^ (8 * target_len n - 9) \<le> (2 :: nat) ^ (bit_len n - 1)"
    using L by (intro power_increasing) (simp_all add: target_len_def)
  also have "\<dots> \<le> n" using bit_len_bounds(2) [OF assms] by simp
  finally show "2 ^ (8 * target_len n - 9) \<le> n" .
qed

lemma target_mantissa:
  assumes "0 < n"
  shows "n div 256 ^ (target_len n - 3) < 2 ^ 23" and "3 < target_len n \<Longrightarrow> 2 ^ 15 \<le> n div 256 ^ (target_len n - 3)"
proof -
  let ?s = "target_len n"
  have s: "0 < ?s" by (simp add: target_len_def)
  have "(2 :: nat) ^ (8 * ?s - 1) \<le> 2 ^ 23 * 256 ^ (?s - 3)"
    unfolding pow256 power_add [symmetric] by (rule power_increasing) simp_all
  then have "n < 2 ^ 23 * 256 ^ (?s - 3)" using target_len_bounds(1) [OF assms] by linarith
  then show "n div 256 ^ (?s - 3) < 2 ^ 23" by (simp add: less_mult_imp_div_less)
  assume "3 < ?s"
  then have "(2 :: nat) ^ 15 * 256 ^ (?s - 3) = 2 ^ (8 * ?s - 9)"
    unfolding pow256 power_add [symmetric] by (intro arg_cong [of _ _ "power 2"]) simp
  also have "\<dots> \<le> n" using target_len_bounds(2) [OF assms] \<open>3 < ?s\<close> by simp
  finally show "2 ^ 15 \<le> n div 256 ^ (?s - 3)" by (simp add: less_eq_div_iff_mult_less_eq)
qed

lemma round_target_bounds:
  assumes "0 < n"
  shows "round_target n \<le> n" and "0 < round_target n" and "(n - round_target n) * 2 ^ 15 \<le> round_target n"
    and "target_len n \<le> 3 \<Longrightarrow> round_target n = n"
proof -
  let ?M = "256 ^ (target_len n - 3) :: nat"
  show "round_target n \<le> n" by (simp add: round_target_def)
  show small: "round_target n = n" if "target_len n \<le> 3" using that by (simp add: round_target_def)
  have r: "n - round_target n = n mod ?M" by (simp add: round_target_def minus_div_mult_eq_mod)
  have "(n mod ?M) * 2 ^ 15 \<le> round_target n \<and> 0 < round_target n"
  proof (cases "3 < target_len n")
    case True
    have "(n mod ?M) * 2 ^ 15 \<le> ?M * 2 ^ 15" by (intro mult_le_mono1) (simp add: less_imp_le)
    also have "\<dots> \<le> round_target n" unfolding round_target_def using target_mantissa(2) [OF assms True] by simp
    finally have a: "(n mod ?M) * 2 ^ 15 \<le> round_target n" .
    have "0 < ?M * 2 ^ 15" by simp
    also have "\<dots> \<le> round_target n" unfolding round_target_def using target_mantissa(2) [OF assms True] by simp
    finally show ?thesis using a by simp
  next
    case False
    then show ?thesis using small assms by simp
  qed
  then show "(n - round_target n) * 2 ^ 15 \<le> round_target n" "0 < round_target n" unfolding r by simp_all
qed

lemma round_target_mono: "n \<le> m \<Longrightarrow> round_target n \<le> round_target m"
proof (cases "n = 0 \<or> target_len n = target_len m")
  case True
  assume "n \<le> m"
  with True show ?thesis by (auto simp: round_target_def div_le_mono)
next
  case False
  assume nm: "n \<le> m"
  have n: "0 < n" "0 < m" using False nm by auto
  have "target_len n < target_len m" using False bit_len_mono [OF nm] by (auto simp: target_len_def div_le_mono le_neq_implies_less)
  then have s: "1 < target_len m" "8 * target_len n - 1 \<le> 8 * target_len m - 9" by (auto simp: target_len_def)
  have "n < 2 ^ (8 * target_len n - 1)" by (rule target_len_bounds [OF n(1)])
  also have "\<dots> \<le> 2 ^ (8 * target_len m - 9)" using s(2) by (intro power_increasing) simp_all
  also have "\<dots> \<le> round_target m"
  proof -
    let ?M = "256 ^ (target_len m - 3) :: nat" and ?P = "2 ^ (8 * target_len m - 9) :: nat"
    have "?M dvd ?P" unfolding pow256 using s(1) by (intro le_imp_power_dvd) simp
    then have "?P = ?P div ?M * ?M" by simp
    also have "\<dots> \<le> round_target m" unfolding round_target_def
      using target_len_bounds(2) [OF n(2) s(1)] by (intro mult_le_mono1 div_le_mono)
    finally show ?thesis .
  qed
  finally have "n < round_target m" .
  then show ?thesis using round_target_bounds(1) [OF n(1)] by simp
qed

lemma target_len_round: "0 < n \<Longrightarrow> target_len (round_target n) = target_len n"
proof (cases "3 < target_len n")
  case True
  assume n: "0 < n"
  let ?M = "256 ^ (target_len n - 3) :: nat" and ?P = "2 ^ (bit_len n - 1) :: nat"
  have "?M dvd ?P" unfolding pow256 using True by (intro le_imp_power_dvd) (simp add: target_len_def)
  then have "?P = ?P div ?M * ?M" by simp
  also have "\<dots> \<le> round_target n" unfolding round_target_def
    using bit_len_bounds(2) [OF n] by (intro mult_le_mono1 div_le_mono) simp
  finally have "bit_len (round_target n) = bit_len n"
    using bit_len_bounds [of n] n round_target_bounds(1) [OF n] by (intro bit_len_unique) auto
  then show ?thesis by (simp add: target_len_def)
next
  case False
  assume "0 < n"
  with False show ?thesis using round_target_bounds(4) by simp
qed

section \<open>Token targets\<close>

lemma eight_times: "unat (x :: u32) \<le> 255 \<Longrightarrow> unat (8 * x) = 8 * unat x"
  by (simp add: unat_word_ariths)

lemma compact_word:
  assumes "s < 256" and "m < 2 ^ 24"
  shows "unat (push_bit 24 (word_of_nat s) OR word_of_nat m :: u32) = s * 2 ^ 24 + m"
proof -
  have n: "push_bit 24 s < (2 :: nat) ^ 32" using assms(1) by (simp add: push_bit_eq_mult)
  have "(push_bit 24 (word_of_nat s) OR word_of_nat m :: u32) = word_of_nat (push_bit 24 s OR m)"
    by (simp add: of_nat_or_eq of_nat_push_bit)
  also have "push_bit 24 s OR m = s * 2 ^ 24 + m"
  proof -
    have "take_bit 24 m = m" using assms(2) by (simp add: take_bit_nat_eq_self)
    then have "\<not> bit m i" if "24 \<le> i" for i using that by (metis bit_take_bit_iff not_less)
    then have "push_bit 24 s OR m = push_bit 24 s + m"
      by (subst disjunctive_add) (auto simp: bit_push_bit_iff)
    then show ?thesis by (simp add: push_bit_eq_mult)
  qed
  finally have eq: "(push_bit 24 (word_of_nat s) OR word_of_nat m :: u32) = word_of_nat (s * 2 ^ 24 + m)" .
  have "s * 2 ^ 24 + m < 2 ^ 32"
  proof -
    have "s * 2 ^ 24 + m < (s + 1) * 2 ^ 24" using assms(2) by simp
    also have "\<dots> \<le> 256 * 2 ^ 24" using assms(1) by (intro mult_le_mono1) simp
    finally show ?thesis by simp
  qed
  then show ?thesis unfolding eq unat_of_nat by (subst mod_less) simp_all
qed

lemma encode_token_target_eq:
  assumes "0 < n" and "n \<le> max_token_target"
  shows "\<exists>b. encode_token_target n = Some b \<and> unat b = max (target_len n) 3 * 2 ^ 24 + n div 256 ^ (target_len n - 3)"
proof -
  have "n < 2 ^ 255" using assms(2) by (simp add: max_token_target_def)
  then have "bit_len n \<le> 255" by (simp add: bit_len_le_iff)
  then have s: "max (target_len n) 3 < 256" by (simp add: target_len_def)
  have e: "(bit_len n + 1 + 7) div 8 = target_len n" by (simp add: target_len_def)
  have z: "max (target_len n) 3 - 3 = target_len n - 3" by simp
  have m: "n div 2 ^ (8 * (target_len n - 3)) < 2 ^ 23" using target_mantissa(1) [OF assms(1)] by (simp add: pow256)
  have lt: "n div 2 ^ (8 * (target_len n - 3)) < 2 ^ 32" "max (target_len n) 3 < 2 ^ 32" using m s by simp_all
  have "encode_token_target n = Some (push_bit 24 (word_of_nat (max (target_len n) 3)) OR word_of_nat (n div 2 ^ (8 * (target_len n - 3))))"
    unfolding encode_token_target_def Let_def e z using assms lt by simp
  moreover have "n div 2 ^ (8 * (target_len n - 3)) < 2 ^ 24" using m by simp
  ultimately show ?thesis using compact_word [OF s] by (simp add: pow256)
qed

lemma expand_token_target_iff:
  "expand_token_target b = (let e = unat b div 2 ^ 24; m = unat b mod 2 ^ 24
     in if 3 \<le> e \<and> e \<le> 32 \<and> 0 < m \<and> m < 2 ^ 23 then Some (m * 256 ^ (e - 3)) else None)"
proof -
  have e: "unat (drop_bit 24 b) = unat b div 2 ^ 24" by (simp add: unat_drop_bit)
  have "(0x00ffffff :: u32) = mask 24" by (simp add: mask_eq_exp_minus_1)
  then have m: "unat (b AND 0x00ffffff) = unat b mod 2 ^ 24" by (simp only: unat_and_mask)
  have l: "3 \<le> drop_bit 24 b \<longleftrightarrow> 3 \<le> unat b div 2 ^ 24" "drop_bit 24 b \<le> 32 \<longleftrightarrow> unat b div 2 ^ 24 \<le> 32"
    by (simp_all add: word_le_nat_alt e)
  have g: "b AND 0x00ffffff = 0 \<longleftrightarrow> \<not> 0 < unat b mod 2 ^ 24" "0x00800000 \<le> b AND 0x00ffffff \<longleftrightarrow> \<not> unat b mod 2 ^ 24 < 2 ^ 23"
    by (simp_all add: word_unat_eq_iff word_le_nat_alt m not_less)
  have p: "unat (8 * (drop_bit 24 b - 3)) = 8 * (unat b div 2 ^ 24 - 3)" if "3 \<le> unat b div 2 ^ 24" "unat b div 2 ^ 24 \<le> 32"
  proof -
    have "unat (drop_bit 24 b - 3) = unat b div 2 ^ 24 - 3" using that l(1) e by (simp add: unat_sub)
    then show ?thesis using that eight_times [of "drop_bit 24 b - 3"] by linarith
  qed
  show ?thesis unfolding expand_token_target_def Let_def l g m using p by (auto simp: pow256)
qed

lemma expand_encode_token_target:
  assumes "0 < n" and "n \<le> max_token_target"
  shows "\<exists>b. encode_token_target n = Some b \<and> expand_token_target b = Some (round_target n)"
proof -
  obtain b where b: "encode_token_target n = Some b" "unat b = max (target_len n) 3 * 2 ^ 24 + n div 256 ^ (target_len n - 3)"
    using encode_token_target_eq [OF assms] by blast
  have m: "n div 256 ^ (target_len n - 3) < 2 ^ 23" by (rule target_mantissa [OF assms(1)])
  have "n < 2 ^ 255" using assms(2) by (simp add: max_token_target_def)
  then have "bit_len n \<le> 255" by (simp add: bit_len_le_iff)
  then have s: "target_len n \<le> 32" by (simp add: target_len_def)
  have d: "unat b div 2 ^ 24 = max (target_len n) 3" "unat b mod 2 ^ 24 = n div 256 ^ (target_len n - 3)"
    using m unfolding b(2) by simp_all
  have "0 < n div 256 ^ (target_len n - 3)" using round_target_bounds(2) [OF assms(1)] by (auto simp: round_target_def)
  then have "expand_token_target b = Some (round_target n)"
    unfolding expand_token_target_iff Let_def d using m s by (simp add: round_target_def max_def)
  then show ?thesis using b(1) by blast
qed

lemma expand_token_target_bounds: "expand_token_target b = Some t \<Longrightarrow> 0 < t \<and> t \<le> max_token_target"
proof -
  assume "expand_token_target b = Some t"
  then have h: "3 \<le> unat b div 2 ^ 24" "unat b div 2 ^ 24 \<le> 32" "0 < unat b mod 2 ^ 24" "unat b mod 2 ^ 24 < 2 ^ 23"
    "t = unat b mod 2 ^ 24 * 256 ^ (unat b div 2 ^ 24 - 3)"
    unfolding expand_token_target_iff Let_def by (simp_all split: if_splits)
  have "t \<le> (2 ^ 23 - 1) * 256 ^ 29" unfolding h(5) using h(2,4) by (intro mult_le_mono power_increasing) simp_all
  then show ?thesis using h(3,5) by (simp add: max_token_target_def)
qed

text \<open>Easing a thread's target.\<close>

definition ease_factor :: "u32 \<Rightarrow> u32 \<Rightarrow> nat" where
  "ease_factor height_delta threads = min (unat height_delta) 288 * 5000 div unat threads + 5000"

definition eased_target :: "nat \<Rightarrow> u32 \<Rightarrow> u32 \<Rightarrow> nat" where
  "eased_target t height_delta threads = min (max 1 (t * ease_factor height_delta threads div 10000)) max_token_target"

lemma claim_target_bits_eq:
  "claim_target_bits state_bits height_delta threads =
     (if threads = 0 \<or> height_delta = 0 then None
      else Option.bind (expand_token_target state_bits) (\<lambda>t. encode_token_target (eased_target t height_delta threads)))"
proof (cases "threads = 0")
  case False
  have m: "unat (min height_delta EASE_CAP) = min (unat height_delta) 288"
    by (simp add: min_def EASE_CAP_def word_le_nat_alt)
  have f: "unat ((ucast (min height_delta EASE_CAP) :: u64) * 5000 div ucast threads + 5000) = ease_factor height_delta threads"
  proof -
    have "min (unat height_delta) 288 * 5000 \<le> 288 * 5000" by (intro mult_le_mono1) simp
    then have b: "min (unat height_delta) 288 * 5000 < 2 ^ 21" by simp
    moreover have "min (unat height_delta) 288 * 5000 div unat threads \<le> min (unat height_delta) 288 * 5000" by (rule div_le_dividend)
    ultimately have "min (unat height_delta) 288 * 5000 div unat threads < 2 ^ 21" by (rule le_less_trans [rotated])
    then show ?thesis using b by (simp add: ease_factor_def unat_word_ariths unat_ucast_up unat_div m)
  qed
  have "(if (if x = 0 then 1 else x) > max_token_target then max_token_target else (if x = 0 then 1 else x)) = min (max 1 x) max_token_target" for x :: nat
    by (auto simp: min_def max_def)
  then show ?thesis using False by (simp add: claim_target_bits_def f eased_target_def Let_def)
qed (simp add: claim_target_bits_def)

section \<open>Compact bits and their targets\<close>

lemma le_nat_to_bytes_le: "le_nat (to_bytes_le n) = n" "length (to_bytes_le n) \<le> 32 \<longleftrightarrow> n < 2 ^ 256"
proof -
  have "n < 2 ^ bit_len n" by (rule bit_len_bounds)
  also have "\<dots> \<le> 2 ^ (8 * max 1 ((bit_len n + 7) div 8))" by (intro power_increasing) simp_all
  finally have "n < (2 ^ LENGTH(8)) ^ max 1 ((bit_len n + 7) div 8)" by (simp add: power_mult)
  then show "le_nat (to_bytes_le n) = n" unfolding to_bytes_le_def le_nat_nat_le by (rule mod_less)
  have "bit_len n \<le> 256 \<longleftrightarrow> n < 2 ^ 256" by (rule bit_len_le_iff)
  then show "length (to_bytes_le n) \<le> 32 \<longleftrightarrow> n < 2 ^ 256" by (auto simp: to_bytes_le_def)
qed

lemma bit23: "(b AND 0x00800000 :: u32) = 0 \<longleftrightarrow> unat b mod 2 ^ 24 < 2 ^ 23"
proof -
  have e: "(0x00800000 :: u32) = 2 ^ 23" by simp
  have "(b AND 0x00800000 = 0) = (\<not> bit b 23)" unfolding e by (rule and_exp_eq_0_iff_not_bit)
  also have "bit b 23 \<longleftrightarrow> odd (unat b div 2 ^ 23)" 
    by (subst bit_iff_odd [symmetric]) (simp add: bit_unsigned_iff)
  also have "(\<not> odd (unat b div 2 ^ 23)) \<longleftrightarrow> unat b mod 2 ^ 24 < 2 ^ 23"
  proof -
    have "unat b mod (2 * 2 ^ 23) = 2 ^ 23 * (unat b div 2 ^ 23 mod 2) + unat b mod 2 ^ 23" by (subst mult.commute) (rule mod_mult2_eq)
    then show ?thesis by (cases "even (unat b div 2 ^ 23)") (simp_all add: odd_iff_mod_2_eq_one even_iff_mod_2_eq_zero)
  qed
  finally show ?thesis .
qed

lemma compact_target_eq:
  assumes "unat b div 2 ^ 24 \<le> 32" and "unat b mod 2 ^ 24 < 2 ^ 23" and "2 ^ 24 \<le> unat b mod 2 ^ 24 * 256 ^ (unat b div 2 ^ 24)"
  shows "\<exists>bs. compact_target b = Inr bs \<and> length bs = 32 \<and> le_nat bs = unat b mod 2 ^ 24 * 256 ^ (unat b div 2 ^ 24) div 2 ^ 24"
proof -
  define s where "s = unat b div 2 ^ 24"
  define w where "w = unat b mod 2 ^ 24"
  define v where "v = w * 256 ^ s div 2 ^ 24"
  have S: "unat (drop_bit 24 b) = s" by (simp add: unat_drop_bit s_def)
  have "(0x007fffff :: u32) = mask 23" by (simp add: mask_eq_exp_minus_1)
  then have "unat (b AND 0x007fffff) = unat b mod 2 ^ 23" by (simp only: unat_and_mask)
  also have "\<dots> = w mod 2 ^ 23" unfolding w_def by (simp add: mod_mod_cancel)
  finally have W: "unat (b AND 0x007fffff) = w" using assms(2) by (simp add: w_def)
  have w0: "0 < w" "0 < v" using assms(3) by (auto simp: w_def s_def v_def intro!: Nat.gr0I)
  have val: "(if drop_bit 24 b \<le> 3 then unat (drop_bit (unat (8 * (3 - drop_bit 24 b))) (b AND 0x007fffff))
      else unat (b AND 0x007fffff) * 2 ^ unat (8 * (drop_bit 24 b - 3))) = v"
  proof (cases "s \<le> 3")
    case True
    then have l: "drop_bit 24 b \<le> 3" by (simp add: word_le_nat_alt S)
    then have "unat (3 - drop_bit 24 b) = 3 - s" by (simp add: unat_sub S)
    then have e: "unat (8 * (3 - drop_bit 24 b)) = 8 * (3 - s)" using eight_times [of "3 - drop_bit 24 b"] True by linarith
    have "(2 :: nat) ^ 24 = 256 ^ s * 256 ^ (3 - s)" using True by (simp flip: power_add)
    then have "v = 256 ^ s * w div (256 ^ s * 256 ^ (3 - s))" unfolding v_def by (simp only: mult.commute)
    also have "\<dots> = w div 2 ^ (8 * (3 - s))" by (subst div_mult_mult1) (simp_all add: pow256)
    finally have "v = w div 2 ^ (8 * (3 - s))" .
    then show ?thesis using l unfolding unat_drop_bit e W by simp
  next
    case False
    then have l: "\<not> drop_bit 24 b \<le> 3" by (simp add: word_le_nat_alt S)
    then have "unat (drop_bit 24 b - 3) = s - 3" by (simp add: unat_sub S word_le_nat_alt)
    then have e: "unat (8 * (drop_bit 24 b - 3)) = 8 * (s - 3)" using eight_times [of "drop_bit 24 b - 3"] assms(1) unfolding s_def by linarith
    have "(256 :: nat) ^ s = 256 ^ (3 + (s - 3))" using False by simp
    also have "\<dots> = 2 ^ 24 * 256 ^ (s - 3)" unfolding power_add by simp
    finally have "w * 256 ^ s = 2 ^ 24 * (w * 256 ^ (s - 3))" by simp
    then have "v = w * 2 ^ (8 * (s - 3))" unfolding v_def pow256 [symmetric]
      by (metis nonzero_mult_div_cancel_left power_not_zero zero_neq_numeral)
    then show ?thesis using l unfolding e W by simp
  qed
  have "v \<le> w * 256 ^ 32 div 2 ^ 24" unfolding v_def using assms(1) by (intro div_le_mono mult_le_mono power_increasing) (simp_all add: s_def)
  also have "\<dots> \<le> 2 ^ 23 * 256 ^ 32 div 2 ^ 24" using assms(2) by (intro div_le_mono mult_le_mono1) (simp add: w_def)
  also have "\<dots> < 2 ^ 256" by simp
  finally have len: "length (to_bytes_le v) \<le> 32" by (simp only: le_nat_to_bytes_le(2))
  have nz: "\<not> list_all (\<lambda>x. x = 0) (to_bytes_le v)"
    using w0 le_nat_eq_0_iff [of "to_bytes_le v"] by (simp add: list_all_iff le_nat_to_bytes_le)
  have sm: "\<not> 34 < drop_bit 24 b" "\<not> 33 < drop_bit 24 b" "\<not> 32 < drop_bit 24 b" using assms(1) by (simp_all add: word_less_nat_alt S s_def)
  have ok: "b AND 0x007fffff \<noteq> 0" using w0 W by auto
  have ok2: "b AND 0x00800000 = 0" using assms(2) unfolding bit23 .
  have "compact_target b = Inr (to_bytes_le v @ replicate (32 - length (to_bytes_le v)) 0)"
    unfolding compact_target_def Let_def val using ok ok2 sm len nz by simp
  then show ?thesis using len by (simp add: le_nat_append le_nat_to_bytes_le v_def s_def w_def)
qed

lemma ucast_word_of_nat: "ucast (word_of_nat k :: u64) = (word_of_nat k :: u32)"
  by (simp add: word_unat_eq_iff) (simp add: unat_ucast unat_of_nat mod_mod_cancel)

lemma compact_eq:
  assumes "0 < n" and "n < 2 ^ 248"
  shows "unat (compact n) = target_len n * 2 ^ 24 + n * 2 ^ 24 div 256 ^ target_len n"
proof -
  define c where "c = (bit_len n + 7) div 8"
  define w where "w = n * 2 ^ 24 div 256 ^ c"
  have L: "0 < bit_len n" "bit_len n \<le> 248" using bit_len_bounds(2) [OF assms(1)] assms(2) by (simp_all only: bit_len_le_iff)
  have c: "1 \<le> c" "c \<le> 31" "bit_len n \<le> 8 * c" "8 * c < bit_len n + 8" using L by (simp_all add: c_def)
  have n: "n < 256 ^ c" unfolding pow256 using c(3) by (simp add: bit_len_le_iff)
  then have "n * 2 ^ 24 < 2 ^ 24 * 256 ^ c" by simp
  then have w: "w < 2 ^ 24" unfolding w_def by (rule less_mult_imp_div_less)
  have size: "unat (word_of_nat c :: u32) = c" using c by (simp add: unat_of_nat)
  have word: "(if (word_of_nat c :: u32) \<le> 3 then ucast (push_bit (unat (8 * (3 - word_of_nat c :: u32))) (word_of_nat n :: u64))
      else ucast (word_of_nat (n div 2 ^ unat (8 * (word_of_nat c - 3 :: u32))) :: u64)) = (word_of_nat w :: u32)"
  proof (cases "c \<le> 3")
    case True
    then have l: "(word_of_nat c :: u32) \<le> 3" by (simp add: word_le_nat_alt size)
    then have "unat (3 - word_of_nat c :: u32) = 3 - c" by (simp add: unat_sub size)
    then have e: "unat (8 * (3 - word_of_nat c :: u32)) = 8 * (3 - c)" using eight_times [of "3 - word_of_nat c"] True by linarith
    have "(2 :: nat) ^ 24 = 256 ^ (3 - c) * 256 ^ c" using True by (simp flip: power_add)
    then have "w = n * 256 ^ (3 - c) * 256 ^ c div 256 ^ c" unfolding w_def by (simp only: mult.assoc)
    then have wn: "w = n * 2 ^ (8 * (3 - c))" by (simp add: pow256)
    have "push_bit (8 * (3 - c)) (word_of_nat n :: u64) = word_of_nat w" unfolding wn by (simp add: push_bit_eq_mult)
    then show ?thesis using l unfolding e by (simp add: ucast_word_of_nat)
  next
    case False
    then have l: "\<not> (word_of_nat c :: u32) \<le> 3" by (simp add: word_le_nat_alt size)
    then have "unat (word_of_nat c - 3 :: u32) = c - 3" by (simp add: unat_sub size word_le_nat_alt)
    then have e: "unat (8 * (word_of_nat c - 3 :: u32)) = 8 * (c - 3)" using eight_times [of "word_of_nat c - 3"] c by linarith
    have "(256 :: nat) ^ c = 256 ^ (3 + (c - 3))" using False by simp
    also have "\<dots> = 2 ^ 24 * 256 ^ (c - 3)" unfolding power_add by simp
    finally have "w = 2 ^ 24 * n div (2 ^ 24 * 256 ^ (c - 3))" unfolding w_def by (simp only: mult.commute)
    also have "\<dots> = n div 2 ^ (8 * (c - 3))" by (subst div_mult_mult1) (simp_all add: pow256)
    finally show ?thesis using l unfolding e by (simp add: ucast_word_of_nat)
  qed
  have uw: "unat (word_of_nat w :: u32) = w" using w by (simp add: unat_of_nat)
  have high: "(word_of_nat w AND 0x00800000 :: u32) \<noteq> 0 \<longleftrightarrow> bit_len n = 8 * c"
  proof -
    have "2 ^ 23 \<le> w \<longleftrightarrow> 2 ^ 23 * 256 ^ c \<le> n * 2 ^ 24" unfolding w_def by (simp add: less_eq_div_iff_mult_less_eq)
    also have "\<dots> \<longleftrightarrow> 2 ^ (8 * c) \<le> 2 * n" unfolding pow256 by auto
    also have "\<dots> \<longleftrightarrow> 2 ^ (8 * c - 1) \<le> n" using c(1) by (cases "8 * c") auto
    also have "\<dots> \<longleftrightarrow> \<not> bit_len n \<le> 8 * c - 1" unfolding bit_len_le_iff by auto
    finally show ?thesis using c w by (auto simp: bit23 uw)
  qed
  show ?thesis
  proof (cases "bit_len n = 8 * c")
    case True
    then have s: "target_len n = c + 1" by (simp add: target_len_def)
    have "drop_bit 8 (word_of_nat w :: u32) = word_of_nat (w div 256)"
      by (subst word_unat_eq_iff) (use w in \<open>simp add: unat_drop_bit uw unat_of_nat\<close>)
    moreover have "w div 256 = n * 2 ^ 24 div 256 ^ target_len n" unfolding w_def s power_add power_one_right by (simp only: div_mult2_eq)
    moreover have "(word_of_nat c + 1 :: u32) = word_of_nat (c + 1)" by simp
    ultimately have "compact n = push_bit 24 (word_of_nat (c + 1)) OR word_of_nat (n * 2 ^ 24 div 256 ^ target_len n)"
      unfolding compact_def c_def [symmetric] Let_def word using high True by (simp add: or.commute add.commute)
    moreover have "n * 2 ^ 24 div 256 ^ target_len n < 2 ^ 24" using w \<open>w div 256 = _\<close> by linarith
    ultimately show ?thesis using compact_word [of "c + 1"] c by (simp add: s)
  next
    case False
    then have s: "target_len n = c" using c by (simp add: target_len_def)
    have "compact n = push_bit 24 (word_of_nat c) OR word_of_nat w"
      unfolding compact_def c_def [symmetric] Let_def word using high False by (simp add: or.commute)
    then show ?thesis using compact_word [of c w] c w by (simp add: s w_def)
  qed
qed

lemma compact_round_trip:
  assumes "0 < n" and "n < 2 ^ 248"
  shows "\<exists>bs. compact_target (compact n) = Inr bs \<and> length bs = 32 \<and> le_nat bs = round_target n"
proof -
  let ?s = "target_len n" and ?b = "unat (compact n)"
  define w where "w = n * 2 ^ 24 div 256 ^ ?s"
  have b: "?b = ?s * 2 ^ 24 + w" using compact_eq [OF assms] by (simp add: w_def)
  have "bit_len n \<le> 248" using assms(2) by (simp only: bit_len_le_iff)
  then have s: "?s \<le> 32" "0 < ?s" by (simp_all add: target_len_def)
  have "(2 :: nat) ^ (8 * ?s - 1) * 2 ^ 24 = 2 ^ 23 * 256 ^ ?s"
    unfolding pow256 power_add [symmetric] using s(2) by (intro arg_cong [of _ _ "power 2"]) simp
  then have "n * 2 ^ 24 < 2 ^ 23 * 256 ^ ?s"
    using target_len_bounds(1) [OF assms(1)] by (metis mult_less_mono1 zero_less_numeral zero_less_power)
  then have w: "w < 2 ^ 23" unfolding w_def by (rule less_mult_imp_div_less)
  have d: "?b div 2 ^ 24 = ?s" "?b mod 2 ^ 24 = w" using w unfolding b by simp_all
  have v: "w * 256 ^ ?s div 2 ^ 24 = round_target n"
  proof (cases "?s \<le> 3")
    case True
    have p: "(2 :: nat) ^ 24 = 256 ^ (3 - ?s) * 256 ^ ?s" using True by (simp flip: power_add)
    have "w * 256 ^ ?s = n * 2 ^ 24" unfolding w_def p by (simp add: mult.assoc [symmetric])
    then show ?thesis using round_target_bounds(4) [OF assms(1) True] by simp
  next
    case False
    have p: "(256 :: nat) ^ ?s = 2 ^ 24 * 256 ^ (?s - 3)"
    proof -
      have "(256 :: nat) ^ ?s = 256 ^ (3 + (?s - 3))" using False by simp
      then show ?thesis unfolding power_add by simp
    qed
    have "w = n div 256 ^ (?s - 3)" unfolding w_def p by (subst mult.commute, subst div_mult_mult1) simp_all
    then show ?thesis unfolding p round_target_def by (simp add: mult.left_commute)
  qed
  have "2 ^ 24 \<le> w * 256 ^ ?s" using round_target_bounds(2) [OF assms(1)] unfolding v [symmetric] by (simp add: div_greater_zero_iff)
  then show ?thesis using compact_target_eq [of "compact n", unfolded d] s(1) w v by simp
qed

section \<open>Both ASERT computations\<close>

definition factor :: "nat \<Rightarrow> nat" where
  "factor fraction = 65536 + (195766423245049 * fraction + 971821376 * fraction * fraction
     + 5127 * fraction * fraction * fraction + 2 ^ 47) div 2 ^ 48"

lemma factor_bounds:
  assumes "f < 2 ^ 16"
  shows "195766423245049 * f + 971821376 * f * f + 5127 * f * f * f + 2 ^ 47 < 2 ^ 64" and "factor f < 131072" and "65536 \<le> factor f"
proof -
  have f: "f \<le> 65535" using assms by simp
  have "195766423245049 * f + 971821376 * f * f + 5127 * f * f * f + 2 ^ 47
      \<le> 195766423245049 * 65535 + 971821376 * 65535 * 65535 + 5127 * 65535 * 65535 * 65535 + 2 ^ 47"
    using f by (intro add_mono mult_le_mono order_refl)
  also have "\<dots> < 2 ^ 64" by simp
  finally show b: "195766423245049 * f + 971821376 * f * f + 5127 * f * f * f + 2 ^ 47 < 2 ^ 64" .
  then have "(195766423245049 * f + 971821376 * f * f + 5127 * f * f * f + 2 ^ 47) div 2 ^ 48 < 2 ^ 16"
    by (intro less_mult_imp_div_less) simp
  then show "factor f < 131072" by (simp add: factor_def)
  show "65536 \<le> factor f" by (simp add: factor_def)
qed

lemma factor_mono: "f \<le> g \<Longrightarrow> factor f \<le> factor g"
  unfolding factor_def by (intro add_mono div_le_mono mult_le_mono order_refl)

lemma unat_cubic: "unat f < 2 ^ 16 \<Longrightarrow> unat (cubic f) = factor (unat f)"
proof -
  assume f: "unat f < 2 ^ 16"
  let ?n = "195766423245049 * unat f + 971821376 * unat f * unat f + 5127 * unat f * unat f * unat f + 2 ^ 47"
  have "195766423245049 * f + 971821376 * f * f + 5127 * f * f * f + push_bit 47 1 = (word_of_nat ?n :: u64)"
    by (simp add: push_bit_eq_mult)
  moreover have "unat (word_of_nat ?n :: u64) = ?n" using factor_bounds(1) [OF f] unfolding unat_of_nat by (intro mod_less) simp
  ultimately have u: "unat (drop_bit 48 (195766423245049 * f + 971821376 * f * f + 5127 * f * f * f + push_bit 47 1 :: u64)) = ?n div 2 ^ 48"
    by (simp only: unat_drop_bit)
  have "factor (unat f) < 2 ^ 64" using factor_bounds(2) [OF f] by simp
  then show ?thesis unfolding cubic_def factor_def by (subst unat_word_ariths) (simp only: u, simp)
qed

text \<open>A target shifted by \<open>s\<close> bits and clamped to \<open>[1, pow_limit]\<close>.\<close>

definition shifted :: "int \<Rightarrow> nat \<Rightarrow> nat" where
  "shifted s x = (let next = (if s \<le> 0 then x div 2 ^ nat (min (- s) 256) else x * 2 ^ nat (min s 256))
     in if next = 0 then 1 else min next pow_limit)"

lemma asert_target_eq:
  "asert_target reference time_diff height_diff half_life =
     (let e = (time_diff - 600 * height_diff - 600) * 65536 sdiv half_life
      in shifted (e div 2 ^ 16 - 16) (reference * factor (nat (e mod 2 ^ 16))))"
  unfolding asert_target_def shifted_def factor_def Let_def by (rule refl)

lemma shifted_bounds: "0 < shifted s x" "shifted s x \<le> pow_limit"
  by (auto simp: shifted_def Let_def pow_limit_def)

lemma shifted_mono: "x \<le> y \<Longrightarrow> shifted s x \<le> shifted s y"
proof -
  assume xy: "x \<le> y"
  define g where "g z = (if s \<le> 0 then z div 2 ^ nat (min (- s) 256) else z * 2 ^ nat (min s 256))" for z :: nat
  have "g x \<le> g y" unfolding g_def using xy by (auto intro: div_le_mono)
  then have "(if g x = 0 then 1 else min (g x) pow_limit) \<le> (if g y = 0 then 1 else min (g y) pow_limit)"
    by (auto simp: min_def pow_limit_def)
  then show ?thesis by (simp only: shifted_def Let_def g_def)
qed

lemma shifted_le_pow_limit: "x * 2 ^ 256 > pow_limit \<or> x = 0"
  by (cases x) (auto simp: pow_limit_def)

lemma shifted_Suc:
  assumes "x \<le> 2 * y" and "x < 2 ^ 256"
  shows "shifted s x \<le> shifted (s + 1) y"
proof -
  define g where "g t z = (if t \<le> 0 then z div 2 ^ nat (min (- t) 256) else z * 2 ^ nat (min t 256))" for t :: int and z :: nat
  have "g s x \<le> g (s + 1) y \<or> pow_limit \<le> g (s + 1) y"
  proof -
    consider "s < - 256" | "- 256 \<le> s" "s < 0" | "0 \<le> s" "s < 256" | "256 \<le> s" by linarith
    then show ?thesis
    proof cases
      case 1
      then have "g s x = 0" using assms(2) by (simp add: g_def)
      then show ?thesis by simp
    next
      case 2
      define k where "k = nat (- (s + 1))"
      have k: "nat (min (- s) 256) = Suc k" "nat (min (- (s + 1)) 256) = k" using 2 by (simp_all add: k_def)
      have "x div 2 ^ Suc k \<le> 2 * y div 2 ^ Suc k" using assms(1) by (rule div_le_mono)
      also have "\<dots> = y div 2 ^ k" by simp
      finally show ?thesis using 2 unfolding g_def k by simp
    next
      case 3
      define k where "k = nat s"
      have k: "nat (min s 256) = k" "nat (min (s + 1) 256) = Suc k" using 3 by (simp_all add: k_def)
      have "x * 2 ^ k \<le> 2 * y * 2 ^ k" using assms(1) by simp
      then show ?thesis using 3 unfolding g_def k by (cases "s = 0") (simp_all add: k_def mult.assoc mult.left_commute)
    next
      case 4
      then have "g (s + 1) y = y * 2 ^ 256" by (simp add: g_def)
      then show ?thesis using shifted_le_pow_limit [of y] assms(1) 4 by (auto simp: g_def)
    qed
  qed
  then have "(if g s x = 0 then 1 else min (g s x) pow_limit) \<le> (if g (s + 1) y = 0 then 1 else min (g (s + 1) y) pow_limit)"
    by (auto simp: min_def pow_limit_def)
  then show ?thesis by (simp only: shifted_def Let_def g_def)
qed

definition target_at :: "nat \<Rightarrow> int \<Rightarrow> nat" where
  "target_at reference e = shifted (e div 2 ^ 16 - 16) (reference * factor (nat (e mod 2 ^ 16)))"

lemma target_at_step:
  assumes "reference \<le> pow_limit"
  shows "target_at reference e \<le> target_at reference (e + 1)"
proof -
  have m: "0 \<le> e mod 2 ^ 16" "e mod 2 ^ 16 < 2 ^ 16" by simp_all
  show ?thesis
  proof (cases "e mod 2 ^ 16 = 2 ^ 16 - 1")
    case True
    have "e + 1 = 2 ^ 16 * (e div 2 ^ 16 + 1) + 0" using True mult_div_mod_eq [of "2 ^ 16" e] by (simp add: distrib_left)
    then have n: "(e + 1) div 2 ^ 16 = e div 2 ^ 16 + 1" "(e + 1) mod 2 ^ 16 = 0"
      by (rule int_div_pos_eq int_mod_pos_eq; simp)+
    have f: "factor (nat (e mod 2 ^ 16)) < 131072" using m by (intro factor_bounds) (simp add: nat_less_iff)
    have z: "factor 0 = 65536" by (simp add: factor_def)
    have "reference * factor (nat (e mod 2 ^ 16)) \<le> reference * 131072" using f by simp
    also have "\<dots> \<le> pow_limit * 131072" using assms by simp
    also have "\<dots> < 2 ^ 256" by (simp add: pow_limit_def)
    finally have "reference * factor (nat (e mod 2 ^ 16)) < 2 ^ 256" .
    moreover have "reference * factor (nat (e mod 2 ^ 16)) \<le> 2 * (reference * factor (nat ((e + 1) mod 2 ^ 16)))"
      using f z by (simp only: n nat_0) simp
    ultimately show ?thesis unfolding target_at_def n(1) using shifted_Suc [of _ _ "e div 2 ^ 16 - 16"] by (simp add: algebra_simps)
  next
    case False
    have a: "e + 1 = 2 ^ 16 * (e div 2 ^ 16) + (e mod 2 ^ 16 + 1)" using mult_div_mod_eq [of "2 ^ 16" e] by linarith
    have b: "0 \<le> e mod 2 ^ 16 + 1" "e mod 2 ^ 16 + 1 < 2 ^ 16" using m False by linarith+
    have n: "(e + 1) div 2 ^ 16 = e div 2 ^ 16" "(e + 1) mod 2 ^ 16 = e mod 2 ^ 16 + 1"
      by (rule int_div_pos_eq [OF a b] int_mod_pos_eq [OF a b])+
    show ?thesis unfolding target_at_def n by (intro shifted_mono mult_le_mono2 factor_mono) (use m in simp)
  qed
qed

lemma target_at_mono: "e \<le> e' \<Longrightarrow> reference \<le> pow_limit \<Longrightarrow> target_at reference e \<le> target_at reference e'"
proof (induction e' rule: int_ge_induct)
  case (step i)
  then show ?case using target_at_step [of reference i] by simp
qed simp

lemma sdiv_mono: "0 < k \<Longrightarrow> a \<le> b \<Longrightarrow> (a :: int) sdiv k \<le> b sdiv k"
proof -
  assume k: "0 < k" and ab: "a \<le> b"
  have p: "x sdiv k = (if 0 \<le> x then x div k else - (- x div k))" for x
    using k by (simp add: signed_divide_int_def sgn_if)
  consider "0 \<le> a" | "a < 0" "0 \<le> b" | "b < 0" using ab by linarith
  then show ?thesis
  proof cases
    case 1
    then show ?thesis using ab k by (simp add: p zdiv_mono1)
  next
    case 2
    have "0 \<le> - a div k" "0 \<le> b div k" using 2 k by (simp_all add: pos_imp_zdiv_nonneg_iff)
    then show ?thesis using 2 by (simp add: p)
  next
    case 3
    then have "- b div k \<le> - a div k" using ab k by (intro zdiv_mono1) simp_all
    then show ?thesis using 3 ab by (simp add: p)
  qed
qed

lemma wrap_i64_id: "- (2 ^ 63) \<le> x \<Longrightarrow> x < 2 ^ 63 \<Longrightarrow> wrap_i64 x = x"
  unfolding wrap_i64_def by (rule signed_take_bit_int_eq_self) simp_all

lemma unat_word16_of_int: "unat (ucast (word_of_int e :: u16) :: u64) = nat (e mod 2 ^ 16)"
  by (simp add: unat_ucast_up unsigned_of_int take_bit_eq_mod)

lemma calculate_None:
  "\<not> (0 < reference \<and> reference \<le> limit \<and> 0 < half_life \<and> - (2 ^ 63) \<le> 600 * height_diff \<and> 600 * height_diff < 2 ^ 63 \<and>
      \<bar>time_diff - 600 * height_diff\<bar> < 2 ^ 47) \<Longrightarrow> calculate reference time_diff height_diff limit half_life = None"
  by (auto simp: calculate_def checked_i64_def SPACING_def Let_def le_nat_iff bind_eq_None_conv split: if_splits)

lemma calculate_eq_asert:
  assumes ref: "0 < reference" "reference \<le> pow_limit" and hl: "0 < half_life"
    and sched: "- (2 ^ 63) \<le> 600 * height_diff" "600 * height_diff < 2 ^ 63"
    and span: "600 - 2 ^ 47 \<le> time_diff - 600 * height_diff" "time_diff - 600 * height_diff < 2 ^ 47"
  shows "calculate reference time_diff height_diff pow_limit half_life = Some (asert_target reference time_diff height_diff half_life)"
proof -
  define sp where "sp = time_diff - 600 * height_diff"
  define e where "e = (sp - 600) * 65536 sdiv half_life"
  define x where "x = reference * factor (nat (e mod 2 ^ 16))"
  define s where "s = e div 2 ^ 16 - 16"
  have c: "checked_i64 (SPACING * height_diff) = Some (600 * height_diff)" using sched by (simp add: checked_i64_def SPACING_def)
  have sb: "- (2 ^ 47) \<le> sp - 600" "sp - 600 < 2 ^ 47" using span unfolding sp_def by linarith+
  have sn: "nat \<bar>sp\<bar> < 2 ^ 47" using span unfolding sp_def by (simp add: nat_less_iff)
  from sb have c2: "checked_i64 (time_diff - 600 * height_diff) = Some sp" by (simp add: checked_i64_def sp_def)
  have w: "wrap_i64 (wrap_i64 (sp - SPACING) * 65536) = (sp - 600) * 65536"
    using sb by (simp add: SPACING_def wrap_i64_id)
  have f: "unat (cubic (ucast (word_of_int e :: u16))) = factor (nat (e mod 2 ^ 16))"
  proof -
    have "nat (e mod 2 ^ 16) < 2 ^ 16" by (simp add: nat_less_iff)
    then show ?thesis using unat_cubic [of "ucast (word_of_int e :: u16)"] by (simp only: unat_word16_of_int)
  qed
  have calc: "calculate reference time_diff height_diff pow_limit half_life =
    (let next = (if s \<le> 0 then x div 2 ^ min (nat \<bar>s\<bar>) 256 else if bit_len x + nat \<bar>s\<bar> > 256 then pow_limit else x * 2 ^ nat \<bar>s\<bar>)
     in Some (if next = 0 then 1 else if next > pow_limit then pow_limit else next))"
  proof -
    have g: "\<not> (reference = 0 \<or> reference > pow_limit \<or> half_life \<le> 0)" "\<not> nat \<bar>sp\<bar> \<ge> 2 ^ 47" using ref hl sn by linarith+
    show ?thesis unfolding calculate_def if_not_P [OF g(1)] c c2 bind.bind_lunit if_not_P [OF g(2)] w
      unfolding e_def [symmetric] unfolding Let_def f unfolding x_def s_def by (rule refl)
  qed
  have x0: "0 < x" using ref factor_bounds(3) [of "nat (e mod 2 ^ 16)"] by (simp add: x_def) (metis factor_def add_is_0 gr0I zero_neq_numeral)
  have big: "pow_limit < x * 2 ^ nat (min s 256)" if "0 < s" "256 < bit_len x + nat s"
  proof -
    have "2 ^ 255 \<le> x * 2 ^ nat (min s 256)"
    proof (cases "s \<le> 256")
      case True
      have "(2 :: nat) ^ 256 \<le> 2 ^ (bit_len x - 1 + nat s)" using that by (intro power_increasing) linarith+
      also have "\<dots> \<le> x * 2 ^ nat s" using bit_len_bounds(2) [OF x0] unfolding power_add by (intro mult_le_mono1) simp
      finally show ?thesis using True by (simp add: min_def)
    next
      case False
      then show ?thesis using x0 by (cases x) simp_all
    qed
    then show ?thesis by (simp add: pow_limit_def)
  qed
  have small: "s \<le> 256" if "0 < s" "\<not> 256 < bit_len x + nat s" using that by linarith
  have "calculate reference time_diff height_diff pow_limit half_life = Some (shifted s x)"
  proof (cases "s \<le> 0")
    case True
    then have "min (nat \<bar>s\<bar>) 256 = nat (min (- s) 256)" by linarith
    then show ?thesis using True by (simp add: calc shifted_def Let_def min_def)
  next
    case False
    show ?thesis
    proof (cases "256 < bit_len x + nat s")
      case True
      then have "shifted s x = pow_limit" using big False x0 by (simp add: shifted_def Let_def min_def)
      moreover have "pow_limit \<noteq> 0" by (simp add: pow_limit_def)
      ultimately show ?thesis using True False by (simp add: calc)
    next
      case no: False
      then have "nat (min s 256) = nat s" using small False by (simp add: min_def)
      then show ?thesis using no False x0 by (simp add: calc shifted_def Let_def min_def)
    qed
  qed
  moreover have "shifted s x = asert_target reference time_diff height_diff half_life"
    unfolding asert_target_eq Let_def by (simp add: x_def s_def e_def sp_def)
  ultimately show ?thesis by simp
qed

lemma asert_target_mono:
  assumes "reference \<le> pow_limit" and "0 < half_life" and "t - 600 * h \<le> t' - 600 * h'"
  shows "asert_target reference t h half_life \<le> asert_target reference t' h' half_life"
proof -
  have "(t - 600 * h - 600) * 65536 sdiv half_life \<le> (t' - 600 * h' - 600) * 65536 sdiv half_life"
    using assms(3) by (intro sdiv_mono [OF assms(2)]) simp
  from target_at_mono [OF this assms(1)] show ?thesis unfolding asert_target_eq Let_def target_at_def .
qed

lemma asert_target_bounds: "0 < asert_target reference t h half_life" "asert_target reference t h half_life \<le> pow_limit"
  unfolding asert_target_eq Let_def by (rule shifted_bounds)+

lemma reference_chipnet: "\<exists>bs. compact_target (an_bits CHIPNET) = Inr bs \<and> le_nat bs = 0xffff * 256 ^ 26"
proof -
  have "unat (an_bits CHIPNET) = 0x1d00ffff" by (simp add: CHIPNET_def)
  then have d: "unat (an_bits CHIPNET) div 2 ^ 24 = 29" "unat (an_bits CHIPNET) mod 2 ^ 24 = 0xffff" by simp_all
  have p: "(0xffff :: nat) * 256 ^ 29 = 2 ^ 24 * (0xffff * 256 ^ 26)" by simp
  have "(0xffff :: nat) * 256 ^ 29 div 2 ^ 24 = 0xffff * 256 ^ 26" unfolding p by simp
  moreover have "(2 :: nat) ^ 24 \<le> 0xffff * 256 ^ 29" by simp
  ultimately show ?thesis using compact_target_eq [of "an_bits CHIPNET", unfolded d] by auto
qed

lemma next_bits_chipnet:
  assumes "16844 \<le> unat parent_height"
  shows "next_bits CHIPNET parent_height parent_time =
    Some (compact (asert_target (0xffff * 256 ^ 26) (int (unat parent_time) - 1605451779) (int (unat parent_height) - 16844) 3600))"
proof -
  have sub: "checked_sub parent_height (an_height CHIPNET) = Some (parent_height - 16844)"
    using assms by (simp add: checked_sub_def CHIPNET_def word_le_nat_alt)
  have h: "int (unat (parent_height - 16844)) = int (unat parent_height) - 16844"
    using assms by (simp add: unat_sub word_le_nat_alt of_nat_diff)
  define hh where "hh = int (unat parent_height)"
  define tt where "tt = int (unat parent_time)"
  have "16844 \<le> hh" using assms unfolding hh_def by linarith
  then have b: "16844 \<le> hh" "hh < 4294967296" "0 \<le> tt" "tt < 4294967296"
    using unsigned_less [of parent_height, where ?'a = int] unsigned_less [of parent_time, where ?'a = int] assms
    by (simp_all add: hh_def tt_def)
  have w: "wrap_i64 (tt - an_parent_time CHIPNET) = tt - 1605451779"
    using b by (subst wrap_i64_id) (simp_all add: CHIPNET_def)
  obtain bs where bs: "compact_target (an_bits CHIPNET) = Inr bs" "le_nat bs = 0xffff * 256 ^ 26" using reference_chipnet by blast
  have hl: "an_half_life CHIPNET = 3600" by (simp add: CHIPNET_def)
  have "calculate (0xffff * 256 ^ 26) (tt - 1605451779) (hh - 16844) pow_limit 3600
      = Some (asert_target (0xffff * 256 ^ 26) (tt - 1605451779) (hh - 16844) 3600)"
    by (rule calculate_eq_asert) (use b in \<open>simp_all add: pow_limit_def abs_less_iff\<close>)
  then show ?thesis
    unfolding next_bits_def sub bind.bind_lunit Let_def tt_def [symmetric] h hh_def [symmetric] w bs hl sum.case by simp
qed

lemma fold_le_bytes:
  "length bs \<le> 8 \<Longrightarrow> unat (fold (\<lambda>byte value. push_bit 8 value OR ucast byte) (rev (bs :: bytes)) (0 :: u64)) = le_nat bs"
proof (induction bs)
  case (Cons b bs)
  define v where "v = fold (\<lambda>byte value. push_bit 8 value OR ucast byte) (rev bs) (0 :: u64)"
  have v: "unat v = le_nat bs" using Cons by (simp add: v_def)
  have b: "unat b < 2 ^ 8" using unsigned_less [of b, where ?'a = nat] by simp
  have "le_nat bs < 256 ^ length bs" using le_nat_less [of bs] by simp
  also have "\<dots> \<le> 256 ^ 7" using Cons.prems by (intro power_increasing) simp_all
  finally have "unat v < 72057594037927936" using v by simp
  moreover have "unat b < 256" using b by simp
  ultimately have lt: "unat v * 2 ^ 8 + unat b < 2 ^ 64" by simp
  have "\<not> bit (ucast b :: u64) i" if "8 \<le> i" for i
    using that bit_imp_le_length [of b i] by (auto simp: bit_unsigned_iff)
  then have "push_bit 8 v OR ucast b = push_bit 8 v + ucast b"
    by (subst disjunctive_add) (auto simp: bit_push_bit_iff)
  also have "\<dots> = word_of_nat (unat v * 2 ^ 8 + unat b)" by (simp add: push_bit_eq_mult)
  finally have "unat (push_bit 8 v OR ucast b) = unat v * 2 ^ 8 + unat b"
    using lt by (simp only: unat_of_nat) (rule mod_less, simp)
  then show ?case using v by (simp add: v_def)
qed simp

lemma coinbase_height_bytes:
  assumes "coinbase_height head = Some h"
  defines "push \<equiv> unat (head ! 42)"
  defines "bs \<equiv> subrange head 43 (43 + push)"
  shows "check_head head" and "1 \<le> push" and "push \<le> 5" and "length bs = push" and "unat h = le_nat bs"
    and "bs ! (push - 1) AND 0x80 = 0" and "bs ! (push - 1) = 0 \<Longrightarrow> 1 < push \<and> bs ! (push - 2) AND 0x80 \<noteq> 0"
proof -
  obtain b where b: "get_byte head 42 = Some b" using assms(1) by (cases "get_byte head 42") (simp_all add: coinbase_height_def Let_def split: if_splits)
  then have p: "unat b = push" by (simp add: get_byte_def push_def split: if_splits)
  obtain r where r: "get_range head 43 (43 + push) = Some r" using assms(1) b p
    by (cases "get_range head 43 (43 + push)") (simp_all add: coinbase_height_def Let_def split: if_splits)
  then have rb: "r = bs" "43 + push \<le> length head" by (simp_all add: get_range_def bs_def split: if_splits)
  show ch: "check_head head" "1 \<le> push" "push \<le> 5" using assms(1) b p by (auto simp: coinbase_height_def Let_def split: if_splits)
  show "length bs = push" using rb by (simp add: bs_def subrange_def)
  have h: "h = fold (\<lambda>byte value. push_bit 8 value OR ucast byte) (rev bs) 0"
    using assms(1) b p r rb by (auto simp: coinbase_height_def Let_def split: if_splits)
  show "bs ! (push - 1) AND 0x80 = 0" "bs ! (push - 1) = 0 \<Longrightarrow> 1 < push \<and> bs ! (push - 2) AND 0x80 \<noteq> 0"
    using assms(1) b p r rb ch by (auto simp: coinbase_height_def Let_def split: if_splits)
  show "unat h = le_nat bs" using \<open>length bs = push\<close> \<open>push \<le> 5\<close> by (simp add: h fold_le_bytes)
qed

lemma high_bit: "(b AND 0x80 :: u8) = 0 \<longleftrightarrow> unat b < 2 ^ 7"
proof -
  have e: "(0x80 :: u8) = 2 ^ 7" by simp
  have "(b AND 0x80 = 0) = (\<not> bit b 7)" unfolding e by (rule and_exp_eq_0_iff_not_bit)
  also have "bit b 7 \<longleftrightarrow> bit (unat b) 7" by (simp add: bit_unsigned_iff)
  also have "\<dots> \<longleftrightarrow> odd (unat b div 2 ^ 7)" by (rule bit_iff_odd)
  also have "(\<not> \<dots>) \<longleftrightarrow> unat b < 2 ^ 7"
  proof -
    have "unat b < 2 ^ 8" using unsigned_less [of b, where ?'a = nat] by simp
    then have "unat b div 2 ^ 7 < 2" by (intro less_mult_imp_div_less) simp
    then consider "unat b div 2 ^ 7 = 0" | "unat b div 2 ^ 7 = 1" by linarith
    then show ?thesis by cases (auto simp: div_eq_0_iff)
  qed
  finally show ?thesis .
qed

text \<open>The minimal script number of \<open>n\<close>: its bytes and, when the top bit is taken, a zero byte for the sign.\<close>

definition script_number :: "nat \<Rightarrow> bytes" where
  "script_number n = nat_le (target_len n) n"

lemma le_nat_last:
  fixes bs :: bytes
  assumes "bs \<noteq> []"
  shows "256 ^ (length bs - 1) * unat (last bs) \<le> le_nat bs" and "le_nat bs < 256 ^ (length bs - 1) * (unat (last bs) + 1)"
proof -
  have "bs = butlast bs @ [last bs]" using assms by simp
  then have e: "le_nat bs = le_nat (butlast bs) + 256 ^ (length bs - 1) * unat (last bs)"
    using le_nat_append [of "butlast bs" "[last bs]"] by simp
  have "le_nat (butlast bs) < 256 ^ (length bs - 1)" using le_nat_less [of "butlast bs"] by simp
  then show "256 ^ (length bs - 1) * unat (last bs) \<le> le_nat bs" "le_nat bs < 256 ^ (length bs - 1) * (unat (last bs) + 1)"
    unfolding e by (simp_all add: distrib_left)
qed

lemma script_number_unique:
  fixes bs :: bytes
  assumes ne: "bs \<noteq> []" and top: "last bs AND 0x80 = 0"
    and min: "last bs = 0 \<Longrightarrow> 1 < length bs \<and> bs ! (length bs - 2) AND 0x80 \<noteq> 0"
  shows "bs = script_number (le_nat bs)" and "0 < le_nat bs"
proof -
  define k where "k = length bs"
  have k: "0 < k" using ne by (simp add: k_def)
  have "unat (last bs) + 1 \<le> 2 ^ 7" using top by (simp add: high_bit)
  then have "256 ^ (k - 1) * (unat (last bs) + 1) \<le> 256 ^ (k - 1) * 2 ^ 7" by (rule mult_le_mono2)
  also have "\<dots> = 2 ^ (8 * k - 1)" unfolding pow256 power_add [symmetric] using k by (intro arg_cong [of _ _ "power 2"]) simp
  finally have up: "le_nat bs < 2 ^ (8 * k - 1)" using le_nat_last(2) [OF ne] by (simp add: k_def)
  have "0 < le_nat bs \<and> (1 < k \<longrightarrow> 2 ^ (8 * k - 9) \<le> le_nat bs)"
  proof (cases "last bs = 0")
    case False
    then have "1 \<le> unat (last bs)" by (simp add: Suc_le_eq unat_gt_0)
    then have "256 ^ (k - 1) * 1 \<le> 256 ^ (k - 1) * unat (last bs)" by (rule mult_le_mono2)
    then have "256 ^ (k - 1) \<le> le_nat bs" using le_nat_last(1) [OF ne] unfolding k_def by linarith
    moreover have "(2 :: nat) ^ (8 * k - 9) \<le> 256 ^ (k - 1)" unfolding pow256 by (intro power_increasing) simp_all
    moreover have "(0 :: nat) < 256 ^ (k - 1)" by simp
    ultimately show ?thesis by linarith
  next
    case True
    note m = min [OF True]
    define cs where "cs = butlast bs"
    have "length cs = k - 1" by (simp add: cs_def k_def)
    moreover from this have "cs \<noteq> []" using m by (auto simp: k_def)
    ultimately have cs: "cs \<noteq> []" "last cs = bs ! (k - 2)" "length cs = k - 1"
      using m [THEN conjunct1] by (simp_all add: last_conv_nth) (simp add: cs_def k_def nth_butlast numeral_2_eq_2)
    have "bs = cs @ [0]" using ne True by (simp add: cs_def) (metis append_butlast_last_id)
    then have e: "le_nat bs = le_nat cs" by (simp add: le_nat_append)
    have "2 ^ 7 \<le> unat (last cs)" using m cs by (simp add: high_bit k_def)
    then have "256 ^ (k - 2) * 2 ^ 7 \<le> 256 ^ (k - 2) * unat (last cs)" by (rule mult_le_mono2)
    also have "\<dots> \<le> le_nat cs" using le_nat_last(1) [OF cs(1)] cs(3) by (simp add: numeral_2_eq_2)
    finally have le: "256 ^ (k - 2) * 2 ^ 7 \<le> le_nat bs" using e by simp
    have "(256 :: nat) ^ (k - 2) * 2 ^ 7 = 2 ^ (8 * k - 9)"
      unfolding pow256 power_add [symmetric] using m [THEN conjunct1] by (intro arg_cong [of _ _ "power 2"]) (simp add: k_def)
    moreover have "(0 :: nat) < 256 ^ (k - 2) * 2 ^ 7" by simp
    ultimately show ?thesis using le by linarith
  qed
  then have low: "0 < le_nat bs" "1 < k \<Longrightarrow> 2 ^ (8 * k - 9) \<le> le_nat bs" by simp_all
  show "0 < le_nat bs" by (rule low)
  have "bit_len (le_nat bs) \<le> 8 * k - 1" using up by (simp add: bit_len_le_iff)
  moreover have "1 < k \<Longrightarrow> \<not> bit_len (le_nat bs) \<le> 8 * k - 9" using low(2) unfolding bit_len_le_iff by simp
  ultimately have "8 * (k - 1) \<le> bit_len (le_nat bs)" "bit_len (le_nat bs) < 8 * (k - 1) + 8" using k by linarith+
  then have "bit_len (le_nat bs) div 8 = k - 1" by (simp add: div_nat_eqI)
  then have "target_len (le_nat bs) = k" using k by (simp add: target_len_def)
  then show "bs = script_number (le_nat bs)" by (simp add: script_number_def k_def nat_le_le_nat)
qed

lemma coinbase_height_number:
  assumes "coinbase_height head = Some h"
  shows "subrange head 43 (43 + unat (head ! 42)) = script_number (unat h)" and "0 < unat h" and "unat h < 2 ^ 39"
proof -
  note B = coinbase_height_bytes [OF assms]
  define push where "push = unat (head ! 42)"
  define bs where "bs = subrange head 43 (43 + push)"
  note B = B [folded push_def, folded bs_def]
  have "bs \<noteq> []" using B(2,4) by auto
  then have ne: "bs \<noteq> []" "last bs = bs ! (push - 1)" using B(4) by (simp_all add: last_conv_nth)
  have "bs = script_number (le_nat bs) \<and> 0 < le_nat bs"
    using script_number_unique [OF ne(1)] ne(2) B(4,6,7) by simp
  then show "subrange head 43 (43 + unat (head ! 42)) = script_number (unat h)" "0 < unat h"
    using B(5) by (simp_all add: bs_def push_def)
  have "unat (last bs) + 1 \<le> 2 ^ 7" using B(6) ne(2) by (simp add: high_bit)
  then have "256 ^ (push - 1) * (unat (last bs) + 1) \<le> 256 ^ 4 * 2 ^ 7" using B(3) by (intro mult_le_mono power_increasing) simp_all
  then show "unat h < 2 ^ 39" using le_nat_last(2) [OF ne(1)] B(4,5) by simp
qed

lemma expand_is_rounded:
  assumes "expand_token_target b = Some t"
  shows "round_target t = t"
proof -
  have h: "3 \<le> unat b div 2 ^ 24" "0 < unat b mod 2 ^ 24" "unat b mod 2 ^ 24 < 2 ^ 23" "t = unat b mod 2 ^ 24 * 256 ^ (unat b div 2 ^ 24 - 3)"
    using assms unfolding expand_token_target_iff Let_def by (simp_all split: if_splits)
  define e where "e = unat b div 2 ^ 24"
  have "t < 2 ^ 23 * 256 ^ (e - 3)" using h(3) unfolding h(4) e_def by simp
  also have "\<dots> = 2 ^ (8 * e - 1)" unfolding pow256 power_add [symmetric] using h(1) by (intro arg_cong [of _ _ "power 2"]) (simp add: e_def)
  finally have "bit_len t \<le> 8 * e - 1" by (simp only: bit_len_le_iff)
  then have "target_len t \<le> e" using h(1) by (simp add: target_len_def e_def)
  then have "(256 :: nat) ^ (target_len t - 3) dvd 256 ^ (e - 3)" by (intro le_imp_power_dvd) simp
  then have "256 ^ (target_len t - 3) dvd t" unfolding h(4) e_def by (rule dvd_mult)
  then show ?thesis by (simp add: round_target_def)
qed

lemma claim_target_bits_Some:
  assumes "expand_token_target state_bits = Some t" and "threads \<noteq> 0" and "height_delta \<noteq> 0"
  shows "\<exists>b. claim_target_bits state_bits height_delta threads = Some b \<and>
    expand_token_target b = Some (round_target (eased_target t height_delta threads))"
proof -
  have "0 < eased_target t height_delta threads" "eased_target t height_delta threads \<le> max_token_target"
    by (simp_all add: eased_target_def max_token_target_def)
  from expand_encode_token_target [OF this] show ?thesis using assms by (simp add: claim_target_bits_eq)
qed

lemma eased_target_mono: "height_delta \<le> height_delta' \<Longrightarrow> eased_target t height_delta threads \<le> eased_target t height_delta' threads"
proof -
  assume "height_delta \<le> height_delta'"
  then have "min (unat height_delta) 288 \<le> min (unat height_delta') 288" by (simp add: word_le_nat_alt)
  then have "ease_factor height_delta threads \<le> ease_factor height_delta' threads"
    unfolding ease_factor_def by (intro add_mono div_le_mono mult_le_mono order_refl)
  then have "t * ease_factor height_delta threads div 10000 \<le> t * ease_factor height_delta' threads div 10000"
    by (intro div_le_mono mult_le_mono order_refl)
  then show ?thesis unfolding eased_target_def by (intro min.mono max.mono order_refl)
qed

lemma eased_target_ge:
  assumes "t \<le> max_token_target" and "threads \<noteq> 0" and "unat threads \<le> 288" and "288 \<le> unat height_delta"
  shows "t \<le> eased_target t height_delta threads"
proof -
  have "0 < unat threads" using assms(2) by (simp add: unat_gt_0)
  have "unat threads * 5000 \<le> 288 * 5000" using assms(3) by (rule mult_le_mono1)
  then have "5000 \<le> 288 * 5000 div unat threads" using \<open>0 < unat threads\<close> by (simp add: less_eq_div_iff_mult_less_eq mult.commute)
  then have "10000 \<le> ease_factor height_delta threads" using assms(4) by (simp add: ease_factor_def min_def)
  then have "t * 10000 div 10000 \<le> t * ease_factor height_delta threads div 10000" by (intro div_le_mono mult_le_mono2)
  then show ?thesis using assms(1) by (simp add: eased_target_def)
qed

section \<open>Properties\<close>

text \<open>C40. The two ASERT computations of the program agree: outside the 599 spans just above \<open>- 2^47\<close> seconds, the server's
  \<open>calculate\<close> (checked and wrapping 64-bit integers, a \<open>u64\<close> cubic) returns a target exactly for a reference between 1 and the limit, a
  positive half-life, a schedule of 64 bits and a span below \<open>2^47\<close> in size, and it is the target the covenant's \<open>asert_target\<close> computes
  (128-bit integers): no multiplication, sum or shift of the former overflows there. In the excluded spans
  \<open>calculate\<close> returns a target although its product wraps.\<close>

theorem asert_variants_agree:
  assumes "\<not> (- (2 ^ 47) < time_diff - 600 * height_diff \<and> time_diff - 600 * height_diff < 600 - 2 ^ 47)"
  shows "calculate reference time_diff height_diff pow_limit half_life =
    (if 0 < reference \<and> reference \<le> pow_limit \<and> 0 < half_life \<and> - (2 ^ 63) \<le> 600 * height_diff \<and> 600 * height_diff < 2 ^ 63 \<and>
        \<bar>time_diff - 600 * height_diff\<bar> < 2 ^ 47
     then Some (asert_target reference time_diff height_diff half_life) else None)"
proof (cases "0 < reference \<and> reference \<le> pow_limit \<and> 0 < half_life \<and> - (2 ^ 63) \<le> 600 * height_diff \<and> 600 * height_diff < 2 ^ 63 \<and>
    \<bar>time_diff - 600 * height_diff\<bar> < 2 ^ 47")
  case True
  then have "600 - 2 ^ 47 \<le> time_diff - 600 * height_diff" "time_diff - 600 * height_diff < 2 ^ 47" using assms by linarith+
  with True show ?thesis by (simp add: calculate_eq_asert)
next
  case False
  then show ?thesis by (auto simp: calculate_None)
qed

theorem asert_variants_agree_witness:
  "calculate (0xffff * 256 ^ 26) 5000 7 pow_limit 3600 = Some (asert_target (0xffff * 256 ^ 26) 5000 7 3600)"
  by (subst asert_variants_agree) (simp_all add: pow_limit_def)

text \<open>The excluded spans are real: one second short of \<open>- 2^47\<close> the guard of \<open>calculate\<close> lets the span pass, its product wraps to a
  positive exponent, and the target is the limit in place of 1.\<close>

theorem asert_guard_admits_overflow:
  "calculate 1000 (- (2 ^ 47 - 1)) 0 pow_limit 3600 = Some pow_limit \<and> asert_target 1000 (- (2 ^ 47 - 1)) 0 3600 = 1"
proof
  have c: "checked_i64 (SPACING * 0) = Some 0" "checked_i64 (- (2 ^ 47 - 1) - 0) = Some (- (2 ^ 47 - 1))" by (simp_all add: checked_i64_def)
  have w: "wrap_i64 (wrap_i64 (- (2 ^ 47 - 1) - SPACING) * 65536) sdiv 3600 = 2562047788004311"
    by (simp add: wrap_i64_def SPACING_def signed_take_bit_int_eq_self signed_divide_int_def)
  show "calculate 1000 (- (2 ^ 47 - 1)) 0 pow_limit 3600 = Some pow_limit"
    unfolding calculate_def c bind.bind_lunit w by (simp add: pow_limit_def Let_def)
  show "asert_target 1000 (- (2 ^ 47 - 1)) 0 3600 = 1"
    by (simp add: asert_target_def Let_def signed_divide_int_def pow_limit_def)
qed

text \<open>Chipnet's next bits are ASERT's: from the anchor on, \<open>next_bits\<close> always returns bits, and they decode
  to the ASERT target of the parent's height and time, at most one part in \<open>2^15\<close> below it.\<close>

theorem next_bits_follow_asert:
  assumes "16844 \<le> unat parent_height"
  shows "\<exists>b bs. next_bits CHIPNET parent_height parent_time = Some b \<and> compact_target b = Inr bs \<and>
    le_nat bs \<le> asert_target (0xffff * 256 ^ 26) (int (unat parent_time) - 1605451779) (int (unat parent_height) - 16844) 3600 \<and>
    (asert_target (0xffff * 256 ^ 26) (int (unat parent_time) - 1605451779) (int (unat parent_height) - 16844) 3600 - le_nat bs) * 2 ^ 15
      \<le> le_nat bs"
proof -
  define n where "n = asert_target (0xffff * 256 ^ 26) (int (unat parent_time) - 1605451779) (int (unat parent_height) - 16844) 3600"
  have n: "0 < n" "n \<le> pow_limit" unfolding n_def by (rule asert_target_bounds)+
  have "pow_limit < 2 ^ 248" by (simp add: pow_limit_def)
  then obtain bs where "compact_target (compact n) = Inr bs" "le_nat bs = round_target n" using compact_round_trip [of n] n by auto
  then show ?thesis
    unfolding n_def [symmetric] next_bits_chipnet [OF assms, of parent_time, folded n_def] using round_target_bounds [OF n(1)] by auto
qed

theorem next_bits_follow_asert_witness:
  "\<exists>b bs. next_bits CHIPNET 16844 1605451779 = Some b \<and> compact_target b = Inr bs"
  using next_bits_follow_asert [of 16844 1605451779] by auto

text \<open>ASERT is monotone and bounded: a block further behind schedule never gets a harder target, and every
  target lies between 1 and the limit. The cubic's fraction wraps from 65,535 to 0 at each power of two
  without a step back.\<close>

theorem asert_is_monotone:
  assumes "reference \<le> pow_limit" and "0 < half_life" and "t - 600 * h \<le> t' - 600 * h'"
  shows "1 \<le> asert_target reference t h half_life \<and> asert_target reference t h half_life \<le> asert_target reference t' h' half_life \<and>
    asert_target reference t' h' half_life \<le> pow_limit"
  using asert_target_mono [OF assms] asert_target_bounds by (simp add: Suc_le_eq)

theorem asert_is_monotone_witness:
  "asert_target 1000 0 1 3600 \<le> asert_target 1000 0 0 3600"
  using asert_is_monotone [of 1000 3600 0 1 0 0] by (simp add: pow_limit_def)

text \<open>A thread's target only eases with the blocks since its last claim: for canonical state bits and any
  wait, \<open>claim_target_bits\<close> returns canonical bits of the eased target rounded down, a longer wait never gives a
  harder target, and with at most 288 threads a wait of 288 blocks gives one no harder than the state's.\<close>

theorem claim_target_eases:
  assumes "expand_token_target state_bits = Some t" and "threads \<noteq> 0" and "height_delta \<noteq> 0" and "height_delta \<le> height_delta'"
  shows "\<exists>b b' v v'. claim_target_bits state_bits height_delta threads = Some b \<and> expand_token_target b = Some v \<and>
    v = round_target (eased_target t height_delta threads) \<and>
    claim_target_bits state_bits height_delta' threads = Some b' \<and> expand_token_target b' = Some v' \<and> v \<le> v' \<and>
    (unat threads \<le> 288 \<and> 288 \<le> unat height_delta' \<longrightarrow> t \<le> v')"
proof -
  have d: "height_delta' \<noteq> 0" using assms(3,4) by auto
  obtain b b' where b: "claim_target_bits state_bits height_delta threads = Some b"
    "expand_token_target b = Some (round_target (eased_target t height_delta threads))"
    "claim_target_bits state_bits height_delta' threads = Some b'"
    "expand_token_target b' = Some (round_target (eased_target t height_delta' threads))"
    using claim_target_bits_Some [OF assms(1,2)] assms(3) d by meson
  have "t \<le> round_target (eased_target t height_delta' threads)" if "unat threads \<le> 288 \<and> 288 \<le> unat height_delta'"
  proof -
    have "t \<le> eased_target t height_delta' threads"
      using that expand_token_target_bounds [OF assms(1)] assms(2) by (intro eased_target_ge) simp_all
    from round_target_mono [OF this] show ?thesis by (simp add: expand_is_rounded [OF assms(1)])
  qed
  then show ?thesis using b round_target_mono [OF eased_target_mono [OF assms(4), of t threads]] by blast
qed

theorem claim_target_eases_witness:
  "\<exists>b b'. claim_target_bits 0x1d00ffff 1 4 = Some b \<and> claim_target_bits 0x1d00ffff 288 4 = Some b'"
proof -
  have "expand_token_target 0x1d00ffff = Some (0xffff * 256 ^ 26)" by (simp add: expand_token_target_iff Let_def)
  from claim_target_eases [OF this, of 4 1 288] show ?thesis by auto
qed

text \<open>The height a claim's coinbase commits to is read unambiguously: whenever \<open>coinbase_height\<close> reads a height, it is
  positive, below \<open>2^39\<close>, and the pushed bytes are its one minimal script number.\<close>

theorem coinbase_height_is_minimal:
  assumes "coinbase_height head = Some h"
  shows "0 < unat h \<and> unat h < 2 ^ 39 \<and> subrange head 43 (43 + unat (head ! 42)) = script_number (unat h)"
  using coinbase_height_number [OF assms] by simp

definition demo_height_head :: bytes where
  "demo_height_head = [1, 0, 0, 0] @ NULL_INPUT @ [3, 2, 0xc8, 0, 0xff, 0xff, 0xff, 0xff, 1]"

theorem coinbase_height_is_minimal_witness:
  "coinbase_height demo_height_head = Some 200 \<and> subrange demo_height_head 43 45 = script_number 200"
proof -
  have l: "length NULL_INPUT = 37" by (simp add: NULL_INPUT_def)
  have n: "demo_height_head ! 41 = 3" "demo_height_head ! 42 = 2" "length demo_height_head = 50" "subrange demo_height_head 43 45 = [0xc8, 0]"
    "subrange demo_height_head 4 41 = NULL_INPUT" "demo_height_head ! 49 = 1"
    by (simp_all add: demo_height_head_def nth_append l subrange_def)
  have "coinbase_height demo_height_head = Some 200"
    by (simp add: coinbase_height_def check_head_def get_byte_def get_range_def n MAX_SCRIPT_SIG_def Let_def)
  from coinbase_height_is_minimal [OF this] this show ?thesis by (simp add: n)
qed

end
