(* ===== verification/Claim_Tx.thy ===== *)
theory Claim_Tx
  imports Merge_Verify Merge_Split
begin

text \<open>
  The transaction bytes of a tSAFA claim, from \<open>src/stratum_v2/merge/safa_auxpow.rs\<close>: minimal pushes, compact sizes,
  CashTokens prefixes and outputs as the claim builder writes them, and the reader that parses a transaction,
  its outputs and its unlocking pushes back. Every writer is the inverse of its reader; the round trip of a
  counted list is proved once, in the locale \<open>codec\<close>.
\<close>

section \<open>Writing\<close>

text \<open>The length of a minimal data push's opcode and length bytes.\<close>

definition push_prefix_len :: "nat \<Rightarrow> u64" where
  "push_prefix_len n = (if n \<le> 75 then 1 else if n \<le> 255 then 2 else if n \<le> 65535 then 3 else 5)"

definition push :: "bytes \<Rightarrow> bytes" where
  "push data =
     (case data of
        [] \<Rightarrow> [0x00]
      | [v] \<Rightarrow> if 1 \<le> v \<and> v \<le> 16 then [0x50 + v] else if v = 0x81 then [0x4f] else 1 # data
      | _ \<Rightarrow> (if length data \<le> 75 then [word_of_nat (length data)]
              else if length data \<le> 255 then [0x4c, word_of_nat (length data)]
              else if length data \<le> 65535 then 0x4d # to_le_bytes (word_of_nat (length data) :: u16)
              else 0x4e # to_le_bytes (word_of_nat (length data) :: u32)) @ data)"

definition strip_zeros :: "bytes \<Rightarrow> bytes" where
  "strip_zeros bs = rev (dropWhile (\<lambda>b. b = 0) (rev bs))"

definition number_push :: "u64 \<Rightarrow> bytes" where
  "number_push value =
     (if value = 0 then [0x00]
      else if value \<le> 16 then [0x50 + ucast value]
      else let bs = strip_zeros (to_le_bytes value);
               bs = (if bs \<noteq> [] \<and> last bs AND 0x80 \<noteq> 0 then bs @ [0] else bs)
           in push bs)"

definition compact_size :: "u64 \<Rightarrow> bytes" where
  "compact_size value =
     (if value \<le> 0xfc then [ucast value]
      else if value \<le> 0xffff then 0xfd # to_le_bytes (ucast value :: u16)
      else if value \<le> 0xffffffff then 0xfe # to_le_bytes (ucast value :: u32)
      else 0xff # to_le_bytes value)"

definition MUTABLE :: u8 where "MUTABLE = 0x01"

definition token_prefix :: "hash \<Rightarrow> bytes option \<Rightarrow> u64 \<Rightarrow> bytes" where
  "token_prefix category commitment amount =
     (let amount_flag = (if amount > 0 then 0x10 else 0)
      in [0xef] @ category @
         (case commitment of
            Some c \<Rightarrow> [0x40 OR 0x20 OR amount_flag OR MUTABLE] @ compact_size (word_of_nat (length c)) @ c
          | None \<Rightarrow> [amount_flag]) @
         (if amount > 0 then compact_size amount else []))"

definition tx_output :: "u64 \<Rightarrow> bytes \<Rightarrow> bytes" where
  "tx_output value bytecode = to_le_bytes value @ compact_size (word_of_nat (length bytecode)) @ bytecode"

section \<open>Reading\<close>

datatype tx_error = Truncated | NonMinimalSize | TrailingBytes | TokenPrefix | NotPushOnly | NonMinimalPush

definition tx_take :: "nat \<Rightarrow> bytes \<Rightarrow> (tx_error, bytes \<times> bytes) result" where
  "tx_take count bs = (if length bs < count then Inl Truncated else Inr (take count bs, drop count bs))"

definition tx_u32 :: "bytes \<Rightarrow> (tx_error, u32 \<times> bytes) result" where
  "tx_u32 bs = result_bind (tx_take 4 bs) (\<lambda>(x, bs). Inr (from_le_bytes x, bs))"

definition tx_u64 :: "bytes \<Rightarrow> (tx_error, u64 \<times> bytes) result" where
  "tx_u64 bs = result_bind (tx_take 8 bs) (\<lambda>(x, bs). Inr (from_le_bytes x, bs))"

definition tx_compact :: "bytes \<Rightarrow> (tx_error, u64 \<times> bytes) result" where
  "tx_compact bs =
     result_bind (tx_take 1 bs) (\<lambda>(first, bs).
     result_bind
       (if first ! 0 = 0xfd then
          result_bind (tx_take 1 bs) (\<lambda>(a, bs). result_bind (tx_take 1 bs) (\<lambda>(b, bs).
            Inr (ucast (from_le_bytes [a ! 0, b ! 0] :: u16), 0xfd, bs)))
        else if first ! 0 = 0xfe then result_bind (tx_u32 bs) (\<lambda>(v, bs). Inr (ucast v, 0x10000, bs))
        else if first ! 0 = 0xff then result_bind (tx_u64 bs) (\<lambda>(v, bs). Inr (v, 0x100000000, bs))
        else Inr (ucast (first ! 0), 0, bs))
       (\<lambda>(value, minimum, bs). if value < minimum then Inl NonMinimalSize else Inr (value :: u64, bs)))"

record TxOutput =
  tx_value :: u64
  tx_locking :: bytes
  tx_category :: "hash option"
  tx_nft :: "(u8 \<times> bytes) option"
  tx_amount :: u64

record TxInput =
  in_outpoint :: OutPoint
  in_unlocking :: bytes
  in_sequence :: u32

record Tx =
  t_inputs :: "TxInput list"
  t_outputs :: "TxOutput list"
  t_locktime :: u32

definition parse_output :: "u64 \<Rightarrow> bytes \<Rightarrow> (tx_error, TxOutput) result" where
  "parse_output value bytecode =
     (if bytecode = [] \<or> hd bytecode \<noteq> 0xef
      then Inr \<lparr>tx_value = value, tx_locking = bytecode, tx_category = None, tx_nft = None, tx_amount = 0\<rparr>
      else
        result_bind (tx_take 32 (tl bytecode)) (\<lambda>(category, bs).
        result_bind (tx_take 1 bs) (\<lambda>(b, bs).
        let bitfield = b ! 0;
            capability = bitfield AND 0x0f;
            has_commitment = (bitfield AND 0x40 \<noteq> 0);
            has_nft = (bitfield AND 0x20 \<noteq> 0);
            has_amount = (bitfield AND 0x10 \<noteq> 0)
        in if bitfield AND 0x80 \<noteq> 0 \<or> capability > 2 \<or> has_commitment \<and> \<not> has_nft \<or> \<not> has_nft \<and> capability \<noteq> 0
              \<or> \<not> has_nft \<and> \<not> has_amount
           then Inl TokenPrefix
           else
             result_bind
               (if has_commitment then result_bind (tx_compact bs) (\<lambda>(n, bs). if n = 0 then Inl TokenPrefix else tx_take (unat n) bs)
                else Inr ([], bs))
               (\<lambda>(commitment, bs).
             result_bind
               (if has_amount then result_bind (tx_compact bs) (\<lambda>(amount, bs).
                  if amount = 0 \<or> amount > 0x7fffffffffffffff then Inl TokenPrefix else Inr (amount, bs))
                else Inr (0, bs))
               (\<lambda>(amount, bs).
             Inr \<lparr>tx_value = value, tx_locking = bs, tx_category = Some category,
                  tx_nft = (if has_nft then Some (capability, commitment) else None), tx_amount = amount\<rparr>)))))"

definition read_input :: "bytes \<Rightarrow> (tx_error, TxInput \<times> bytes) result" where
  "read_input bs =
     result_bind (tx_take 32 bs) (\<lambda>(txid, bs).
     result_bind (tx_u32 bs) (\<lambda>(vout, bs).
     result_bind (tx_compact bs) (\<lambda>(n, bs).
     result_bind (tx_take (unat n) bs) (\<lambda>(unlocking, bs).
     result_bind (tx_u32 bs) (\<lambda>(sequence, bs).
       Inr (\<lparr>in_outpoint = \<lparr>op_txid = txid, op_vout = vout\<rparr>, in_unlocking = unlocking, in_sequence = sequence\<rparr>, bs))))))"

definition read_output :: "bytes \<Rightarrow> (tx_error, TxOutput \<times> bytes) result" where
  "read_output bs =
     result_bind (tx_u64 bs) (\<lambda>(value, bs).
     result_bind (tx_compact bs) (\<lambda>(n, bs).
     result_bind (tx_take (unat n) bs) (\<lambda>(bytecode, bs).
     result_bind (parse_output value bytecode) (\<lambda>out. Inr (out, bs)))))"

text \<open>\<open>for _ in 0..n\<close> over a reader.\<close>

fun read_many :: "(bytes \<Rightarrow> (tx_error, 'a \<times> bytes) result) \<Rightarrow> nat \<Rightarrow> bytes \<Rightarrow> (tx_error, 'a list \<times> bytes) result" where
  "read_many rd 0 bs = Inr ([], bs)"
| "read_many rd (Suc n) bs =
     result_bind (rd bs) (\<lambda>(x, bs). result_bind (read_many rd n bs) (\<lambda>(xs, bs). Inr (x # xs, bs)))"

definition parse_tx :: "bytes \<Rightarrow> (tx_error, Tx) result" where
  "parse_tx raw =
     result_bind (tx_u32 raw) (\<lambda>(_, bs).
     result_bind (tx_compact bs) (\<lambda>(n, bs).
     result_bind (read_many read_input (unat n) bs) (\<lambda>(inputs, bs).
     result_bind (tx_compact bs) (\<lambda>(m, bs).
     result_bind (read_many read_output (unat m) bs) (\<lambda>(outputs, bs).
     result_bind (tx_u32 bs) (\<lambda>(locktime, bs).
     if bs \<noteq> [] then Inl TrailingBytes
     else Inr \<lparr>t_inputs = inputs, t_outputs = outputs, t_locktime = locktime\<rparr>))))))"

text \<open>One push: its data and the rest of the script.\<close>

definition parse_push :: "bytes \<Rightarrow> (tx_error, bytes \<times> bytes) result" where
  "parse_push script =
     result_bind (tx_take 1 script) (\<lambda>(op, bs).
     result_bind
       (let opcode = op ! 0
        in if opcode = 0x00 then Inr ([], bs)
           else if opcode \<le> 0x4b then tx_take (unat opcode) bs
           else if opcode = 0x4c then result_bind (tx_take 1 bs) (\<lambda>(l, bs). tx_take (unat (l ! 0)) bs)
           else if opcode = 0x4d then
             result_bind (tx_take 1 bs) (\<lambda>(a, bs). result_bind (tx_take 1 bs) (\<lambda>(b, bs).
               tx_take (unat (from_le_bytes [a ! 0, b ! 0] :: u16)) bs))
           else if opcode = 0x4f then Inr ([0x81], bs)
           else if 0x51 \<le> opcode \<and> opcode \<le> 0x60 then Inr ([opcode - 0x50], bs)
           else Inl NotPushOnly)
       (\<lambda>(data, rest). if push data \<noteq> take (length script - length rest) script then Inl NonMinimalPush else Inr (data, rest)))"

lemma tx_take_Inr: "tx_take n bs = Inr (x, rest) \<longleftrightarrow> bs = x @ rest \<and> length x = n"
  by (auto simp: tx_take_def)

lemma parse_push_shorter: "parse_push script = Inr (data, rest) \<Longrightarrow> length rest < length script"
  by (auto simp: parse_push_def result_bind_Inr_iff tx_take_Inr Let_def split: if_splits prod.splits)

function parse_pushes :: "bytes \<Rightarrow> (tx_error, bytes list) result" where
  "parse_pushes script =
     (if script = [] then Inr []
      else result_bind (parse_push script) (\<lambda>(data, rest). result_bind (parse_pushes rest) (\<lambda>pushes. Inr (data # pushes))))"
  by pat_completeness auto
termination
  by (relation "measure length") (auto dest: parse_push_shorter)

declare parse_pushes.simps [simp del]

section \<open>Counted lists\<close>

text \<open>A reader that undoes a writer on the values \<open>ok\<close> admits, reading \<open>view x\<close> of what \<open>x\<close> was written.\<close>

locale codec =
  fixes enc :: "'a \<Rightarrow> bytes" and dec :: "bytes \<Rightarrow> (tx_error, 'b \<times> bytes) result" and view :: "'a \<Rightarrow> 'b" and ok :: "'a \<Rightarrow> bool"
  assumes dec_enc: "ok x \<Longrightarrow> dec (enc x @ rest) = Inr (view x, rest)"
begin

lemma read_many_enc: "list_all ok xs \<Longrightarrow> read_many dec (length xs) (concat (map enc xs) @ rest) = Inr (map view xs, rest)"
  by (induction xs) (simp_all add: dec_enc)

lemma enc_inj: "ok x \<Longrightarrow> ok y \<Longrightarrow> enc x @ r = enc y @ s \<Longrightarrow> view x = view y \<and> r = s"
  using dec_enc [of x r] dec_enc [of y s] by simp

end

lemma tx_take_append: "length x = n \<Longrightarrow> tx_take n (x @ rest) = Inr (x, rest)"
  by (simp add: tx_take_Inr)

lemma tx_take_Cons: "tx_take 1 (b # rest) = Inr ([b], rest)"
  by (simp add: tx_take_def)

interpretation u32: codec to_le_bytes tx_u32 "\<lambda>x. x" "\<lambda>_. True"
  by unfold_locales (simp add: tx_u32_def tx_take_append from_to_le_bytes)

interpretation u64: codec to_le_bytes tx_u64 "\<lambda>x. x" "\<lambda>_. True"
  by unfold_locales (simp add: tx_u64_def tx_take_append from_to_le_bytes)

lemma u16_bytes: "to_le_bytes (w :: u16) = [to_le_bytes w ! 0, to_le_bytes w ! 1]"
  by (rule nth_equalityI) (auto simp: less_2_cases_iff)

lemma tx_two_bytes:
  "result_bind (tx_take 1 (to_le_bytes (w :: u16) @ rest)) (\<lambda>(a, bs). result_bind (tx_take 1 bs) (\<lambda>(b, bs). k (from_le_bytes [a ! 0, b ! 0] :: u16) bs))
   = k w rest"
proof -
  have "from_le_bytes [to_le_bytes w ! 0, to_le_bytes w ! 1] = w"
    using from_to_le_bytes [of w] by (simp only: u16_bytes [symmetric]) simp
  then show ?thesis by (subst u16_bytes) (simp add: tx_take_Cons [unfolded One_nat_def])
qed

lemma tx_compact_size: "tx_compact (compact_size v @ rest) = Inr (v, rest)"
proof -
  have v: "unat v < 2 ^ 64" using unsigned_less [of v, where ?'a = nat] by simp
  consider "v \<le> 0xfc" | "\<not> v \<le> 0xfc" "v \<le> 0xffff" | "\<not> v \<le> 0xffff" "v \<le> 0xffffffff" | "\<not> v \<le> 0xffffffff" by blast
  then show ?thesis
  proof cases
    case 1
    then have u: "unat (ucast v :: u8) = unat v" by (simp add: unat_ucast word_le_nat_alt)
    then have n: "(ucast v :: u8) \<noteq> 0xfd" "(ucast v :: u8) \<noteq> 0xfe" "(ucast v :: u8) \<noteq> 0xff" "ucast (ucast v :: u8) = v"
      using 1 by (auto simp: word_unat_eq_iff word_le_nat_alt unat_ucast_up)
    then show ?thesis using 1 by (simp add: tx_compact_def compact_size_def tx_take_Cons [unfolded One_nat_def])
  next
    case 2
    then have u: "ucast (ucast v :: u16) = v" by (simp add: word_unat_eq_iff word_le_nat_alt unat_ucast_up unat_ucast)
    have "\<not> v < 0xfd" using 2 by (simp add: word_less_nat_alt word_le_nat_alt)
    moreover have "\<not> v \<le> 0xfc" using 2 by (simp add: word_le_nat_alt)
    ultimately show ?thesis using 2 u
      by (simp add: tx_compact_def compact_size_def tx_take_Cons [unfolded One_nat_def])
        (simp add: tx_two_bytes [where k = "\<lambda>x bs. Inr (ucast x, 0xfd, bs)", unfolded One_nat_def])
  next
    case 3
    then have u: "ucast (ucast v :: u32) = v" by (simp add: word_unat_eq_iff word_le_nat_alt unat_ucast_up unat_ucast)
    have n: "\<not> v \<le> 0xfc" "\<not> v < 0x10000" using 3 by (simp_all add: word_less_nat_alt word_le_nat_alt)
    show ?thesis unfolding tx_compact_def compact_size_def using 3 n u
      by (simp add: tx_take_Cons [unfolded One_nat_def] u32.dec_enc)
  next
    case 4
    then have n: "\<not> v \<le> 0xfc" "\<not> v \<le> 0xffff" "\<not> v < 0x100000000" by (simp_all add: word_less_nat_alt word_le_nat_alt)
    show ?thesis unfolding tx_compact_def compact_size_def using 4 n
      by (simp add: tx_take_Cons [unfolded One_nat_def] u64.dec_enc)
  qed
qed

interpretation size: codec compact_size tx_compact "\<lambda>x. x" "\<lambda>_. True"
  by unfold_locales (rule tx_compact_size)

section \<open>Outputs and inputs\<close>

definition token_view :: "u64 \<Rightarrow> hash \<Rightarrow> bytes option \<Rightarrow> u64 \<Rightarrow> bytes \<Rightarrow> TxOutput" where
  "token_view value category commitment amount locking =
     \<lparr>tx_value = value, tx_locking = locking, tx_category = Some category,
      tx_nft = map_option (\<lambda>c. (MUTABLE, c)) commitment, tx_amount = amount\<rparr>"

lemma parse_token_output:
  assumes "length category = 32" and "0 < amount" and "amount \<le> 0x7fffffffffffffff"
    and "\<And>c. commitment = Some c \<Longrightarrow> 0 < length c \<and> length c < 2 ^ 64"
  shows "parse_output value (token_prefix category commitment amount @ locking) = Inr (token_view value category commitment amount locking)"
proof (cases commitment)
  case None
  have a: "\<not> 0x7fffffffffffffff < amount" "amount \<noteq> 0" using assms(2,3) by auto
  show ?thesis using assms(1,2) a None
    by (simp add: parse_output_def token_prefix_def Let_def tx_take_append tx_take_Cons [unfolded One_nat_def] size.dec_enc token_view_def)
next
  case (Some c)
  have a: "\<not> 0x7fffffffffffffff < amount" "amount \<noteq> 0" using assms(2,3) by auto
  have "unat (word_of_nat (length c) :: u64) = length c" using assms(4) [OF Some] by (simp add: unat_of_nat)
  moreover from this have "(word_of_nat (length c) :: u64) \<noteq> 0" using assms(4) [OF Some] by (auto simp: unat_0)
  ultimately show ?thesis using assms(1,2) a Some
    by (simp add: parse_output_def token_prefix_def MUTABLE_def Let_def tx_take_append tx_take_Cons [unfolded One_nat_def] size.dec_enc token_view_def)
qed

text \<open>A claim's outputs as the builder lists them: the vault with its next state, or a share.\<close>

record built_output =
  bo_value :: u64
  bo_commitment :: "bytes option"
  bo_amount :: u64
  bo_locking :: bytes

definition built_bytes :: "hash \<Rightarrow> built_output \<Rightarrow> bytes" where
  "built_bytes category b = tx_output (bo_value b) (token_prefix category (bo_commitment b) (bo_amount b) @ bo_locking b)"

definition built_view :: "hash \<Rightarrow> built_output \<Rightarrow> TxOutput" where
  "built_view category b = token_view (bo_value b) category (bo_commitment b) (bo_amount b) (bo_locking b)"

definition built_ok :: "hash \<Rightarrow> built_output \<Rightarrow> bool" where
  "built_ok category b \<longleftrightarrow> length category = 32 \<and> 0 < bo_amount b \<and> bo_amount b \<le> 0x7fffffffffffffff \<and>
     length (bo_locking b) \<le> 35 \<and> (case bo_commitment b of None \<Rightarrow> True | Some c \<Rightarrow> length c = 16)"

lemma length_compact_size: "length (compact_size v) \<le> 9" "v \<le> 0xfc \<Longrightarrow> length (compact_size v) = 1" "0 < length (compact_size v)"
  by (auto simp: compact_size_def)

lemma length_token_prefix:
  "length (token_prefix category None amount) \<le> length category + 11"
  "length c \<le> 252 \<Longrightarrow> length (token_prefix category (Some c) amount) \<le> length category + length c + 12"
proof -
  note n = length_compact_size(1) [of amount]
  show "length (token_prefix category None amount) \<le> length category + 11"
    using n by (simp add: token_prefix_def Let_def)
  assume "length c \<le> 252"
  then have "length (compact_size (word_of_nat (length c))) = 1"
    by (intro length_compact_size) (simp add: word_le_nat_alt unat_of_nat)
  then show "length (token_prefix category (Some c) amount) \<le> length category + length c + 12"
    using n by (simp add: token_prefix_def Let_def)
qed

lemma read_built:
  assumes "built_ok category b"
  shows "read_output (built_bytes category b @ rest) = Inr (built_view category b, rest)"
proof -
  define bc where "bc = token_prefix category (bo_commitment b) (bo_amount b) @ bo_locking b"
  have "length bc \<le> 95"
  proof (cases "bo_commitment b")
    case None
    then show ?thesis using assms length_token_prefix(1) [of category "bo_amount b"] by (simp add: bc_def built_ok_def)
  next
    case (Some c)
    then show ?thesis using assms length_token_prefix(2) [of c category "bo_amount b"] by (simp add: bc_def built_ok_def)
  qed
  then have l: "unat (word_of_nat (length bc) :: u64) = length bc" by (simp add: unat_of_nat)
  have "parse_output (bo_value b) bc = Inr (built_view category b)" unfolding bc_def built_view_def
    using assms by (intro parse_token_output) (auto simp: built_ok_def)
  then show ?thesis
    by (simp add: read_output_def built_bytes_def tx_output_def u64.dec_enc size.dec_enc l tx_take_append flip: bc_def)
qed

interpretation built: codec "built_bytes category" read_output "built_view category" "built_ok category" for category
  by unfold_locales (rule read_built)

definition input_bytes :: "TxInput \<Rightarrow> bytes" where
  "input_bytes i = op_txid (in_outpoint i) @ to_le_bytes (op_vout (in_outpoint i)) @
     compact_size (word_of_nat (length (in_unlocking i))) @ in_unlocking i @ to_le_bytes (in_sequence i)"

definition input_ok :: "TxInput \<Rightarrow> bool" where
  "input_ok i \<longleftrightarrow> length (op_txid (in_outpoint i)) = 32 \<and> length (in_unlocking i) < 2 ^ 64"

lemma read_input_bytes: "input_ok i \<Longrightarrow> read_input (input_bytes i @ rest) = Inr (i, rest)"
  by (simp add: read_input_def input_bytes_def input_ok_def tx_take_append u32.dec_enc size.dec_enc unat_of_nat)

interpretation input: codec input_bytes read_input "\<lambda>i. i" input_ok
  by unfold_locales (rule read_input_bytes)

text \<open>The whole transaction.\<close>

definition tx_bytes :: "u32 \<Rightarrow> hash \<Rightarrow> TxInput list \<Rightarrow> built_output list \<Rightarrow> u32 \<Rightarrow> bytes" where
  "tx_bytes version category inputs outputs locktime =
     to_le_bytes version @ compact_size (word_of_nat (length inputs)) @ concat (map input_bytes inputs) @
     compact_size (word_of_nat (length outputs)) @ concat (map (built_bytes category) outputs) @ to_le_bytes locktime"

lemma parse_tx_bytes:
  assumes "list_all input_ok inputs" and "list_all (built_ok category) outputs" and "length inputs < 2 ^ 64" and "length outputs < 2 ^ 64"
  shows "parse_tx (tx_bytes version category inputs outputs locktime) =
    Inr \<lparr>t_inputs = inputs, t_outputs = map (built_view category) outputs, t_locktime = locktime\<rparr>"
  using assms input.read_many_enc [OF assms(1)] built.read_many_enc [OF assms(2)] u32.dec_enc [of locktime "[]"]
  by (simp add: parse_tx_def tx_bytes_def u32.dec_enc size.dec_enc unat_of_nat)

section \<open>Pushes\<close>

lemma push_cases:
  assumes "length data \<le> 65535"
  obtains (empty) "data = []" "push data = [0x00]"
  | (small) v where "data = [v]" "1 \<le> v" "v \<le> 16" "push data = [0x50 + v]"
  | (negative) "data = [0x81]" "push data = [0x4f]"
  | (direct) "0 < length data" "length data \<le> 75" "push data = word_of_nat (length data) # data"
  | (one) "75 < length data" "length data \<le> 255" "push data = [0x4c, word_of_nat (length data)] @ data"
  | (two) "255 < length data" "push data = 0x4d # to_le_bytes (word_of_nat (length data) :: u16) @ data"
proof (cases data)
  case Nil
  then show ?thesis using empty by (simp add: push_def)
next
  case (Cons v vs)
  show ?thesis
  proof (cases vs)
    case Nil
    consider "1 \<le> v" "v \<le> 16" | "\<not> (1 \<le> v \<and> v \<le> 16)" "v = 0x81" | "\<not> (1 \<le> v \<and> v \<le> 16)" "v \<noteq> 0x81" by blast
    then show ?thesis
      by cases (use Cons Nil small negative direct in \<open>simp_all add: push_def\<close>)
  next
    case (Cons w ws)
    note data = \<open>data = v # vs\<close> Cons
    consider "length data \<le> 75" | "75 < length data" "length data \<le> 255" | "255 < length data" by linarith
    then show ?thesis
      by cases (use data assms direct one two in \<open>simp_all add: push_def\<close>)
  qed
qed

lemma parse_push_push:
  assumes "length data \<le> 65535"
  shows "parse_push (push data @ rest) = Inr (data, rest)"
proof -
  define opcode where "opcode = push data ! 0"
  have take: "take (length (push data @ rest) - length rest) (push data @ rest) = push data" by simp
  note T = tx_take_Cons [unfolded One_nat_def] tx_take_append
  show ?thesis
    using assms
  proof (cases rule: push_cases)
    case empty
    then show ?thesis by (simp add: parse_push_def T Let_def)
  next
    case (small v)
    define w where "w = 0x50 + v"
    have v: "1 \<le> unat v" "unat v \<le> 16" using small by (simp_all add: word_le_nat_alt)
    then have u: "unat w = 80 + unat v" by (simp add: w_def unat_word_ariths)
    have o: "w \<noteq> 0" "\<not> w \<le> 0x4b" "w \<noteq> 0x4c" "w \<noteq> 0x4d" "w \<noteq> 0x4f" "0x51 \<le> w" "w \<le> 0x60"
      using v by (simp_all add: word_le_nat_alt word_unat_eq_iff u)
    have "w - 0x50 = v" by (simp add: w_def)
    then show ?thesis unfolding small(4) w_def [symmetric] parse_push_def using o small
      by (simp add: T Let_def) (simp add: w_def small(4))
  next
    case negative
    then show ?thesis unfolding negative(2) using negative(1) by (simp add: parse_push_def T Let_def word_le_nat_alt) (simp add: push_def word_le_nat_alt)
  next
    case direct
    have u: "unat (word_of_nat (length data) :: u8) = length data" using direct by (simp add: unat_of_nat)
    have o: "(word_of_nat (length data) :: u8) \<noteq> 0" "(word_of_nat (length data) :: u8) \<le> 0x4b"
      using direct u by (auto simp: word_le_nat_alt dest: arg_cong [of _ _ unat])
    show ?thesis unfolding direct(3) parse_push_def using o u by (simp add: T Let_def) (simp add: direct(3))
  next
    case one
    have u: "unat (word_of_nat (length data) :: u8) = length data" using one by (simp add: unat_of_nat)
    show ?thesis unfolding one(3) parse_push_def using u by (simp add: T Let_def word_le_nat_alt) (simp add: one(3))
  next
    case two
    have u: "unat (word_of_nat (length data) :: u16) = length data" using assms by (simp add: unat_of_nat)
    show ?thesis unfolding two(2) parse_push_def append_Cons append_assoc
      using tx_two_bytes [of "word_of_nat (length data)" "data @ rest" "\<lambda>x bs. tx_take (unat x) bs", unfolded One_nat_def] u
      by (simp add: T Let_def word_le_nat_alt) (simp add: two(2) take_Cons')
  qed
qed

lemma push_nonempty: "push data \<noteq> []"
  by (auto simp: push_def split: list.splits)

lemma parse_pushes_concat: "list_all (\<lambda>d. length d \<le> 65535) ds \<Longrightarrow> parse_pushes (concat (map push ds)) = Inr ds"
  by (induction ds) (simp_all add: parse_pushes.simps push_nonempty parse_push_push)

lemma length_push: "length data \<le> 65535 \<Longrightarrow> length (push data) \<le> length data + unat (push_prefix_len (length data))"
  by (cases data rule: push_cases) (simp_all add: push_prefix_len_def)

section \<open>Properties\<close>

text \<open>C39. The claim's reader undoes its writer: a transaction written from any inputs and token outputs (version,
  counts, outpoints, unlocking scripts, sequences, CashTokens prefixes with an optional mutable NFT, values and
  lock time) parses back to exactly those inputs and outputs, and the pushes of an unlocking script parse back to
  the pushed data.\<close>

theorem claim_bytes_round_trip:
  assumes "list_all input_ok inputs" and "list_all (built_ok category) outputs"
    and "length inputs < 2 ^ 64" and "length outputs < 2 ^ 64" and "list_all (\<lambda>d. length d \<le> 65535) ds"
  shows "parse_tx (tx_bytes version category inputs outputs locktime) =
      Inr \<lparr>t_inputs = inputs, t_outputs = map (built_view category) outputs, t_locktime = locktime\<rparr> \<and>
    parse_pushes (concat (map push ds)) = Inr ds"
  using parse_tx_bytes [OF assms(1-4)] parse_pushes_concat [OF assms(5)] by simp

theorem claim_bytes_round_trip_witness:
  "parse_tx (tx_bytes 2 (replicate 32 9) [\<lparr>in_outpoint = \<lparr>op_txid = replicate 32 1, op_vout = 0\<rparr>, in_unlocking = [0x51], in_sequence = 5\<rparr>]
      [\<lparr>bo_value = 800, bo_commitment = None, bo_amount = 300, bo_locking = [0x6a]\<rparr>] 7) =
    Inr \<lparr>t_inputs = [\<lparr>in_outpoint = \<lparr>op_txid = replicate 32 1, op_vout = 0\<rparr>, in_unlocking = [0x51], in_sequence = 5\<rparr>],
         t_outputs = [built_view (replicate 32 9) \<lparr>bo_value = 800, bo_commitment = None, bo_amount = 300, bo_locking = [0x6a]\<rparr>],
         t_locktime = 7\<rparr>"
  using claim_bytes_round_trip [of "[\<lparr>in_outpoint = \<lparr>op_txid = replicate 32 1, op_vout = 0\<rparr>, in_unlocking = [0x51], in_sequence = 5\<rparr>]"
      "replicate 32 9" "[\<lparr>bo_value = 800, bo_commitment = None, bo_amount = 300, bo_locking = [0x6a]\<rparr>]" "[]" 2 7]
  by (simp add: input_ok_def built_ok_def)

end
