(* ===== verification/Merge_Set.thy ===== *)
theory Merge_Set
  imports Merge_Verify Payout "HOL-Library.Multiset"
begin

text \<open>
  \<open>src/stratum_v2/merge/set.rs\<close>, the registry rows of \<open>registry.rs\<close>, \<open>thread_start\<close> of \<open>safa_auxpow.rs\<close> and
  \<open>assemble\<close> of \<open>proof.rs\<close>: which tokens a server merge-mines, the layout they share, one job's leaves, tree
  and commitment, the entries a share wins and the proof of a win. The digest and the hex package are
  arguments.
\<close>

section \<open>Registry rows\<close>

definition MAX_TOKENS :: nat where
  "MAX_TOKENS = MAX_LEAVES"

record CovenantDeployment =
  cd_redeem_script_hex :: string
  cd_covenant_lock_hex :: string
  cd_script_hash_hex :: string

datatype token_error =
  BadRedeem | BadLock | NotP2SH32 | RedeemMismatch | ScriptHashMismatch | NoName | NoCategory | TooTall

definition deployment_verify ::
  "(bytes \<Rightarrow> bytes) \<Rightarrow> (string \<Rightarrow> bytes option) \<Rightarrow> (bytes \<Rightarrow> string) \<Rightarrow> CovenantDeployment \<Rightarrow> (token_error, unit) result" where
  "deployment_verify sha hex_decode hex_encode d =
     result_bind (ok_or BadRedeem (hex_decode (trim (cd_redeem_script_hex d)))) (\<lambda>redeem.
     result_bind (ok_or BadLock (hex_decode (cd_covenant_lock_hex d))) (\<lambda>lock.
     if length lock \<noteq> 35 \<or> lock ! 0 \<noteq> 0xaa \<or> lock ! 1 \<noteq> 0x20 \<or> lock ! 34 \<noteq> 0x87 then Inl NotP2SH32
     else if subrange lock 2 34 \<noteq> double_sha256 sha redeem then Inl RedeemMismatch
     else if hex_encode (rev (sha lock)) \<noteq> cd_script_hash_hex d then Inl ScriptHashMismatch
     else Inr ()))"

record MergeToken =
  mt_name :: string
  mt_network :: MiningNetwork
  mt_category :: hash
  mt_deployment :: "CovenantDeployment option"
  mt_verifier_sha256 :: "hash option"
  mt_max_aux_height :: u8
  mt_priority :: u8
  mt_split :: bool

definition is_control :: "char \<Rightarrow> bool" where
  "is_control c \<longleftrightarrow> (of_char c :: nat) < 32 \<or> 127 \<le> (of_char c :: nat) \<and> (of_char c :: nat) < 160"

definition token_verify ::
  "(bytes \<Rightarrow> bytes) \<Rightarrow> (string \<Rightarrow> bytes option) \<Rightarrow> (bytes \<Rightarrow> string) \<Rightarrow> MergeToken \<Rightarrow> (token_error, unit) result" where
  "token_verify sha hex_decode hex_encode t =
     (if trim (mt_name t) = [] \<or> list_ex is_control (mt_name t) then Inl NoName
      else if mt_category t = replicate 32 0 then Inl NoCategory
      else if mt_max_aux_height t > MAX_HEIGHT then Inl TooTall
      else case mt_deployment t of
             None \<Rightarrow> Inr ()
           | Some d \<Rightarrow> deployment_verify sha hex_decode hex_encode d)"

section \<open>Token states and threads\<close>

record TokenState =
  st_lock_hash :: hash
  st_state_hash :: hash
  st_target_bits :: u32
  st_target :: hash

datatype set_error =
  InvalidTarget | NoToken | TooManyTokens | BadToken token_error | OtherNetwork | ListedTwice | NoLayout

definition state_new :: "hash \<Rightarrow> hash \<Rightarrow> u32 \<Rightarrow> (set_error, TokenState) result" where
  "state_new lock state target_bits =
     result_bind (ok_or InvalidTarget (expand_compact target_bits)) (\<lambda>target.
       Inr \<lparr>st_lock_hash = lock, st_state_hash = state, st_target_bits = target_bits, st_target = target\<rparr>)"

record SetEntry =
  se_token :: MergeToken
  se_state :: TokenState

definition thread_start :: "(bytes \<Rightarrow> bytes) \<Rightarrow> hash \<Rightarrow> u32 \<Rightarrow> u32 \<Rightarrow> u32" where
  "thread_start sha payout_hash height threads =
     (let seed = payout_hash @ to_le_bytes height;
          digest = double_sha256 sha seed
      in from_le_bytes [digest ! 0, digest ! 1, digest ! 2, digest ! 3] mod max threads 1)"

record ThreadChoice =
  tc_height :: u32
  tc_count :: u32
  tc_states :: "(u32 \<times> TokenState) list"

text \<open>\<open>Iterator::min_by_key\<close>: the first of the least elements.\<close>

fun min_by_key :: "('a \<Rightarrow> nat) \<Rightarrow> 'a list \<Rightarrow> 'a option" where
  "min_by_key f [] = None"
| "min_by_key f (x # xs) =
     (case min_by_key f xs of None \<Rightarrow> Some x | Some y \<Rightarrow> if f x \<le> f y then Some x else Some y)"

definition pick :: "(bytes \<Rightarrow> bytes) \<Rightarrow> ThreadChoice \<Rightarrow> hash \<Rightarrow> (u32 \<times> TokenState) option" where
  "pick sha choice payout_hash =
     (if tc_count choice = 0 then None
      else let start = thread_start sha payout_hash (tc_height choice) (tc_count choice)
           in min_by_key
                (\<lambda>(thread, _). unat (((ucast thread :: u64) + ucast (tc_count choice) - ucast start) mod ucast (tc_count choice)))
                (filter (\<lambda>(thread, _). thread < tc_count choice) (tc_states choice)))"

section \<open>The token set\<close>

record TokenSet =
  ts_entries :: "SetEntry list"
  ts_layout :: Layout
  ts_easiest :: hash
  ts_serial :: u64
  ts_dropped :: "SetEntry list"
  ts_threads :: "(hash \<times> ThreadChoice) list"

definition easier :: "hash \<Rightarrow> hash \<Rightarrow> bool" where
  "easier a b \<longleftrightarrow> \<not> cmp_le (rev a) (rev b)"

text \<open>The checks of every entry, in order; \<open>earlier\<close> holds the entries before it.\<close>

fun check_entries ::
  "(MergeToken \<Rightarrow> (token_error, unit) result) \<Rightarrow> MiningNetwork \<Rightarrow> SetEntry list \<Rightarrow> SetEntry list \<Rightarrow> (set_error, unit) result" where
  "check_entries verify_token network earlier [] = Inr ()"
| "check_entries verify_token network earlier (entry # rest) =
     (let token = se_token entry
      in case verify_token token of
           Inl e \<Rightarrow> Inl (BadToken e)
         | Inr _ \<Rightarrow>
             if mt_network token \<noteq> network then Inl OtherNetwork
             else if list_ex (\<lambda>other. mt_category (se_token other) = mt_category token) earlier then Inl ListedTwice
             else check_entries verify_token network (earlier @ [entry]) rest)"

definition search_entries :: "(bytes \<Rightarrow> bytes) \<Rightarrow> SetEntry list \<Rightarrow> Layout option" where
  "search_entries sha kept =
     (let categories = map (\<lambda>e. mt_category (se_token e)) kept;
          heights = map (\<lambda>e. mt_max_aux_height (se_token e)) kept;
          max_height = (if heights = [] then MAX_HEIGHT else fold min (tl heights) (hd heights))
      in case search sha categories max_height of Inl _ \<Rightarrow> None | Inr layout \<Rightarrow> Some layout)"

definition kept_of :: "SetEntry list \<Rightarrow> bool list \<Rightarrow> SetEntry list" where
  "kept_of entries keep = map fst (filter snd (zip entries keep))"

definition dropped_of :: "SetEntry list \<Rightarrow> bool list \<Rightarrow> SetEntry list" where
  "dropped_of entries keep = map fst (filter (\<lambda>ek. \<not> snd ek) (zip entries keep))"

text \<open>Joining the entries one by one, highest priority first.\<close>

definition join_order :: "SetEntry list \<Rightarrow> nat list" where
  "join_order entries = sort_key (\<lambda>i. 255 - unat (mt_priority (se_token (entries ! i)))) [0..<length entries]"

fun join_entries :: "(bytes \<Rightarrow> bytes) \<Rightarrow> SetEntry list \<Rightarrow> nat list \<Rightarrow> bool list \<Rightarrow> Layout option \<Rightarrow> bool list \<times> Layout option" where
  "join_entries sha entries [] keep layout = (keep, layout)"
| "join_entries sha entries (index # rest) keep layout =
     (let joined = keep[index := True]
      in case search_entries sha (kept_of entries joined) of
           Some found \<Rightarrow> join_entries sha entries rest joined (Some found)
         | None \<Rightarrow> join_entries sha entries rest keep layout)"

fun easiest_target :: "hash \<Rightarrow> hash list \<Rightarrow> hash" where
  "easiest_target best [] = best"
| "easiest_target best (target # rest) = easiest_target (if easier target best then target else best) rest"

definition set_new ::
  "(bytes \<Rightarrow> bytes) \<Rightarrow> (string \<Rightarrow> bytes option) \<Rightarrow> (bytes \<Rightarrow> string) \<Rightarrow> MiningNetwork \<Rightarrow> SetEntry list \<Rightarrow> u64
   \<Rightarrow> (set_error, TokenSet) result" where
  "set_new sha hex_decode hex_encode network entries serial =
     (if entries = [] then Inl NoToken
      else if length entries > MAX_TOKENS then Inl TooManyTokens
      else result_bind (check_entries (token_verify sha hex_decode hex_encode) network [] entries) (\<lambda>_.
        result_bind
          (case search_entries sha entries of
             Some layout \<Rightarrow> Inr (entries, layout, [])
           | None \<Rightarrow>
               let (keep, layout) = join_entries sha entries (join_order entries) (replicate (length entries) False) None
               in result_bind (ok_or NoLayout layout) (\<lambda>layout.
                    Inr (kept_of entries keep, layout, dropped_of entries keep)))
          (\<lambda>(kept, layout, dropped).
            case map (\<lambda>e. st_target (se_state e)) kept of
              [] \<Rightarrow> Inl NoToken
            | first # rest \<Rightarrow>
                Inr \<lparr>ts_entries = kept, ts_layout = layout, ts_easiest = easiest_target first rest, ts_serial = serial,
                     ts_dropped = dropped, ts_threads = []\<rparr>)))"

definition with_threads :: "TokenSet \<Rightarrow> hash \<Rightarrow> ThreadChoice \<Rightarrow> TokenSet" where
  "with_threads ts category choice =
     ts\<lparr>ts_easiest := easiest_target (ts_easiest ts) (map (\<lambda>(_, state). st_target state) (tc_states choice)),
         ts_threads := filter (\<lambda>(known, _). known \<noteq> category) (ts_threads ts) @ [(category, choice)]\<rparr>"

definition set_threads :: "TokenSet \<Rightarrow> hash \<Rightarrow> ThreadChoice option" where
  "set_threads ts category = map_option snd (find (\<lambda>(known, _). known = category) (ts_threads ts))"

section \<open>Jobs\<close>

record AuxEntry =
  ae_token :: MergeToken
  ae_slot :: u32
  ae_leaf :: Leaf
  ae_split :: Split
  ae_target :: hash

record AuxJob =
  aj_commitment :: AuxCommitment
  aj_entries :: "AuxEntry list"
  aj_tree :: "bytes list list"
  aj_output :: bytes
  aj_easiest :: "hash option"
  aj_serial :: u64

definition plain_terms :: "bytes \<Rightarrow> LeafTerms" where
  "plain_terms payout = \<lparr>lt_payout = payout, lt_split = NO_SPLIT, lt_plain_payout = payout\<rparr>"

definition job_entry :: "(bytes \<Rightarrow> bytes) \<Rightarrow> TokenSet \<Rightarrow> LeafTerms \<Rightarrow> SetEntry \<times> u32 \<Rightarrow> AuxEntry" where
  "job_entry sha ts terms es =
     (let (entry, slot) = es;
          token = se_token entry;
          (payout, split) = (if mt_split token then (lt_payout terms, lt_split terms) else (lt_plain_payout terms, NO_SPLIT));
          state = (case Option.bind (set_threads ts (mt_category token)) (\<lambda>choice. pick sha choice (double_sha256 sha payout)) of
                     Some (_, state) \<Rightarrow> state
                   | None \<Rightarrow> se_state entry)
      in \<lparr>ae_token = token, ae_slot = slot,
          ae_leaf = leaf_new sha (mt_category token) (st_lock_hash state) (st_state_hash state) payout
            (st_target_bits state) (split_ext sha split),
          ae_split = split, ae_target = st_target state\<rparr>)"

definition job_build :: "(bytes \<Rightarrow> bytes) \<Rightarrow> TokenSet \<Rightarrow> LeafTerms \<Rightarrow> AuxJob" where
  "job_build sha ts terms =
     (let entries = map (job_entry sha ts terms) (zip (ts_entries ts) (l_slots (ts_layout ts)));
          leaves = map (\<lambda>e. leaf_hash sha (ae_leaf e)) entries;
          tree = build sha (ts_layout ts) leaves;
          commitment = \<lparr>ac_root = root tree, ac_height = l_height (ts_layout ts), ac_salt = l_salt (ts_layout ts)\<rparr>;
          easiest = (case map ae_target entries of [] \<Rightarrow> ts_easiest ts | first # rest \<Rightarrow> easiest_target first rest)
      in \<lparr>aj_commitment = commitment, aj_entries = entries, aj_tree = tree, aj_output = commitment_output commitment,
          aj_easiest = Some easiest, aj_serial = ts_serial ts\<rparr>)"

definition job_empty :: "(bytes \<Rightarrow> bytes) \<Rightarrow> AuxJob" where
  "job_empty sha =
     \<lparr>aj_commitment = EMPTY_COMMITMENT, aj_entries = [],
      aj_tree = build sha \<lparr>l_height = 0, l_salt = 0, l_slots = []\<rparr> [],
      aj_output = commitment_output EMPTY_COMMITMENT, aj_easiest = None, aj_serial = 0\<rparr>"

definition job_is_empty :: "AuxJob \<Rightarrow> bool" where
  "job_is_empty job \<longleftrightarrow> aj_entries job = []"

definition job_branch :: "AuxJob \<Rightarrow> nat \<Rightarrow> hash list option" where
  "job_branch job index =
     (if index < length (aj_entries job) then Some (branch (aj_tree job) (ae_slot (aj_entries job ! index))) else None)"

definition wins :: "AuxJob \<Rightarrow> hash \<Rightarrow> u16 list" where
  "wins job h =
     map (\<lambda>(index, _). word_of_nat index)
       (filter (\<lambda>(index, entry). meets_target h (ae_target entry) \<and> index < 2 ^ 16) (enumerate 0 (aj_entries job)))"

definition assemble :: "AuxJob \<Rightarrow> u16 \<Rightarrow> bytes \<Rightarrow> hash list \<Rightarrow> bytes \<Rightarrow> (ProofError, AuxProof) result" where
  "assemble job entry coinbase branch_hashes header =
     (if unat entry \<ge> length (aj_entries job) then Inl NotInJob
      else let item = aj_entries job ! unat entry
           in result_bind (ok_or CoinbaseHead (get_byte coinbase 41)) (\<lambda>l.
                let head = 47 + unat l
                in if get_range coinbase head (head + OUTPUT_LEN) \<noteq> Some (aj_output job) then Inl NotInJob
                   else let p = \<lparr>ap_header = header, ap_height = ac_height (aj_commitment job),
                              ap_salt = ac_salt (aj_commitment job), ap_aux_branch = branch (aj_tree job) (ae_slot item),
                              ap_cb_head = take head coinbase, ap_cb_tail = drop (head + OUTPUT_LEN) coinbase,
                              ap_cb_branch = branch_hashes\<rparr>
                        in result_bind (check_shape p) (\<lambda>_. Inr p)))"

section \<open>Targets\<close>

lemma easier_iff: "length a = length b \<Longrightarrow> easier a b \<longleftrightarrow> le_nat b < le_nat a"
  by (simp add: easier_def cmp_le_be not_le)

definition state_wf :: "TokenState \<Rightarrow> bool" where
  "state_wf s \<longleftrightarrow> expand_compact (st_target_bits s) = Some (st_target s)"

lemma state_new_wf: "state_new lock state target_bits = Inr s \<Longrightarrow> state_wf s"
  by (auto simp: state_new_def result_bind_Inr_iff ok_or_Inr_iff state_wf_def)

lemma state_wf_length: "state_wf s \<Longrightarrow> length (st_target s) = 32"
  by (simp add: state_wf_def expand_compact_value)

lemma easiest_target_max:
  assumes "\<forall>t\<in>set (best # targets). length t = 32"
  shows "easiest_target best targets \<in> set (best # targets) \<and> (\<forall>t\<in>set (best # targets). le_nat t \<le> le_nat (easiest_target best targets))"
  using assms
proof (induction best targets rule: easiest_target.induct)
  case (2 best target rest)
  define b where "b = (if easier target best then target else best)"
  have b: "b \<in> {best, target}" "le_nat best \<le> le_nat b" "le_nat target \<le> le_nat b"
    using 2(2) by (auto simp: b_def easier_iff)
  have l: "\<forall>t\<in>set (b # rest). length t = 32" using 2(2) b(1) by auto
  have IH: "easiest_target b rest \<in> set (b # rest) \<and> (\<forall>t\<in>set (b # rest). le_nat t \<le> le_nat (easiest_target b rest))"
    using 2(1) l by (simp add: b_def)
  have "easiest_target best (target # rest) = easiest_target b rest" by (simp add: b_def)
  moreover have "le_nat b \<le> le_nat (easiest_target b rest)" using IH by simp
  ultimately show ?case using IH b by auto
qed simp

section \<open>Building a set\<close>

lemma check_entries_Inr:
  "check_entries verify_token network earlier entries = Inr () \<longleftrightarrow>
     (\<forall>e\<in>set entries. verify_token (se_token e) = Inr () \<and> mt_network (se_token e) = network) \<and>
     distinct (map (\<lambda>e. mt_category (se_token e)) entries) \<and>
     (\<forall>e\<in>set entries. \<forall>o'\<in>set earlier. mt_category (se_token o') \<noteq> mt_category (se_token e))"
proof (induction verify_token network earlier entries rule: check_entries.induct)
  case (2 verify_token network earlier entry rest)
  show ?case
  proof (cases "verify_token (se_token entry) = Inr () \<and> mt_network (se_token entry) = network \<and>
      \<not> list_ex (\<lambda>other. mt_category (se_token other) = mt_category (se_token entry)) earlier")
    case True
    then have "check_entries verify_token network earlier (entry # rest) = check_entries verify_token network (earlier @ [entry]) rest"
      by (simp add: Let_def)
    then show ?thesis using 2 [of "se_token entry" "()"] True by (auto simp: list_ex_iff)
  next
    case False
    then show ?thesis by (cases "verify_token (se_token entry)") (auto simp: list_ex_iff Let_def)
  qed
qed simp

lemma fold_min_le: "fold min xs (x :: u8) \<le> x \<and> (\<forall>y\<in>set xs. fold min xs x \<le> y)"
proof (induction xs arbitrary: x)
  case (Cons y xs)
  show ?case using Cons [of "min y x"] by (auto intro: order_trans)
qed simp

lemma search_entries_Some:
  assumes "search_entries sha kept = Some layout"
  obtains max_height where "search sha (map (\<lambda>e. mt_category (se_token e)) kept) max_height = Inr layout"
    and "\<forall>e\<in>set kept. max_height \<le> mt_max_aux_height (se_token e)"
proof -
  define heights where "heights = map (\<lambda>e. mt_max_aux_height (se_token e)) kept"
  define m where "m = (if heights = [] then MAX_HEIGHT else fold min (tl heights) (hd heights))"
  have "search sha (map (\<lambda>e. mt_category (se_token e)) kept) m = Inr layout"
    using assms by (auto simp: search_entries_def Let_def m_def heights_def split: sum.splits)
  moreover have "m \<le> h" if "h \<in> set heights" for h
    using that fold_min_le [of "tl heights" "hd heights"] by (cases heights) (auto simp: m_def)
  then have "\<forall>e\<in>set kept. m \<le> mt_max_aux_height (se_token e)" by (auto simp: heights_def)
  ultimately show ?thesis by (rule that)
qed

text \<open>One entry alone always fits.\<close>

lemma search_one: "search sha [category] max_height \<noteq> Inl e"
proof -
  have "min_height 1 = 0" by (simp add: min_height_def ceil_log2.simps)
  then have h: "[min_height 1..<Suc n] = 0 # [1..<Suc n]" for n by (simp add: upt_conv_Cons del: upt_Suc)
  have "0 < SALTS" by (simp add: SALTS_def)
  then have "[0..<SALTS] = 0 # [1..<SALTS]" by (simp add: upt_conv_Cons)
  then obtain rest where c: "candidates 1 max_height = (0, 0) # rest" unfolding candidates_def h by simp
  have "distinct (l_slots (layout_at sha [category] (0, 0)))" by (simp add: layout_at_def place_all_def)
  then show ?thesis using c by (simp add: search_spec MAX_LEAVES_def ok_or_def)
qed

lemma search_entries_one: "\<exists>layout. search_entries sha [entry] = Some layout"
  using search_one by (fastforce simp: search_entries_def Let_def split: sum.splits)

lemma kept_dropped:
  "length keep = length entries \<Longrightarrow> mset (kept_of entries keep) + mset (dropped_of entries keep) = mset entries"
proof -
  assume l: "length keep = length entries"
  have "mset (map fst (filter snd z)) + mset (map fst (filter (\<lambda>ek. \<not> snd ek) z)) = mset (map fst z)" for z :: "(SetEntry \<times> bool) list"
    by (induction z) auto
  from this [of "zip entries keep"] l show ?thesis by (simp add: kept_of_def dropped_of_def)
qed

lemma kept_first: "i < length entries \<Longrightarrow> kept_of entries ((replicate (length entries) False)[i := True]) = [entries ! i]"
proof (induction entries arbitrary: i)
  case (Cons e entries)
  have n: "kept_of es (replicate (length es) False) = []" for es by (induction es) (simp_all add: kept_of_def)
  show ?case
  proof (cases i)
    case 0 then show ?thesis using n [of entries] by (simp add: kept_of_def)
  next
    case (Suc j) then show ?thesis using Cons.IH [of j] Cons.prems by (simp add: kept_of_def)
  qed
qed simp

lemma join_entries_spec:
  assumes "length keep = length entries" and "case layout of Some l \<Rightarrow> search_entries sha (kept_of entries keep) = Some l | None \<Rightarrow> True"
    and "join_entries sha entries order keep layout = (keep', layout')"
  shows "length keep' = length entries \<and> (layout \<noteq> None \<longrightarrow> layout' \<noteq> None) \<and> (\<forall>i<length entries. keep ! i \<longrightarrow> keep' ! i) \<and>
    (case layout' of Some l \<Rightarrow> search_entries sha (kept_of entries keep') = Some l | None \<Rightarrow> True)"
  using assms
proof (induction sha entries order keep layout rule: join_entries.induct)
  case (2 sha entries index rest keep layout)
  show ?case
  proof (cases "search_entries sha (kept_of entries (keep[index := True]))")
    case None
    then show ?thesis using 2(1) [OF refl None] 2(3-5) by (simp add: Let_def)
  next
    case (Some found)
    have up: "keep[index := True] ! i" if "keep ! i" "i < length entries" for i
      using that 2(3) by (cases "i = index") simp_all
    have "join_entries sha entries rest (keep[index := True]) (Some found) = (keep', layout')"
      using 2(5) Some by (simp add: Let_def)
    with 2(2) [OF refl Some] 2(3) Some up show ?thesis by simp
  qed
qed auto

lemma kept_of_mem: "length keep = length entries \<Longrightarrow> i < length entries \<Longrightarrow> keep ! i \<Longrightarrow> entries ! i \<in> set (kept_of entries keep)"
  by (force simp: kept_of_def set_zip)

text \<open>Whatever else is left out, the entry of the highest priority joins.\<close>

lemma join_all:
  assumes "entries \<noteq> []"
    and "join_entries sha entries (join_order entries) (replicate (length entries) False) None = (keep, layout)"
  shows "length keep = length entries \<and> entries ! hd (join_order entries) \<in> set (kept_of entries keep) \<and>
    (\<exists>l. layout = Some l \<and> search_entries sha (kept_of entries keep) = Some l)"
proof -
  obtain i rest where o: "join_order entries = i # rest"
    using assms(1) by (cases "join_order entries") (auto simp: join_order_def dest: arg_cong [of _ _ length])
  have "set (join_order entries) = {..<length entries}" by (auto simp: join_order_def)
  then have i: "i < length entries" using o by auto
  obtain l where l: "search_entries sha [entries ! i] = Some l" using search_entries_one by blast
  have "join_entries sha entries rest ((replicate (length entries) False)[i := True]) (Some l) = (keep, layout)"
    using assms(2) l unfolding o by (simp add: kept_first [OF i])
  from join_entries_spec [OF _ _ this] l i have "length keep = length entries \<and> keep ! i \<and>
      (\<exists>l. layout = Some l \<and> search_entries sha (kept_of entries keep) = Some l)"
    by (auto simp: kept_first [OF i])
  then show ?thesis using i kept_of_mem [of keep entries i] by (simp add: o)
qed

lemma join_order_first:
  assumes "entries \<noteq> []"
  shows "hd (join_order entries) < length entries"
    and "\<forall>e'\<in>set entries. mt_priority (se_token e') \<le> mt_priority (se_token (entries ! hd (join_order entries)))"
proof -
  define f where "f = (\<lambda>i. 255 - unat (mt_priority (se_token (entries ! i))))"
  have s: "set (join_order entries) = {..<length entries}" "sorted (map f (join_order entries))"
    by (auto simp: join_order_def f_def)
  obtain i rest where o: "join_order entries = i # rest"
    using assms by (cases "join_order entries") (auto simp: join_order_def dest: arg_cong [of _ _ length])
  have i: "i < length entries" using s(1) o by auto
  then show "hd (join_order entries) < length entries" by (simp add: o)
  have b: "unat (w :: u8) \<le> 255" for w using unsigned_less [of w, where ?'a = nat] by simp
  have "mt_priority (se_token (entries ! j)) \<le> mt_priority (se_token (entries ! i))" if "j < length entries" for j
  proof -
    have "j \<in> set (i # rest)" using s(1) that o by auto
    then have "f i \<le> f j" using s(2) o by auto
    then show ?thesis using b [of "mt_priority (se_token (entries ! i))"] b [of "mt_priority (se_token (entries ! j))"]
      unfolding word_le_nat_alt f_def by linarith
  qed
  then show "\<forall>e'\<in>set entries. mt_priority (se_token e') \<le> mt_priority (se_token (entries ! hd (join_order entries)))"
    by (auto simp: o in_set_conv_nth)
qed

text \<open>What \<open>TokenSet::new\<close> promises of the set it returns.\<close>

definition set_ok ::
  "(bytes \<Rightarrow> bytes) \<Rightarrow> (string \<Rightarrow> bytes option) \<Rightarrow> (bytes \<Rightarrow> string) \<Rightarrow> MiningNetwork \<Rightarrow> TokenSet \<Rightarrow> bool" where
  "set_ok sha hex_decode hex_encode network ts \<longleftrightarrow>
     ts_entries ts \<noteq> [] \<and> search_entries sha (ts_entries ts) = Some (ts_layout ts) \<and>
     (\<forall>e\<in>set (ts_entries ts). token_verify sha hex_decode hex_encode (se_token e) = Inr () \<and> mt_network (se_token e) = network \<and>
        l_height (ts_layout ts) \<le> mt_max_aux_height (se_token e)) \<and>
     distinct (map (\<lambda>e. mt_category (se_token e)) (ts_entries ts)) \<and>
     length (l_slots (ts_layout ts)) = length (ts_entries ts) \<and> distinct (l_slots (ts_layout ts))"

lemma search_entries_layout:
  assumes "search_entries sha kept = Some layout"
  shows "distinct (l_slots layout)" and "length (l_slots layout) = length kept"
    and "\<forall>e\<in>set kept. l_height layout \<le> mt_max_aux_height (se_token e)"
    and "l_slots layout = map (\<lambda>e. slot sha (mt_category (se_token e)) (l_salt layout) (l_height layout)) kept"
    and "min (l_height layout) MAX_HEIGHT = l_height layout"
proof -
  obtain m where s: "search sha (map (\<lambda>e. mt_category (se_token e)) kept) m = Inr layout"
    and m: "\<forall>e\<in>set kept. m \<le> mt_max_aux_height (se_token e)" by (rule search_entries_Some [OF assms])
  note l = search_layout [OF s]
  show "distinct (l_slots layout)" "min (l_height layout) MAX_HEIGHT = l_height layout" using l by simp_all
  show "l_slots layout = map (\<lambda>e. slot sha (mt_category (se_token e)) (l_salt layout) (l_height layout)) kept"
    using l(2) by (simp add: place_all_def comp_def)
  then show "length (l_slots layout) = length kept" by simp
  show "\<forall>e\<in>set kept. l_height layout \<le> mt_max_aux_height (se_token e)" using l(4) m by (meson order_trans)
qed

lemma set_new_cases:
  assumes "entries \<noteq> []" and "length entries \<le> MAX_TOKENS" and "check_entries (token_verify sha hex_decode hex_encode) network [] entries = Inr ()"
  obtains ts where "set_new sha hex_decode hex_encode network entries serial = Inr ts"
    and "search_entries sha (ts_entries ts) = Some (ts_layout ts)"
    and "mset (ts_entries ts) + mset (ts_dropped ts) = mset entries"
    and "search_entries sha entries \<noteq> None \<longrightarrow> ts_entries ts = entries \<and> ts_dropped ts = []"
    and "\<exists>e\<in>set (ts_entries ts). \<forall>e'\<in>set entries. mt_priority (se_token e') \<le> mt_priority (se_token e)"
    and "ts_entries ts \<noteq> []" and "ts_threads ts = []" and "ts_serial ts = serial"
    and "ts_easiest ts = easiest_target (st_target (se_state (hd (ts_entries ts)))) (map (\<lambda>e. st_target (se_state e)) (tl (ts_entries ts)))"
proof -
  note result = that
  have make: thesis if kept: "entries ! hd (join_order entries) \<in> set kept" "search_entries sha kept = Some layout" "mset kept + mset dropped = mset entries"
    "search_entries sha entries \<noteq> None \<longrightarrow> kept = entries \<and> dropped = []"
    and new: "set_new sha hex_decode hex_encode network entries serial = (case map (\<lambda>e. st_target (se_state e)) kept of [] \<Rightarrow> Inl NoToken
       | first # rest \<Rightarrow> Inr \<lparr>ts_entries = kept, ts_layout = layout, ts_easiest = easiest_target first rest, ts_serial = serial,
          ts_dropped = dropped, ts_threads = []\<rparr>)" for kept layout dropped
  proof -
    obtain e es where k: "kept = e # es" using kept(1) by (cases kept) auto
    have "\<exists>e\<in>set kept. \<forall>e'\<in>set entries. mt_priority (se_token e') \<le> mt_priority (se_token e)"
      using join_order_first(2) [OF assms(1)] kept(1) by blast
    show thesis by (rule result [of "\<lparr>ts_entries = kept, ts_layout = layout,
        ts_easiest = easiest_target (st_target (se_state e)) (map (\<lambda>e. st_target (se_state e)) es), ts_serial = serial,
        ts_dropped = dropped, ts_threads = []\<rparr>"])
        (use new kept k \<open>\<exists>e\<in>set kept. _ e\<close> in simp_all)
  qed
  show thesis
  proof (cases "search_entries sha entries")
    case (Some layout)
    show thesis by (rule make [of entries layout "[]"]) (use assms Some join_order_first(1) [OF assms(1)] in \<open>simp_all add: set_new_def\<close>)
  next
    case None
    obtain keep lay where j: "join_entries sha entries (join_order entries) (replicate (length entries) False) None = (keep, lay)"
      by fastforce
    from join_all [OF assms(1) j] obtain l where l: "length keep = length entries" "lay = Some l"
      "search_entries sha (kept_of entries keep) = Some l" by blast
    have "entries ! hd (join_order entries) \<in> set (kept_of entries keep)" using join_all [OF assms(1) j] by auto
    then show thesis
      by (rule make [of _ l "dropped_of entries keep"])
        (use assms None j l kept_dropped [OF l(1)] in \<open>simp_all add: set_new_def ok_or_def\<close>)
  qed
qed

section \<open>Hashes of the tree\<close>

lemma pair_up_lengths: "hash32 sha \<Longrightarrow> \<forall>x\<in>set (pair_up sha level). length x = 32"
  by (induction sha level rule: pair_up.induct) (auto simp: node_def hash32.length_sha)

lemma build_levels_lengths:
  assumes "hash32 sha" and "level \<noteq> []" and "\<forall>x\<in>set level. length x = 32"
  shows "\<forall>l\<in>set (build_levels sha level). l \<noteq> [] \<and> (\<forall>x\<in>set l. length x = 32)"
  using assms
proof (induction sha level rule: build_levels.induct)
  case (1 sha level)
  show ?case
  proof (cases "length level > 1")
    case True
    then have "pair_up sha level \<noteq> []" using length_pair_up [of sha level] by (auto dest: arg_cong [of _ _ length])
    then show ?thesis using 1 True pair_up_lengths [OF 1(2)] by (subst build_levels.simps) auto
  next
    case False
    then show ?thesis using 1 by (subst build_levels.simps) auto
  qed
qed

lemma put_leaves_lengths:
  "\<forall>x\<in>set level. length x = 32 \<Longrightarrow> \<forall>(s, x)\<in>set ls. length x = 32 \<Longrightarrow> \<forall>x\<in>set (put_leaves ls level). length x = 32"
proof (induction ls level rule: put_leaves.induct)
  case (2 s leaf rest level)
  have "\<forall>x\<in>set (if unat s < length level then level[unat s := leaf] else level). length x = 32"
    using 2(2,3) set_update_subset_insert [of level "unat s" leaf] by auto
  then show ?case using 2 by simp
qed simp

lemma build_lengths:
  assumes "hash32 sha" and "\<forall>x\<in>set leaves. length x = 32"
  shows "\<forall>l\<in>set (build sha layout leaves). l \<noteq> [] \<and> (\<forall>x\<in>set l. length x = 32)"
proof -
  have "\<forall>(s, x)\<in>set (zip (l_slots layout) leaves). length x = 32" using assms(2) by (auto dest: set_zip_rightD)
  then show ?thesis unfolding build_def
    by (intro build_levels_lengths [OF assms(1)] put_leaves_lengths) (auto dest: arg_cong [of _ _ length])
qed

lemma branch_from_lengths:
  "\<forall>l\<in>set levels. l \<noteq> [] \<and> (\<forall>x\<in>set l. length x = 32) \<Longrightarrow> list_all (\<lambda>h. length h = 32) (branch_from levels index)"
proof (induction levels index rule: branch_from.induct)
  case (2 level levels index)
  have "min (index XOR 1) (length level - 1) < length level" using 2(2) by (cases level) auto
  then show ?case using 2 by simp
qed simp

lemma branch_lengths:
  assumes "hash32 sha" and "\<forall>x\<in>set leaves. length x = 32"
  shows "list_all (\<lambda>h. length h = 32) (branch (build sha layout leaves) s)"
  unfolding branch_def using build_lengths [OF assms] by (intro branch_from_lengths) (auto dest: in_set_takeD)

lemma root_length:
  assumes "hash32 sha" and "\<forall>x\<in>set leaves. length x = 32"
  shows "length (root (build sha layout leaves)) = 32"
proof -
  let ?t = "build sha layout leaves"
  have "?t \<noteq> []" by (simp add: build_def build_levels_nonempty)
  then have "last ?t \<in> set ?t" by simp
  then have "last ?t \<noteq> []" "\<forall>x\<in>set (last ?t). length x = 32" using build_lengths [OF assms, of layout] by blast+
  then show ?thesis using \<open>?t \<noteq> []\<close> by (simp add: root_def)
qed

section \<open>A job's entries\<close>

definition states_ok :: "TokenSet \<Rightarrow> bool" where
  "states_ok ts \<longleftrightarrow> (\<forall>e\<in>set (ts_entries ts). state_wf (se_state e)) \<and>
     (\<forall>(c, choice)\<in>set (ts_threads ts). \<forall>(t, s)\<in>set (tc_states choice). state_wf s)"

lemma min_by_key_spec:
  "(min_by_key f xs = None \<longleftrightarrow> xs = []) \<and> (min_by_key f xs = Some x \<longrightarrow> x \<in> set xs \<and> (\<forall>y\<in>set xs. f x \<le> f y))"
proof (induction xs arbitrary: x)
  case (Cons a xs)
  show ?case
  proof (cases "min_by_key f xs")
    case None
    then show ?thesis using Cons by auto
  next
    case (Some y)
    then show ?thesis using Cons [of y] by (auto intro: order_trans)
  qed
qed simp

lemma pick_member: "pick sha choice h = Some (t, s) \<Longrightarrow> (t, s) \<in> set (tc_states choice) \<and> t < tc_count choice"
  using min_by_key_spec [where x = "(t, s)"] by (fastforce simp: pick_def Let_def split: if_splits)

lemma job_entry_target:
  fixes sha :: "bytes \<Rightarrow> bytes" and terms :: LeafTerms and s :: u32
  assumes "states_ok ts" and "entry \<in> set (ts_entries ts)"
  defines "e \<equiv> job_entry sha ts terms (entry, s)"
  shows "expand_compact (lf_target_bits (ae_leaf e)) = Some (ae_target e)" and "ae_slot e = s"
    and "lf_category (ae_leaf e) = mt_category (se_token entry)" and "ae_token e = se_token entry"
proof -
  obtain payout split where ps: "(if mt_split (se_token entry) then (lt_payout terms, lt_split terms) else (lt_plain_payout terms, NO_SPLIT)) = (payout, split)"
    by fastforce
  define state where "state = (case Option.bind (set_threads ts (mt_category (se_token entry))) (\<lambda>choice. pick sha choice (double_sha256 sha payout)) of
                     Some (_, state) \<Rightarrow> state | None \<Rightarrow> se_state entry)"
  have "state_wf state"
  proof (cases "Option.bind (set_threads ts (mt_category (se_token entry))) (\<lambda>choice. pick sha choice (double_sha256 sha payout))")
    case None
    then show ?thesis using assms(1,2) by (simp add: state_def states_ok_def)
  next
    case (Some ts')
    then obtain choice t where c: "set_threads ts (mt_category (se_token entry)) = Some choice" "pick sha choice (double_sha256 sha payout) = Some (t, state)"
      by (cases ts') (auto simp: bind_eq_Some_conv state_def)
    then have "\<exists>k. (k, choice) \<in> set (ts_threads ts)" by (auto simp: set_threads_def find_Some_iff) (metis nth_mem)
    then show ?thesis using assms(1) pick_member [OF c(2)] by (auto simp: states_ok_def)
  qed
  moreover have e: "e = \<lparr>ae_token = se_token entry, ae_slot = s,
          ae_leaf = leaf_new sha (mt_category (se_token entry)) (st_lock_hash state) (st_state_hash state) payout
            (st_target_bits state) (split_ext sha split),
          ae_split = split, ae_target = st_target state\<rparr>"
    unfolding e_def job_entry_def Let_def by (simp add: ps state_def)
  ultimately show "expand_compact (lf_target_bits (ae_leaf e)) = Some (ae_target e)" "ae_slot e = s"
    "lf_category (ae_leaf e) = mt_category (se_token entry)" "ae_token e = se_token entry"
    by (simp_all add: leaf_new_def state_wf_def)
qed

lemma wins_iff: "i \<in> set (wins job h) \<longleftrightarrow>
  unat i < length (aj_entries job) \<and> meets_target h (ae_target (aj_entries job ! unat i))"
proof
  assume "i \<in> set (wins job h)"
  then obtain n e where "(n, e) \<in> set (enumerate 0 (aj_entries job))" "meets_target h (ae_target e)" "n < 2 ^ 16" "i = word_of_nat n"
    by (auto simp: wins_def)
  then show "unat i < length (aj_entries job) \<and> meets_target h (ae_target (aj_entries job ! unat i))"
    by (auto simp: in_set_enumerate_eq unat_of_nat)
next
  assume a: "unat i < length (aj_entries job) \<and> meets_target h (ae_target (aj_entries job ! unat i))"
  have "unat i < 2 ^ 16" using unsigned_less [of i, where ?'a = nat] by simp
  then have "(unat i, aj_entries job ! unat i) \<in> set (filter (\<lambda>(index, entry). meets_target h (ae_target entry) \<and> index < 2 ^ 16) (enumerate 0 (aj_entries job)))"
    using a by (simp add: in_set_enumerate_eq)
  then show "i \<in> set (wins job h)" unfolding wins_def by (force simp: image_iff)
qed

section \<open>From a share to a proof\<close>

text \<open>A coinbase around the job's output, its merkle branch and a header whose merkle root it folds to.\<close>

definition mined :: "(bytes \<Rightarrow> bytes) \<Rightarrow> AuxJob \<Rightarrow> bytes \<Rightarrow> bytes \<Rightarrow> hash list \<Rightarrow> bytes \<Rightarrow> bool" where
  "mined sha job head tail cb_branch header \<longleftrightarrow>
     check_head head \<and> 4 \<le> length tail \<and> length tail \<le> 65535 \<and> length cb_branch \<le> MAX_COINBASE_BRANCH \<and>
     list_all (\<lambda>h. length h = 32) cb_branch \<and> length header = 80 \<and>
     subrange header 36 68 = merkle_fold sha (double_sha256 sha (head @ aj_output job @ tail)) cb_branch"

lemma job_build_simps:
  fixes sha :: "bytes \<Rightarrow> bytes" and terms :: LeafTerms and ts :: TokenSet
  defines "entries \<equiv> map (job_entry sha ts terms) (zip (ts_entries ts) (l_slots (ts_layout ts)))"
  defines "tree \<equiv> build sha (ts_layout ts) (map (\<lambda>e. leaf_hash sha (ae_leaf e)) entries)"
  shows "aj_entries (job_build sha ts terms) = entries" and "aj_tree (job_build sha ts terms) = tree"
    and "aj_commitment (job_build sha ts terms) = \<lparr>ac_root = root tree, ac_height = l_height (ts_layout ts), ac_salt = l_salt (ts_layout ts)\<rparr>"
    and "aj_output (job_build sha ts terms) = commitment_output \<lparr>ac_root = root tree, ac_height = l_height (ts_layout ts), ac_salt = l_salt (ts_layout ts)\<rparr>"
  unfolding job_build_def entries_def tree_def Let_def by simp_all

lemma assemble_verifies:
  assumes sha: "hash32 sha" and found: "search_entries sha (ts_entries ts) = Some (ts_layout ts)" and ok: "states_ok ts"
    and mined: "mined sha (job_build sha ts terms) head tail cb_branch header"
    and win: "i \<in> set (wins (job_build sha ts terms) (double_sha256 sha header))"
  obtains p where "assemble (job_build sha ts terms) i (head @ aj_output (job_build sha ts terms) @ tail) cb_branch header = Inr p"
    and "verify_leaf sha p (ae_leaf (aj_entries (job_build sha ts terms) ! unat i))
      (mt_max_aux_height (ae_token (aj_entries (job_build sha ts terms) ! unat i))) = Inr ()"
    and "proof_wf p"
proof -
  define job where "job = job_build sha ts terms"
  define entries where "entries = map (job_entry sha ts terms) (zip (ts_entries ts) (l_slots (ts_layout ts)))"
  define leaves where "leaves = map (\<lambda>e. leaf_hash sha (ae_leaf e)) entries"
  define tree where "tree = build sha (ts_layout ts) leaves"
  define com where "com = \<lparr>ac_root = root tree, ac_height = l_height (ts_layout ts), ac_salt = l_salt (ts_layout ts)\<rparr>"
  note simps = job_build_simps [of sha ts terms, folded entries_def, folded leaves_def, folded tree_def, folded com_def, folded job_def]
  note L = search_entries_layout [OF found]
  define n where "n = unat i"
  have nl: "n < length entries" and meets: "meets_target (double_sha256 sha header) (ae_target (entries ! n))"
    using win by (simp_all add: wins_iff n_def simps flip: job_def)
  have ne: "n < length (ts_entries ts)" "n < length (l_slots (ts_layout ts))" using nl by (simp_all add: entries_def)
  define e where "e = entries ! n"
  have e: "e = job_entry sha ts terms (ts_entries ts ! n, l_slots (ts_layout ts) ! n)" using ne by (simp add: e_def entries_def)
  note E = job_entry_target [OF ok, of "ts_entries ts ! n" sha terms "l_slots (ts_layout ts) ! n", folded e]
  have mem: "ts_entries ts ! n \<in> set (ts_entries ts)" using ne by simp
  have slot: "ae_slot e = l_slots (ts_layout ts) ! n" "l_slots (ts_layout ts) ! n = slot sha (lf_category (ae_leaf e)) (l_salt (ts_layout ts)) (l_height (ts_layout ts))"
    using E(2,3) mem ne(1) arg_cong [OF L(4), of "\<lambda>s. s ! n"] by simp_all
  have ll: "\<forall>x\<in>set leaves. length x = 32" by (auto simp: leaves_def leaf_hash_def hash32.length_sha [OF sha])
  have "unat (slot sha (lf_category (ae_leaf e)) (l_salt (ts_layout ts)) (l_height (ts_layout ts))) < 2 ^ unat (min (l_height (ts_layout ts)) MAX_HEIGHT)"
    by (rule slot_bound)
  then have bound: "unat (l_slots (ts_layout ts) ! n) < 2 ^ unat (min (l_height (ts_layout ts)) MAX_HEIGHT)" by (simp add: slot(2))
  have len: "length leaves = length (l_slots (ts_layout ts))" "n < length leaves" using L(2) ne by (simp_all add: leaves_def entries_def)
  note B = build_branch [OF L(1) len bound, of sha, folded tree_def]
  have leaf: "leaves ! n = leaf_hash sha (ae_leaf e)" using nl by (simp add: leaves_def e_def)
  have out: "length (commitment_output com) = OUTPUT_LEN"
    using root_length [OF sha ll, of "ts_layout ts"] by (simp add: commitment_output_def commitment_script_def com_def COMMIT_MAGIC_def OUTPUT_LEN_def tree_def)
  have M: "check_head head" "4 \<le> length tail" "length tail \<le> 65535" "length cb_branch \<le> MAX_COINBASE_BRANCH"
    "list_all (\<lambda>h. length h = 32) cb_branch" "length header = 80"
    "subrange header 36 68 = merkle_fold sha (double_sha256 sha (head @ commitment_output com @ tail)) cb_branch"
    using mined by (simp_all add: mined_def simps flip: job_def)
  obtain l where l: "get_byte head 41 = Some l" "unat l \<le> 100" "length head = 47 + unat l"
    using M(1) by (auto simp: check_head_def MAX_SCRIPT_SIG_def split: option.splits)
  define p where "p = \<lparr>ap_header = header, ap_height = l_height (ts_layout ts), ap_salt = l_salt (ts_layout ts),
      ap_aux_branch = branch tree (ae_slot e), ap_cb_head = head, ap_cb_tail = tail, ap_cb_branch = cb_branch\<rparr>"
  have shape: "check_shape p = Inr ()"
    using L(5) B(2) M l by (simp add: check_shape_def p_def slot(1) min_def split: if_splits)
  have g41: "get_byte (head @ commitment_output com @ tail) 41 = Some l" using l by (simp add: get_byte_def nth_append split: if_splits)
  have range: "get_range (head @ commitment_output com @ tail) (47 + unat l) (47 + unat l + OUTPUT_LEN) = Some (commitment_output com)"
    using l(3) out by (simp add: get_range_def subrange_def)
  have asm: "assemble job i (head @ aj_output job @ tail) cb_branch header = Inr p"
    using nl g41 range shape l(3) out
    by (simp add: assemble_def simps ok_or_def e_def n_def p_def com_def Let_def)
  have root: "leaf_root sha p (ae_leaf e) = root tree"
    using B(1) by (simp add: leaf_root_def p_def slot leaf)
  have "proof_coinbase sha p (ae_leaf e) = head @ commitment_output com @ tail"
    using root by (simp add: proof_coinbase_def) (simp add: p_def com_def)
  moreover have "l_height (ts_layout ts) \<le> mt_max_aux_height (ae_token e)" using L(3) mem E(4) by simp
  moreover have "l_height (ts_layout ts) \<le> MAX_HEIGHT" using L(5) by (metis min.cobounded2)
  ultimately have "proof_coinbase sha p (ae_leaf e) = head @ commitment_output com @ tail"
    "\<not> min (mt_max_aux_height (ae_token e)) MAX_HEIGHT < l_height (ts_layout ts)" by (simp_all add: min_def not_less)
  then have "verify_leaf sha p (ae_leaf e) (mt_max_aux_height (ae_token e)) = Inr ()"
    using shape E(1) [OF mem] meets M by (simp add: verify_leaf_def ok_or_def p_def e_def)
  moreover have "proof_wf p"
    using branch_lengths [OF sha ll] M by (simp add: proof_wf_def p_def tree_def)
  ultimately show ?thesis using that asm by (simp add: simps e_def n_def flip: job_def)
qed

lemma check_entries_error: "check_entries verify_token network earlier entries \<noteq> Inl NoLayout"
  by (induction verify_token network earlier entries rule: check_entries.induct) (auto simp: Let_def split: sum.splits)

section \<open>Threads in turn\<close>

lemma thread_start_bound: "c \<noteq> 0 \<Longrightarrow> thread_start sha h height c < c"
proof -
  assume "c \<noteq> 0"
  then have "max c 1 = c" by (simp add: max_def word_le_nat_alt le_Suc_eq) (metis unat_1 unat_eq_zero word_unat_eq_iff One_nat_def)
  then show ?thesis unfolding thread_start_def Let_def using \<open>c \<noteq> 0\<close>
    by (metis word_mod_less_divisor word_neq_0_conv)
qed

lemma thread_distance:
  fixes t c s :: u32
  assumes "t < c" and "s < c"
  shows "unat (((ucast t :: u64) + ucast c - ucast s) mod ucast c) = (unat t + unat c - unat s) mod unat c"
proof -
  have b: "unat t < 2 ^ 32" "unat c < 2 ^ 32" "unat s < unat c"
    using unsigned_less [of t, where ?'a = nat] unsigned_less [of c, where ?'a = nat] assms by (simp_all add: word_less_nat_alt)
  have "unat ((ucast t :: u64) + ucast c) = unat t + unat c" using b by (simp add: unat_word_ariths unat_ucast_up)
  then show ?thesis using b by (simp add: unat_sub_if' unat_mod unat_ucast_up)
qed

lemma cyclic_step:
  fixes t c s d :: nat
  assumes "t < c" and "s < c"
  shows "(s + (t + c - s) mod c) mod c = t" and "d < c \<Longrightarrow> ((s + d) mod c + c - s) mod c = d"
proof -
  show "(s + (t + c - s) mod c) mod c = t" using assms by (simp add: mod_add_right_eq)
  assume d: "d < c"
  show "((s + d) mod c + c - s) mod c = d"
  proof (cases "s + d < c")
    case False
    then have "(s + d) mod c = s + d - c" using d assms by (simp add: mod_if)
    then show ?thesis using False d assms by simp
  qed (use d assms in simp)
qed

lemma pick_next:
  assumes "pick sha choice h = Some (t, s)"
  defines "start \<equiv> unat (thread_start sha h (tc_height choice) (tc_count choice))" and "n \<equiv> unat (tc_count choice)"
  shows "\<exists>d<n. unat t = (start + d) mod n \<and> (\<forall>d'<d. \<forall>(t', s')\<in>set (tc_states choice). unat t' \<noteq> (start + d') mod n)"
proof -
  have c: "tc_count choice \<noteq> 0" using assms(1) by (auto simp: pick_def)
  have tc: "t < tc_count choice" and mem: "(t, s) \<in> set (tc_states choice)" using pick_member [OF assms(1)] by simp_all
  note sb = thread_start_bound [OF c, of sha h "tc_height choice"]
  have st: "start < n" "unat t < n" using sb tc by (simp_all add: start_def n_def word_less_nat_alt)
  define d where "d = (unat t + n - start) mod n"
  have least: "d \<le> (unat t' + n - start) mod n" if "(t', s') \<in> set (tc_states choice)" "unat t' < n" for t' s'
  proof -
    have t': "t' < tc_count choice" using that(2) by (simp add: n_def word_less_nat_alt)
    have "(t', s') \<in> set (filter (\<lambda>(thread, _). thread < tc_count choice) (tc_states choice))" using that(1) t' by simp
    then show ?thesis
      using min_by_key_spec [of "\<lambda>(thread, _). unat (((ucast thread :: u64) + ucast (tc_count choice) - ucast (thread_start sha h (tc_height choice) (tc_count choice))) mod ucast (tc_count choice))"
          "filter (\<lambda>(thread, _). thread < tc_count choice) (tc_states choice)" "(t, s)"] assms(1) c
      by (auto simp: pick_def Let_def d_def start_def n_def thread_distance [OF tc sb] thread_distance [OF t' sb])
  qed
  have "unat t' \<noteq> (start + d') mod n" if d': "d' < d" and m: "(t', s') \<in> set (tc_states choice)" for d' t' s'
  proof
    assume eq: "unat t' = (start + d') mod n"
    have "d < n" using st by (simp add: d_def)
    then have "d' < n" using d' by simp
    then have "(unat t' + n - start) mod n = d'" using cyclic_step(2) [OF st(2) st(1)] eq by simp
    moreover have "unat t' < n" using eq st by simp
    ultimately show False using least [OF m] d' by simp
  qed
  moreover have "d < n" "unat t = (start + d) mod n"
    using cyclic_step(1) [OF st(2) st(1)] st by (simp_all add: d_def)
  ultimately show ?thesis by fast
qed

section \<open>Sound sets\<close>

lemma set_new_sound:
  assumes "set_new sha hex_decode hex_encode network entries serial = Inr ts"
    and "list_all (\<lambda>e. state_wf (se_state e)) entries"
  shows "set_ok sha hex_decode hex_encode network ts"
    and "mset (ts_entries ts) + mset (ts_dropped ts) = mset entries"
    and "search_entries sha entries \<noteq> None \<Longrightarrow> ts_entries ts = entries"
    and "\<exists>e\<in>set (ts_entries ts). \<forall>e'\<in>set entries. mt_priority (se_token e') \<le> mt_priority (se_token e)"
    and "ts_easiest ts \<in> (\<lambda>e. st_target (se_state e)) ` set (ts_entries ts)"
    and "\<forall>e\<in>set (ts_entries ts). le_nat (st_target (se_state e)) \<le> le_nat (ts_easiest ts)"
proof -
  have "\<exists>ts. set_new sha hex_decode hex_encode network entries serial = Inr ts" using assms(1) by blast
  then have "entries \<noteq> []" "length entries \<le> MAX_TOKENS" "check_entries (token_verify sha hex_decode hex_encode) network [] entries = Inr ()"
    by (auto simp: set_new_def result_bind_Inr_iff split: if_splits)
  note pre = this check_entries_Inr [THEN iffD1, OF this(3)]
  obtain ts' where N: "set_new sha hex_decode hex_encode network entries serial = Inr ts'"
    "search_entries sha (ts_entries ts') = Some (ts_layout ts')"
    "mset (ts_entries ts') + mset (ts_dropped ts') = mset entries"
    "search_entries sha entries \<noteq> None \<longrightarrow> ts_entries ts' = entries \<and> ts_dropped ts' = []"
    "\<exists>e\<in>set (ts_entries ts'). \<forall>e'\<in>set entries. mt_priority (se_token e') \<le> mt_priority (se_token e)"
    "ts_entries ts' \<noteq> []"
    "ts_easiest ts' = easiest_target (st_target (se_state (hd (ts_entries ts')))) (map (\<lambda>e. st_target (se_state e)) (tl (ts_entries ts')))"
    by (rule set_new_cases [OF pre(1-3)])
  have eq: "ts' = ts" using N(1) assms(1) by simp
  note N = N [unfolded eq]
  have sub: "set (ts_entries ts) \<subseteq> set entries" using N(3) by (metis mset_subset_eq_add_left set_mset_mono set_mset_mset)
  have "mset (map (\<lambda>e. mt_category (se_token e)) (ts_entries ts @ ts_dropped ts)) = mset (map (\<lambda>e. mt_category (se_token e)) entries)"
    using N(3) by (metis mset_append mset_map)
  from mset_eq_imp_distinct_iff [OF this] have "distinct (map (\<lambda>e. mt_category (se_token e)) (ts_entries ts))"
    using pre(4) by simp
  then show "set_ok sha hex_decode hex_encode network ts"
    using N(2,6) pre(4) sub search_entries_layout [OF N(2)] by (auto simp: set_ok_def)
  show "mset (ts_entries ts) + mset (ts_dropped ts) = mset entries"
    "\<exists>e\<in>set (ts_entries ts). \<forall>e'\<in>set entries. mt_priority (se_token e') \<le> mt_priority (se_token e)"
    "search_entries sha entries \<noteq> None \<Longrightarrow> ts_entries ts = entries"
    using N by simp_all
  have c: "st_target (se_state (hd (ts_entries ts))) # map (\<lambda>e. st_target (se_state e)) (tl (ts_entries ts))
      = map (\<lambda>e. st_target (se_state e)) (ts_entries ts)" using N(6) by (cases "ts_entries ts") simp_all
  have "\<forall>t\<in>set (map (\<lambda>e. st_target (se_state e)) (ts_entries ts)). length t = 32"
    using sub assms(2) by (auto simp: list_all_iff intro: state_wf_length)
  from easiest_target_max [of "st_target (se_state (hd (ts_entries ts)))" "map (\<lambda>e. st_target (se_state e)) (tl (ts_entries ts))", unfolded c, OF this]
  show "ts_easiest ts \<in> (\<lambda>e. st_target (se_state e)) ` set (ts_entries ts)"
    "\<forall>e\<in>set (ts_entries ts). le_nat (st_target (se_state e)) \<le> le_nat (ts_easiest ts)"
    unfolding N(7) by auto
qed

section \<open>Properties\<close>

definition demo_token :: MergeToken where
  "demo_token = \<lparr>mt_name = ''t'', mt_network = Chipnet, mt_category = replicate 32 1, mt_deployment = None,
     mt_verifier_sha256 = None, mt_max_aux_height = 16, mt_priority = 0, mt_split = False\<rparr>"

definition demo_state :: TokenState where
  "demo_state = \<lparr>st_lock_hash = replicate 32 2, st_state_hash = replicate 32 3, st_target_bits = 0x20000001,
     st_target = replicate 29 0 @ take 3 (to_le_bytes (1 :: u32))\<rparr>"

definition demo_entry :: SetEntry where
  "demo_entry = \<lparr>se_token = demo_token, se_state = demo_state\<rparr>"

lemma demo_entry_ok:
  "list_all (\<lambda>e. token_verify sha hex_decode hex_encode (se_token e) = Inr () \<and> mt_network (se_token e) = Chipnet) [demo_entry]"
  "list_all (\<lambda>e. state_wf (se_state e)) [demo_entry]"
  by (simp_all add: demo_entry_def demo_token_def demo_state_def token_verify_def trim_def is_space_def is_control_def MAX_HEIGHT_def
      state_wf_def demo_target)

lemma demo_set: obtains ts where "set_new sha hex_decode hex_encode Chipnet [demo_entry] 1 = Inr ts"
  by (rule set_new_cases [of "[demo_entry]" sha hex_decode hex_encode Chipnet 1])
    (use demo_entry_ok(1) in \<open>simp_all add: MAX_TOKENS_def MAX_LEAVES_def check_entries_Inr\<close>)

lemma demo_set_fields:
  assumes "set_new sha hex_decode hex_encode Chipnet [demo_entry] 1 = Inr ts"
  shows "search_entries sha (ts_entries ts) = Some (ts_layout ts)" and "ts_entries ts = [demo_entry]" and "ts_threads ts = []"
proof -
  obtain l where "search_entries sha [demo_entry] = Some l" using search_entries_one by blast
  with assms show "search_entries sha (ts_entries ts) = Some (ts_layout ts)" "ts_entries ts = [demo_entry]" "ts_threads ts = []"
    by (auto simp: set_new_def result_bind_Inr_iff split: if_splits)
qed

lemma demo_wins:
  assumes "set_new zero_sha hex_decode hex_encode Chipnet [demo_entry] 1 = Inr ts"
  shows "0 \<in> set (wins (job_build zero_sha ts (plain_terms [])) (double_sha256 zero_sha header))"
proof -
  note f = demo_set_fields [OF assms]
  obtain s where s: "l_slots (ts_layout ts) = [s]"
    using search_entries_layout(2) [OF f(1)] by (cases "l_slots (ts_layout ts)") (auto simp: f)
  have "le_nat (st_target demo_state) \<ge> 0" "length (st_target demo_state) = 32"
    by (simp_all add: demo_state_def)
  then have "meets_target ZERO_HASH (st_target demo_state)" by (subst meets_target_iff) (simp_all add: ZERO_HASH_def)
  then show ?thesis
    by (simp add: wins_iff job_build_simps f s job_entry_def set_threads_def demo_entry_def demo_token_def double_sha256_def zero_sha_def)
qed

text \<open>\<open>TokenSet::new\<close> accepts exactly the lists of one to sixteen entries that all pass their registry checks,
  all belong to the network and have pairwise different categories; in particular the search for a layout
  never leaves it empty-handed (no entry list ends in the error ''no token fits a layout'').\<close>

theorem token_set_exact:
  "((\<exists>ts. set_new sha hex_decode hex_encode network entries serial = Inr ts) \<longleftrightarrow>
     entries \<noteq> [] \<and> length entries \<le> MAX_TOKENS \<and>
     list_all (\<lambda>e. token_verify sha hex_decode hex_encode (se_token e) = Inr () \<and> mt_network (se_token e) = network) entries \<and>
     distinct (map (\<lambda>e. mt_category (se_token e)) entries)) \<and>
   set_new sha hex_decode hex_encode network entries serial \<noteq> Inl NoLayout"
proof -
  let ?new = "set_new sha hex_decode hex_encode network entries serial"
  let ?check = "check_entries (token_verify sha hex_decode hex_encode) network [] entries"
  have ok: "?check = Inr () \<longleftrightarrow>
     list_all (\<lambda>e. token_verify sha hex_decode hex_encode (se_token e) = Inr () \<and> mt_network (se_token e) = network) entries \<and>
     distinct (map (\<lambda>e. mt_category (se_token e)) entries)"
    by (auto simp: check_entries_Inr list_all_iff)
  show ?thesis
  proof (cases "entries \<noteq> [] \<and> length entries \<le> MAX_TOKENS \<and> ?check = Inr ()")
    case True
    then obtain ts where "?new = Inr ts" using set_new_cases [of entries sha hex_decode hex_encode network] by blast
    then show ?thesis using True ok by simp
  next
    case False
    have "?check \<noteq> Inl NoLayout" by (rule check_entries_error)
    then have "\<exists>e. ?new = Inl e \<and> e \<noteq> NoLayout" using False
      by (cases ?check) (auto simp: set_new_def)
    then show ?thesis using False ok by auto
  qed
qed

text \<open>C30. The set \<open>TokenSet::new\<close> returns is sound: every kept entry passed its checks, the categories are
  different, the layout gives each entry a slot of its own within every token's own height limit, each
  given entry is either kept or listed as dropped (all are kept when they all fit), an entry of the
  highest priority is always kept, and \<open>easiest\<close> is the largest target kept.\<close>

theorem token_set_sound:
  assumes "set_new sha hex_decode hex_encode network entries serial = Inr ts"
    and "list_all (\<lambda>e. state_wf (se_state e)) entries"
  shows "set_ok sha hex_decode hex_encode network ts \<and>
    mset (ts_entries ts) + mset (ts_dropped ts) = mset entries \<and>
    (search_entries sha entries \<noteq> None \<longrightarrow> ts_entries ts = entries) \<and>
    (\<exists>e\<in>set (ts_entries ts). \<forall>e'\<in>set entries. mt_priority (se_token e') \<le> mt_priority (se_token e)) \<and>
    ts_easiest ts \<in> (\<lambda>e. st_target (se_state e)) ` set (ts_entries ts) \<and>
    (\<forall>e\<in>set (ts_entries ts). le_nat (st_target (se_state e)) \<le> le_nat (ts_easiest ts))"
  using set_new_sound [OF assms] by blast

theorem token_set_sound_witness:
  "\<exists>ts. set_new zero_sha (\<lambda>_. None) (\<lambda>_. []) Chipnet [demo_entry] 1 = Inr ts \<and> ts_easiest ts = st_target demo_state \<and>
     ts_entries ts = [demo_entry]"
proof -
  obtain ts where ts: "set_new zero_sha (\<lambda>_. None) (\<lambda>_. []) Chipnet [demo_entry] 1 = Inr ts" by (rule demo_set)
  have "search_entries zero_sha [demo_entry] \<noteq> None" using search_entries_one by fast
  with token_set_sound [OF ts demo_entry_ok(2)] ts show ?thesis by (auto simp: demo_entry_def)
qed

text \<open>No win is lost: take a job of a token set, a coinbase that carries the job's output 0 after a
  well-formed head, its merkle branch and a header whose merkle root it folds to. Whenever the header's hash
  wins an entry, the proof \<open>assemble\<close> builds for that entry exists, is accepted by the reference verifier for
  the entry's leaf, and its encoding decodes to the same proof.\<close>

theorem winning_share_is_claimable:
  assumes "hash32 sha" and "search_entries sha (ts_entries ts) = Some (ts_layout ts)" and "states_ok ts"
    and "mined sha (job_build sha ts terms) head tail cb_branch header"
    and "i \<in> set (wins (job_build sha ts terms) (double_sha256 sha header))"
  shows "\<exists>p bs. assemble (job_build sha ts terms) i (head @ aj_output (job_build sha ts terms) @ tail) cb_branch header = Inr p \<and>
    verify_leaf sha p (ae_leaf (aj_entries (job_build sha ts terms) ! unat i))
      (mt_max_aux_height (ae_token (aj_entries (job_build sha ts terms) ! unat i))) = Inr () \<and>
    to_bytes p = Inr bs \<and> from_bytes bs = Inr p"
proof -
  obtain p where p: "assemble (job_build sha ts terms) i (head @ aj_output (job_build sha ts terms) @ tail) cb_branch header = Inr p"
    "verify_leaf sha p (ae_leaf (aj_entries (job_build sha ts terms) ! unat i))
      (mt_max_aux_height (ae_token (aj_entries (job_build sha ts terms) ! unat i))) = Inr ()" "proof_wf p"
    by (rule assemble_verifies [OF assms])
  then have "check_shape p = Inr ()" by (simp add: verify_leaf_def result_bind_Inr_iff)
  then obtain bs where "to_bytes p = Inr bs" by (simp add: to_bytes_def)
  then show ?thesis using p from_to_bytes [OF p(3)] by blast
qed

theorem winning_share_is_claimable_witness:
  "\<exists>ts p. set_new zero_sha (\<lambda>_. None) (\<lambda>_. []) Chipnet [demo_entry] 1 = Inr ts \<and>
     assemble (job_build zero_sha ts (plain_terms [])) 0 (demo_head @ aj_output (job_build zero_sha ts (plain_terms [])) @ [0, 0, 0, 0])
       [] (replicate 80 0) = Inr p"
proof -
  obtain ts where ts: "set_new zero_sha (\<lambda>_. None) (\<lambda>_. []) Chipnet [demo_entry] 1 = Inr ts" by (rule demo_set)
  have s: "search_entries zero_sha (ts_entries ts) = Some (ts_layout ts)" "ts_entries ts = [demo_entry]" "ts_threads ts = []"
    by (rule demo_set_fields [OF ts])+
  have "states_ok ts" using demo_entry_ok(2) by (simp add: states_ok_def s)
  moreover have "mined zero_sha (job_build zero_sha ts (plain_terms [])) demo_head [0, 0, 0, 0] [] (replicate 80 0)"
    by (simp add: mined_def demo_head_ok double_sha256_def zero_sha_def ZERO_HASH_def subrange_def)
  moreover have "0 \<in> set (wins (job_build zero_sha ts (plain_terms [])) (double_sha256 zero_sha (replicate 80 0)))"
    by (rule demo_wins [OF ts])
  ultimately show ?thesis using winning_share_is_claimable [OF zero_sha_hash32 s(1)] ts by blast
qed

text \<open>A token with threads mines the agreed thread: the thread \<open>pick\<close> takes is the first minable one met when
  counting up, modulo the thread count, from the start the payout hash and the height give.\<close>

theorem pick_takes_next_thread:
  assumes "pick sha choice h = Some (t, s)"
  shows "(t, s) \<in> set (tc_states choice) \<and>
    (\<exists>d<unat (tc_count choice).
       unat t = (unat (thread_start sha h (tc_height choice) (tc_count choice)) + d) mod unat (tc_count choice) \<and>
       (\<forall>d'<d. \<forall>(t', s')\<in>set (tc_states choice).
          unat t' \<noteq> (unat (thread_start sha h (tc_height choice) (tc_count choice)) + d') mod unat (tc_count choice)))"
  using pick_next [OF assms] pick_member [OF assms] by blast

definition demo_choice :: ThreadChoice where
  "demo_choice = \<lparr>tc_height = 5, tc_count = 4, tc_states = [(3, demo_state), (1, demo_state)]\<rparr>"

theorem pick_takes_next_thread_witness:
  "pick zero_sha demo_choice [] = Some (1, demo_state) \<and> (\<exists>d<4. 1 = (0 + d) mod (4 :: nat))"
proof -
  have t: "thread_start zero_sha [] 5 4 = 0"
  proof -
    have "ZERO_HASH ! k = 0" if "k < 32" for k using that by (simp add: ZERO_HASH_def)
    then show ?thesis by (simp add: thread_start_def double_sha256_def zero_sha_def from_le_bytes_def)
  qed
  have p: "pick zero_sha demo_choice [] = Some (1, demo_state)"
    by (simp add: pick_def demo_choice_def t)
  from pick_takes_next_thread [OF p] p show ?thesis by (auto simp: demo_choice_def t)
qed

end
