(* ===== verification/Vaults.thy ===== *)
theory Vaults
  imports Asert Claim_Tx Merge_Set
begin

text \<open>
  tSAFA deployments and vaults, from \<open>src/stratum_v2/merge/safa_auxpow.rs\<close>: the checks of a deployment file and the
  vaults read from Fulcrum's listing. The digest, the hex package and the JSON parser are arguments.
\<close>

section \<open>Constants\<close>

definition REWARD_DIVISOR :: u64 where "REWARD_DIVISOR = 420000"
definition OUTPUT_SATS :: u64 where "OUTPUT_SATS = SPLIT_OUTPUT_SATS"
definition CLAIM_FIXED_BYTES :: u64 where
  "CLAIM_FIXED_BYTES = 4 + 1 + 36 + 3 + 4 + 1 + 104 + 3 * 87 + 4 + 70 + 33 + 3 + 53"
definition MAX_UNLOCKING_BYTES :: nat where "MAX_UNLOCKING_BYTES = 10000"
definition LOCKTIME_THRESHOLD :: u32 where "LOCKTIME_THRESHOLD = 500000000"
definition MAX_PAYOUT_SCRIPT :: nat where "MAX_PAYOUT_SCRIPT = 35"
definition CLAIM_VERSION :: u32 where "CLAIM_VERSION = 2"
definition CLAIM_SEQUENCE :: u32 where "CLAIM_SEQUENCE = 0xfffffffe"
definition MAX_FEE_RATE :: u64 where "MAX_FEE_RATE = 3"
definition MAX_AUX_HEIGHT :: u8 where "MAX_AUX_HEIGHT = 16"
definition MAX_VIRTUAL_SATS :: u64 where "MAX_VIRTUAL_SATS = push_bit 62 1"
definition MAX_THREADS :: u64 where "MAX_THREADS = 63"

section \<open>Deployments\<close>

text \<open>A JSON value as \<open>serde_json\<close> presents it: integers apart from other numbers.\<close>

datatype json = JNull | JBool bool | JInt int | JFloat | JStr string | JArr "json list" | JObj "(string \<times> json) list"

fun as_u64 :: "json \<Rightarrow> u64 option" where
  "as_u64 (JInt i) = (if 0 \<le> i \<and> i < 2 ^ 64 then Some (word_of_int i) else None)"
| "as_u64 _ = None"

fun as_str :: "json \<Rightarrow> string option" where
  "as_str (JStr s) = Some s"
| "as_str _ = None"

fun json_get :: "json \<Rightarrow> string \<Rightarrow> json option" where
  "json_get (JObj kvs) key = map_of kvs key"
| "json_get _ key = None"

text \<open>Indexing gives \<open>Null\<close> where there is no such field.\<close>

definition json_index :: "json \<Rightarrow> string \<Rightarrow> json" where
  "json_index v key = (case json_get v key of Some x \<Rightarrow> x | None \<Rightarrow> JNull)"

definition ascii_lowercase :: "string \<Rightarrow> string" where
  "ascii_lowercase s = map (\<lambda>c. if 65 \<le> (of_char c :: nat) \<and> (of_char c :: nat) \<le> 90 then char_of (of_char c + 32 :: nat) else c) s"

definition utf8_len :: "string \<Rightarrow> nat" where
  "utf8_len s = sum_list (map (\<lambda>c. if (of_char c :: nat) < 128 then 1 else 2) s)"

text \<open>\<open>str::parse::<u64>\<close>.\<close>

definition parse_u64 :: "string \<Rightarrow> u64 option" where
  "parse_u64 s = map_option word_of_nat (parse_digits 64 (if s \<noteq> [] \<and> hd s = CHR ''+'' then tl s else s))"

definition carries :: "bytes \<Rightarrow> bytes \<Rightarrow> bool" where
  "carries hay needle = list_ex (\<lambda>i. take (length needle) (drop i hay) = needle) [0..<Suc (length hay) - length needle]"

record Deployment =
  dp_name :: string
  dp_network :: MiningNetwork
  dp_category :: hash
  dp_threads :: u32
  dp_virtual_sats :: u64
  dp_redeem_script :: bytes
  dp_locking_bytecode :: bytes
  dp_lock_hash :: hash
  dp_fee_k :: u64

datatype deploy_error =
  NotJson | NotObject | BadVersion | MainnetRefused | BadNetwork | BadName | BadCategory | BadThreads | BadVirtualSats
  | BadRedeemScript | FieldMismatch string | NotCarried nat

fun from_json_network :: "json option \<Rightarrow> (deploy_error, MiningNetwork) result" where
  "from_json_network v =
     (case Option.bind v as_str of
        Some s \<Rightarrow> if s = ''chipnet'' then Inr Chipnet else if s = ''mainnet'' then Inl MainnetRefused else Inl BadNetwork
      | None \<Rightarrow> Inl BadNetwork)"

fun from_json_name :: "json option \<Rightarrow> (deploy_error, string) result" where
  "from_json_name None = Inr ''tSAFA''"
| "from_json_name (Some (JStr name)) =
     (if trim name \<noteq> [] \<and> utf8_len name \<le> 32 \<and> \<not> list_ex is_control name then Inr name else Inl BadName)"
| "from_json_name (Some _) = Inl BadName"

definition hex_field :: "(string \<Rightarrow> bytes option) \<Rightarrow> json option \<Rightarrow> bytes option" where
  "hex_field hex_decode v = Option.bind (Option.bind v as_str) (\<lambda>text. hex_decode (trim text))"

definition keep_if :: "('a \<Rightarrow> bool) \<Rightarrow> 'a option \<Rightarrow> 'a option" where
  "keep_if P x = Option.bind x (\<lambda>a. if P a then Some a else None)"

fun virtual_sats_of :: "json option \<Rightarrow> u64 option" where
  "virtual_sats_of (Some (JInt i)) = as_u64 (JInt i)"
| "virtual_sats_of (Some (JStr text)) = (if list_all is_digit text then parse_u64 text else None)"
| "virtual_sats_of _ = None"

definition field_agrees :: "(json \<Rightarrow> bool) \<Rightarrow> json \<Rightarrow> string \<Rightarrow> (deploy_error, unit) result" where
  "field_agrees P v key = (case json_get v key of None \<Rightarrow> Inr () | Some x \<Rightarrow> if P x then Inr () else Inl (FieldMismatch key))"

fun all_carried :: "bytes \<Rightarrow> nat \<Rightarrow> bytes list \<Rightarrow> (deploy_error, unit) result" where
  "all_carried script i [] = Inr ()"
| "all_carried script i (needle # rest) = (if carries script needle then all_carried script (Suc i) rest else Inl (NotCarried i))"

definition from_json ::
  "(bytes \<Rightarrow> bytes) \<Rightarrow> (string \<Rightarrow> json option) \<Rightarrow> (string \<Rightarrow> bytes option) \<Rightarrow> (bytes \<Rightarrow> string) \<Rightarrow> string \<Rightarrow> (deploy_error, Deployment) result" where
  "from_json sha parse_json hex_decode hex_encode text =
     result_bind (ok_or NotJson (parse_json text)) (\<lambda>v.
     result_bind (case v of JObj _ \<Rightarrow> Inr () | _ \<Rightarrow> Inl NotObject) (\<lambda>_.
     if Option.bind (json_get v ''version'') as_u64 \<noteq> Some 1 then Inl BadVersion else
     result_bind (from_json_network (json_get v ''network'')) (\<lambda>network.
     result_bind (from_json_name (json_get v ''name'')) (\<lambda>name.
     result_bind (ok_or BadCategory (keep_if (\<lambda>bs. length bs = 32 \<and> bs \<noteq> replicate 32 0) (hex_field hex_decode (json_get v ''category'')))) (\<lambda>shown.
     let category = rev shown in
     result_bind (ok_or BadThreads (keep_if (\<lambda>n. 1 \<le> n \<and> n \<le> MAX_THREADS) (Option.bind (json_get v ''threads'') as_u64))) (\<lambda>threads.
     result_bind (ok_or BadVirtualSats (keep_if (\<lambda>n. n \<le> MAX_VIRTUAL_SATS) (virtual_sats_of (json_get v ''virtual_sats'')))) (\<lambda>virtual_sats.
     result_bind (ok_or BadRedeemScript (keep_if (\<lambda>bs. bs \<noteq> [] \<and> length bs < MAX_UNLOCKING_BYTES) (hex_field hex_decode (json_get v ''redeem_script'')))) (\<lambda>redeem.
     let locking = [0xaa, 0x20] @ double_sha256 sha redeem @ [0x87];
         lock = double_sha256 sha locking;
         fee_k = CLAIM_FIXED_BYTES + push_prefix_len (length redeem) + word_of_nat (length redeem)
     in
     result_bind (field_agrees (\<lambda>x. as_u64 x = Some fee_k) v ''fee_k'') (\<lambda>_.
     result_bind (field_agrees (\<lambda>x. as_u64 x = Some (word_of_nat (length redeem))) v ''redeem_script_bytes'') (\<lambda>_.
     result_bind (field_agrees (\<lambda>x. map_option ascii_lowercase (as_str x) = Some (hex_encode locking)) v ''locking_bytecode'') (\<lambda>_.
     result_bind (field_agrees (\<lambda>x. map_option ascii_lowercase (as_str x) = Some (hex_encode lock)) v ''lock_hash'') (\<lambda>_.
     result_bind (all_carried redeem 0 [number_push fee_k, number_push virtual_sats, number_push REWARD_DIVISOR,
         [0x05, 0x43, 0x54, 0x4d, 0x50, 0x02]]) (\<lambda>_.
       Inr \<lparr>dp_name = name, dp_network = network, dp_category = category, dp_threads = ucast threads,
            dp_virtual_sats = virtual_sats, dp_redeem_script = redeem, dp_locking_bytecode = locking,
            dp_lock_hash = lock, dp_fee_k = fee_k\<rparr>)))))))))))))"

definition category_display :: "(bytes \<Rightarrow> string) \<Rightarrow> Deployment \<Rightarrow> string" where
  "category_display hex_encode d = hex_encode (rev (dp_category d))"

definition script_hash_hex :: "(bytes \<Rightarrow> bytes) \<Rightarrow> (bytes \<Rightarrow> string) \<Rightarrow> Deployment \<Rightarrow> string" where
  "script_hash_hex sha hex_encode d = hex_encode (rev (sha (dp_locking_bytecode d)))"

section \<open>Vaults\<close>

record Vault =
  va_outpoint :: OutPoint
  va_value :: u64
  va_tokens :: u64
  va_commitment :: bytes
  va_confirmed :: bool

definition vault_state :: "Vault \<Rightarrow> ThreadState option" where
  "vault_state v = state_parse (va_commitment v)"

definition vault_state_hash :: "(bytes \<Rightarrow> bytes) \<Rightarrow> Vault \<Rightarrow> hash" where
  "vault_state_hash sha v = double_sha256 sha (va_commitment v)"

definition vault_thread :: "Vault \<Rightarrow> u32" where
  "vault_thread v = (case vault_state v of None \<Rightarrow> - 1 | Some s \<Rightarrow> th_thread s)"

definition deployment_leaf :: "(bytes \<Rightarrow> bytes) \<Rightarrow> Deployment \<Rightarrow> Vault \<Rightarrow> u32 \<Rightarrow> bytes \<Rightarrow> Split \<Rightarrow> Leaf option" where
  "deployment_leaf sha d vault height payout split =
     Option.bind (vault_state vault) (\<lambda>state.
     Option.bind (keep_if (\<lambda>delta. delta > 0) (checked_sub height (th_height state))) (\<lambda>delta.
     Option.bind (claim_target_bits (th_target_bits state) delta (dp_threads d)) (\<lambda>target_bits.
       Some (leaf_new sha (dp_category d) (dp_lock_hash d) (vault_state_hash sha vault) payout target_bits (split_ext sha split)))))"

datatype list_error = NotAList | IncompleteVault

text \<open>One entry of the answer: \<open>Inr None\<close> where the loop continues with the next.\<close>

definition vault_amount :: "json \<Rightarrow> u64 option" where
  "vault_amount v = (case v of JStr text \<Rightarrow> parse_u64 text | JInt i \<Rightarrow> as_u64 (JInt i) | _ \<Rightarrow> None)"

definition listed_vault ::
  "(string \<Rightarrow> bytes option) \<Rightarrow> (bytes \<Rightarrow> string) \<Rightarrow> Deployment \<Rightarrow> json \<Rightarrow> (list_error, Vault option) result" where
  "listed_vault hex_decode hex_encode d entry =
     (let token = json_index entry ''token_data''
      in if map_option ascii_lowercase (as_str (json_index token ''category'')) \<noteq> Some (category_display hex_encode d)
            \<or> as_str (json_index (json_index token ''nft'') ''capability'') \<noteq> Some ''mutable'' then Inr None
         else case keep_if (\<lambda>bs. length bs = STATE_LEN)
                (Option.bind (as_str (json_index (json_index token ''nft'') ''commitment'')) hex_decode) of
                None \<Rightarrow> Inr None
              | Some commitment \<Rightarrow>
                  (case state_parse commitment of
                     None \<Rightarrow> Inr None
                   | Some state \<Rightarrow>
                       if th_thread state \<ge> dp_threads d then Inr None
                       else case (vault_amount (json_index token ''amount''),
                                  keep_if (\<lambda>bs. length bs = 32) (Option.bind (as_str (json_index entry ''tx_hash'')) hex_decode),
                                  keep_if (\<lambda>n. unat n < 2 ^ 32) (as_u64 (json_index entry ''tx_pos'')),
                                  as_u64 (json_index entry ''value'')) of
                              (Some tokens, Some txid, Some vout, Some sats) \<Rightarrow>
                                Inr (Some \<lparr>va_outpoint = \<lparr>op_txid = rev txid, op_vout = ucast vout\<rparr>, va_value = sats,
                                  va_tokens = tokens, va_commitment = commitment,
                                  va_confirmed = (case json_index entry ''height'' of JInt h \<Rightarrow> - (2 ^ 63) \<le> h \<and> h < 2 ^ 63 \<and> h > 0 | _ \<Rightarrow> False)\<rparr>)
                            | _ \<Rightarrow> Inl IncompleteVault))"

fun put_vault :: "Vault \<Rightarrow> Vault list \<Rightarrow> Vault list" where
  "put_vault v [] = [v]"
| "put_vault v (known # rest) =
     (if vault_thread known = vault_thread v
      then (case (vault_state known, vault_state v) of
              (Some k, Some s) \<Rightarrow> if th_height k < th_height s then v # rest else known # rest
            | _ \<Rightarrow> known # rest)
      else known # put_vault v rest)"

fun list_vaults ::
  "(string \<Rightarrow> bytes option) \<Rightarrow> (bytes \<Rightarrow> string) \<Rightarrow> Deployment \<Rightarrow> json list \<Rightarrow> Vault list \<Rightarrow> (list_error, Vault list) result" where
  "list_vaults hex_decode hex_encode d [] vaults = Inr vaults"
| "list_vaults hex_decode hex_encode d (entry # rest) vaults =
     result_bind (listed_vault hex_decode hex_encode d entry) (\<lambda>found.
       list_vaults hex_decode hex_encode d rest (case found of None \<Rightarrow> vaults | Some v \<Rightarrow> put_vault v vaults))"

definition vaults_from_listunspent ::
  "(string \<Rightarrow> bytes option) \<Rightarrow> (bytes \<Rightarrow> string) \<Rightarrow> Deployment \<Rightarrow> json \<Rightarrow> (list_error, Vault list) result" where
  "vaults_from_listunspent hex_decode hex_encode d unspent =
     (case unspent of
        JArr entries \<Rightarrow> result_bind (list_vaults hex_decode hex_encode d entries []) (\<lambda>vaults. Inr (sort_key (\<lambda>v. unat (vault_thread v)) vaults))
      | _ \<Rightarrow> Inl NotAList)"

section \<open>Deployments are well formed\<close>

definition deployment_wf :: "Deployment \<Rightarrow> bool" where
  "deployment_wf d \<longleftrightarrow> length (dp_category d) = 32 \<and> length (dp_locking_bytecode d) = 35 \<and> length (dp_redeem_script d) < MAX_UNLOCKING_BYTES \<and>
     dp_fee_k d = CLAIM_FIXED_BYTES + push_prefix_len (length (dp_redeem_script d)) + word_of_nat (length (dp_redeem_script d))"

lemma keep_if_Some: "keep_if P x = Some a \<longleftrightarrow> x = Some a \<and> P a"
  by (cases x) (auto simp: keep_if_def)

lemma guard_Inr: "(if P then Inl e else r) = Inr a \<longleftrightarrow> \<not> P \<and> r = Inr a"
  by simp

lemma all_carried_Inr: "all_carried script i needles = Inr () \<longleftrightarrow> list_all (carries script) needles"
  by (induction script i needles rule: all_carried.induct) auto

lemma ex_unit: "(\<exists>u :: unit. P u) \<longleftrightarrow> P ()"
  by auto

lemma from_json_sound:
  assumes sha: "hash32 sha" and "from_json sha parse_json hex_decode hex_encode text = Inr d"
  shows "deployment_wf d \<and> dp_network d = Chipnet \<and> 1 \<le> unat (dp_threads d) \<and> unat (dp_threads d) \<le> 63 \<and> dp_virtual_sats d \<le> MAX_VIRTUAL_SATS \<and>
    dp_locking_bytecode d = [0xaa, 0x20] @ double_sha256 sha (dp_redeem_script d) @ [0x87] \<and>
    dp_lock_hash d = double_sha256 sha (dp_locking_bytecode d) \<and> dp_category d \<noteq> replicate 32 0 \<and>
    list_all (carries (dp_redeem_script d)) [number_push (dp_fee_k d), number_push (dp_virtual_sats d), number_push REWARD_DIVISOR]"
proof -
  have net: "from_json_network v = Inr n \<Longrightarrow> n = Chipnet" for v n by (auto split: option.splits if_splits)
  from assms(2) obtain n threads vs redeem name shown where
    F: "from_json_network n = Inr (dp_network d)" "length shown = 32" "shown \<noteq> replicate 32 0" "1 \<le> threads" "threads \<le> MAX_THREADS" "vs \<le> MAX_VIRTUAL_SATS"
    "redeem \<noteq> []" "length redeem < MAX_UNLOCKING_BYTES"
    "all_carried redeem 0 [number_push (CLAIM_FIXED_BYTES + push_prefix_len (length redeem) + word_of_nat (length redeem)),
       number_push vs, number_push REWARD_DIVISOR, [0x05, 0x43, 0x54, 0x4d, 0x50, 0x02]] = Inr ()"
    and d: "dp_category d = rev shown" "dp_threads d = ucast threads" "dp_virtual_sats d = vs" "dp_redeem_script d = redeem"
    "dp_locking_bytecode d = [0xaa, 0x20] @ double_sha256 sha redeem @ [0x87]"
    "dp_lock_hash d = double_sha256 sha ([0xaa, 0x20] @ double_sha256 sha redeem @ [0x87])"
    "dp_fee_k d = CLAIM_FIXED_BYTES + push_prefix_len (length redeem) + word_of_nat (length redeem)"
    unfolding from_json_def guard_Inr result_bind_Inr_iff Let_def ok_or_Inr_iff keep_if_Some sum.inject ex_unit
    by (elim exE conjE, hypsubst) (simp only: Deployment.select_convs; blast)
  have "unat threads \<le> 63" "1 \<le> unat threads" using F(4,5) by (simp_all add: word_le_nat_alt MAX_THREADS_def)
  then have t: "1 \<le> unat (dp_threads d)" "unat (dp_threads d) \<le> 63" by (simp_all add: d unat_ucast)
  have c: "dp_category d \<noteq> replicate 32 0" using F(3) by (metis d(1) rev_replicate rev_rev_ident)
  have "list_all (carries redeem) [number_push (CLAIM_FIXED_BYTES + push_prefix_len (length redeem) + word_of_nat (length redeem)),
       number_push vs, number_push REWARD_DIVISOR]" using F(9) unfolding all_carried_Inr by simp
  then show ?thesis using F t c d net [OF F(1)]
    by (simp add: deployment_wf_def double_sha256_def hash32.length_sha [OF sha])
qed

section \<open>Listed vaults\<close>

definition vault_listed :: "Deployment \<Rightarrow> Vault \<Rightarrow> bool" where
  "vault_listed d v \<longleftrightarrow> length (va_commitment v) = 16 \<and> length (op_txid (va_outpoint v)) = 32 \<and> vault_thread v < dp_threads d"

lemma vault_state_Some: "length (va_commitment v) = 16 \<Longrightarrow> \<exists>s. vault_state v = Some s"
  by (simp add: vault_state_def state_parse_def STATE_LEN_def)

lemma listed_vault_Some: "listed_vault hex_decode hex_encode d entry = Inr (Some v) \<Longrightarrow> vault_listed d v"
  unfolding listed_vault_def Let_def vault_listed_def
  by (auto simp: keep_if_Some vault_thread_def vault_state_def STATE_LEN_def not_le split: if_splits option.splits)

text \<open>The state height a list knows for a thread.\<close>

definition state_height :: "Vault \<Rightarrow> nat" where
  "state_height v = (case vault_state v of None \<Rightarrow> 0 | Some s \<Rightarrow> unat (th_height s))"

lemma put_vault_spec:
  assumes "list_all (vault_listed d) vaults" and "vault_listed d v" and "distinct (map vault_thread vaults)"
  shows "list_all (vault_listed d) (put_vault v vaults)" and "distinct (map vault_thread (put_vault v vaults))"
    and "set (map vault_thread (put_vault v vaults)) = insert (vault_thread v) (set (map vault_thread vaults))"
    and "\<exists>u\<in>set (put_vault v vaults). vault_thread u = vault_thread v \<and> state_height v \<le> state_height u"
    and "\<forall>w\<in>set vaults. \<exists>u\<in>set (put_vault v vaults). vault_thread u = vault_thread w \<and> state_height w \<le> state_height u"
proof -
  have "list_all (vault_listed d) (put_vault v vaults) \<and> distinct (map vault_thread (put_vault v vaults)) \<and>
    set (map vault_thread (put_vault v vaults)) = insert (vault_thread v) (set (map vault_thread vaults)) \<and>
    (\<exists>u\<in>set (put_vault v vaults). vault_thread u = vault_thread v \<and> state_height v \<le> state_height u) \<and>
    (\<forall>w\<in>set vaults. \<exists>u\<in>set (put_vault v vaults). vault_thread u = vault_thread w \<and> state_height w \<le> state_height u)"
    using assms
  proof (induction v vaults rule: put_vault.induct)
    case (2 v known rest)
    obtain k s where ks: "vault_state known = Some k" "vault_state v = Some s"
      using 2(2,3) vault_state_Some [of known] vault_state_Some [of v] by (auto simp: vault_listed_def)
    then have h: "state_height known = unat (th_height k)" "state_height v = unat (th_height s)" by (simp_all add: state_height_def)
    show ?case
    proof (cases "vault_thread known = vault_thread v")
      case True
      then show ?thesis using 2(2-4) ks h by (cases "th_height k < th_height s") (auto simp: word_less_nat_alt not_less)
    next
      case False
      then show ?thesis using 2 by auto
    qed
  qed simp
  then show "list_all (vault_listed d) (put_vault v vaults)" "distinct (map vault_thread (put_vault v vaults))"
    "set (map vault_thread (put_vault v vaults)) = insert (vault_thread v) (set (map vault_thread vaults))"
    "\<exists>u\<in>set (put_vault v vaults). vault_thread u = vault_thread v \<and> state_height v \<le> state_height u"
    "\<forall>w\<in>set vaults. \<exists>u\<in>set (put_vault v vaults). vault_thread u = vault_thread w \<and> state_height w \<le> state_height u"
    by blast+
qed

lemma list_vaults_spec:
  assumes "list_vaults hex_decode hex_encode d entries vaults = Inr out"
    and "list_all (vault_listed d) vaults" and "distinct (map vault_thread vaults)"
  shows "list_all (vault_listed d) out \<and> distinct (map vault_thread out) \<and>
    (\<forall>w\<in>set vaults. \<exists>u\<in>set out. vault_thread u = vault_thread w \<and> state_height w \<le> state_height u) \<and>
    (\<forall>entry\<in>set entries. \<forall>w. listed_vault hex_decode hex_encode d entry = Inr (Some w) \<longrightarrow>
       (\<exists>u\<in>set out. vault_thread u = vault_thread w \<and> state_height w \<le> state_height u))"
  using assms
proof (induction hex_decode hex_encode d entries vaults rule: list_vaults.induct)
  case (2 hex_decode hex_encode d entry rest vaults)
  from 2(2) obtain found where f: "listed_vault hex_decode hex_encode d entry = Inr found"
    and l: "list_vaults hex_decode hex_encode d rest (case found of None \<Rightarrow> vaults | Some v \<Rightarrow> put_vault v vaults) = Inr out"
    by (auto simp: result_bind_Inr_iff)
  show ?case
  proof (cases found)
    case None
    then show ?thesis using 2(1) [OF f] l f 2(3,4) by auto
  next
    case (Some v)
    note S = put_vault_spec [OF 2(3) listed_vault_Some [OF f [unfolded Some]] 2(4)]
    have IH: "list_all (vault_listed d) out \<and> distinct (map vault_thread out) \<and>
      (\<forall>w\<in>set (put_vault v vaults). \<exists>u\<in>set out. vault_thread u = vault_thread w \<and> state_height w \<le> state_height u) \<and>
      (\<forall>entry\<in>set rest. \<forall>w. listed_vault hex_decode hex_encode d entry = Inr (Some w) \<longrightarrow>
       (\<exists>u\<in>set out. vault_thread u = vault_thread w \<and> state_height w \<le> state_height u))"
      using 2(1) [OF f] l S(1,2) Some by simp
    have up: "\<exists>u\<in>set out. vault_thread u = vault_thread w \<and> state_height w \<le> state_height u"
      if "\<exists>u\<in>set (put_vault v vaults). vault_thread u = vault_thread w \<and> state_height w \<le> state_height u" for w
      using that IH by (metis order_trans)
    show ?thesis using IH up S(4,5) f Some by auto
  qed
qed auto

section \<open>Properties\<close>

text \<open>A deployment file that loads gives a sound deployment: a Chipnet covenant of 1 to 63 threads whose lock is the
  P2SH32 of its redeem script, whose virtual reserve is at most \<open>2^62\<close>, whose fee constant is the claim's fixed bytes
  plus the redeem script's push, and whose redeem script carries that constant, the reserve and the reward divisor
  as minimal pushes.\<close>

theorem loaded_deployment_is_sound:
  assumes "hash32 sha" and "from_json sha parse_json hex_decode hex_encode text = Inr d"
  shows "deployment_wf d \<and> dp_network d = Chipnet \<and> 1 \<le> unat (dp_threads d) \<and> unat (dp_threads d) \<le> 63 \<and> dp_virtual_sats d \<le> MAX_VIRTUAL_SATS \<and>
    dp_locking_bytecode d = [0xaa, 0x20] @ double_sha256 sha (dp_redeem_script d) @ [0x87] \<and>
    dp_lock_hash d = double_sha256 sha (dp_locking_bytecode d) \<and> dp_category d \<noteq> replicate 32 0 \<and>
    list_all (carries (dp_redeem_script d)) [number_push (dp_fee_k d), number_push (dp_virtual_sats d), number_push REWARD_DIVISOR]"
  by (rule from_json_sound [OF assms])

text \<open>A deployment file of one thread: its redeem script holds nothing but the four pushes.\<close>

definition demo_redeem :: bytes where
  "demo_redeem = number_push 595 @ number_push 7 @ number_push 420000 @ [0x05, 0x43, 0x54, 0x4d, 0x50, 0x02] @ [0x61, 0x61, 0x61]"

definition demo_json :: json where
  "demo_json = JObj [(''version'', JInt 1), (''network'', JStr ''chipnet''), (''category'', JStr ''c''), (''threads'', JInt 1),
     (''virtual_sats'', JInt 7), (''redeem_script'', JStr ''r'')]"

definition demo_hex :: "string \<Rightarrow> bytes option" where
  "demo_hex s = (if s = ''c'' then Some (replicate 32 1) else if s = ''r'' then Some demo_redeem else None)"

lemma to_le_bytes_u64: "to_le_bytes (w :: u64) = (let n = unat w in
    [word_of_nat n, word_of_nat (n div 256), word_of_nat (n div 256 div 256), word_of_nat (n div 256 div 256 div 256),
     word_of_nat (n div 256 div 256 div 256 div 256), word_of_nat (n div 256 div 256 div 256 div 256 div 256),
     word_of_nat (n div 256 div 256 div 256 div 256 div 256 div 256), word_of_nat (n div 256 div 256 div 256 div 256 div 256 div 256 div 256)])"
proof -
  have "LENGTH(64) div 8 = Suc (Suc (Suc (Suc (Suc (Suc (Suc (Suc 0)))))))" "(2 :: nat) ^ LENGTH(8) = 256" by simp_all
  then show ?thesis unfolding to_le_bytes_def Let_def by (simp only: nat_le.simps)
qed

lemma demo_redeem_bytes:
  "number_push 595 = [2, 0x53, 0x02]" "number_push 7 = [0x57]" "number_push 420000 = [3, 0xa0, 0x68, 0x06]"
  by (simp_all add: number_push_def to_le_bytes_u64 strip_zeros_def push_def word_le_nat_alt)

lemma demo_deployment: "\<exists>d. from_json zero_sha (\<lambda>_. Some demo_json) demo_hex (\<lambda>_. []) [] = Inr d"
proof -
  have r: "demo_redeem = [2, 0x53, 0x02, 0x57, 3, 0xa0, 0x68, 0x06, 0x05, 0x43, 0x54, 0x4d, 0x50, 0x02, 0x61, 0x61, 0x61]"
    by (simp add: demo_redeem_def demo_redeem_bytes)
  have k: "CLAIM_FIXED_BYTES + push_prefix_len (length demo_redeem) + word_of_nat (length demo_redeem) = 595"
    by (simp add: r CLAIM_FIXED_BYTES_def push_prefix_len_def)
  have c: "carries demo_redeem (number_push 595)" "carries demo_redeem (number_push 7)" "carries demo_redeem (number_push REWARD_DIVISOR)"
    "carries demo_redeem [0x05, 0x43, 0x54, 0x4d, 0x50, 0x02]"
    unfolding demo_redeem_bytes REWARD_DIVISOR_def by (simp_all add: r carries_def list_ex_iff)
  have g: "json_get demo_json ''version'' = Some (JInt 1)" "json_get demo_json ''network'' = Some (JStr ''chipnet'')"
    "json_get demo_json ''name'' = None" "json_get demo_json ''category'' = Some (JStr ''c'')" "json_get demo_json ''threads'' = Some (JInt 1)"
    "json_get demo_json ''virtual_sats'' = Some (JInt 7)" "json_get demo_json ''redeem_script'' = Some (JStr ''r'')"
    "json_get demo_json ''fee_k'' = None" "json_get demo_json ''redeem_script_bytes'' = None"
    "json_get demo_json ''locking_bytecode'' = None" "json_get demo_json ''lock_hash'' = None"
    by (simp_all add: demo_json_def)
  have t: "trim ''c'' = ''c''" "trim ''r'' = ''r''" by (simp_all add: trim_def is_space_def)
  have h: "demo_hex ''c'' = Some (replicate 32 1)" "demo_hex ''r'' = Some demo_redeem" by (simp_all add: demo_hex_def)
  have n: "replicate 32 (1 :: u8) \<noteq> replicate 32 0" by simp
  have rl: "demo_redeem \<noteq> []" "length demo_redeem < MAX_UNLOCKING_BYTES" by (simp_all add: r MAX_UNLOCKING_BYTES_def)
  have w: "(1 :: u64) \<le> MAX_THREADS" "(7 :: u64) \<le> MAX_VIRTUAL_SATS" by (simp_all add: MAX_THREADS_def MAX_VIRTUAL_SATS_def word_le_nat_alt)
  have obj: "(case demo_json of JObj _ \<Rightarrow> Inr () | _ \<Rightarrow> Inl NotObject) = (Inr () :: (deploy_error, unit) result)" by (simp add: demo_json_def)
  show ?thesis
    unfolding from_json_def using n rl w
    by (simp add: obj g ok_or_def hex_field_def t h keep_if_def field_agrees_def Let_def k c)
qed

theorem loaded_deployment_is_sound_witness:
  "\<exists>d. from_json zero_sha (\<lambda>_. Some demo_json) demo_hex (\<lambda>_. []) [] = Inr d \<and> deployment_wf d \<and> unat (dp_threads d) \<le> 63"
  using demo_deployment loaded_deployment_is_sound [OF zero_sha_hash32] by blast

text \<open>The vaults read from Fulcrum's listing are one per thread, in thread order: each is a 16-byte state of a
  thread of the deployment with a 32-byte outpoint, no thread is listed twice, and every vault the answer lists is
  covered by one of its thread whose state is at least as high.\<close>

theorem vaults_are_one_per_thread:
  assumes "vaults_from_listunspent hex_decode hex_encode d (JArr entries) = Inr vaults"
  shows "sorted_wrt (<) (map (\<lambda>v. unat (vault_thread v)) vaults) \<and> list_all (vault_listed d) vaults \<and>
    (\<forall>entry\<in>set entries. \<forall>w. listed_vault hex_decode hex_encode d entry = Inr (Some w) \<longrightarrow>
       (\<exists>u\<in>set vaults. vault_thread u = vault_thread w \<and> state_height w \<le> state_height u))"
proof -
  obtain found where f: "list_vaults hex_decode hex_encode d entries [] = Inr found" "vaults = sort_key (\<lambda>v. unat (vault_thread v)) found"
    using assms by (auto simp: vaults_from_listunspent_def result_bind_Inr_iff)
  note S = list_vaults_spec [OF f(1)]
  have "distinct (map (\<lambda>v. unat (vault_thread v)) found)" using S by (auto simp: distinct_map inj_on_def simp flip: word_unat_eq_iff)
  then have "distinct (map (\<lambda>v. unat (vault_thread v)) vaults)" "sorted (map (\<lambda>v. unat (vault_thread v)) vaults)"
    by (simp_all add: f(2) distinct_map)
  then have "sorted_wrt (<) (map (\<lambda>v. unat (vault_thread v)) vaults)" by (simp add: strict_sorted_iff)
  moreover have "set vaults = set found" by (simp add: f(2))
  ultimately show ?thesis using S by (auto simp: list_all_iff)
qed

definition demo_entry_json :: json where
  "demo_entry_json = JObj [(''token_data'', JObj [(''category'', JStr ''AA''), (''amount'', JStr ''420000''),
      (''nft'', JObj [(''capability'', JStr ''mutable''), (''commitment'', JStr ''s'')])]),
    (''tx_hash'', JStr ''t''), (''tx_pos'', JInt 0), (''value'', JInt 1000), (''height'', JInt 3)]"

definition demo_list_hex :: "string \<Rightarrow> bytes option" where
  "demo_list_hex s = (if s = ''s'' then Some (replicate 16 0) else if s = ''t'' then Some (replicate 32 2) else None)"

definition demo_small :: Deployment where
  "demo_small = \<lparr>dp_name = ''tSAFA'', dp_network = Chipnet, dp_category = replicate 32 1, dp_threads = 1, dp_virtual_sats = 7,
     dp_redeem_script = [0x51], dp_locking_bytecode = replicate 35 0, dp_lock_hash = replicate 32 0, dp_fee_k = 579\<rparr>"

lemma demo_listed:
  "\<exists>v. listed_vault demo_list_hex (\<lambda>_. ''aa'') demo_small demo_entry_json = Inr (Some v) \<and> va_value v = 1000"
proof -
  have s: "state_parse (replicate 16 0) = Some \<lparr>th_thread = 0, th_height = 0, th_target_bits = 0, th_ref_bits = 0\<rparr>"
    by (simp add: state_parse_def STATE_LEN_def subrange_def from_le_bytes_def)
  have p: "parse_u64 ''420000'' = Some 420000"
    by (simp add: parse_u64_def parse_digits_def is_digit_def digits_value_def digit_def)
  have "char_of (97 :: nat) = CHR ''a''" using char_of_char [of "CHR ''a''", where ?'a = nat] by simp
  then have l: "ascii_lowercase ''AA'' = ''aa''" by (simp add: ascii_lowercase_def)
  have h: "demo_list_hex ''s'' = Some (replicate 16 0)" "demo_list_hex ''t'' = Some (replicate 32 2)" by (simp_all add: demo_list_hex_def)
  have i: "json_index demo_entry_json ''token_data'' = JObj [(''category'', JStr ''AA''), (''amount'', JStr ''420000''),
      (''nft'', JObj [(''capability'', JStr ''mutable''), (''commitment'', JStr ''s'')])]"
    "json_index demo_entry_json ''tx_hash'' = JStr ''t''" "json_index demo_entry_json ''tx_pos'' = JInt 0"
    "json_index demo_entry_json ''value'' = JInt 1000" "json_index demo_entry_json ''height'' = JInt 3"
    by (simp_all add: json_index_def demo_entry_json_def)
  show ?thesis unfolding listed_vault_def Let_def i
    by (simp add: json_index_def l h s p keep_if_def STATE_LEN_def category_display_def vault_amount_def demo_small_def)
qed

theorem vaults_are_one_per_thread_witness:
  "\<exists>vaults u. vaults_from_listunspent demo_list_hex (\<lambda>_. ''aa'') demo_small (JArr [demo_entry_json]) = Inr vaults \<and> u \<in> set vaults"
proof -
  obtain v where v: "listed_vault demo_list_hex (\<lambda>_. ''aa'') demo_small demo_entry_json = Inr (Some v)" using demo_listed by blast
  then have l: "vaults_from_listunspent demo_list_hex (\<lambda>_. ''aa'') demo_small (JArr [demo_entry_json]) = Inr [v]"
    by (simp add: vaults_from_listunspent_def)
  from vaults_are_one_per_thread [OF l] v l show ?thesis by auto
qed

end
