(* ===== verification/Claim.thy ===== *)
theory Claim
  imports Vaults
begin

text \<open>
  The claim of a tSAFA win, from \<open>src/stratum_v2/merge/safa_auxpow.rs\<close>: its plan, the transaction built from the plan and
  the independent check of a claim's bytes against the covenant's rules.
\<close>

section \<open>Plans\<close>

record ClaimTerms =
  ct_payout :: bytes
  ct_split :: Split
  ct_donation :: "bytes option"
  ct_fee :: "bytes option"

record ClaimPlan =
  cp_height :: u32
  cp_height_delta :: u32
  cp_target_bits :: u32
  cp_leaf :: Leaf
  cp_reward :: u64
  cp_shares :: Shares
  cp_outputs :: "(u64 \<times> bytes) list"
  cp_next_state :: bytes
  cp_size_bound :: u64
  cp_fee :: u64
  cp_vault_value :: u64
  cp_locktime :: u32

record Claim =
  cl_raw :: bytes
  cl_txid :: string
  cl_plan :: ClaimPlan

datatype claim_error =
  FeeRate | BadScript Role | NoScript Role | BadProof ProofError | NoHeight | LockTimeDomain | BadState | NotNewer | BadTarget
  | HeaderBand | NoReward | ShareWithoutScript | CannotPay | VaultTooSmall | BadLockTime | UnlockingTooLong | TooLarge
  | BadTransaction tx_error | NotAlone | NotTheVaultInput | BadPushes | OtherCovenant | BadPayoutHash | NoOutputs | NotTheVault
  | UnchangedState | BadSplit SplitError | WrongNextState | WrongTokens | WrongOutputs SplitError | LongScript | WrongFee

definition dust :: "nat \<Rightarrow> u64" where
  "dust n = 3 * (word_of_nat n + 148)"

definition vault_floor :: "nat \<Rightarrow> u64" where
  "vault_floor n = max (dust n) OUTPUT_SATS"

definition vault_output :: "Deployment \<Rightarrow> u64 \<Rightarrow> u64 \<Rightarrow> bytes \<Rightarrow> bytes" where
  "vault_output d value tokens state = tx_output value (token_prefix (dp_category d) (Some state) tokens @ dp_locking_bytecode d)"

definition bad_script :: "bytes \<Rightarrow> bool" where
  "bad_script script \<longleftrightarrow> script = [] \<or> length script > MAX_PAYOUT_SCRIPT"

definition slot_script :: "(bytes \<Rightarrow> bytes) \<Rightarrow> Slot \<Rightarrow> bytes option \<Rightarrow> Role \<Rightarrow> (claim_error, bytes option) result" where
  "slot_script sha sl script what =
     (if slot_is_empty sl then Inr None
      else case script of
             Some s \<Rightarrow> if double_sha256 sha s = sl_script_hash sl then Inr (Some s) else Inl (NoScript what)
           | None \<Rightarrow> Inl (NoScript what))"

text \<open>\<open>collect::<Option<_>>\<close> of the shares that are not zero.\<close>

fun share_outputs :: "(u64 \<times> bytes option) list \<Rightarrow> (u64 \<times> bytes) list option" where
  "share_outputs [] = Some []"
| "share_outputs ((amount, script) # rest) =
     (if amount > 0 then Option.bind script (\<lambda>s. map_option (\<lambda>outs. (amount, s) # outs) (share_outputs rest))
      else share_outputs rest)"

definition of_proof :: "(ProofError, 'a) result \<Rightarrow> (claim_error, 'a) result" where
  "of_proof r = (case r of Inl e \<Rightarrow> Inl (BadProof e) | Inr a \<Rightarrow> Inr a)"

definition of_tx :: "(tx_error, 'a) result \<Rightarrow> (claim_error, 'a) result" where
  "of_tx r = (case r of Inl e \<Rightarrow> Inl (BadTransaction e) | Inr a \<Rightarrow> Inr a)"

definition plan_claim ::
  "(bytes \<Rightarrow> bytes) \<Rightarrow> Deployment \<Rightarrow> Vault \<Rightarrow> bytes \<Rightarrow> ClaimTerms \<Rightarrow> u64 \<Rightarrow> u32 option \<Rightarrow> (claim_error, ClaimPlan) result" where
  "plan_claim sha d vault pf terms fee_rate lock =
     (if \<not> (1 \<le> fee_rate \<and> fee_rate \<le> MAX_FEE_RATE) then Inl FeeRate
      else if bad_script (ct_payout terms) then Inl (BadScript Miner)
      else if (case ct_donation terms of Some s \<Rightarrow> bad_script s | None \<Rightarrow> False) then Inl (BadScript Donation)
      else if (case ct_fee terms of Some s \<Rightarrow> bad_script s | None \<Rightarrow> False) then Inl (BadScript Fee)
      else
        result_bind (slot_script sha (sp_donation (ct_split terms)) (ct_donation terms) Donation) (\<lambda>donation.
        result_bind (slot_script sha (sp_fee (ct_split terms)) (ct_fee terms) Fee) (\<lambda>fee_script.
        result_bind (of_proof (from_bytes pf)) (\<lambda>parsed.
        result_bind (ok_or NoHeight (coinbase_height (ap_cb_head parsed))) (\<lambda>long_height.
        result_bind (ok_or LockTimeDomain (keep_if (\<lambda>h. h < LOCKTIME_THRESHOLD)
            (if unat long_height < 2 ^ 32 then Some (ucast long_height) else None))) (\<lambda>height.
        result_bind (ok_or BadState (vault_state vault)) (\<lambda>state.
        if th_height state \<ge> height then Inl NotNewer else
        let height_delta = height - th_height state in
        result_bind (ok_or BadTarget (claim_target_bits (th_target_bits state) height_delta (dp_threads d))) (\<lambda>target_bits.
        let leaf = leaf_new sha (dp_category d) (dp_lock_hash d) (vault_state_hash sha vault) (ct_payout terms) target_bits
              (split_ext sha (ct_split terms)) in
        result_bind (of_proof (verify_leaf sha parsed leaf MAX_AUX_HEIGHT)) (\<lambda>_.
        if \<not> bch_header (dp_network d) (ap_header parsed) height state then Inl HeaderBand else
        let reward = va_tokens vault div REWARD_DIVISOR in
        if reward = 0 then Inl NoReward else
        let amm = \<lparr>amm_cash = va_value vault, amm_virtual_sats = dp_virtual_sats d, amm_tokens = va_tokens vault\<rparr>;
            shr = claim_shares (ct_split terms) reward amm in
        result_bind (ok_or ShareWithoutScript (share_outputs [(sh_miner shr, Some (ct_payout terms)), (sh_donation shr, donation), (sh_fee shr, fee_script)]))
          (\<lambda>outputs.
        let next_state = state_encode \<lparr>th_thread = th_thread state, th_height = height, th_target_bits = target_bits,
              th_ref_bits = header_bits (ap_header parsed)\<rparr>;
            size_bound = dp_fee_k d + word_of_nat (length pf);
            fee = fee_rate * size_bound in
        result_bind (ok_or CannotPay (checked_sub (va_value vault) (fee + OUTPUT_SATS * word_of_nat (length outputs)))) (\<lambda>vault_value.
        if vault_value < vault_floor (length (vault_output d vault_value (va_tokens vault - reward) next_state)) then Inl VaultTooSmall else
        let locktime = (case lock of Some l \<Rightarrow> l | None \<Rightarrow> height) in
        if locktime < height \<or> locktime \<ge> LOCKTIME_THRESHOLD then Inl BadLockTime else
        Inr \<lparr>cp_height = height, cp_height_delta = height_delta, cp_target_bits = target_bits, cp_leaf = leaf, cp_reward = reward,
             cp_shares = shr, cp_outputs = outputs, cp_next_state = next_state, cp_size_bound = size_bound, cp_fee = fee,
             cp_vault_value = vault_value, cp_locktime = locktime\<rparr>)))))))))))"

section \<open>The check\<close>

definition output_seen :: "(bytes \<Rightarrow> bytes) \<Rightarrow> TxOutput \<Rightarrow> TokenOutput" where
  "output_seen sha out =
     \<lparr>to_sats = tx_value out, to_script_hash = double_sha256 sha (tx_locking out),
      to_category = (case tx_category out of Some c \<Rightarrow> c | None \<Rightarrow> replicate 32 0),
      to_nft = map_option fst (tx_nft out), to_amount = tx_amount out\<rparr>"

definition preimage_split :: "bytes \<Rightarrow> (claim_error, Split) result" where
  "preimage_split preimage =
     (if preimage = [] then Inr NO_SPLIT else (case split_parse preimage of Inl e \<Rightarrow> Inl (BadSplit e) | Inr s \<Rightarrow> Inr s))"

text \<open>The covenant's rules on what a claim's bytes show: its pushes, the vault's output and the outputs after it.\<close>

definition check_rules ::
  "(bytes \<Rightarrow> bytes) \<Rightarrow> Deployment \<Rightarrow> Vault \<Rightarrow> nat \<Rightarrow> u32 \<Rightarrow> u32 \<Rightarrow> bytes \<Rightarrow> hash \<Rightarrow> bytes \<Rightarrow> TxOutput \<Rightarrow> TxOutput list
   \<Rightarrow> (claim_error, unit) result" where
  "check_rules sha d vault raw_len sequence locktime preimage payout_hash pf vault_out rest =
     (let next = (case tx_nft vault_out of Some (_, commitment) \<Rightarrow> commitment | None \<Rightarrow> []) in
      if next = va_commitment vault then Inl UnchangedState else
      result_bind (ok_or BadState (vault_state vault)) (\<lambda>state.
      result_bind (of_proof (from_bytes pf)) (\<lambda>parsed.
      result_bind (ok_or NoHeight (keep_if (\<lambda>h. h < ucast LOCKTIME_THRESHOLD) (coinbase_height (ap_cb_head parsed)))) (\<lambda>long_height.
      let height = ucast long_height :: u32 in
      if sequence = - 1 \<or> locktime < height \<or> locktime \<ge> LOCKTIME_THRESHOLD then Inl BadLockTime else
      if th_height state \<ge> height then Inl NotNewer else
      let delta = height - th_height state in
      result_bind (ok_or BadTarget (claim_target_bits (th_target_bits state) delta (dp_threads d))) (\<lambda>target_bits.
      result_bind (preimage_split preimage) (\<lambda>split.
      let leaf = \<lparr>lf_category = dp_category d, lf_lock_hash = dp_lock_hash d, lf_state_hash = vault_state_hash sha vault,
            lf_payout_hash = payout_hash, lf_target_bits = target_bits, lf_ext = split_ext sha split\<rparr> in
      result_bind (of_proof (verify_leaf sha parsed leaf MAX_AUX_HEIGHT)) (\<lambda>_.
      if \<not> bch_header (dp_network d) (ap_header parsed) height state then Inl HeaderBand else
      let expected_next = state_encode \<lparr>th_thread = th_thread state, th_height = height, th_target_bits = target_bits,
            th_ref_bits = header_bits (ap_header parsed)\<rparr> in
      if next \<noteq> expected_next then Inl WrongNextState else
      let reward = va_tokens vault div REWARD_DIVISOR in
      if reward = 0 \<or> tx_amount vault_out \<noteq> va_tokens vault - reward then Inl WrongTokens else
      let shr = claim_shares split reward
            \<lparr>amm_cash = va_value vault, amm_virtual_sats = dp_virtual_sats d, amm_tokens = va_tokens vault\<rparr>;
          expected = expected_outputs split payout_hash shr in
      result_bind (case check_claim_outputs expected (map (output_seen sha) rest) (dp_category d) of
          Inl e \<Rightarrow> Inl (WrongOutputs e) | Inr _ \<Rightarrow> Inr ()) (\<lambda>_.
      if list_ex (\<lambda>out. length (tx_locking out) > MAX_PAYOUT_SCRIPT) rest then Inl LongScript else
      let size_bound = dp_fee_k d + word_of_nat (length pf);
          paid = OUTPUT_SATS * word_of_nat (length expected);
          fee = Option.bind (checked_sub (va_value vault) (tx_value vault_out)) (\<lambda>left. checked_sub left paid) in
      if \<not> (case fee of Some f \<Rightarrow> size_bound \<le> f \<and> f \<le> MAX_FEE_RATE * size_bound | None \<Rightarrow> False) then Inl WrongFee else
      if (word_of_nat raw_len :: u64) > size_bound then Inl TooLarge else
      if tx_value vault_out < vault_floor (length (vault_output d (tx_value vault_out) (tx_amount vault_out) expected_next))
      then Inl VaultTooSmall else Inr ()))))))))"

definition check_claim :: "(bytes \<Rightarrow> bytes) \<Rightarrow> Deployment \<Rightarrow> Vault \<Rightarrow> bytes \<Rightarrow> (claim_error, unit) result" where
  "check_claim sha d vault raw =
     result_bind (of_tx (parse_tx raw)) (\<lambda>tx.
     case t_inputs tx of
       [input] \<Rightarrow>
         if in_outpoint input \<noteq> va_outpoint vault then Inl NotTheVaultInput
         else if length (in_unlocking input) > MAX_UNLOCKING_BYTES then Inl UnlockingTooLong
         else
           result_bind (of_tx (parse_pushes (in_unlocking input))) (\<lambda>pushes.
           case pushes of
             [preimage, payout_hash, pf, redeem] \<Rightarrow>
               if redeem \<noteq> dp_redeem_script d then Inl OtherCovenant
               else if length payout_hash \<noteq> 32 then Inl BadPayoutHash
               else
                 (case t_outputs tx of
                    [] \<Rightarrow> Inl NoOutputs
                  | vault_out # rest \<Rightarrow>
                      if tx_locking vault_out \<noteq> dp_locking_bytecode d \<or> tx_category vault_out \<noteq> Some (dp_category d)
                         \<or> map_option fst (tx_nft vault_out) \<noteq> Some MUTABLE then Inl NotTheVault
                      else check_rules sha d vault (length raw) (in_sequence input) (t_locktime tx) preimage payout_hash pf vault_out rest)
           | _ \<Rightarrow> Inl BadPushes)
     | _ \<Rightarrow> Inl NotAlone)"

section \<open>Building\<close>

definition claim_unlocking :: "Deployment \<Rightarrow> bytes \<Rightarrow> ClaimTerms \<Rightarrow> ClaimPlan \<Rightarrow> bytes" where
  "claim_unlocking d pf terms plan =
     push (if split_is_none (ct_split terms) then [] else split_preimage (ct_split terms)) @
     push (lf_payout_hash (cp_leaf plan)) @ push pf @ push (dp_redeem_script d)"

definition claim_raw :: "Deployment \<Rightarrow> Vault \<Rightarrow> bytes \<Rightarrow> ClaimPlan \<Rightarrow> bytes" where
  "claim_raw d vault unlocking plan =
     to_le_bytes CLAIM_VERSION @ [1] @ op_txid (va_outpoint vault) @ to_le_bytes (op_vout (va_outpoint vault)) @
     compact_size (word_of_nat (length unlocking)) @ unlocking @ to_le_bytes CLAIM_SEQUENCE @
     compact_size (1 + word_of_nat (length (cp_outputs plan))) @
     vault_output d (cp_vault_value plan) (va_tokens vault - cp_reward plan) (cp_next_state plan) @
     concat (map (\<lambda>(amount, script). tx_output OUTPUT_SATS (token_prefix (dp_category d) None amount @ script)) (cp_outputs plan)) @
     to_le_bytes (cp_locktime plan)"

definition build_claim ::
  "(bytes \<Rightarrow> bytes) \<Rightarrow> (bytes \<Rightarrow> string) \<Rightarrow> Deployment \<Rightarrow> Vault \<Rightarrow> bytes \<Rightarrow> ClaimTerms \<Rightarrow> u64 \<Rightarrow> u32 option \<Rightarrow> (claim_error, Claim) result" where
  "build_claim sha hex_encode d vault pf terms fee_rate lock =
     result_bind (plan_claim sha d vault pf terms fee_rate lock) (\<lambda>plan.
     let unlocking = claim_unlocking d pf terms plan in
     if length unlocking > MAX_UNLOCKING_BYTES then Inl UnlockingTooLong else
     let raw = claim_raw d vault unlocking plan in
     if (word_of_nat (length raw) :: u64) > cp_size_bound plan then Inl TooLarge else
     result_bind (check_claim sha d vault raw) (\<lambda>_.
       Inr \<lparr>cl_raw = raw, cl_txid = hex_encode (rev (double_sha256 sha raw)), cl_plan = plan\<rparr>))"

section \<open>What a plan fixes\<close>

lemma of_proof_Inr: "of_proof r = Inr a \<longleftrightarrow> r = Inr a"
  by (cases r) (simp_all add: of_proof_def)

lemma of_tx_Inr: "of_tx r = Inr a \<longleftrightarrow> r = Inr a"
  by (cases r) (simp_all add: of_tx_def)

lemma guard_Some: "(if P then Some x else None) = Some y \<longleftrightarrow> P \<and> x = y"
  by simp

lemma case_script: "(\<not> (case o' of Some s \<Rightarrow> P s | None \<Rightarrow> False)) \<longleftrightarrow> (\<forall>s. o' = Some s \<longrightarrow> \<not> P s)"
  by (simp split: option.splits)

text \<open>Everything a returned plan rests on.\<close>

definition planned ::
  "(bytes \<Rightarrow> bytes) \<Rightarrow> Deployment \<Rightarrow> Vault \<Rightarrow> bytes \<Rightarrow> ClaimTerms \<Rightarrow> u64 \<Rightarrow> ClaimPlan
   \<Rightarrow> AuxProof \<Rightarrow> u64 \<Rightarrow> ThreadState \<Rightarrow> bytes option \<Rightarrow> bytes option \<Rightarrow> bool" where
  "planned sha d vault pf terms fee_rate plan parsed long_height state donation fee_script \<longleftrightarrow>
     1 \<le> fee_rate \<and>
     fee_rate \<le> MAX_FEE_RATE \<and>
     \<not> bad_script (ct_payout terms) \<and>
     (\<forall>s. ct_donation terms = Some s \<longrightarrow> \<not> bad_script s) \<and>
     (\<forall>s. ct_fee terms = Some s \<longrightarrow> \<not> bad_script s) \<and>
     slot_script sha (sp_donation (ct_split terms)) (ct_donation terms) Donation = Inr donation \<and>
     slot_script sha (sp_fee (ct_split terms)) (ct_fee terms) Fee = Inr fee_script \<and>
     from_bytes pf = Inr parsed \<and>
     coinbase_height (ap_cb_head parsed) = Some long_height \<and>
     unat long_height < 2 ^ 32 \<and>
     cp_height plan = ucast long_height \<and>
     cp_height plan < LOCKTIME_THRESHOLD \<and>
     vault_state vault = Some state \<and>
     th_height state < cp_height plan \<and>
     claim_target_bits (th_target_bits state) (cp_height plan - th_height state) (dp_threads d) = Some (cp_target_bits plan) \<and>
     cp_leaf plan = leaf_new sha (dp_category d) (dp_lock_hash d) (vault_state_hash sha vault) (ct_payout terms) (cp_target_bits plan) (split_ext sha (ct_split terms)) \<and>
     verify_leaf sha parsed (cp_leaf plan) MAX_AUX_HEIGHT = Inr () \<and>
     bch_header (dp_network d) (ap_header parsed) (cp_height plan) state \<and>
     cp_reward plan = va_tokens vault div REWARD_DIVISOR \<and>
     cp_reward plan \<noteq> 0 \<and>
     cp_shares plan = claim_shares (ct_split terms) (cp_reward plan)
       \<lparr>amm_cash = va_value vault, amm_virtual_sats = dp_virtual_sats d, amm_tokens = va_tokens vault\<rparr> \<and>
     share_outputs [(sh_miner (cp_shares plan), Some (ct_payout terms)), (sh_donation (cp_shares plan), donation), (sh_fee (cp_shares plan), fee_script)]
       = Some (cp_outputs plan) \<and>
     cp_next_state plan = state_encode \<lparr>th_thread = th_thread state, th_height = cp_height plan, th_target_bits = cp_target_bits plan,
       th_ref_bits = header_bits (ap_header parsed)\<rparr> \<and>
     cp_size_bound plan = dp_fee_k d + word_of_nat (length pf) \<and>
     cp_fee plan = fee_rate * cp_size_bound plan \<and>
     checked_sub (va_value vault) (cp_fee plan + OUTPUT_SATS * word_of_nat (length (cp_outputs plan))) = Some (cp_vault_value plan) \<and>
     \<not> cp_vault_value plan < vault_floor (length (vault_output d (cp_vault_value plan) (va_tokens vault - cp_reward plan) (cp_next_state plan))) \<and>
     cp_height plan \<le> cp_locktime plan \<and>
     cp_locktime plan < LOCKTIME_THRESHOLD"

lemma plan_claim_Inr:
  assumes "plan_claim sha d vault pf terms fee_rate lock = Inr plan"
  shows "\<exists>parsed long_height state donation fee_script. planned sha d vault pf terms fee_rate plan parsed long_height state donation fee_script"
  using assms unfolding plan_claim_def
  unfolding guard_Inr result_bind_Inr_iff Let_def ok_or_Inr_iff of_proof_Inr keep_if_Some guard_Some
    de_Morgan_disj not_not not_less not_le sum.inject case_script
  apply (elim exE conjE)
  apply hypsubst
  unfolding planned_def ClaimPlan.select_convs not_less
  apply (intro exI conjI)
                      apply (assumption | simp)+
  done

lemma plannedD:
  assumes "planned sha d vault pf terms fee_rate plan parsed long_height state donation fee_script"
  shows "1 \<le> fee_rate"
    and "fee_rate \<le> MAX_FEE_RATE"
    and "\<not> bad_script (ct_payout terms)"
    and "\<forall>s. ct_donation terms = Some s \<longrightarrow> \<not> bad_script s"
    and "\<forall>s. ct_fee terms = Some s \<longrightarrow> \<not> bad_script s"
    and "slot_script sha (sp_donation (ct_split terms)) (ct_donation terms) Donation = Inr donation"
    and "slot_script sha (sp_fee (ct_split terms)) (ct_fee terms) Fee = Inr fee_script"
    and "from_bytes pf = Inr parsed"
    and "coinbase_height (ap_cb_head parsed) = Some long_height"
    and "unat long_height < 2 ^ 32"
    and "cp_height plan = ucast long_height"
    and "cp_height plan < LOCKTIME_THRESHOLD"
    and "vault_state vault = Some state"
    and "th_height state < cp_height plan"
    and "claim_target_bits (th_target_bits state) (cp_height plan - th_height state) (dp_threads d) = Some (cp_target_bits plan)"
    and "cp_leaf plan = leaf_new sha (dp_category d) (dp_lock_hash d) (vault_state_hash sha vault) (ct_payout terms) (cp_target_bits plan) (split_ext sha (ct_split terms))"
    and "verify_leaf sha parsed (cp_leaf plan) MAX_AUX_HEIGHT = Inr ()"
    and "bch_header (dp_network d) (ap_header parsed) (cp_height plan) state"
    and "cp_reward plan = va_tokens vault div REWARD_DIVISOR"
    and "cp_reward plan \<noteq> 0"
    and "cp_shares plan = claim_shares (ct_split terms) (cp_reward plan)
       \<lparr>amm_cash = va_value vault, amm_virtual_sats = dp_virtual_sats d, amm_tokens = va_tokens vault\<rparr>"
    and "share_outputs [(sh_miner (cp_shares plan), Some (ct_payout terms)), (sh_donation (cp_shares plan), donation), (sh_fee (cp_shares plan), fee_script)]
       = Some (cp_outputs plan)"
    and "cp_next_state plan = state_encode \<lparr>th_thread = th_thread state, th_height = cp_height plan, th_target_bits = cp_target_bits plan,
       th_ref_bits = header_bits (ap_header parsed)\<rparr>"
    and "cp_size_bound plan = dp_fee_k d + word_of_nat (length pf)"
    and "cp_fee plan = fee_rate * cp_size_bound plan"
    and "checked_sub (va_value vault) (cp_fee plan + OUTPUT_SATS * word_of_nat (length (cp_outputs plan))) = Some (cp_vault_value plan)"
    and "\<not> cp_vault_value plan < vault_floor (length (vault_output d (cp_vault_value plan) (va_tokens vault - cp_reward plan) (cp_next_state plan)))"
    and "cp_height plan \<le> cp_locktime plan"
    and "cp_locktime plan < LOCKTIME_THRESHOLD"
  using assms unfolding planned_def by blast+

text \<open>The rules of a claim, as one list.\<close>

definition rules_hold ::
  "(bytes \<Rightarrow> bytes) \<Rightarrow> Deployment \<Rightarrow> Vault \<Rightarrow> nat \<Rightarrow> u32 \<Rightarrow> u32 \<Rightarrow> hash \<Rightarrow> bytes \<Rightarrow> TxOutput \<Rightarrow> TxOutput list
   \<Rightarrow> ThreadState \<Rightarrow> AuxProof \<Rightarrow> u32 \<Rightarrow> u32 \<Rightarrow> Split \<Rightarrow> bool" where
  "rules_hold sha d vault raw_len sequence locktime payout_hash pf vault_out rest state parsed height target_bits split \<longleftrightarrow>
     sequence \<noteq> - 1 \<and> height \<le> locktime \<and> locktime < LOCKTIME_THRESHOLD \<and> th_height state < height \<and>
     claim_target_bits (th_target_bits state) (height - th_height state) (dp_threads d) = Some target_bits \<and>
     verify_leaf sha parsed \<lparr>lf_category = dp_category d, lf_lock_hash = dp_lock_hash d, lf_state_hash = vault_state_hash sha vault,
       lf_payout_hash = payout_hash, lf_target_bits = target_bits, lf_ext = split_ext sha split\<rparr> MAX_AUX_HEIGHT = Inr () \<and>
     bch_header (dp_network d) (ap_header parsed) height state \<and>
     (case tx_nft vault_out of Some (_, commitment) \<Rightarrow> commitment | None \<Rightarrow> []) =
       state_encode \<lparr>th_thread = th_thread state, th_height = height, th_target_bits = target_bits, th_ref_bits = header_bits (ap_header parsed)\<rparr> \<and>
     va_tokens vault div REWARD_DIVISOR \<noteq> 0 \<and> tx_amount vault_out = va_tokens vault - va_tokens vault div REWARD_DIVISOR \<and>
     (let expected = expected_outputs split payout_hash (claim_shares split (va_tokens vault div REWARD_DIVISOR)
        \<lparr>amm_cash = va_value vault, amm_virtual_sats = dp_virtual_sats d, amm_tokens = va_tokens vault\<rparr>);
        size_bound = dp_fee_k d + word_of_nat (length pf)
      in check_claim_outputs expected (map (output_seen sha) rest) (dp_category d) = Inr () \<and>
         (\<exists>left f. checked_sub (va_value vault) (tx_value vault_out) = Some left \<and>
           checked_sub left (OUTPUT_SATS * word_of_nat (length expected)) = Some f \<and> size_bound \<le> f \<and> f \<le> MAX_FEE_RATE * size_bound) \<and>
         (word_of_nat raw_len :: u64) \<le> size_bound) \<and>
     list_all (\<lambda>out. length (tx_locking out) \<le> MAX_PAYOUT_SCRIPT) rest \<and>
     vault_floor (length (vault_output d (tx_value vault_out) (tx_amount vault_out)
       (state_encode \<lparr>th_thread = th_thread state, th_height = height, th_target_bits = target_bits, th_ref_bits = header_bits (ap_header parsed)\<rparr>)))
       \<le> tx_value vault_out"

lemma case_some: "(case x of Some f \<Rightarrow> P f | None \<Rightarrow> False) \<longleftrightarrow> (\<exists>f. x = Some f \<and> P f)"
  by (cases x) simp_all

lemma preimage_split_Inr: "preimage_split p = Inr s \<longleftrightarrow> (if p = [] then s = NO_SPLIT else split_parse p = Inr s)"
  by (auto simp: preimage_split_def split: sum.splits)

lemma of_outputs_Inr: "(case r of Inl e \<Rightarrow> Inl (WrongOutputs e) | Inr _ \<Rightarrow> Inr ()) = Inr u \<longleftrightarrow> r = Inr ()"
  by (cases r) simp_all

lemma check_rules_iff:
  "check_rules sha d vault raw_len sequence locktime preimage payout_hash pf vault_out rest = Inr () \<longleftrightarrow>
     (case tx_nft vault_out of Some (_, commitment) \<Rightarrow> commitment | None \<Rightarrow> []) \<noteq> va_commitment vault \<and>
     (\<exists>state parsed long_height target_bits split.
        vault_state vault = Some state \<and> from_bytes pf = Inr parsed \<and> coinbase_height (ap_cb_head parsed) = Some long_height \<and>
        long_height < ucast LOCKTIME_THRESHOLD \<and> preimage_split preimage = Inr split \<and>
        rules_hold sha d vault raw_len sequence locktime payout_hash pf vault_out rest state parsed (ucast long_height) target_bits split)"
  unfolding check_rules_def rules_hold_def Let_def guard_Inr result_bind_Inr_iff ok_or_Inr_iff of_proof_Inr keep_if_Some
    of_outputs_Inr case_some bind_eq_Some_conv de_Morgan_disj not_not not_less not_le sum.inject
  unfolding list_ex_iff list_all_iff not_less bex_simps ex_unit by blast

section \<open>The builder passes the check\<close>

definition vault_wf :: "Vault \<Rightarrow> bool" where
  "vault_wf v \<longleftrightarrow> length (op_txid (va_outpoint v)) = 32 \<and> va_tokens v \<le> 0x7fffffffffffffff"

definition share_built :: "u64 \<times> bytes \<Rightarrow> built_output" where
  "share_built out = \<lparr>bo_value = OUTPUT_SATS, bo_commitment = None, bo_amount = fst out, bo_locking = snd out\<rparr>"

lemma slot_script_Inr:
  "slot_script sha sl script what = Inr out \<Longrightarrow> out = Some s \<Longrightarrow> script = Some s \<and> double_sha256 sha s = sl_script_hash sl"
  by (auto simp: slot_script_def split: if_splits option.splits)

lemma share_outputs_expected:
  assumes "share_outputs [(sh_miner shr, Some payout), (sh_donation shr, donation), (sh_fee shr, fee_script)] = Some outs"
    and "\<And>s. donation = Some s \<Longrightarrow> double_sha256 sha s = sl_script_hash (sp_donation split) \<and> \<not> bad_script s"
    and "\<And>s. fee_script = Some s \<Longrightarrow> double_sha256 sha s = sl_script_hash (sp_fee split) \<and> \<not> bad_script s"
    and "\<not> bad_script payout"
  shows "list_all2 (\<lambda>e (a, s). eo_amount e = a \<and> eo_script_hash e = double_sha256 sha s \<and> 0 < a \<and> \<not> bad_script s)
    (expected_outputs split (double_sha256 sha payout) shr) outs"
  using assms by (cases "sh_miner shr > 0"; cases "sh_donation shr > 0"; cases "sh_fee shr > 0")
    (auto simp: expected_outputs_def bind_eq_Some_conv)

lemma built_shares_fit:
  assumes "list_all2 (\<lambda>e (a, s). eo_amount e = a \<and> eo_script_hash e = double_sha256 sha s \<and> 0 < a \<and> \<not> bad_script s) expected outs"
  shows "list_all2 (fits category) expected (map (output_seen sha \<circ> built_view category \<circ> share_built) outs)"
  using assms
proof (induction rule: list_all2_induct)
  case (Cons e es out outs)
  have "1 \<le> eo_amount e" if "0 < eo_amount e" using that by (metis word_le_nat_alt word_less_nat_alt unat_1 unat_0 Suc_leI One_nat_def)
  then show ?case using Cons
    by (auto simp: fits_def output_seen_def built_view_def token_view_def share_built_def OUTPUT_SATS_def)
qed simp

lemma split_none_unique: "split_wf s \<Longrightarrow> split_is_none s \<Longrightarrow> s = NO_SPLIT"
  by (cases s, cases "sp_donation s", cases "sp_fee s") (auto simp: split_wf_def slot_wf_def split_is_none_def slot_is_empty_def NO_SPLIT_def EMPTY_SLOT_def)

lemma preimage_split_built:
  "split_wf s \<Longrightarrow> preimage_split (if split_is_none s then [] else split_preimage s) = Inr s"
  using split_none_unique [of s] by (auto simp: preimage_split_Inr split_parse_iff split_preimage_def)

lemma length_split_preimage: "split_wf s \<Longrightarrow> length (split_preimage s) = 69"
  by (simp add: split_preimage_def split_wf_def slot_wf_def)

text \<open>The bytes of a built claim.\<close>

definition claim_input :: "Vault \<Rightarrow> bytes \<Rightarrow> TxInput" where
  "claim_input vault unlocking = \<lparr>in_outpoint = va_outpoint vault, in_unlocking = unlocking, in_sequence = CLAIM_SEQUENCE\<rparr>"

definition vault_built :: "Deployment \<Rightarrow> Vault \<Rightarrow> ClaimPlan \<Rightarrow> built_output" where
  "vault_built d vault plan = \<lparr>bo_value = cp_vault_value plan, bo_commitment = Some (cp_next_state plan),
     bo_amount = va_tokens vault - cp_reward plan, bo_locking = dp_locking_bytecode d\<rparr>"

lemma claim_raw_tx_bytes:
  "claim_raw d vault unlocking plan =
     tx_bytes CLAIM_VERSION (dp_category d) [claim_input vault unlocking] (vault_built d vault plan # map share_built (cp_outputs plan)) (cp_locktime plan)"
proof -
  have "compact_size 1 = [1]" by (simp add: compact_size_def word_le_nat_alt)
  moreover have "concat (map (\<lambda>(amount, script). tx_output OUTPUT_SATS (token_prefix (dp_category d) None amount @ script)) outs)
      = concat (map (built_bytes (dp_category d)) (map share_built outs))" for outs
    by (induction outs) (auto simp: built_bytes_def share_built_def)
  ultimately show ?thesis
    by (simp add: claim_raw_def tx_bytes_def claim_input_def input_bytes_def vault_built_def built_bytes_def vault_output_def)
qed

lemma length_state_encode: "length (state_encode s) = 16"
  by (simp add: state_encode_def)

lemma length_built:
  assumes "built_ok category b"
  shows "length (built_bytes category b) \<le> (case bo_commitment b of None \<Rightarrow> 87 | Some c \<Rightarrow> 104)"
proof -
  define bc where "bc = token_prefix category (bo_commitment b) (bo_amount b) @ bo_locking b"
  have bc: "length bc \<le> (case bo_commitment b of None \<Rightarrow> 78 | Some c \<Rightarrow> 95)"
  proof (cases "bo_commitment b")
    case None
    then show ?thesis using assms length_token_prefix(1) [of category "bo_amount b"] by (simp add: bc_def built_ok_def)
  next
    case (Some c)
    then show ?thesis using assms length_token_prefix(2) [of c category "bo_amount b"] by (simp add: bc_def built_ok_def)
  qed
  then have "length (compact_size (word_of_nat (length bc))) = 1"
    by (intro length_compact_size) (simp add: word_le_nat_alt unat_of_nat split: option.splits)
  then show ?thesis using bc by (simp add: built_bytes_def tx_output_def flip: bc_def split: option.splits)
qed

lemma length_claim_raw:
  assumes "length (op_txid (va_outpoint vault)) = 32" and "length unlocking \<le> MAX_UNLOCKING_BYTES"
    and "built_ok (dp_category d) (vault_built d vault plan)" and "list_all (built_ok (dp_category d)) (map share_built (cp_outputs plan))"
    and "length (cp_outputs plan) \<le> 3"
  shows "length (claim_raw d vault unlocking plan) \<le> length unlocking + 418"
proof -
  have "unat (word_of_nat (length unlocking) :: u64) = length unlocking" using assms(2) by (simp add: unat_of_nat MAX_UNLOCKING_BYTES_def)
  then have cu: "length (compact_size (word_of_nat (length unlocking))) \<le> 3"
    using assms(2) by (simp add: compact_size_def word_le_nat_alt MAX_UNLOCKING_BYTES_def)
  have co: "length (compact_size (1 + word_of_nat (length (cp_outputs plan)))) = 1"
  proof -
    have "(1 + word_of_nat (length (cp_outputs plan)) :: u64) = word_of_nat (Suc (length (cp_outputs plan)))" by simp
    moreover have "unat (word_of_nat (Suc (length (cp_outputs plan))) :: u64) = Suc (length (cp_outputs plan))"
      using assms(5) unfolding unat_of_nat by (intro mod_less) simp
    ultimately show ?thesis using assms(5) by (intro length_compact_size) (simp only: word_le_nat_alt, simp)
  qed
  have shares: "length (concat (map (built_bytes (dp_category d)) (map share_built outs))) \<le> 87 * length outs"
    if "list_all (built_ok (dp_category d)) (map share_built outs)" for outs
    using that
  proof (induction outs)
    case (Cons out outs)
    then show ?case using length_built [of "dp_category d" "share_built out"] by (simp add: share_built_def)
  qed simp
  have v: "length (built_bytes (dp_category d) (vault_built d vault plan)) \<le> 104"
    using length_built [OF assms(3)] by (simp add: vault_built_def)
  have "compact_size (word_of_nat (length [claim_input vault unlocking])) = [1]" by (simp add: compact_size_def word_le_nat_alt)
  then show ?thesis unfolding claim_raw_tx_bytes
    using cu co shares [OF assms(4)] v assms(1,5) by (simp add: tx_bytes_def input_bytes_def claim_input_def)
qed

lemma length_unlocking:
  assumes "split_wf (ct_split terms)" and "length (lf_payout_hash (cp_leaf plan)) = 32" and "length pf \<le> 65535" and "length (dp_redeem_script d) \<le> 65535"
  shows "length (claim_unlocking d pf terms plan) \<le> 106 + length pf + unat (push_prefix_len (length (dp_redeem_script d))) + length (dp_redeem_script d)"
proof -
  let ?p = "if split_is_none (ct_split terms) then [] else split_preimage (ct_split terms)"
  have "length (push ?p) \<le> 70" using length_push [of ?p] length_split_preimage [OF assms(1)]
    by (auto simp: push_prefix_len_def split: if_splits)
  moreover have "length (push (lf_payout_hash (cp_leaf plan))) \<le> 33" using length_push [of "lf_payout_hash (cp_leaf plan)"] assms(2)
    by (simp add: push_prefix_len_def)
  moreover have "length (push pf) \<le> length pf + 3" using length_push [OF assms(3)] assms(3) by (auto simp: push_prefix_len_def split: if_splits)
  moreover note length_push [OF assms(4)]
  ultimately show ?thesis by (simp add: claim_unlocking_def)
qed

lemma length_le_push: "length data \<le> length (push data)"
  by (auto simp: push_def split: list.splits)

lemma check_claim_bytes:
  assumes "input_ok (claim_input vault unlocking)" and "built_ok (dp_category d) (vault_built d vault plan)"
    and "list_all (built_ok (dp_category d)) (map share_built (cp_outputs plan))" and "length (cp_outputs plan) < 2 ^ 32"
    and "length unlocking \<le> MAX_UNLOCKING_BYTES" and "parse_pushes unlocking = Inr [preimage, payout_hash, pf, dp_redeem_script d]"
    and "length payout_hash = 32"
  shows "check_claim sha d vault (claim_raw d vault unlocking plan) =
    check_rules sha d vault (length (claim_raw d vault unlocking plan)) CLAIM_SEQUENCE (cp_locktime plan) preimage payout_hash pf
      (built_view (dp_category d) (vault_built d vault plan)) (map (built_view (dp_category d) \<circ> share_built) (cp_outputs plan))"
proof -
  have "parse_tx (claim_raw d vault unlocking plan) =
      Inr \<lparr>t_inputs = [claim_input vault unlocking],
           t_outputs = map (built_view (dp_category d)) (vault_built d vault plan # map share_built (cp_outputs plan)), t_locktime = cp_locktime plan\<rparr>"
    unfolding claim_raw_tx_bytes by (rule parse_tx_bytes) (use assms in simp_all)
  then show ?thesis
    using assms(5-7) by (simp add: check_claim_def of_tx_def claim_input_def built_view_def vault_built_def token_view_def)
qed

lemma unat_size_bound:
  assumes "deployment_wf d" and "length pf \<le> 10000"
  shows "unat (dp_fee_k d + word_of_nat (length pf)) = 577 + unat (push_prefix_len (length (dp_redeem_script d))) + length (dp_redeem_script d) + length pf"
proof -
  let ?p = "push_prefix_len (length (dp_redeem_script d))"
  have r: "length (dp_redeem_script d) < 10000" using assms(1) by (simp add: deployment_wf_def MAX_UNLOCKING_BYTES_def)
  have p: "unat ?p \<le> 5" by (simp add: push_prefix_len_def)
  have k: "dp_fee_k d + word_of_nat (length pf) = word_of_nat (577 + unat ?p + length (dp_redeem_script d) + length pf)"
    using assms(1) by (simp add: deployment_wf_def CLAIM_FIXED_BYTES_def)
  show ?thesis unfolding k unat_of_nat by (rule mod_less) (use r p assms(2) in simp)
qed

lemma claim_fee_in_range:
  assumes "1 \<le> rate" and "rate \<le> MAX_FEE_RATE" and "unat bound < 2 ^ 32"
  shows "bound \<le> rate * bound" and "rate * bound \<le> MAX_FEE_RATE * bound" and "unat (rate * bound) < 2 ^ 34"
proof -
  have r: "1 \<le> unat rate" "unat rate \<le> 3" using assms(1,2) by (simp_all add: word_le_nat_alt MAX_FEE_RATE_def)
  have m: "unat rate * unat bound \<le> 3 * unat bound" using r(2) by (rule mult_le_mono1)
  have lt: "unat rate * unat bound < 17179869184" by (rule le_less_trans [OF m]) (use assms(3) in simp)
  have u: "unat (rate * bound) = unat rate * unat bound" "unat (MAX_FEE_RATE * bound) = 3 * unat bound" "unat rate * unat bound < 2 ^ 34"
    using lt assms(3) by (simp_all add: unat_word_ariths MAX_FEE_RATE_def)
  have "1 * unat bound \<le> unat rate * unat bound" using r(1) by (rule mult_le_mono1)
  then show "bound \<le> rate * bound" by (simp add: word_le_nat_alt u)
  show "rate * bound \<le> MAX_FEE_RATE * bound" "unat (rate * bound) < 2 ^ 34"
    using \<open>unat rate * unat bound \<le> 3 * unat bound\<close> u by (simp_all add: word_le_nat_alt)
qed

lemma checked_sub_twice:
  assumes "checked_sub a (b + c) = Some r" and "unat b + unat c < 2 ^ 64"
  shows "\<exists>left. checked_sub (a :: u64) r = Some left \<and> checked_sub left c = Some b"
proof -
  have u: "unat (b + c) = unat b + unat c" using assms(2) by (simp add: unat_word_ariths)
  have r: "b + c \<le> a" "r = a - (b + c)" using assms(1) by (auto simp: checked_sub_def split: if_splits)
  then have ra: "r \<le> a" by (simp add: word_sub_le)
  have "a - r = b + c" using r by simp
  moreover have "c \<le> b + c" unfolding word_le_nat_alt u by simp
  ultimately show ?thesis using ra by (simp add: checked_sub_def)
qed

lemma state_parse_encode: "state_parse (state_encode s) = Some s"
  by (simp add: state_parse_def state_encode_def STATE_LEN_def subrange_simps from_to_le_bytes)

lemma planned_amounts:
  assumes wf: "vault_wf vault" and split: "split_wf split" and reward: "reward = va_tokens vault div REWARD_DIVISOR" "reward \<noteq> 0"
    and outs: "list_all2 (\<lambda>e (a, s). eo_amount e = a \<and> eo_script_hash e = h s \<and> 0 < a \<and> \<not> bad_script s)
      (expected_outputs split ph (claim_shares split reward amm)) outs"
  shows "0 < va_tokens vault - reward" and "va_tokens vault - reward \<le> 0x7fffffffffffffff" and "length outs \<le> 3"
    and "list_all (\<lambda>(a, s). 0 < a \<and> a \<le> 0x7fffffffffffffff \<and> length s \<le> 35) outs"
proof -
  let ?shr = "claim_shares split reward amm"
  have t: "unat (va_tokens vault) \<le> 0x7fffffffffffffff" using wf by (simp add: vault_wf_def word_le_nat_alt)
  have ur: "unat reward = unat (va_tokens vault) div 420000" by (simp add: reward REWARD_DIVISOR_def unat_div)
  then have r: "unat reward < unat (va_tokens vault)"
    using reward(2) by (metis div_less_dividend div_0 gr0I unat_eq_zero one_less_numeral_iff semiring_norm(76))
  then have le: "reward \<le> va_tokens vault" by (simp add: word_le_nat_alt)
  then have u: "unat (va_tokens vault - reward) = unat (va_tokens vault) - unat reward" by (rule unat_sub)
  then show "0 < va_tokens vault - reward" "va_tokens vault - reward \<le> 0x7fffffffffffffff"
    using r t by (simp_all add: word_less_nat_alt word_le_nat_alt)
  have "length (expected_outputs split ph ?shr) \<le> 3" by (simp add: expected_outputs_def)
  then show "length outs \<le> 3" using list_all2_lengthD [OF outs] by simp
  have small: "list_all (\<lambda>e. unat (eo_amount e) \<le> unat reward) (expected_outputs split ph ?shr)"
    using claim_shares_spec(3) [OF split, of reward amm] by (simp add: expected_outputs_def)
  show "list_all (\<lambda>(a, s). 0 < a \<and> a \<le> 0x7fffffffffffffff \<and> length s \<le> 35) outs"
    using outs small
  proof (induction rule: list_all2_induct)
    case (Cons e es out outs)
    then show ?case using r t by (auto simp: word_le_nat_alt bad_script_def MAX_PAYOUT_SCRIPT_def not_less)
  qed simp
qed

lemma planned_outputs:
  assumes dwf: "deployment_wf d" and vwf: "vault_wf vault" and swf: "split_wf (ct_split terms)"
    and F: "planned sha d vault pf terms fee_rate plan parsed long_height state donation fee_script"
  shows "list_all2 (\<lambda>e (a, s). eo_amount e = a \<and> eo_script_hash e = double_sha256 sha s \<and> 0 < a \<and> \<not> bad_script s)
      (expected_outputs (ct_split terms) (double_sha256 sha (ct_payout terms)) (cp_shares plan)) (cp_outputs plan)"
    and "built_ok (dp_category d) (vault_built d vault plan)" and "list_all (built_ok (dp_category d)) (map share_built (cp_outputs plan))"
    and "length (cp_outputs plan) \<le> 3" and "list_all (\<lambda>(a, s). length s \<le> 35) (cp_outputs plan)"
proof -
  note P = plannedD [OF F]
  show outs: "list_all2 (\<lambda>e (a, s). eo_amount e = a \<and> eo_script_hash e = double_sha256 sha s \<and> 0 < a \<and> \<not> bad_script s)
      (expected_outputs (ct_split terms) (double_sha256 sha (ct_payout terms)) (cp_shares plan)) (cp_outputs plan)"
    by (rule share_outputs_expected [OF P(22)]) (use P slot_script_Inr [OF P(6)] slot_script_Inr [OF P(7)] in blast)+
  note A = planned_amounts [OF vwf swf P(19,20) outs [unfolded P(21)]]
  have dw: "length (dp_category d) = 32" "length (dp_locking_bytecode d) = 35" using dwf by (simp_all add: deployment_wf_def)
  show "built_ok (dp_category d) (vault_built d vault plan)"
    using A(1,2) dw by (simp add: built_ok_def vault_built_def P(23) length_state_encode)
  show "list_all (built_ok (dp_category d)) (map share_built (cp_outputs plan))"
    using A(4) dw by (auto simp: list_all_iff built_ok_def share_built_def)
  show "length (cp_outputs plan) \<le> 3" "list_all (\<lambda>(a, s). length s \<le> 35) (cp_outputs plan)"
    using A(3,4) by (auto simp: list_all_iff)
qed

lemma planned_size:
  assumes sha: "hash32 sha" and dwf: "deployment_wf d" and vwf: "vault_wf vault" and swf: "split_wf (ct_split terms)"
    and F: "planned sha d vault pf terms fee_rate plan parsed long_height state donation fee_script"
    and short: "length (claim_unlocking d pf terms plan) \<le> MAX_UNLOCKING_BYTES"
  shows "(word_of_nat (length (claim_raw d vault (claim_unlocking d pf terms plan) plan)) :: u64) \<le> cp_size_bound plan"
    and "unat (cp_size_bound plan) < 2 ^ 32" and "length pf \<le> 65535" and "length (lf_payout_hash (cp_leaf plan)) = 32"
proof -
  note P = plannedD [OF F] and O = planned_outputs [OF dwf vwf swf F]
  have pl: "length pf \<le> 10000"
    using short length_le_push [of pf] by (simp add: claim_unlocking_def MAX_UNLOCKING_BYTES_def)
  then show pl': "length pf \<le> 65535" by simp
  have rl: "length (dp_redeem_script d) \<le> 65535" "length (dp_redeem_script d) < 10000" using dwf by (simp_all add: deployment_wf_def MAX_UNLOCKING_BYTES_def)
  show ph: "length (lf_payout_hash (cp_leaf plan)) = 32" using sha by (simp add: double_sha256_def hash32.length_sha P(16) leaf_new_def)
  note sz = unat_size_bound [OF dwf pl]
  show "unat (cp_size_bound plan) < 2 ^ 32" using sz pl rl by (simp add: P(24) push_prefix_len_def)
  have tx: "length (op_txid (va_outpoint vault)) = 32" using vwf by (simp add: vault_wf_def)
  have rawl: "length (claim_raw d vault (claim_unlocking d pf terms plan) plan) \<le> length (claim_unlocking d pf terms plan) + 418"
    by (rule length_claim_raw [OF tx short O(2-4)])
  also have "\<dots> \<le> unat (cp_size_bound plan)"
    using length_unlocking [OF swf ph pl' rl(1)] sz by (simp add: P(24))
  finally have "length (claim_raw d vault (claim_unlocking d pf terms plan) plan) \<le> unat (cp_size_bound plan)" .
  moreover from rawl short have "length (claim_raw d vault (claim_unlocking d pf terms plan) plan) < 2 ^ 64" by (simp add: MAX_UNLOCKING_BYTES_def)
  ultimately show "(word_of_nat (length (claim_raw d vault (claim_unlocking d pf terms plan) plan)) :: u64) \<le> cp_size_bound plan"
    by (simp add: word_le_nat_alt unat_of_nat)
qed

lemma planned_fee:
  assumes F: "planned sha d vault pf terms fee_rate plan parsed long_height state donation fee_script"
    and b32: "unat (cp_size_bound plan) < 2 ^ 32" and few: "length (cp_outputs plan) \<le> 3"
  shows "\<exists>left f. checked_sub (va_value vault) (cp_vault_value plan) = Some left \<and>
    checked_sub left (OUTPUT_SATS * word_of_nat (length (cp_outputs plan))) = Some f \<and> cp_size_bound plan \<le> f \<and> f \<le> MAX_FEE_RATE * cp_size_bound plan"
proof -
  note P = plannedD [OF F]
  note fr = claim_fee_in_range [OF P(1,2) b32]
  have "unat (OUTPUT_SATS * word_of_nat (length (cp_outputs plan)) :: u64) \<le> 2400"
    using few by (simp add: OUTPUT_SATS_def SPLIT_OUTPUT_SATS_def unat_word_ariths unat_of_nat)
  then have "unat (cp_fee plan) + unat (OUTPUT_SATS * word_of_nat (length (cp_outputs plan)) :: u64) < 2 ^ 64"
    using fr(3) by (simp add: P(25))
  from checked_sub_twice [OF P(26) this] fr(1,2) show ?thesis by (auto simp: P(25))
qed

lemma planned_rules:
  assumes dwf: "deployment_wf d" and vwf: "vault_wf vault" and swf: "split_wf (ct_split terms)"
    and F: "planned sha d vault pf terms fee_rate plan parsed long_height state donation fee_script"
    and b32: "unat (cp_size_bound plan) < 2 ^ 32" and small: "(word_of_nat raw_len :: u64) \<le> cp_size_bound plan"
  shows "rules_hold sha d vault raw_len CLAIM_SEQUENCE (cp_locktime plan) (double_sha256 sha (ct_payout terms)) pf
    (built_view (dp_category d) (vault_built d vault plan)) (map (built_view (dp_category d) \<circ> share_built) (cp_outputs plan))
    state parsed (ucast long_height) (cp_target_bits plan) (ct_split terms)"
proof -
  note P = plannedD [OF F] and O = planned_outputs [OF dwf vwf swf F]
  define ph where "ph = double_sha256 sha (ct_payout terms)"
  define expected where "expected = expected_outputs (ct_split terms) ph (cp_shares plan)"
  note outs = O(1) [folded ph_def, folded expected_def]
  have fits: "check_claim_outputs expected (map (output_seen sha) (map (built_view (dp_category d) \<circ> share_built) (cp_outputs plan))) (dp_category d) = Inr ()"
    using built_shares_fit [OF outs, of "dp_category d"] by (simp add: check_claim_outputs_iff comp_assoc)
  note pays = planned_fee [OF F b32 O(4), folded list_all2_lengthD [OF outs]]
  have leaf: "\<lparr>lf_category = dp_category d, lf_lock_hash = dp_lock_hash d, lf_state_hash = vault_state_hash sha vault,
      lf_payout_hash = ph, lf_target_bits = cp_target_bits plan, lf_ext = split_ext sha (ct_split terms)\<rparr> = cp_leaf plan"
    by (simp add: P(16) leaf_new_def ph_def)
  have ex: "expected_outputs (ct_split terms) ph (claim_shares (ct_split terms) (cp_reward plan)
      \<lparr>amm_cash = va_value vault, amm_virtual_sats = dp_virtual_sats d, amm_tokens = va_tokens vault\<rparr>) = expected"
    by (simp add: expected_def P(21))
  have view: "tx_value (built_view (dp_category d) (vault_built d vault plan)) = cp_vault_value plan"
    "tx_amount (built_view (dp_category d) (vault_built d vault plan)) = va_tokens vault - cp_reward plan"
    "(case tx_nft (built_view (dp_category d) (vault_built d vault plan)) of Some (_, c) \<Rightarrow> c | None \<Rightarrow> []) = cp_next_state plan"
    by (simp_all add: built_view_def vault_built_def token_view_def)
  have lens: "list_all (\<lambda>out. length (tx_locking out) \<le> MAX_PAYOUT_SCRIPT) (map (built_view (dp_category d) \<circ> share_built) (cp_outputs plan))"
    using O(5) by (auto simp: list_all_iff built_view_def share_built_def token_view_def MAX_PAYOUT_SCRIPT_def)
  have sq: "CLAIM_SEQUENCE \<noteq> - 1" by (simp add: CLAIM_SEQUENCE_def)
  show ?thesis
    unfolding rules_hold_def Let_def ph_def [symmetric] P(11) [symmetric] leaf P(24) [symmetric] P(19) [symmetric] P(23) [symmetric] ex view
    by (intro conjI) (use P(14,15,17,18,20,27,28,29) sq fits pays lens small in \<open>simp_all only: not_less simp_thms\<close>)
qed

lemma built_claim_checks:
  assumes sha: "hash32 sha" and dwf: "deployment_wf d" and vwf: "vault_wf vault" and swf: "split_wf (ct_split terms)"
    and plan: "plan_claim sha d vault pf terms fee_rate lock = Inr plan"
    and short: "length (claim_unlocking d pf terms plan) \<le> MAX_UNLOCKING_BYTES"
  shows "(word_of_nat (length (claim_raw d vault (claim_unlocking d pf terms plan) plan)) :: u64) \<le> cp_size_bound plan"
    and "check_claim sha d vault (claim_raw d vault (claim_unlocking d pf terms plan) plan) = Inr ()"
proof -
  from plan_claim_Inr [OF plan] obtain parsed long_height state donation fee_script
    where F: "planned sha d vault pf terms fee_rate plan parsed long_height state donation fee_script" by blast
  note P = plannedD [OF F] and O = planned_outputs [OF dwf vwf swf F] and Z = planned_size [OF sha dwf vwf swf F short]
  define U where "U = claim_unlocking d pf terms plan"
  define ph where "ph = double_sha256 sha (ct_payout terms)"
  define pre where "pre = (if split_is_none (ct_split terms) then [] else split_preimage (ct_split terms))"
  show "(word_of_nat (length (claim_raw d vault (claim_unlocking d pf terms plan) plan)) :: u64) \<le> cp_size_bound plan" by (rule Z(1))
  have ph: "lf_payout_hash (cp_leaf plan) = ph" by (simp add: P(16) leaf_new_def ph_def)
  have "U = concat (map push [pre, ph, pf, dp_redeem_script d])" by (simp add: U_def claim_unlocking_def pre_def ph)
  moreover have "length pre \<le> 65535" "length (dp_redeem_script d) \<le> 65535"
    using length_split_preimage [OF swf] dwf by (simp_all add: pre_def deployment_wf_def MAX_UNLOCKING_BYTES_def)
  ultimately have pushes: "parse_pushes U = Inr [pre, ph, pf, dp_redeem_script d]"
    using Z(3,4) ph by (simp only:) (rule parse_pushes_concat, simp)
  have io: "input_ok (claim_input vault U)"
    using vwf short by (simp add: input_ok_def claim_input_def U_def MAX_UNLOCKING_BYTES_def vault_wf_def)
  have few: "length (cp_outputs plan) < 2 ^ 32" by (rule le_less_trans [OF O(4)]) simp
  note chk = check_claim_bytes [OF io O(2,3) few short [folded U_def] pushes Z(4) [unfolded ph], of sha]
  have "check_rules sha d vault (length (claim_raw d vault U plan)) CLAIM_SEQUENCE (cp_locktime plan) pre ph pf
      (built_view (dp_category d) (vault_built d vault plan)) (map (built_view (dp_category d) \<circ> share_built) (cp_outputs plan)) = Inr ()"
    unfolding check_rules_iff
  proof (intro conjI exI)
    show "vault_state vault = Some state" "from_bytes pf = Inr parsed" "coinbase_height (ap_cb_head parsed) = Some long_height" by (fact P)+
    show "preimage_split pre = Inr (ct_split terms)" unfolding pre_def by (rule preimage_split_built [OF swf])
    have "unat (cp_height plan) = unat long_height" using P(10,11) by (simp add: unat_ucast)
    then show "long_height < ucast LOCKTIME_THRESHOLD" using P(12) by (simp add: word_less_nat_alt LOCKTIME_THRESHOLD_def)
    have "state_parse (cp_next_state plan) \<noteq> state_parse (va_commitment vault)"
      using P(13,14) by (auto simp: P(23) state_parse_encode vault_state_def dest: arg_cong [of _ _ th_height])
    then show "(case tx_nft (built_view (dp_category d) (vault_built d vault plan)) of Some (_, c) \<Rightarrow> c | None \<Rightarrow> []) \<noteq> va_commitment vault"
      by (auto simp: built_view_def vault_built_def token_view_def)
  qed (rule planned_rules [OF dwf vwf swf F Z(2) Z(1), folded U_def ph_def])
  then show "check_claim sha d vault (claim_raw d vault (claim_unlocking d pf terms plan) plan) = Inr ()"
    unfolding U_def [symmetric] chk .
qed

section \<open>What an accepted claim does\<close>

lemma check_claim_Inr:
  assumes "check_claim sha d vault raw = Inr ()"
  shows "\<exists>tx input preimage payout_hash pf vault_out rest.
    parse_tx raw = Inr tx \<and> t_inputs tx = [input] \<and> in_outpoint input = va_outpoint vault \<and> t_outputs tx = vault_out # rest \<and>
    parse_pushes (in_unlocking input) = Inr [preimage, payout_hash, pf, dp_redeem_script d] \<and>
    tx_locking vault_out = dp_locking_bytecode d \<and> tx_category vault_out = Some (dp_category d) \<and> map_option fst (tx_nft vault_out) = Some MUTABLE \<and>
    check_rules sha d vault (length raw) (in_sequence input) (t_locktime tx) preimage payout_hash pf vault_out rest = Inr ()"
proof -
  from assms obtain tx where tx: "parse_tx raw = Inr tx" by (auto simp: check_claim_def result_bind_Inr_iff of_tx_Inr)
  obtain input where i: "t_inputs tx = [input]" using assms by (auto simp: check_claim_def tx of_tx_def split: list.splits)
  obtain pushes where p: "parse_pushes (in_unlocking input) = Inr pushes"
    using assms by (auto simp: check_claim_def tx of_tx_def i result_bind_Inr_iff split: if_splits sum.splits)
  have c: "in_outpoint input = va_outpoint vault \<and> (case pushes of [preimage, payout_hash, pf, redeem] \<Rightarrow>
      redeem = dp_redeem_script d \<and> (case t_outputs tx of [] \<Rightarrow> False | vault_out # rest \<Rightarrow>
        tx_locking vault_out = dp_locking_bytecode d \<and> tx_category vault_out = Some (dp_category d) \<and> map_option fst (tx_nft vault_out) = Some MUTABLE \<and>
        check_rules sha d vault (length raw) (in_sequence input) (t_locktime tx) preimage payout_hash pf vault_out rest = Inr ()) | _ \<Rightarrow> False)"
    using assms by (auto simp: check_claim_def tx of_tx_def i p split: if_splits list.splits)
  then show ?thesis using tx i p by (auto split: list.splits)
qed

lemma preimage_split_wf: "preimage_split p = Inr s \<Longrightarrow> split_wf s"
  by (auto simp: preimage_split_Inr split_parse_iff NO_SPLIT_def EMPTY_SLOT_def split_wf_def slot_wf_def ZERO_HASH_def split: if_splits)

lemma checked_sats:
  assumes "checked_sub value out = Some left" and "checked_sub left (OUTPUT_SATS * word_of_nat n) = Some f" and "n \<le> 3"
  shows "unat value = unat out + 800 * n + unat f"
proof -
  have "unat (OUTPUT_SATS * word_of_nat n :: u64) = 800 * n"
    using assms(3) by (simp add: OUTPUT_SATS_def SPLIT_OUTPUT_SATS_def unat_word_ariths unat_of_nat)
  then show ?thesis using unat_checked_sub [OF assms(1)] unat_checked_sub [OF assms(2)] by linarith
qed

lemma rules_conserve:
  assumes rules: "rules_hold sha d vault raw_len sequence locktime payout_hash pf vault_out rest state parsed height target_bits split"
    and swf: "split_wf split"
  shows "unat (tx_amount vault_out) + (\<Sum>out\<leftarrow>rest. unat (tx_amount out)) = unat (va_tokens vault)"
    and "\<exists>f. unat (va_value vault) = unat (tx_value vault_out) + 800 * length rest + unat f \<and> dp_fee_k d + word_of_nat (length pf) \<le> f"
    and "800 \<le> tx_value vault_out"
proof -
  define reward where "reward = va_tokens vault div REWARD_DIVISOR"
  define shr where "shr = claim_shares split reward \<lparr>amm_cash = va_value vault, amm_virtual_sats = dp_virtual_sats d, amm_tokens = va_tokens vault\<rparr>"
  define expected where "expected = expected_outputs split payout_hash shr"
  note R = rules [unfolded rules_hold_def Let_def, folded reward_def, folded shr_def, folded expected_def]
  have fits: "list_all2 (fits (dp_category d)) expected (map (output_seen sha) rest)" using R by (simp add: check_claim_outputs_iff)
  have sum: "(\<Sum>out\<leftarrow>rest. unat (tx_amount out)) = unat reward"
    using fits_sum [OF fits] expected_outputs_sum [of split payout_hash shr] claim_shares_spec(3) [OF swf, of reward]
    by (simp add: expected_def shr_def output_seen_def comp_def)
  have "reward \<le> va_tokens vault" by (simp add: reward_def word_le_nat_alt unat_div)
  then have "unat (tx_amount vault_out) = unat (va_tokens vault) - unat reward" "unat reward \<le> unat (va_tokens vault)"
    using R by (simp_all add: unat_sub word_le_nat_alt)
  then show "unat (tx_amount vault_out) + (\<Sum>out\<leftarrow>rest. unat (tx_amount out)) = unat (va_tokens vault)" using sum by simp
  have l: "length expected = length rest" using list_all2_lengthD [OF fits] by simp
  moreover have "length expected \<le> 3" by (simp add: expected_def expected_outputs_def)
  moreover obtain left f where "checked_sub (va_value vault) (tx_value vault_out) = Some left"
    "checked_sub left (OUTPUT_SATS * word_of_nat (length expected)) = Some f" "dp_fee_k d + word_of_nat (length pf) \<le> f" using R by blast
  ultimately show "\<exists>f. unat (va_value vault) = unat (tx_value vault_out) + 800 * length rest + unat f \<and> dp_fee_k d + word_of_nat (length pf) \<le> f"
    using checked_sats by metis
  have "OUTPUT_SATS \<le> tx_value vault_out" using R by (simp add: vault_floor_def)
  then show "800 \<le> tx_value vault_out" by (simp add: OUTPUT_SATS_def SPLIT_OUTPUT_SATS_def)
qed

section \<open>Properties\<close>

text \<open>C1. Every planned claim is built: for a well-formed deployment and vault, a claim whose plan succeeds and whose
  unlocking bytes are within BCH's limit is never refused afterwards. The transaction stays within the size bound
  its fee pays for, the independent check of its bytes accepts it, and \<open>build_claim\<close> returns it.\<close>

theorem planned_claim_is_built:
  assumes "hash32 sha" and "deployment_wf d" and "vault_wf vault" and "split_wf (ct_split terms)"
    and "plan_claim sha d vault pf terms fee_rate lock = Inr plan"
    and "length (claim_unlocking d pf terms plan) \<le> MAX_UNLOCKING_BYTES"
  shows "\<exists>raw. build_claim sha hex_encode d vault pf terms fee_rate lock =
      Inr \<lparr>cl_raw = raw, cl_txid = hex_encode (rev (double_sha256 sha raw)), cl_plan = plan\<rparr> \<and>
    check_claim sha d vault raw = Inr () \<and> (word_of_nat (length raw) :: u64) \<le> cp_size_bound plan"
  using built_claim_checks [OF assms] assms(5,6) by (simp add: build_claim_def Let_def)

text \<open>C2. An accepted claim neither makes nor loses anything: it spends the vault and returns it at output 0 with its
  lock, category and mutable NFT; the vault's tokens are exactly the returned ones plus the shares; its satoshis are
  exactly the returned ones, 800 for each share output and a fee of at least the size bound; and the vault keeps at
  least 800.\<close>

theorem accepted_claim_conserves:
  assumes "check_claim sha d vault raw = Inr ()"
  shows "\<exists>tx input preimage payout_hash pf vault_out rest f. parse_tx raw = Inr tx \<and> t_inputs tx = [input] \<and> in_outpoint input = va_outpoint vault \<and>
    parse_pushes (in_unlocking input) = Inr [preimage, payout_hash, pf, dp_redeem_script d] \<and>
    t_outputs tx = vault_out # rest \<and> tx_locking vault_out = dp_locking_bytecode d \<and> tx_category vault_out = Some (dp_category d) \<and>
    map_option fst (tx_nft vault_out) = Some MUTABLE \<and>
    unat (tx_amount vault_out) + (\<Sum>out\<leftarrow>rest. unat (tx_amount out)) = unat (va_tokens vault) \<and>
    unat (va_value vault) = unat (tx_value vault_out) + 800 * length rest + unat f \<and> dp_fee_k d + word_of_nat (length pf) \<le> f \<and>
    800 \<le> tx_value vault_out"
proof -
  from check_claim_Inr [OF assms] obtain tx input preimage payout_hash pf vault_out rest where
    C: "parse_tx raw = Inr tx" "t_inputs tx = [input]" "in_outpoint input = va_outpoint vault" "t_outputs tx = vault_out # rest"
      "parse_pushes (in_unlocking input) = Inr [preimage, payout_hash, pf, dp_redeem_script d]"
      "tx_locking vault_out = dp_locking_bytecode d" "tx_category vault_out = Some (dp_category d)" "map_option fst (tx_nft vault_out) = Some MUTABLE"
    and r: "check_rules sha d vault (length raw) (in_sequence input) (t_locktime tx) preimage payout_hash pf vault_out rest = Inr ()"
    by blast
  from r obtain state parsed long_height target_bits split where s: "preimage_split preimage = Inr split"
    and h: "rules_hold sha d vault (length raw) (in_sequence input) (t_locktime tx) payout_hash pf vault_out rest state parsed (ucast (long_height :: u64)) target_bits split"
    unfolding check_rules_iff by blast
  note K = rules_conserve [OF h preimage_split_wf [OF s]]
  from K(2) obtain f where "unat (va_value vault) = unat (tx_value vault_out) + 800 * length rest + unat f"
    "dp_fee_k d + word_of_nat (length pf) \<le> f" by blast
  then show ?thesis using C K(1,3)
    by blast
qed

section \<open>A claim\<close>

definition claim_header :: bytes where
  "claim_header = replicate 72 0 @ [0xff, 0xff, 0, 0x1d] @ replicate 4 0"

definition claim_proof :: AuxProof where
  "claim_proof = \<lparr>ap_header = claim_header, ap_height = 0, ap_salt = 0, ap_aux_branch = [], ap_cb_head = demo_height_head,
     ap_cb_tail = [0, 0, 0, 0], ap_cb_branch = []\<rparr>"

definition claim_vault :: Vault where
  "claim_vault = \<lparr>va_outpoint = \<lparr>op_txid = replicate 32 4, op_vout = 0\<rparr>, va_value = 100000, va_tokens = 420000,
     va_commitment = state_encode \<lparr>th_thread = 0, th_height = 100, th_target_bits = 0x207fffff, th_ref_bits = 0\<rparr>, va_confirmed = True\<rparr>"

definition claim_terms :: ClaimTerms where
  "claim_terms = \<lparr>ct_payout = [0x6a], ct_split = NO_SPLIT, ct_donation = None, ct_fee = None\<rparr>"

lemma demo_head_height: "check_head demo_height_head" "coinbase_height demo_height_head = Some 200" "length demo_height_head = 50"
proof -
  have l: "length NULL_INPUT = 37" by (simp add: NULL_INPUT_def)
  have n: "demo_height_head ! 41 = 3" "demo_height_head ! 42 = 2" "length demo_height_head = 50" "subrange demo_height_head 43 45 = [0xc8, 0]"
    "subrange demo_height_head 4 41 = NULL_INPUT" "demo_height_head ! 49 = 1"
    by (simp_all add: demo_height_head_def nth_append l subrange_def)
  show "check_head demo_height_head" "coinbase_height demo_height_head = Some 200" "length demo_height_head = 50"
    by (simp_all add: coinbase_height_def check_head_def get_byte_def get_range_def n MAX_SCRIPT_SIG_def Let_def)
qed

lemma claim_proof_bytes: "\<exists>pf. to_bytes claim_proof = Inr pf \<and> from_bytes pf = Inr claim_proof \<and> length pf = 149"
proof -
  have s: "check_shape claim_proof = Inr ()" by (simp add: check_shape_def claim_proof_def MAX_HEIGHT_def demo_head_height MAX_COINBASE_BRANCH_def)
  then obtain pf where pf: "to_bytes claim_proof = Inr pf" by (simp add: to_bytes_def)
  have "proof_wf claim_proof" by (simp add: proof_wf_def claim_proof_def claim_header_def)
  moreover have "length pf = 149" using pf s by (auto simp: to_bytes_def put_part_def claim_proof_def claim_header_def PROOF_MAGIC_def demo_head_height)
  ultimately show ?thesis using pf from_to_bytes by blast
qed

lemma claim_bits: "claim_target_bits 0x207fffff 100 1 = Some 0x207fffff"
proof -
  have e: "expand_token_target 0x207fffff = Some max_token_target" by (simp add: expand_token_target_iff Let_def max_token_target_def)
  have "max_token_target * 10000 \<le> max_token_target * ease_factor 100 1" by (simp add: ease_factor_def max_token_target_def)
  from div_le_mono [OF this, of 10000] have "eased_target max_token_target 100 1 = max_token_target"
    by (simp add: eased_target_def max_token_target_def)
  moreover have "encode_token_target max_token_target = Some 0x207fffff"
  proof -
    have "bit_len max_token_target = 255" by (rule bit_len_unique) (simp_all add: max_token_target_def)
    then have t: "target_len max_token_target = 32" by (simp add: target_len_def)
    have "0 < max_token_target" by (simp add: max_token_target_def)
    from encode_token_target_eq [OF this order_refl] obtain b where
      b: "encode_token_target max_token_target = Some b" "unat b = 32 * 2 ^ 24 + max_token_target div 256 ^ 29" by (auto simp: t)
    then have "unat b = 545259519" by (simp add: max_token_target_def)
    then show ?thesis using b(1) by (simp add: word_unat_eq_iff)
  qed
  ultimately show ?thesis by (simp add: claim_target_bits_eq e)
qed

lemma claim_accepted:
  "verify_leaf zero_sha claim_proof (leaf_new zero_sha category lock state payout 0x207fffff ext) 16 = Inr ()"
  "bch_header Chipnet claim_header 200 state'"
proof -
  have z: "double_sha256 zero_sha m = ZERO_HASH" for m by (simp add: double_sha256_def zero_sha_def)
  have s: "check_shape claim_proof = Inr ()" by (simp add: check_shape_def claim_proof_def MAX_HEIGHT_def demo_head_height MAX_COINBASE_BRANCH_def)
  have h: "subrange (ap_header claim_proof) 36 68 = ZERO_HASH" by (simp add: claim_proof_def claim_header_def subrange_def ZERO_HASH_def)
  have "expand_compact 0x207fffff \<noteq> None" by (simp add: expand_compact_def Let_def)
  then obtain t where t: "expand_compact 0x207fffff = Some t" by blast
  have m: "meets_target ZERO_HASH t"
    using expand_compact_value(1) [OF t] by (subst meets_target_iff) (simp_all add: ZERO_HASH_def)
  show "verify_leaf zero_sha claim_proof (leaf_new zero_sha category lock state payout 0x207fffff ext) 16 = Inr ()"
    unfolding verify_leaf_accepts using s h m t demo_head_height by (simp add: z leaf_new_def) (simp add: claim_proof_def MAX_HEIGHT_def)
  have b: "header_bits claim_header = 0x1d00ffff"
  proof -
    have "claim_header ! 72 = 0xff" "claim_header ! 73 = 0xff" "claim_header ! 74 = 0" "claim_header ! 75 = 0x1d"
      by (simp_all add: claim_header_def nth_append)
    then show ?thesis by (simp add: header_bits_def from_le_bytes_def)
  qed
  have "decode_header_bits 0x1d00ffff \<noteq> None" by (simp add: decode_header_bits_def Let_def pow_limit_def word_le_nat_alt)
  then show "bch_header Chipnet claim_header 200 state'"
    by (auto simp: bch_header_def b asert_band_def POW_LIMIT_BITS_def)
qed

lemma result_bind_weak: "m = m' \<Longrightarrow> result_bind m f = result_bind m' f"
  by simp

lemma claim_planned:
  assumes pf: "from_bytes pf = Inr claim_proof" "length pf = 149"
  shows "\<exists>plan. plan_claim zero_sha demo_small claim_vault pf claim_terms 1 None = Inr plan \<and>
    length (claim_unlocking demo_small pf claim_terms plan) \<le> MAX_UNLOCKING_BYTES"
proof -
  define st where "st = \<lparr>th_thread = 0, th_height = 100, th_target_bits = 0x207fffff, th_ref_bits = 0 :: u32\<rparr>"
  define leaf where "leaf = leaf_new zero_sha (dp_category demo_small) (dp_lock_hash demo_small) (vault_state_hash zero_sha claim_vault) [0x6a] 0x207fffff (split_ext zero_sha NO_SPLIT)"
  define nx where "nx = state_encode \<lparr>th_thread = 0, th_height = 200, th_target_bits = 0x207fffff, th_ref_bits = header_bits claim_header\<rparr>"
  have st: "vault_state claim_vault = Some st" by (simp add: vault_state_def claim_vault_def state_parse_encode st_def)
  have v: "verify_leaf zero_sha claim_proof leaf MAX_AUX_HEIGHT = Inr ()" unfolding leaf_def MAX_AUX_HEIGHT_def by (rule claim_accepted)
  have shr: "claim_shares NO_SPLIT 1 amm = \<lparr>sh_miner = 1, sh_donation = 0, sh_fee = 0\<rparr>" for amm
    by (simp add: claim_shares_def shares_def share_def NO_SPLIT_def EMPTY_SLOT_def drop_small_def)
  have sub: "checked_sub (100000 :: u64) 1528 = Some 98472" by (simp add: checked_sub_def word_le_nat_alt)
  have "length (vault_output demo_small 98472 419999 nx) \<le> 104"
  proof -
    have b: "built_ok (dp_category demo_small) \<lparr>bo_value = 98472, bo_commitment = Some nx, bo_amount = 419999, bo_locking = dp_locking_bytecode demo_small\<rparr>"
      by (simp add: built_ok_def demo_small_def nx_def length_state_encode word_le_nat_alt word_less_nat_alt)
    from length_built [OF this] show ?thesis by (simp add: built_bytes_def vault_output_def)
  qed
  then have fl: "\<not> 98472 < vault_floor (length (vault_output demo_small 98472 419999 nx))"
    by (simp add: vault_floor_def dust_def OUTPUT_SATS_def SPLIT_OUTPUT_SATS_def word_less_nat_alt unat_word_ariths unat_of_nat max_def)
  let ?plan = "\<lparr>cp_height = 200, cp_height_delta = 100, cp_target_bits = 0x207fffff, cp_leaf = leaf, cp_reward = 1,
     cp_shares = \<lparr>sh_miner = 1, sh_donation = 0, sh_fee = 0\<rparr>, cp_outputs = [(1, [0x6a])], cp_next_state = nx,
     cp_size_bound = 728, cp_fee = 728, cp_vault_value = 98472, cp_locktime = 200\<rparr>"
  have F: "ap_cb_head claim_proof = demo_height_head" "ap_header claim_proof = claim_header" "dp_threads demo_small = 1" "dp_fee_k demo_small = 579"
    "dp_network demo_small = Chipnet" "va_value claim_vault = 100000" "va_tokens claim_vault = 420000" "ct_payout claim_terms = [0x6a]"
    "ct_split claim_terms = NO_SPLIT" "ct_donation claim_terms = None" "ct_fee claim_terms = None" "th_height st = 100" "th_thread st = 0"
    "th_target_bits st = 0x207fffff"
    by (simp_all add: claim_proof_def demo_small_def claim_vault_def claim_terms_def st_def)
  have G: "bad_script [0x6a] = False" "slot_script zero_sha (sp_donation NO_SPLIT) None Donation = Inr None"
    "slot_script zero_sha (sp_fee NO_SPLIT) None Fee = Inr None" "keep_if (\<lambda>h. h < LOCKTIME_THRESHOLD) (Some (200 :: u32)) = Some 200"
    "(420000 :: u64) div REWARD_DIVISOR = 1" "OUTPUT_SATS = 800" "(200 :: u32) < LOCKTIME_THRESHOLD"
    "MAX_FEE_RATE = 3"
    by (simp_all add: bad_script_def MAX_PAYOUT_SCRIPT_def slot_script_def slot_is_empty_def NO_SPLIT_def EMPTY_SLOT_def keep_if_def
        LOCKTIME_THRESHOLD_def REWARD_DIVISOR_def OUTPUT_SATS_def SPLIT_OUTPUT_SATS_def MAX_FEE_RATE_def)
  have "plan_claim zero_sha demo_small claim_vault pf claim_terms 1 None = Inr ?plan"
    unfolding plan_claim_def st F
    apply (simp add: ok_or_def G F pf of_proof_def demo_head_height claim_bits Let_def cong: result_bind_weak)
    apply (fold leaf_def)
    apply (simp add: ok_or_def v G F of_proof_def claim_accepted shr Let_def cong: result_bind_weak)
    apply (fold nx_def)
    apply (simp add: ok_or_def pf(2) sub fl G not_le Let_def cong: result_bind_weak)
    done
  moreover have "length (claim_unlocking demo_small pf claim_terms ?plan) \<le> MAX_UNLOCKING_BYTES"
  proof -
    have "split_wf (ct_split claim_terms)" by (simp add: claim_terms_def NO_SPLIT_def EMPTY_SLOT_def split_wf_def slot_wf_def ZERO_HASH_def)
    moreover have "length (lf_payout_hash leaf) = 32" by (simp add: leaf_def leaf_new_def double_sha256_def zero_sha_def ZERO_HASH_def)
    ultimately have "length (claim_unlocking demo_small pf claim_terms ?plan)
        \<le> 106 + length pf + unat (push_prefix_len (length (dp_redeem_script demo_small))) + length (dp_redeem_script demo_small)"
      by (intro length_unlocking) (simp_all add: pf demo_small_def)
    then show ?thesis by (simp add: pf demo_small_def push_prefix_len_def MAX_UNLOCKING_BYTES_def)
  qed
  ultimately show ?thesis by blast
qed

lemma claim_ready:
  "\<exists>pf plan. plan_claim zero_sha demo_small claim_vault pf claim_terms 1 None = Inr plan \<and>
    length (claim_unlocking demo_small pf claim_terms plan) \<le> MAX_UNLOCKING_BYTES"
  "deployment_wf demo_small" "vault_wf claim_vault" "split_wf (ct_split claim_terms)"
proof -
  from claim_proof_bytes obtain pf where "from_bytes pf = Inr claim_proof" "length pf = 149" by blast
  from claim_planned [OF this] show "\<exists>pf plan. plan_claim zero_sha demo_small claim_vault pf claim_terms 1 None = Inr plan \<and>
    length (claim_unlocking demo_small pf claim_terms plan) \<le> MAX_UNLOCKING_BYTES" by blast
  show "deployment_wf demo_small" by (simp add: deployment_wf_def demo_small_def MAX_UNLOCKING_BYTES_def CLAIM_FIXED_BYTES_def push_prefix_len_def)
  show "vault_wf claim_vault" by (simp add: vault_wf_def claim_vault_def length_state_encode)
  show "split_wf (ct_split claim_terms)" by (simp add: claim_terms_def NO_SPLIT_def EMPTY_SLOT_def split_wf_def slot_wf_def ZERO_HASH_def)
qed

theorem planned_claim_is_built_witness:
  "\<exists>pf plan raw. plan_claim zero_sha demo_small claim_vault pf claim_terms 1 None = Inr plan \<and>
    build_claim zero_sha (\<lambda>_. ''00'') demo_small claim_vault pf claim_terms 1 None =
      Inr \<lparr>cl_raw = raw, cl_txid = ''00'', cl_plan = plan\<rparr>"
proof -
  from claim_ready(1) obtain pf plan where p: "plan_claim zero_sha demo_small claim_vault pf claim_terms 1 None = Inr plan"
    "length (claim_unlocking demo_small pf claim_terms plan) \<le> MAX_UNLOCKING_BYTES" by blast
  from planned_claim_is_built [OF zero_sha_hash32 claim_ready(2-4) p, of "\<lambda>_. ''00''"] p(1) show ?thesis by blast
qed

theorem accepted_claim_conserves_witness:
  "\<exists>raw tx. check_claim zero_sha demo_small claim_vault raw = Inr () \<and> parse_tx raw = Inr tx \<and>
    (\<Sum>out\<leftarrow>t_outputs tx. unat (tx_amount out)) = 420000"
proof -
  from claim_ready(1) obtain pf plan where p: "plan_claim zero_sha demo_small claim_vault pf claim_terms 1 None = Inr plan"
    "length (claim_unlocking demo_small pf claim_terms plan) \<le> MAX_UNLOCKING_BYTES" by blast
  note c = built_claim_checks(2) [OF zero_sha_hash32 claim_ready(2-4) p]
  have t: "unat (va_tokens claim_vault) = 420000" by (simp add: claim_vault_def)
  from accepted_claim_conserves [OF c] obtain tx vault_out rest where
    "parse_tx (claim_raw demo_small claim_vault (claim_unlocking demo_small pf claim_terms plan) plan) = Inr tx"
    "t_outputs tx = vault_out # rest"
    "unat (tx_amount vault_out) + (\<Sum>out\<leftarrow>rest. unat (tx_amount out)) = unat (va_tokens claim_vault)" by blast
  with c t show ?thesis by (metis list.simps(9) sum_list.Cons)
qed

end
