(* ===== verification/Disclosure.thy ===== *)
theory Disclosure
  imports Merge_Set
begin

text \<open>
  Leaf disclosure, from \<open>src/stratum_v2/merge/disclosure.rs\<close>: the leaves behind a coinbase's output 0 as a Job Declaration
  client declares them and as a pool shows them to a miner, a job's leaves with their branches, a win's proof, the extension
  negotiation and the audit of a public pool's leaves. The digest is an argument.
\<close>

section \<open>Disclosures\<close>

definition DISCLOSURE_MAGIC :: bytes where "DISCLOSURE_MAGIC = [0x43, 0x54, 0x4d, 0x44]"
definition DISCLOSURE_VERSION :: u8 where "DISCLOSURE_VERSION = 2"

record DisclosedLeaf =
  dl_leaf :: Leaf
  dl_split :: Split

record Disclosure =
  dc_leaves :: "DisclosedLeaf list"

datatype disclosure_error =
  NotADisclosure | ForeignExt | NoLeafForRoot | SharedSlot | OtherRoot | NotJobLeaves | OtherBranch | NotAWinProof | PaysAnother

definition disclosure_from_job :: "AuxJob \<Rightarrow> Disclosure" where
  "disclosure_from_job job = \<lparr>dc_leaves = map (\<lambda>entry. \<lparr>dl_leaf = ae_leaf entry, dl_split = ae_split entry\<rparr>) (aj_entries job)\<rparr>"

definition disclosed_bytes :: "DisclosedLeaf \<Rightarrow> bytes" where
  "disclosed_bytes d = leaf_preimage (dl_leaf d) @ (if split_is_none (dl_split d) then [0] else 1 # split_preimage (dl_split d))"

definition disclosure_encode :: "Disclosure \<Rightarrow> bytes" where
  "disclosure_encode d =
     DISCLOSURE_MAGIC @ [DISCLOSURE_VERSION] @ [word_of_nat (length (dc_leaves d))] @ concat (map disclosed_bytes (dc_leaves d))"

text \<open>\<open>split_first\<close> and \<open>split_at_checked\<close> of a slice.\<close>

definition split_first :: "'a list \<Rightarrow> ('a \<times> 'a list) option" where
  "split_first bs = (case bs of [] \<Rightarrow> None | b # rest \<Rightarrow> Some (b, rest))"

definition split_at_checked :: "nat \<Rightarrow> 'a list \<Rightarrow> ('a list \<times> 'a list) option" where
  "split_at_checked n bs = (if n \<le> length bs then Some (take n bs, drop n bs) else None)"

definition read_split :: "bytes \<Rightarrow> (disclosure_error, Split \<times> bytes) result" where
  "read_split after =
     result_bind (ok_or NotADisclosure (split_first after)) (\<lambda>(flag, after).
     if flag = 0 then Inr (NO_SPLIT, after)
     else if flag = 1 then
       result_bind (ok_or NotADisclosure (split_at_checked PREIMAGE_LEN after)) (\<lambda>(preimage, after).
         case split_parse preimage of Inl _ \<Rightarrow> Inl NotADisclosure | Inr split \<Rightarrow> Inr (split, after))
     else Inl NotADisclosure)"

definition read_disclosed :: "(bytes \<Rightarrow> bytes) \<Rightarrow> bytes \<Rightarrow> (disclosure_error, DisclosedLeaf \<times> bytes) result" where
  "read_disclosed sha rest =
     result_bind (ok_or NotADisclosure (split_at_checked LEAF_LEN rest)) (\<lambda>(preimage, after).
     result_bind (ok_or NotADisclosure (leaf_parse preimage)) (\<lambda>leaf.
     result_bind (read_split after) (\<lambda>(split, after).
     if split_ext sha split \<noteq> lf_ext leaf then Inl ForeignExt else Inr (\<lparr>dl_leaf = leaf, dl_split = split\<rparr>, after))))"

fun read_leaves :: "(bytes \<Rightarrow> bytes) \<Rightarrow> nat \<Rightarrow> bytes \<Rightarrow> (disclosure_error, DisclosedLeaf list \<times> bytes) result" where
  "read_leaves sha 0 rest = Inr ([], rest)"
| "read_leaves sha (Suc n) rest =
     result_bind (read_disclosed sha rest) (\<lambda>(d, rest). result_bind (read_leaves sha n rest) (\<lambda>(ds, rest). Inr (d # ds, rest)))"

definition disclosure_decode :: "(bytes \<Rightarrow> bytes) \<Rightarrow> bytes \<Rightarrow> (disclosure_error, Disclosure) result" where
  "disclosure_decode sha bytes =
     (if take 4 bytes \<noteq> DISCLOSURE_MAGIC then Inl NotADisclosure else
      result_bind (ok_or NotADisclosure (split_first (drop 4 bytes))) (\<lambda>(version, rest).
      result_bind (ok_or NotADisclosure (split_first rest)) (\<lambda>(count, rest).
      if version \<noteq> DISCLOSURE_VERSION \<or> unat count > MAX_LEAVES then Inl NotADisclosure else
      result_bind (read_leaves sha (unat count) rest) (\<lambda>(leaves, rest).
      if rest \<noteq> [] then Inl NotADisclosure else Inr \<lparr>dc_leaves = leaves\<rparr>))))"

definition disclosed_slots :: "(bytes \<Rightarrow> bytes) \<Rightarrow> Disclosure \<Rightarrow> AuxCommitment \<Rightarrow> u32 list" where
  "disclosed_slots sha d c = map (\<lambda>disclosed. slot sha (lf_category (dl_leaf disclosed)) (ac_salt c) (ac_height c)) (dc_leaves d)"

definition check_root :: "(bytes \<Rightarrow> bytes) \<Rightarrow> Disclosure \<Rightarrow> AuxCommitment \<Rightarrow> (disclosure_error, unit) result" where
  "check_root sha d c =
     (if dc_leaves d = [] then (if c = EMPTY_COMMITMENT then Inr () else Inl NoLeafForRoot)
      else let slots = disclosed_slots sha d c
           in if \<exists>index<length slots. slots ! index \<in> set (take index slots) then Inl SharedSlot
              else let layout = \<lparr>l_height = ac_height c, l_salt = ac_salt c, l_slots = slots\<rparr>;
                       hashes = map (\<lambda>disclosed. leaf_hash sha (dl_leaf disclosed)) (dc_leaves d)
                   in if root (build sha layout hashes) \<noteq> ac_root c then Inl OtherRoot else Inr ())"

section \<open>A job's leaves and a win's proof\<close>

record JobLeaves =
  jl_channel :: u32
  jl_job :: u32
  jl_output :: bytes
  jl_disclosure :: Disclosure
  jl_branches :: "hash list list"

definition job_leaves_from :: "u32 \<Rightarrow> u32 \<Rightarrow> AuxJob \<Rightarrow> JobLeaves" where
  "job_leaves_from channel job aux =
     \<lparr>jl_channel = channel, jl_job = job, jl_output = aj_output aux, jl_disclosure = disclosure_from_job aux,
      jl_branches = map (\<lambda>entry. branch (aj_tree aux) (ae_slot entry)) (aj_entries aux)\<rparr>"

definition job_leaves_encode :: "JobLeaves \<Rightarrow> bytes" where
  "job_leaves_encode j =
     to_le_bytes (jl_channel j) @ to_le_bytes (jl_job j) @ jl_output j @
     to_le_bytes (word_of_nat (length (disclosure_encode (jl_disclosure j))) :: u16) @ disclosure_encode (jl_disclosure j) @
     concat (map concat (jl_branches j))"

text \<open>\<open>as_chunks::<32>().0\<close>.\<close>

fun chunks :: "nat \<Rightarrow> nat \<Rightarrow> bytes \<Rightarrow> bytes list" where
  "chunks n 0 bs = []"
| "chunks n (Suc k) bs = take n bs # chunks n k (drop n bs)"

fun read_branches ::
  "(bytes \<Rightarrow> bytes) \<Rightarrow> AuxCommitment \<Rightarrow> DisclosedLeaf list \<Rightarrow> bytes \<Rightarrow> (disclosure_error, hash list list \<times> bytes) result" where
  "read_branches sha c [] rest = Inr ([], rest)"
| "read_branches sha c (disclosed # ds) rest =
     result_bind (ok_or NotJobLeaves (split_at_checked (32 * unat (ac_height c)) rest)) (\<lambda>(b, after).
     let b = chunks 32 (unat (ac_height c)) b;
         s = slot sha (lf_category (dl_leaf disclosed)) (ac_salt c) (ac_height c)
     in if fold_branch sha (leaf_hash sha (dl_leaf disclosed)) s b \<noteq> ac_root c then Inl OtherBranch
        else result_bind (read_branches sha c ds after) (\<lambda>(bs, rest). Inr (b # bs, rest)))"

definition job_leaves_decode :: "(bytes \<Rightarrow> bytes) \<Rightarrow> bytes \<Rightarrow> (disclosure_error, JobLeaves) result" where
  "job_leaves_decode sha bytes =
     result_bind (ok_or NotJobLeaves (get_range bytes 0 4)) (\<lambda>channel.
     result_bind (ok_or NotJobLeaves (get_range bytes 4 8)) (\<lambda>job.
     result_bind (ok_or NotJobLeaves (get_range bytes 8 (8 + OUTPUT_LEN))) (\<lambda>output.
     result_bind (ok_or NotJobLeaves (commitment_parse output)) (\<lambda>c.
     let at = 8 + OUTPUT_LEN in
     result_bind (ok_or NotJobLeaves (get_range bytes at (at + 2))) (\<lambda>n.
     let length = unat (from_le_bytes n :: u16) in
     result_bind (ok_or NotJobLeaves (get_range bytes (at + 2) (at + 2 + length))) (\<lambda>disclosed.
     result_bind (disclosure_decode sha disclosed) (\<lambda>disclosure.
     result_bind (check_root sha disclosure c) (\<lambda>_.
     result_bind (read_branches sha c (dc_leaves disclosure) (drop (at + 2 + length) bytes)) (\<lambda>(branches, rest).
     if rest \<noteq> [] then Inl NotJobLeaves
     else Inr \<lparr>jl_channel = from_le_bytes channel, jl_job = from_le_bytes job, jl_output = output, jl_disclosure = disclosure,
               jl_branches = branches\<rparr>)))))))))"

record WinProof =
  wp_channel :: u32
  wp_job :: u32
  wp_category :: hash
  wp_proof :: bytes
  wp_split :: Split

definition win_proof_encode :: "WinProof \<Rightarrow> bytes" where
  "win_proof_encode w =
     to_le_bytes (wp_channel w) @ to_le_bytes (wp_job w) @ wp_category w @ to_le_bytes (word_of_nat (length (wp_proof w)) :: u16) @ wp_proof w @
     (if split_is_none (wp_split w) then [0] else word_of_nat PREIMAGE_LEN # split_preimage (wp_split w))"

definition win_proof_decode :: "bytes \<Rightarrow> (disclosure_error, WinProof) result" where
  "win_proof_decode bytes =
     result_bind (ok_or NotAWinProof (get_range bytes 0 4)) (\<lambda>channel.
     result_bind (ok_or NotAWinProof (get_range bytes 4 8)) (\<lambda>job.
     result_bind (ok_or NotAWinProof (get_range bytes 8 40)) (\<lambda>category.
     result_bind (ok_or NotAWinProof (get_range bytes 40 42)) (\<lambda>n.
     let len = unat (from_le_bytes n :: u16) in
     result_bind (ok_or NotAWinProof (get_range bytes 42 (42 + len))) (\<lambda>pf.
     let at = 42 + len in
     result_bind (ok_or NotAWinProof (get_range bytes at (at + 1))) (\<lambda>m.
     result_bind
       (if m = [0] then Inr NO_SPLIT
        else if m = [69] then
          result_bind (ok_or NotAWinProof (get_range bytes (at + 1) (at + 1 + PREIMAGE_LEN))) (\<lambda>preimage.
            case split_parse preimage of Inl _ \<Rightarrow> Inl NotAWinProof | Inr split \<Rightarrow> Inr split)
        else Inl NotAWinProof)
       (\<lambda>split.
     let end_at = at + 1 + (if split_is_none split then 0 else PREIMAGE_LEN) in
     if length bytes \<noteq> end_at then Inl NotAWinProof
     else Inr \<lparr>wp_channel = from_le_bytes channel, wp_job = from_le_bytes job, wp_category = category, wp_proof = pf,
               wp_split = split\<rparr>)))))))"

section \<open>Negotiation and audit\<close>

definition requested_extensions :: "bytes \<Rightarrow> (u16 \<times> u16 list) option" where
  "requested_extensions payload =
     Option.bind (get_range payload 0 2) (\<lambda>request.
     Option.bind (get_range payload 2 4) (\<lambda>count.
       let n = unat (from_le_bytes count :: u16); list = drop 4 payload
       in if length list \<noteq> 2 * n then None else Some (from_le_bytes request, map from_le_bytes (chunks 2 n list))))"

definition extensions_payload :: "u16 \<Rightarrow> u16 list \<Rightarrow> bytes" where
  "extensions_payload request extensions =
     to_le_bytes request @ to_le_bytes (word_of_nat (length extensions) :: u16) @ concat (map to_le_bytes extensions)"

definition audit_public :: "(bytes \<Rightarrow> bytes) \<Rightarrow> Disclosure \<Rightarrow> bytes \<Rightarrow> bytes \<Rightarrow> bytes \<Rightarrow> (disclosure_error, unit) result" where
  "audit_public sha d miner donation operator =
     (let miner = double_sha256 sha miner; donation = double_sha256 sha donation; operator = double_sha256 sha operator
      in if list_all (\<lambda>disclosed.
             let payout = lf_payout_hash (dl_leaf disclosed);
                 pays = (if split_is_none (dl_split disclosed) then payout \<in> {miner, donation, operator} else payout = miner);
                 split = slot_is_empty (sp_donation (dl_split disclosed)) \<or> sl_script_hash (sp_donation (dl_split disclosed)) = donation;
                 fee = slot_is_empty (sp_fee (dl_split disclosed)) \<or> sl_script_hash (sp_fee (dl_split disclosed)) = operator
             in pays \<and> split \<and> fee) (dc_leaves d)
         then Inr () else Inl PaysAnother)"

section \<open>Round trips\<close>

lemma split_at_checked_Some: "split_at_checked n bs = Some (a, b) \<longleftrightarrow> length a = n \<and> bs = a @ b"
  by (auto simp: split_at_checked_def min_def)

lemma split_first_Some: "split_first bs = Some (a, b) \<longleftrightarrow> bs = a # b"
  by (auto simp: split_first_def split: list.splits)

definition disclosed_wf :: "(bytes \<Rightarrow> bytes) \<Rightarrow> DisclosedLeaf \<Rightarrow> bool" where
  "disclosed_wf sha d \<longleftrightarrow> leaf_wf (dl_leaf d) \<and> split_wf (dl_split d) \<and> split_ext sha (dl_split d) = lf_ext (dl_leaf d)"

lemma split_none_iff: "split_wf s \<Longrightarrow> split_is_none s \<longleftrightarrow> s = NO_SPLIT"
  by (cases s; cases "sp_donation s"; cases "sp_fee s")
    (auto simp: split_wf_def slot_wf_def split_is_none_def slot_is_empty_def NO_SPLIT_def EMPTY_SLOT_def)

lemma NO_SPLIT_wf: "split_wf NO_SPLIT" "split_is_none NO_SPLIT"
  by (simp_all add: split_wf_def slot_wf_def NO_SPLIT_def EMPTY_SLOT_def ZERO_HASH_def split_is_none_def slot_is_empty_def)

lemma length_leaf_preimage: "leaf_wf l \<Longrightarrow> length (leaf_preimage l) = LEAF_LEN"
  by (simp add: leaf_preimage_def leaf_wf_def LEAF_TAG_def LEAF_LEN_def)

lemma length_split_bytes: "split_wf s \<Longrightarrow> length (split_preimage s) = PREIMAGE_LEN"
  by (simp add: split_preimage_def split_wf_def slot_wf_def PREIMAGE_LEN_def)

lemma read_split_iff:
  "read_split after = Inr (s, rest) \<longleftrightarrow> split_wf s \<and> after = (if split_is_none s then [0] else 1 # split_preimage s) @ rest"
proof (cases after)
  case (Cons flag more)
  consider "flag = 0" | "flag = 1" | "flag \<noteq> 0" "flag \<noteq> 1" by blast
  then show ?thesis
  proof cases
    case 1
    then show ?thesis using Cons split_none_iff [of s] NO_SPLIT_wf by (auto simp: read_split_def split_first_def ok_or_def)
  next
    case 2
    have "read_split after = Inr (s, rest) \<longleftrightarrow> (\<exists>p. length p = PREIMAGE_LEN \<and> more = p @ rest \<and> split_parse p = Inr s)"
      by (auto simp: read_split_def Cons 2 split_first_def ok_or_def split_at_checked_def result_bind_Inr_iff split: option.splits sum.splits)
        (metis append_take_drop_id length_take min_absorb2)+
    also have "\<dots> \<longleftrightarrow> split_wf s \<and> \<not> split_is_none s \<and> more = split_preimage s @ rest"
      unfolding split_parse_iff using length_split_bytes by blast
    finally show ?thesis using Cons 2 by auto
  next
    case 3
    then show ?thesis using Cons by (auto simp: read_split_def split_first_def ok_or_def)
  qed
qed (auto simp: read_split_def split_first_def ok_or_def)

lemma read_disclosed_iff: "read_disclosed sha rest = Inr (d, after) \<longleftrightarrow> disclosed_wf sha d \<and> rest = disclosed_bytes d @ after"
proof -
  have "read_disclosed sha rest = Inr (d, after) \<longleftrightarrow> (\<exists>p mid. length p = LEAF_LEN \<and> rest = p @ mid \<and> leaf_parse p = Some (dl_leaf d) \<and>
      read_split mid = Inr (dl_split d, after) \<and> split_ext sha (dl_split d) = lf_ext (dl_leaf d))"
    unfolding read_disclosed_def result_bind_Inr_iff ok_or_Inr_iff
    by (cases d) (auto simp: split_at_checked_Some result_bind_Inr_iff ok_or_Inr_iff)
  also have "\<dots> \<longleftrightarrow> disclosed_wf sha d \<and> rest = disclosed_bytes d @ after"
    unfolding read_split_iff leaf_parse_iff disclosed_wf_def disclosed_bytes_def using length_leaf_preimage by auto
  finally show ?thesis .
qed

lemma read_leaves_iff:
  "read_leaves sha n rest = Inr (ds, after) \<longleftrightarrow> length ds = n \<and> list_all (disclosed_wf sha) ds \<and> rest = concat (map disclosed_bytes ds) @ after"
proof (induction n arbitrary: rest ds)
  case 0
  then show ?case by auto
next
  case (Suc n)
  have "read_leaves sha (Suc n) rest = Inr (ds, after) \<longleftrightarrow>
      (\<exists>d es mid. ds = d # es \<and> read_disclosed sha rest = Inr (d, mid) \<and> read_leaves sha n mid = Inr (es, after))"
    by (auto simp: result_bind_Inr_iff)
  then show ?case by (cases ds) (auto simp: Suc.IH read_disclosed_iff)
qed

definition disclosure_wf :: "(bytes \<Rightarrow> bytes) \<Rightarrow> Disclosure \<Rightarrow> bool" where
  "disclosure_wf sha d \<longleftrightarrow> length (dc_leaves d) \<le> 16 \<and> list_all (disclosed_wf sha) (dc_leaves d)"

lemma disclosure_decode_iff: "disclosure_decode sha bs = Inr d \<longleftrightarrow> disclosure_wf sha d \<and> bs = disclosure_encode d"
proof -
  have m: "length DISCLOSURE_MAGIC = 4" by (simp add: DISCLOSURE_MAGIC_def)
  have "disclosure_decode sha bs = Inr d \<longleftrightarrow> (\<exists>count rest ds. take 4 bs = DISCLOSURE_MAGIC \<and> drop 4 bs = DISCLOSURE_VERSION # count # rest \<and>
      unat count \<le> 16 \<and> read_leaves sha (unat count) rest = Inr (ds, []) \<and> d = \<lparr>dc_leaves = ds\<rparr>)"
  proof (cases "drop 4 bs")
    case (Cons version more)
    then show ?thesis by (cases more) (auto simp: disclosure_decode_def split_first_def ok_or_def result_bind_Inr_iff MAX_LEAVES_def)
  qed (simp add: disclosure_decode_def split_first_def ok_or_def DISCLOSURE_MAGIC_def)
  also have "\<dots> \<longleftrightarrow> (\<exists>count ds. bs = DISCLOSURE_MAGIC @ DISCLOSURE_VERSION # count # concat (map disclosed_bytes ds) \<and> length ds = unat count \<and>
      unat count \<le> 16 \<and> list_all (disclosed_wf sha) ds \<and> d = \<lparr>dc_leaves = ds\<rparr>)" (is "?l \<longleftrightarrow> ?r")
  proof
    assume ?l
    then obtain count rest ds where r: "take 4 bs = DISCLOSURE_MAGIC" "drop 4 bs = DISCLOSURE_VERSION # count # rest" "unat count \<le> 16"
      "length ds = unat count" "list_all (disclosed_wf sha) ds" "rest = concat (map disclosed_bytes ds)" "d = \<lparr>dc_leaves = ds\<rparr>"
      unfolding read_leaves_iff by auto
    then have "bs = DISCLOSURE_MAGIC @ DISCLOSURE_VERSION # count # rest" by (metis append_take_drop_id)
    with r show ?r by blast
  next
    assume ?r
    then show ?l unfolding read_leaves_iff by (auto simp: m)
  qed
  also have "\<dots> \<longleftrightarrow> disclosure_wf sha d \<and> bs = disclosure_encode d"
    by (cases d) (auto simp: disclosure_wf_def disclosure_encode_def unat_of_nat intro!: exI [of _ "word_of_nat _"])
  finally show ?thesis .
qed

section \<open>Roots\<close>

definition disclosed_layout :: "(bytes \<Rightarrow> bytes) \<Rightarrow> Disclosure \<Rightarrow> AuxCommitment \<Rightarrow> Layout" where
  "disclosed_layout sha d c = \<lparr>l_height = ac_height c, l_salt = ac_salt c, l_slots = disclosed_slots sha d c\<rparr>"

lemma check_root_iff:
  "check_root sha d c = Inr () \<longleftrightarrow> (if dc_leaves d = [] then c = EMPTY_COMMITMENT else distinct (disclosed_slots sha d c) \<and>
     root (build sha (disclosed_layout sha d c) (map (\<lambda>x. leaf_hash sha (dl_leaf x)) (dc_leaves d))) = ac_root c)"
  unfolding check_root_def duplicate_iff disclosed_layout_def Let_def by simp

text \<open>The branch of a disclosed leaf's slot opens the root to it.\<close>

lemma disclosed_branch:
  assumes "check_root sha d c = Inr ()" and "i < length (dc_leaves d)" and "ac_height c \<le> MAX_HEIGHT"
  defines "b \<equiv> branch (build sha (disclosed_layout sha d c) (map (\<lambda>x. leaf_hash sha (dl_leaf x)) (dc_leaves d)))
      (slot sha (lf_category (dl_leaf (dc_leaves d ! i))) (ac_salt c) (ac_height c))"
  shows "fold_branch sha (leaf_hash sha (dl_leaf (dc_leaves d ! i))) (slot sha (lf_category (dl_leaf (dc_leaves d ! i))) (ac_salt c) (ac_height c)) b = ac_root c"
    and "length b = unat (ac_height c)"
proof -
  let ?hashes = "map (\<lambda>x. leaf_hash sha (dl_leaf x)) (dc_leaves d)"
  let ?s = "slot sha (lf_category (dl_leaf (dc_leaves d ! i))) (ac_salt c) (ac_height c)"
  from assms(2) have ne: "dc_leaves d \<noteq> []" by auto
  with assms(1) have r: "distinct (disclosed_slots sha d c)" "root (build sha (disclosed_layout sha d c) ?hashes) = ac_root c"
    by (simp_all add: check_root_iff)
  have m: "min (ac_height c) MAX_HEIGHT = ac_height c" using assms(3) by (simp add: min_def)
  have s: "l_slots (disclosed_layout sha d c) ! i = ?s" using assms(2) by (simp add: disclosed_layout_def disclosed_slots_def)
  have "unat ?s < 2 ^ unat (min (ac_height c) MAX_HEIGHT)" by (rule slot_bound)
  then have u: "unat (l_slots (disclosed_layout sha d c) ! i) < 2 ^ unat (min (l_height (disclosed_layout sha d c)) MAX_HEIGHT)"
    unfolding s by (simp add: disclosed_layout_def)
  have l: "distinct (l_slots (disclosed_layout sha d c))" "length ?hashes = length (l_slots (disclosed_layout sha d c))" "i < length ?hashes"
    using r assms(2) by (simp_all add: disclosed_layout_def disclosed_slots_def)
  note B = build_branch [OF l u, of sha, unfolded s r(2)]
  show "fold_branch sha (leaf_hash sha (dl_leaf (dc_leaves d ! i))) ?s b = ac_root c"
    using B(1) assms(2) by (simp add: b_def)
  show "length b = unat (ac_height c)" using B(2) by (simp add: b_def disclosed_layout_def m)
qed

lemma length_leaf_hash: "hash32 sha \<Longrightarrow> length (leaf_hash sha l) = 32"
  by (simp add: leaf_hash_def hash32.length_sha)

text \<open>The collision that two disclosures of one root exhibit when they show a token different leaves.\<close>

definition disclosed_opening :: "(bytes \<Rightarrow> bytes) \<Rightarrow> AuxCommitment \<Rightarrow> Disclosure \<Rightarrow> hash \<Rightarrow> hash list" where
  "disclosed_opening sha c d category = branch (build sha (disclosed_layout sha d c) (map (\<lambda>x. leaf_hash sha (dl_leaf x)) (dc_leaves d)))
     (slot sha category (ac_salt c) (ac_height c))"

definition disclosed_collision ::
  "(bytes \<Rightarrow> bytes) \<Rightarrow> AuxCommitment \<Rightarrow> Disclosure \<Rightarrow> Disclosure \<Rightarrow> Leaf \<Rightarrow> Leaf \<Rightarrow> (bytes \<times> bytes) option" where
  "disclosed_collision sha c d1 d2 l1 l2 =
     (if leaf_hash sha l1 = leaf_hash sha l2 then Some ([LEAF_PREFIX] @ leaf_preimage l1, [LEAF_PREFIX] @ leaf_preimage l2)
      else fold_collision sha (leaf_hash sha l1) (leaf_hash sha l2) (slot sha (lf_category l1) (ac_salt c) (ac_height c))
             (disclosed_opening sha c d1 (lf_category l1)) (disclosed_opening sha c d2 (lf_category l2)))"

lemma disclosures_agree:
  assumes sha: "hash32 sha" and root: "check_root sha d1 c = Inr ()" "check_root sha d2 c = Inr ()" and h: "ac_height c \<le> MAX_HEIGHT"
    and x: "x1 \<in> set (dc_leaves d1)" "x2 \<in> set (dc_leaves d2)" and cat: "lf_category (dl_leaf x1) = lf_category (dl_leaf x2)"
    and wf: "leaf_wf (dl_leaf x1)" "leaf_wf (dl_leaf x2)" and ne: "dl_leaf x1 \<noteq> dl_leaf x2"
  shows "collides sha (disclosed_collision sha c d1 d2 (dl_leaf x1) (dl_leaf x2))"
proof (cases "leaf_hash sha (dl_leaf x1) = leaf_hash sha (dl_leaf x2)")
  case True
  then show ?thesis using leaf_preimage_inj [OF wf] ne by (auto simp: disclosed_collision_def collides_def leaf_hash_def)
next
  case False
  from x obtain i j where i: "i < length (dc_leaves d1)" "x1 = dc_leaves d1 ! i" and j: "j < length (dc_leaves d2)" "x2 = dc_leaves d2 ! j"
    by (auto simp: in_set_conv_nth)
  note a = disclosed_branch [OF root(1) i(1) h, folded i(2), folded disclosed_opening_def]
    and b = disclosed_branch [OF root(2) j(1) h, folded j(2), folded disclosed_opening_def]
  have "\<forall>s\<in>set (disclosed_opening sha c d k). length s = 32" for d k
    unfolding disclosed_opening_def using branch_lengths [OF sha, of "map (\<lambda>x. leaf_hash sha (dl_leaf x)) (dc_leaves d)"]
    by (auto simp: list_all_iff length_leaf_hash [OF sha])
  then have "collides sha (fold_collision sha (leaf_hash sha (dl_leaf x1)) (leaf_hash sha (dl_leaf x2))
      (slot sha (lf_category (dl_leaf x1)) (ac_salt c) (ac_height c))
      (disclosed_opening sha c d1 (lf_category (dl_leaf x1))) (disclosed_opening sha c d2 (lf_category (dl_leaf x2))))"
    using a b False by (intro fold_binding [OF _ _ _ _ sha]) (auto simp: length_leaf_hash [OF sha] cat)
  then show ?thesis using False by (simp add: disclosed_collision_def)
qed

section \<open>A job's own disclosure\<close>

lemma disclosure_of_job:
  assumes found: "search_entries sha (ts_entries ts) = Some (ts_layout ts)" and ne: "ts_entries ts \<noteq> []"
  shows "check_root sha (disclosure_from_job (job_build sha ts terms)) (aj_commitment (job_build sha ts terms)) = Inr ()"
    and "disclosed_slots sha (disclosure_from_job (job_build sha ts terms)) (aj_commitment (job_build sha ts terms)) = map ae_slot (aj_entries (job_build sha ts terms))"
proof -
  let ?job = "job_build sha ts terms" and ?layout = "ts_layout ts"
  note L = search_entries_layout [OF found]
  have cats: "map (\<lambda>e. lf_category (ae_leaf e)) (aj_entries ?job) = map (\<lambda>e. mt_category (se_token e)) (ts_entries ts)"
    using L(2) by (auto simp: job_build_simps job_entry_def leaf_new_def Let_def comp_def intro!: nth_equalityI split: prod.splits)
  have slots: "map ae_slot (aj_entries ?job) = l_slots ?layout"
    using L(2) by (auto simp: job_build_simps job_entry_def Let_def comp_def intro!: nth_equalityI split: prod.splits)
  have "disclosed_slots sha (disclosure_from_job ?job) (aj_commitment ?job) =
      map (\<lambda>c. slot sha c (l_salt ?layout) (l_height ?layout)) (map (\<lambda>e. lf_category (ae_leaf e)) (aj_entries ?job))"
    by (simp add: disclosed_slots_def disclosure_from_job_def job_build_simps(3) comp_def)
  also have "\<dots> = l_slots ?layout" unfolding cats by (subst L(4)) (simp add: comp_def)
  finally have s: "disclosed_slots sha (disclosure_from_job ?job) (aj_commitment ?job) = l_slots ?layout" .
  then show "disclosed_slots sha (disclosure_from_job ?job) (aj_commitment ?job) = map ae_slot (aj_entries ?job)" by (simp add: slots)
  have "aj_entries ?job \<noteq> []" using ne L(2) slots by (metis length_0_conv length_map)
  moreover have "disclosed_layout sha (disclosure_from_job ?job) (aj_commitment ?job) = ?layout"
    unfolding disclosed_layout_def s by (simp add: job_build_simps(3))
  ultimately show "check_root sha (disclosure_from_job ?job) (aj_commitment ?job) = Inr ()"
    unfolding check_root_iff s using L(1) by (simp add: disclosure_from_job_def comp_def job_build_simps(3)) (simp add: job_build_simps comp_def)
qed

section \<open>Messages\<close>

lemma chunks_concat: "list_all (\<lambda>b. length b = n) bs \<Longrightarrow> chunks n (length bs) (concat bs @ rest) = bs"
  by (induction bs) simp_all

lemma length_concat_fixed: "list_all (\<lambda>b. length b = n) bs \<Longrightarrow> length (concat bs) = length bs * n"
  by (induction bs) simp_all

definition opens :: "(bytes \<Rightarrow> bytes) \<Rightarrow> AuxCommitment \<Rightarrow> DisclosedLeaf \<Rightarrow> hash list \<Rightarrow> bool" where
  "opens sha c x b \<longleftrightarrow> length b = unat (ac_height c) \<and> list_all (\<lambda>h. length h = 32) b \<and>
     fold_branch sha (leaf_hash sha (dl_leaf x)) (slot sha (lf_category (dl_leaf x)) (ac_salt c) (ac_height c)) b = ac_root c"

lemma read_branches_ok: "list_all2 (opens sha c) ds bs \<Longrightarrow> read_branches sha c ds (concat (map concat bs) @ rest) = Inr (bs, rest)"
proof (induction ds bs rule: list_all2_induct)
  case (Cons x ds b bs)
  then have l: "length (concat b) = 32 * unat (ac_height c)" using length_concat_fixed [of 32 b] by (simp add: opens_def)
  have "chunks 32 (unat (ac_height c)) (concat b) = b" using Cons(1) chunks_concat [of 32 b "[]"] by (simp add: opens_def)
  moreover have "split_at_checked (32 * unat (ac_height c)) (concat b @ concat (map concat bs) @ rest) = Some (concat b, concat (map concat bs) @ rest)"
    by (simp add: split_at_checked_Some l)
  ultimately show ?case using Cons by (simp add: ok_or_def opens_def Let_def)
qed simp

lemma length_concat_le: "(\<And>x. x \<in> set xs \<Longrightarrow> length (f x) \<le> k) \<Longrightarrow> length (concat (map f xs)) \<le> length xs * k"
proof (induction xs)
  case (Cons x xs)
  have "length (f x) \<le> k" "length (concat (map f xs)) \<le> length xs * k" using Cons by simp_all
  then show ?case by simp
qed simp

lemma ok_or_Some: "ok_or e (Some a) = Inr a"
  by (simp add: ok_or_def)

lemma length_disclosure_encode:
  assumes "disclosure_wf sha d"
  shows "length (disclosure_encode d) \<le> 3830"
proof -
  have "length (disclosed_bytes x) \<le> 239" if "x \<in> set (dc_leaves d)" for x
  proof -
    have "disclosed_wf sha x" using that assms by (auto simp: disclosure_wf_def list_all_iff)
    then show ?thesis
      by (auto simp: disclosed_wf_def disclosed_bytes_def length_leaf_preimage length_split_bytes LEAF_LEN_def PREIMAGE_LEN_def)
  qed
  then have "length (concat (map disclosed_bytes (dc_leaves d))) \<le> length (dc_leaves d) * 239"
    by (rule length_concat_le)
  then show ?thesis using assms by (simp add: disclosure_encode_def DISCLOSURE_MAGIC_def disclosure_wf_def)
qed

lemma get_range_parts:
  "length a = i \<Longrightarrow> j = i + length b \<Longrightarrow> get_range (a @ b @ c) i j = Some b"
  by (simp add: get_range_def subrange_append2 subrange_append1 subrange_full)

definition job_leaves_wf :: "(bytes \<Rightarrow> bytes) \<Rightarrow> JobLeaves \<Rightarrow> bool" where
  "job_leaves_wf sha j \<longleftrightarrow> disclosure_wf sha (jl_disclosure j) \<and> (\<exists>c. commitment_wf c \<and> jl_output j = commitment_output c \<and>
     check_root sha (jl_disclosure j) c = Inr () \<and> list_all2 (opens sha c) (dc_leaves (jl_disclosure j)) (jl_branches j))"

lemma job_leaves_decode_encode:
  assumes "job_leaves_wf sha j"
  shows "job_leaves_decode sha (job_leaves_encode j) = Inr j"
proof -
  from assms obtain c where w: "disclosure_wf sha (jl_disclosure j)" "commitment_wf c" "jl_output j = commitment_output c"
    "check_root sha (jl_disclosure j) c = Inr ()" "list_all2 (opens sha c) (dc_leaves (jl_disclosure j)) (jl_branches j)"
    by (auto simp: job_leaves_wf_def)
  define ch jb out d rest where "ch = to_le_bytes (jl_channel j)" and "jb = to_le_bytes (jl_job j)" and "out = jl_output j"
    and "d = disclosure_encode (jl_disclosure j)" and "rest = concat (map concat (jl_branches j))"
  define n where "n = to_le_bytes (word_of_nat (length d) :: u16)"
  have e: "job_leaves_encode j = ch @ jb @ out @ n @ d @ rest"
    by (simp add: job_leaves_encode_def ch_def jb_def out_def n_def d_def rest_def)
  have l: "length ch = 4" "length jb = 4" "length n = 2" "length out = OUTPUT_LEN"
    using w(2) by (simp_all add: ch_def jb_def n_def out_def w(3) length_commitment_output commitment_wf_def)
  have dl: "unat (from_le_bytes n :: u16) = length d"
    using length_disclosure_encode [OF w(1)] by (simp add: n_def d_def from_to_le_bytes unat_of_nat)
  have g: "get_range (job_leaves_encode j) 0 4 = Some ch" "get_range (job_leaves_encode j) 4 8 = Some jb"
    "get_range (job_leaves_encode j) 8 (8 + OUTPUT_LEN) = Some out" "get_range (job_leaves_encode j) (8 + OUTPUT_LEN) (8 + OUTPUT_LEN + 2) = Some n"
    "get_range (job_leaves_encode j) (8 + OUTPUT_LEN + 2) (8 + OUTPUT_LEN + 2 + length d) = Some d"
    unfolding e using l get_range_parts [of "[]" 0 4 ch] get_range_parts [of ch 4 8 jb] get_range_parts [of "ch @ jb" 8 "8 + OUTPUT_LEN" out]
      get_range_parts [of "ch @ jb @ out" "8 + OUTPUT_LEN" "8 + OUTPUT_LEN + 2" n]
      get_range_parts [of "ch @ jb @ out @ n" "8 + OUTPUT_LEN + 2" "8 + OUTPUT_LEN + 2 + length d" d] by simp_all
  have dr: "drop (8 + OUTPUT_LEN + 2 + length d) (job_leaves_encode j) = rest"
    unfolding e using l by simp
  have p: "commitment_parse out = Some c" unfolding out_def w(3) commitment_parse_iff using w(2) by simp
  have dec: "disclosure_decode sha d = Inr (jl_disclosure j)" unfolding disclosure_decode_iff d_def using w(1) by simp
  have br: "read_branches sha c (dc_leaves (jl_disclosure j)) rest = Inr (jl_branches j, [])"
    using read_branches_ok [OF w(5), of "[]"] by (simp add: rest_def)
  have "job_leaves_decode sha (job_leaves_encode j) = Inr \<lparr>jl_channel = from_le_bytes ch, jl_job = from_le_bytes jb, jl_output = out,
      jl_disclosure = jl_disclosure j, jl_branches = jl_branches j\<rparr>"
    by (simp only: job_leaves_decode_def g ok_or_Some result_bind.simps Let_def p dl dec w(4) dr br prod.case simp_thms if_False)
  then show ?thesis by (cases j) (simp add: ch_def jb_def out_def from_to_le_bytes)
qed

lemma job_commitment_wf:
  assumes sha: "hash32 sha" and found: "search_entries sha (ts_entries ts) = Some (ts_layout ts)"
    and nz: "ac_root (aj_commitment (job_build sha ts terms)) \<noteq> ZERO_HASH"
  shows "commitment_wf (aj_commitment (job_build sha ts terms))"
proof -
  let ?job = "job_build sha ts terms"
  have "ac_height (aj_commitment ?job) \<le> MAX_HEIGHT"
    using search_entries_layout(5) [OF found] by (simp add: job_build_simps(3) min_def split: if_splits)
  moreover have "length (ac_root (aj_commitment ?job)) = 32"
    using root_length [OF sha, of "map (\<lambda>e. leaf_hash sha (ae_leaf e)) (aj_entries ?job)" "ts_layout ts"]
    by (simp add: job_build_simps length_leaf_hash [OF sha] comp_def)
  ultimately show ?thesis using nz by (simp add: commitment_wf_def)
qed

lemma job_leaves_of_job:
  assumes sha: "hash32 sha" and found: "search_entries sha (ts_entries ts) = Some (ts_layout ts)" and ne: "ts_entries ts \<noteq> []"
    and few: "length (ts_entries ts) \<le> 16" and wf: "list_all (\<lambda>e. leaf_wf (ae_leaf e)) (aj_entries (job_build sha ts terms))"
    and swf: "split_wf (lt_split terms)" and nz: "ac_root (aj_commitment (job_build sha ts terms)) \<noteq> ZERO_HASH"
  shows "disclosure_wf sha (disclosure_from_job (job_build sha ts terms))"
    and "job_leaves_wf sha (job_leaves_from channel j (job_build sha ts terms))"
proof -
  let ?job = "job_build sha ts terms"
  let ?d = "disclosure_from_job ?job" and ?c = "aj_commitment ?job"
  let ?hashes = "map (\<lambda>x. leaf_hash sha (dl_leaf x)) (dc_leaves ?d)"
  note L = search_entries_layout [OF found]
  have n: "length (aj_entries ?job) = length (ts_entries ts)" using L(2) by (simp add: job_build_simps(1))
  have "\<forall>e\<in>set (aj_entries ?job). split_wf (ae_split e) \<and> split_ext sha (ae_split e) = lf_ext (ae_leaf e)"
    using swf NO_SPLIT_wf by (auto simp: job_build_simps(1) job_entry_def leaf_new_def Let_def split: prod.splits)
  then show dwf: "disclosure_wf sha ?d"
    using few n wf by (auto simp: disclosure_wf_def disclosure_from_job_def list_all_iff disclosed_wf_def)
  note R = disclosure_of_job [OF found ne, of terms]
  have h: "ac_height ?c \<le> MAX_HEIGHT" using L(5) by (simp add: job_build_simps(3) min_def split: if_splits)
  have lay: "disclosed_layout sha ?d ?c = ts_layout ts"
  proof -
    have "map ae_slot (aj_entries ?job) = l_slots (ts_layout ts)"
      using L(2) by (auto simp: job_build_simps job_entry_def Let_def comp_def intro!: nth_equalityI split: prod.splits)
    then show ?thesis using R(2) by (simp add: disclosed_layout_def job_build_simps(3))
  qed
  have tree: "aj_tree ?job = build sha (disclosed_layout sha ?d ?c) ?hashes"
    unfolding lay by (simp add: job_build_simps disclosure_from_job_def comp_def)
  note cwf = job_commitment_wf [OF sha found nz]
  have "list_all2 (opens sha ?c) (dc_leaves ?d) (map (\<lambda>e. branch (aj_tree ?job) (ae_slot e)) (aj_entries ?job))"
  proof (rule list_all2_all_nthI)
    show "length (dc_leaves ?d) = length (map (\<lambda>e. branch (aj_tree ?job) (ae_slot e)) (aj_entries ?job))" by (simp add: disclosure_from_job_def)
    fix i
    assume i: "i < length (dc_leaves ?d)"
    then have i': "i < length (aj_entries ?job)" by (simp add: disclosure_from_job_def)
    have s: "ae_slot (aj_entries ?job ! i) = slot sha (lf_category (dl_leaf (dc_leaves ?d ! i))) (ac_salt ?c) (ac_height ?c)"
      using R(2) i i' by (metis (no_types, lifting) disclosed_slots_def nth_map)
    note B = disclosed_branch [OF R(1) i h, folded tree, folded s]
    have "list_all (\<lambda>h. length h = 32) (branch (aj_tree ?job) (ae_slot (aj_entries ?job ! i)))"
      unfolding tree by (rule branch_lengths [OF sha]) (simp add: length_leaf_hash [OF sha])
    then show "opens sha ?c (dc_leaves ?d ! i) (map (\<lambda>e. branch (aj_tree ?job) (ae_slot e)) (aj_entries ?job) ! i)"
      using B i' by (simp add: opens_def s [symmetric])
  qed
  moreover have "aj_output ?job = commitment_output ?c" by (simp add: job_build_simps)
  ultimately show "job_leaves_wf sha (job_leaves_from channel j ?job)"
    using dwf cwf R(1) by (auto simp: job_leaves_wf_def job_leaves_from_def)
qed

lemma win_proof_decode_encode:
  assumes "length (wp_category w) = 32" and "length (wp_proof w) < 65536" and "split_wf (wp_split w)"
  shows "win_proof_decode (win_proof_encode w) = Inr w"
proof -
  define ch jb n pf sp where "ch = to_le_bytes (wp_channel w)" and "jb = to_le_bytes (wp_job w)"
    and "n = to_le_bytes (word_of_nat (length (wp_proof w)) :: u16)" and "pf = wp_proof w"
    and "sp = (if split_is_none (wp_split w) then [] else split_preimage (wp_split w))"
  define m where "m = (if split_is_none (wp_split w) then 0 else 69 :: u8)"
  have e: "win_proof_encode w = ch @ jb @ wp_category w @ n @ pf @ [m] @ sp"
    by (simp add: win_proof_encode_def ch_def jb_def n_def pf_def sp_def m_def PREIMAGE_LEN_def)
  have l: "length ch = 4" "length jb = 4" "length n = 2" "length (wp_category w) = 32" using assms by (simp_all add: ch_def jb_def n_def)
  have dl: "unat (from_le_bytes n :: u16) = length pf" using assms(2) by (simp add: n_def pf_def from_to_le_bytes unat_of_nat)
  have sl: "length sp = (if split_is_none (wp_split w) then 0 else PREIMAGE_LEN)" using assms(3) by (simp add: sp_def length_split_bytes)
  have g: "get_range (win_proof_encode w) 0 4 = Some ch" "get_range (win_proof_encode w) 4 8 = Some jb"
    "get_range (win_proof_encode w) 8 40 = Some (wp_category w)" "get_range (win_proof_encode w) 40 42 = Some n"
    "get_range (win_proof_encode w) 42 (42 + length pf) = Some pf" "get_range (win_proof_encode w) (42 + length pf) (42 + length pf + 1) = Some [m]"
    "get_range (win_proof_encode w) (42 + length pf + 1) (42 + length pf + 1 + length sp) = Some sp"
    unfolding e using l get_range_parts [of "[]" 0 4 ch] get_range_parts [of ch 4 8 jb] get_range_parts [of "ch @ jb" 8 40 "wp_category w"]
      get_range_parts [of "ch @ jb @ wp_category w" 40 42 n] get_range_parts [of "ch @ jb @ wp_category w @ n" 42 "42 + length pf" pf]
      get_range_parts [of "ch @ jb @ wp_category w @ n @ pf" "42 + length pf" "42 + length pf + 1" "[m]"]
      get_range_parts [of "ch @ jb @ wp_category w @ n @ pf @ [m]" "42 + length pf + 1" "42 + length pf + 1 + length sp" sp "[]"] by simp_all
  have len: "length (win_proof_encode w) = 42 + length pf + 1 + length sp" unfolding e using l by simp
  show ?thesis
  proof (cases "split_is_none (wp_split w)")
    case True
    then have s: "wp_split w = NO_SPLIT" using split_none_iff [OF assms(3)] by simp
    have "win_proof_decode (win_proof_encode w) = Inr \<lparr>wp_channel = from_le_bytes ch, wp_job = from_le_bytes jb, wp_category = wp_category w,
        wp_proof = pf, wp_split = NO_SPLIT\<rparr>"
      unfolding win_proof_decode_def g ok_or_Some result_bind.simps Let_def dl using True len sl NO_SPLIT_wf by (simp add: g(6) [simplified] ok_or_def m_def)
    then show ?thesis using s by (cases w) (simp add: ch_def jb_def pf_def from_to_le_bytes)
  next
    case False
    then have p: "split_parse sp = Inr (wp_split w)" using assms(3) by (simp add: split_parse_iff sp_def)
    have g7: "get_range (win_proof_encode w) (43 + length pf) (43 + length pf + PREIMAGE_LEN) = Some sp" using g(7) False sl by simp
    have "win_proof_decode (win_proof_encode w) = Inr \<lparr>wp_channel = from_le_bytes ch, wp_job = from_le_bytes jb, wp_category = wp_category w,
        wp_proof = pf, wp_split = wp_split w\<rparr>"
      unfolding win_proof_decode_def g ok_or_Some result_bind.simps Let_def dl using False len sl p
      by (simp add: g(6) [simplified] g7 ok_or_def m_def)
    then show ?thesis by (cases w) (simp add: ch_def jb_def pf_def from_to_le_bytes)
  qed
qed

lemma extensions_round_trip:
  assumes "length extensions < 65536"
  shows "requested_extensions (extensions_payload request extensions) = Some (request, extensions)"
proof -
  define r n list where "r = to_le_bytes request" and "n = to_le_bytes (word_of_nat (length extensions) :: u16)" and "list = concat (map to_le_bytes extensions)"
  have e: "extensions_payload request extensions = r @ n @ list" by (simp add: extensions_payload_def r_def n_def list_def)
  have l: "length r = 2" "length n = 2" by (simp_all add: r_def n_def)
  have ll: "list_all (\<lambda>b. length b = 2) (map to_le_bytes extensions)" by (simp add: list_all_iff)
  have g: "get_range (r @ n @ list) 0 2 = Some r" "get_range (r @ n @ list) 2 4 = Some n"
    using l get_range_parts [of "[]" 0 2 r] get_range_parts [of r 2 4 n] by simp_all
  have u: "unat (from_le_bytes n :: u16) = length extensions" using assms by (simp add: n_def from_to_le_bytes unat_of_nat)
  have "chunks 2 (length extensions) list = map to_le_bytes extensions" using chunks_concat [OF ll, of "[]"] by (simp add: list_def)
  moreover have "length list = 2 * length extensions" using length_concat_fixed [OF ll] by (simp add: list_def)
  ultimately show ?thesis
    unfolding e requested_extensions_def g Option.bind.simps Let_def u using l by (simp add: comp_def from_to_le_bytes r_def)
qed

section \<open>Properties\<close>

text \<open>C22. A pool cannot show a token two leaves: if two disclosures are read from bytes and both rebuild one output's root, then the
  leaves they show for one token category are the same leaf, or the two disclosures exhibit two different messages with
  one digest. A miner or a pool that checks a disclosure therefore sees the leaf the coinbase commits to.\<close>

theorem disclosed_leaf_is_bound:
  assumes "hash32 sha" and "commitment_parse output = Some c"
    and "disclosure_decode sha bs1 = Inr d1" and "disclosure_decode sha bs2 = Inr d2"
    and "check_root sha d1 c = Inr ()" and "check_root sha d2 c = Inr ()"
    and "x1 \<in> set (dc_leaves d1)" and "x2 \<in> set (dc_leaves d2)"
    and "lf_category (dl_leaf x1) = lf_category (dl_leaf x2)" and "dl_leaf x1 \<noteq> dl_leaf x2"
  shows "collides sha (disclosed_collision sha c d1 d2 (dl_leaf x1) (dl_leaf x2))"
proof -
  have "ac_height c \<le> MAX_HEIGHT" using assms(2) by (simp add: commitment_parse_iff commitment_wf_def)
  moreover have "leaf_wf (dl_leaf x1)" "leaf_wf (dl_leaf x2)"
    using assms(3,4,7,8) by (auto simp: disclosure_decode_iff disclosure_wf_def disclosed_wf_def list_all_iff)
  ultimately show ?thesis using disclosures_agree [OF assms(1,5,6) _ assms(7-9)] assms(10) by blast
qed

text \<open>What a server discloses of a job its miners accept: for a job of a token set, the job's leaves rebuild its own root,
  and the message with the leaves, their splits and their branches decodes to exactly what was sent.\<close>

theorem job_disclosure_opens:
  assumes "hash32 sha" and "search_entries sha (ts_entries ts) = Some (ts_layout ts)" and "ts_entries ts \<noteq> []"
    and "length (ts_entries ts) \<le> 16" and "list_all (\<lambda>e. leaf_wf (ae_leaf e)) (aj_entries (job_build sha ts terms))"
    and "split_wf (lt_split terms)" and "ac_root (aj_commitment (job_build sha ts terms)) \<noteq> ZERO_HASH"
  shows "check_root sha (disclosure_from_job (job_build sha ts terms)) (aj_commitment (job_build sha ts terms)) = Inr () \<and>
    disclosure_decode sha (disclosure_encode (disclosure_from_job (job_build sha ts terms))) = Inr (disclosure_from_job (job_build sha ts terms)) \<and>
    job_leaves_decode sha (job_leaves_encode (job_leaves_from channel j (job_build sha ts terms))) = Inr (job_leaves_from channel j (job_build sha ts terms))"
  using disclosure_of_job(1) [OF assms(2,3)] job_leaves_of_job(1) [OF assms]
    job_leaves_decode_encode [OF job_leaves_of_job(2) [OF assms]]
  by (simp add: disclosure_decode_iff)

section \<open>Disclosures of one token\<close>

definition one_sha :: "bytes \<Rightarrow> bytes" where
  "one_sha m = replicate 32 1"

lemma one_sha_hash32: "hash32 one_sha"
  by unfold_locales (simp add: one_sha_def)

lemma one_fold: "fold_branch one_sha (replicate 32 1) i b = replicate 32 1"
  by (induction b arbitrary: i) (simp_all add: node_def one_sha_def)

theorem job_disclosure_opens_witness:
  "\<exists>ts. set_new one_sha (\<lambda>_. None) (\<lambda>_. []) Chipnet [demo_entry] 1 = Inr ts \<and>
     job_leaves_decode one_sha (job_leaves_encode (job_leaves_from 1 2 (job_build one_sha ts (plain_terms []))))
       = Inr (job_leaves_from 1 2 (job_build one_sha ts (plain_terms [])))"
proof -
  obtain ts where ts: "set_new one_sha (\<lambda>_. None) (\<lambda>_. []) Chipnet [demo_entry] 1 = Inr ts" by (rule demo_set)
  have s: "search_entries one_sha (ts_entries ts) = Some (ts_layout ts)" "ts_entries ts = [demo_entry]" "ts_threads ts = []"
    by (rule demo_set_fields [OF ts])+
  note L = search_entries_layout [OF s(1)]
  let ?job = "job_build one_sha ts (plain_terms [])"
  obtain k where k: "l_slots (ts_layout ts) = [k]" using L(2) by (cases "l_slots (ts_layout ts)") (auto simp: s)
  have w: "list_all (\<lambda>e. leaf_wf (ae_leaf e)) (aj_entries ?job)"
    by (simp add: job_build_simps s k job_entry_def set_threads_def leaf_new_def leaf_wf_def demo_entry_def demo_token_def demo_state_def
        double_sha256_def one_sha_def split_ext_def NO_SPLIT_wf ZERO_HASH_def)
  have ne: "ts_entries ts \<noteq> []" by (simp add: s)
  note R = disclosure_of_job [OF s(1) ne, of "plain_terms []"]
  have h: "ac_height (aj_commitment ?job) \<le> MAX_HEIGHT" using L(5) by (simp add: job_build_simps(3) min_def split: if_splits)
  have n: "0 < length (dc_leaves (disclosure_from_job ?job))" by (simp add: disclosure_from_job_def job_build_simps s k)
  have "leaf_hash one_sha l = replicate 32 1" for l by (simp add: leaf_hash_def one_sha_def)
  then have r: "ac_root (aj_commitment ?job) = replicate 32 1" using disclosed_branch(1) [OF R(1) n h] by (simp add: one_fold)
  have f: "length (ts_entries ts) \<le> 16" and p: "split_wf (lt_split (plain_terms []))"
    by (simp_all add: s plain_terms_def NO_SPLIT_wf)
  have z: "ac_root (aj_commitment ?job) \<noteq> ZERO_HASH" unfolding r by (simp add: ZERO_HASH_def)
  from job_disclosure_opens [OF one_sha_hash32 s(1) ne f w p z, of 1 2] ts show ?thesis by blast
qed

definition shown_leaf :: "u32 \<Rightarrow> DisclosedLeaf" where
  "shown_leaf bits = \<lparr>dl_leaf = \<lparr>lf_category = replicate 32 1, lf_lock_hash = replicate 32 2, lf_state_hash = replicate 32 3,
     lf_payout_hash = replicate 32 1, lf_target_bits = bits, lf_ext = ZERO_HASH\<rparr>, dl_split = NO_SPLIT\<rparr>"

lemma shown_leaf_ok:
  "disclosure_decode one_sha (disclosure_encode \<lparr>dc_leaves = [shown_leaf bits]\<rparr>) = Inr \<lparr>dc_leaves = [shown_leaf bits]\<rparr>"
  "check_root one_sha \<lparr>dc_leaves = [shown_leaf bits]\<rparr> \<lparr>ac_root = replicate 32 1, ac_height = 0, ac_salt = 0\<rparr> = Inr ()"
proof -
  show "disclosure_decode one_sha (disclosure_encode \<lparr>dc_leaves = [shown_leaf bits]\<rparr>) = Inr \<lparr>dc_leaves = [shown_leaf bits]\<rparr>"
    by (simp add: disclosure_decode_iff disclosure_wf_def disclosed_wf_def shown_leaf_def leaf_wf_def NO_SPLIT_wf split_ext_def ZERO_HASH_def)
  let ?c = "\<lparr>ac_root = replicate 32 1, ac_height = 0, ac_salt = 0\<rparr>" and ?d = "\<lparr>dc_leaves = [shown_leaf bits]\<rparr>"
  have b: "unat (slot one_sha k 0 0) < 2 ^ unat (min 0 MAX_HEIGHT)" for k by (rule slot_bound)
  have "root (build one_sha (disclosed_layout one_sha ?d ?c) [replicate 32 1]) = replicate 32 1"
    using build_branch(1) [of "disclosed_layout one_sha ?d ?c" "[replicate 32 1]" 0 one_sha] b
    by (simp add: disclosed_layout_def disclosed_slots_def one_fold)
  then show "check_root one_sha ?d ?c = Inr ()"
    unfolding check_root_iff by (simp add: disclosed_slots_def leaf_hash_def one_sha_def)
qed

theorem disclosed_leaf_is_bound_witness:
  "collides one_sha (disclosed_collision one_sha \<lparr>ac_root = replicate 32 1, ac_height = 0, ac_salt = 0\<rparr>
     \<lparr>dc_leaves = [shown_leaf 1]\<rparr> \<lparr>dc_leaves = [shown_leaf 2]\<rparr> (dl_leaf (shown_leaf 1)) (dl_leaf (shown_leaf 2)))"
proof (rule disclosed_leaf_is_bound [OF one_sha_hash32 _ shown_leaf_ok(1) shown_leaf_ok(1) shown_leaf_ok(2) shown_leaf_ok(2)])
  show "commitment_parse (commitment_output \<lparr>ac_root = replicate 32 1, ac_height = 0, ac_salt = 0\<rparr>) = Some \<lparr>ac_root = replicate 32 1, ac_height = 0, ac_salt = 0\<rparr>"
    by (simp add: commitment_parse_iff commitment_wf_def ZERO_HASH_def)
qed (simp_all add: shown_leaf_def)

end
