(* ===== verification/Job_Token.thy ===== *)
theory Job_Token
  imports Prelude
begin

text \<open>
  The Job Declaration tokens of a pool, from \<open>src/stratum_v2/jd/token.rs\<close> with the limits of \<open>src/stratum_v2/jd/mod.rs\<close>:
  the 26 bytes of a token, and the book of the tokens a pool has allocated and not yet redeemed as a state machine. Instants and
  durations are nanoseconds; the random secret is an argument, and a weak reference to a declared job is a number that the
  store of living jobs resolves.
\<close>

section \<open>Tokens\<close>

definition from_secs :: "nat \<Rightarrow> nat" where "from_secs n = n * 1000000000"

definition TOKEN_TTL :: nat where "TOKEN_TTL = from_secs 600"
definition DECLARED_TTL :: nat where "DECLARED_TTL = from_secs 3600"
definition JD_MAX_TOKENS :: nat where "JD_MAX_TOKENS = 1024"
definition PX_LEN :: nat where "PX_LEN = 26"
definition PX_MAGIC :: bytes where "PX_MAGIC = [0x50, 0x58]"
definition PX_VERSION :: u8 where "PX_VERSION = 1"

record PoolRates =
  pr_donation_bps :: u16
  pr_fee_bps :: u16
  pr_donation_output :: "u8 option"
  pr_fee_output :: "u8 option"

record PxToken =
  px_rates :: PoolRates
  px_declared :: bool
  px_full_template :: bool
  px_serial :: u64
  px_secret :: bytes

definition u8_of_bool :: "bool \<Rightarrow> u8" where
  "u8_of_bool b = (if b then 1 else 0)"

definition px_encode :: "PxToken \<Rightarrow> bytes" where
  "px_encode t =
     PX_MAGIC @ [PX_VERSION] @ to_le_bytes (pr_donation_bps (px_rates t)) @ to_le_bytes (pr_fee_bps (px_rates t)) @
     [case pr_donation_output (px_rates t) of Some i \<Rightarrow> i | None \<Rightarrow> 0xff, case pr_fee_output (px_rates t) of Some i \<Rightarrow> i | None \<Rightarrow> 0xff,
      u8_of_bool (px_declared t) OR push_bit 1 (u8_of_bool (px_full_template t))] @
     to_le_bytes (px_serial t) @ px_secret t"

definition px_index :: "u8 \<Rightarrow> u8 option" where
  "px_index byte = (if byte \<noteq> 0xff then Some byte else None)"

definition px_decode :: "bytes \<Rightarrow> PxToken option" where
  "px_decode bs =
     (if length bs \<noteq> PX_LEN then None
      else if take 2 bs \<noteq> PX_MAGIC \<or> bs ! 2 \<noteq> PX_VERSION \<or> bs ! 9 AND NOT 3 \<noteq> 0 then None
      else Some \<lparr>px_rates = \<lparr>pr_donation_bps = from_le_bytes [bs ! 3, bs ! 4], pr_fee_bps = from_le_bytes [bs ! 5, bs ! 6],
                   pr_donation_output = px_index (bs ! 7), pr_fee_output = px_index (bs ! 8)\<rparr>,
                 px_declared = (bs ! 9 AND 1 \<noteq> 0), px_full_template = (bs ! 9 AND 2 \<noteq> 0),
                 px_serial = from_le_bytes (subrange bs 10 18), px_secret = drop 18 bs\<rparr>)"

section \<open>The book\<close>

datatype Kind = Allocated bool | Declared nat

record Entry =
  en_owner :: u64
  en_payout :: string
  en_rates :: PoolRates
  en_secret :: bytes
  en_issued :: nat
  en_kind :: Kind

datatype 'j Redeemed = RAllocated PoolRates | RDeclared 'j

datatype book_error = TooManyTokens | TokensExhausted | InvalidToken | NotYetValidated

text \<open>\<open>BTreeMap\<close>: its entries in key order; \<open>get\<close>, \<open>remove\<close>, \<open>retain\<close> and \<open>iter().find\<close> are \<open>map_of\<close>, \<open>filter\<close> and \<open>find\<close>.\<close>

fun bt_insert :: "'k::linorder \<Rightarrow> 'v \<Rightarrow> ('k \<times> 'v) list \<Rightarrow> ('k \<times> 'v) list" where
  "bt_insert k v [] = [(k, v)]"
| "bt_insert k v ((k', v') # rest) =
     (if k < k' then (k, v) # (k', v') # rest else if k = k' then (k, v) # rest else (k', v') # bt_insert k v rest)"

definition bt_remove :: "'k \<Rightarrow> ('k \<times> 'v) list \<Rightarrow> ('k \<times> 'v) list" where
  "bt_remove k m = filter (\<lambda>(k', _). k' \<noteq> k) m"

record TokenBook =
  tb_next_serial :: u64
  tb_entries :: "(u64 \<times> Entry) list"

definition empty_book :: TokenBook where
  "empty_book = \<lparr>tb_next_serial = 0, tb_entries = []\<rparr>"

fun kind_ttl :: "Kind \<Rightarrow> nat" where
  "kind_ttl (Allocated _) = TOKEN_TTL"
| "kind_ttl (Declared _) = DECLARED_TTL"

definition expire :: "nat \<Rightarrow> TokenBook \<Rightarrow> TokenBook" where
  "expire now book = book\<lparr>tb_entries := filter (\<lambda>(_, entry). now - en_issued entry < kind_ttl (en_kind entry)) (tb_entries book)\<rparr>"

definition drop_owner :: "u64 \<Rightarrow> TokenBook \<Rightarrow> TokenBook" where
  "drop_owner owner book = book\<lparr>tb_entries := filter (\<lambda>(_, entry). en_owner entry \<noteq> owner) (tb_entries book)\<rparr>"

definition make_room :: "u64 \<Rightarrow> TokenBook \<Rightarrow> TokenBook option" where
  "make_room owner book =
     (if length (tb_entries book) \<ge> JD_MAX_TOKENS
      then map_option (\<lambda>(oldest, _). book\<lparr>tb_entries := bt_remove oldest (tb_entries book)\<rparr>)
             (find (\<lambda>(_, entry). en_owner entry = owner) (tb_entries book))
      else Some book)"

definition insert_token ::
  "u64 \<Rightarrow> string \<Rightarrow> PoolRates \<Rightarrow> Kind \<Rightarrow> nat \<Rightarrow> bytes \<Rightarrow> TokenBook \<Rightarrow> (book_error, PxToken) result \<times> TokenBook" where
  "insert_token owner payout rates kind now secret book =
     (let book = expire now book
      in case make_room owner book of
           None \<Rightarrow> (Inl TooManyTokens, book)
         | Some book \<Rightarrow>
             (case checked_add (tb_next_serial book) 1 of
                None \<Rightarrow> (Inl TokensExhausted, book)
              | Some serial \<Rightarrow>
                  (let (declared, full_template) = (case kind of Allocated full_template \<Rightarrow> (False, full_template) | Declared _ \<Rightarrow> (True, True));
                       entry = \<lparr>en_owner = owner, en_payout = payout, en_rates = rates, en_secret = secret, en_issued = now, en_kind = kind\<rparr>
                   in (Inr \<lparr>px_rates = rates, px_declared = declared, px_full_template = full_template, px_serial = serial, px_secret = secret\<rparr>,
                       book\<lparr>tb_next_serial := serial, tb_entries := bt_insert serial entry (tb_entries book)\<rparr>))))"

definition allocate ::
  "u64 \<Rightarrow> string \<Rightarrow> PoolRates \<Rightarrow> bool \<Rightarrow> nat \<Rightarrow> bytes \<Rightarrow> TokenBook \<Rightarrow> (book_error, PxToken) result \<times> TokenBook" where
  "allocate owner payout rates full_template now secret book =
     insert_token owner payout rates (Allocated full_template) now secret book"

definition declared_token ::
  "u64 \<Rightarrow> string \<Rightarrow> PoolRates \<Rightarrow> nat \<Rightarrow> nat \<Rightarrow> bytes \<Rightarrow> TokenBook \<Rightarrow> (book_error, PxToken) result \<times> TokenBook" where
  "declared_token owner payout rates job now secret book = insert_token owner payout rates (Declared job) now secret book"

definition declare_token :: "bytes \<Rightarrow> u64 \<Rightarrow> nat \<Rightarrow> TokenBook \<Rightarrow> (book_error, string \<times> PoolRates) result \<times> TokenBook" where
  "declare_token token owner now book =
     (let book = expire now book
      in case px_decode token of
           None \<Rightarrow> (Inl InvalidToken, book)
         | Some token \<Rightarrow>
             (case map_of (tb_entries book) (px_serial token) of
                None \<Rightarrow> (Inl InvalidToken, book)
              | Some entry \<Rightarrow>
                  if en_secret entry \<noteq> px_secret token \<or> en_owner entry \<noteq> owner \<or> en_kind entry \<noteq> Allocated True
                     \<or> px_declared token \<or> \<not> px_full_template token
                  then (Inl InvalidToken, book)
                  else (Inr (en_payout entry, en_rates entry), book\<lparr>tb_entries := bt_remove (px_serial token) (tb_entries book)\<rparr>)))"

definition redeem :: "(nat \<Rightarrow> 'j option) \<Rightarrow> bytes \<Rightarrow> string \<Rightarrow> nat \<Rightarrow> TokenBook \<Rightarrow> (book_error, 'j Redeemed) result \<times> TokenBook" where
  "redeem jobs token payout now book =
     (let book = expire now book
      in case px_decode token of
           None \<Rightarrow> (Inl InvalidToken, book)
         | Some token \<Rightarrow>
             (case map_of (tb_entries book) (px_serial token) of
                None \<Rightarrow> (Inl InvalidToken, book)
              | Some entry \<Rightarrow>
                  if en_secret entry \<noteq> px_secret token then (Inl InvalidToken, book)
                  else if en_kind entry = Allocated True \<and> en_payout entry = payout then (Inl NotYetValidated, book)
                  else
                    (let book = book\<lparr>tb_entries := bt_remove (px_serial token) (tb_entries book)\<rparr>
                     in if en_payout entry \<noteq> payout then (Inl InvalidToken, book)
                        else (case en_kind entry of
                                Allocated _ \<Rightarrow> Inr (RAllocated (en_rates entry))
                              | Declared job \<Rightarrow> (case jobs job of Some j \<Rightarrow> Inr (RDeclared j) | None \<Rightarrow> Inl InvalidToken), book))))"

section \<open>Runs\<close>

datatype 'j book_event =
    Issues u64 string PoolRates Kind nat PxToken
  | Declares bytes u64 nat string PoolRates
  | Redeems bytes string nat "'j Redeemed"
  | Refuses
  | Drops u64

inductive book_step :: "TokenBook \<Rightarrow> 'j book_event \<Rightarrow> TokenBook \<Rightarrow> bool" where
  step_allocate: "allocate owner payout rates full_template now secret book = (Inr token, book') \<Longrightarrow>
    book_step book (Issues owner payout rates (Allocated full_template) now token) book'"
| step_allocate_refused: "allocate owner payout rates full_template now secret book = (Inl e, book') \<Longrightarrow> book_step book Refuses book'"
| step_declared: "declared_token owner payout rates job now secret book = (Inr token, book') \<Longrightarrow>
    book_step book (Issues owner payout rates (Declared job) now token) book'"
| step_declared_refused: "declared_token owner payout rates job now secret book = (Inl e, book') \<Longrightarrow> book_step book Refuses book'"
| step_declare: "declare_token bytes owner now book = (Inr (payout, rates), book') \<Longrightarrow> book_step book (Declares bytes owner now payout rates) book'"
| step_declare_refused: "declare_token bytes owner now book = (Inl e, book') \<Longrightarrow> book_step book Refuses book'"
| step_redeem: "redeem jobs bytes payout now book = (Inr r, book') \<Longrightarrow> book_step book (Redeems bytes payout now r) book'"
| step_redeem_refused: "redeem jobs bytes payout now book = (Inl e :: (book_error, 'j Redeemed) result, book') \<Longrightarrow> book_step book Refuses book'"
| step_drop: "book_step book (Drops owner) (drop_owner owner book)"

inductive_cases book_stepE: "book_step book e book'"

text \<open>Runs of any step relation from a state, with their events.\<close>

inductive run :: "('s \<Rightarrow> 'e \<Rightarrow> 's \<Rightarrow> bool) \<Rightarrow> 's \<Rightarrow> 'e list \<Rightarrow> 's \<Rightarrow> bool" for step s where
  run_init: "run step s [] s"
| run_step: "run step s es s' \<Longrightarrow> step s' e s'' \<Longrightarrow> run step s (es @ [e]) s''"

lemma run_split:
  assumes "run step s (es @ e # fs) s'"
  shows "\<exists>s1 s2. run step s es s1 \<and> step s1 e s2"
  using assms
proof (induction "es @ e # fs" s' arbitrary: fs rule: run.induct)
  case (run_step es' s' e' s'')
  show ?case
  proof (cases fs rule: rev_cases)
    case Nil
    with run_step show ?thesis by auto
  next
    case (snoc gs g)
    with run_step have "es' = es @ e # gs" by simp
    with run_step show ?thesis by blast
  qed
qed simp

lemma map_filter_snoc: "List.map_filter f (es @ [e]) = List.map_filter f es @ (case f e of None \<Rightarrow> [] | Some x \<Rightarrow> [x])"
  by (simp add: List.map_filter_def split: option.splits)

section \<open>Tickets\<close>

text \<open>
  What a book of one-time tickets promises: every step gives at most the next number, takes only a living one, and
  revives none.
\<close>

locale ticketing =
  fixes step :: "'s \<Rightarrow> 'e \<Rightarrow> 's \<Rightarrow> bool" and live :: "'s \<Rightarrow> nat set" and issued :: "'s \<Rightarrow> nat"
    and gives :: "'e \<Rightarrow> nat option" and takes :: "'e \<Rightarrow> nat option"
  assumes give: "step s e s' \<Longrightarrow> gives e = Some k \<Longrightarrow> k = Suc (issued s) \<and> issued s' = k \<and> live s' \<subseteq> insert k (live s) \<and> takes e = None"
    and take_live: "step s e s' \<Longrightarrow> takes e = Some k \<Longrightarrow> k \<in> live s \<and> live s' \<subseteq> live s - {k} \<and> issued s' = issued s"
    and quiet: "step s e s' \<Longrightarrow> gives e = None \<Longrightarrow> takes e = None \<Longrightarrow> live s' \<subseteq> live s \<and> issued s' = issued s"
begin

lemma run_tickets:
  assumes "run step s es s'" and "live s = {}"
  shows "distinct (List.map_filter takes es) \<and> distinct (List.map_filter gives es) \<and>
    live s' \<subseteq> set (List.map_filter gives es) - set (List.map_filter takes es) \<and>
    set (List.map_filter takes es) \<subseteq> set (List.map_filter gives es) \<and> (\<forall>k\<in>set (List.map_filter gives es). k \<le> issued s')"
  using assms
proof (induction rule: run.induct)
  case (run_step es s' e s'')
  note IH = run_step.IH [OF run_step.prems]
  consider k where "gives e = Some k" | k where "gives e = None" "takes e = Some k" | "gives e = None" "takes e = None" by fastforce
  then show ?case
  proof cases
    case (1 k)
    note G = give [OF run_step.hyps(2) 1]
    then have fresh: "k \<notin> set (List.map_filter gives es)" using IH by fastforce
    have "\<forall>j\<in>set (List.map_filter gives es). j \<le> issued s''" using IH G by fastforce
    then show ?thesis using IH G fresh 1 by (auto simp: map_filter_snoc)
  next
    case (2 k)
    note G = take_live [OF run_step.hyps(2) 2(2)]
    then have "k \<notin> set (List.map_filter takes es)" "k \<in> set (List.map_filter gives es)" using IH by blast+
    then show ?thesis using IH G 2 by (auto simp: map_filter_snoc)
  next
    case 3
    then show ?thesis using IH quiet [OF run_step.hyps(2) 3] by (auto simp: map_filter_snoc)
  qed
qed (simp add: List.map_filter_def)

lemma taken_was_given:
  assumes "run step s (es @ e # fs) s'" and "live s = {}" and "takes e = Some k"
  shows "k \<in> set (List.map_filter gives es) \<and> k \<notin> set (List.map_filter takes es)"
proof -
  from run_split [OF assms(1)] obtain s1 s2 where r: "run step s es s1" "step s1 e s2" by blast
  with take_live [OF r(2) assms(3)] run_tickets [OF r(1) assms(2)] show ?thesis by blast
qed

end

section \<open>The steps of the book\<close>

fun gives_serial :: "'j book_event \<Rightarrow> nat option" where
  "gives_serial (Issues _ _ _ _ _ token) = Some (unat (px_serial token))"
| "gives_serial _ = None"

fun takes_serial :: "'j book_event \<Rightarrow> nat option" where
  "takes_serial (Declares bytes _ _ _ _) = map_option (\<lambda>t. unat (px_serial t)) (px_decode bytes)"
| "takes_serial (Redeems bytes _ _ _) = map_option (\<lambda>t. unat (px_serial t)) (px_decode bytes)"
| "takes_serial _ = None"

definition live_serials :: "TokenBook \<Rightarrow> nat set" where
  "live_serials book = (\<lambda>(k, _). unat k) ` set (tb_entries book)"

lemma set_bt_insert: "set (bt_insert k v m) \<subseteq> insert (k, v) (set m)"
  by (induction k v m rule: bt_insert.induct) auto

lemma bt_insert_keeps: "k \<notin> fst ` set m \<Longrightarrow> set (bt_insert k v m) = insert (k, v) (set m)"
  by (induction k v m rule: bt_insert.induct) auto

lemma length_bt_insert: "length (bt_insert k v m) \<le> Suc (length m)"
  by (induction k v m rule: bt_insert.induct) auto

lemma set_bt_remove: "set (bt_remove k m) = {e \<in> set m. fst e \<noteq> k}"
  by (auto simp: bt_remove_def)

lemma expire_simps [simp]:
  "tb_next_serial (expire now book) = tb_next_serial book"
  "set (tb_entries (expire now book)) = {(k, e) \<in> set (tb_entries book). now - en_issued e < kind_ttl (en_kind e)}"
  by (auto simp: expire_def)

lemma length_expire: "length (tb_entries (expire now book)) \<le> length (tb_entries book)"
  by (simp add: expire_def)

lemma find_Some: "find P xs = Some x \<Longrightarrow> x \<in> set xs \<and> P x"
  by (auto simp: find_Some_iff)

lemma make_room_cases:
  assumes "make_room owner book = Some book'"
  obtains "book' = book" and "length (tb_entries book) < JD_MAX_TOKENS"
  | k e where "(k, e) \<in> set (tb_entries book)" and "en_owner e = owner" and "book' = book\<lparr>tb_entries := bt_remove k (tb_entries book)\<rparr>"
proof (cases "length (tb_entries book) \<ge> JD_MAX_TOKENS")
  case True
  with assms obtain k e where f: "find (\<lambda>(_, e). en_owner e = owner) (tb_entries book) = Some (k, e)"
    and b: "book' = book\<lparr>tb_entries := bt_remove k (tb_entries book)\<rparr>" by (auto simp: make_room_def)
  from find_Some [OF f] b show ?thesis by (intro that(2) [of k e]) simp_all
next
  case False
  with assms show ?thesis by (intro that(1)) (simp_all add: make_room_def)
qed

lemma make_room_Some:
  assumes "make_room owner book = Some book'"
  shows "tb_next_serial book' = tb_next_serial book" and "set (tb_entries book') \<subseteq> set (tb_entries book)"
    and "length (tb_entries book) \<le> JD_MAX_TOKENS \<Longrightarrow> length (tb_entries book') < JD_MAX_TOKENS"
    and "distinct (map fst (tb_entries book)) \<Longrightarrow> distinct (map fst (tb_entries book'))"
    and "distinct (map fst (tb_entries book)) \<Longrightarrow> (k, e) \<in> set (tb_entries book) \<Longrightarrow> en_owner e \<noteq> owner \<Longrightarrow> (k, e) \<in> set (tb_entries book')"
proof -
  show "tb_next_serial book' = tb_next_serial book" "set (tb_entries book') \<subseteq> set (tb_entries book)"
    "distinct (map fst (tb_entries book)) \<Longrightarrow> distinct (map fst (tb_entries book'))"
    "distinct (map fst (tb_entries book)) \<Longrightarrow> (k, e) \<in> set (tb_entries book) \<Longrightarrow> en_owner e \<noteq> owner \<Longrightarrow> (k, e) \<in> set (tb_entries book')"
    using assms by (auto elim!: make_room_cases simp: set_bt_remove bt_remove_def distinct_map_filter dest: eq_key_imp_eq_value)
  have shorter: "length (bt_remove k m) < length m" if "(k, e) \<in> set m" for k m and e :: Entry
    unfolding bt_remove_def by (rule length_filter_less [OF that]) simp
  show "length (tb_entries book) \<le> JD_MAX_TOKENS \<Longrightarrow> length (tb_entries book') < JD_MAX_TOKENS"
    using assms
  proof (cases rule: make_room_cases)
    case (2 k e)
    assume "length (tb_entries book) \<le> JD_MAX_TOKENS"
    with shorter [OF 2(1)] 2(3) show ?thesis by simp
  qed simp
qed

lemma insert_token_Inr:
  assumes "insert_token owner payout rates kind now secret book = (Inr token, book')"
  obtains room where "make_room owner (expire now book) = Some room"
    and "checked_add (tb_next_serial room) 1 = Some (px_serial token)" and "tb_next_serial book' = px_serial token"
    and "tb_entries book' = bt_insert (px_serial token) \<lparr>en_owner = owner, en_payout = payout, en_rates = rates, en_secret = px_secret token,
      en_issued = now, en_kind = kind\<rparr> (tb_entries room)" and "px_secret token = secret" and "px_rates token = rates"
  using assms by (auto simp: insert_token_def Let_def split: option.splits prod.splits)

lemma insert_token_Inl:
  assumes "insert_token owner payout rates kind now secret book = (Inl e, book')"
  shows "book' = expire now book \<or> make_room owner (expire now book) = Some book'"
  using assms by (auto simp: insert_token_def Let_def split: option.splits prod.splits)

lemma declare_token_Inr:
  assumes "declare_token bytes owner now book = (Inr (payout, rates), book')"
  obtains t entry where "px_decode bytes = Some t" and "(px_serial t, entry) \<in> set (tb_entries (expire now book))"
    and "en_secret entry = px_secret t" and "en_owner entry = owner" and "en_kind entry = Allocated True" and "en_payout entry = payout"
    and "en_rates entry = rates" and "book' = (expire now book)\<lparr>tb_entries := bt_remove (px_serial t) (tb_entries (expire now book))\<rparr>"
  using assms by (auto simp: declare_token_def Let_def split: option.splits if_splits dest: map_of_SomeD)

lemma declare_token_Inl: "declare_token bytes owner now book = (Inl e, book') \<Longrightarrow> book' = expire now book"
  by (auto simp: declare_token_def Let_def split: option.splits if_splits)

lemma redeem_Inr:
  assumes "redeem jobs bytes payout now book = (Inr r, book')"
  obtains t entry where "px_decode bytes = Some t" and "(px_serial t, entry) \<in> set (tb_entries (expire now book))"
    and "en_secret entry = px_secret t" and "en_payout entry = payout" and "en_kind entry \<noteq> Allocated True"
    and "r = RAllocated (en_rates entry) \<and> en_kind entry = Allocated False \<or> (\<exists>ref job. r = RDeclared job \<and> en_kind entry = Declared ref \<and> jobs ref = Some job)"
    and "book' = (expire now book)\<lparr>tb_entries := bt_remove (px_serial t) (tb_entries (expire now book))\<rparr>"
proof -
  obtain t where t: "px_decode bytes = Some t" using assms by (auto simp: redeem_def Let_def split: option.splits)
  obtain entry where e: "map_of (tb_entries (expire now book)) (px_serial t) = Some entry"
    using assms by (auto simp: redeem_def Let_def t split: option.splits)
  have "en_secret entry = px_secret t \<and> en_payout entry = payout \<and> en_kind entry \<noteq> Allocated True \<and>
    (r = RAllocated (en_rates entry) \<and> en_kind entry = Allocated False \<or> (\<exists>ref job. r = RDeclared job \<and> en_kind entry = Declared ref \<and> jobs ref = Some job)) \<and>
    book' = (expire now book)\<lparr>tb_entries := bt_remove (px_serial t) (tb_entries (expire now book))\<rparr>"
    using assms by (cases "en_kind entry") (auto simp: redeem_def Let_def t e split: if_splits option.splits)
  with t map_of_SomeD [OF e] that show ?thesis by blast
qed

lemma redeem_Inl:
  assumes "redeem jobs bytes payout now book = (Inl e, book')"
  shows "\<exists>m. book' = (expire now book)\<lparr>tb_entries := filter m (tb_entries (expire now book))\<rparr>"
proof -
  have "book' = expire now book \<or> (\<exists>k. book' = (expire now book)\<lparr>tb_entries := bt_remove k (tb_entries (expire now book))\<rparr>)"
    using assms by (auto simp: redeem_def Let_def split: option.split_asm if_split_asm)
  then show ?thesis
  proof
    assume "book' = expire now book"
    then have "book' = (expire now book)\<lparr>tb_entries := filter (\<lambda>_. True) (tb_entries (expire now book))\<rparr>" by simp
    then show ?thesis by (rule exI [of _ "\<lambda>_. True"])
  qed (auto simp: bt_remove_def)
qed

section \<open>The book as a ticketing\<close>

lemma insert_gives:
  assumes "insert_token owner payout rates kind now secret book = (Inr token, book')"
  shows "unat (px_serial token) = Suc (unat (tb_next_serial book)) \<and> tb_next_serial book' = px_serial token \<and>
    live_serials book' \<subseteq> insert (unat (px_serial token)) (live_serials book)"
proof -
  from assms obtain room where r: "make_room owner (expire now book) = Some room"
    "checked_add (tb_next_serial room) 1 = Some (px_serial token)" "tb_next_serial book' = px_serial token"
    "tb_entries book' = bt_insert (px_serial token) \<lparr>en_owner = owner, en_payout = payout, en_rates = rates, en_secret = px_secret token,
      en_issued = now, en_kind = kind\<rparr> (tb_entries room)" by (rule insert_token_Inr)
  note m = make_room_Some(1,2) [OF r(1)]
  have "set (tb_entries book') \<subseteq> insert (px_serial token, \<lparr>en_owner = owner, en_payout = payout, en_rates = rates, en_secret = px_secret token,
      en_issued = now, en_kind = kind\<rparr>) (set (tb_entries book))" using m(2) set_bt_insert r(4) by fastforce
  then have "live_serials book' \<subseteq> insert (unat (px_serial token)) (live_serials book)" by (auto simp: live_serials_def)
  then show ?thesis using r(3) unat_checked_add [OF r(2)] m(1) by simp
qed

lemma insert_quiet:
  assumes "insert_token owner payout rates kind now secret book = (Inl e, book')"
  shows "tb_next_serial book' = tb_next_serial book \<and> set (tb_entries book') \<subseteq> set (tb_entries book)"
  using insert_token_Inl [OF assms] make_room_Some(1,2) [of owner "expire now book" book'] by auto

lemma live_mono: "set (tb_entries book') \<subseteq> set (tb_entries book) \<Longrightarrow> live_serials book' \<subseteq> live_serials book"
  by (auto simp: live_serials_def)

lemma removed_serial:
  assumes "book' = (expire now book)\<lparr>tb_entries := bt_remove k (tb_entries (expire now book))\<rparr>"
  shows "live_serials book' \<subseteq> live_serials book - {unat k}"
  using assms by (auto simp: live_serials_def set_bt_remove word_unat_eq_iff)

interpretation book: ticketing book_step live_serials "\<lambda>b. unat (tb_next_serial b)" gives_serial takes_serial
proof
  fix s s' and e :: "'j book_event" and k
  assume s: "book_step s e s'"
  show "gives_serial e = Some k \<Longrightarrow> k = Suc (unat (tb_next_serial s)) \<and> unat (tb_next_serial s') = k \<and> live_serials s' \<subseteq> insert k (live_serials s) \<and> takes_serial e = None"
    using s by cases (auto simp: allocate_def declared_token_def dest!: insert_gives)
  show "takes_serial e = Some k \<Longrightarrow> k \<in> live_serials s \<and> live_serials s' \<subseteq> live_serials s - {k} \<and> unat (tb_next_serial s') = unat (tb_next_serial s)"
    using s
  proof cases
    case (step_declare bytes owner now payout rates)
    assume k: "takes_serial e = Some k"
    from step_declare(2) obtain t entry where d: "px_decode bytes = Some t" "(px_serial t, entry) \<in> set (tb_entries (expire now s))"
      "s' = (expire now s)\<lparr>tb_entries := bt_remove (px_serial t) (tb_entries (expire now s))\<rparr>" by (rule declare_token_Inr)
    then show ?thesis using k step_declare removed_serial [OF d(3)] by (auto simp: live_serials_def)
  next
    case (step_redeem jobs bytes payout now r)
    assume k: "takes_serial e = Some k"
    from step_redeem(2) obtain t entry where d: "px_decode bytes = Some t" "(px_serial t, entry) \<in> set (tb_entries (expire now s))"
      "s' = (expire now s)\<lparr>tb_entries := bt_remove (px_serial t) (tb_entries (expire now s))\<rparr>" by (rule redeem_Inr)
    then show ?thesis using k step_redeem removed_serial [OF d(3)] by (auto simp: live_serials_def)
  qed simp_all
  show "gives_serial e = None \<Longrightarrow> takes_serial e = None \<Longrightarrow> live_serials s' \<subseteq> live_serials s \<and> unat (tb_next_serial s') = unat (tb_next_serial s)"
    using s
  proof cases
    case (step_redeem_refused jobs bytes payout now er)
    from redeem_Inl [OF step_redeem_refused(2)] show ?thesis by (auto simp: live_serials_def)
  qed (auto simp: allocate_def declared_token_def drop_owner_def live_serials_def dest!: insert_quiet declare_token_Inl elim!: declare_token_Inr redeem_Inr)
qed

section \<open>The book's invariant\<close>

definition book_wf :: "TokenBook \<Rightarrow> bool" where
  "book_wf book \<longleftrightarrow> distinct (map fst (tb_entries book)) \<and> length (tb_entries book) \<le> JD_MAX_TOKENS \<and>
     (\<forall>(k, _)\<in>set (tb_entries book). k \<le> tb_next_serial book)"

lemma book_wf_filter: "book_wf book \<Longrightarrow> book_wf (book\<lparr>tb_entries := filter m (tb_entries book)\<rparr>)"
  by (auto simp: book_wf_def distinct_map_filter intro: le_trans [OF length_filter_le])

lemma book_wf_remove: "book_wf book \<Longrightarrow> book_wf (book\<lparr>tb_entries := bt_remove k (tb_entries book)\<rparr>)"
  unfolding bt_remove_def by (rule book_wf_filter)

lemma book_wf_expire: "book_wf book \<Longrightarrow> book_wf (expire now book)"
  unfolding expire_def by (rule book_wf_filter)

lemma book_wf_room:
  assumes "make_room owner book = Some book'" and "book_wf book"
  shows "book_wf book'"
proof -
  have "length (tb_entries book') \<le> JD_MAX_TOKENS" using make_room_Some(3) [OF assms(1)] assms(2) by (simp add: book_wf_def)
  then show ?thesis using make_room_Some(1,2,4) [OF assms(1)] assms(2) by (auto simp: book_wf_def)
qed

lemma distinct_bt_insert: "distinct (map fst m) \<Longrightarrow> k \<notin> fst ` set m \<Longrightarrow> distinct (map fst (bt_insert k v m))"
  by (induction k v m rule: bt_insert.induct) (auto dest!: subsetD [OF set_bt_insert])

lemma inserted:
  assumes i: "insert_token owner payout rates kind now secret book = (Inr token, book')" and wf: "book_wf book"
  shows "book_wf book'"
    and "(k, e) \<in> set (tb_entries book) \<Longrightarrow> en_owner e \<noteq> owner \<Longrightarrow> now - en_issued e < kind_ttl (en_kind e) \<Longrightarrow> (k, e) \<in> set (tb_entries book')"
proof -
  from i obtain room where r: "make_room owner (expire now book) = Some room"
    "checked_add (tb_next_serial room) 1 = Some (px_serial token)" "tb_next_serial book' = px_serial token"
    "tb_entries book' = bt_insert (px_serial token) \<lparr>en_owner = owner, en_payout = payout, en_rates = rates, en_secret = px_secret token,
      en_issued = now, en_kind = kind\<rparr> (tb_entries room)" by (rule insert_token_Inr)
  note we = book_wf_expire [OF wf, of now]
  note wr = book_wf_room [OF r(1) we]
  have n: "unat (px_serial token) = Suc (unat (tb_next_serial room))" using unat_checked_add [OF r(2)] by simp
  then have new: "px_serial token \<notin> fst ` set (tb_entries room)" and up: "tb_next_serial room \<le> px_serial token"
    using wr by (auto simp: book_wf_def word_le_nat_alt)
  have len: "length (tb_entries room) < JD_MAX_TOKENS" using make_room_Some(3) [OF r(1)] we by (simp add: book_wf_def)
  have "length (tb_entries book') \<le> JD_MAX_TOKENS" using len length_bt_insert r(4) by (metis Suc_leI le_trans)
  moreover have "distinct (map fst (tb_entries book'))" unfolding r(4) by (rule distinct_bt_insert [OF _ new]) (use wr in \<open>simp add: book_wf_def\<close>)
  moreover have "\<forall>(k, _)\<in>set (tb_entries book'). k \<le> tb_next_serial book'"
    unfolding r(3,4) bt_insert_keeps [OF new] using wr up by (fastforce simp: book_wf_def intro: order_trans)
  ultimately show "book_wf book'" by (simp add: book_wf_def)
  assume "(k, e) \<in> set (tb_entries book)" "en_owner e \<noteq> owner" "now - en_issued e < kind_ttl (en_kind e)"
  then have "(k, e) \<in> set (tb_entries room)" using make_room_Some(5) [OF r(1)] we by (auto simp: book_wf_def)
  then show "(k, e) \<in> set (tb_entries book')" unfolding r(4) bt_insert_keeps [OF new] by simp
qed

lemma book_wf_step:
  assumes "book_step book e book'" and wf: "book_wf book"
  shows "book_wf book'"
  using assms(1)
proof cases
  case (step_redeem_refused jobs bytes payout now er)
  from redeem_Inl [OF step_redeem_refused(2)] show ?thesis using book_wf_filter [OF book_wf_expire [OF wf]] by blast
qed (auto simp: allocate_def declared_token_def drop_owner_def wf book_wf_filter book_wf_expire book_wf_remove
      intro: inserted(1) book_wf_room dest!: insert_token_Inl declare_token_Inl elim!: declare_token_Inr redeem_Inr)

lemma book_wf_run: "run book_step empty_book es book \<Longrightarrow> book_wf book"
proof (induction rule: run.induct)
  case run_init
  show ?case by (simp add: book_wf_def empty_book_def)
qed (rule book_wf_step)

section \<open>Where an entry comes from\<close>

definition issued_as :: "u64 \<Rightarrow> Entry \<Rightarrow> 'j book_event \<Rightarrow> bool" where
  "issued_as k entry e \<longleftrightarrow> (\<exists>token. e = Issues (en_owner entry) (en_payout entry) (en_rates entry) (en_kind entry) (en_issued entry) token \<and>
     px_serial token = k \<and> px_secret token = en_secret entry)"

lemma inserted_from:
  assumes i: "insert_token owner payout rates kind now secret book = (Inr token, book')" and m: "(k, entry) \<in> set (tb_entries book')"
  shows "(k, entry) \<in> set (tb_entries book) \<or> issued_as k entry (Issues owner payout rates kind now token)"
proof -
  from i obtain room where r: "make_room owner (expire now book) = Some room"
    "tb_entries book' = bt_insert (px_serial token) \<lparr>en_owner = owner, en_payout = payout, en_rates = rates, en_secret = px_secret token,
      en_issued = now, en_kind = kind\<rparr> (tb_entries room)" by (rule insert_token_Inr)
  from m set_bt_insert r(2) have "(k, entry) = (px_serial token, \<lparr>en_owner = owner, en_payout = payout, en_rates = rates, en_secret = px_secret token,
      en_issued = now, en_kind = kind\<rparr>) \<or> (k, entry) \<in> set (tb_entries room)" by fastforce
  then show ?thesis using make_room_Some(2) [OF r(1)] by (auto simp: issued_as_def)
qed

lemma step_from:
  assumes "book_step book e book'" and m: "(k, entry) \<in> set (tb_entries book')"
  shows "(k, entry) \<in> set (tb_entries book) \<or> issued_as k entry e"
  using assms(1)
proof cases
  case (step_allocate owner payout rates full_template now secret token)
  then show ?thesis using inserted_from m by (simp add: allocate_def)
next
  case (step_declared owner payout rates job now secret token)
  then show ?thesis using inserted_from m by (simp add: declared_token_def)
next
  case (step_redeem_refused jobs bytes payout now er)
  from redeem_Inl [OF step_redeem_refused(2)] m show ?thesis by auto
qed (use m in \<open>auto simp: allocate_def declared_token_def drop_owner_def set_bt_remove dest!: insert_quiet declare_token_Inl elim!: declare_token_Inr redeem_Inr\<close>)

lemma run_from:
  assumes "run book_step empty_book es book" and "(k, entry) \<in> set (tb_entries book)"
  shows "\<exists>e\<in>set es. issued_as k entry e"
  using assms
proof (induction rule: run.induct)
  case run_init
  then show ?case by (simp add: empty_book_def)
next
  case (run_step es s' e s'')
  from step_from [OF run_step.hyps(2) run_step.prems] run_step.IH show ?case by auto
qed

section \<open>Token bytes\<close>

definition px_wf :: "PxToken \<Rightarrow> bool" where
  "px_wf t \<longleftrightarrow> length (px_secret t) = 8 \<and> pr_donation_output (px_rates t) \<noteq> Some 0xff \<and> pr_fee_output (px_rates t) \<noteq> Some 0xff"

lemma px_flags:
  fixes w :: u8
  shows "w AND NOT 3 = 0 \<longleftrightarrow> w = u8_of_bool (w AND 1 \<noteq> 0) OR push_bit 1 (u8_of_bool (w AND 2 \<noteq> 0))"
    and "(u8_of_bool a OR push_bit 1 (u8_of_bool b)) AND 1 \<noteq> 0 \<longleftrightarrow> a" and "(u8_of_bool a OR push_bit 1 (u8_of_bool b)) AND 2 \<noteq> 0 \<longleftrightarrow> b"
    and "(u8_of_bool a OR push_bit 1 (u8_of_bool b)) AND NOT 3 = 0"
proof -
  show "(u8_of_bool a OR push_bit 1 (u8_of_bool b)) AND 1 \<noteq> 0 \<longleftrightarrow> a" "(u8_of_bool a OR push_bit 1 (u8_of_bool b)) AND 2 \<noteq> 0 \<longleftrightarrow> b"
    "(u8_of_bool a OR push_bit 1 (u8_of_bool b)) AND NOT 3 = 0"
    by (cases a; cases b; simp add: u8_of_bool_def)+
  have z4: "(u8_of_bool a OR push_bit 1 (u8_of_bool b)) AND NOT 3 = 0" for a b
    by (cases a; cases b; simp add: u8_of_bool_def)
  have two: "w AND 1 \<noteq> 0 \<longleftrightarrow> bit w 0" "w AND 2 \<noteq> 0 \<longleftrightarrow> bit w 1"
    using and_exp_eq_0_iff_not_bit [of w 0] and_exp_eq_0_iff_not_bit [of w 1] by simp_all
  have b: "bit (u8_of_bool a OR push_bit 1 (u8_of_bool b)) n \<longleftrightarrow> n = 0 \<and> a \<or> n = 1 \<and> b" if "n < 8" for a b n
    unfolding bit_or_iff bit_push_bit_iff u8_of_bool_def using that by (auto simp: bit_1_iff)
  have n3: "bit (NOT 3 :: u8) n \<longleftrightarrow> n \<noteq> 0 \<and> n \<noteq> 1" if "n < 8" for n
  proof -
    have "(3 :: u8) = mask 2" by (simp add: mask_eq_exp_minus_1)
    then have "bit (3 :: u8) n \<longleftrightarrow> bit (mask 2 :: u8) n" by simp
    also have "\<dots> \<longleftrightarrow> n < 2" using that by (simp only: bit_mask_iff) simp
    finally show ?thesis unfolding bit_not_iff using that by auto
  qed
  show "w AND NOT 3 = 0 \<longleftrightarrow> w = u8_of_bool (w AND 1 \<noteq> 0) OR push_bit 1 (u8_of_bool (w AND 2 \<noteq> 0))"
  proof
    assume z: "w AND NOT 3 = 0"
    show "w = u8_of_bool (w AND 1 \<noteq> 0) OR push_bit 1 (u8_of_bool (w AND 2 \<noteq> 0))"
    proof (rule bit_eqI)
      fix n
      assume "possible_bit TYPE(u8) n"
      then have n: "n < 8" by simp
      have "\<not> bit (w AND NOT 3) n" unfolding z by simp
      then have "bit w n \<longrightarrow> n = 0 \<or> n = 1" unfolding bit_and_iff using n3 [OF n] by blast
      then show "bit w n = bit (u8_of_bool (w AND 1 \<noteq> 0) OR push_bit 1 (u8_of_bool (w AND 2 \<noteq> 0))) n"
        unfolding two b [OF n] by blast
    qed
  next
    assume "w = u8_of_bool (w AND 1 \<noteq> 0) OR push_bit 1 (u8_of_bool (w AND 2 \<noteq> 0))"
    then show "w AND NOT 3 = 0" using z4 by metis
  qed
qed

lemma two_bytes: "\<exists>a b. to_le_bytes (w :: u16) = [a, b]"
proof -
  have "length (to_le_bytes w) = Suc (Suc 0)" by simp
  then show ?thesis by (simp only: length_Suc_conv length_0_conv) blast
qed

lemma px_decode_encode:
  assumes "px_wf t"
  shows "px_decode (px_encode t) = Some t"
proof -
  obtain d f dout fout declared full serial secret where t: "t = \<lparr>px_rates = \<lparr>pr_donation_bps = d, pr_fee_bps = f, pr_donation_output = dout, pr_fee_output = fout\<rparr>,
      px_declared = declared, px_full_template = full, px_serial = serial, px_secret = secret\<rparr>"
    by (metis PxToken.surjective PoolRates.surjective old.unit.exhaust)
  obtain d0 d1 where d: "to_le_bytes d = [d0, d1]" using two_bytes by blast
  obtain f0 f1 where f: "to_le_bytes f = [f0, f1]" using two_bytes by blast
  have l: "length (to_le_bytes serial) = 8" "length secret = 8" using assms by (simp_all add: px_wf_def t)
  have undo: "from_le_bytes [d0, d1] = d" "from_le_bytes [f0, f1] = f" "from_le_bytes (to_le_bytes serial) = serial"
    using from_to_le_bytes [of d] from_to_le_bytes [of f] by (simp_all add: d f from_to_le_bytes)
  define fl where "fl = u8_of_bool declared OR push_bit 1 (u8_of_bool full)"
  have e: "px_encode t = [0x50, 0x58, 1, d0, d1, f0, f1, case dout of Some i \<Rightarrow> i | None \<Rightarrow> 0xff, case fout of Some i \<Rightarrow> i | None \<Rightarrow> 0xff, fl]
      @ to_le_bytes serial @ secret"
    by (simp add: px_encode_def t PX_MAGIC_def PX_VERSION_def d f fl_def)
  have nth: "px_encode t ! 9 = fl" "px_encode t ! 2 = 1" "px_encode t ! 3 = d0" "px_encode t ! 4 = d1" "px_encode t ! 5 = f0" "px_encode t ! 6 = f1"
    "px_encode t ! 7 = (case dout of Some i \<Rightarrow> i | None \<Rightarrow> 0xff)" "px_encode t ! 8 = (case fout of Some i \<Rightarrow> i | None \<Rightarrow> 0xff)"
    "take 2 (px_encode t) = PX_MAGIC" "length (px_encode t) = PX_LEN"
    "subrange (px_encode t) 10 18 = to_le_bytes serial" "drop 18 (px_encode t) = secret"
    by (simp_all add: e PX_MAGIC_def PX_LEN_def l subrange_Cons subrange_append1 subrange_full)
  have i: "px_index (case dout of Some i \<Rightarrow> i | None \<Rightarrow> 0xff) = dout" "px_index (case fout of Some i \<Rightarrow> i | None \<Rightarrow> 0xff) = fout"
    using assms by (auto simp: px_wf_def t px_index_def split: option.splits)
  show ?thesis
    unfolding px_decode_def nth undo i using px_flags(2-4) [of declared full] by (simp add: fl_def PX_VERSION_def t)
qed

lemma px_encode_decode:
  assumes "px_decode bs = Some t"
  shows "px_wf t \<and> px_encode t = bs"
proof -
  have l: "length bs = 26" "take 2 bs = PX_MAGIC" "bs ! 2 = 1" "bs ! 9 AND NOT 3 = 0"
    using assms by (auto simp: px_decode_def PX_LEN_def PX_VERSION_def split: if_splits)
  have t: "t = \<lparr>px_rates = \<lparr>pr_donation_bps = from_le_bytes [bs ! 3, bs ! 4], pr_fee_bps = from_le_bytes [bs ! 5, bs ! 6],
       pr_donation_output = px_index (bs ! 7), pr_fee_output = px_index (bs ! 8)\<rparr>, px_declared = (bs ! 9 AND 1 \<noteq> 0), px_full_template = (bs ! 9 AND 2 \<noteq> 0),
       px_serial = from_le_bytes (subrange bs 10 18), px_secret = drop 18 bs\<rparr>"
    using assms by (auto simp: px_decode_def split: if_splits)
  have i: "(case px_index x of Some i \<Rightarrow> i | None \<Rightarrow> 0xff) = x" "px_index x \<noteq> Some 0xff" for x by (simp_all add: px_index_def)
  have "px_wf t" using l(1) by (simp add: px_wf_def t i)
  moreover have "px_encode t = take 2 bs @ [bs ! 2] @ [bs ! 3, bs ! 4] @ [bs ! 5, bs ! 6] @ [bs ! 7, bs ! 8, bs ! 9] @ subrange bs 10 18 @ drop 18 bs"
    using l px_flags(1) [of "bs ! 9"] by (simp add: px_encode_def t i PX_VERSION_def to_from_le_bytes)
  moreover have "\<dots> = bs"
  proof -
    have s: "[bs ! 3, bs ! 4] = subrange bs 3 5" "[bs ! 5, bs ! 6] = subrange bs 5 7" "[bs ! 7, bs ! 8, bs ! 9] = subrange bs 7 10" "[bs ! 2] = subrange bs 2 3"
      using l(1) by (simp_all add: subrange_def take_Suc_conv_app_nth numeral_eq_Suc)
    show ?thesis unfolding s subrange_take [symmetric] using l(1)
      by (simp add: subrange_join_append subrange_join flip: subrange_drop) (simp add: subrange_self [of bs, unfolded l(1)])
  qed
  ultimately show ?thesis by simp
qed

section \<open>Properties\<close>

text \<open>C20. Job Declaration tokens are one-time: in every run of a pool's token book from empty, with any interleaving of
  allocations, declarations, redemptions, refusals, expiries and closed connections, no serial is issued twice, no
  serial is spent twice (by a declaration or a redemption), only issued serials are spent, a living token was issued and
  not spent, and the book never holds more than 1,024 tokens.\<close>

theorem tokens_are_spent_once:
  assumes "run book_step empty_book es book"
  shows "distinct (List.map_filter gives_serial es) \<and> distinct (List.map_filter takes_serial es) \<and>
    set (List.map_filter takes_serial es) \<subseteq> set (List.map_filter gives_serial es) \<and>
    live_serials book \<subseteq> set (List.map_filter gives_serial es) - set (List.map_filter takes_serial es) \<and>
    length (tb_entries book) \<le> 1024"
proof -
  have "live_serials empty_book = {}" by (simp add: live_serials_def empty_book_def)
  note t = book.run_tickets [OF assms this]
  moreover have "length (tb_entries book) \<le> 1024" using book_wf_run [OF assms] by (simp add: book_wf_def JD_MAX_TOKENS_def)
  ultimately show ?thesis by blast
qed

text \<open>C21. A redemption is bound to its token: whenever the book redeems bytes for a payout address, an earlier step of the run
  issued a token of that serial and secret for exactly that address, less than its lifetime ago (10 minutes, 60 once
  declared), no step has spent it, a full-template token not yet declared is never redeemed, and the rates given back are
  those it was issued with.\<close>

theorem redeemed_token_was_issued:
  assumes "run book_step empty_book (es @ [Redeems bytes payout now r]) book"
  shows "\<exists>t owner rates kind issued token. px_decode bytes = Some t \<and> Issues owner payout rates kind issued token \<in> set es \<and>
    px_serial token = px_serial t \<and> px_secret token = px_secret t \<and> now - issued < kind_ttl kind \<and>
    unat (px_serial t) \<notin> set (List.map_filter takes_serial es) \<and>
    (r = RAllocated rates \<and> kind = Allocated False \<or> (\<exists>job ref. r = RDeclared job \<and> kind = Declared ref))"
proof -
  from run_split [OF assms] obtain b b' where r: "run book_step empty_book es b" "book_step b (Redeems bytes payout now r) b'" by blast
  from r(2) obtain jobs where "redeem jobs bytes payout now b = (Inr r, b')" by cases
  then obtain t entry where e: "px_decode bytes = Some t" "(px_serial t, entry) \<in> set (tb_entries (expire now b))"
    "en_secret entry = px_secret t" "en_payout entry = payout"
    "r = RAllocated (en_rates entry) \<and> en_kind entry = Allocated False \<or> (\<exists>ref job. r = RDeclared job \<and> en_kind entry = Declared ref \<and> jobs ref = Some job)"
    by (rule redeem_Inr) blast
  from e(2) have m: "(px_serial t, entry) \<in> set (tb_entries b)" "now - en_issued entry < kind_ttl (en_kind entry)" by simp_all
  from run_from [OF r(1) m(1)] obtain token where i: "Issues (en_owner entry) payout (en_rates entry) (en_kind entry) (en_issued entry) token \<in> set es"
    "px_serial token = px_serial t" "px_secret token = px_secret t" unfolding issued_as_def e(3,4) by blast
  have "live_serials empty_book = {}" by (simp add: live_serials_def empty_book_def)
  from book.taken_was_given [OF assms this] e(1) have "unat (px_serial t) \<notin> set (List.map_filter takes_serial es)" by simp
  with e(1,5) i m(2) show ?thesis by blast
qed

text \<open>Token bytes round trip: the 26-byte decoder accepts exactly the encodings of well-formed tokens, and returns
  the token encoded.\<close>

theorem px_token_round_trip: "px_decode bs = Some t \<longleftrightarrow> px_wf t \<and> bs = px_encode t"
  using px_decode_encode px_encode_decode by blast

section \<open>A token's life\<close>

definition demo_rates :: PoolRates where
  "demo_rates = \<lparr>pr_donation_bps = 150, pr_fee_bps = 100, pr_donation_output = Some 2, pr_fee_output = Some 1\<rparr>"

definition demo_px :: PxToken where
  "demo_px = \<lparr>px_rates = demo_rates, px_declared = False, px_full_template = False, px_serial = 1, px_secret = replicate 8 0x5a\<rparr>"

lemma book_demo_run:
  "\<exists>book. run book_step empty_book ([Issues 7 ''q'' demo_rates (Allocated False) 0 demo_px] @
     [Redeems (px_encode demo_px) ''q'' 5 (RAllocated demo_rates) :: unit book_event]) book"
proof -
  define b where "b = snd (allocate 7 ''q'' demo_rates False 0 (replicate 8 0x5a) empty_book)"
  have a: "allocate 7 ''q'' demo_rates False 0 (replicate 8 0x5a) empty_book = (Inr demo_px, b)"
    by (simp add: b_def allocate_def insert_token_def expire_def make_room_def empty_book_def checked_add_def demo_px_def JD_MAX_TOKENS_def Let_def)
  have "px_decode (px_encode demo_px) = Some demo_px"
    by (rule px_decode_encode) (simp add: px_wf_def demo_px_def demo_rates_def)
  then obtain b' where r: "redeem (\<lambda>_. None :: unit option) (px_encode demo_px) ''q'' 5 b = (Inr (RAllocated demo_rates), b')"
    by (simp add: redeem_def b_def allocate_def insert_token_def expire_def make_room_def empty_book_def checked_add_def demo_px_def
        JD_MAX_TOKENS_def TOKEN_TTL_def from_secs_def Let_def)
  have "run book_step empty_book ([] @ [Issues 7 ''q'' demo_rates (Allocated False) 0 demo_px :: unit book_event]) b"
    by (rule run_step [OF run_init]) (rule step_allocate [OF a])
  then have "run book_step empty_book ([Issues 7 ''q'' demo_rates (Allocated False) 0 demo_px] @
     [Redeems (px_encode demo_px) ''q'' 5 (RAllocated demo_rates) :: unit book_event]) b'"
    using step_redeem [OF r] by (intro run_step [where step = book_step]) simp_all
  then show ?thesis ..
qed

theorem tokens_are_spent_once_witness:
  "\<exists>es book. run book_step empty_book es book \<and> List.map_filter takes_serial (es :: unit book_event list) = [1] \<and> live_serials book \<subseteq> {}"
proof -
  let ?es = "[Issues 7 ''q'' demo_rates (Allocated False) 0 demo_px] @
     [Redeems (px_encode demo_px) ''q'' 5 (RAllocated demo_rates) :: unit book_event]"
  from book_demo_run obtain book where r: "run book_step empty_book ?es book" by blast
  have "px_decode (px_encode demo_px) = Some demo_px"
    by (rule px_decode_encode) (simp add: px_wf_def demo_px_def demo_rates_def)
  then have m: "List.map_filter takes_serial ?es = [1]" "List.map_filter gives_serial ?es = [1]"
    by (simp_all add: List.map_filter_def demo_px_def)
  from tokens_are_spent_once [OF r] have "live_serials book \<subseteq> {}" unfolding m by simp
  with r m(1) show ?thesis by blast
qed

theorem redeemed_token_was_issued_witness:
  "\<exists>es bytes book. run book_step empty_book (es @ [Redeems bytes ''q'' 5 (RAllocated demo_rates) :: unit book_event]) book \<and>
    (\<exists>owner issued token. Issues owner ''q'' demo_rates (Allocated False) issued token \<in> set es)"
proof -
  from book_demo_run obtain book where r: "run book_step empty_book ([Issues 7 ''q'' demo_rates (Allocated False) 0 demo_px] @
     [Redeems (px_encode demo_px) ''q'' 5 (RAllocated demo_rates) :: unit book_event]) book" by blast
  from redeemed_token_was_issued [OF r] r show ?thesis by blast
qed

end
