(* ===== verification/Job_Policy.thy ===== *)
theory Job_Policy
  imports Disclosure Job_Token Claim_Tx
begin

text \<open>
  What a custom job must pay at a pool, from \<open>src/stratum_v2/jd/policy.rs\<close>, \<open>plan.rs\<close> and \<open>codec.rs\<close>: coinbase outputs as Job
  Declaration carries them, the payout rule and its check, the check of declared token leaves, and the outputs a client's
  plan builds. A position in an immutable slice is the bytes from it on. The registry is an argument.
\<close>

section \<open>Outputs\<close>

definition JD_MAX_SCRIPT :: u64 where "JD_MAX_SCRIPT = 10000"
definition MAX_MONEY :: u64 where "MAX_MONEY = 21000000 * 100000000"

datatype codec_error =
  BadCount | CountExceedsBytes | TruncatedValue | ExceedsSupply | BadScriptLength | ScriptTooLong | TruncatedScript | BytesAfter

definition jd_compact_size :: "bytes \<Rightarrow> (u64 \<times> bytes) option" where
  "jd_compact_size bytes =
     Option.bind (split_first bytes) (\<lambda>(first, rest).
     Option.bind
       (if first \<le> 0xfc then Some (ucast first, 1, rest)
        else if first = 0xfd then map_option (\<lambda>(b, rest). (ucast (from_le_bytes b :: u16), 3, rest)) (split_at_checked 2 rest)
        else if first = 0xfe then map_option (\<lambda>(b, rest). (ucast (from_le_bytes b :: u32), 5, rest)) (split_at_checked 4 rest)
        else map_option (\<lambda>(b, rest). (from_le_bytes b, 9, rest)) (split_at_checked 8 rest))
       (\<lambda>(value, width :: nat, rest).
     let minimal = (if width = 1 then True else if width = 3 then value \<ge> 0xfd else if width = 5 then value > 0xffff else value > 0xffffffff)
     in if minimal then Some (value, rest) else None))"

definition write_compact_size :: "u64 \<Rightarrow> bytes" where
  "write_compact_size value =
     (if value \<le> 0xfc then [ucast value]
      else if value \<le> 0xffff then 0xfd # to_le_bytes (ucast value :: u16)
      else if value \<le> 0xffffffff then 0xfe # to_le_bytes (ucast value :: u32)
      else 0xff # to_le_bytes value)"

definition parse_jd_output :: "bytes \<Rightarrow> (codec_error, (u64 \<times> bytes) \<times> bytes) result" where
  "parse_jd_output bytes =
     result_bind (ok_or TruncatedValue (split_at_checked 8 bytes)) (\<lambda>(b, rest).
     let value = from_le_bytes b in
     if value > MAX_MONEY then Inl ExceedsSupply else
     result_bind (ok_or BadScriptLength (jd_compact_size rest)) (\<lambda>(n, rest).
     if n > JD_MAX_SCRIPT then Inl ScriptTooLong else
     result_bind (ok_or TruncatedScript (split_at_checked (unat n) rest)) (\<lambda>(script, rest). Inr ((value, script), rest))))"

fun parse_jd_outputs :: "nat \<Rightarrow> bytes \<Rightarrow> (codec_error, (u64 \<times> bytes) list \<times> bytes) result" where
  "parse_jd_outputs 0 bytes = Inr ([], bytes)"
| "parse_jd_outputs (Suc n) bytes =
     result_bind (parse_jd_output bytes) (\<lambda>(out, rest). result_bind (parse_jd_outputs n rest) (\<lambda>(outs, rest). Inr (out # outs, rest)))"

definition parse_outputs :: "bytes \<Rightarrow> (codec_error, (u64 \<times> bytes) list) result" where
  "parse_outputs bytes =
     result_bind (ok_or BadCount (jd_compact_size bytes)) (\<lambda>(count, rest).
     if count > word_of_nat (length bytes div 9) then Inl CountExceedsBytes else
     result_bind (parse_jd_outputs (unat count) rest) (\<lambda>(outs, rest). if rest \<noteq> [] then Inl BytesAfter else Inr outs))"

definition serialize_outputs :: "(u64 \<times> bytes) list \<Rightarrow> bytes" where
  "serialize_outputs outs =
     write_compact_size (word_of_nat (length outs)) @
     concat (map (\<lambda>(value, script). to_le_bytes value @ write_compact_size (word_of_nat (length script)) @ script) outs)"

section \<open>The payout rule\<close>

definition COMMITMENT_HEAD :: bytes where "COMMITMENT_HEAD = [0x6a, 0x2a, 0x43, 0x54, 0x4d, 0x4d]"

record PayoutRule =
  ru_miner :: bytes
  ru_donation :: "(bytes \<times> u16) option"
  ru_fee :: "(bytes \<times> u16) option"

datatype policy_error =
  CarriesTokens | BadCommitment | TooManyOutputs | MoneySupply | Underpaid | LeavesWithoutCommitment | NoLeaves
  | BadDisclosure disclosure_error | BadSlot SplitError | UnknownToken | TakesNoSplit | NotTheMiner | OtherSplit | CarriesRoot

definition allocated_outputs :: "PayoutRule \<Rightarrow> (u64 \<times> bytes) list \<times> PoolRates" where
  "allocated_outputs rule =
     (let outs = [(0, ru_miner rule)];
          rates = \<lparr>pr_donation_bps = 0, pr_fee_bps = 0, pr_donation_output = None, pr_fee_output = None\<rparr>;
          (outs, rates) = (case ru_fee rule of
             Some (script, points) \<Rightarrow> (outs @ [(0, script)], rates\<lparr>pr_fee_bps := points, pr_fee_output := Some (word_of_nat (length outs))\<rparr>)
           | None \<Rightarrow> (outs, rates))
      in (case ru_donation rule of
            Some (script, points) \<Rightarrow> (outs @ [(0, script)], rates\<lparr>pr_donation_bps := points, pr_donation_output := Some (word_of_nat (length outs))\<rparr>)
          | None \<Rightarrow> (outs, rates)))"

definition bps_share :: "u64 \<Rightarrow> u16 \<Rightarrow> u64" where
  "bps_share amount points = ucast ((ucast amount :: u128) * ucast points div 10000)"

definition minimums :: "PayoutRule \<Rightarrow> u64 \<Rightarrow> u64 \<times> u64" where
  "minimums rule value =
     (let donation = (case ru_donation rule of Some (_, points) \<Rightarrow> bps_share value points | None \<Rightarrow> 0);
          fee = (case ru_fee rule of Some (_, points) \<Rightarrow> bps_share (value - donation) points | None \<Rightarrow> 0)
      in (donation, fee))"

fun commitments_from :: "nat \<Rightarrow> bool \<Rightarrow> (u64 \<times> bytes) list \<Rightarrow> (policy_error, bool) result" where
  "commitments_from index commitment [] = Inr commitment"
| "commitments_from index commitment ((value, script) # rest) =
     (if get_byte script 0 = Some 0xef then Inl CarriesTokens
      else if take 6 script = COMMITMENT_HEAD then
        if index \<noteq> 0 \<or> value \<noteq> 0 \<or> parse_script script = None then Inl BadCommitment else commitments_from (Suc index) True rest
      else commitments_from (Suc index) commitment rest)"

definition check_commitments :: "(u64 \<times> bytes) list \<Rightarrow> (policy_error, unit) result" where
  "check_commitments outs =
     result_bind (commitments_from 0 False outs) (\<lambda>commitment.
     if commitment \<and> length outs \<ge> 0xfd then Inl TooManyOutputs else Inr ())"

text \<open>\<open>*map.entry(key).or_default() += amount\<close>.\<close>

fun entry_add :: "'k \<Rightarrow> u64 \<Rightarrow> ('k \<times> u64) list \<Rightarrow> ('k \<times> u64) list" where
  "entry_add key amount [] = [(key, amount)]"
| "entry_add key amount ((k, v) # rest) = (if k = key then (k, v + amount) # rest else (k, v) # entry_add key amount rest)"

fun sum_outputs :: "u64 \<Rightarrow> (bytes \<times> u64) list \<Rightarrow> (u64 \<times> bytes) list \<Rightarrow> (policy_error, u64 \<times> (bytes \<times> u64) list) result" where
  "sum_outputs value paid [] = Inr (value, paid)"
| "sum_outputs value paid ((amount, script) # rest) =
     (case checked_add value amount of
        Some value \<Rightarrow> if value \<le> MAX_MONEY then sum_outputs value (entry_add script amount paid) rest else Inl MoneySupply
      | None \<Rightarrow> Inl MoneySupply)"

definition owed_outputs :: "PayoutRule \<Rightarrow> u64 \<Rightarrow> (bytes \<times> u64) list" where
  "owed_outputs rule value =
     (let (donation, fee) = minimums rule value;
          owed = (case ru_donation rule of Some (script, _) \<Rightarrow> entry_add script donation [] | None \<Rightarrow> []);
          owed = (case ru_fee rule of Some (script, _) \<Rightarrow> entry_add script fee owed | None \<Rightarrow> owed)
      in if value - donation - fee > 0 then entry_add (ru_miner rule) 1 owed else owed)"

definition rule_check :: "PayoutRule \<Rightarrow> (u64 \<times> bytes) list \<Rightarrow> (policy_error, u64) result" where
  "rule_check rule outs =
     result_bind (check_commitments outs) (\<lambda>_.
     result_bind (sum_outputs 0 [] outs) (\<lambda>(value, paid).
     if list_ex (\<lambda>(script, owed). (case map_of paid script of Some got \<Rightarrow> got | None \<Rightarrow> 0) < owed) (owed_outputs rule value)
     then Inl Underpaid else Inr value))"

definition pair_slot :: "(bytes \<Rightarrow> bytes) \<Rightarrow> (bytes \<times> u16) option \<Rightarrow> (policy_error, Slot) result" where
  "pair_slot sha pair =
     (case pair of
        Some (script, points) \<Rightarrow> (case slot_new sha points script of Inl e \<Rightarrow> Inl (BadSlot e) | Inr s \<Rightarrow> Inr s)
      | None \<Rightarrow> Inr EMPTY_SLOT)"

fun check_disclosed :: "(hash \<Rightarrow> MergeToken option) \<Rightarrow> hash \<Rightarrow> Split \<Rightarrow> DisclosedLeaf list \<Rightarrow> (policy_error, unit) result" where
  "check_disclosed known miner split [] = Inr ()"
| "check_disclosed known miner split (disclosed # rest) =
     result_bind (ok_or UnknownToken (known (lf_category (dl_leaf disclosed)))) (\<lambda>token.
     if \<not> mt_split token then Inl TakesNoSplit
     else if lf_payout_hash (dl_leaf disclosed) \<noteq> miner then Inl NotTheMiner
     else if dl_split disclosed \<noteq> split then Inl OtherSplit
     else check_disclosed known miner split rest)"

definition first_commitment :: "(u64 \<times> bytes) list \<Rightarrow> AuxCommitment option" where
  "first_commitment outs = (case outs of [] \<Rightarrow> None | (_, script) # _ \<Rightarrow> parse_script script)"

definition of_disclosure :: "(disclosure_error, 'a) result \<Rightarrow> (policy_error, 'a) result" where
  "of_disclosure r = (case r of Inl e \<Rightarrow> Inl (BadDisclosure e) | Inr a \<Rightarrow> Inr a)"

definition check_leaves_with ::
  "(bytes \<Rightarrow> bytes) \<Rightarrow> (hash \<Rightarrow> MergeToken option) \<Rightarrow> PayoutRule \<Rightarrow> (u64 \<times> bytes) list \<Rightarrow> bytes \<Rightarrow> (policy_error, unit) result" where
  "check_leaves_with sha known rule outs excess =
     (case first_commitment outs of
        Some c \<Rightarrow>
          if c = EMPTY_COMMITMENT then (if excess = [] then Inr () else Inl LeavesWithoutCommitment)
          else if excess = [] then Inl NoLeaves
          else
            result_bind (of_disclosure (disclosure_decode sha excess)) (\<lambda>disclosure.
            result_bind (of_disclosure (check_root sha disclosure c)) (\<lambda>_.
            result_bind (pair_slot sha (ru_donation rule)) (\<lambda>donation.
            result_bind (pair_slot sha (ru_fee rule)) (\<lambda>fee.
            check_disclosed known (double_sha256 sha (ru_miner rule)) \<lparr>sp_donation = donation, sp_fee = fee\<rparr> (dc_leaves disclosure)))))
      | None \<Rightarrow> if excess = [] then Inr () else Inl LeavesWithoutCommitment)"

definition check_no_root :: "(u64 \<times> bytes) list \<Rightarrow> (policy_error, unit) result" where
  "check_no_root outs =
     (case first_commitment outs of Some c \<Rightarrow> if c \<noteq> EMPTY_COMMITMENT then Inl CarriesRoot else Inr () | None \<Rightarrow> Inr ())"

section \<open>The client's plan\<close>

definition COMPACT_DEVICE_EXTRANONCE :: nat where "COMPACT_DEVICE_EXTRANONCE = 4"
definition DEVICE_EXTRANONCE_SIZE :: nat where "DEVICE_EXTRANONCE_SIZE = 8"

text \<open>The P2Pool plan is only asked whether it is there.\<close>

record JdPlan =
  jp_serial :: u64
  jp_upstream_prefix :: bytes
  jp_pad :: bytes
  jp_compact :: bool
  jp_scripts :: "bytes list"
  jp_rates :: PoolRates
  jp_pool_target :: hash
  jp_p2pool :: bool
  jp_full_template :: bool

definition plan_script :: "JdPlan \<Rightarrow> u8 option \<Rightarrow> bytes option" where
  "plan_script plan index = Option.bind index (\<lambda>i. if unat i < length (jp_scripts plan) then Some (jp_scripts plan ! unat i) else None)"

definition plan_rule :: "JdPlan \<Rightarrow> PayoutRule" where
  "plan_rule plan =
     \<lparr>ru_miner = (case jp_scripts plan of [] \<Rightarrow> [] | s # _ \<Rightarrow> s),
      ru_donation = map_option (\<lambda>s. (s, pr_donation_bps (jp_rates plan))) (plan_script plan (pr_donation_output (jp_rates plan))),
      ru_fee = map_option (\<lambda>s. (s, pr_fee_bps (jp_rates plan))) (plan_script plan (pr_fee_output (jp_rates plan)))\<rparr>"

text \<open>\<open>sums[index] += amount\<close>; \<open>None\<close> is the panic of an index out of range.\<close>

definition add_at :: "u64 \<Rightarrow> nat \<Rightarrow> u64 list \<Rightarrow> u64 list option" where
  "add_at amount index sums = (if index < length sums then Some (sums[index := sums ! index + amount]) else None)"

definition plan_outputs :: "JdPlan \<Rightarrow> u64 \<Rightarrow> (u64 \<times> bytes) list option" where
  "plan_outputs plan value =
     (let (donation, fee) = minimums (plan_rule plan) value;
          sums = replicate (length (jp_scripts plan)) 0
      in Option.bind (case pr_donation_output (jp_rates plan) of Some i \<Rightarrow> add_at donation (unat i) sums | None \<Rightarrow> Some sums) (\<lambda>sums.
         Option.bind (case pr_fee_output (jp_rates plan) of Some i \<Rightarrow> add_at fee (unat i) sums | None \<Rightarrow> Some sums) (\<lambda>sums.
         Option.bind (add_at (value - donation - fee) 0 sums) (\<lambda>sums.
           Some (zip sums (jp_scripts plan))))))"

definition plan_token_payout :: "JdPlan \<Rightarrow> bytes option" where
  "plan_token_payout plan = (case jp_scripts plan of [] \<Rightarrow> None | s # _ \<Rightarrow> Some s)"

definition plan_layout :: "JdPlan \<Rightarrow> nat \<times> nat \<times> nat" where
  "plan_layout plan = (if jp_compact plan then (2, 2, COMPACT_DEVICE_EXTRANONCE) else (4, 4, DEVICE_EXTRANONCE_SIZE))"

definition plan_rollable :: "JdPlan \<Rightarrow> nat" where
  "plan_rollable plan = (let (i, lane, device) = plan_layout plan in i + length (jp_pad plan) + lane + device)"

definition plan_is_valid :: "JdPlan \<Rightarrow> bool" where
  "plan_is_valid plan =
     (if jp_p2pool plan then length (jp_upstream_prefix plan) + plan_rollable plan = 12 \<and> jp_scripts plan \<noteq> []
      else let within = (\<lambda>index. case index of None \<Rightarrow> True | Some i \<Rightarrow> unat i < length (jp_scripts plan) \<and> (i :: u8) > 0)
           in jp_scripts plan \<noteq> [] \<and> within (pr_donation_output (jp_rates plan)) \<and> within (pr_fee_output (jp_rates plan)) \<and>
              pr_donation_bps (jp_rates plan) \<le> 10000 \<and> pr_fee_bps (jp_rates plan) \<le> 10000)"

section \<open>Output bytes\<close>

lemma jd_compact_write: "jd_compact_size (write_compact_size v @ rest) = Some (v, rest)"
proof -
  have at: "split_at_checked (length b) (b @ rest) = Some (b, rest)" for b :: bytes by (simp add: split_at_checked_Some)
  have a2: "split_at_checked 2 (to_le_bytes (w :: u16) @ rest) = Some (to_le_bytes w, rest)"
    and a4: "split_at_checked 4 (to_le_bytes (x :: u32) @ rest) = Some (to_le_bytes x, rest)"
    and a8: "split_at_checked 8 (to_le_bytes (y :: u64) @ rest) = Some (to_le_bytes y, rest)" for w x y
    using at [of "to_le_bytes w"] at [of "to_le_bytes x"] at [of "to_le_bytes y"] by simp_all
  consider "v \<le> 0xfc" | "\<not> v \<le> 0xfc" "v \<le> 0xffff" | "\<not> v \<le> 0xffff" "v \<le> 0xffffffff" | "\<not> v \<le> 0xffffffff" by blast
  then show ?thesis
  proof cases
    case 1
    then have "unat (ucast v :: u8) = unat v" by (simp add: unat_ucast word_le_nat_alt)
    then have "(ucast v :: u8) \<le> 0xfc" "ucast (ucast v :: u8) = v" using 1 by (simp_all add: word_le_nat_alt word_unat_eq_iff unat_ucast_up)
    then show ?thesis using 1 by (simp add: jd_compact_size_def write_compact_size_def split_first_def)
  next
    case 2
    then have "ucast (ucast v :: u16) = v" by (simp add: word_unat_eq_iff word_le_nat_alt unat_ucast_up unat_ucast)
    then show ?thesis using 2
      by (simp add: jd_compact_size_def write_compact_size_def split_first_def a2 from_to_le_bytes word_le_nat_alt)
  next
    case 3
    then have u: "ucast (ucast v :: u32) = v" and n: "\<not> v \<le> 0xfc" by (simp_all add: word_unat_eq_iff word_le_nat_alt unat_ucast_up unat_ucast)
    then show ?thesis using 3
      by (simp add: jd_compact_size_def write_compact_size_def split_first_def a4 from_to_le_bytes word_less_nat_alt word_le_nat_alt)
  next
    case 4
    then have "\<not> v \<le> 0xfc" "\<not> v \<le> 0xffff" by (simp_all add: word_le_nat_alt)
    then show ?thesis using 4
      by (simp add: jd_compact_size_def write_compact_size_def split_first_def a8 from_to_le_bytes word_less_nat_alt word_le_nat_alt)
  qed
qed

lemma write_jd_compact:
  assumes "jd_compact_size bs = Some (v, rest)"
  shows "bs = write_compact_size v @ rest"
proof -
  obtain first r where bs: "bs = first # r" using assms by (cases bs) (auto simp: jd_compact_size_def split_first_def)
  consider "first \<le> 0xfc" | "first = 0xfd" | "first = 0xfe" | "first = 0xff" "\<not> first \<le> 0xfc" "first \<noteq> 0xfd" "first \<noteq> 0xfe"
  proof -
    have "unat first < 256" using unsigned_less [of first, where ?'a = nat] by simp
    then have "unat first \<le> 252 \<or> unat first = 253 \<or> unat first = 254 \<or> unat first = 255" by linarith
    then show thesis using that by (auto simp: word_le_nat_alt word_unat_eq_iff)
  qed
  then show ?thesis
  proof cases
    case 1
    then have v: "v = ucast first" "rest = r" using assms by (auto simp: bs jd_compact_size_def split_first_def)
    have "unat v = unat first" by (simp add: v unat_ucast_up)
    then have "v \<le> 0xfc" "(ucast v :: u8) = first" using 1 by (simp_all add: word_le_nat_alt word_unat_eq_iff unat_ucast)
    then show ?thesis by (simp add: bs v write_compact_size_def)
  next
    case 2
    then obtain b where b: "length b = 2" "r = b @ rest" "v = ucast (from_le_bytes b :: u16)" "0xfd \<le> v"
      using assms by (cases "split_at_checked 2 r") (auto simp: bs jd_compact_size_def split_first_def split_at_checked_Some Let_def split: if_splits)
    have u: "unat v = unat (from_le_bytes b :: u16)" by (simp add: b(3) unat_ucast_up)
    then have l: "unat v < 65536" using unsigned_less [of "from_le_bytes b :: u16", where ?'a = nat] by simp
    moreover have "(ucast v :: u16) = from_le_bytes b" using u l by (simp add: word_unat_eq_iff unat_ucast)
    ultimately show ?thesis using b by (simp add: bs 2 write_compact_size_def to_from_le_bytes word_le_nat_alt)
  next
    case 3
    then obtain b where b: "length b = 4" "r = b @ rest" "v = ucast (from_le_bytes b :: u32)" "0xffff < v"
      using assms by (cases "split_at_checked 4 r") (auto simp: bs jd_compact_size_def split_first_def split_at_checked_Some Let_def split: if_splits)
    have u: "unat v = unat (from_le_bytes b :: u32)" by (simp add: b(3) unat_ucast_up)
    then have l: "unat v < 4294967296" using unsigned_less [of "from_le_bytes b :: u32", where ?'a = nat] by simp
    moreover have "(ucast v :: u32) = from_le_bytes b" using u l by (simp add: word_unat_eq_iff unat_ucast)
    ultimately show ?thesis using b by (simp add: bs 3 write_compact_size_def to_from_le_bytes word_le_nat_alt word_less_nat_alt)
  next
    case 4
    then obtain b where b: "length b = 8" "r = b @ rest" "v = from_le_bytes b" "0xffffffff < v"
      using assms by (cases "split_at_checked 8 r") (auto simp: bs jd_compact_size_def split_first_def split_at_checked_Some Let_def split: if_splits)
    then have "to_le_bytes v = b" by (simp add: to_from_le_bytes)
    then show ?thesis using b(2,4) by (simp add: bs 4(1) write_compact_size_def word_le_nat_alt word_less_nat_alt)
  qed
qed

lemma jd_compact_iff: "jd_compact_size bs = Some (v, rest) \<longleftrightarrow> bs = write_compact_size v @ rest"
  using jd_compact_write write_jd_compact by blast


definition jd_output_bytes :: "u64 \<times> bytes \<Rightarrow> bytes" where
  "jd_output_bytes out = to_le_bytes (fst out) @ write_compact_size (word_of_nat (length (snd out))) @ snd out"

definition jd_output_ok :: "u64 \<times> bytes \<Rightarrow> bool" where
  "jd_output_ok out \<longleftrightarrow> fst out \<le> MAX_MONEY \<and> length (snd out) \<le> 10000"

lemma parse_jd_output_iff: "parse_jd_output bs = Inr (out, rest) \<longleftrightarrow> jd_output_ok out \<and> bs = jd_output_bytes out @ rest"
proof
  assume "parse_jd_output bs = Inr (out, rest)"
  then obtain b r1 n r2 script where p: "length b = 8" "bs = b @ r1" "from_le_bytes b \<le> MAX_MONEY" "r1 = write_compact_size n @ r2" "n \<le> JD_MAX_SCRIPT"
    "length script = unat n" "r2 = script @ rest" "out = (from_le_bytes b, script)"
    unfolding parse_jd_output_def by (auto simp: result_bind_Inr_iff ok_or_Inr_iff split_at_checked_Some jd_compact_iff Let_def not_less split: if_splits)
  have "unat n \<le> 10000" using p(5) by (simp add: JD_MAX_SCRIPT_def word_le_nat_alt)
  with p show "jd_output_ok out \<and> bs = jd_output_bytes out @ rest" by (simp add: jd_output_ok_def jd_output_bytes_def to_from_le_bytes)
next
  assume a: "jd_output_ok out \<and> bs = jd_output_bytes out @ rest"
  obtain val script where vs: "out = (val, script)" by (cases out)
  have s: "split_at_checked 8 bs = Some (to_le_bytes val, write_compact_size (word_of_nat (length script)) @ script @ rest)"
    using a by (simp add: vs jd_output_bytes_def split_at_checked_Some)
  have u: "unat (word_of_nat (length script) :: u64) = length script" using a by (simp add: vs jd_output_ok_def unat_of_nat)
  then have n: "\<not> word_of_nat (length script) > JD_MAX_SCRIPT" using a by (simp add: vs jd_output_ok_def JD_MAX_SCRIPT_def word_less_nat_alt)
  have t: "split_at_checked (length script) (script @ rest) = Some (script, rest)" by (simp add: split_at_checked_Some)
  have v: "\<not> val > MAX_MONEY" using a by (simp add: vs jd_output_ok_def not_less)
  show "parse_jd_output bs = Inr (out, rest)"
    unfolding parse_jd_output_def s using n v by (simp add: ok_or_def jd_compact_write from_to_le_bytes u t vs)
qed

lemma parse_jd_outputs_iff:
  "parse_jd_outputs n bs = Inr (outs, rest) \<longleftrightarrow> length outs = n \<and> list_all jd_output_ok outs \<and> bs = concat (map jd_output_bytes outs) @ rest"
proof (induction n arbitrary: bs outs)
  case (Suc n)
  have "parse_jd_outputs (Suc n) bs = Inr (outs, rest) \<longleftrightarrow>
      (\<exists>out more mid. outs = out # more \<and> parse_jd_output bs = Inr (out, mid) \<and> parse_jd_outputs n mid = Inr (more, rest))"
    by (auto simp: result_bind_Inr_iff)
  then show ?case by (cases outs) (auto simp: Suc.IH parse_jd_output_iff)
qed auto

lemma serialize_outputs_eq: "serialize_outputs outs = write_compact_size (word_of_nat (length outs)) @ concat (map jd_output_bytes outs)"
  by (simp add: serialize_outputs_def jd_output_bytes_def [abs_def] case_prod_unfold)

lemma length_jd_outputs: "9 * length outs \<le> length (concat (map jd_output_bytes outs))"
proof (induction outs)
  case (Cons out outs)
  have "0 < length (write_compact_size v)" for v by (simp add: write_compact_size_def)
  then have "9 \<le> length (jd_output_bytes out)" by (simp add: jd_output_bytes_def Suc_leI)
  with Cons show ?case by simp
qed simp

lemma parse_outputs_iff:
  assumes "length bs < 2 ^ 64"
  shows "parse_outputs bs = Inr outs \<longleftrightarrow> list_all jd_output_ok outs \<and> bs = serialize_outputs outs"
proof
  assume "parse_outputs bs = Inr outs"
  then obtain count rest where p: "bs = write_compact_size count @ rest" "parse_jd_outputs (unat count) rest = Inr (outs, [])"
    unfolding parse_outputs_def by (auto simp: result_bind_Inr_iff ok_or_Inr_iff jd_compact_iff split: if_splits)
  from p(2) have "length outs = unat count" "list_all jd_output_ok outs" "rest = concat (map jd_output_bytes outs)"
    unfolding parse_jd_outputs_iff by simp_all
  with p(1) show "list_all jd_output_ok outs \<and> bs = serialize_outputs outs" by (simp add: serialize_outputs_eq)
next
  assume a: "list_all jd_output_ok outs \<and> bs = serialize_outputs outs"
  then have b: "bs = write_compact_size (word_of_nat (length outs)) @ concat (map jd_output_bytes outs)" by (simp add: serialize_outputs_eq)
  have "9 * length outs \<le> length bs" unfolding b using length_jd_outputs [of outs] by simp
  then have l: "length outs \<le> length bs div 9" by simp
  moreover have m: "length bs div 9 < 2 ^ 64" using assms div_le_dividend [of "length bs" 9] by linarith
  ultimately have u: "unat (word_of_nat (length outs) :: u64) = length outs" "unat (word_of_nat (length bs div 9) :: u64) = length bs div 9"
    by (simp_all add: unat_of_nat)
  have "\<not> (word_of_nat (length bs div 9) :: u64) < word_of_nat (length outs)" using l by (simp add: word_less_nat_alt u)
  moreover have "parse_jd_outputs (length outs) (concat (map jd_output_bytes outs)) = Inr (outs, [])"
    unfolding parse_jd_outputs_iff using a by simp
  ultimately show "parse_outputs bs = Inr outs"
    unfolding parse_outputs_def using b by (simp add: jd_compact_write ok_or_def u)
qed

section \<open>What the rule asks\<close>

definition got :: "('k \<times> u64) list \<Rightarrow> 'k \<Rightarrow> u64" where
  "got m k = (case map_of m k of Some v \<Rightarrow> v | None \<Rightarrow> 0)"

lemma got_Nil [simp]: "got [] k = 0"
  by (simp add: got_def)

lemma map_of_entry_add: "map_of (entry_add key amount m) k = (if k = key then Some (got m key + amount) else map_of m k)"
  by (induction key amount m rule: entry_add.induct) (auto simp: got_def)

lemma got_entry_add [simp]: "got (entry_add key amount m) k = got m k + (if k = key then amount else 0)"
  by (simp add: got_def [of "entry_add key amount m"] map_of_entry_add) (simp add: got_def)

lemma keys_entry_add: "fst ` set (entry_add key amount m) = insert key (fst ` set m)"
  by (induction key amount m rule: entry_add.induct) auto

lemma distinct_entry_add: "distinct (map fst m) \<Longrightarrow> distinct (map fst (entry_add key amount m))"
  by (induction key amount m rule: entry_add.induct) (auto simp: keys_entry_add)

lemma all_met_iff:
  assumes "distinct (map fst owed)"
  shows "\<not> list_ex (\<lambda>(k, n). got paid k < n) owed \<longleftrightarrow> (\<forall>k. got owed k \<le> got paid k)"
proof -
  have "(\<forall>k. got owed k \<le> got paid k) \<longleftrightarrow> (\<forall>k n. map_of owed k = Some n \<longrightarrow> n \<le> got paid k)"
    by (auto simp: got_def [of owed] split: option.splits)
  also have "\<dots> \<longleftrightarrow> (\<forall>(k, n) \<in> set owed. n \<le> got paid k)" using assms by auto
  finally show ?thesis by (auto simp: list_ex_iff not_less [symmetric])
qed

lemma paid_to_le_total: "paid_to script outs \<le> paid_total outs"
  by (induction outs) (auto simp: paid_to_def paid_total_def)

lemma max_money: "unat MAX_MONEY = 2100000000000000"
  by (simp add: MAX_MONEY_def)

lemma sum_outputs_iff:
  assumes "v0 \<le> MAX_MONEY"
  shows "(\<exists>v paid'. sum_outputs v0 paid outs = Inr (v, paid')) \<longleftrightarrow> unat v0 + paid_total outs \<le> unat MAX_MONEY"
  using assms
proof (induction outs arbitrary: v0 paid)
  case (Cons out rest)
  obtain amount script where out: "out = (amount, script)" by (cases out)
  show ?case
  proof (cases "checked_add v0 amount")
    case None
    then have "2 ^ 64 \<le> unat v0 + unat amount" by (simp add: checked_add_def split: if_splits)
    then show ?thesis using None by (simp add: out paid_total_def max_money)
  next
    case (Some w)
    note u = unat_checked_add [OF Some]
    show ?thesis
    proof (cases "w \<le> MAX_MONEY")
      case True
      then show ?thesis using Some Cons.IH [OF True] u by (simp add: out paid_total_def add.assoc)
    next
      case False
      then show ?thesis using Some u by (simp add: out paid_total_def word_le_nat_alt)
    qed
  qed
qed (simp add: paid_total_def word_le_nat_alt)

lemma sum_outputs_sums:
  "sum_outputs v0 paid outs = Inr (v, paid') \<Longrightarrow>
    unat v = unat v0 + paid_total outs \<and> (\<forall>k. got paid' k = got paid k + word_of_nat (paid_to k outs))"
proof (induction outs arbitrary: v0 paid)
  case (Cons out rest)
  obtain amount script where out: "out = (amount, script)" by (cases out)
  with Cons.prems obtain w where w: "checked_add v0 amount = Some w" "sum_outputs w (entry_add script amount paid) rest = Inr (v, paid')"
    by (auto split: option.splits if_splits)
  from Cons.IH [OF w(2)] unat_checked_add [OF w(1)]
  show ?case by (auto simp: out paid_total_def paid_to_def)
qed (simp add: paid_total_def paid_to_def)

lemma sum_outputs_total:
  "sum_outputs 0 [] outs = Inr (v, paid) \<Longrightarrow> unat v = paid_total outs \<and> paid_total outs \<le> 2100000000000000 \<and> (\<forall>k. unat (got paid k) = paid_to k outs)"
proof -
  assume s: "sum_outputs 0 [] outs = Inr (v, paid)"
  have z: "(0 :: u64) \<le> MAX_MONEY" by (simp add: word_le_nat_alt)
  have "paid_total outs \<le> 2100000000000000" using sum_outputs_iff [OF z, of "[]" outs] s by (auto simp: max_money)
  moreover have "paid_to k outs < 2 ^ 64" for k using paid_to_le_total [of k outs] \<open>paid_total outs \<le> 2100000000000000\<close> by simp
  ultimately show ?thesis using sum_outputs_sums [OF s] by (auto simp: unat_of_nat)
qed

definition rate_points :: "(bytes \<times> u16) option \<Rightarrow> nat" where
  "rate_points pair = (case pair of Some (_, rate) \<Rightarrow> unat rate | None \<Rightarrow> 0)"

definition rule_donation :: "PayoutRule \<Rightarrow> nat \<Rightarrow> nat" where
  "rule_donation rule V = V * rate_points (ru_donation rule) div 10000"

definition rule_fee :: "PayoutRule \<Rightarrow> nat \<Rightarrow> nat" where
  "rule_fee rule V = (V - rule_donation rule V) * rate_points (ru_fee rule) div 10000"

definition due_script :: "PayoutRule \<Rightarrow> nat \<Rightarrow> bytes \<Rightarrow> nat" where
  "due_script rule V script =
     (if map_option fst (ru_donation rule) = Some script then rule_donation rule V else 0) +
     (if map_option fst (ru_fee rule) = Some script then rule_fee rule V else 0) +
     (if ru_miner rule = script \<and> rule_donation rule V + rule_fee rule V < V then 1 else 0)"

definition rates_ok :: "PayoutRule \<Rightarrow> bool" where
  "rates_ok rule \<longleftrightarrow> rate_points (ru_donation rule) \<le> 10000 \<and> rate_points (ru_fee rule) \<le> 10000"

lemma share_le: "b \<le> (10000 :: nat) \<Longrightarrow> a * b div 10000 \<le> a"
  by (metis div_le_mono mult_le_mono2 nonzero_mult_div_cancel_right zero_neq_numeral)

lemma unat_bps_share:
  assumes "unat b \<le> 10000"
  shows "unat (bps_share a b) = unat a * unat b div 10000"
proof -
  have a: "unat a < 2 ^ 64" using unsigned_less [of a, where ?'a = nat] by simp
  have "unat a * unat b \<le> 2 ^ 64 * 10000" using a assms by (intro mult_le_mono) simp_all
  then have p: "unat ((ucast a :: u128) * ucast b) = unat a * unat b"
    by (simp add: unat_word_ariths unat_ucast_up)
  have "unat a * unat b div 10000 \<le> unat a" by (rule share_le [OF assms])
  then show ?thesis using a by (simp add: bps_share_def unat_ucast unat_div p)
qed

lemma minimums_nat:
  assumes "rates_ok rule"
  shows "unat (fst (minimums rule v)) = rule_donation rule (unat v)" (is ?d)
    and "unat (snd (minimums rule v)) = rule_fee rule (unat v)" (is ?f)
    and "rule_donation rule (unat v) + rule_fee rule (unat v) \<le> unat v"
proof -
  have dle: "rule_donation rule (unat v) \<le> unat v" using assms by (simp add: rule_donation_def rates_ok_def share_le)
  show d: ?d using assms
    by (auto simp: minimums_def Let_def rule_donation_def rates_ok_def rate_points_def unat_bps_share split: option.splits)
  have u: "unat (v - fst (minimums rule v)) = unat v - rule_donation rule (unat v)"
    using d dle by (simp add: unat_sub word_le_nat_alt)
  then show ?f using assms
    by (auto simp: minimums_def Let_def rule_fee_def rates_ok_def rate_points_def unat_bps_share split: option.splits)
  show "rule_donation rule (unat v) + rule_fee rule (unat v) \<le> unat v"
    using dle share_le [of "rate_points (ru_fee rule)" "unat v - rule_donation rule (unat v)"] assms by (simp add: rule_fee_def rates_ok_def)
qed

lemma distinct_owed: "distinct (map fst (owed_outputs rule v))"
  by (auto simp: owed_outputs_def Let_def case_prod_unfold distinct_entry_add split: option.splits)

lemma owed_left:
  assumes "rates_ok rule" "minimums rule v = (d, f)"
  shows "v - d - f > 0 \<longleftrightarrow> rule_donation rule (unat v) + rule_fee rule (unat v) < unat v"
proof -
  note m = minimums_nat [OF assms(1), of v]
  have "unat (v - d) = unat v - unat d" using m assms(2) by (simp add: unat_sub word_le_nat_alt)
  moreover from this have "unat (v - d - f) = unat v - unat d - unat f" using m assms(2) by (simp add: unat_sub word_le_nat_alt)
  ultimately show ?thesis using m assms(2) unfolding word_less_nat_alt by auto
qed

lemma got_owed:
  assumes "rates_ok rule"
  shows "got (owed_outputs rule v) k = word_of_nat (due_script rule (unat v) k)"
proof -
  obtain d f where df: "minimums rule v = (d, f)" by (cases "minimums rule v")
  then have n: "d = word_of_nat (rule_donation rule (unat v))" "f = word_of_nat (rule_fee rule (unat v))"
    using minimums_nat(1,2) [OF assms, of v, symmetric] by simp_all
  show ?thesis
    using owed_left [OF assms df]
    by (auto simp: owed_outputs_def df due_script_def n simp del: entry_add.simps split: option.splits)
qed

lemma due_script_le:
  assumes "rates_ok rule"
  shows "due_script rule (unat (v :: u64)) k \<le> unat v"
  using minimums_nat(3) [OF assms, of v] by (auto simp: due_script_def)

lemma got_owed_nat:
  assumes "rates_ok rule"
  shows "unat (got (owed_outputs rule v) k) = due_script rule (unat v) k"
  using due_script_le [OF assms, of v k] unsigned_less [of v, where ?'a = nat] by (simp add: got_owed [OF assms] unat_of_nat)

lemma sum_outputs_Inr:
  assumes "paid_total outs \<le> 2100000000000000"
  obtains v paid where "sum_outputs 0 [] outs = Inr (v, paid)"
proof -
  have z: "(0 :: u64) \<le> MAX_MONEY" by (simp add: word_le_nat_alt)
  show thesis using sum_outputs_iff [OF z, of "[]" outs] assms that by (auto simp: max_money)
qed

lemma rule_check_iff:
  assumes "rates_ok rule"
  shows "rule_check rule outs = Inr v \<longleftrightarrow>
     check_commitments outs = Inr () \<and> paid_total outs \<le> 2100000000000000 \<and> unat v = paid_total outs \<and>
     (\<forall>script. due_script rule (paid_total outs) script \<le> paid_to script outs)"
proof (cases "paid_total outs \<le> 2100000000000000")
  case True
  then obtain w paid where s: "sum_outputs 0 [] outs = Inr (w, paid)" by (rule sum_outputs_Inr)
  note t = sum_outputs_total [OF s]
  have e: "\<not> list_ex (\<lambda>(script, owed). (case map_of paid script of Some g \<Rightarrow> g | None \<Rightarrow> 0) < owed) (owed_outputs rule w) \<longleftrightarrow>
      (\<forall>script. due_script rule (paid_total outs) script \<le> paid_to script outs)"
    unfolding got_def [symmetric] all_met_iff [OF distinct_owed] word_le_nat_alt got_owed_nat [OF assms] using t by simp
  have v: "unat v = paid_total outs \<longleftrightarrow> w = v" using t by (auto simp: word_unat_eq_iff)
  show ?thesis
    unfolding rule_check_def by (cases "check_commitments outs") (use True e in \<open>auto simp: s v\<close>)
next
  case False
  have "sum_outputs 0 [] outs \<noteq> Inr p" for p using sum_outputs_total [of outs "fst p" "snd p"] False by auto
  then show ?thesis unfolding rule_check_def using False by (auto simp: result_bind_Inr_iff)
qed

section \<open>The plan's outputs\<close>

definition paid_where :: "(bytes \<Rightarrow> bool) \<Rightarrow> (u64 \<times> bytes) list \<Rightarrow> nat" where
  "paid_where P outs = (\<Sum>out\<leftarrow>filter (\<lambda>out. P (snd out)) outs. unat (fst out))"

lemma paid_where_eqs: "paid_total outs = paid_where (\<lambda>_. True) outs" "paid_to s outs = paid_where (\<lambda>x. x = s) outs"
  by (induction outs) (auto simp: paid_where_def paid_total_def paid_to_def)

lemma paid_where_update:
  assumes "length sums = length ss" "i < length sums" "unat (sums ! i) + unat a < 2 ^ 64"
  shows "paid_where P (zip (sums[i := sums ! i + a]) ss) = paid_where P (zip sums ss) + (if P (ss ! i) then unat a else 0)"
  using assms
proof (induction sums ss arbitrary: i rule: list_induct2)
  case (Cons x xs s ss)
  show ?case
  proof (cases i)
    case 0
    then have "unat (x + a) = unat x + unat a" using Cons.prems by (simp add: unat_word_ariths)
    with 0 show ?thesis by (simp add: paid_where_def)
  next
    case (Suc j)
    with Cons show ?thesis by (simp add: paid_where_def)
  qed
qed simp

lemma nth_le_total: "length sums = length ss \<Longrightarrow> i < length sums \<Longrightarrow> unat (sums ! i) \<le> paid_total (zip sums ss)"
  by (induction sums ss arbitrary: i rule: list_induct2) (auto simp: paid_total_def less_Suc_eq_0_disj trans_le_add2)

lemma add_at_pays:
  assumes "length sums = length ss" "i < length sums" "paid_total (zip sums ss) + unat a < 2 ^ 64"
  obtains sums' where "add_at a i sums = Some sums'" "length sums' = length ss"
    "\<And>P. paid_where P (zip sums' ss) = paid_where P (zip sums ss) + (if P (ss ! i) then unat a else 0)"
proof
  have "unat (sums ! i) + unat a < 2 ^ 64" using nth_le_total [OF assms(1,2)] assms(3) by linarith
  then show "paid_where P (zip (sums[i := sums ! i + a]) ss) = paid_where P (zip sums ss) + (if P (ss ! i) then unat a else 0)" for P
    by (rule paid_where_update [OF assms(1,2)])
qed (use assms in \<open>simp_all add: add_at_def\<close>)

lemma add_at_option:
  assumes "length sums = length ss" "\<And>i. index = Some i \<Longrightarrow> unat (i :: u8) < length ss" "paid_total (zip sums ss) + unat a < 2 ^ 64"
  obtains sums' where "(case index of Some i \<Rightarrow> add_at a (unat i) sums | None \<Rightarrow> Some sums) = Some sums'" "length sums' = length ss"
    "\<And>P. paid_where P (zip sums' ss) = paid_where P (zip sums ss) +
       (case index of Some i \<Rightarrow> if P (ss ! unat i) then unat a else 0 | None \<Rightarrow> 0)"
proof (cases index)
  case None
  then show thesis using that [of sums] assms(1) by simp
next
  case (Some i)
  with assms(1,2) have "unat i < length sums" by simp
  from add_at_pays [OF assms(1) this assms(3)] show thesis using that Some by fastforce
qed

lemma paid_where_zeros: "paid_where P (zip (replicate n 0) ss) = 0"
proof (induction n arbitrary: ss)
  case (Suc n)
  then show ?case by (cases ss) (simp_all add: paid_where_def)
qed (simp add: paid_where_def)

lemma plan_outputs_pay:
  assumes valid: "plan_is_valid plan" "\<not> jp_p2pool plan"
    and d: "D = unat (fst (minimums (plan_rule plan) value0))" and f: "F = unat (snd (minimums (plan_rule plan) value0))"
  obtains outs where "plan_outputs plan value0 = Some outs" "map snd outs = jp_scripts plan"
    "\<And>P. paid_where P outs =
       (case pr_donation_output (jp_rates plan) of Some i \<Rightarrow> if P (jp_scripts plan ! unat i) then D else 0 | None \<Rightarrow> 0) +
       (case pr_fee_output (jp_rates plan) of Some i \<Rightarrow> if P (jp_scripts plan ! unat i) then F else 0 | None \<Rightarrow> 0) +
       (if P (jp_scripts plan ! 0) then unat value0 - D - F else 0)"
    "D + F \<le> unat value0"
proof -
  define ss where "ss = jp_scripts plan"
  obtain dw fw where m: "minimums (plan_rule plan) value0 = (dw, fw)" by fastforce
  have dw: "unat dw = D" and fw: "unat fw = F" by (simp_all add: d f m)
  have rates: "rates_ok (plan_rule plan)" using valid
    by (auto simp: rates_ok_def rate_points_def plan_rule_def plan_is_valid_def Let_def word_le_nat_alt split: option.splits)
  have le: "D + F \<le> unat value0" using minimums_nat [OF rates, of value0] d f by simp
  have u: "unat (value0 - dw - fw) = unat value0 - D - F"
    using le d f by (simp add: m unat_sub word_le_nat_alt)
  have v64: "unat value0 < 2 ^ 64" using unsigned_less [of value0, where ?'a = nat] by simp
  have ne: "ss \<noteq> []" and di: "\<And>i. pr_donation_output (jp_rates plan) = Some i \<Longrightarrow> unat i < length ss"
    and fi: "\<And>i. pr_fee_output (jp_rates plan) = Some i \<Longrightarrow> unat i < length ss"
    using valid by (auto simp: plan_is_valid_def ss_def Let_def)
  have l0: "length (replicate (length ss) (0 :: u64)) = length ss" by simp
  have t0: "paid_total (zip (replicate (length ss) (0 :: u64)) ss) + unat dw < 2 ^ 64"
    using le v64 d by (simp add: paid_where_eqs paid_where_zeros m)
  obtain s1 where s1: "(case pr_donation_output (jp_rates plan) of Some i \<Rightarrow> add_at dw (unat i) (replicate (length ss) 0) | None \<Rightarrow> Some (replicate (length ss) 0)) = Some s1"
      "length s1 = length ss"
      "\<And>P. paid_where P (zip s1 ss) = (case pr_donation_output (jp_rates plan) of Some i \<Rightarrow> if P (ss ! unat i) then D else 0 | None \<Rightarrow> 0)"
    using add_at_option [where index = "pr_donation_output (jp_rates plan)", OF l0 di t0] unfolding paid_where_zeros add_0 dw by blast
  have t1: "paid_total (zip s1 ss) + unat fw < 2 ^ 64" using le v64 f by (auto simp: paid_where_eqs s1(3) m split: option.splits)
  obtain s2 where s2: "(case pr_fee_output (jp_rates plan) of Some i \<Rightarrow> add_at fw (unat i) s1 | None \<Rightarrow> Some s1) = Some s2"
      "length s2 = length ss"
      "\<And>P. paid_where P (zip s2 ss) = paid_where P (zip s1 ss) +
        (case pr_fee_output (jp_rates plan) of Some i \<Rightarrow> if P (ss ! unat i) then F else 0 | None \<Rightarrow> 0)"
    using add_at_option [where index = "pr_fee_output (jp_rates plan)", OF s1(2) fi t1] unfolding fw by blast
  have t2: "paid_total (zip s2 ss) + unat (value0 - dw - fw) < 2 ^ 64"
    using le v64 by (auto simp: paid_where_eqs s1(3) s2(3) u split: option.splits)
  obtain s3 where s3: "add_at (value0 - dw - fw) 0 s2 = Some s3" "length s3 = length ss"
      "\<And>P. paid_where P (zip s3 ss) = paid_where P (zip s2 ss) + (if P (ss ! 0) then unat value0 - D - F else 0)"
    using add_at_pays [OF s2(2) _ t2, of 0] ne s2(2) unfolding u by (metis length_greater_0_conv)
  show thesis
  proof
    show "plan_outputs plan value0 = Some (zip s3 ss)"
      unfolding plan_outputs_def m ss_def [symmetric] using s1(1) s2(1) s3(1) by simp
    show "map snd (zip s3 ss) = jp_scripts plan" using s3(2) by (simp add: ss_def)
  qed (simp_all only: s3(3) s2(3) s1(3) ss_def [symmetric] le)
qed

definition plain_script :: "bytes \<Rightarrow> bool" where
  "plain_script script \<longleftrightarrow> get_byte script 0 \<noteq> Some 0xef \<and> take 6 script \<noteq> COMMITMENT_HEAD"

lemma commitments_plain: "list_all (plain_script \<circ> snd) outs \<Longrightarrow> commitments_from i c outs = Inr c"
  by (induction i c outs rule: commitments_from.induct) (simp_all add: plain_script_def)

lemma check_commitments_plain: "list_all plain_script (map snd outs) \<Longrightarrow> check_commitments outs = Inr ()"
  by (simp add: check_commitments_def commitments_plain list.pred_map comp_def)

lemma plan_rates_ok: "plan_is_valid plan \<Longrightarrow> \<not> jp_p2pool plan \<Longrightarrow> rates_ok (plan_rule plan)"
  by (auto simp: rates_ok_def rate_points_def plan_rule_def plan_is_valid_def Let_def word_le_nat_alt split: option.splits)

lemma valid_plan_pays:
  assumes "plan_is_valid plan" and "\<not> jp_p2pool plan" and "template \<le> MAX_MONEY" and "list_all plain_script (jp_scripts plan)"
  shows "\<exists>outs. plan_outputs plan template = Some outs \<and> map snd outs = jp_scripts plan \<and> rule_check (plan_rule plan) outs = Inr template"
proof -
  let ?r = "plan_rule plan"
  note rates = plan_rates_ok [OF assms(1,2)]
  obtain outs where outs: "plan_outputs plan template = Some outs" "map snd outs = jp_scripts plan"
      "\<And>P. paid_where P outs =
       (case pr_donation_output (jp_rates plan) of Some i \<Rightarrow> if P (jp_scripts plan ! unat i) then rule_donation ?r (unat template) else 0 | None \<Rightarrow> 0) +
       (case pr_fee_output (jp_rates plan) of Some i \<Rightarrow> if P (jp_scripts plan ! unat i) then rule_fee ?r (unat template) else 0 | None \<Rightarrow> 0) +
       (if P (jp_scripts plan ! 0) then unat template - rule_donation ?r (unat template) - rule_fee ?r (unat template) else 0)"
    using plan_outputs_pay [OF assms(1,2) refl refl, unfolded minimums_nat(1,2) [OF rates]] by blast
  note m = minimums_nat(3) [OF rates, of template]
  have z: "rule_donation ?r v = 0" if "pr_donation_output (jp_rates plan) = None" for v
    using that by (simp add: rule_donation_def plan_rule_def plan_script_def rate_points_def)
  have z2: "rule_fee ?r v = 0" if "pr_fee_output (jp_rates plan) = None" for v
    using that by (simp add: rule_fee_def plan_rule_def plan_script_def rate_points_def)
  have total: "paid_total outs = unat template"
    using m z z2 by (auto simp: paid_where_eqs outs(3) split: option.splits)
  have "due_script ?r (unat template) script \<le> paid_to script outs" for script
  proof -
    have v: "jp_scripts plan \<noteq> []" "\<And>i. pr_donation_output (jp_rates plan) = Some i \<Longrightarrow> unat i < length (jp_scripts plan)"
      "\<And>i. pr_fee_output (jp_rates plan) = Some i \<Longrightarrow> unat i < length (jp_scripts plan)"
      using assms(1,2) by (auto simp: plan_is_valid_def Let_def)
    have a: "map_option fst (ru_donation ?r) = map_option (\<lambda>i. jp_scripts plan ! unat i) (pr_donation_output (jp_rates plan))"
      "map_option fst (ru_fee ?r) = map_option (\<lambda>i. jp_scripts plan ! unat i) (pr_fee_output (jp_rates plan))"
      "ru_miner ?r = jp_scripts plan ! 0"
      using v by (auto simp: plan_rule_def plan_script_def map_option_case split: option.splits list.splits)
    show ?thesis unfolding due_script_def a paid_where_eqs outs(3) by (auto split: option.splits)
  qed
  moreover have "unat template \<le> 2100000000000000" using assms(3) by (simp add: word_le_nat_alt max_money)
  ultimately have "rule_check ?r outs = Inr template"
    unfolding rule_check_iff [OF rates] using check_commitments_plain assms(4) by (simp add: total outs(2))
  with outs(1,2) show ?thesis by blast
qed

text \<open>C17. A client's plan pays what the pool asks: for a valid plan, other than a P2Pool plan, whose scripts are ordinary outputs and a template worth no more
  than the supply, the plan's outputs exist, go to the pool's scripts in the pool's order, are worth the template
  to the satoshi, and pass the pool's own check of the rule that the plan states, also where the donation and the fee share one script.\<close>

theorem valid_plan_pays_its_rule:
  assumes "plan_is_valid plan" and "\<not> jp_p2pool plan" and "template \<le> MAX_MONEY" and "list_all plain_script (jp_scripts plan)"
  shows "\<exists>outs. plan_outputs plan template = Some outs \<and> map snd outs = jp_scripts plan \<and> rule_check (plan_rule plan) outs = Inr template"
  by (rule valid_plan_pays [OF assms])

definition allocated_plan :: "PayoutRule \<Rightarrow> JdPlan \<Rightarrow> JdPlan" where
  "allocated_plan rule plan =
     plan\<lparr>jp_scripts := map snd (fst (allocated_outputs rule)), jp_rates := snd (allocated_outputs rule), jp_p2pool := False\<rparr>"

text \<open>What a pool allocates with a token is its rule: a plan with the scripts, indexes and rates of the allocation is valid, its first
  output is the miner's, and the rule it states is the rule the pool allocated for.\<close>

theorem allocation_states_the_rule:
  assumes "rates_ok rule"
  shows "plan_is_valid (allocated_plan rule plan) \<and> plan_rule (allocated_plan rule plan) = rule \<and>
    plan_token_payout (allocated_plan rule plan) = Some (ru_miner rule)"
  using assms
  by (cases rule)
    (auto simp: allocated_plan_def allocated_outputs_def plan_is_valid_def plan_rule_def plan_script_def plan_token_payout_def rates_ok_def
      rate_points_def word_le_nat_alt word_less_nat_alt split: option.splits)

text \<open>C18. The pool's check of a custom job's coinbase is exact: with rates of at most one hundred percent it accepts the
  outputs, and names their sum, exactly when the merge-mining shape is allowed, the sum is within the supply, and every script receives
  in all its outputs what the donation, the fee on what the donation leaves and the miner together are due; scripts that are the same
  are due the sum.\<close>

theorem rule_check_exact:
  assumes "rates_ok rule"
  shows "rule_check rule outs = Inr v \<longleftrightarrow>
     check_commitments outs = Inr () \<and> paid_total outs \<le> 2100000000000000 \<and> unat v = paid_total outs \<and>
     (\<forall>script. due_script rule (paid_total outs) script \<le> paid_to script outs)"
  by (rule rule_check_iff [OF assms])

text \<open>Coinbase outputs travel intact: bytes that a message can hold are read as outputs exactly when they are the writer's bytes of those
  outputs, each within the supply and with a script of at most ten thousand bytes; there is one encoding of each list.\<close>

theorem jd_outputs_round_trip:
  assumes "length bs < 2 ^ 64"
  shows "parse_outputs bs = Inr outs \<longleftrightarrow>
    list_all (\<lambda>(amount, script). amount \<le> MAX_MONEY \<and> length script \<le> 10000) outs \<and> bs = serialize_outputs outs"
  using parse_outputs_iff [OF assms] by (simp add: jd_output_ok_def [abs_def] case_prod_unfold)

lemma check_disclosed_iff:
  "check_disclosed known miner split leaves = Inr () \<longleftrightarrow>
    list_all (\<lambda>x. (\<exists>token. known (lf_category (dl_leaf x)) = Some token \<and> mt_split token) \<and> lf_payout_hash (dl_leaf x) = miner \<and> dl_split x = split) leaves"
  by (induction leaves) (auto simp: result_bind_Inr_iff ok_or_Inr_iff)

lemma of_disclosure_Inr: "of_disclosure r = Inr a \<longleftrightarrow> r = Inr a"
  by (simp add: of_disclosure_def split: sum.splits)

lemma declared_leaves_iff:
  assumes "first_commitment outs = Some c" and "c \<noteq> EMPTY_COMMITMENT" 
  shows "check_leaves_with sha known rule outs excess = Inr () \<longleftrightarrow>
    excess \<noteq> [] \<and> (\<exists>d donation fee. disclosure_decode sha excess = Inr d \<and> check_root sha d c = Inr () \<and>
      pair_slot sha (ru_donation rule) = Inr donation \<and> pair_slot sha (ru_fee rule) = Inr fee \<and>
      list_all (\<lambda>x. (\<exists>token. known (lf_category (dl_leaf x)) = Some token \<and> mt_split token) \<and>
        lf_payout_hash (dl_leaf x) = double_sha256 sha (ru_miner rule) \<and> dl_split x = \<lparr>sp_donation = donation, sp_fee = fee\<rparr>) (dc_leaves d))"
  using assms
  by (simp add: check_leaves_with_def result_bind_Inr_iff of_disclosure_Inr check_disclosed_iff)

section \<open>What an accepted root can pay\<close>

definition leaf_slot :: "(bytes \<Rightarrow> bytes) \<Rightarrow> AuxCommitment \<Rightarrow> Leaf \<Rightarrow> u32" where
  "leaf_slot sha c l = slot sha (lf_category l) (ac_salt c) (ac_height c)"

definition rule_slot :: "(bytes \<Rightarrow> bytes) \<Rightarrow> (bytes \<times> u16) option \<Rightarrow> Slot" where
  "rule_slot sha pair = (case pair of
     Some (script, points) \<Rightarrow> if points = 0 then EMPTY_SLOT else \<lparr>sl_bps = points, sl_script_hash = double_sha256 sha script\<rparr>
   | None \<Rightarrow> EMPTY_SLOT)"

lemma pair_slot_Inr: "pair_slot sha pair = Inr s \<Longrightarrow> s = rule_slot sha pair"
  by (auto simp: pair_slot_def rule_slot_def slot_new_def slot_from_hash_def split: option.splits sum.splits if_splits bool.splits)

text \<open>The two messages of one digest that a leaf opened against an accepted root gives when it is not one of the disclosed ones: at the leaf itself or
  along its branch and that of the disclosed tree.\<close>

definition opened_collision ::
  "(bytes \<Rightarrow> bytes) \<Rightarrow> AuxCommitment \<Rightarrow> bytes \<Rightarrow> Leaf \<Rightarrow> hash list \<Rightarrow> (bytes \<times> bytes) option" where
  "opened_collision sha c excess l b =
     (case disclosure_decode sha excess of
        Inl _ \<Rightarrow> None
      | Inr d \<Rightarrow>
          (let s = leaf_slot sha c l;
               shown = branch (build sha (disclosed_layout sha d c) (map (\<lambda>x. leaf_hash sha (dl_leaf x)) (dc_leaves d))) s
           in case find (\<lambda>x. leaf_slot sha c (dl_leaf x) = s) (dc_leaves d) of
                Some x \<Rightarrow>
                  if leaf_hash sha l = leaf_hash sha (dl_leaf x) then Some ([LEAF_PREFIX] @ leaf_preimage l, [LEAF_PREFIX] @ leaf_preimage (dl_leaf x))
                  else fold_collision sha (leaf_hash sha l) (leaf_hash sha (dl_leaf x)) s b shown
              | None \<Rightarrow> fold_collision sha (leaf_hash sha l) (replicate 32 0) s b shown))"

lemma opened_leaf_is_disclosed:
  assumes sha: "hash32 sha" and d: "disclosure_decode sha excess = Inr d" and r: "check_root sha d c = Inr ()" and ne: "dc_leaves d \<noteq> []"
    and h: "ac_height c \<le> MAX_HEIGHT" and l: "leaf_wf l"
    and b: "length b = unat (ac_height c)" "\<forall>s\<in>set b. length s = 32" "fold_branch sha (leaf_hash sha l) (leaf_slot sha c l) b = ac_root c"
  shows "(\<exists>x\<in>set (dc_leaves d). l = dl_leaf x) \<or> collides sha (opened_collision sha c excess l b) \<or> leaf_hash sha l = replicate 32 0"
proof -
  let ?hashes = "map (\<lambda>x. leaf_hash sha (dl_leaf x)) (dc_leaves d)" and ?s = "leaf_slot sha c l"
  define shown where "shown = branch (build sha (disclosed_layout sha d c) ?hashes) ?s"
  have R: "root (build sha (disclosed_layout sha d c) ?hashes) = ac_root c" using r ne by (simp add: check_root_iff)
  have m: "min (ac_height c) MAX_HEIGHT = ac_height c" using h by (simp add: min_def)
  have s32: "\<forall>s\<in>set b \<union> set shown. length s = 32"
    unfolding shown_def using b(2) branch_lengths [OF sha, of ?hashes] by (auto simp: list_all_iff length_leaf_hash [OF sha])
  have bind: "collides sha (fold_collision sha (leaf_hash sha l) y ?s b shown)"
    if "leaf_hash sha l \<noteq> y" "length y = 32" "fold_branch sha y ?s shown = ac_root c" "length shown = unat (ac_height c)" for y
    using that b(1,3) s32 by (intro fold_binding [OF _ _ _ _ sha]) (auto simp: length_leaf_hash [OF sha])
  note C = opened_collision_def [of sha c excess l b, unfolded d, simplified, folded shown_def, unfolded Let_def, folded shown_def]
  show ?thesis
  proof (cases "find (\<lambda>x. leaf_slot sha c (dl_leaf x) = ?s) (dc_leaves d)")
    case None
    then have n: "?s \<notin> set (l_slots (disclosed_layout sha d c))"
      by (auto simp: find_None_iff disclosed_layout_def disclosed_slots_def leaf_slot_def)
    have "unat ?s < 2 ^ unat (min (ac_height c) MAX_HEIGHT)" unfolding leaf_slot_def by (rule slot_bound)
    then have u: "unat ?s < 2 ^ unat (min (l_height (disclosed_layout sha d c)) MAX_HEIGHT)" by (simp add: disclosed_layout_def)
    note B = build_branch_empty [OF n u, of sha ?hashes, folded shown_def, unfolded R]
    have "collides sha (opened_collision sha c excess l b)" if "leaf_hash sha l \<noteq> replicate 32 0"
      using bind [OF that _ B(1)] B(2) None by (simp add: C disclosed_layout_def m)
    then show ?thesis by blast
  next
    case (Some x)
    then obtain i where i: "i < length (dc_leaves d)" "x = dc_leaves d ! i" and xs: "leaf_slot sha c (dl_leaf x) = ?s"
      by (auto simp: find_Some_iff)
    note B = disclosed_branch [OF r i(1) h, folded i(2), folded leaf_slot_def, unfolded xs, folded shown_def]
    have x: "x \<in> set (dc_leaves d)" using i by simp
    then have wf: "leaf_wf (dl_leaf x)" using d by (auto simp: disclosure_decode_iff disclosure_wf_def disclosed_wf_def list_all_iff)
    show ?thesis
    proof (cases "leaf_hash sha l = leaf_hash sha (dl_leaf x)")
      case True
      then have "l = dl_leaf x \<or> collides sha (opened_collision sha c excess l b)"
        using leaf_preimage_inj [OF l wf] Some by (auto simp: C collides_def leaf_hash_def)
      then show ?thesis using x by blast
    next
      case False
      from bind [OF False length_leaf_hash [OF sha] B] show ?thesis using False Some by (simp add: C)
    qed
  qed
qed

text \<open>C19. A pool credits no token win that cheats its rule: take a declaration the pool accepts and any leaf at all that opens the root in its
  output 0, by whatever branch. Then the leaf is of a token the pool knows to verify splits, pays the miner's own script and commits to the split of
  the rule's donation and fee; or two different messages with one digest are exhibited, or a leaf whose digest is zero.\<close>

theorem accepted_root_pays_the_rule:
  assumes "hash32 sha" and "check_leaves_with sha known rule outs excess = Inr ()" and "first_commitment outs = Some c" and "leaf_wf l"
    and "length b = unat (ac_height c)" and "\<forall>s\<in>set b. length s = 32"
    and "fold_branch sha (leaf_hash sha l) (slot sha (lf_category l) (ac_salt c) (ac_height c)) b = ac_root c"
  shows "(\<exists>token. known (lf_category l) = Some token \<and> mt_split token) \<and> lf_payout_hash l = double_sha256 sha (ru_miner rule) \<and>
      lf_ext l = split_ext sha \<lparr>sp_donation = rule_slot sha (ru_donation rule), sp_fee = rule_slot sha (ru_fee rule)\<rparr>
    \<or> collides sha (opened_collision sha c excess l b) \<or> leaf_hash sha l = replicate 32 0"
proof (cases "c = EMPTY_COMMITMENT")
  case True
  then show ?thesis using assms(5,7) by (simp add: EMPTY_COMMITMENT_def ZERO_HASH_def)
next
  case False
  obtain d donation fee where d: "disclosure_decode sha excess = Inr d" "check_root sha d c = Inr ()"
    "pair_slot sha (ru_donation rule) = Inr donation" "pair_slot sha (ru_fee rule) = Inr fee"
    "list_all (\<lambda>x. (\<exists>token. known (lf_category (dl_leaf x)) = Some token \<and> mt_split token) \<and>
      lf_payout_hash (dl_leaf x) = double_sha256 sha (ru_miner rule) \<and> dl_split x = \<lparr>sp_donation = donation, sp_fee = fee\<rparr>) (dc_leaves d)"
    using assms(2) unfolding declared_leaves_iff [OF assms(3) False] by auto
  have h: "ac_height c \<le> MAX_HEIGHT"
    using assms(3) by (auto simp: first_commitment_def parse_script_iff commitment_wf_def split: list.splits prod.splits)
  have ne: "dc_leaves d \<noteq> []" using d(2) False by (auto simp: check_root_iff)
  have "list_all (disclosed_wf sha) (dc_leaves d)" using d(1) by (simp add: disclosure_decode_iff disclosure_wf_def)
  with d(5) have pays: "(\<exists>token. known (lf_category (dl_leaf x)) = Some token \<and> mt_split token) \<and>
      lf_payout_hash (dl_leaf x) = double_sha256 sha (ru_miner rule) \<and>
      lf_ext (dl_leaf x) = split_ext sha \<lparr>sp_donation = rule_slot sha (ru_donation rule), sp_fee = rule_slot sha (ru_fee rule)\<rparr>"
    if "x \<in> set (dc_leaves d)" for x
    using that by (auto simp: list_all_iff disclosed_wf_def pair_slot_Inr [OF d(3), symmetric] pair_slot_Inr [OF d(4), symmetric])
  from opened_leaf_is_disclosed [OF assms(1) d(1,2) ne h assms(4-6)] assms(7) pays show ?thesis by (auto simp: leaf_slot_def)
qed

section \<open>A pool at one and a half and one percent\<close>

definition demo_rule :: PayoutRule where
  "demo_rule = \<lparr>ru_miner = [0x51], ru_donation = Some ([0x53], 150), ru_fee = Some ([0x52], 100)\<rparr>"

definition demo_plan :: JdPlan where
  "demo_plan = \<lparr>jp_serial = 1, jp_upstream_prefix = replicate 16 0, jp_pad = [], jp_compact = False, jp_scripts = [[0x51], [0x52], [0x53]],
     jp_rates = \<lparr>pr_donation_bps = 150, pr_fee_bps = 100, pr_donation_output = Some 2, pr_fee_output = Some 1\<rparr>,
     jp_pool_target = replicate 32 255, jp_p2pool = False, jp_full_template = True\<rparr>"

lemma demo_rule_rates: "rates_ok demo_rule"
  by (simp add: rates_ok_def rate_points_def demo_rule_def)

lemma demo_plan_rule: "plan_rule demo_plan = demo_rule"
  by (simp add: plan_rule_def plan_script_def demo_plan_def demo_rule_def)

theorem valid_plan_pays_its_rule_witness:
  "\<exists>outs. plan_outputs demo_plan 312500000 = Some outs \<and> map snd outs = [[0x51], [0x52], [0x53]] \<and> rule_check demo_rule outs = Inr 312500000"
proof -
  have v: "plan_is_valid demo_plan" "\<not> jp_p2pool demo_plan" by (simp_all add: plan_is_valid_def demo_plan_def)
  have m: "(312500000 :: u64) \<le> MAX_MONEY" by (simp add: MAX_MONEY_def)
  have p: "list_all plain_script (jp_scripts demo_plan)"
    by (simp add: demo_plan_def plain_script_def get_byte_def COMMITMENT_HEAD_def)
  from valid_plan_pays_its_rule [OF v m p] show ?thesis by (simp add: demo_plan_rule) (simp add: demo_plan_def)
qed

theorem allocation_states_the_rule_witness: "plan_rule (allocated_plan demo_rule demo_plan) = demo_rule"
  using allocation_states_the_rule [OF demo_rule_rates] by blast

theorem rule_check_exact_witness:
  "rule_check demo_rule [(304734375, [0x51]), (3078125, [0x52]), (4687500, [0x53])] = Inr 312500000 \<and>
   rule_check demo_rule [(304734376, [0x51]), (3078124, [0x52]), (4687500, [0x53])] \<noteq> Inr 312500000"
proof
  let ?good = "[(304734375, [0x51]), (3078125, [0x52]), (4687500, [0x53])] :: (u64 \<times> bytes) list"
  let ?bad = "[(304734376, [0x51]), (3078124, [0x52]), (4687500, [0x53])] :: (u64 \<times> bytes) list"
  have c: "check_commitments ?good = Inr ()"
    by (simp add: check_commitments_plain plain_script_def get_byte_def COMMITMENT_HEAD_def)
  have t: "paid_total ?good = 312500000" "paid_total ?bad = 312500000" by (simp_all add: paid_total_def)
  have due: "due_script demo_rule 312500000 s = (if s = [0x53] then 4687500 else if s = [0x52] then 3078125 else if s = [0x51] then 1 else 0)" for s
    by (simp add: due_script_def demo_rule_def rule_donation_def rule_fee_def rate_points_def)
  have p: "\<forall>s. due_script demo_rule 312500000 s \<le> paid_to s ?good" by (simp add: due paid_to_def)
  show "rule_check demo_rule ?good = Inr 312500000"
    unfolding rule_check_exact [OF demo_rule_rates] t using c p by simp
  have "\<not> due_script demo_rule 312500000 [0x52] \<le> paid_to [0x52] ?bad" by (simp add: due paid_to_def)
  then show "rule_check demo_rule ?bad \<noteq> Inr 312500000"
    unfolding rule_check_exact [OF demo_rule_rates] t by blast
qed

theorem jd_outputs_round_trip_witness: "parse_outputs (serialize_outputs [(5, [0x51])]) = Inr [(5, [0x51])]"
proof -
  have "length (serialize_outputs [(5, [0x51])]) < 2 ^ 64" by (simp add: serialize_outputs_def write_compact_size_def)
  from jd_outputs_round_trip [OF this] show ?thesis by (simp add: MAX_MONEY_def)
qed

definition demo_commitment :: AuxCommitment where
  "demo_commitment = \<lparr>ac_root = replicate 32 1, ac_height = 0, ac_salt = 0\<rparr>"

definition split_token :: MergeToken where
  "split_token = \<lparr>mt_name = ''T'', mt_network = Chipnet, mt_category = replicate 32 1, mt_deployment = None, mt_verifier_sha256 = None,
     mt_max_aux_height = 16, mt_priority = 0, mt_split = True\<rparr>"

theorem accepted_root_pays_the_rule_witness:
  "check_leaves_with one_sha (\<lambda>_. Some split_token) \<lparr>ru_miner = [0x51], ru_donation = None, ru_fee = None\<rparr>
     [(0, commitment_script demo_commitment)] (disclosure_encode \<lparr>dc_leaves = [shown_leaf 1]\<rparr>) = Inr () \<and>
   lf_payout_hash (dl_leaf (shown_leaf 1)) = double_sha256 one_sha [0x51] \<and>
   lf_ext (dl_leaf (shown_leaf 1)) = split_ext one_sha \<lparr>sp_donation = EMPTY_SLOT, sp_fee = EMPTY_SLOT\<rparr>"
proof -
  let ?rule = "\<lparr>ru_miner = [0x51], ru_donation = None, ru_fee = None\<rparr>" and ?outs = "[(0, commitment_script demo_commitment)]"
    and ?data = "disclosure_encode \<lparr>dc_leaves = [shown_leaf 1]\<rparr>" and ?l = "dl_leaf (shown_leaf 1)"
  have c: "first_commitment ?outs = Some demo_commitment" "demo_commitment \<noteq> EMPTY_COMMITMENT"
    by (simp_all add: first_commitment_def parse_script_iff commitment_wf_def demo_commitment_def EMPTY_COMMITMENT_def ZERO_HASH_def)
  have e: "?data \<noteq> []" by (simp add: disclosure_encode_def DISCLOSURE_MAGIC_def)
  have s: "pair_slot one_sha None = Inr EMPTY_SLOT" by (simp add: pair_slot_def)
  have m: "mt_split split_token" "lf_payout_hash ?l = double_sha256 one_sha [0x51]"
    "dl_split (shown_leaf 1) = \<lparr>sp_donation = EMPTY_SLOT, sp_fee = EMPTY_SLOT\<rparr>"
    by (simp_all add: split_token_def shown_leaf_def double_sha256_def one_sha_def NO_SPLIT_def)
  have a: "check_leaves_with one_sha (\<lambda>_. Some split_token) ?rule ?outs ?data = Inr ()"
    unfolding declared_leaves_iff [OF c] shown_leaf_ok(1) using e m shown_leaf_ok(2) [of 1] s by (auto simp: demo_commitment_def)
  have w: "leaf_wf ?l" by (simp add: shown_leaf_def leaf_wf_def ZERO_HASH_def)
  have z: "leaf_hash one_sha ?l = replicate 32 1" "ac_height demo_commitment = 0" "ac_root demo_commitment = replicate 32 1"
    by (simp_all add: leaf_hash_def one_sha_def demo_commitment_def)
  have n: "\<not> collides one_sha (opened_collision one_sha demo_commitment ?data ?l [])"
    by (simp add: opened_collision_def shown_leaf_ok(1) collides_def Let_def)
  have "lf_ext ?l = split_ext one_sha \<lparr>sp_donation = EMPTY_SLOT, sp_fee = EMPTY_SLOT\<rparr>"
    using accepted_root_pays_the_rule [OF one_sha_hash32 a c(1) w, of "[]"] n z by (simp add: rule_slot_def)
  with a m(2) show ?thesis by blast
qed

end
