(* ===== verification/Template.thy ===== *)
theory Template
  imports Job_Policy Vaults
begin

text \<open>
  Block templates, from \<open>src/stratum_v2/template.rs\<close>: a template from a node's or a provider's data, from a custom or declared
  job or for token work; the Chipnet difficulty rule; coinbases with their merge-mining output, their split around an
  extranonce, headers and blocks. The coinbase of a declaration is \<open>CoinbaseShape\<close> of \<open>src/stratum_v2/jd/declared.rs\<close>.

  The digest, the hex decoder, the Bitcoin transaction decoder, the address code and the P2Pool helper's reply are
  arguments. A template held only to be handed back (\<open>p2pool_donation\<close>) and the lazily built index of transaction ids are
  left out; the lookup through that index is modelled.
\<close>

section \<open>Data\<close>

definition MIN_DIFFICULTY_BITS :: u32 where "MIN_DIFFICULTY_BITS = 0x1d00ffff"
definition MIN_DIFFICULTY_GAP :: u32 where "MIN_DIFFICULTY_GAP = 1200"
definition VERSION_ROLLING_MASK :: u32 where "VERSION_ROLLING_MASK = 0x1fffe000"
definition COINBASE_FIXED :: u64 where "COINBASE_FIXED = 153"

datatype JobLayout = Safa | CaseA

record TokenJob =
  tj_token :: string
  tj_layout :: JobLayout
  tj_version_mask :: u32
  tj_anchor :: hash
  tj_thread :: OutPoint
  tj_age :: u16
  tj_mtp :: u32

datatype Work = BlockWork | TokenWork TokenJob

datatype Origin = OwnSource | HeaderOnly | DeclaredTemplate

record CoinbaseShape =
  cs_tx_version :: u32
  cs_head :: bytes
  cs_script_len :: nat
  cs_sequence :: u32
  cs_outputs :: "(u64 \<times> bytes) list"
  cs_outputs_bytes :: bytes
  cs_locktime :: u32
  cs_prefix :: bytes
  cs_suffix :: bytes

record Prepared =
  prd_token :: bytes
  prd_coinbase :: CoinbaseShape

record BchTemplate =
  tm_previous_hash :: hash
  tm_version :: u32
  tm_bits :: u32
  tm_target :: hash
  tm_min_time :: u32
  tm_current_time :: u32
  tm_height :: u32
  tm_size_limit :: u64
  tm_coinbase_value :: u64
  tm_parent_time :: "u32 option"
  tm_coinbase_flags :: bytes
  tm_transactions :: "bytes list"
  tm_txids :: "hash list"
  tm_merkle_path :: "hash list"
  tm_tokens :: "TokenSet option"
  tm_origin :: Origin
  tm_jd :: "JdPlan option"
  tm_p2pool :: "Prepared option"
  tm_declaration_id :: "u64 option"
  tm_work :: Work

record Coinbase =
  cb_bytes :: bytes
  cb_merkle_root :: hash

record CoinbaseParts =
  pa_prefix :: bytes
  pa_suffix :: bytes
  pa_merkle_path :: "hash list"

datatype tm_error =
  NotFullTemplate | InvalidRules | NeedsSegwit | Omitted string | InvalidField string | BitsLength | InvalidBits
  | CompactTarget template_error | TargetDisagrees | SizeLimit | NoTransactions | TransactionTooLong | TransactionHex
  | SizeOverflow | TransactionsExceed | MalformedTransaction | ForbiddenTransaction | TxidDisagrees | NotInOrder | TimeBelowMin
  | ValueRange | InvalidAux | InvalidFlag | FlagsTooLong | HashHex | HashLength
  | PrefixTooLong | TruncatedHeight | NotHeightPush | HeightNotMinimal | EasierTarget | TooManyTransactions | PathDisagrees
  | NotPrepared | NoPlan | NoPlanOutputs | SplitRefused SplitError | BadAddress | P2poolTokens | P2poolExtranonce
  | ExtranonceTooLong | ScriptOver100 | OutputsOver252 | OverBudget | ForwarderSalt | ForwarderRefused forwarder_error
  | HeaderTime | NoBlockTransactions | TokenIsNoBlock | OtherTemplate | PlanPanics

section \<open>Helpers\<close>

text \<open>The merkle levels above a list of hashes: an odd level repeats its last hash.\<close>

fun hash_pairs :: "(bytes \<Rightarrow> bytes) \<Rightarrow> hash list \<Rightarrow> hash list" where
  "hash_pairs sha (a # b # rest) = double_sha256 sha (a @ b) # hash_pairs sha rest"
| "hash_pairs sha _ = []"

definition even_level :: "hash list \<Rightarrow> hash list" where
  "even_level hashes = (if length hashes mod 2 = 1 then hashes @ [last hashes] else hashes)"

lemma length_hash_pairs: "length (hash_pairs sha hs) = length hs div 2"
  by (induction sha hs rule: hash_pairs.induct) simp_all

lemma length_even_level: "length (even_level hs) = 2 * ((length hs + 1) div 2)"
  by (simp add: even_level_def) presburger

function coinbase_levels :: "(bytes \<Rightarrow> bytes) \<Rightarrow> hash list \<Rightarrow> hash list" where
  "coinbase_levels sha hashes =
     (if length hashes > 1 then even_level hashes ! 1 # coinbase_levels sha (hash_pairs sha (even_level hashes)) else [])"
  by pat_completeness auto
termination
  by (relation "measure (\<lambda>(_, hs). length hs)") (auto simp: length_hash_pairs length_even_level)

declare coinbase_levels.simps [simp del]

definition coinbase_path :: "(bytes \<Rightarrow> bytes) \<Rightarrow> hash list \<Rightarrow> hash list" where
  "coinbase_path sha txids = coinbase_levels sha (replicate 32 0 # txids)"

text \<open>The root of the whole tree, the reference of the source's own tests.\<close>

function merkle_root :: "(bytes \<Rightarrow> bytes) \<Rightarrow> hash list \<Rightarrow> hash" where
  "merkle_root sha hashes = (if length hashes > 1 then merkle_root sha (hash_pairs sha (even_level hashes)) else hashes ! 0)"
  by pat_completeness auto
termination
  by (relation "measure (\<lambda>(_, hs). length hs)") (auto simp: length_hash_pairs length_even_level)

declare merkle_root.simps [simp del]

definition tm_fold :: "(bytes \<Rightarrow> bytes) \<Rightarrow> hash \<Rightarrow> hash list \<Rightarrow> hash" where
  "tm_fold sha leaf path = fold (\<lambda>sibling current. double_sha256 sha (current @ sibling)) path leaf"

definition display_hash :: "(string \<Rightarrow> bytes option) \<Rightarrow> string \<Rightarrow> (tm_error, hash) result" where
  "display_hash hex_decode value =
     result_bind (ok_or HashHex (hex_decode value)) (\<lambda>bytes. if length bytes = 32 then Inr (rev bytes) else Inl HashLength)"

definition json_text :: "json \<Rightarrow> string \<Rightarrow> (tm_error, string) result" where
  "json_text value key = ok_or (Omitted key) (Option.bind (json_get value key) as_str)"

definition json_number :: "json \<Rightarrow> string \<Rightarrow> (tm_error, u64) result" where
  "json_number value key = ok_or (InvalidField key) (Option.bind (json_get value key) as_u64)"

definition json_word :: "json \<Rightarrow> string \<Rightarrow> (tm_error, u32) result" where
  "json_word value key =
     result_bind (json_number value key) (\<lambda>n. if unat n < 2 ^ 32 then Inr (ucast n) else Inl (InvalidField key))"

definition tm_compact_size :: "nat \<Rightarrow> bytes" where
  "tm_compact_size value =
     (if value \<le> 252 then [word_of_nat value]
      else if value \<le> 65535 then 253 # to_le_bytes (word_of_nat value :: u16)
      else if value \<le> 4294967295 then 254 # to_le_bytes (word_of_nat value :: u32)
      else 255 # to_le_bytes (word_of_nat value :: u64))"

definition height_script :: "u32 \<Rightarrow> bytes" where
  "height_script height =
     (if height = 0 then [0]
      else if height \<le> 16 then [0x50 + ucast height]
      else let bytes = rev (dropWhile (\<lambda>b. b = 0) (rev (to_le_bytes height)));
               bytes = (if last bytes AND 0x80 \<noteq> 0 then bytes @ [0] else bytes)
           in word_of_nat (length bytes) # bytes)"

text \<open>What the Bitcoin decoder says of a transaction: whether it is a coinbase, and of each input whether it has a witness.\<close>

record DecodedTx =
  dt_coinbase :: bool
  dt_witness :: "bool list"

definition checked_transaction :: "(bytes \<Rightarrow> bytes) \<Rightarrow> (bytes \<Rightarrow> DecodedTx option) \<Rightarrow> bytes \<Rightarrow> (tm_error, hash) result" where
  "checked_transaction sha deserialize bytes =
     result_bind (ok_or MalformedTransaction (deserialize bytes)) (\<lambda>tx.
     if dt_coinbase tx \<or> dt_witness tx = [] \<or> True \<in> set (dt_witness tx) \<or> get_byte bytes 4 = Some 0 then Inl ForbiddenTransaction
     else Inr (double_sha256 sha bytes))"

section \<open>From a node\<close>

fun as_array :: "json \<Rightarrow> json list option" where
  "as_array (JArr xs) = Some xs"
| "as_array _ = None"

fun as_object :: "json \<Rightarrow> (string \<times> json) list option" where
  "as_object (JObj kvs) = Some kvs"
| "as_object _ = None"

text \<open>\<open>u32::from_str_radix(s, 16)\<close>.\<close>

definition hex_digit :: "char \<Rightarrow> nat option" where
  "hex_digit c =
     (let n = of_char c
      in if 48 \<le> n \<and> n \<le> 57 then Some (n - 48) else if 65 \<le> n \<and> n \<le> 70 then Some (n - 55) else if 97 \<le> n \<and> n \<le> 102 then Some (n - 87) else None)"

fun hex_digits :: "string \<Rightarrow> nat \<Rightarrow> nat option" where
  "hex_digits [] acc = Some acc"
| "hex_digits (c # cs) acc =
     Option.bind (hex_digit c) (\<lambda>d. if 16 * acc + d < 2 ^ 32 then hex_digits cs (16 * acc + d) else None)"

definition parse_hex_u32 :: "string \<Rightarrow> u32 option" where
  "parse_hex_u32 s =
     (let digits = (case s of c # rest \<Rightarrow> if c = CHR ''+'' then rest else s | [] \<Rightarrow> s)
      in if digits = [] then None else map_option word_of_nat (hex_digits digits 0))"

text \<open>A hash follows another when its displayed bytes are larger.\<close>

definition ordered_after :: "hash option \<Rightarrow> hash \<Rightarrow> bool" where
  "ordered_after previous hash = (case previous of None \<Rightarrow> True | Some p \<Rightarrow> \<not> cmp_le hash p)"

fun rpc_transactions ::
  "(bytes \<Rightarrow> bytes) \<Rightarrow> (string \<Rightarrow> bytes option) \<Rightarrow> (bytes \<Rightarrow> DecodedTx option) \<Rightarrow> u64 \<Rightarrow> u64 \<Rightarrow> hash option \<Rightarrow> json list
   \<Rightarrow> (tm_error, (bytes \<times> hash) list) result" where
  "rpc_transactions sha hex_decode deserialize size_limit total_size previous [] = Inr []"
| "rpc_transactions sha hex_decode deserialize size_limit total_size previous (entry # rest) =
     result_bind (json_text entry ''data'') (\<lambda>encoded.
     if word_of_nat (utf8_len encoded) > saturating_mul size_limit 2 then Inl TransactionTooLong else
     result_bind (ok_or TransactionHex (hex_decode encoded)) (\<lambda>bytes.
     result_bind (ok_or SizeOverflow (checked_add total_size (word_of_nat (length bytes)))) (\<lambda>total_size.
     if total_size > size_limit then Inl TransactionsExceed else
     result_bind (checked_transaction sha deserialize bytes) (\<lambda>hash.
     result_bind (json_text entry ''txid'') (\<lambda>txid.
     result_bind (display_hash hex_decode txid) (\<lambda>shown.
     if shown \<noteq> hash then Inl TxidDisagrees
     else if \<not> ordered_after previous (rev hash) then Inl NotInOrder
     else result_bind (rpc_transactions sha hex_decode deserialize size_limit total_size (Some (rev hash)) rest) (\<lambda>more.
          Inr ((bytes, hash) # more))))))))"

fun rpc_flags :: "(string \<Rightarrow> bytes option) \<Rightarrow> json list \<Rightarrow> (tm_error, bytes) result" where
  "rpc_flags hex_decode [] = Inr []"
| "rpc_flags hex_decode (flag # rest) =
     result_bind (ok_or InvalidFlag (as_str flag)) (\<lambda>encoded.
     if utf8_len encoded > 200 then Inl FlagsTooLong else
     result_bind (ok_or InvalidFlag (hex_decode encoded)) (\<lambda>bytes.
     result_bind (rpc_flags hex_decode rest) (\<lambda>more. Inr (bytes @ more))))"

definition rpc_rules :: "json \<Rightarrow> (tm_error, unit) result" where
  "rpc_rules value =
     (case json_get value ''rules'' of
        None \<Rightarrow> Inr ()
      | Some rules \<Rightarrow>
          result_bind (ok_or InvalidRules (as_array rules)) (\<lambda>rules.
          if list_ex (\<lambda>rule. case as_str rule of None \<Rightarrow> True | Some rule \<Rightarrow> dropWhile (\<lambda>c. c = CHR ''!'') rule = ''segwit'') rules
          then Inl NeedsSegwit else Inr ()))"

definition lift_compact :: "(template_error, 'a) result \<Rightarrow> (tm_error, 'a) result" where
  "lift_compact r = (case r of Inl e \<Rightarrow> Inl (CompactTarget e) | Inr a \<Rightarrow> Inr a)"

definition from_rpc ::
  "(bytes \<Rightarrow> bytes) \<Rightarrow> (string \<Rightarrow> bytes option) \<Rightarrow> (bytes \<Rightarrow> DecodedTx option) \<Rightarrow> json \<Rightarrow> (tm_error, BchTemplate) result" where
  "from_rpc sha hex_decode deserialize value =
     (if json_get value ''default_witness_commitment'' \<noteq> None \<or> json_get value ''job_id'' \<noteq> None \<or> json_get value ''merkle'' \<noteq> None
      then Inl NotFullTemplate else
      result_bind (rpc_rules value) (\<lambda>_.
      result_bind (json_text value ''bits'') (\<lambda>bits_text.
      if utf8_len bits_text \<noteq> 8 then Inl BitsLength else
      result_bind (ok_or InvalidBits (parse_hex_u32 bits_text)) (\<lambda>bits.
      result_bind (lift_compact (compact_target bits)) (\<lambda>target.
      result_bind (json_text value ''target'') (\<lambda>target_text.
      result_bind (display_hash hex_decode target_text) (\<lambda>shown.
      if shown \<noteq> target then Inl TargetDisagrees else
      result_bind (json_number value ''sizelimit'') (\<lambda>size_limit.
      if size_limit < 180 then Inl SizeLimit else
      result_bind (ok_or NoTransactions (Option.bind (json_get value ''transactions'') as_array)) (\<lambda>entries.
      result_bind (rpc_transactions sha hex_decode deserialize size_limit 80 None entries) (\<lambda>txs.
      result_bind (json_word value ''mintime'') (\<lambda>min_time.
      result_bind (json_word value ''curtime'') (\<lambda>current_time.
      if current_time < min_time then Inl TimeBelowMin else
      result_bind (json_number value ''coinbasevalue'') (\<lambda>coinbase_value.
      if coinbase_value > 21000000 * 100000000 then Inl ValueRange else
      result_bind (case json_get value ''coinbaseaux'' of
          None \<Rightarrow> Inr []
        | Some aux \<Rightarrow> result_bind (ok_or InvalidAux (as_object aux)) (\<lambda>kvs. rpc_flags hex_decode (map snd kvs))) (\<lambda>coinbase_flags.
      if length coinbase_flags > 100 then Inl FlagsTooLong else
      result_bind (json_text value ''previousblockhash'') (\<lambda>previous_text.
      result_bind (display_hash hex_decode previous_text) (\<lambda>previous_hash.
      result_bind (json_word value ''version'') (\<lambda>version.
      result_bind (json_word value ''height'') (\<lambda>height.
      Inr \<lparr>tm_previous_hash = previous_hash, tm_version = version, tm_bits = bits, tm_target = target, tm_min_time = min_time,
           tm_current_time = current_time, tm_height = height, tm_size_limit = size_limit, tm_coinbase_value = coinbase_value,
           tm_parent_time = None, tm_coinbase_flags = coinbase_flags, tm_transactions = map fst txs, tm_txids = map snd txs,
           tm_merkle_path = coinbase_path sha (map snd txs), tm_tokens = None, tm_origin = OwnSource, tm_jd = None,
           tm_p2pool = None, tm_declaration_id = None, tm_work = BlockWork\<rparr>))))))))))))))))))"

section \<open>From a provider, a custom job, a declaration or a token\<close>

record Provided =
  pv_previous_hash :: hash
  pv_version :: u32
  pv_bits :: u32
  pv_target :: hash
  pv_ntime :: u32
  pv_prefix :: bytes
  pv_value :: u64
  pv_transactions :: "bytes list"
  pv_merkle_path :: "hash list"
  pv_reserve :: u32

definition provided_height :: "bytes \<Rightarrow> (tm_error, u32) result" where
  "provided_height prefix =
     (case get_byte prefix 0 of
        None \<Rightarrow> Inl NotHeightPush
      | Some op \<Rightarrow>
          if 0x51 \<le> op \<and> op \<le> 0x60 then Inr (ucast (op - 0x50))
          else if 1 \<le> op \<and> op \<le> 4 then
            result_bind (ok_or TruncatedHeight (get_range prefix 1 (1 + unat op))) (\<lambda>bytes.
            Inr (from_le_bytes (bytes @ replicate (4 - length bytes) 0)))
          else Inl NotHeightPush)"

fun provided_transactions ::
  "(bytes \<Rightarrow> bytes) \<Rightarrow> (bytes \<Rightarrow> DecodedTx option) \<Rightarrow> hash option \<Rightarrow> bytes list \<Rightarrow> (tm_error, hash list) result" where
  "provided_transactions sha deserialize previous [] = Inr []"
| "provided_transactions sha deserialize previous (bytes # rest) =
     result_bind (checked_transaction sha deserialize bytes) (\<lambda>hash.
     if \<not> ordered_after previous (rev hash) then Inl NotInOrder
     else result_bind (provided_transactions sha deserialize (Some (rev hash)) rest) (\<lambda>more. Inr (hash # more)))"

definition txs_size :: "bytes list \<Rightarrow> u64" where
  "txs_size txs = (\<Sum>tx\<leftarrow>txs. word_of_nat (length tx))"

definition from_provided ::
  "(bytes \<Rightarrow> bytes) \<Rightarrow> (bytes \<Rightarrow> DecodedTx option) \<Rightarrow> Provided \<Rightarrow> (tm_error, BchTemplate) result" where
  "from_provided sha deserialize p =
     (if length (pv_prefix p) > 8 then Inl PrefixTooLong else
      result_bind (provided_height (pv_prefix p)) (\<lambda>height.
      let push = height_script height in
      if height = 0 \<or> height \<ge> push_bit 31 1 \<or> take (length push) (pv_prefix p) \<noteq> push then Inl HeightNotMinimal
      else if pv_value p > 21000000 * 100000000 then Inl ValueRange else
      result_bind (lift_compact (compact_target (pv_bits p))) (\<lambda>target.
      if \<not> meets_target (pv_target p) target then Inl EasierTarget
      else if length (pv_transactions p) > 65535 then Inl TooManyTransactions else
      result_bind (provided_transactions sha deserialize None (pv_transactions p)) (\<lambda>hashes.
      let merkle_path = coinbase_path sha hashes in
      if merkle_path \<noteq> pv_merkle_path p then Inl PathDisagrees else
      Inr \<lparr>tm_previous_hash = pv_previous_hash p, tm_version = pv_version p, tm_bits = pv_bits p, tm_target = target,
           tm_min_time = pv_ntime p, tm_current_time = pv_ntime p, tm_height = height,
           tm_size_limit = 80 + word_of_nat (length (tm_compact_size (length (pv_transactions p) + 1))) + txs_size (pv_transactions p)
             + COINBASE_FIXED + ucast (pv_reserve p),
           tm_coinbase_value = pv_value p, tm_parent_time = None, tm_coinbase_flags = drop (length push) (pv_prefix p),
           tm_transactions = pv_transactions p, tm_txids = hashes, tm_merkle_path = merkle_path, tm_tokens = None,
           tm_origin = OwnSource, tm_jd = None, tm_p2pool = None, tm_declaration_id = None, tm_work = BlockWork\<rparr>))))"

definition custom_template :: "BchTemplate \<Rightarrow> u32 \<Rightarrow> u32 \<Rightarrow> hash list \<Rightarrow> BchTemplate" where
  "custom_template ctx version min_ntime merkle_path =
     \<lparr>tm_previous_hash = tm_previous_hash ctx, tm_version = version, tm_bits = tm_bits ctx, tm_target = tm_target ctx,
      tm_min_time = min_ntime, tm_current_time = min_ntime, tm_height = tm_height ctx, tm_size_limit = tm_size_limit ctx,
      tm_coinbase_value = tm_coinbase_value ctx, tm_parent_time = tm_parent_time ctx, tm_coinbase_flags = [], tm_transactions = [],
      tm_txids = [], tm_merkle_path = merkle_path, tm_tokens = None, tm_origin = HeaderOnly, tm_jd = None, tm_p2pool = None,
      tm_declaration_id = None, tm_work = BlockWork\<rparr>"

definition declared_template :: "(bytes \<Rightarrow> bytes) \<Rightarrow> BchTemplate \<Rightarrow> u32 \<Rightarrow> bytes list \<Rightarrow> hash list \<Rightarrow> BchTemplate" where
  "declared_template sha ctx version transactions txids =
     \<lparr>tm_previous_hash = tm_previous_hash ctx, tm_version = version, tm_bits = tm_bits ctx, tm_target = tm_target ctx,
      tm_min_time = tm_min_time ctx, tm_current_time = tm_current_time ctx, tm_height = tm_height ctx, tm_size_limit = tm_size_limit ctx,
      tm_coinbase_value = tm_coinbase_value ctx, tm_parent_time = tm_parent_time ctx, tm_coinbase_flags = [],
      tm_transactions = transactions, tm_txids = txids, tm_merkle_path = coinbase_path sha txids, tm_tokens = None,
      tm_origin = DeclaredTemplate, tm_jd = None, tm_p2pool = None, tm_declaration_id = None, tm_work = BlockWork\<rparr>"

definition token_only :: "TokenJob \<Rightarrow> hash \<Rightarrow> u32 \<Rightarrow> u32 \<Rightarrow> hash \<Rightarrow> u32 \<Rightarrow> u32 \<Rightarrow> BchTemplate" where
  "token_only job previous_hash version bits target ntime_start height =
     \<lparr>tm_previous_hash = previous_hash, tm_version = version, tm_bits = bits, tm_target = target, tm_min_time = ntime_start,
      tm_current_time = ntime_start, tm_height = height, tm_size_limit = 1000000, tm_coinbase_value = 0, tm_parent_time = None,
      tm_coinbase_flags = [], tm_transactions = [], tm_txids = [], tm_merkle_path = [], tm_tokens = None, tm_origin = OwnSource,
      tm_jd = None, tm_p2pool = None, tm_declaration_id = None, tm_work = TokenWork job\<rparr>"

section \<open>What a template says\<close>

definition token_job :: "BchTemplate \<Rightarrow> TokenJob option" where
  "token_job t = (case tm_work t of BlockWork \<Rightarrow> None | TokenWork job \<Rightarrow> Some job)"

definition is_block :: "BchTemplate \<Rightarrow> bool" where
  "is_block t = (tm_work t = BlockWork)"

definition stale_from :: "BchTemplate \<Rightarrow> u32 option" where
  "stale_from t =
     (if tm_bits t = MIN_DIFFICULTY_BITS then None else Option.bind (tm_parent_time t) (\<lambda>parent. checked_add parent (MIN_DIFFICULTY_GAP + 1)))"

definition stale_bits :: "BchTemplate \<Rightarrow> u32 \<Rightarrow> bool" where
  "stale_bits t time = (case stale_from t of None \<Rightarrow> False | Some from \<Rightarrow> time \<ge> from)"

definition asert_bits :: "BchTemplate \<Rightarrow> u32 option" where
  "asert_bits t = Option.bind (checked_sub (tm_height t) 1) (\<lambda>h. Option.bind (tm_parent_time t) (next_bits CHIPNET h))"

definition wrong_bits :: "BchTemplate \<Rightarrow> u32 \<Rightarrow> bool" where
  "wrong_bits t time \<longleftrightarrow>
     stale_bits t time \<or>
     tm_bits t = MIN_DIFFICULTY_BITS \<and>
       (case tm_parent_time t of None \<Rightarrow> False | Some parent \<Rightarrow> (ucast time :: u64) \<le> ucast parent + ucast MIN_DIFFICULTY_GAP) \<and>
       (case asert_bits t of None \<Rightarrow> False | Some bits \<Rightarrow> bits \<noteq> MIN_DIFFICULTY_BITS)"

definition version_mask :: "BchTemplate \<Rightarrow> u32" where
  "version_mask t = (case tm_work t of BlockWork \<Rightarrow> VERSION_ROLLING_MASK | TokenWork job \<Rightarrow> tj_version_mask job)"

definition is_safa :: "BchTemplate \<Rightarrow> bool" where
  "is_safa t = (case token_job t of None \<Rightarrow> False | Some job \<Rightarrow> tj_layout job = Safa)"

definition with_header :: "u32 \<Rightarrow> u32 \<Rightarrow> BchTemplate \<Rightarrow> BchTemplate" where
  "with_header version min_ntime t = t\<lparr>tm_version := version, tm_min_time := min_ntime, tm_current_time := min_ntime\<rparr>"

definition declare_plan :: "JdPlan \<Rightarrow> BchTemplate \<Rightarrow> BchTemplate" where
  "declare_plan plan t = t\<lparr>tm_jd := Some plan\<rparr>"

definition script_head :: "BchTemplate \<Rightarrow> bytes" where
  "script_head t = height_script (tm_height t) @ tm_coinbase_flags t"

definition is_p2pool :: "BchTemplate \<Rightarrow> bool" where
  "is_p2pool t = (case tm_jd t of None \<Rightarrow> False | Some plan \<Rightarrow> jp_p2pool plan)"

text \<open>\<open>prepare\<close> is the P2Pool process's checked reply for these fields.\<close>

definition prepare_p2pool ::
  "(u32 \<Rightarrow> u32 \<Rightarrow> hash \<Rightarrow> u64 \<Rightarrow> bytes \<Rightarrow> (tm_error, Prepared) result) \<Rightarrow> BchTemplate \<Rightarrow> (tm_error, unit) result \<times> BchTemplate" where
  "prepare_p2pool prepare t =
     (let t = t\<lparr>tm_p2pool := None\<rparr>
      in if is_p2pool t then
           (case prepare (tm_height t) (tm_bits t) (tm_previous_hash t) (tm_coinbase_value t) (script_head t) of
              Inl e \<Rightarrow> (Inl e, t)
            | Inr prepared \<Rightarrow> (Inr (), t\<lparr>tm_p2pool := Some prepared\<rparr>))
         else (Inr (), t))"

definition p2pool_token :: "BchTemplate \<Rightarrow> bytes option" where
  "p2pool_token t = map_option prd_token (tm_p2pool t)"

definition set_declaration_id :: "u64 \<Rightarrow> BchTemplate \<Rightarrow> BchTemplate" where
  "set_declaration_id i t = t\<lparr>tm_declaration_id := Some i\<rparr>"

definition declaration_id :: "BchTemplate \<Rightarrow> u64 \<Rightarrow> u64" where
  "declaration_id t generation = (case tm_declaration_id t of Some i \<Rightarrow> i | None \<Rightarrow> generation)"

definition check_p2pool_prepared :: "BchTemplate \<Rightarrow> (tm_error, unit) result" where
  "check_p2pool_prepared t = (if is_p2pool t \<and> tm_p2pool t = None then Inl NotPrepared else Inr ())"

definition is_header_only :: "BchTemplate \<Rightarrow> bool" where
  "is_header_only t = (tm_origin t = HeaderOnly)"

definition is_declared :: "BchTemplate \<Rightarrow> bool" where
  "is_declared t = (tm_origin t = DeclaredTemplate)"


definition template_tag :: "bytes \<Rightarrow> BchTemplate \<Rightarrow> BchTemplate" where
  "template_tag tag t = t\<lparr>tm_coinbase_flags := tm_coinbase_flags t @ tag\<rparr>"

definition commit_tokens :: "TokenSet \<Rightarrow> BchTemplate \<Rightarrow> BchTemplate" where
  "commit_tokens ts t = t\<lparr>tm_tokens := Some ts\<rparr>"

datatype refused = P2poolCoinbase | CoinbaseOnly

definition tokens_refused :: "BchTemplate \<Rightarrow> refused option" where
  "tokens_refused t =
     (if tm_tokens t = None then None
      else if is_p2pool t then Some P2poolCoinbase
      else case tm_jd t of None \<Rightarrow> None | Some plan \<Rightarrow> if \<not> jp_full_template plan then Some CoinbaseOnly else None)"

definition transaction_count :: "BchTemplate \<Rightarrow> nat" where
  "transaction_count t = length (tm_transactions t) + 1"

definition height_push :: "BchTemplate \<Rightarrow> bytes" where
  "height_push t = height_script (tm_height t)"

definition coinbase_budget :: "BchTemplate \<Rightarrow> u64" where
  "coinbase_budget t =
     saturating_sub (tm_size_limit t)
       (80 + word_of_nat (length (tm_compact_size (transaction_count t))) + txs_size (tm_transactions t))"

definition check_block_size :: "BchTemplate \<Rightarrow> nat \<Rightarrow> (tm_error, unit) result" where
  "check_block_size t coinbase_size = (if word_of_nat coinbase_size > coinbase_budget t then Inl OverBudget else Inr ())"

section \<open>Coinbases\<close>

text \<open>The address code: validation, the locking scripts of valid addresses, and the donation's address.\<close>

record Addresses =
  ad_coinbase :: "MiningNetwork \<Rightarrow> string \<Rightarrow> string option"
  ad_payout :: "MiningNetwork \<Rightarrow> string \<Rightarrow> string option"
  ad_coinbase_locking :: "string \<Rightarrow> bytes option"
  ad_p2pkh_locking :: "string \<Rightarrow> bytes option"
  ad_donation :: "MiningNetwork \<Rightarrow> string"

definition payout_scripts :: "Addresses \<Rightarrow> MiningNetwork \<Rightarrow> string \<Rightarrow> string option \<Rightarrow> (tm_error, bytes list) result" where
  "payout_scripts ad network miner operator =
     result_bind (ok_or BadAddress (ad_coinbase ad network miner)) (\<lambda>miner.
     result_bind (ok_or BadAddress (ad_payout ad network (ad_donation ad network))) (\<lambda>donation.
     result_bind (ok_or BadAddress (ad_coinbase_locking ad miner)) (\<lambda>miner_script.
     result_bind (ok_or BadAddress (ad_p2pkh_locking ad donation)) (\<lambda>donation_script.
     case operator of
       None \<Rightarrow> Inr [miner_script, donation_script]
     | Some operator \<Rightarrow>
         result_bind (ok_or BadAddress (ad_coinbase ad network operator)) (\<lambda>operator.
         result_bind (ok_or BadAddress (ad_coinbase_locking ad operator)) (\<lambda>operator_script.
         Inr [miner_script, donation_script, operator_script]))))))"

definition shape_extranonce_len :: "CoinbaseShape \<Rightarrow> nat" where
  "shape_extranonce_len shape = cs_script_len shape - length (cs_head shape)"

definition shape_coinbase :: "CoinbaseShape \<Rightarrow> bytes \<Rightarrow> bytes option" where
  "shape_coinbase shape extranonce =
     (if length extranonce \<noteq> shape_extranonce_len shape then None else Some (cs_prefix shape @ extranonce @ cs_suffix shape))"

definition coinbase_with_outputs ::
  "(bytes \<Rightarrow> bytes) \<Rightarrow> BchTemplate \<Rightarrow> bytes \<Rightarrow> (u64 \<times> bytes) list \<Rightarrow> bytes option \<Rightarrow> (tm_error, Coinbase) result" where
  "coinbase_with_outputs sha t extranonce outs commitment =
     (if length extranonce > 64 then Inl ExtranonceTooLong else
      let script = height_script (tm_height t) @ tm_coinbase_flags t @ extranonce;
          script = script @ replicate (15 - length script) 0
      in if length script > 100 then Inl ScriptOver100 else
      let head = to_le_bytes (2 :: u32) @ [1] @ replicate 32 0 @ to_le_bytes (0xffffffff :: u32) @ tm_compact_size (length script) @ script
            @ to_le_bytes (0xffffffff :: u32);
          count = length outs + (if commitment \<noteq> None then 1 else 0)
      in if commitment \<noteq> None \<and> count \<ge> 0xfd then Inl OutputsOver252 else
      let bytes = head @ tm_compact_size count @ (case commitment of Some c \<Rightarrow> c | None \<Rightarrow> []) @
            concat (map (\<lambda>(amount, script). to_le_bytes amount @ tm_compact_size (length script) @ script) outs) @ to_le_bytes (0 :: u32)
      in result_bind (check_block_size t (length bytes)) (\<lambda>_.
         Inr \<lparr>cb_bytes = bytes, cb_merkle_root = tm_fold sha (double_sha256 sha bytes) (tm_merkle_path t)\<rparr>))"

definition forwarder_coinbase :: "(bytes \<Rightarrow> bytes) \<Rightarrow> bytes \<Rightarrow> bytes \<Rightarrow> (tm_error, Coinbase) result" where
  "forwarder_coinbase sha extranonce destination =
     (let pushed = length PXH1 + length extranonce
      in if pushed > 75 then Inl ForwarderSalt else
      result_bind (case forwarder_body destination of Inl e \<Rightarrow> Inl (ForwarderRefused e) | Inr body \<Rightarrow> Inr body) (\<lambda>body.
      let bytes = [word_of_nat pushed] @ PXH1 @ extranonce @ [0x75] @ body
      in if length bytes > MAX_P2S then Inl (ForwarderRefused ForwarderTooLong)
         else Inr \<lparr>cb_bytes = bytes, cb_merkle_root = double_sha256 sha bytes\<rparr>))"

definition coinbase_with_aux ::
  "(bytes \<Rightarrow> bytes) \<Rightarrow> Addresses \<Rightarrow> BchTemplate \<Rightarrow> MiningNetwork \<Rightarrow> string \<Rightarrow> string option \<Rightarrow> bytes \<Rightarrow> BchPayout \<Rightarrow> bytes option
   \<Rightarrow> (tm_error, Coinbase) result" where
  "coinbase_with_aux sha ad t network payout operator extranonce policy aux =
     result_bind (check_p2pool_prepared t) (\<lambda>_.
     case tm_p2pool t of
       Some prepared \<Rightarrow>
         if aux \<noteq> None then Inl P2poolTokens else
         result_bind (ok_or P2poolExtranonce (shape_coinbase (prd_coinbase prepared) extranonce)) (\<lambda>bytes.
         result_bind (check_block_size t (length bytes)) (\<lambda>_.
         Inr \<lparr>cb_bytes = bytes, cb_merkle_root = tm_fold sha (double_sha256 sha bytes) (tm_merkle_path t)\<rparr>))
     | None \<Rightarrow>
         if is_safa t then
           result_bind (payout_scripts ad network payout operator) (\<lambda>scripts. forwarder_coinbase sha extranonce (beneficiary scripts policy))
         else
           result_bind
             (case tm_jd t of
                Some plan \<Rightarrow> ok_or PlanPanics (plan_outputs plan (tm_coinbase_value t))
              | None \<Rightarrow> result_bind (payout_scripts ad network payout operator) (\<lambda>scripts. Inr (outputs (tm_coinbase_value t) scripts policy)))
             (\<lambda>outs. coinbase_with_outputs sha t extranonce outs aux))"

definition split_coinbase :: "BchTemplate \<Rightarrow> Coinbase \<Rightarrow> nat \<Rightarrow> CoinbaseParts" where
  "split_coinbase t coinbase extranonce_len =
     (let offset = (if is_safa t then 1 + length PXH1
                    else 4 + 1 + 32 + 4 + 1 + length (height_script (tm_height t)) + length (tm_coinbase_flags t))
      in \<lparr>pa_prefix = take offset (cb_bytes coinbase), pa_suffix = drop (offset + extranonce_len) (cb_bytes coinbase),
          pa_merkle_path = tm_merkle_path t\<rparr>)"

definition coinbase_parts_with_aux ::
  "(bytes \<Rightarrow> bytes) \<Rightarrow> Addresses \<Rightarrow> BchTemplate \<Rightarrow> MiningNetwork \<Rightarrow> string \<Rightarrow> string option \<Rightarrow> nat \<Rightarrow> BchPayout \<Rightarrow> bytes option
   \<Rightarrow> (tm_error, CoinbaseParts) result" where
  "coinbase_parts_with_aux sha ad t network payout operator extranonce_len policy aux =
     (if extranonce_len > 64 then Inl ExtranonceTooLong else
      result_bind (coinbase_with_aux sha ad t network payout operator (replicate extranonce_len 0) policy aux) (\<lambda>coinbase.
      Inr (split_coinbase t coinbase extranonce_len)))"

text \<open>\<open>BchPayout::default()\<close>, with the donation's default of one and a half percent.\<close>

definition default_payout :: BchPayout where
  "default_payout = \<lparr>bp_donation = DEFAULT_DONATION, bp_donation_work = False, bp_fee = None, bp_fee_work = False,
     bp_token_donation_work = None, bp_token_fee_work = None\<rparr>"

definition coinbase_with_payout ::
  "(bytes \<Rightarrow> bytes) \<Rightarrow> Addresses \<Rightarrow> BchTemplate \<Rightarrow> MiningNetwork \<Rightarrow> string \<Rightarrow> string option \<Rightarrow> bytes \<Rightarrow> BchPayout \<Rightarrow> (tm_error, Coinbase) result" where
  "coinbase_with_payout sha ad t network payout operator extranonce policy = coinbase_with_aux sha ad t network payout operator extranonce policy None"

definition template_coinbase :: "(bytes \<Rightarrow> bytes) \<Rightarrow> Addresses \<Rightarrow> BchTemplate \<Rightarrow> MiningNetwork \<Rightarrow> string \<Rightarrow> bytes \<Rightarrow> (tm_error, Coinbase) result" where
  "template_coinbase sha ad t network payout extranonce = coinbase_with_payout sha ad t network payout None extranonce default_payout"

definition coinbase_parts_with_payout ::
  "(bytes \<Rightarrow> bytes) \<Rightarrow> Addresses \<Rightarrow> BchTemplate \<Rightarrow> MiningNetwork \<Rightarrow> string \<Rightarrow> string option \<Rightarrow> nat \<Rightarrow> BchPayout \<Rightarrow> (tm_error, CoinbaseParts) result" where
  "coinbase_parts_with_payout sha ad t network payout operator extranonce_len policy =
     coinbase_parts_with_aux sha ad t network payout operator extranonce_len policy None"

definition coinbase_parts :: "(bytes \<Rightarrow> bytes) \<Rightarrow> Addresses \<Rightarrow> BchTemplate \<Rightarrow> MiningNetwork \<Rightarrow> string \<Rightarrow> nat \<Rightarrow> (tm_error, CoinbaseParts) result" where
  "coinbase_parts sha ad t network payout extranonce_len = coinbase_parts_with_payout sha ad t network payout None extranonce_len default_payout"

section \<open>Merge mining of a template\<close>

definition plan_slot :: "(bytes \<Rightarrow> bytes) \<Rightarrow> JdPlan \<Rightarrow> u16 \<Rightarrow> u8 option \<Rightarrow> (tm_error, Slot) result" where
  "plan_slot sha plan rate index =
     (case plan_script plan index of
        Some script \<Rightarrow> (case slot_new sha rate script of Inl e \<Rightarrow> Inl (SplitRefused e) | Inr s \<Rightarrow> Inr s)
      | None \<Rightarrow> Inr EMPTY_SLOT)"

definition declared_aux :: "(bytes \<Rightarrow> bytes) \<Rightarrow> BchTemplate \<Rightarrow> (tm_error, AuxJob option) result" where
  "declared_aux sha t =
     (case (tm_jd t, tm_tokens t) of
        (Some plan, Some ts) \<Rightarrow>
          if is_p2pool t \<or> \<not> jp_full_template plan then Inr None else
          result_bind (ok_or NoPlanOutputs (plan_token_payout plan)) (\<lambda>miner.
          result_bind (plan_slot sha plan (pr_donation_bps (jp_rates plan)) (pr_donation_output (jp_rates plan))) (\<lambda>donation.
          result_bind (plan_slot sha plan (pr_fee_bps (jp_rates plan)) (pr_fee_output (jp_rates plan))) (\<lambda>fee.
          Inr (Some (job_build sha ts \<lparr>lt_payout = miner, lt_split = \<lparr>sp_donation = donation, sp_fee = fee\<rparr>, lt_plain_payout = miner\<rparr>)))))
      | _ \<Rightarrow> Inr None)"

definition declared_outputs :: "(bytes \<Rightarrow> bytes) \<Rightarrow> BchTemplate \<Rightarrow> (tm_error, (u64 \<times> bytes) list) result" where
  "declared_outputs sha t =
     result_bind (check_p2pool_prepared t) (\<lambda>_.
     case tm_p2pool t of
       Some prepared \<Rightarrow> Inr (cs_outputs (prd_coinbase prepared))
     | None \<Rightarrow>
         result_bind (ok_or NoPlan (tm_jd t)) (\<lambda>plan.
         result_bind (ok_or PlanPanics (plan_outputs plan (tm_coinbase_value t))) (\<lambda>outs.
         result_bind (declared_aux sha t) (\<lambda>aux.
         Inr (case aux of Some aux \<Rightarrow> (0, drop 9 (aj_output aux)) # outs | None \<Rightarrow> outs)))))"

definition declared_parts :: "(bytes \<Rightarrow> bytes) \<Rightarrow> BchTemplate \<Rightarrow> (tm_error, CoinbaseParts) result" where
  "declared_parts sha t =
     result_bind (check_p2pool_prepared t) (\<lambda>_.
     case tm_p2pool t of
       Some prepared \<Rightarrow>
         Inr \<lparr>pa_prefix = cs_prefix (prd_coinbase prepared), pa_suffix = cs_suffix (prd_coinbase prepared), pa_merkle_path = tm_merkle_path t\<rparr>
     | None \<Rightarrow>
         result_bind (ok_or NoPlan (tm_jd t)) (\<lambda>plan.
         let extranonce = length (jp_upstream_prefix plan) + plan_rollable plan in
         result_bind (declared_aux sha t) (\<lambda>aux.
         result_bind (ok_or PlanPanics (plan_outputs plan (tm_coinbase_value t))) (\<lambda>outs.
         result_bind (coinbase_with_outputs sha t (replicate extranonce 0) outs (map_option aj_output aux)) (\<lambda>coinbase.
         Inr (split_coinbase t coinbase extranonce))))))"

definition aux_job ::
  "(bytes \<Rightarrow> bytes) \<Rightarrow> Addresses \<Rightarrow> BchTemplate \<Rightarrow> MiningNetwork \<Rightarrow> string \<Rightarrow> string option \<Rightarrow> BchPayout \<Rightarrow> (tm_error, AuxJob option) result" where
  "aux_job sha ad t network payout operator policy =
     (if tm_jd t \<noteq> None then declared_aux sha t
      else case tm_tokens t of
             None \<Rightarrow> Inr None
           | Some ts \<Rightarrow>
               result_bind (payout_scripts ad network payout operator) (\<lambda>scripts.
               result_bind (case leaf_terms sha scripts policy of Inl e \<Rightarrow> Inl (SplitRefused e) | Inr terms \<Rightarrow> Inr terms) (\<lambda>terms.
               Inr (Some (job_build sha ts terms)))))"

section \<open>Headers and blocks\<close>

definition template_header :: "BchTemplate \<Rightarrow> Coinbase \<Rightarrow> u32 \<Rightarrow> u32 \<Rightarrow> u32 \<Rightarrow> (tm_error, bytes) result" where
  "template_header t coinbase version time nonce =
     (if time < tm_min_time t then Inl HeaderTime
      else Inr (to_le_bytes version @ tm_previous_hash t @ cb_merkle_root coinbase @ to_le_bytes time @ to_le_bytes (tm_bits t) @ to_le_bytes nonce))"

definition template_assemble :: "BchTemplate \<Rightarrow> bytes \<Rightarrow> bytes \<Rightarrow> bytes" where
  "template_assemble t coinbase header =
     header @ tm_compact_size (length (tm_transactions t) + 1) @ coinbase @ concat (tm_transactions t)"

definition template_block :: "(bytes \<Rightarrow> bytes) \<Rightarrow> BchTemplate \<Rightarrow> Coinbase \<Rightarrow> bytes \<Rightarrow> (tm_error, bytes) result" where
  "template_block sha t coinbase header =
     (if tm_origin t = HeaderOnly then Inl NoBlockTransactions
      else if \<not> is_block t then Inl TokenIsNoBlock
      else result_bind (check_block_size t (length (cb_bytes coinbase))) (\<lambda>_.
           if subrange header 4 36 \<noteq> tm_previous_hash t \<or>
              subrange header 36 68 \<noteq> tm_fold sha (double_sha256 sha (cb_bytes coinbase)) (tm_merkle_path t) \<or>
              subrange header 72 76 \<noteq> to_le_bytes (tm_bits t)
           then Inl OtherTemplate
           else Inr (template_assemble t (cb_bytes coinbase) header)))"

section \<open>The coinbase branch\<close>

lemma tm_fold_simps [simp]:
  "tm_fold sha leaf [] = leaf" "tm_fold sha leaf (s # path) = tm_fold sha (double_sha256 sha (leaf @ s)) path"
  by (simp_all add: tm_fold_def)

lemma tm_fold_merkle_fold: "tm_fold sha leaf path = merkle_fold sha leaf path"
  by (induction path arbitrary: leaf) simp_all

lemma even_level_Cons: "hs \<noteq> [] \<Longrightarrow> even_level (x # hs) = x # (if even (length hs) then hs @ [last hs] else hs)"
  by (auto simp: even_level_def even_iff_mod_2_eq_zero mod_Suc split: if_splits)

lemma level_step:
  assumes "hs \<noteq> []"
  obtains s rest where "\<And>x. even_level (x # hs) = x # s # rest"
proof -
  obtain s rest where "(if even (length hs) then hs @ [last hs] else hs) = s # rest"
    using assms by (cases "if even (length hs) then hs @ [last hs] else hs") (auto split: if_splits)
  with even_level_Cons [OF assms] that show thesis by simp
qed

lemma branch_is_root: "merkle_root sha (x # hs) = tm_fold sha x (coinbase_levels sha (y # hs))"
proof (induction "length hs" arbitrary: x y hs rule: less_induct)
  case less
  show ?case
  proof (cases "hs = []")
    case True
    then show ?thesis by (simp add: merkle_root.simps coinbase_levels.simps)
  next
    case False
    obtain s rest where e: "even_level (x # hs) = x # s # rest" for x using level_step [OF False] by metis
    have "length (x # s # rest) = 2 * ((length hs + 2) div 2)" using length_even_level [of "x # hs"] unfolding e by simp
    then have "length (hash_pairs sha rest) < length hs" using False by (simp add: length_hash_pairs)
    from less [OF this, of "double_sha256 sha (x @ s)" "double_sha256 sha (y @ s)"]
    show ?thesis using False by (simp add: merkle_root.simps [of sha "x # hs"] coinbase_levels.simps [of sha "y # hs"] e)
  qed
qed

lemma length_double_sha: "hash32 sha \<Longrightarrow> length (double_sha256 sha m) = 32"
  by (simp add: double_sha256_def hash32.length_sha)

lemma hash_pairs_lengths: "hash32 sha \<Longrightarrow> list_all (\<lambda>h. length h = 32) (hash_pairs sha hs)"
  by (induction sha hs rule: hash_pairs.induct) (simp_all add: length_double_sha)

lemma even_level_lengths: "list_all (\<lambda>h. length h = n) hs \<Longrightarrow> hs \<noteq> [] \<Longrightarrow> list_all (\<lambda>h. length h = n) (even_level hs)"
  by (auto simp: even_level_def list_all_iff)

lemma coinbase_levels_lengths:
  assumes "hash32 sha"
  shows "list_all (\<lambda>h. length h = 32) hs \<Longrightarrow> list_all (\<lambda>h. length h = 32) (coinbase_levels sha hs)"
proof (induction "length hs" arbitrary: hs rule: less_induct)
  case less
  show ?case
  proof (cases "1 < length hs")
    case True
    have "length (hash_pairs sha (even_level hs)) < length hs" using True by (simp add: length_hash_pairs length_even_level)
    from less.hyps [OF this hash_pairs_lengths [OF assms]]
    have "list_all (\<lambda>h. length h = 32) (coinbase_levels sha (hash_pairs sha (even_level hs)))" .
    moreover have "1 < length (even_level hs)" using True by (simp add: length_even_level)
    then have "length (even_level hs ! 1) = 32"
      using even_level_lengths [OF less.prems] True by (cases hs) (simp_all add: list_all_length)
    ultimately show ?thesis using True by (simp add: coinbase_levels.simps [of sha hs])
  next
    case False
    then show ?thesis by (simp add: coinbase_levels.simps)
  qed
qed

lemma coinbase_levels_depth: "length hs \<le> 2 ^ d \<Longrightarrow> length (coinbase_levels sha hs) \<le> d"
proof (induction d arbitrary: hs)
  case 0
  then show ?case by (simp add: coinbase_levels.simps)
next
  case (Suc d)
  have "length (hash_pairs sha (even_level hs)) \<le> 2 ^ d" using Suc.prems by (simp add: length_hash_pairs length_even_level)
  from Suc.IH [OF this] show ?case by (simp add: coinbase_levels.simps [of sha hs])
qed

section \<open>The difficulty rule\<close>

text \<open>What Chipnet requires of a block at a time: the limit more than twenty minutes after the parent, ASERT's bits before.\<close>

definition required_bits :: "u32 \<Rightarrow> u32 \<Rightarrow> u32 \<Rightarrow> u32" where
  "required_bits parent asert time = (if unat time > unat parent + 1200 then MIN_DIFFICULTY_BITS else asert)"

lemma stale_bits_iff:
  assumes "tm_parent_time t = Some parent"
  shows "stale_bits t time \<longleftrightarrow> tm_bits t \<noteq> MIN_DIFFICULTY_BITS \<and> unat time > unat parent + 1200"
proof (cases "checked_add parent (MIN_DIFFICULTY_GAP + 1)")
  case None
  then have "2 ^ 32 \<le> unat parent + 1201" by (simp add: checked_add_def MIN_DIFFICULTY_GAP_def split: if_splits)
  moreover have "unat time < 2 ^ 32" using unsigned_less [of time, where ?'a = nat] by simp
  ultimately show ?thesis using None assms by (simp add: stale_bits_def stale_from_def)
next
  case (Some later)
  from unat_checked_add [OF this] have "unat later = unat parent + 1201" by (simp add: MIN_DIFFICULTY_GAP_def)
  then show ?thesis using Some assms by (auto simp: stale_bits_def stale_from_def word_le_nat_alt)
qed

lemma gap_le: "(ucast (time :: u32) :: u64) \<le> ucast (parent :: u32) + ucast MIN_DIFFICULTY_GAP \<longleftrightarrow> unat time \<le> unat parent + 1200"
proof -
  have "unat parent < 2 ^ 32" using unsigned_less [of parent, where ?'a = nat] by simp
  then have "unat ((ucast parent :: u64) + ucast MIN_DIFFICULTY_GAP) = unat parent + 1200"
    by (simp add: unat_word_ariths unat_ucast_up MIN_DIFFICULTY_GAP_def)
  then show ?thesis by (simp add: word_le_nat_alt unat_ucast_up)
qed

lemma wrong_bits_iff:
  assumes "tm_parent_time t = Some parent" and "asert_bits t = Some a" and "tm_bits t = a \<or> tm_bits t = MIN_DIFFICULTY_BITS"
  shows "wrong_bits t time \<longleftrightarrow> tm_bits t \<noteq> required_bits parent a time"
  using assms unfolding wrong_bits_def stale_bits_iff [OF assms(1)] gap_le by (auto simp: required_bits_def gap_le)

section \<open>The bytes of a coinbase\<close>

definition output_bytes :: "u64 \<times> bytes \<Rightarrow> bytes" where
  "output_bytes out = to_le_bytes (fst out) @ tm_compact_size (length (snd out)) @ snd out"

definition front_bytes :: "BchTemplate \<Rightarrow> nat \<Rightarrow> bytes" where
  "front_bytes t n =
     to_le_bytes (2 :: u32) @ [1] @ replicate 32 0 @ replicate 4 0xff @ [word_of_nat (max 15 (length (script_head t) + n))] @ script_head t"

definition count_of :: "(u64 \<times> bytes) list \<Rightarrow> bytes option \<Rightarrow> nat" where
  "count_of outs commitment = length outs + (if commitment \<noteq> None then 1 else 0)"

definition tail_bytes :: "(u64 \<times> bytes) list \<Rightarrow> bytes" where
  "tail_bytes outs = concat (map output_bytes outs) @ replicate 4 0"

definition back_bytes :: "BchTemplate \<Rightarrow> nat \<Rightarrow> (u64 \<times> bytes) list \<Rightarrow> bytes option \<Rightarrow> bytes" where
  "back_bytes t n outs commitment =
     replicate (15 - (length (script_head t) + n)) 0 @ replicate 4 0xff @ tm_compact_size (count_of outs commitment) @
     (case commitment of Some c \<Rightarrow> c | None \<Rightarrow> []) @ tail_bytes outs"

lemma ones_bytes: "to_le_bytes (0xffffffff :: u32) = replicate 4 (0xff :: u8)"
proof -
  have r: "replicate 4 (0xff :: u8) = [0xff, 0xff, 0xff, 0xff]" by (simp add: eval_nat_numeral)
  have "from_le_bytes (replicate 4 (0xff :: u8)) = (0xffffffff :: u32)" unfolding r from_le_bytes_def by simp
  then show ?thesis using to_from_le_bytes [of "replicate 4 (0xff :: u8)", where ?'a = 32] by simp
qed

lemma zero_bytes: "to_le_bytes (0 :: u32) = replicate 4 (0 :: u8)"
proof -
  have "from_le_bytes (replicate 4 (0 :: u8)) = (0 :: u32)" by (simp add: from_le_bytes_def le_nat_replicate_0)
  then show ?thesis using to_from_le_bytes [of "replicate 4 (0 :: u8)", where ?'a = 32] by simp
qed

lemma tm_compact_small: "n \<le> 252 \<Longrightarrow> tm_compact_size n = [word_of_nat n]"
  by (simp add: tm_compact_size_def)

definition fits_template :: "BchTemplate \<Rightarrow> nat \<Rightarrow> (u64 \<times> bytes) list \<Rightarrow> bytes option \<Rightarrow> (tm_error, unit) result" where
  "fits_template t n outs commitment =
     (if n > 64 then Inl ExtranonceTooLong
      else if length (script_head t) + n > 100 then Inl ScriptOver100
      else if commitment \<noteq> None \<and> count_of outs commitment \<ge> 0xfd then Inl OutputsOver252
      else check_block_size t (length (front_bytes t n) + n + length (back_bytes t n outs commitment)))"

lemma coinbase_with_outputs_eq:
  "coinbase_with_outputs sha t en outs commitment =
     result_bind (fits_template t (length en) outs commitment) (\<lambda>_.
     let bytes = front_bytes t (length en) @ en @ back_bytes t (length en) outs commitment
     in Inr \<lparr>cb_bytes = bytes, cb_merkle_root = tm_fold sha (double_sha256 sha bytes) (tm_merkle_path t)\<rparr>)"
proof -
  let ?n = "length (script_head t) + length en"
  let ?script = "height_script (tm_height t) @ tm_coinbase_flags t @ en"
  have l: "length ?script = ?n" by (simp add: script_head_def)
  show ?thesis
  proof (cases "length en > 64 \<or> ?n > 100")
    case True
    then show ?thesis
      by (auto simp: coinbase_with_outputs_def fits_template_def Let_def script_head_def)
  next
    case False
    then have c: "tm_compact_size (max 15 ?n) = [word_of_nat (max 15 ?n)]" by (intro tm_compact_small) simp
    have m: "length (?script @ replicate (15 - length ?script) 0) = max 15 ?n" unfolding script_head_def by (simp add: max_def)
    have bytes: "(to_le_bytes (2 :: u32) @ [1] @ replicate 32 0 @ to_le_bytes (0xffffffff :: u32) @
          tm_compact_size (length (?script @ replicate (15 - length ?script) 0)) @ (?script @ replicate (15 - length ?script) 0) @
          to_le_bytes (0xffffffff :: u32)) @ tm_compact_size (count_of outs commitment) @ (case commitment of Some c \<Rightarrow> c | None \<Rightarrow> []) @
        concat (map (\<lambda>(amount, script). to_le_bytes amount @ tm_compact_size (length script) @ script) outs) @ to_le_bytes (0 :: u32)
      = front_bytes t (length en) @ en @ back_bytes t (length en) outs commitment"
      unfolding m c front_bytes_def back_bytes_def tail_bytes_def ones_bytes zero_bytes
      by (simp add: script_head_def case_prod_unfold output_bytes_def [abs_def])
    from False have s: "\<not> 64 < length en" "\<not> 100 < length (?script @ replicate (15 - length ?script) 0)" unfolding m by (simp_all add: max_def)
    show ?thesis
      unfolding coinbase_with_outputs_def Let_def count_of_def [symmetric] bytes if_not_P [OF s(1)] if_not_P [OF s(2)]
      using False by (simp add: fits_template_def add.assoc)
  qed
qed

lemma length_front_bytes: "length (front_bytes t n) = 42 + length (script_head t)"
  by (simp add: front_bytes_def)

lemma split_coinbase_parts:
  assumes "\<not> is_safa t" and "cb_bytes cb = front @ en @ rest" and "length front = 42 + length (script_head t)" and "length en = n"
  shows "split_coinbase t cb n = \<lparr>pa_prefix = front, pa_suffix = rest, pa_merkle_path = tm_merkle_path t\<rparr>"
  using assms by (simp add: split_coinbase_def script_head_def)

section \<open>The parts of a coinbase\<close>

definition prepared_for :: "BchTemplate \<Rightarrow> bool" where
  "prepared_for t =
     (case tm_p2pool t of None \<Rightarrow> True | Some p \<Rightarrow> \<not> is_safa t \<and> length (cs_prefix (prd_coinbase p)) = 42 + length (script_head t))"

lemma outputs_parts:
  assumes "\<not> is_safa t" and "length en = n"
    and "result_bind (coinbase_with_outputs sha t (replicate n 0) outs aux) (\<lambda>cb. Inr (split_coinbase t cb n)) = Inr parts"
  shows "coinbase_with_outputs sha t en outs aux =
    Inr \<lparr>cb_bytes = pa_prefix parts @ en @ pa_suffix parts,
         cb_merkle_root = tm_fold sha (double_sha256 sha (pa_prefix parts @ en @ pa_suffix parts)) (pa_merkle_path parts)\<rparr>"
proof -
  have f: "fits_template t n outs aux = Inr ()"
    using assms(3) by (cases "fits_template t n outs aux") (simp_all add: coinbase_with_outputs_eq)
  have "split_coinbase t cb n = \<lparr>pa_prefix = front_bytes t n, pa_suffix = back_bytes t n outs aux, pa_merkle_path = tm_merkle_path t\<rparr>"
    if "cb_bytes cb = front_bytes t n @ replicate n 0 @ back_bytes t n outs aux" for cb
    by (rule split_coinbase_parts [OF assms(1) that length_front_bytes]) simp
  then have "parts = \<lparr>pa_prefix = front_bytes t n, pa_suffix = back_bytes t n outs aux, pa_merkle_path = tm_merkle_path t\<rparr>"
    using assms(3) f by (simp add: coinbase_with_outputs_eq Let_def)
  then show ?thesis using f assms(2) by (simp add: coinbase_with_outputs_eq Let_def)
qed

lemma forwarder_parts:
  assumes "is_safa t" and "length en = n"
    and "result_bind (forwarder_coinbase sha (replicate n 0) destination) (\<lambda>cb. Inr (split_coinbase t cb n)) = Inr parts"
  shows "forwarder_coinbase sha en destination =
    Inr \<lparr>cb_bytes = pa_prefix parts @ en @ pa_suffix parts, cb_merkle_root = double_sha256 sha (pa_prefix parts @ en @ pa_suffix parts)\<rparr>"
proof -
  have l: "length PXH1 = 4" by (simp add: PXH1_def)
  from assms(3) obtain body where b: "\<not> 4 + n > 75" "forwarder_body destination = Inr body" "\<not> Suc (5 + n + length body) > MAX_P2S"
    "parts = split_coinbase t \<lparr>cb_bytes = [word_of_nat (4 + n)] @ PXH1 @ replicate n 0 @ [0x75] @ body,
       cb_merkle_root = double_sha256 sha ([word_of_nat (4 + n)] @ PXH1 @ replicate n 0 @ [0x75] @ body)\<rparr> n"
    by (auto simp: forwarder_coinbase_def Let_def l result_bind_Inr_iff split: sum.splits if_splits)
  have p: "pa_prefix parts = [word_of_nat (4 + n)] @ PXH1" "pa_suffix parts = [0x75] @ body"
    using assms(1) unfolding b(4) by (simp_all add: split_coinbase_def PXH1_def)
  show ?thesis unfolding p using b(1-3) assms(2) by (simp add: forwarder_coinbase_def Let_def l)
qed

lemma coinbase_parts_rebuild:
  assumes parts: "coinbase_parts_with_aux sha ad t network payout operator n policy aux = Inr parts"
    and en: "length en = n" and ready: "prepared_for t"
  shows "coinbase_with_aux sha ad t network payout operator en policy aux =
    Inr \<lparr>cb_bytes = pa_prefix parts @ en @ pa_suffix parts,
         cb_merkle_root = tm_fold sha (double_sha256 sha (pa_prefix parts @ en @ pa_suffix parts)) (if is_safa t then [] else pa_merkle_path parts)\<rparr>"
proof -
  have c: "check_p2pool_prepared t = Inr ()"
    and p: "result_bind (coinbase_with_aux sha ad t network payout operator (replicate n 0) policy aux) (\<lambda>cb. Inr (split_coinbase t cb n)) = Inr parts"
    using parts by (auto simp: coinbase_parts_with_aux_def coinbase_with_aux_def result_bind_Inr_iff split: if_splits)
  show ?thesis
  proof (cases "tm_p2pool t")
    case (Some prepared)
    let ?s = "prd_coinbase prepared"
    have s: "\<not> is_safa t" "length (cs_prefix ?s) = 42 + length (script_head t)" using ready by (simp_all add: prepared_for_def Some)
    have aux: "aux = None" "shape_extranonce_len ?s = n" "check_block_size t (length (cs_prefix ?s) + (n + length (cs_suffix ?s))) = Inr ()"
      using p c Some by (auto simp: coinbase_with_aux_def shape_coinbase_def result_bind_Inr_iff ok_or_Inr_iff split: if_splits)
    have "split_coinbase t \<lparr>cb_bytes = cs_prefix ?s @ replicate n 0 @ cs_suffix ?s, cb_merkle_root = r\<rparr> n =
        \<lparr>pa_prefix = cs_prefix ?s, pa_suffix = cs_suffix ?s, pa_merkle_path = tm_merkle_path t\<rparr>" for r
      by (rule split_coinbase_parts [OF s(1) _ s(2), where en = "replicate n (0 :: u8)"]) simp_all
    then have "parts = \<lparr>pa_prefix = cs_prefix ?s, pa_suffix = cs_suffix ?s, pa_merkle_path = tm_merkle_path t\<rparr>"
      using p c Some aux by (simp add: coinbase_with_aux_def shape_coinbase_def ok_or_def)
    then show ?thesis using c Some aux en s(1) by (simp add: coinbase_with_aux_def shape_coinbase_def ok_or_def)
  next
    case None
    show ?thesis
    proof (cases "is_safa t")
      case True
      then obtain scripts where s: "payout_scripts ad network payout operator = Inr scripts"
        using p c None by (cases "payout_scripts ad network payout operator") (simp_all add: coinbase_with_aux_def)
      then show ?thesis using forwarder_parts [OF True en] p c None True by (simp add: coinbase_with_aux_def)
    next
      case False
      define outs where "outs = (case tm_jd t of
          Some plan \<Rightarrow> ok_or PlanPanics (plan_outputs plan (tm_coinbase_value t))
        | None \<Rightarrow> result_bind (payout_scripts ad network payout operator) (\<lambda>scripts. Inr (outputs (tm_coinbase_value t) scripts policy)))"
      have w: "coinbase_with_aux sha ad t network payout operator x policy aux = result_bind outs (\<lambda>outs. coinbase_with_outputs sha t x outs aux)" for x
        unfolding outs_def using c None False by (simp add: coinbase_with_aux_def)
      then obtain os where os: "outs = Inr os" using p by (cases outs) simp_all
      show ?thesis using outputs_parts [OF False en] p False unfolding w os by simp
    qed
  qed
qed

section \<open>Output 0 of a coinbase\<close>

definition coinbase_head :: "BchTemplate \<Rightarrow> bytes \<Rightarrow> nat \<Rightarrow> bytes" where
  "coinbase_head t en cnt =
     front_bytes t (length en) @ en @ replicate (15 - (length (script_head t) + length en)) 0 @ replicate 4 0xff @ [word_of_nat cnt]"

lemma length_coinbase_head: "length (coinbase_head t en cnt) = 47 + max 15 (length (script_head t) + length en)"
  by (simp add: coinbase_head_def length_front_bytes max_def)

lemma coinbase_head_41: "coinbase_head t en cnt ! 41 = word_of_nat (max 15 (length (script_head t) + length en))"
  by (simp add: coinbase_head_def front_bytes_def nth_append)

lemma front_null_input: "subrange (front_bytes t n @ rest) 4 41 = NULL_INPUT"
  by (simp add: front_bytes_def NULL_INPUT_def subrange_def)

lemma check_coinbase_head:
  assumes "length (script_head t) + length en \<le> 100" and "1 \<le> cnt" and "cnt < 0xfd"
  shows "check_head (coinbase_head t en cnt)"
proof -
  let ?h = "coinbase_head t en cnt"
  define l where "l = max 15 (length (script_head t) + length en)"
  have l: "l \<le> 100" "unat (word_of_nat l :: u8) = l" using assms(1) by (simp_all add: l_def unat_of_nat)
  have h: "length ?h = 47 + l" "?h ! 41 = word_of_nat l" unfolding l_def by (rule length_coinbase_head, rule coinbase_head_41)
  have last: "?h ! (length ?h - 1) = word_of_nat cnt"
    by (subst last_conv_nth [symmetric]) (simp_all add: coinbase_head_def)
  have c: "(1 :: u8) \<le> word_of_nat cnt" "(word_of_nat cnt :: u8) < 0xfd"
    using assms(2,3) by (simp_all add: word_le_nat_alt word_less_nat_alt unat_of_nat)
  have "subrange ?h 4 41 = NULL_INPUT" unfolding coinbase_head_def by (rule front_null_input)
  then show ?thesis unfolding check_head_def last using c l by (simp add: get_byte_def h MAX_SCRIPT_SIG_def)
qed

lemma coinbase_around_output:
  assumes "coinbase_with_outputs sha t en outs (Some c) = Inr cb"
  shows "cb_bytes cb = coinbase_head t en (Suc (length outs)) @ c @ tail_bytes outs" (is ?bytes)
    and "check_head (coinbase_head t en (Suc (length outs)))"
    and "cb_merkle_root cb = merkle_fold sha (double_sha256 sha (cb_bytes cb)) (tm_merkle_path t)"
proof -
  have f: "fits_template t (length en) outs (Some c) = Inr ()"
    using assms by (cases "fits_template t (length en) outs (Some c)") (simp_all add: coinbase_with_outputs_eq)
  then have n: "length (script_head t) + length en \<le> 100" "Suc (length outs) < 0xfd"
    by (auto simp: fits_template_def count_of_def split: if_splits)
  have "tm_compact_size (Suc (length outs)) = [word_of_nat (Suc (length outs))]" using n(2) by (intro tm_compact_small) simp
  then show ?bytes using assms f
    by (auto simp: coinbase_with_outputs_eq Let_def back_bytes_def coinbase_head_def count_of_def)
  show "check_head (coinbase_head t en (Suc (length outs)))" using n by (intro check_coinbase_head) simp_all
  show "cb_merkle_root cb = merkle_fold sha (double_sha256 sha (cb_bytes cb)) (tm_merkle_path t)"
    using assms f by (auto simp: coinbase_with_outputs_eq Let_def tm_fold_merkle_fold)
qed

section \<open>The height in a coinbase\<close>

definition height_bytes :: "u32 \<Rightarrow> bytes" where
  "height_bytes height = (let bs = rev (dropWhile (\<lambda>b. b = 0) (rev (to_le_bytes height))) in if last bs AND 0x80 \<noteq> 0 then bs @ [0] else bs)"

lemma strip_split: "\<exists>k. bs = rev (dropWhile (\<lambda>b. b = 0) (rev bs)) @ replicate k (0 :: u8)"
proof -
  have "rev bs = takeWhile (\<lambda>b. b = 0) (rev bs) @ dropWhile (\<lambda>b. b = 0) (rev bs)" by simp
  then have "bs = rev (dropWhile (\<lambda>b. b = 0) (rev bs)) @ rev (takeWhile (\<lambda>b. b = 0) (rev bs))" by (metis rev_append rev_rev_ident)
  moreover have "takeWhile (\<lambda>b. b = 0) (rev bs) = replicate (length (takeWhile (\<lambda>b. b = 0) (rev bs))) 0"
    by (rule replicate_eqI [symmetric, THEN sym]) (auto dest: set_takeWhileD)
  ultimately show ?thesis by (metis rev_replicate)
qed

lemma height_bytes_props:
  assumes "0 < height"
  shows "le_nat (height_bytes height) = unat height" and "height_bytes height \<noteq> []" and "length (height_bytes height) \<le> 5"
    and "last (height_bytes height) AND 0x80 = 0"
    and "last (height_bytes height) = 0 \<Longrightarrow> 1 < length (height_bytes height) \<and> height_bytes height ! (length (height_bytes height) - 2) AND 0x80 \<noteq> 0"
proof -
  define bs where "bs = rev (dropWhile (\<lambda>b. b = 0) (rev (to_le_bytes height)))"
  obtain k where k: "to_le_bytes height = bs @ replicate k 0" using strip_split unfolding bs_def by blast
  have le: "le_nat (to_le_bytes height) = unat height" by (simp add: le_nat_to_le_bytes)
  then have v: "le_nat bs = unat height" unfolding k by (simp add: le_nat_append le_nat_replicate_0)
  have ne: "bs \<noteq> []" using v assms by (auto simp: word_less_nat_alt)
  have len: "length bs \<le> 4" using arg_cong [OF k, of length] by simp
  have last: "last bs \<noteq> 0"
  proof -
    have d: "dropWhile (\<lambda>b. b = 0) (rev (to_le_bytes height)) \<noteq> []" using ne by (simp add: bs_def)
    from hd_dropWhile [OF d] show ?thesis by (simp add: bs_def last_rev)
  qed
  have hb: "height_bytes height = (if last bs AND 0x80 \<noteq> 0 then bs @ [0] else bs)" by (simp add: height_bytes_def Let_def bs_def)
  show "le_nat (height_bytes height) = unat height" "height_bytes height \<noteq> []" "length (height_bytes height) \<le> 5"
    "last (height_bytes height) AND 0x80 = 0"
    using v ne len by (simp_all add: hb le_nat_append)
  show "1 < length (height_bytes height) \<and> height_bytes height ! (length (height_bytes height) - 2) AND 0x80 \<noteq> 0" if "last (height_bytes height) = 0"
    using that last ne by (auto simp: hb nth_append last_conv_nth split: if_splits)
qed

lemma height_script_push: "16 < height \<Longrightarrow> height_script height = word_of_nat (length (height_bytes height)) # height_bytes height"
  by (auto simp: height_script_def height_bytes_def Let_def)

lemma coinbase_head_script:
  "\<exists>front rest. coinbase_head t en cnt = front @ height_script (tm_height t) @ rest \<and> length front = 42"
  by (rule exI [of _ "take 42 (front_bytes t (length en))"], rule exI) (simp add: coinbase_head_def front_bytes_def script_head_def)

lemma coinbase_height_head:
  assumes head: "check_head (coinbase_head t en cnt)" and h: "16 < tm_height t"
  shows "coinbase_height (coinbase_head t en cnt) = Some (ucast (tm_height t))"
proof -
  let ?h = "coinbase_head t en cnt" and ?hb = "height_bytes (tm_height t)"
  have pos: "0 < tm_height t" using h by (simp add: word_less_nat_alt)
  note P = height_bytes_props [OF pos]
  define k where "k = length ?hb"
  have k: "1 \<le> k" "k \<le> 5" "unat (word_of_nat k :: u8) = k" using P(2,3) by (simp_all add: k_def Suc_leI unat_of_nat)
  obtain front rest where e: "?h = front @ (word_of_nat k # ?hb) @ rest" and f: "length front = 42"
    using coinbase_head_script [of t en cnt] unfolding height_script_push [OF h] k_def by blast
  have b42: "get_byte ?h 42 = Some (word_of_nat k)" unfolding e using f by (simp add: get_byte_def nth_append)
  have r: "get_range ?h 43 (43 + k) = Some ?hb" unfolding e using f by (simp add: get_range_def subrange_def k_def)
  have "1 + k \<le> max 15 (length (script_head t) + length en)"
    unfolding script_head_def height_script_push [OF h] by (simp add: k_def)
  moreover have "unat (?h ! 41) = max 15 (length (script_head t) + length en)"
  proof -
    obtain l where l: "get_byte ?h 41 = Some l" "length ?h = 47 + unat l" using head by (auto simp: check_head_def split: option.splits)
    then show ?thesis by (simp add: get_byte_def length_coinbase_head split: if_splits)
  qed
  ultimately have len: "\<not> unat (?h ! 41) < 1 + k" by linarith
  have last: "?hb ! (k - 1) = last ?hb" using P(2) by (simp add: k_def last_conv_nth)
  have m: "\<not> (last ?hb AND 0x80 \<noteq> 0 \<or> last ?hb = 0 \<and> (k = 1 \<or> ?hb ! (k - 2) AND 0x80 = 0))" using P(4,5) by (auto simp: k_def)
  have v: "fold (\<lambda>byte value. push_bit 8 value OR ucast byte) (rev ?hb) 0 = (ucast (tm_height t) :: u64)"
    using fold_le_bytes [of ?hb] P(1) k(2) by (simp add: word_unat_eq_iff unat_ucast_up k_def)
  show ?thesis
    unfolding coinbase_height_def Let_def b42 using head k len m
    by (simp add: r v last [unfolded One_nat_def])
qed

lemma length_commitment_wf: "length (ac_root c) = 32 \<Longrightarrow> length (commitment_output c) = OUTPUT_LEN"
  by (simp add: commitment_output_def commitment_script_def COMMIT_MAGIC_def OUTPUT_LEN_def)

section \<open>A template's jobs\<close>

lemma lifted_Inr: "(case r of Inl e \<Rightarrow> Inl (f e) | Inr x \<Rightarrow> Inr x) = Inr y \<longleftrightarrow> r = Inr y"
  by (cases r) simp_all

lemma aux_job_built:
  assumes "aux_job sha ad t network payout operator policy = Inr (Some job)"
  obtains ts terms where "tm_tokens t = Some ts" and "job = job_build sha ts terms"
  using assms
  by (auto simp: aux_job_def declared_aux_def result_bind_Inr_iff lifted_Inr split: if_splits option.splits)

definition path_ok :: "BchTemplate \<Rightarrow> bool" where
  "path_ok t \<longleftrightarrow> list_all (\<lambda>h. length h = 32) (tm_merkle_path t) \<and> length (tm_merkle_path t) \<le> MAX_COINBASE_BRANCH \<and> length (tm_previous_hash t) = 32"

lemma coinbase_aux_outputs:
  assumes "coinbase_with_aux sha ad t network payout operator en policy (Some c) = Inr cb" and "\<not> is_safa t"
  obtains outs where "coinbase_with_outputs sha t en outs (Some c) = Inr cb"
  using assms by (auto simp: coinbase_with_aux_def result_bind_Inr_iff split: option.splits)

lemma template_mines:
  assumes sha: "hash32 sha" and path: "path_ok t" and outs: "coinbase_with_outputs sha t en outs (Some (aj_output job)) = Inr cb"
    and small: "length (cb_bytes cb) \<le> 65535" and header: "template_header t cb version time nonce = Inr header"
  shows "mined sha job (coinbase_head t en (Suc (length outs))) (tail_bytes outs) (tm_merkle_path t) header"
proof -
  note C = coinbase_around_output [OF outs]
  have root: "length (cb_merkle_root cb) = 32"
    unfolding C(3) by (rule length_merkle_fold [OF sha]) (simp add: length_double_sha [OF sha])
  have h: "header = to_le_bytes version @ tm_previous_hash t @ cb_merkle_root cb @ to_le_bytes time @ to_le_bytes (tm_bits t) @ to_le_bytes nonce"
    using header by (simp add: template_header_def split: if_splits)
  have "length header = 80" "subrange header 36 68 = cb_merkle_root cb"
    using path root by (simp_all add: h path_ok_def subrange_def)
  moreover have "length (tail_bytes outs) \<le> 65535" using small unfolding C(1) by simp
  ultimately show ?thesis
    using path C(2) C(3) unfolding mined_def path_ok_def C(1) [symmetric] by (simp add: C(1) tail_bytes_def)
qed

section \<open>Templates from a node or a provider\<close>

lemma cmp_le_total: "cmp_le a b \<or> cmp_le b a"
  by (induction a b rule: cmp_le.induct) auto

lemma cmp_le_trans: "cmp_le a b \<Longrightarrow> cmp_le b c \<Longrightarrow> cmp_le a c"
proof (induction a b arbitrary: c rule: cmp_le.induct)
  case (3 x xs y ys)
  then show ?case by (cases c) auto
qed auto

definition hash_less :: "hash \<Rightarrow> hash \<Rightarrow> bool" where
  "hash_less a b \<longleftrightarrow> \<not> cmp_le b a"

lemma hash_less_trans: "hash_less a b \<Longrightarrow> hash_less b c \<Longrightarrow> hash_less a c"
  using cmp_le_total cmp_le_trans unfolding hash_less_def by blast


definition after_list :: "hash option \<Rightarrow> hash list" where
  "after_list previous = (case previous of None \<Rightarrow> [] | Some p \<Rightarrow> [p])"

lemma sorted_after: "ordered_after previous h \<Longrightarrow> sorted_wrt hash_less (h # hs) \<Longrightarrow> sorted_wrt hash_less (after_list previous @ h # hs)"
  by (cases previous) (auto simp: after_list_def ordered_after_def hash_less_def [symmetric] intro: hash_less_trans)

definition hex_small :: "(string \<Rightarrow> bytes option) \<Rightarrow> bool" where
  "hex_small hex_decode \<longleftrightarrow> (\<forall>s bs. hex_decode s = Some bs \<longrightarrow> length bs < 2 ^ 64)"

lemma checked_transaction_hash: "checked_transaction sha deserialize tx = Inr h \<Longrightarrow> h = double_sha256 sha tx"
  by (auto simp: checked_transaction_def result_bind_Inr_iff split: if_splits)

lemma rpc_transactions_sound:
  assumes "hex_small hex_decode"
  shows "rpc_transactions sha hex_decode deserialize lim sz previous entries = Inr txs \<Longrightarrow> sz \<le> lim \<Longrightarrow>
    list_all (\<lambda>(tx, h). checked_transaction sha deserialize tx = Inr h) txs \<and>
    sorted_wrt hash_less (after_list previous @ map (\<lambda>x. rev (snd x)) txs) \<and> unat sz + (\<Sum>tx\<leftarrow>map fst txs. length tx) \<le> unat lim"
proof (induction entries arbitrary: sz previous txs)
  case Nil
  then show ?case by (auto simp: after_list_def word_le_nat_alt split: option.splits)
next
  case (Cons entry rest)
  from Cons.prems(1) obtain encoded bytes sz' h more where
    b: "hex_decode encoded = Some bytes" "checked_add sz (word_of_nat (length bytes)) = Some sz'" "sz' \<le> lim"
      "checked_transaction sha deserialize bytes = Inr h" "ordered_after previous (rev h)"
      "rpc_transactions sha hex_decode deserialize lim sz' (Some (rev h)) rest = Inr more" "txs = (bytes, h) # more"
    by (auto simp: result_bind_Inr_iff ok_or_Inr_iff not_less split: if_splits)
  note IH = Cons.IH [OF b(6,3)]
  have "length bytes < 2 ^ 64" using assms b(1) by (auto simp: hex_small_def)
  then have "unat (word_of_nat (length bytes) :: u64) = length bytes" by (simp add: unat_of_nat)
  then have t: "unat sz' = unat sz + length bytes" using unat_checked_add [OF b(2)] by simp
  have "sorted_wrt hash_less (rev h # map (\<lambda>x. rev (snd x)) more)" using IH by (simp add: after_list_def)
  from sorted_after [OF b(5) this] show ?case using IH t b(4,7) by (simp add: comp_def)
qed

lemma provided_transactions_sound:
  "provided_transactions sha deserialize previous txs = Inr hs \<Longrightarrow>
    list_all2 (\<lambda>tx h. checked_transaction sha deserialize tx = Inr h) txs hs \<and> sorted_wrt hash_less (after_list previous @ map rev hs)"
proof (induction txs arbitrary: previous hs)
  case Nil
  then show ?case by (auto simp: after_list_def split: option.splits)
next
  case (Cons tx rest)
  from Cons.prems obtain h more where b: "checked_transaction sha deserialize tx = Inr h" "ordered_after previous (rev h)"
      "provided_transactions sha deserialize (Some (rev h)) rest = Inr more" "hs = h # more"
    by (auto simp: result_bind_Inr_iff split: if_splits)
  note IH = Cons.IH [OF b(3)]
  then have "sorted_wrt hash_less (rev h # map rev more)" by (simp add: after_list_def)
  from sorted_after [OF b(2) this] show ?case using IH b(1,4) by simp
qed

text \<open>What every full template satisfies: its target is its bits', its ids are those of its transactions, which the decoder admits, in
  canonical order, and its branch is theirs.\<close>

definition template_wf :: "(bytes \<Rightarrow> bytes) \<Rightarrow> (bytes \<Rightarrow> DecodedTx option) \<Rightarrow> BchTemplate \<Rightarrow> bool" where
  "template_wf sha deserialize t \<longleftrightarrow>
     compact_target (tm_bits t) = Inr (tm_target t) \<and> tm_min_time t \<le> tm_current_time t \<and> tm_coinbase_value t \<le> MAX_MONEY \<and>
     list_all2 (\<lambda>tx h. checked_transaction sha deserialize tx = Inr h) (tm_transactions t) (tm_txids t) \<and>
     sorted_wrt hash_less (map rev (tm_txids t)) \<and> tm_merkle_path t = coinbase_path sha (tm_txids t) \<and> is_block t"

definition block_room :: "BchTemplate \<Rightarrow> bool" where
  "block_room t \<longleftrightarrow> 80 + (\<Sum>tx\<leftarrow>tm_transactions t. length tx) \<le> unat (tm_size_limit t)"

lemma lift_compact_Inr: "lift_compact r = Inr a \<longleftrightarrow> r = Inr a"
  by (simp add: lift_compact_def lifted_Inr)

lemma from_rpc_sound:
  assumes "from_rpc sha hex_decode deserialize value = Inr t" and "hex_small hex_decode"
  shows "template_wf sha deserialize t" and "block_room t" and "length (tm_previous_hash t) = 32" and "length (tm_coinbase_flags t) \<le> 100"
proof -
  from assms(1) obtain lim entries txs where
    p: "\<not> lim < 180" "rpc_transactions sha hex_decode deserialize lim 80 None entries = Inr txs"
      "tm_size_limit t = lim" "tm_transactions t = map fst txs" "tm_txids t = map snd txs" "tm_merkle_path t = coinbase_path sha (map snd txs)"
      "compact_target (tm_bits t) = Inr (tm_target t)" "tm_min_time t \<le> tm_current_time t" "tm_coinbase_value t \<le> 21000000 * 100000000"
      "length (tm_previous_hash t) = 32" "length (tm_coinbase_flags t) \<le> 100" "tm_work t = BlockWork"
    unfolding from_rpc_def
    by (auto simp: result_bind_Inr_iff lift_compact_Inr not_less display_hash_def split: if_splits)
  have l: "80 \<le> lim" using p(1) by (simp add: word_le_nat_alt word_less_nat_alt)
  note R = rpc_transactions_sound [OF assms(2) p(2) l]
  have "list_all2 (\<lambda>tx h. checked_transaction sha deserialize tx = Inr h) (map fst txs) (map snd txs)"
    using R by (auto simp: list_all2_conv_all_nth list_all_length case_prod_unfold)
  then show "template_wf sha deserialize t" using R p by (simp add: template_wf_def is_block_def MAX_MONEY_def after_list_def comp_def)
  show "block_room t" using R p by (simp add: block_room_def)
  show "length (tm_previous_hash t) = 32" "length (tm_coinbase_flags t) \<le> 100" by (rule p)+
qed

definition txs_bytes :: "bytes list \<Rightarrow> nat" where
  "txs_bytes txs = (\<Sum>tx\<leftarrow>txs. length tx)"

lemma unat_txs_size: "txs_bytes txs < 2 ^ 64 \<Longrightarrow> unat (txs_size txs) = txs_bytes txs"
proof (induction txs)
  case (Cons tx txs)
  then have "unat (word_of_nat (length tx) :: u64) = length tx" "unat (txs_size txs) = txs_bytes txs"
    by (simp_all add: txs_bytes_def unat_of_nat)
  then show ?case using Cons.prems by (simp add: txs_size_def txs_bytes_def unat_word_ariths)
qed (simp_all add: txs_size_def txs_bytes_def)

lemma length_tm_compact: "length (tm_compact_size n) \<le> 9" "0 < length (tm_compact_size n)"
  by (simp_all add: tm_compact_size_def)

lemma block_room_txs: "block_room t \<longleftrightarrow> 80 + txs_bytes (tm_transactions t) \<le> unat (tm_size_limit t)"
  by (simp add: block_room_def txs_bytes_def)

lemma from_provided_sound:
  assumes "from_provided sha deserialize p = Inr t" and "txs_bytes (pv_transactions p) < 2 ^ 62"
  shows "template_wf sha deserialize t" and "block_room t"
proof -
  from assms(1) obtain height target hashes where
    p: "\<not> pv_value p > 21000000 * 100000000" "compact_target (pv_bits p) = Inr target"
      "provided_transactions sha deserialize None (pv_transactions p) = Inr hashes"
      "t = \<lparr>tm_previous_hash = pv_previous_hash p, tm_version = pv_version p, tm_bits = pv_bits p, tm_target = target,
           tm_min_time = pv_ntime p, tm_current_time = pv_ntime p, tm_height = height,
           tm_size_limit = 80 + word_of_nat (length (tm_compact_size (length (pv_transactions p) + 1))) + txs_size (pv_transactions p)
             + COINBASE_FIXED + ucast (pv_reserve p),
           tm_coinbase_value = pv_value p, tm_parent_time = None, tm_coinbase_flags = drop (length (height_script height)) (pv_prefix p),
           tm_transactions = pv_transactions p, tm_txids = hashes, tm_merkle_path = coinbase_path sha hashes, tm_tokens = None,
           tm_origin = OwnSource, tm_jd = None, tm_p2pool = None, tm_declaration_id = None, tm_work = BlockWork\<rparr>"
    unfolding from_provided_def Let_def by (auto simp: result_bind_Inr_iff lift_compact_Inr split: if_splits)
  from provided_transactions_sound [OF p(3)] show "template_wf sha deserialize t"
    using p(1,2) by (simp add: p(4) template_wf_def is_block_def MAX_MONEY_def not_less after_list_def)
  define c where "c = length (tm_compact_size (length (pv_transactions p) + 1))"
  have "unat (word_of_nat c :: u64) = c" using length_tm_compact(1) [of "length (pv_transactions p) + 1"] by (simp add: c_def unat_of_nat)
  moreover have "unat (txs_size (pv_transactions p)) = txs_bytes (pv_transactions p)" using assms(2) by (intro unat_txs_size) simp
  moreover have "unat (ucast (pv_reserve p) :: u64) < 2 ^ 32" using unsigned_less [of "pv_reserve p", where ?'a = nat] by (simp add: unat_ucast_up)
  moreover have "c \<le> 9" unfolding c_def by (rule length_tm_compact)
  ultimately have "unat (80 + word_of_nat c + txs_size (pv_transactions p) + COINBASE_FIXED + ucast (pv_reserve p))
      = 80 + c + txs_bytes (pv_transactions p) + 153 + unat (ucast (pv_reserve p) :: u64)"
    using assms(2) by (simp add: unat_word_ariths COINBASE_FIXED_def)
  then show "block_room t" unfolding block_room_txs p(4) by (simp add: c_def)
qed

text \<open>The templates a server can hold: from its node or a provider, then tagged, given tokens, a plan, a P2Pool coinbase, a custom
  job's header or a declaration's number, in any order.\<close>

inductive held_template :: "(bytes \<Rightarrow> bytes) \<Rightarrow> (string \<Rightarrow> bytes option) \<Rightarrow> (bytes \<Rightarrow> DecodedTx option) \<Rightarrow> BchTemplate \<Rightarrow> bool"
  for sha hex_decode deserialize where
  from_node: "from_rpc sha hex_decode deserialize v = Inr t \<Longrightarrow> held_template sha hex_decode deserialize t"
| from_provider: "from_provided sha deserialize p = Inr t \<Longrightarrow> txs_bytes (pv_transactions p) < 2 ^ 62 \<Longrightarrow> held_template sha hex_decode deserialize t"
| tagged: "held_template sha hex_decode deserialize t \<Longrightarrow> held_template sha hex_decode deserialize (template_tag tag t)"
| committed: "held_template sha hex_decode deserialize t \<Longrightarrow> held_template sha hex_decode deserialize (commit_tokens ts t)"
| planned: "held_template sha hex_decode deserialize t \<Longrightarrow> held_template sha hex_decode deserialize (declare_plan plan t)"
| prepared: "held_template sha hex_decode deserialize t \<Longrightarrow> prepare_p2pool prepare t = (r, t') \<Longrightarrow> held_template sha hex_decode deserialize t'"
| headed: "held_template sha hex_decode deserialize t \<Longrightarrow> held_template sha hex_decode deserialize (with_header version min_ntime t)"
| numbered: "held_template sha hex_decode deserialize t \<Longrightarrow> held_template sha hex_decode deserialize (set_declaration_id i t)"

lemma template_keeps:
  "template_wf sha d (template_tag tag t) = template_wf sha d t" "block_room (template_tag tag t) = block_room t"
  "template_wf sha d (commit_tokens ts t) = template_wf sha d t" "block_room (commit_tokens ts t) = block_room t"
  "template_wf sha d (declare_plan plan t) = template_wf sha d t" "block_room (declare_plan plan t) = block_room t"
  "template_wf sha d (set_declaration_id i t) = template_wf sha d t" "block_room (set_declaration_id i t) = block_room t"
  "template_wf sha d t \<Longrightarrow> template_wf sha d (with_header version min_ntime t)" "block_room (with_header version min_ntime t) = block_room t"
  by (simp_all add: template_wf_def block_room_def is_block_def template_tag_def commit_tokens_def declare_plan_def set_declaration_id_def with_header_def)

lemma prepare_keeps:
  assumes "prepare_p2pool prepare t = (r, t')"
  shows "template_wf sha d t' = template_wf sha d t" and "block_room t' = block_room t"
proof -
  obtain q where "t' = t\<lparr>tm_p2pool := q\<rparr>"
    using assms by (auto simp: prepare_p2pool_def Let_def split: if_splits sum.splits)
  then show "template_wf sha d t' = template_wf sha d t" "block_room t' = block_room t"
    by (simp_all add: template_wf_def block_room_def is_block_def)
qed

lemma held_valid:
  assumes "held_template sha hex_decode deserialize t" and "hex_small hex_decode"
  shows "template_wf sha deserialize t \<and> block_room t"
  using assms(1)
  by induction (use from_rpc_sound [OF _ assms(2)] from_provided_sound in \<open>auto simp: template_keeps prepare_keeps\<close>)



lemma block_size_bound:
  assumes room: "block_room t" and lim: "unat (tm_size_limit t) < 2 ^ 63" and size: "0 < n" "n < 2 ^ 64" and ok: "check_block_size t n = Inr ()"
  shows "80 + length (tm_compact_size (transaction_count t)) + n + txs_bytes (tm_transactions t) \<le> unat (tm_size_limit t)"
proof -
  define c where "c = length (tm_compact_size (transaction_count t))"
  have c: "c \<le> 9" unfolding c_def by (rule length_tm_compact)
  define T where "T = txs_bytes (tm_transactions t)"
  have T: "80 + T \<le> unat (tm_size_limit t)" using room by (simp add: block_room_txs T_def)
  have "unat (txs_size (tm_transactions t)) = T" unfolding T_def using T lim by (intro unat_txs_size) (simp add: T_def)
  moreover have "unat (word_of_nat c :: u64) = c" using c by (simp add: unat_of_nat)
  ultimately have o: "unat (80 + word_of_nat c + txs_size (tm_transactions t)) = 80 + c + T" using c T lim by (simp add: unat_word_ariths)
  have "unat (coinbase_budget t) = unat (tm_size_limit t) - (80 + c + T)"
    unfolding coinbase_budget_def c_def [symmetric] by (simp add: unat_saturating_sub o)
  moreover have "n \<le> unat (coinbase_budget t)"
    using ok size(2) by (simp add: check_block_size_def word_less_nat_alt unat_of_nat not_less split: if_splits)
  ultimately show ?thesis using size(1) by (simp add: c_def [symmetric] T_def [symmetric])
qed

lemma template_block_Inr:
  assumes "template_block sha t cb header = Inr b"
  shows "b = template_assemble t (cb_bytes cb) header" and "check_block_size t (length (cb_bytes cb)) = Inr ()" and "is_block t"
    and "subrange header 4 36 = tm_previous_hash t" and "subrange header 72 76 = to_le_bytes (tm_bits t)"
    and "subrange header 36 68 = tm_fold sha (double_sha256 sha (cb_bytes cb)) (tm_merkle_path t)"
  using assms by (auto simp: template_block_def result_bind_Inr_iff split: if_splits)

lemma length_assemble:
  "length (template_assemble t coinbase header) =
    length header + length (tm_compact_size (transaction_count t)) + length coinbase + txs_bytes (tm_transactions t)"
  by (simp add: template_assemble_def transaction_count_def txs_bytes_def length_concat)

lemma assemble_head:
  assumes "assemble job i (head @ rest) path header = Inr p" and "check_head head"
  shows "ap_cb_head p = head"
proof -
  obtain l where l: "get_byte head 41 = Some l" "length head = 47 + unat l" using assms(2) by (auto simp: check_head_def split: option.splits)
  then have "get_byte (head @ rest) 41 = Some l" by (auto simp: get_byte_def nth_append split: if_splits)
  with assms(1) l(2) show ?thesis by (auto simp: assemble_def Let_def ok_or_def result_bind_Inr_iff split: if_splits)
qed

section \<open>Properties\<close>

text \<open>The branch stands for the tree: folding any coinbase's hash up the branch computed once per template gives the merkle root of
  the whole block, the coinbase first and the transactions after it, for every number of transactions.\<close>

theorem branch_gives_tree_root: "tm_fold sha coinbase_id (coinbase_path sha txids) = merkle_root sha (coinbase_id # txids)"
  by (simp add: coinbase_path_def branch_is_root [symmetric])


text \<open>C8. A block is whole and fits: a block built from a held template is no longer than the size limit, its header carries the template's
  parent and bits, and the merkle root in it is the root of exactly the coinbase and the template's transactions.\<close>

theorem blocks_are_whole_and_fit:
  assumes "held_template sha hex_decode deserialize t" and "hex_small hex_decode" and "unat (tm_size_limit t) < 2 ^ 63"
    and "cb_bytes cb \<noteq> []" and "length (cb_bytes cb) < 2 ^ 64" and "length header = 80" and "template_block sha t cb header = Inr block"
  shows "length block \<le> unat (tm_size_limit t) \<and>
    block = header @ tm_compact_size (Suc (length (tm_txids t))) @ cb_bytes cb @ concat (tm_transactions t) \<and>
    subrange block 4 36 = tm_previous_hash t \<and> subrange block 72 76 = to_le_bytes (tm_bits t) \<and>
    subrange block 36 68 = merkle_root sha (map (double_sha256 sha) (cb_bytes cb # tm_transactions t))"
proof -
  note V = held_valid [OF assms(1,2)]
  note B = template_block_Inr [OF assms(7)]
  have "length block \<le> unat (tm_size_limit t)"
    using block_size_bound [OF conjunct2 [OF V] assms(3) _ assms(5) B(2)] assms(4,6) by (simp add: B(1) length_assemble)
  moreover have two: "list_all2 (\<lambda>tx h. checked_transaction sha deserialize tx = Inr h) (tm_transactions t) (tm_txids t)"
    "tm_merkle_path t = coinbase_path sha (tm_txids t)" using V by (simp_all add: template_wf_def)
  moreover have ids: "tm_txids t = map (double_sha256 sha) (tm_transactions t)"
    by (rule nth_equalityI) (use two(1) in \<open>auto simp: list_all2_conv_all_nth dest!: checked_transaction_hash\<close>)
  moreover have "subrange block i j = subrange header i j" if "j \<le> 80" for i j
    using that assms(6) by (simp add: B(1) template_assemble_def subrange_append1)
  ultimately show ?thesis
    using B(4-6) by (simp add: B(1) template_assemble_def two(2) coinbase_path_def branch_is_root [symmetric])
qed

text \<open>C15. A device that rolls its extranonce hashes what the server would build: the parts sent for an extranonce of \<open>n\<close> bytes, joined around any
  \<open>n\<close> bytes, are the coinbase the server builds for those bytes (which it then never refuses), under the same payout,
  policy and merge-mining output, for node, plan, P2Pool and token work alike.\<close>

theorem coinbase_parts_join:
  assumes "coinbase_parts_with_aux sha ad t network payout operator n policy aux = Inr parts" and "length en = n" and "prepared_for t"
  shows "coinbase_with_aux sha ad t network payout operator en policy aux =
    Inr \<lparr>cb_bytes = pa_prefix parts @ en @ pa_suffix parts,
         cb_merkle_root = tm_fold sha (double_sha256 sha (pa_prefix parts @ en @ pa_suffix parts)) (if is_safa t then [] else pa_merkle_path parts)\<rparr>"
  by (rule coinbase_parts_rebuild [OF assms])

text \<open>C4. From a template to a claim: let a job be built for a template with tokens, a coinbase with that job's output and a header on it. The
  coinbase shows the job's own commitment and, above height 16, its height to the covenant; and whenever the header's hash
  wins an entry, the proof assembled from the coinbase, the template's branch and the header is accepted by the reference
  verifier for the entry's leaf and survives its encoding.\<close>

theorem template_wins_are_claimable:
  assumes "hash32 sha" and "path_ok t" and "\<not> is_safa t" and "aux_job sha ad t network payout operator policy = Inr (Some job)"
    and "tm_tokens t = Some ts" and "search_entries sha (ts_entries ts) = Some (ts_layout ts)" and "states_ok ts"
    and "coinbase_with_aux sha ad t network payout operator en policy (Some (aj_output job)) = Inr cb" and "length (cb_bytes cb) \<le> 65535"
    and "template_header t cb version time nonce = Inr header" and "i \<in> set (wins job (double_sha256 sha header))" and "16 < tm_height t"
  shows "check_own_root (cb_bytes cb) (aj_commitment job) = Inr () \<and>
    (\<exists>p bs. assemble job i (cb_bytes cb) (tm_merkle_path t) header = Inr p \<and> to_bytes p = Inr bs \<and> from_bytes bs = Inr p \<and>
      verify_leaf sha p (ae_leaf (aj_entries job ! unat i)) (mt_max_aux_height (ae_token (aj_entries job ! unat i))) = Inr () \<and>
      coinbase_height (ap_cb_head p) = Some (ucast (tm_height t)))"
proof -
  obtain terms where job: "job = job_build sha ts terms" using aux_job_built [OF assms(4)] assms(5) by auto
  obtain outs where outs: "coinbase_with_outputs sha t en outs (Some (aj_output job)) = Inr cb" by (rule coinbase_aux_outputs [OF assms(8,3)])
  note C = coinbase_around_output [OF outs]
  let ?head = "coinbase_head t en (Suc (length outs))"
  have m: "mined sha (job_build sha ts terms) ?head (tail_bytes outs) (tm_merkle_path t) header"
    using template_mines [OF assms(1,2) outs assms(9,10)] by (simp add: job)
  have w: "i \<in> set (wins (job_build sha ts terms) (double_sha256 sha header))" using assms(11) by (simp add: job)
  obtain p where p: "assemble job i (cb_bytes cb) (tm_merkle_path t) header = Inr p"
      "verify_leaf sha p (ae_leaf (aj_entries job ! unat i)) (mt_max_aux_height (ae_token (aj_entries job ! unat i))) = Inr ()" "proof_wf p"
    using assemble_verifies [OF assms(1,6,7) m w] unfolding job [symmetric] C(1) [symmetric] by blast
  then have "check_shape p = Inr ()" by (simp add: verify_leaf_def result_bind_Inr_iff)
  then obtain bs where bs: "to_bytes p = Inr bs" by (simp add: to_bytes_def)
  have o: "aj_output job = commitment_output (aj_commitment job)" by (simp add: job job_build_simps)
  have r: "length (ac_root (aj_commitment job)) = 32" unfolding job job_build_simps(3)
    by simp (rule root_length [OF assms(1)], auto simp: length_leaf_hash [OF assms(1)])
  have own: "check_own_root (cb_bytes cb) (aj_commitment job) = Inr ()"
    unfolding check_own_root_iff [OF r] using C(1,2) o by auto
  have "ap_cb_head p = ?head" by (rule assemble_head [OF p(1) [unfolded C(1)] C(2)])
  then have "coinbase_height (ap_cb_head p) = Some (ucast (tm_height t))" using coinbase_height_head [OF C(2) assms(12)] by simp
  with own p(1,2) bs from_to_bytes [OF p(3) bs] show ?thesis by blast
qed

text \<open>C16. The Chipnet rule is applied exactly: for a template that knows its parent's time and carries either ASERT's bits or the limit's, a header
  time is refused exactly when the bits the network requires at that time (the limit strictly more than twenty minutes after
  the parent, ASERT's bits up to then) are not the template's, also where the sum of times exceeds 32 bits.\<close>

theorem wrong_bits_exact:
  assumes "tm_parent_time t = Some parent" and "asert_bits t = Some a" and "tm_bits t = a \<or> tm_bits t = MIN_DIFFICULTY_BITS"
  shows "wrong_bits t time \<longleftrightarrow> tm_bits t \<noteq> required_bits parent a time"
  by (rule wrong_bits_iff [OF assms])

section \<open>A template with one token\<close>

definition demo_provided :: "hash \<Rightarrow> Provided" where
  "demo_provided target = \<lparr>pv_previous_hash = replicate 32 0, pv_version = 2, pv_bits = 0x03000001, pv_target = target, pv_ntime = 1000, pv_prefix = [1, 17],
     pv_value = 312500000, pv_transactions = [], pv_merkle_path = [], pv_reserve = 1000\<rparr>"

definition demo_template :: "hash \<Rightarrow> BchTemplate" where
  "demo_template target = \<lparr>tm_previous_hash = replicate 32 0, tm_version = 2, tm_bits = 0x03000001, tm_target = target, tm_min_time = 1000,
     tm_current_time = 1000, tm_height = 17, tm_size_limit = 1234, tm_coinbase_value = 312500000, tm_parent_time = None, tm_coinbase_flags = [],
     tm_transactions = [], tm_txids = [], tm_merkle_path = [], tm_tokens = None, tm_origin = OwnSource, tm_jd = None, tm_p2pool = None,
     tm_declaration_id = None, tm_work = BlockWork\<rparr>"

lemma demo_bits: obtains target where "compact_target 0x03000001 = Inr target" "length target = 32"
proof -
  have "\<exists>bs. compact_target 0x03000001 = Inr bs \<and> length bs = 32 \<and> le_nat bs = unat (0x03000001 :: u32) mod 2 ^ 24 * 256 ^ (unat (0x03000001 :: u32) div 2 ^ 24) div 2 ^ 24"
    by (rule compact_target_eq) simp_all
  then show thesis using that by blast
qed

lemma height_17: "height_script 17 = [1, 17]"
  proof -
  have "to_le_bytes (17 :: u32) = [17, 0, 0, 0]"
    using to_from_le_bytes [of "[17, 0, 0, 0]", where ?'a = 32] by (simp add: from_le_bytes_def)
  then show ?thesis by (simp add: height_script_def word_le_nat_alt)
qed

lemma demo_provided_ok:
  assumes "compact_target 0x03000001 = Inr target"
  shows "from_provided zero_sha deserialize (demo_provided target) = Inr (demo_template target)"
proof -
  have "from_le_bytes [17, 0, 0, 0] = (17 :: u32)" by (simp add: from_le_bytes_def)
  moreover have "get_range [1, 17 :: u8] (Suc 0) (Suc (Suc 0)) = Some [17]" "replicate 3 (0 :: u8) = [0, 0, 0]"
    by (simp_all add: get_range_def subrange_def numeral_3_eq_3)
  ultimately have h: "provided_height [1, 17] = Inr 17" by (simp add: provided_height_def get_byte_def ok_or_def word_le_nat_alt)
  have m: "meets_target target target" using cmp_le_total by (auto simp: meets_target_def)
  show ?thesis
    using assms m by (simp add: from_provided_def demo_provided_def h height_17 lift_compact_def Let_def coinbase_path_def coinbase_levels.simps
        tm_compact_size_def txs_size_def COINBASE_FIXED_def demo_template_def)
qed

lemma demo_held:
  obtains target where "held_template zero_sha (\<lambda>_. None) (\<lambda>_. None) (demo_template target)" "hex_small (\<lambda>_. None)"
proof -
  obtain target where "compact_target 0x03000001 = Inr target" by (rule demo_bits)
  from demo_provided_ok [OF this] show thesis
    by (intro that [of target] held_template.from_provider [of _ _ "demo_provided target"]) (simp_all add: demo_provided_def txs_bytes_def hex_small_def)
qed

definition demo_addresses :: Addresses where
  "demo_addresses = \<lparr>ad_coinbase = (\<lambda>_ s. Some s), ad_payout = (\<lambda>_ s. Some s), ad_coinbase_locking = (\<lambda>_. Some [0x51]),
     ad_p2pkh_locking = (\<lambda>_. Some [0x52]), ad_donation = (\<lambda>_. ''d'')\<rparr>"

definition demo_work :: BchPayout where
  "demo_work = demo_policy\<lparr>bp_donation_work := True\<rparr>"

lemma demo_outputs: "outputs 312500000 [[0x51], [0x52]] demo_work = [(312500000, [0x52])]"
  by (simp add: outputs_def amounts_def demo_work_def demo_policy_def)

definition demo_extranonce :: bytes where
  "demo_extranonce = replicate 16 7"

definition token_template :: "hash \<Rightarrow> TokenSet \<Rightarrow> BchTemplate" where
  "token_template target ts = commit_tokens ts (demo_template target)"

lemma demo_head_length: "script_head (demo_template target) = [1, 17]" "script_head (token_template target ts) = [1, 17]"
  by (simp_all add: script_head_def demo_template_def token_template_def commit_tokens_def height_17)

lemma demo_budget: "coinbase_budget (demo_template target) = 1153" "coinbase_budget (token_template target ts) = 1153"
  by (simp_all add: coinbase_budget_def demo_template_def token_template_def commit_tokens_def transaction_count_def tm_compact_size_def txs_size_def saturating_sub_def)

lemma demo_fits:
  assumes "script_head t = [1, 17]" and "coinbase_budget t = 1153" and "\<And>c. aux = Some c \<Longrightarrow> length c = 53"
  shows "fits_template t 16 [(312500000, [0x52])] aux = Inr ()"
  using assms by (cases aux) (simp_all add: fits_template_def count_of_def length_front_bytes back_bytes_def tail_bytes_def output_bytes_def
    tm_compact_size_def check_block_size_def)

lemma demo_coinbase:
  assumes "script_head t = [1, 17]" and "coinbase_budget t = 1153" and "\<And>c. aux = Some c \<Longrightarrow> length c = 53"
    and "tm_p2pool t = None" "tm_jd t = None" "tm_work t = BlockWork" "tm_coinbase_value t = 312500000" "tm_merkle_path t = []" "length en = 16"
  shows "\<exists>bytes. coinbase_with_aux sha demo_addresses t Chipnet ''m'' None en demo_work aux = Inr \<lparr>cb_bytes = bytes, cb_merkle_root = double_sha256 sha bytes\<rparr>
    \<and> 0 < length bytes \<and> length bytes \<le> 1153"
proof -
  have s: "payout_scripts demo_addresses Chipnet ''m'' None = Inr [[0x51], [0x52]]"
    by (simp add: payout_scripts_def demo_addresses_def ok_or_def)
  have b: "length (front_bytes t 16 @ en @ back_bytes t 16 [(312500000, [0x52])] aux) \<le> 1153"
    "0 < length (front_bytes t 16 @ en @ back_bytes t 16 [(312500000, [0x52])] aux)"
    using assms(1,3,9) by (cases aux; simp add: length_front_bytes back_bytes_def tail_bytes_def output_bytes_def tm_compact_size_def count_of_def)+
  have f: "fits_template t 16 [(312500000, [0x52])] aux = Inr ()" by (rule demo_fits [OF assms(1-3)])
  let ?bytes = "front_bytes t 16 @ en @ back_bytes t 16 [(312500000, [0x52])] aux"
  have "coinbase_with_aux sha demo_addresses t Chipnet ''m'' None en demo_work aux = Inr \<lparr>cb_bytes = ?bytes, cb_merkle_root = double_sha256 sha ?bytes\<rparr>"
    using f assms(4-9)
    by (simp add: coinbase_with_aux_def check_p2pool_prepared_def is_p2pool_def is_safa_def token_job_def s demo_outputs coinbase_with_outputs_eq Let_def)
  with b show ?thesis by blast
qed


theorem blocks_are_whole_and_fit_witness:
  "\<exists>target cb header block. coinbase_with_aux zero_sha demo_addresses (demo_template target) Chipnet ''m'' None demo_extranonce demo_work None = Inr cb \<and>
     template_header (demo_template target) cb 2 1000 5 = Inr header \<and> template_block zero_sha (demo_template target) cb header = Inr block \<and>
     length block \<le> 1234"
proof -
  obtain target where h: "held_template zero_sha (\<lambda>_. None) (\<lambda>_. None) (demo_template target)" "hex_small (\<lambda>_. None)" by (rule demo_held)
  let ?t = "demo_template target"
  have f: "tm_p2pool ?t = None" "tm_jd ?t = None" "tm_work ?t = BlockWork" "tm_coinbase_value ?t = 312500000" "tm_merkle_path ?t = []"
    "length demo_extranonce = 16" by (simp_all add: demo_template_def demo_extranonce_def)
  obtain bytes where b: "coinbase_with_aux zero_sha demo_addresses ?t Chipnet ''m'' None demo_extranonce demo_work None
      = Inr \<lparr>cb_bytes = bytes, cb_merkle_root = double_sha256 zero_sha bytes\<rparr>" "0 < length bytes" "length bytes \<le> 1153"
    using demo_coinbase [OF demo_head_length(1) demo_budget(1) _ f, of None zero_sha] by auto
  let ?cb = "\<lparr>cb_bytes = bytes, cb_merkle_root = double_sha256 zero_sha bytes\<rparr>"
  define header where "header = to_le_bytes (2 :: u32) @ replicate 32 0 @ replicate 32 0 @ to_le_bytes (1000 :: u32) @ to_le_bytes (0x03000001 :: u32) @ to_le_bytes (5 :: u32)"
  have z: "double_sha256 zero_sha m = replicate 32 0" for m by (simp add: double_sha256_def zero_sha_def ZERO_HASH_def)
  have hd: "template_header ?t ?cb 2 1000 5 = Inr header" by (simp add: template_header_def demo_template_def header_def z)
  have l: "length header = 80" by (simp add: header_def)
  have sub: "subrange header 4 36 = replicate 32 0" "subrange header 36 68 = replicate 32 0" "subrange header 72 76 = to_le_bytes (0x03000001 :: u32)"
    by (simp_all add: header_def subrange_def)
  have "check_block_size ?t (length bytes) = Inr ()"
    using b(3) by (simp add: check_block_size_def demo_budget word_less_nat_alt unat_of_nat)
  then obtain block where k: "template_block zero_sha ?t ?cb header = Inr block"
    by (simp add: template_block_def is_block_def demo_template_def sub z)
  have "length block \<le> unat (tm_size_limit ?t)"
    by (rule conjunct1 [OF blocks_are_whole_and_fit [OF h _ _ _ l k]]) (use b(2,3) in \<open>simp_all add: demo_template_def\<close>)
  then show ?thesis using b(1) hd k by (force simp: demo_template_def)
qed

theorem coinbase_parts_join_witness:
  "\<exists>target parts. coinbase_parts_with_aux zero_sha demo_addresses (demo_template target) Chipnet ''m'' None 16 demo_work None = Inr parts \<and>
     (\<exists>root. coinbase_with_aux zero_sha demo_addresses (demo_template target) Chipnet ''m'' None demo_extranonce demo_work None =
       Inr \<lparr>cb_bytes = pa_prefix parts @ demo_extranonce @ pa_suffix parts, cb_merkle_root = root\<rparr>)"
proof -
  let ?t = "demo_template []"
  have f: "tm_p2pool ?t = None" "tm_jd ?t = None" "tm_work ?t = BlockWork" "tm_coinbase_value ?t = 312500000" "tm_merkle_path ?t = []"
    "length (replicate 16 (0 :: u8)) = 16" by (simp_all add: demo_template_def)
  obtain cb where "coinbase_with_aux zero_sha demo_addresses ?t Chipnet ''m'' None (replicate 16 0) demo_work None = Inr cb"
    using demo_coinbase [OF demo_head_length(1) demo_budget(1) _ f, of None zero_sha] by auto
  then obtain parts where p: "coinbase_parts_with_aux zero_sha demo_addresses ?t Chipnet ''m'' None 16 demo_work None = Inr parts"
    by (simp add: coinbase_parts_with_aux_def)
  have "prepared_for ?t" "length demo_extranonce = 16" by (simp_all add: prepared_for_def demo_template_def demo_extranonce_def)
  from coinbase_parts_join [OF p this(2,1)] p show ?thesis by blast
qed

definition chipnet_template :: BchTemplate where
  "chipnet_template = (demo_template [])\<lparr>tm_height := 16845, tm_parent_time := Some 1605451779, tm_bits := MIN_DIFFICULTY_BITS\<rparr>"

theorem wrong_bits_exact_witness:
  "\<not> wrong_bits chipnet_template 1605452980 \<and>
   (\<exists>a. asert_bits chipnet_template = Some a \<and> (wrong_bits chipnet_template 1605452979 \<longleftrightarrow> a \<noteq> MIN_DIFFICULTY_BITS))"
proof -
  obtain a where a: "asert_bits chipnet_template = Some a"
    using next_bits_chipnet [of 16844 1605451779] by (simp add: asert_bits_def chipnet_template_def checked_sub_def)
  have p: "tm_parent_time chipnet_template = Some 1605451779" "tm_bits chipnet_template = MIN_DIFFICULTY_BITS" by (simp_all add: chipnet_template_def)
  note W = wrong_bits_exact [OF p(1) a disjI2 [OF p(2)]]
  show ?thesis unfolding W using a by (auto simp: required_bits_def p(2))
qed

theorem template_wins_are_claimable_witness:
  "\<exists>ts job cb header p. set_new zero_sha (\<lambda>_. None) (\<lambda>_. []) Chipnet [demo_entry] 1 = Inr ts \<and>
     aux_job zero_sha demo_addresses (token_template [] ts) Chipnet ''m'' None demo_work = Inr (Some job) \<and>
     coinbase_with_aux zero_sha demo_addresses (token_template [] ts) Chipnet ''m'' None demo_extranonce demo_work (Some (aj_output job)) = Inr cb \<and>
     template_header (token_template [] ts) cb 2 1000 5 = Inr header \<and>
     assemble job 0 (cb_bytes cb) [] header = Inr p \<and> coinbase_height (ap_cb_head p) = Some 17"
proof -
  obtain ts where ts: "set_new zero_sha (\<lambda>_. None) (\<lambda>_. []) Chipnet [demo_entry] 1 = Inr ts" by (rule demo_set)
  have s: "search_entries zero_sha (ts_entries ts) = Some (ts_layout ts)" "ts_entries ts = [demo_entry]" "ts_threads ts = []"
    by (rule demo_set_fields [OF ts])+
  have ok: "states_ok ts" using demo_entry_ok(2) by (simp add: states_ok_def s)
  let ?t = "token_template [] ts"
  define terms where "terms = \<lparr>lt_payout = [0x52], lt_split = NO_SPLIT, lt_plain_payout = [0x52 :: u8]\<rparr>"
  define job where "job = job_build zero_sha ts terms"
  have f: "tm_p2pool ?t = None" "tm_jd ?t = None" "tm_work ?t = BlockWork" "tm_coinbase_value ?t = 312500000" "tm_merkle_path ?t = []"
    "length demo_extranonce = 16" "tm_tokens ?t = Some ts" "tm_previous_hash ?t = replicate 32 0" "tm_height ?t = 17"
    by (simp_all add: token_template_def commit_tokens_def demo_template_def demo_extranonce_def)
  have job: "aux_job zero_sha demo_addresses ?t Chipnet ''m'' None demo_work = Inr (Some job)"
    by (simp add: aux_job_def f payout_scripts_def demo_addresses_def ok_or_def leaf_terms_def demo_work_def job_def terms_def)
  have "length (ac_root (aj_commitment job)) = 32"
    unfolding job_def job_build_simps(3) by simp (rule root_length [OF zero_sha_hash32], auto simp: length_leaf_hash [OF zero_sha_hash32])
  then have o: "length (aj_output job) = 53"
    using length_commitment_output by (simp add: job_def job_build_simps OUTPUT_LEN_def)
  obtain bytes where b: "coinbase_with_aux zero_sha demo_addresses ?t Chipnet ''m'' None demo_extranonce demo_work (Some (aj_output job))
      = Inr \<lparr>cb_bytes = bytes, cb_merkle_root = double_sha256 zero_sha bytes\<rparr>" "length bytes \<le> 1153"
    using demo_coinbase [OF demo_head_length(2) demo_budget(2) _ f(1-6), of "Some (aj_output job)" zero_sha] o by auto
  obtain header where h: "template_header ?t \<lparr>cb_bytes = bytes, cb_merkle_root = double_sha256 zero_sha bytes\<rparr> 2 1000 5 = Inr header"
    by (simp add: template_header_def token_template_def commit_tokens_def demo_template_def)
  obtain k where k: "l_slots (ts_layout ts) = [k]" using search_entries_layout(2) [OF s(1)] by (cases "l_slots (ts_layout ts)") (auto simp: s)
  have "meets_target ZERO_HASH (st_target demo_state)" by (subst meets_target_iff) (simp_all add: ZERO_HASH_def demo_state_def)
  then have w: "0 \<in> set (wins job (double_sha256 zero_sha header))"
    by (simp add: wins_iff job_def job_build_simps s k job_entry_def set_threads_def demo_entry_def demo_token_def double_sha256_def zero_sha_def)
  have path: "path_ok ?t" "\<not> is_safa ?t" "16 < tm_height ?t" by (simp_all add: path_ok_def f is_safa_def token_job_def)
  have "length (cb_bytes \<lparr>cb_bytes = bytes, cb_merkle_root = double_sha256 zero_sha bytes\<rparr>) \<le> 65535" using b(2) by simp
  from template_wins_are_claimable [OF zero_sha_hash32 path(1,2) job f(7) s(1) ok b(1) this h w path(3)]
  obtain p where "assemble job 0 bytes [] header = Inr p" "coinbase_height (ap_cb_head p) = Some 17" by (auto simp: f)
  then show ?thesis using ts job b(1) h by force
qed

end
