(* ===== verification/Declared.thy ===== *)
theory Declared
  imports Template
begin

text \<open>
  Declared jobs, from \<open>src/stratum_v2/jd/declared.rs\<close>: a declaration's coinbase read from its two halves, the job a pool keeps of it, its
  candidate block and the block of a pushed solution; and the composition of a client's declaration (theories Template and
  Job_Policy) with the pool's reading of it. A refusal's code and words are its constructor.
\<close>

section \<open>A declared coinbase\<close>

datatype refusal =
  ShPrefixShort | ShSegwit | ShVersion | ShInput | ShScript | ShExtranonce | ShSuffixShort | ShOutputs | ShUnder65
  | ShCoinbase | ShHeaderTime | ShTooLarge

definition WITNESS_LEN :: nat where "WITNESS_LEN = 2 + 32"

definition strip_bip141 :: "bytes \<Rightarrow> bytes \<Rightarrow> (refusal, bytes \<times> bytes) result" where
  "strip_bip141 prefix suffix =
     (if get_range prefix 4 6 \<noteq> Some [0, 1] then Inr (prefix, suffix)
      else let start = length suffix - (4 + WITNESS_LEN)
           in if length suffix < 4 + WITNESS_LEN \<or> start < 4 \<or> subrange suffix start (start + 2) \<noteq> [1, 32] then Inl ShSegwit
              else Inr (take 4 prefix @ drop 6 prefix, take start suffix @ drop (start + WITNESS_LEN) suffix))"

definition word_at :: "bytes option \<Rightarrow> u32 option" where
  "word_at bytes = Option.bind bytes (\<lambda>bs. if length bs = 4 then Some (from_le_bytes bs) else None)"

definition shape_parse :: "bytes \<Rightarrow> bytes \<Rightarrow> (refusal, CoinbaseShape) result" where
  "shape_parse prefix suffix =
     result_bind (ok_or ShPrefixShort (word_at (get_range prefix 0 4))) (\<lambda>tx_version.
     result_bind (strip_bip141 prefix suffix) (\<lambda>(prefix, suffix).
     if tx_version \<noteq> 1 \<and> tx_version \<noteq> 2 then Inl ShVersion
     else if get_byte prefix 4 \<noteq> Some 1 \<or> get_range prefix 5 37 \<noteq> Some (replicate 32 0) \<or> get_range prefix 37 41 \<noteq> Some (replicate 4 0xff)
     then Inl ShInput else
     result_bind (ok_or ShPrefixShort (get_byte prefix 41)) (\<lambda>l.
     let script_len = unat l in
     if script_len > 100 then Inl ShScript else
     let head = drop 42 prefix in
     if script_len < length head \<or> \<not> (1 \<le> script_len - length head \<and> script_len - length head \<le> 32) then Inl ShExtranonce else
     result_bind (ok_or ShSuffixShort (word_at (get_range suffix 0 4))) (\<lambda>sequence.
     let outputs_end = length suffix - 4 in
     if length suffix < 4 \<or> outputs_end < 4 then Inl ShSuffixShort else
     let outputs_bytes = subrange suffix 4 outputs_end in
     result_bind (case parse_outputs outputs_bytes of Inl _ \<Rightarrow> Inl ShOutputs | Inr outs \<Rightarrow> Inr outs) (\<lambda>outs.
     result_bind (ok_or ShSuffixShort (word_at (Some (drop outputs_end suffix)))) (\<lambda>locktime.
     if length prefix + (script_len - length head) + length suffix < 65 then Inl ShUnder65 else
     Inr \<lparr>cs_tx_version = tx_version, cs_head = head, cs_script_len = script_len, cs_sequence = sequence, cs_outputs = outs,
          cs_outputs_bytes = outputs_bytes, cs_locktime = locktime, cs_prefix = prefix, cs_suffix = suffix\<rparr>))))))"

fun ctor_ordered :: "hash list \<Rightarrow> bool" where
  "ctor_ordered (a # b # rest) = (ordered_after (Some (rev a)) (rev b) \<and> ctor_ordered (b # rest))"
| "ctor_ordered _ = True"

record Solution =
  so_extranonce :: bytes
  so_prev_hash :: hash
  so_nonce :: u32
  so_ntime :: u32
  so_nbits :: u32
  so_version :: u32

record DeclaredJob =
  dj_shape :: CoinbaseShape
  dj_template :: BchTemplate

definition job_coinbase :: "(bytes \<Rightarrow> bytes) \<Rightarrow> DeclaredJob \<Rightarrow> bytes \<Rightarrow> Coinbase option" where
  "job_coinbase sha job extranonce =
     map_option (\<lambda>bytes. \<lparr>cb_bytes = bytes, cb_merkle_root = tm_fold sha (double_sha256 sha bytes) (tm_merkle_path (dj_template job))\<rparr>)
       (shape_coinbase (dj_shape job) extranonce)"

definition job_fits :: "DeclaredJob \<Rightarrow> bool" where
  "job_fits job =
     (word_of_nat (length (cs_prefix (dj_shape job)) + shape_extranonce_len (dj_shape job) + length (cs_suffix (dj_shape job)))
       \<le> coinbase_budget (dj_template job))"

definition job_candidate :: "(bytes \<Rightarrow> bytes) \<Rightarrow> DeclaredJob \<Rightarrow> (refusal, bytes) result" where
  "job_candidate sha job =
     result_bind (ok_or ShCoinbase (job_coinbase sha job (replicate (shape_extranonce_len (dj_shape job)) 0))) (\<lambda>coinbase.
     result_bind (case template_header (dj_template job) coinbase (tm_version (dj_template job)) (tm_current_time (dj_template job)) 0 of
         Inl _ \<Rightarrow> Inl ShHeaderTime | Inr header \<Rightarrow> Inr header) (\<lambda>header.
     case template_block sha (dj_template job) coinbase header of Inl _ \<Rightarrow> Inl ShTooLarge | Inr block \<Rightarrow> Inr block))"

definition job_solved :: "(bytes \<Rightarrow> bytes) \<Rightarrow> DeclaredJob \<Rightarrow> Solution \<Rightarrow> (hash \<times> bytes) option" where
  "job_solved sha job solution =
     (if so_prev_hash solution \<noteq> tm_previous_hash (dj_template job) \<or> so_nbits solution \<noteq> tm_bits (dj_template job) \<or>
         wrong_bits (dj_template job) (so_ntime solution) then None
      else Option.bind (job_coinbase sha job (so_extranonce solution)) (\<lambda>coinbase.
           case template_header (dj_template job) coinbase (so_version solution) (so_ntime solution) (so_nonce solution) of
             Inl _ \<Rightarrow> None
           | Inr header \<Rightarrow>
               let hash = double_sha256 sha header
               in if \<not> meets_target hash (tm_target (dj_template job)) then None
                  else (case template_block sha (dj_template job) coinbase header of Inl _ \<Rightarrow> None | Inr block \<Rightarrow> Some (hash, block))))"

section \<open>Shapes and their bytes\<close>

definition shape_front :: "u32 \<Rightarrow> nat \<Rightarrow> bytes \<Rightarrow> bytes" where
  "shape_front version script_len head = to_le_bytes version @ [1] @ replicate 32 0 @ replicate 4 0xff @ [word_of_nat script_len] @ head"

definition shape_back :: "u32 \<Rightarrow> bytes \<Rightarrow> u32 \<Rightarrow> bytes" where
  "shape_back sequence outputs_bytes locktime = to_le_bytes sequence @ outputs_bytes @ to_le_bytes locktime"

text \<open>What a parsed shape says of its bytes: they are a coinbase transaction with the fields it names.\<close>

definition shape_wf :: "CoinbaseShape \<Rightarrow> bool" where
  "shape_wf s \<longleftrightarrow>
     (cs_tx_version s = 1 \<or> cs_tx_version s = 2) \<and> cs_script_len s \<le> 100 \<and> length (cs_head s) < cs_script_len s \<and>
     cs_script_len s \<le> length (cs_head s) + 32 \<and>
     cs_prefix s = shape_front (cs_tx_version s) (cs_script_len s) (cs_head s) \<and>
     cs_suffix s = shape_back (cs_sequence s) (cs_outputs_bytes s) (cs_locktime s) \<and>
     parse_outputs (cs_outputs_bytes s) = Inr (cs_outputs s) \<and> 65 \<le> length (cs_prefix s) + shape_extranonce_len s + length (cs_suffix s)"

lemma word_at_range: "word_at (get_range bs i (i + 4)) = Some w \<longleftrightarrow> i + 4 \<le> length bs \<and> subrange bs i (i + 4) = to_le_bytes w"
  by (auto simp: word_at_def get_range_def to_from_le_bytes from_to_le_bytes split: if_splits)

lemma bytes_end: "4 \<le> length bs \<Longrightarrow> bs = subrange bs 0 (length bs - 4) @ drop (length bs - 4) bs"
  by (simp add: subrange_def)

lemma strip_plain: "get_range prefix 4 6 \<noteq> Some [0, 1] \<Longrightarrow> strip_bip141 prefix suffix = Inr (prefix, suffix)"
  by (simp add: strip_bip141_def)

lemma strip_starts: "strip_bip141 prefix suffix = Inr (p, s) \<Longrightarrow> take 4 p = take 4 prefix"
  by (auto simp: strip_bip141_def Let_def get_range_def min_def split: if_splits)

lemma front_of_parts:
  assumes "length prefix \<ge> 42" and "subrange prefix 0 4 = to_le_bytes v" and "prefix ! 4 = 1" and "subrange prefix 5 37 = replicate 32 0"
    and "subrange prefix 37 41 = replicate 4 0xff"
  shows "prefix = shape_front v (unat (prefix ! 41)) (drop 42 prefix)"
proof -
  have "prefix = subrange prefix 0 4 @ subrange prefix 4 5 @ subrange prefix 5 37 @ subrange prefix 37 41 @ subrange prefix 41 42 @ subrange prefix 42 (length prefix)"
    using assms(1) by (simp add: subrange_join subrange_join_append subrange_self)
  moreover have "subrange prefix 4 5 = [prefix ! 4]" "subrange prefix 41 42 = [prefix ! 41]"
    using subrange_single [of 4 prefix] subrange_single [of 41 prefix] assms(1) by simp_all
  ultimately show ?thesis using assms(2-5) by (simp add: shape_front_def subrange_drop)
qed

lemma shape_parse_wf:
  assumes "shape_parse prefix suffix = Inr s"
  shows "shape_wf s" and "strip_bip141 prefix suffix = Inr (cs_prefix s, cs_suffix s)"
proof -
  from assms obtain v p q l sequence outs locktime where
    v: "word_at (get_range prefix 0 4) = Some v" "strip_bip141 prefix suffix = Inr (p, q)" "v = 1 \<or> v = 2"
    and i: "get_byte p 4 = Some 1" "get_range p 5 37 = Some (replicate 32 0)" "get_range p 37 41 = Some (replicate 4 0xff)" "get_byte p 41 = Some l"
    and n: "unat l \<le> 100" "\<not> unat l < length (drop 42 p)" "1 \<le> unat l - length (drop 42 p)" "unat l - length (drop 42 p) \<le> 32"
    and q: "word_at (get_range q 0 4) = Some sequence" "\<not> length q < 4" "\<not> length q - 4 < 4" "parse_outputs (subrange q 4 (length q - 4)) = Inr outs"
      "word_at (Some (drop (length q - 4) q)) = Some locktime" "\<not> length p + (unat l - length (drop 42 p)) + length q < 65"
    and s: "s = \<lparr>cs_tx_version = v, cs_head = drop 42 p, cs_script_len = unat l, cs_sequence = sequence, cs_outputs = outs,
          cs_outputs_bytes = subrange q 4 (length q - 4), cs_locktime = locktime, cs_prefix = p, cs_suffix = q\<rparr>"
    unfolding shape_parse_def Let_def by (auto simp: result_bind_Inr_iff ok_or_Inr_iff lifted_Inr split: if_splits)
  have "length p \<ge> 42" "p ! 41 = l" "p ! 4 = 1" using i(1,4) by (auto simp: get_byte_def split: if_splits)
  moreover have "subrange p 0 4 = to_le_bytes v"
    using v(1) strip_starts [OF v(2)] word_at_range [of prefix 0 v] by (simp add: subrange_def)
  ultimately have front: "p = shape_front v (unat l) (drop 42 p)"
    using front_of_parts [of p v] i(2,3) by (simp add: get_range_def split: if_splits)
  have "drop (length q - 4) q = to_le_bytes locktime" using q(5) by (auto simp: word_at_def to_from_le_bytes split: if_splits)
  moreover have "subrange q 0 4 = to_le_bytes sequence" using q(1) word_at_range [of q 0 sequence] by simp
  moreover have "q = subrange q 0 4 @ subrange q 4 (length q - 4) @ subrange q (length q - 4) (length q)"
    using q(2,3) by (simp add: subrange_join subrange_join_append subrange_self)
  ultimately have q_eq: "q = shape_back sequence (subrange q 4 (length q - 4)) locktime" by (simp add: shape_back_def subrange_drop)
  show "shape_wf s" unfolding shape_wf_def using front q_eq v(3) n q(4,6) by (auto simp: s shape_extranonce_len_def)
  show "strip_bip141 prefix suffix = Inr (cs_prefix s, cs_suffix s)" using v(2) by (simp add: s)
qed

lemma shape_front_marker: "get_range (shape_front v sl head) 4 6 \<noteq> Some [0, 1]"
  by (simp add: shape_front_def get_range_def subrange_def)

lemma shape_parse_built:
  assumes "shape_wf s"
  shows "shape_parse (cs_prefix s) (cs_suffix s) = Inr s"
proof -
  let ?p = "cs_prefix s" and ?q = "cs_suffix s"
  have w: "cs_tx_version s = 1 \<or> cs_tx_version s = 2" "cs_script_len s \<le> 100" "length (cs_head s) < cs_script_len s"
    "cs_script_len s \<le> length (cs_head s) + 32" "?p = shape_front (cs_tx_version s) (cs_script_len s) (cs_head s)"
    "?q = shape_back (cs_sequence s) (cs_outputs_bytes s) (cs_locktime s)" "parse_outputs (cs_outputs_bytes s) = Inr (cs_outputs s)"
    "65 \<le> length ?p + shape_extranonce_len s + length ?q"
    using assms unfolding shape_wf_def by blast+
  have l: "unat (word_of_nat (cs_script_len s) :: u8) = cs_script_len s" using w(2) by (simp add: unat_of_nat)
  have p: "word_at (get_range ?p 0 4) = Some (cs_tx_version s)" "get_byte ?p 4 = Some 1" "get_range ?p 5 37 = Some (replicate 32 0)"
    "get_range ?p 37 41 = Some (replicate 4 0xff)" "get_byte ?p 41 = Some (word_of_nat (cs_script_len s))" "drop 42 ?p = cs_head s"
    unfolding w(5) shape_front_def
    by (simp_all add: word_at_def get_range_def get_byte_def subrange_def nth_append from_to_le_bytes)
  have q: "word_at (get_range ?q 0 4) = Some (cs_sequence s)" "\<not> length ?q < 4" "\<not> length ?q - 4 < 4" "subrange ?q 4 (length ?q - 4) = cs_outputs_bytes s"
    "word_at (Some (drop (length ?q - 4) ?q)) = Some (cs_locktime s)"
    unfolding w(6) shape_back_def
    by (simp_all add: word_at_def get_range_def subrange_def from_to_le_bytes)
  have st: "strip_bip141 ?p ?q = Inr (?p, ?q)" unfolding w(5) by (rule strip_plain [OF shape_front_marker])
  show ?thesis
    unfolding shape_parse_def p(1) st Let_def using w(1-4,7,8) p(2-6) q l
    by (auto simp: ok_or_def shape_extranonce_len_def)
qed

section \<open>A client's declaration, read by the pool\<close>

lemma ucast_of_nat_down:
  "LENGTH('b) \<le> LENGTH('a) \<Longrightarrow> (ucast (word_of_nat n :: 'a :: len word) :: 'b :: len word) = word_of_nat n"
  by transfer simp

lemma tm_compact_write: "n < 2 ^ 64 \<Longrightarrow> tm_compact_size n = write_compact_size (word_of_nat n)"
  by (simp add: tm_compact_size_def write_compact_size_def word_le_nat_alt unat_of_nat ucast_of_nat_down)

lemma outputs_bytes_jd:
  "list_all (\<lambda>out. length (snd out) < 2 ^ 64) outs \<Longrightarrow> concat (map output_bytes outs) = concat (map jd_output_bytes outs)"
  by (induction outs) (simp_all add: output_bytes_def jd_output_bytes_def tm_compact_write case_prod_unfold)

definition carried :: "AuxJob option \<Rightarrow> (u64 \<times> bytes) list \<Rightarrow> (u64 \<times> bytes) list" where
  "carried aux outs = (case aux of Some job \<Rightarrow> (0, commitment_script (aj_commitment job)) # outs | None \<Rightarrow> outs)"

definition aux_wf :: "AuxJob option \<Rightarrow> bool" where
  "aux_wf aux = (case aux of None \<Rightarrow> True | Some job \<Rightarrow> commitment_wf (aj_commitment job) \<and> aj_output job = commitment_output (aj_commitment job))"

lemma zero_value_bytes: "to_le_bytes (0 :: u64) = replicate 8 (0 :: u8)"
proof -
  have "from_le_bytes (replicate 8 (0 :: u8)) = (0 :: u64)" by (simp add: from_le_bytes_def le_nat_replicate_0)
  then show ?thesis using to_from_le_bytes [of "replicate 8 (0 :: u8)", where ?'a = 64] by simp
qed

lemma length_commitment_script: "commitment_wf c \<Longrightarrow> length (commitment_script c) = 44"
  by (simp add: commitment_wf_def commitment_script_def COMMIT_MAGIC_def)

lemma commitment_jd_output: "commitment_wf c \<Longrightarrow> jd_output_bytes (0, commitment_script c) = commitment_output c"
  by (simp add: jd_output_bytes_def commitment_output_def zero_value_bytes length_commitment_script write_compact_size_def SCRIPT_LEN_def)

lemma back_is_shape:
  assumes "15 \<le> length (script_head t) + n" and "aux_wf aux" and "list_all (\<lambda>out. length (snd out) < 2 ^ 64) outs" and "length (carried aux outs) < 2 ^ 64"
  shows "back_bytes t n outs (map_option aj_output aux) = shape_back 0xffffffff (serialize_outputs (carried aux outs)) 0"
proof -
  have c: "count_of outs (map_option aj_output aux) = length (carried aux outs)"
    by (cases aux) (simp_all add: count_of_def carried_def)
  have "(case map_option aj_output aux of Some c \<Rightarrow> c | None \<Rightarrow> []) @ concat (map output_bytes outs) = concat (map jd_output_bytes (carried aux outs))"
    using assms(2) by (cases aux) (simp_all add: carried_def aux_wf_def commitment_jd_output outputs_bytes_jd [OF assms(3)])
  then show ?thesis
    using assms(1) unfolding back_bytes_def c tm_compact_write [OF assms(4)] serialize_outputs_eq shape_back_def tail_bytes_def
    by (simp add: ones_bytes zero_bytes)
qed

lemma declared_parts_of:
  assumes "tm_p2pool t = None" and "tm_jd t = Some plan" and "\<not> is_safa t" and "declared_aux sha t = Inr aux"
    and "plan_outputs plan (tm_coinbase_value t) = Some outs" and "n = length (jp_upstream_prefix plan) + plan_rollable plan"
    and "declared_parts sha t = Inr parts"
  shows "fits_template t n outs (map_option aj_output aux) = Inr ()"
    and "pa_prefix parts = front_bytes t n" and "pa_suffix parts = back_bytes t n outs (map_option aj_output aux)"
proof -
  let ?c = "map_option aj_output aux"
  have r: "result_bind (coinbase_with_outputs sha t (replicate n 0) outs ?c) (\<lambda>cb. Inr (split_coinbase t cb n)) = Inr parts"
    using assms by (auto simp: declared_parts_def Let_def ok_or_def check_p2pool_prepared_def split: if_splits)
  then show f: "fits_template t n outs ?c = Inr ()" by (cases "fits_template t n outs ?c") (simp_all add: coinbase_with_outputs_eq)
  have "split_coinbase t cb n = \<lparr>pa_prefix = front_bytes t n, pa_suffix = back_bytes t n outs ?c, pa_merkle_path = tm_merkle_path t\<rparr>"
    if "cb_bytes cb = front_bytes t n @ replicate n 0 @ back_bytes t n outs ?c" for cb
    by (rule split_coinbase_parts [OF assms(3) that length_front_bytes]) simp
  with r f show "pa_prefix parts = front_bytes t n" "pa_suffix parts = back_bytes t n outs ?c"
    by (auto simp: coinbase_with_outputs_eq Let_def)
qed

lemma rollable_pos: "0 < plan_rollable plan"
  by (simp add: plan_rollable_def plan_layout_def)

lemma built_shape_wf:
  assumes "1 \<le> n" and "n \<le> 32" and "15 \<le> length (script_head t) + n" and "length (script_head t) + n \<le> 100"
    and "list_all jd_output_ok outs" and "length (serialize_outputs outs) < 2 ^ 64"
  shows "shape_wf \<lparr>cs_tx_version = 2, cs_head = script_head t, cs_script_len = length (script_head t) + n, cs_sequence = 0xffffffff, cs_outputs = outs,
    cs_outputs_bytes = serialize_outputs outs, cs_locktime = 0, cs_prefix = front_bytes t n, cs_suffix = shape_back 0xffffffff (serialize_outputs outs) 0\<rparr>"
proof -
  have "max 15 (length (script_head t) + n) = length (script_head t) + n" using assms(3) by simp
  then have "front_bytes t n = shape_front 2 (length (script_head t) + n) (script_head t)" by (simp add: front_bytes_def shape_front_def)
  moreover have "parse_outputs (serialize_outputs outs) = Inr outs" using parse_outputs_iff [OF assms(6)] assms(5) by simp
  moreover have "65 \<le> length (front_bytes t n) + n + length (shape_back 0xffffffff (serialize_outputs outs) 0)"
    using assms(3) by (simp add: length_front_bytes shape_back_def)
  ultimately show ?thesis unfolding shape_wf_def using assms(1-4) by (simp add: shape_extranonce_len_def)
qed

lemma commitment_starts: "take 6 (commitment_script c) = COMMITMENT_HEAD"
  by (simp add: commitment_script_def COMMITMENT_HEAD_def COMMIT_MAGIC_def)

lemma check_commitments_carried:
  assumes "list_all (plain_script \<circ> snd) outs" and "aux_wf aux" and "aux \<noteq> None \<longrightarrow> length outs < 252"
  shows "check_commitments (carried aux outs) = Inr ()"
proof (cases aux)
  case (Some job)
  have "get_byte (commitment_script (aj_commitment job)) 0 \<noteq> Some 0xef" by (simp add: get_byte_def commitment_script_def)
  moreover have "parse_script (commitment_script (aj_commitment job)) \<noteq> None"
    using assms(2) parse_script_iff [of "commitment_script (aj_commitment job)" "aj_commitment job"] by (simp add: Some aux_wf_def)
  ultimately show ?thesis
    using assms(3) commitments_plain [OF assms(1), of 1 True]
    by (simp add: check_commitments_def carried_def Some commitment_starts)
qed (use check_commitments_plain [of outs] assms(1) in \<open>simp add: carried_def list.pred_map comp_def\<close>)

lemma rule_check_carried:
  assumes "rates_ok rule" and "rule_check rule outs = Inr v" and "check_commitments (carried aux outs) = Inr ()"
  shows "rule_check rule (carried aux outs) = Inr v"
proof -
  have "paid_total (carried aux outs) = paid_total outs" "paid_to s (carried aux outs) = paid_to s outs" for s
    by (cases aux; simp add: carried_def paid_total_def paid_to_def)+
  then show ?thesis using assms unfolding rule_check_iff [OF assms(1)] by simp
qed

text \<open>A set of tokens the pool can open: laid out, of 1 to 16 tokens it knows to verify splits, with sound leaves.\<close>

definition set_shown :: "(bytes \<Rightarrow> bytes) \<Rightarrow> (hash \<Rightarrow> MergeToken option) \<Rightarrow> TokenSet \<Rightarrow> AuxJob \<Rightarrow> bool" where
  "set_shown sha known ts job \<longleftrightarrow>
     search_entries sha (ts_entries ts) = Some (ts_layout ts) \<and> ts_entries ts \<noteq> [] \<and> length (ts_entries ts) \<le> 16 \<and>
     list_all (\<lambda>e. mt_split (se_token e) \<and> (case known (mt_category (se_token e)) of Some token \<Rightarrow> mt_split token | None \<Rightarrow> False)) (ts_entries ts) \<and>
     list_all (\<lambda>e. leaf_wf (ae_leaf e)) (aj_entries job) \<and> ac_root (aj_commitment job) \<noteq> ZERO_HASH"

lemma plan_slot_pair:
  "plan_slot sha plan rate index = Inr s \<Longrightarrow> pair_slot sha (map_option (\<lambda>script. (script, rate)) (plan_script plan index)) = Inr s"
  by (simp add: plan_slot_def pair_slot_def split: option.splits sum.splits)

lemma plan_slot_wf: "hash32 sha \<Longrightarrow> plan_slot sha plan rate index = Inr s \<Longrightarrow> slot_wf s"
  using slot_new_wf empty_slot_wf by (fastforce simp: plan_slot_def split: option.splits sum.splits)

lemma job_aux_wf: "hash32 sha \<Longrightarrow> set_shown sha known ts (job_build sha ts terms) \<Longrightarrow> aux_wf (Some (job_build sha ts terms))"
  by (simp add: aux_wf_def set_shown_def job_commitment_wf) (simp add: job_build_simps)

lemma job_leaf_terms:
  assumes "list_all (\<lambda>e. mt_split (se_token e)) (ts_entries ts)"
  shows "list_all (\<lambda>e. ae_split e = lt_split terms \<and> lf_payout_hash (ae_leaf e) = double_sha256 sha (lt_payout terms) \<and>
    (\<exists>x\<in>set (ts_entries ts). lf_category (ae_leaf e) = mt_category (se_token x))) (aj_entries (job_build sha ts terms))"
  unfolding job_build_simps(1) list_all_iff
proof
  fix e
  assume "e \<in> set (map (job_entry sha ts terms) (zip (ts_entries ts) (l_slots (ts_layout ts))))"
  then obtain x k where x: "x \<in> set (ts_entries ts)" "e = job_entry sha ts terms (x, k)" by (auto dest: set_zip_leftD)
  with assms have "mt_split (se_token x)" by (simp add: list_all_iff)
  with x show "ae_split e = lt_split terms \<and> lf_payout_hash (ae_leaf e) = double_sha256 sha (lt_payout terms) \<and>
      (\<exists>x\<in>set (ts_entries ts). lf_category (ae_leaf e) = mt_category (se_token x))"
    by (auto simp: job_entry_def leaf_new_def Let_def)
qed

lemma shown_leaves_accepted:
  assumes sha: "hash32 sha" and shown: "set_shown sha known ts job" and job: "job = job_build sha ts terms" and split: "split_wf (lt_split terms)"
    and slots: "pair_slot sha (ru_donation rule) = Inr (sp_donation (lt_split terms))" "pair_slot sha (ru_fee rule) = Inr (sp_fee (lt_split terms))"
    and miner: "lt_payout terms = ru_miner rule"
  shows "check_leaves_with sha known rule (carried (Some job) outs) (disclosure_encode (disclosure_from_job job)) = Inr ()"
proof -
  note s = shown [unfolded set_shown_def]
  have wf: "commitment_wf (aj_commitment job)" using job_aux_wf [OF sha] shown by (simp add: job aux_wf_def)
  then have c: "first_commitment (carried (Some job) outs) = Some (aj_commitment job)" by (simp add: first_commitment_def carried_def parse_script_iff)
  have "ac_root (aj_commitment job) \<noteq> ZERO_HASH" using s by blast
  then have e: "aj_commitment job \<noteq> EMPTY_COMMITMENT" by (auto simp: EMPTY_COMMITMENT_def)
  have d: "disclosure_wf sha (disclosure_from_job job)" "check_root sha (disclosure_from_job job) (aj_commitment job) = Inr ()"
    using s job_leaves_of_job(1) [OF sha, of ts terms] disclosure_of_job(1) [of sha ts terms] split by (simp_all add: job)
  have n: "disclosure_encode (disclosure_from_job job) \<noteq> []" by (simp add: disclosure_encode_def)
  have "list_all (\<lambda>e. mt_split (se_token e)) (ts_entries ts)" using s by (auto simp: list_all_iff)
  note T = job_leaf_terms [OF this, of terms sha, folded job]
  have "list_all (\<lambda>x. (\<exists>token. known (lf_category (dl_leaf x)) = Some token \<and> mt_split token) \<and>
      lf_payout_hash (dl_leaf x) = double_sha256 sha (ru_miner rule) \<and>
      dl_split x = \<lparr>sp_donation = sp_donation (lt_split terms), sp_fee = sp_fee (lt_split terms)\<rparr>) (dc_leaves (disclosure_from_job job))"
    using T s by (auto simp: disclosure_from_job_def list_all_iff miner split: option.splits) (metis option.distinct(1) option.exhaust)+
  then show ?thesis unfolding declared_leaves_iff [OF c e] using n d slots by (auto simp: disclosure_decode_iff)
qed

definition excess_of :: "AuxJob option \<Rightarrow> bytes" where
  "excess_of aux = (case aux of None \<Rightarrow> [] | Some job \<Rightarrow> disclosure_encode (disclosure_from_job job))"

lemma few_outputs: "length outs \<le> length (back_bytes t n outs commitment)"
proof -
  have "length outs \<le> length (concat (map output_bytes outs))" by (induction outs) (simp_all add: output_bytes_def)
  then show ?thesis by (simp add: back_bytes_def tail_bytes_def)
qed

lemma outputs_ok:
  assumes "rates_ok rule" and "rule_check rule outs = Inr v" and "list_all (\<lambda>script. length script \<le> 10000) (map snd outs)"
  shows "list_all jd_output_ok outs"
proof -
  have "paid_total outs \<le> 2100000000000000" using assms(2) unfolding rule_check_iff [OF assms(1)] by blast
  moreover have "unat (fst out) \<le> paid_total outs" if "out \<in> set outs" for out
    using that by (auto simp: paid_total_def case_prod_unfold intro!: member_le_sum_list)
  ultimately have "\<forall>out\<in>set outs. fst out \<le> MAX_MONEY" by (fastforce simp: word_le_nat_alt max_money)
  with assms(3) show ?thesis by (auto simp: list_all_iff jd_output_ok_def)
qed

lemma declared_aux_cases:
  assumes "declared_aux sha t = Inr aux" and "tm_jd t = Some plan" and "plan_is_valid plan" and "\<not> jp_p2pool plan"
  obtains "aux = None" | ts donation fee where "tm_tokens t = Some ts"
    "plan_slot sha plan (pr_donation_bps (jp_rates plan)) (pr_donation_output (jp_rates plan)) = Inr donation"
    "plan_slot sha plan (pr_fee_bps (jp_rates plan)) (pr_fee_output (jp_rates plan)) = Inr fee"
    "aux = Some (job_build sha ts \<lparr>lt_payout = ru_miner (plan_rule plan), lt_split = \<lparr>sp_donation = donation, sp_fee = fee\<rparr>,
       lt_plain_payout = ru_miner (plan_rule plan)\<rparr>)"
proof -
  have "jp_scripts plan \<noteq> []" using assms(3,4) by (auto simp: plan_is_valid_def Let_def)
  then have m: "plan_token_payout plan = Some (ru_miner (plan_rule plan))" by (simp add: plan_token_payout_def plan_rule_def split: list.splits)
  show thesis
    using assms(1,2) that by (auto simp: declared_aux_def m ok_or_def result_bind_Inr_iff split: option.splits if_splits)
qed

lemma declared_leaves_accepted:
  assumes sha: "hash32 sha" and aux: "declared_aux sha t = Inr aux" and plan: "tm_jd t = Some plan" "plan_is_valid plan" "\<not> jp_p2pool plan"
    and plain: "list_all (plain_script \<circ> snd) outs" and shown: "\<forall>ts job. tm_tokens t = Some ts \<and> aux = Some job \<longrightarrow> set_shown sha known ts job"
  shows "aux_wf aux" and "check_leaves_with sha known (plan_rule plan) (carried aux outs) (excess_of aux) = Inr ()"
proof -
  have "aux_wf aux \<and> check_leaves_with sha known (plan_rule plan) (carried aux outs) (excess_of aux) = Inr ()"
  proof (cases rule: declared_aux_cases [OF aux plan])
    case 1
    have "parse_script s = None" if "plain_script s" for s
      using that parse_script_iff [of s "the (parse_script s)"] by (cases "parse_script s") (auto simp: plain_script_def commitment_starts)
    then have "first_commitment outs = None" using plain by (cases outs) (auto simp: first_commitment_def)
    then show ?thesis by (simp add: 1 aux_wf_def carried_def excess_of_def check_leaves_with_def)
  next
    case (2 ts donation fee)
    let ?terms = "\<lparr>lt_payout = ru_miner (plan_rule plan), lt_split = \<lparr>sp_donation = donation, sp_fee = fee\<rparr>, lt_plain_payout = ru_miner (plan_rule plan)\<rparr>"
    have s: "set_shown sha known ts (job_build sha ts ?terms)" using shown 2(1,4) by blast
    have w: "split_wf (lt_split ?terms)" using plan_slot_wf [OF sha 2(2)] plan_slot_wf [OF sha 2(3)] by (simp add: split_wf_def)
    have p: "pair_slot sha (ru_donation (plan_rule plan)) = Inr (sp_donation (lt_split ?terms))" "pair_slot sha (ru_fee (plan_rule plan)) = Inr (sp_fee (lt_split ?terms))"
      using plan_slot_pair [OF 2(2)] plan_slot_pair [OF 2(3)] by (simp_all add: plan_rule_def)
    show ?thesis
      using shown_leaves_accepted [OF sha s refl w p, of outs] job_aux_wf [OF sha s] by (simp add: 2(4) excess_of_def)
  qed
  then show "aux_wf aux" "check_leaves_with sha known (plan_rule plan) (carried aux outs) (excess_of aux) = Inr ()" by auto
qed

text \<open>C5. What a client declares, its pool accepts: where a template is declared under a valid plan, with a coinbase script of at least 15 bytes
  (its extranonce included) and tokens the pool all knows and that verify splits, the pool reads from the two halves of
  the coinbase the client's script and extranonce length and exactly the outputs the client meant, these outputs are worth the template and pay
  the pool's rule, and the leaves disclosed beside them open the token commitment and pay the miner with the rule's split.\<close>

theorem declared_job_is_accepted:
  assumes "hash32 sha" and "tm_jd t = Some plan" and "plan_is_valid plan" and "\<not> jp_p2pool plan" and "tm_p2pool t = None" and "\<not> is_safa t"
    and "tm_coinbase_value t \<le> MAX_MONEY" and "list_all (\<lambda>script. plain_script script \<and> length script \<le> 10000) (jp_scripts plan)"
    and "n = length (jp_upstream_prefix plan) + plan_rollable plan" and "n \<le> 32" and "15 \<le> length (script_head t) + n"
    and "declared_aux sha t = Inr aux" and "\<forall>ts job. tm_tokens t = Some ts \<and> aux = Some job \<longrightarrow> set_shown sha known ts job"
    and "declared_parts sha t = Inr parts" and "length (pa_suffix parts) < 2 ^ 64"
  shows "\<exists>outs shape. declared_outputs sha t = Inr outs \<and> shape_parse (pa_prefix parts) (pa_suffix parts) = Inr shape \<and> cs_outputs shape = outs \<and>
    cs_head shape = script_head t \<and> shape_extranonce_len shape = n \<and> rule_check (plan_rule plan) outs = Inr (tm_coinbase_value t) \<and>
    check_leaves_with sha known (plan_rule plan) outs (excess_of aux) = Inr ()"
proof -
  have plain: "list_all plain_script (jp_scripts plan)" using assms(8) by (auto simp: list_all_iff)
  obtain outs where outs: "plan_outputs plan (tm_coinbase_value t) = Some outs" "map snd outs = jp_scripts plan"
    "rule_check (plan_rule plan) outs = Inr (tm_coinbase_value t)"
    using valid_plan_pays [OF assms(3,4,7) plain] by blast
  have po: "list_all (plain_script \<circ> snd) outs" using plain by (simp add: outs(2) [symmetric] list.pred_map)
  note L = declared_leaves_accepted [OF assms(1,12,2-4) po assms(13)]
  note P = declared_parts_of [OF assms(5,2,6,12) outs(1) assms(9,14)]
  have few: "aux \<noteq> None \<longrightarrow> length outs < 252" and script: "length (script_head t) + n \<le> 100"
    using P(1) by (auto simp: fits_template_def count_of_def split: if_splits)
  have rates: "rates_ok (plan_rule plan)" by (rule plan_rates_ok [OF assms(3,4)])
  have rule: "rule_check (plan_rule plan) (carried aux outs) = Inr (tm_coinbase_value t)"
    by (rule rule_check_carried [OF rates outs(3) check_commitments_carried [OF po L(1) few]])
  have lens: "list_all (\<lambda>script. length script \<le> 10000) (map snd (carried aux outs))"
    using assms(8) L(1) by (cases aux) (auto simp: carried_def outs(2) list_all_iff aux_wf_def length_commitment_script)
  have ok: "list_all jd_output_ok (carried aux outs)" by (rule outputs_ok [OF rates rule lens])
  have "list_all (\<lambda>script. length script < 2 ^ 64) (map snd outs)" using assms(8) unfolding outs(2) by (auto simp: list_all_iff)
  then have small: "list_all (\<lambda>out. length (snd out) < 2 ^ 64) outs" by (simp add: list.pred_map comp_def)
  have "length (carried aux outs) < 2 ^ 64"
    using few few_outputs [of outs t n "map_option aj_output aux"] assms(15) unfolding P(3) by (cases aux) (simp_all add: carried_def)
  note suffix = P(3) [unfolded back_is_shape [OF assms(11) L(1) small this]]
  then have bytes: "length (serialize_outputs (carried aux outs)) < 2 ^ 64" using assms(15) by (simp add: shape_back_def)
  have pos: "1 \<le> n" using rollable_pos [of plan] assms(9) by linarith
  note S = shape_parse_built [OF built_shape_wf [OF pos assms(10,11) script ok bytes], simplified]
  have "declared_outputs sha t = Inr (carried aux outs)"
    using L(1) assms(2,4,5,12) outs(1)
    by (cases aux) (simp_all add: declared_outputs_def check_p2pool_prepared_def is_p2pool_def ok_or_def carried_def aux_wf_def commitment_output_def)
  then show ?thesis using S L(2) rule unfolding P(2) suffix by (auto simp: shape_extranonce_len_def)
qed

section \<open>Candidates and solutions\<close>

text \<open>The block of a declaration: a header over the tree of the coinbase and the transactions, then both.\<close>

definition declared_header :: "(bytes \<Rightarrow> bytes) \<Rightarrow> BchTemplate \<Rightarrow> u32 \<Rightarrow> bytes \<Rightarrow> bytes list \<Rightarrow> u32 \<Rightarrow> u32 \<Rightarrow> bytes" where
  "declared_header sha ctx version coinbase txs time nonce =
     to_le_bytes version @ tm_previous_hash ctx @ merkle_root sha (map (double_sha256 sha) (coinbase # txs)) @ to_le_bytes time @
     to_le_bytes (tm_bits ctx) @ to_le_bytes nonce"

definition declared_block :: "bytes \<Rightarrow> bytes \<Rightarrow> bytes list \<Rightarrow> bytes" where
  "declared_block header coinbase txs = header @ tm_compact_size (Suc (length txs)) @ coinbase @ concat txs"

definition declared_for :: "(bytes \<Rightarrow> bytes) \<Rightarrow> BchTemplate \<Rightarrow> u32 \<Rightarrow> bytes list \<Rightarrow> BchTemplate" where
  "declared_for sha ctx version txs = declared_template sha ctx version txs (map (double_sha256 sha) txs)"

lemma declared_for_fields [simp]:
  "tm_previous_hash (declared_for sha ctx version txs) = tm_previous_hash ctx" "tm_bits (declared_for sha ctx version txs) = tm_bits ctx"
  "tm_target (declared_for sha ctx version txs) = tm_target ctx" "tm_min_time (declared_for sha ctx version txs) = tm_min_time ctx"
  "tm_current_time (declared_for sha ctx version txs) = tm_current_time ctx"
  "tm_version (declared_for sha ctx version txs) = version" "tm_origin (declared_for sha ctx version txs) = DeclaredTemplate"
  "tm_transactions (declared_for sha ctx version txs) = txs" "is_block (declared_for sha ctx version txs)"
  "tm_merkle_path (declared_for sha ctx version txs) = coinbase_path sha (map (double_sha256 sha) txs)"
  by (simp_all add: declared_for_def declared_template_def is_block_def)

lemma length_merkle_root: "hash32 sha \<Longrightarrow> length (merkle_root sha (map (double_sha256 sha) (coinbase # txs))) = 32"
  using length_merkle_fold [of sha "double_sha256 sha coinbase"] branch_is_root [of sha "double_sha256 sha coinbase" "map (double_sha256 sha) txs" "[]"]
  by (simp add: length_double_sha tm_fold_merkle_fold)

lemma length_declared_header:
  "hash32 sha \<Longrightarrow> length (tm_previous_hash ctx) = 32 \<Longrightarrow> length (declared_header sha ctx version coinbase txs time nonce) = 80"
  using length_merkle_root [of sha coinbase txs] by (simp add: declared_header_def)

lemma fold_is_tree: "tm_fold sha (double_sha256 sha coinbase) (coinbase_path sha (map (double_sha256 sha) txs)) = merkle_root sha (map (double_sha256 sha) (coinbase # txs))"
  by (simp add: coinbase_path_def branch_is_root [symmetric])

lemma job_coinbase_tree:
  "dj_template job = declared_for sha ctx version txs \<Longrightarrow>
    job_coinbase sha job en = (if length en = shape_extranonce_len (dj_shape job) then
      Some \<lparr>cb_bytes = cs_prefix (dj_shape job) @ en @ cs_suffix (dj_shape job),
            cb_merkle_root = merkle_root sha (map (double_sha256 sha) ((cs_prefix (dj_shape job) @ en @ cs_suffix (dj_shape job)) # txs))\<rparr> else None)"
  by (simp only: job_coinbase_def shape_coinbase_def declared_for_fields) (simp add: fold_is_tree)

lemma declared_for_block:
  assumes "hash32 sha" and "length (tm_previous_hash ctx) = 32"
  shows "template_block sha (declared_for sha ctx version txs) \<lparr>cb_bytes = coinbase, cb_merkle_root = r\<rparr> (declared_header sha ctx v coinbase txs time nonce) =
    result_bind (check_block_size (declared_for sha ctx version txs) (length coinbase)) (\<lambda>_.
      Inr (declared_block (declared_header sha ctx v coinbase txs time nonce) coinbase txs))"
proof -
  let ?h = "declared_header sha ctx v coinbase txs time nonce"
  have "subrange ?h 4 36 = tm_previous_hash ctx" "subrange ?h 36 68 = merkle_root sha (map (double_sha256 sha) (coinbase # txs))"
    "subrange ?h 72 76 = to_le_bytes (tm_bits ctx)"
    using assms(2) length_merkle_root [OF assms(1), of coinbase txs] unfolding declared_header_def by (simp_all add: subrange_def)
  then show ?thesis unfolding template_block_def by (simp add: fold_is_tree template_assemble_def declared_block_def)
qed

lemma job_solved_iff:
  assumes "hash32 sha" and "length (tm_previous_hash ctx) = 32" and "dj_template job = declared_for sha ctx version txs"
  shows "job_solved sha job sol = Some (h, block) \<longleftrightarrow>
    so_prev_hash sol = tm_previous_hash ctx \<and> so_nbits sol = tm_bits ctx \<and> \<not> wrong_bits (dj_template job) (so_ntime sol) \<and>
    length (so_extranonce sol) = shape_extranonce_len (dj_shape job) \<and> tm_min_time ctx \<le> so_ntime sol \<and>
    (\<exists>coinbase header. coinbase = cs_prefix (dj_shape job) @ so_extranonce sol @ cs_suffix (dj_shape job) \<and>
      header = declared_header sha ctx (so_version sol) coinbase txs (so_ntime sol) (so_nonce sol) \<and> h = double_sha256 sha header \<and>
      meets_target h (tm_target ctx) \<and> check_block_size (dj_template job) (length coinbase) = Inr () \<and> block = declared_block header coinbase txs)"
proof -
  let ?cb = "cs_prefix (dj_shape job) @ so_extranonce sol @ cs_suffix (dj_shape job)"
  let ?header = "declared_header sha ctx (so_version sol) ?cb txs (so_ntime sol) (so_nonce sol)"
  have h: "template_header (dj_template job) \<lparr>cb_bytes = ?cb, cb_merkle_root = merkle_root sha (map (double_sha256 sha) (?cb # txs))\<rparr>
      (so_version sol) (so_ntime sol) (so_nonce sol) = (if so_ntime sol < tm_min_time ctx then Inl HeaderTime else Inr ?header)"
    unfolding template_header_def assms(3) declared_for_fields Coinbase.simps declared_header_def ..
  note b = declared_for_block [OF assms(1,2), of version txs ?cb _ "so_version sol" "so_ntime sol" "so_nonce sol", folded assms(3)]
  have f: "tm_previous_hash (dj_template job) = tm_previous_hash ctx" "tm_bits (dj_template job) = tm_bits ctx" "tm_target (dj_template job) = tm_target ctx"
    by (simp_all add: assms(3))
  have e: "job_solved sha job sol =
     (if so_prev_hash sol \<noteq> tm_previous_hash ctx \<or> so_nbits sol \<noteq> tm_bits ctx \<or> wrong_bits (dj_template job) (so_ntime sol) \<or>
        length (so_extranonce sol) \<noteq> shape_extranonce_len (dj_shape job) \<or> so_ntime sol < tm_min_time ctx \<or>
        \<not> meets_target (double_sha256 sha ?header) (tm_target ctx) then None
      else case check_block_size (dj_template job) (length ?cb) of Inl _ \<Rightarrow> None
        | Inr _ \<Rightarrow> Some (double_sha256 sha ?header, declared_block ?header ?cb txs))"
    unfolding job_solved_def job_coinbase_tree [OF assms(3)] f
    by (cases "length (so_extranonce sol) = shape_extranonce_len (dj_shape job)"; cases "check_block_size (dj_template job) (length ?cb)";
        simp only: h b if_True if_False bind.bind_lunit bind.bind_lzero option.case sum.case Let_def result_bind.simps simp_thms split: if_split)
      (simp_all add: Let_def b)
  define header where "header = ?header"
  show ?thesis unfolding e header_def [symmetric] by (cases "check_block_size (dj_template job) (length ?cb)") (auto simp: header_def not_less)
qed

lemma job_candidate_iff:
  assumes "hash32 sha" and "length (tm_previous_hash ctx) = 32" and "dj_template job = declared_for sha ctx version txs"
    and "coinbase = cs_prefix (dj_shape job) @ replicate (shape_extranonce_len (dj_shape job)) 0 @ cs_suffix (dj_shape job)"
    and "header = declared_header sha ctx version coinbase txs (tm_current_time ctx) 0"
  shows "job_candidate sha job =
    (if tm_current_time ctx < tm_min_time ctx then Inl ShHeaderTime
     else case check_block_size (dj_template job) (length coinbase) of Inl _ \<Rightarrow> Inl ShTooLarge | Inr _ \<Rightarrow> Inr (declared_block header coinbase txs))"
proof -
  have h: "template_header (dj_template job) \<lparr>cb_bytes = coinbase, cb_merkle_root = merkle_root sha (map (double_sha256 sha) (coinbase # txs))\<rparr>
      version (tm_current_time ctx) 0 = (if tm_current_time ctx < tm_min_time ctx then Inl HeaderTime else Inr header)"
    unfolding template_header_def assms(3) declared_for_fields Coinbase.simps declared_header_def assms(5) ..
  note b = declared_for_block [OF assms(1,2), of version txs coinbase _ version "tm_current_time ctx" 0, folded assms(3,5)]
  have c: "job_coinbase sha job (replicate (shape_extranonce_len (dj_shape job)) 0) =
      Some \<lparr>cb_bytes = coinbase, cb_merkle_root = merkle_root sha (map (double_sha256 sha) (coinbase # txs))\<rparr>"
    unfolding job_coinbase_tree [OF assms(3)] assms(4) by simp
  have f: "tm_version (dj_template job) = version" "tm_current_time (dj_template job) = tm_current_time ctx" by (simp_all add: assms(3))
  show ?thesis
    unfolding job_candidate_def c f ok_or_Some result_bind.simps h
    by (cases "check_block_size (dj_template job) (length coinbase)"; simp add: b)
qed

lemma shape_parse_strip:
  assumes "strip_bip141 prefix suffix = Inr (p, q)" and "strip_bip141 p q = Inr (p, q)" and "4 \<le> length p"
  shows "shape_parse prefix suffix = shape_parse p q"
proof -
  have "4 \<le> length prefix" using strip_starts [OF assms(1)] assms(3) by (metis length_take min.absorb_iff2 min.bounded_iff min.cobounded1 nle_le)
  then have "get_range prefix 0 4 = get_range p 0 4" using strip_starts [OF assms(1)] assms(3) by (simp add: get_range_def subrange_def)
  then show ?thesis unfolding shape_parse_def assms(1,2) by simp
qed

lemma shape_parse_iff: "shape_parse prefix suffix = Inr s \<longleftrightarrow> shape_wf s \<and> strip_bip141 prefix suffix = Inr (cs_prefix s, cs_suffix s)"
proof
  assume a: "shape_wf s \<and> strip_bip141 prefix suffix = Inr (cs_prefix s, cs_suffix s)"
  then have p: "cs_prefix s = shape_front (cs_tx_version s) (cs_script_len s) (cs_head s)" by (simp add: shape_wf_def)
  have "shape_parse prefix suffix = shape_parse (cs_prefix s) (cs_suffix s)"
  proof (rule shape_parse_strip)
    show "strip_bip141 (cs_prefix s) (cs_suffix s) = Inr (cs_prefix s, cs_suffix s)" unfolding p by (rule strip_plain [OF shape_front_marker])
  qed (use a in \<open>simp_all add: p shape_front_def\<close>)
  with a shape_parse_built show "shape_parse prefix suffix = Inr s" by simp
qed (use shape_parse_wf in blast)

lemma bip141_stripped:
  assumes "shape_wf s" and "length item = 32"
  shows "strip_bip141 (take 4 (cs_prefix s) @ [0, 1] @ drop 4 (cs_prefix s))
    (to_le_bytes (cs_sequence s) @ cs_outputs_bytes s @ [1, 32] @ item @ to_le_bytes (cs_locktime s)) = Inr (cs_prefix s, cs_suffix s)"
proof -
  have w: "cs_prefix s = shape_front (cs_tx_version s) (cs_script_len s) (cs_head s)"
    "cs_suffix s = shape_back (cs_sequence s) (cs_outputs_bytes s) (cs_locktime s)" using assms(1) by (simp_all add: shape_wf_def)
  show ?thesis unfolding w strip_bip141_def Let_def using assms(2)
    by (simp add: shape_front_def shape_back_def get_range_def subrange_def WITNESS_LEN_def)
qed

text \<open>A declared coinbase is read exactly: two halves are taken exactly when they are, up to SRI's marker and one witness of 32 bytes, a coinbase
  of version 1 or 2 over the null outpoint with a script of at most 100 bytes, an extranonce of 1 to 32 bytes and at least
  65 bytes in all, and the shape names the version, script, sequence, outputs and locktime that these bytes say.\<close>

theorem declared_coinbase_exact:
  "shape_parse prefix suffix = Inr s \<longleftrightarrow>
    (cs_tx_version s = 1 \<or> cs_tx_version s = 2) \<and> cs_script_len s \<le> 100 \<and> length (cs_head s) < cs_script_len s \<and>
    cs_script_len s \<le> length (cs_head s) + 32 \<and> parse_outputs (cs_outputs_bytes s) = Inr (cs_outputs s) \<and>
    cs_prefix s = to_le_bytes (cs_tx_version s) @ [1] @ replicate 32 0 @ replicate 4 0xff @ [word_of_nat (cs_script_len s)] @ cs_head s \<and>
    cs_suffix s = to_le_bytes (cs_sequence s) @ cs_outputs_bytes s @ to_le_bytes (cs_locktime s) \<and>
    65 \<le> length (cs_prefix s) + shape_extranonce_len s + length (cs_suffix s) \<and> strip_bip141 prefix suffix = Inr (cs_prefix s, cs_suffix s)"
  unfolding shape_parse_iff shape_wf_def shape_front_def shape_back_def by blast

text \<open>C6. A pushed solution is a block or nothing: the pool builds one from a solution exactly when it names the job's parent and bits at a time the
  network allows these bits, its extranonce has the declared length, its hash meets the target and the block fits; and
  then the block is the header over the tree of the rebuilt coinbase and all declared transactions, followed by them.\<close>

theorem solved_blocks_exact:
  assumes "hash32 sha" and "length (tm_previous_hash ctx) = 32" and "dj_template job = declared_for sha ctx version txs"
  shows "job_solved sha job sol = Some (h, block) \<longleftrightarrow>
    so_prev_hash sol = tm_previous_hash ctx \<and> so_nbits sol = tm_bits ctx \<and> \<not> wrong_bits (dj_template job) (so_ntime sol) \<and>
    length (so_extranonce sol) = shape_extranonce_len (dj_shape job) \<and> tm_min_time ctx \<le> so_ntime sol \<and>
    (\<exists>coinbase header. coinbase = cs_prefix (dj_shape job) @ so_extranonce sol @ cs_suffix (dj_shape job) \<and>
      header = declared_header sha ctx (so_version sol) coinbase txs (so_ntime sol) (so_nonce sol) \<and> h = double_sha256 sha header \<and>
      meets_target h (tm_target ctx) \<and> check_block_size (dj_template job) (length coinbase) = Inr () \<and> block = declared_block header coinbase txs)"
  by (rule job_solved_iff [OF assms])

section \<open>A declaration with one token\<close>

definition split_entry :: SetEntry where
  "split_entry = \<lparr>se_token = split_token, se_state = demo_state\<rparr>"

definition split_set :: "Layout \<Rightarrow> TokenSet" where
  "split_set layout = \<lparr>ts_entries = [split_entry], ts_layout = layout, ts_easiest = replicate 32 0, ts_serial = 1, ts_dropped = [], ts_threads = []\<rparr>"

definition declared_demo :: "Layout \<Rightarrow> BchTemplate" where
  "declared_demo layout = declare_plan demo_plan (commit_tokens (split_set layout) (demo_template []))"

lemma declared_demo_fields:
  "tm_p2pool (declared_demo l) = None" "tm_jd (declared_demo l) = Some demo_plan" "\<not> is_safa (declared_demo l)" "tm_tokens (declared_demo l) = Some (split_set l)"
  "tm_coinbase_value (declared_demo l) = 312500000" "script_head (declared_demo l) = [1, 17]" "coinbase_budget (declared_demo l) = 1153"
  by (simp_all add: declared_demo_def declare_plan_def commit_tokens_def demo_template_def is_safa_def token_job_def script_head_def height_17
      coinbase_budget_def transaction_count_def tm_compact_size_def txs_size_def saturating_sub_def)

lemma demo_plan_ok:
  "plan_is_valid demo_plan" "\<not> jp_p2pool demo_plan" "list_all (\<lambda>script. plain_script script \<and> length script \<le> 10000) (jp_scripts demo_plan)"
  "length (jp_upstream_prefix demo_plan) + plan_rollable demo_plan = 32"
  by (simp_all add: plan_is_valid_def demo_plan_def plain_script_def get_byte_def COMMITMENT_HEAD_def plan_rollable_def plan_layout_def DEVICE_EXTRANONCE_SIZE_def)

lemma demo_declared_aux:
  obtains terms where "declared_aux one_sha (declared_demo l) = Inr (Some (job_build one_sha (split_set l) terms))" "split_wf (lt_split terms)" "lt_payout terms = [0x51]"
proof -
  have h: "double_sha256 one_sha s = replicate 32 1" for s by (simp add: double_sha256_def one_sha_def)
  obtain aux where a: "declared_aux one_sha (declared_demo l) = Inr aux" "aux \<noteq> None"
    by (simp add: declared_aux_def declared_demo_fields is_p2pool_def plan_token_payout_def plan_slot_def plan_script_def slot_new_def slot_from_hash_def
        MAX_BPS_def h ZERO_HASH_def ok_or_def demo_plan_def)
  show thesis
    by (cases rule: declared_aux_cases [OF a(1) declared_demo_fields(2) demo_plan_ok(1,2)])
      (use a that declared_demo_fields(4) [of l] plan_slot_wf [OF one_sha_hash32] in \<open>auto simp: split_wf_def demo_plan_rule demo_rule_def\<close>)
qed

lemma split_set_shown:
  assumes l: "search_entries one_sha [split_entry] = Some l" and "split_wf (lt_split terms)"
  shows "set_shown one_sha (\<lambda>_. Some split_token) (split_set l) (job_build one_sha (split_set l) terms)"
proof -
  let ?ts = "split_set l" and ?job = "job_build one_sha (split_set l) terms"
  have s: "search_entries one_sha (ts_entries ?ts) = Some (ts_layout ?ts)" "ts_entries ?ts = [split_entry]" "ts_threads ?ts = []"
    using l by (simp_all add: split_set_def)
  note L = search_entries_layout [OF s(1)]
  obtain k where k: "l_slots (ts_layout ?ts) = [k]" using L(2) by (cases "l_slots (ts_layout ?ts)") (auto simp: s)
  have ext: "length (split_ext one_sha (lt_split terms)) = 32" by (simp add: split_ext_def one_sha_def double_sha256_def ZERO_HASH_def)
  then have w: "list_all (\<lambda>e. leaf_wf (ae_leaf e)) (aj_entries ?job)"
    by (simp add: job_build_simps s k job_entry_def set_threads_def leaf_new_def leaf_wf_def split_entry_def split_token_def demo_state_def
        double_sha256_def one_sha_def)
  have ne: "ts_entries ?ts \<noteq> []" by (simp add: s)
  note R = disclosure_of_job [OF s(1) ne, of terms]
  have h: "ac_height (aj_commitment ?job) \<le> MAX_HEIGHT" using L(5) by (simp add: job_build_simps(3) min_def split: if_splits)
  have n: "0 < length (dc_leaves (disclosure_from_job ?job))" by (simp add: disclosure_from_job_def job_build_simps s k)
  have "leaf_hash one_sha l = replicate 32 1" for l by (simp add: leaf_hash_def one_sha_def)
  then have "ac_root (aj_commitment ?job) = replicate 32 1" using disclosed_branch(1) [OF R(1) n h] by (simp add: one_fold)
  then show ?thesis using s(1) w by (simp add: set_shown_def s(2) split_entry_def split_token_def ZERO_HASH_def)
qed

lemma demo_declared_parts:
  assumes "declared_aux one_sha (declared_demo l) = Inr (Some job)" and "commitment_wf (aj_commitment job)" and "aj_output job = commitment_output (aj_commitment job)"
  shows "\<exists>parts. declared_parts one_sha (declared_demo l) = Inr parts \<and> length (pa_suffix parts) < 2 ^ 64"
proof -
  let ?t = "declared_demo l"
  have plain: "list_all plain_script (jp_scripts demo_plan)" using demo_plan_ok(3) by (auto simp: list_all_iff)
  have "(312500000 :: u64) \<le> MAX_MONEY" by (simp add: MAX_MONEY_def)
  then obtain outs where outs: "plan_outputs demo_plan 312500000 = Some outs" "map snd outs = [[0x51], [0x52], [0x53]]"
    using valid_plan_pays [OF demo_plan_ok(1,2) _ plain] by (force simp: demo_plan_def)
  obtain a b c where o: "outs = [(a, [0x51]), (b, [0x52]), (c, [0x53])]" using outs(2) by (auto simp: map_eq_Cons_conv)
  have c: "length (aj_output job) = 53"
    using assms(2,3) by (simp add: commitment_output_def length_commitment_script)
  have size: "length (back_bytes ?t 32 outs (Some (aj_output job))) = 92"
    by (simp add: back_bytes_def declared_demo_fields count_of_def o tm_compact_size_def c tail_bytes_def output_bytes_def)
  then have "fits_template ?t 32 outs (Some (aj_output job)) = Inr ()"
    by (simp add: fits_template_def declared_demo_fields length_front_bytes count_of_def o check_block_size_def)
  then obtain cb where cb: "coinbase_with_outputs one_sha ?t (replicate 32 0) outs (Some (aj_output job)) = Inr cb"
    by (simp add: coinbase_with_outputs_eq Let_def)
  have p: "declared_parts one_sha ?t = Inr (split_coinbase ?t cb 32)"
    using assms(1) outs(1) cb
    by (simp add: declared_parts_def check_p2pool_prepared_def is_p2pool_def declared_demo_fields demo_plan_ok ok_or_def Let_def)
  note P = declared_parts_of [OF declared_demo_fields(1-3) assms(1) _ demo_plan_ok(4) [symmetric] p]
  show ?thesis using p P(3) [of outs] outs(1) size by (simp add: declared_demo_fields)
qed

theorem declared_job_is_accepted_witness:
  "\<exists>layout aux parts outs shape. declared_aux one_sha (declared_demo layout) = Inr (Some aux) \<and> aj_entries aux \<noteq> [] \<and>
     declared_parts one_sha (declared_demo layout) = Inr parts \<and> declared_outputs one_sha (declared_demo layout) = Inr outs \<and>
     shape_parse (pa_prefix parts) (pa_suffix parts) = Inr shape \<and> cs_outputs shape = outs \<and> cs_head shape = [1, 17] \<and>
     rule_check demo_rule outs = Inr 312500000 \<and>
     check_leaves_with one_sha (\<lambda>_. Some split_token) demo_rule outs (disclosure_encode (disclosure_from_job aux)) = Inr ()"
proof -
  obtain l where l: "search_entries one_sha [split_entry] = Some l" using search_entries_one by blast
  let ?t = "declared_demo l"
  obtain terms where a: "declared_aux one_sha ?t = Inr (Some (job_build one_sha (split_set l) terms))" "split_wf (lt_split terms)"
    by (rule demo_declared_aux)
  let ?job = "job_build one_sha (split_set l) terms"
  note s = split_set_shown [OF l a(2)]
  have w: "commitment_wf (aj_commitment ?job)" "aj_output ?job = commitment_output (aj_commitment ?job)"
    using job_aux_wf [OF one_sha_hash32 s] by (simp_all add: aux_wf_def)
  obtain parts where p: "declared_parts one_sha ?t = Inr parts" "length (pa_suffix parts) < 2 ^ 64" using demo_declared_parts [OF a(1) w] by blast
  have m: "tm_coinbase_value ?t \<le> MAX_MONEY" by (simp add: declared_demo_fields MAX_MONEY_def)
  have n: "(32 :: nat) \<le> 32" "15 \<le> length (script_head ?t) + 32" by simp_all
  have k: "\<forall>ts job. tm_tokens ?t = Some ts \<and> Some ?job = Some job \<longrightarrow> set_shown one_sha (\<lambda>_. Some split_token) ts job"
    using s by (simp add: declared_demo_fields)
  have "aj_entries ?job \<noteq> []"
    using search_entries_layout(2) [of one_sha "[split_entry]" l] l by (auto simp: job_build_simps split_set_def)
  moreover obtain outs shape where "declared_outputs one_sha ?t = Inr outs" "shape_parse (pa_prefix parts) (pa_suffix parts) = Inr shape" "cs_outputs shape = outs"
    "cs_head shape = [1, 17]" "rule_check demo_rule outs = Inr 312500000"
    "check_leaves_with one_sha (\<lambda>_. Some split_token) demo_rule outs (disclosure_encode (disclosure_from_job ?job)) = Inr ()"
    using declared_job_is_accepted [OF one_sha_hash32 declared_demo_fields(2) demo_plan_ok(1,2) declared_demo_fields(1,3) m demo_plan_ok(3)
        demo_plan_ok(4) [symmetric] n a(1) k p] by (auto simp: declared_demo_fields demo_plan_rule excess_of_def)
  ultimately show ?thesis using a(1) p(1) by blast
qed

definition solved_context :: BchTemplate where
  "solved_context = (demo_template (replicate 32 255))\<lparr>tm_current_time := 1000\<rparr>"

definition solved_job :: DeclaredJob where
  "solved_job = \<lparr>dj_shape = \<lparr>cs_tx_version = 2, cs_head = [1, 17], cs_script_len = 18, cs_sequence = 0xffffffff, cs_outputs = [(312500000, [0x51])],
       cs_outputs_bytes = serialize_outputs [(312500000, [0x51])], cs_locktime = 0, cs_prefix = shape_front 2 18 [1, 17],
       cs_suffix = shape_back 0xffffffff (serialize_outputs [(312500000, [0x51])]) 0\<rparr>,
     dj_template = declared_for one_sha solved_context 2 []\<rparr>"

definition solution_of :: "nat \<Rightarrow> Solution" where
  "solution_of n = \<lparr>so_extranonce = replicate n 7, so_prev_hash = replicate 32 0, so_nonce = 5, so_ntime = 1000, so_nbits = 0x03000001, so_version = 2\<rparr>"

theorem solved_blocks_exact_witness:
  "(\<exists>block. job_solved one_sha solved_job (solution_of 16) = Some (replicate 32 1, block)) \<and>
   (\<nexists>block. job_solved one_sha solved_job (solution_of 15) = Some (replicate 32 1, block))"
proof -
  have c: "length (tm_previous_hash solved_context) = 32" "dj_template solved_job = declared_for one_sha solved_context 2 []"
    by (simp_all add: solved_context_def demo_template_def solved_job_def)
  have n: "shape_extranonce_len (dj_shape solved_job) = 16" by (simp add: solved_job_def shape_extranonce_len_def)
  have w: "\<not> wrong_bits (dj_template solved_job) 1000"
    by (simp add: c(2) declared_for_def declared_template_def solved_context_def demo_template_def wrong_bits_def stale_bits_def stale_from_def MIN_DIFFICULTY_BITS_def)
  have r: "replicate 32 (a :: u8) = a # replicate 31 a" for a using replicate_Suc [of 31 a] by simp
  have "cmp_le (replicate 32 1) (replicate 32 255)" unfolding r by simp
  then have m: "meets_target (double_sha256 one_sha h) (tm_target solved_context)" for h
    by (simp add: solved_context_def demo_template_def meets_target_def double_sha256_def one_sha_def)
  have s: "check_block_size (dj_template solved_job) (length (cs_prefix (dj_shape solved_job) @ replicate 16 7 @ cs_suffix (dj_shape solved_job))) = Inr ()"
    by (simp add: c(2) check_block_size_def coinbase_budget_def declared_for_def declared_template_def solved_context_def demo_template_def
        transaction_count_def tm_compact_size_def txs_size_def saturating_sub_def solved_job_def shape_front_def shape_back_def
        serialize_outputs_def write_compact_size_def)
  note X = solved_blocks_exact [OF one_sha_hash32 c]
  show ?thesis unfolding X using n w m s
    by (simp add: solution_of_def solved_context_def demo_template_def double_sha256_def one_sha_def)
qed

end
