(* ===== verification/P2pool.thy ===== *)
theory P2pool
  imports Declared
begin

text \<open>
  The P2Pool coinbase, from \<open>src/p2pool/jd.rs\<close>: a token taken from the queue, the request to the P2Pool process and the check of what
  it prepared; and the queue's replenishment by the Job Declaration client (\<open>src/stratum_v2/jd/client.rs\<close>). Hex and the process's
  reply are arguments.
\<close>

section \<open>What P2Pool prepared\<close>

record P2Auxiliary =
  px_merkle_root :: hash
  px_tree_size :: u32
  px_aux_nonce :: u32

record P2Reply =
  rp_version :: u8
  rp_token_hash :: string
  rp_anchor :: string
  rp_height :: u32
  rp_coinbase_value :: u64
  rp_coinbase_prefix :: string
  rp_coinbase_suffix :: string
  rp_extranonce_size :: u8

datatype p2_error =
  NoJobToken | UnsupportedToken | HelperFailed | ReplyMismatch | ReplyHex | ReplyShape refusal | LayoutChanged | HeightZero
  | CommitmentsMissing | AuxChanged

fun sum_amounts :: "u64 \<Rightarrow> (u64 \<times> bytes) list \<Rightarrow> u64 option" where
  "sum_amounts acc [] = Some acc"
| "sum_amounts acc ((amount, _) # rest) = Option.bind (checked_add acc amount) (\<lambda>acc. sum_amounts acc rest)"

definition p2_expected :: "P2Auxiliary \<Rightarrow> bytes" where
  "p2_expected aux = [0x6a, 44, 0xfa, 0xbe, 0x6d, 0x6d] @ px_merkle_root aux @ to_le_bytes (px_tree_size aux) @ to_le_bytes (px_aux_nonce aux)"

definition p2_validate ::
  "(bytes \<Rightarrow> bytes) \<Rightarrow> (string \<Rightarrow> bytes option) \<Rightarrow> (bytes \<Rightarrow> string) \<Rightarrow> P2Reply \<Rightarrow> bytes \<Rightarrow> u32 \<Rightarrow> u64 \<Rightarrow> bytes \<Rightarrow> P2Auxiliary
   \<Rightarrow> (p2_error, Prepared) result" where
  "p2_validate sha hex_decode hex_encode reply token height value prefix aux =
     (if rp_version reply \<noteq> 1 \<or> rp_extranonce_size reply \<noteq> 12 \<or> rp_height reply \<noteq> height \<or> rp_coinbase_value reply \<noteq> value \<or>
         rp_token_hash reply \<noteq> hex_encode (sha token) \<or> rp_anchor reply \<noteq> hex_encode (rev (subrange token 33 65)) \<or>
         utf8_len (rp_coinbase_prefix reply) > 131070 \<or> utf8_len (rp_coinbase_suffix reply) > 131070
      then Inl ReplyMismatch else
      result_bind (ok_or ReplyHex (hex_decode (rp_coinbase_prefix reply))) (\<lambda>head.
      result_bind (ok_or ReplyHex (hex_decode (rp_coinbase_suffix reply))) (\<lambda>tail.
      result_bind (case shape_parse head tail of Inl e \<Rightarrow> Inl (ReplyShape e) | Inr shape \<Rightarrow> Inr shape) (\<lambda>coinbase.
      if cs_prefix coinbase \<noteq> head \<or> cs_suffix coinbase \<noteq> tail \<or> cs_tx_version coinbase \<noteq> 2 \<or> cs_sequence coinbase \<noteq> 0xfffffffe
      then Inl LayoutChanged else
      result_bind (ok_or HeightZero (checked_sub height 1)) (\<lambda>before.
      if cs_locktime coinbase \<noteq> before \<or> shape_extranonce_len coinbase \<noteq> 12 \<or> cs_head coinbase \<noteq> prefix \<or>
         sum_amounts 0 (cs_outputs coinbase) \<noteq> Some value
      then Inl LayoutChanged
      else if length (cs_outputs coinbase) < 3 then Inl CommitmentsMissing
      else let (amount, script) = cs_outputs coinbase ! (length (cs_outputs coinbase) - 3)
           in if amount \<noteq> 0 \<or> script \<noteq> p2_expected aux then Inl AuxChanged
              else Inr \<lparr>prd_token = token, prd_coinbase = coinbase\<rparr>)))))"

record P2Request =
  rq_token :: bytes
  rq_payout :: string
  rq_share_owner :: string
  rq_height :: u32
  rq_bits :: u32
  rq_value :: u64
  rq_previous_hash :: bytes
  rq_prefix :: bytes
  rq_auxiliary :: P2Auxiliary

record P2Plan =
  pp_api :: string
  pp_payout :: string
  pp_share_owner :: string
  pp_tokens :: "bytes list"
  pp_consumed :: nat

text \<open>The two effects of a preparation on the plan: the token taken under the lock, and its count, which may come later than another thread's step.\<close>

definition p2_take :: "P2Plan \<Rightarrow> (bytes \<times> P2Plan) option" where
  "p2_take plan = (case pp_tokens plan of [] \<Rightarrow> None | token # rest \<Rightarrow> Some (token, plan\<lparr>pp_tokens := rest\<rparr>))"

definition p2_count :: "P2Plan \<Rightarrow> P2Plan" where
  "p2_count plan = plan\<lparr>pp_consumed := pp_consumed plan + 1\<rparr>"

definition p2_auxiliary :: "(hash \<times> u32 \<times> u32) option \<Rightarrow> P2Auxiliary" where
  "p2_auxiliary auxiliary =
     (case auxiliary of
        None \<Rightarrow> \<lparr>px_merkle_root = replicate 32 0, px_tree_size = 0, px_aux_nonce = 0\<rparr>
      | Some (mroot, tree_size, nonce) \<Rightarrow> \<lparr>px_merkle_root = mroot, px_tree_size = tree_size, px_aux_nonce = nonce\<rparr>)"

text \<open>\<open>ask\<close> is the reply of the process at an address to a request, where one came and was read.\<close>

definition p2_prepare ::
  "(bytes \<Rightarrow> bytes) \<Rightarrow> (string \<Rightarrow> bytes option) \<Rightarrow> (bytes \<Rightarrow> string) \<Rightarrow> (string \<Rightarrow> P2Request \<Rightarrow> P2Reply option) \<Rightarrow> u32 \<Rightarrow> u32 \<Rightarrow> hash
   \<Rightarrow> u64 \<Rightarrow> bytes \<Rightarrow> (hash \<times> u32 \<times> u32) option \<Rightarrow> P2Plan \<Rightarrow> (p2_error, Prepared) result \<times> P2Plan" where
  "p2_prepare sha hex_decode hex_encode ask height bits previous_hash value prefix auxiliary plan =
     (case p2_take plan of
        None \<Rightarrow> (Inl NoJobToken, plan)
      | Some (token, plan) \<Rightarrow>
          (let plan = p2_count plan
           in (if get_byte token 0 \<noteq> Some 1 \<or> \<not> (65 \<le> length token \<and> length token \<le> 255) then Inl UnsupportedToken
               else let aux = p2_auxiliary auxiliary;
                        request = \<lparr>rq_token = token, rq_payout = pp_payout plan, rq_share_owner = pp_share_owner plan, rq_height = height,
                          rq_bits = bits, rq_value = value, rq_previous_hash = rev previous_hash, rq_prefix = prefix, rq_auxiliary = aux\<rparr>
                    in result_bind (ok_or HelperFailed (ask (pp_api plan) request)) (\<lambda>reply.
                       p2_validate sha hex_decode hex_encode reply token height value prefix aux), plan)))"

section \<open>Keeping tokens ahead\<close>


text \<open>A session's start: \<open>TOKENS_AHEAD\<close> tokens asked for, the first in the queue. \<open>waiting\<close> counts requests not answered yet.\<close>

record P2Session =
  ps_plan :: P2Plan
  ps_requests :: u32
  ps_waiting :: nat


text \<open>One \<open>allocate\<close> sends a request under the next id; the loop sends one for every token used up since.\<close>

definition p2_allocate :: "P2Session \<Rightarrow> P2Session" where
  "p2_allocate s = s\<lparr>ps_requests := ps_requests s + 1, ps_waiting := ps_waiting s + 1\<rparr>"

definition p2_replenish :: "P2Session \<Rightarrow> P2Session" where
  "p2_replenish s = (p2_allocate ^^ pp_consumed (ps_plan s)) (s\<lparr>ps_plan := (ps_plan s)\<lparr>pp_consumed := 0\<rparr>\<rparr>)"



section \<open>The queue under two threads\<close>

text \<open>\<open>prepare\<close> runs beside the client's loop: it pops a token under the lock and counts it afterwards, so a run may stop in between.\<close>

lemma prepare_plan:
  assumes "p2_prepare sha hex_decode hex_encode ask height bits prev val prefix aux plan = (r, plan')"
  shows "plan' = (case p2_take plan of None \<Rightarrow> plan | Some (token, plan) \<Rightarrow> p2_count plan)"
  using assms by (auto simp: p2_prepare_def Let_def split: option.splits prod.splits)




lemma allocate_pow: "(p2_allocate ^^ n) s = s\<lparr>ps_requests := ps_requests s + word_of_nat n, ps_waiting := ps_waiting s + n\<rparr>"
  by (induction n) (simp_all add: p2_allocate_def algebra_simps)

lemma replenish_fields [simp]:
  "pp_tokens (ps_plan (p2_replenish s)) = pp_tokens (ps_plan s)" "pp_consumed (ps_plan (p2_replenish s)) = 0"
  "ps_waiting (p2_replenish s) = ps_waiting s + pp_consumed (ps_plan s)"
  by (simp_all add: p2_replenish_def allocate_pow)





section \<open>What a prepared coinbase says\<close>

lemma sum_amounts_nat: "sum_amounts acc outs = Some v \<Longrightarrow> unat v = unat acc + paid_total outs"
proof (induction acc outs rule: sum_amounts.induct)
  case (2 acc amount script rest)
  then obtain w where w: "checked_add acc amount = Some w" "sum_amounts w rest = Some v" by (auto simp: bind_eq_Some_conv)
  with 2 show ?case by (simp add: unat_checked_add [OF w(1)] paid_total_def)
qed (simp add: paid_total_def)

lemma p2_validate_Inr:
  assumes "p2_validate sha hex_decode hex_encode reply token height val prefix aux = Inr p"
  shows "prd_token p = token" and "shape_wf (prd_coinbase p)" and "cs_head (prd_coinbase p) = prefix" and "shape_extranonce_len (prd_coinbase p) = 12"
    and "paid_total (cs_outputs (prd_coinbase p)) = unat val" and "unat (cs_locktime (prd_coinbase p)) + 1 = unat height"
    and "rp_token_hash reply = hex_encode (sha token)"
    and "3 \<le> length (cs_outputs (prd_coinbase p))"
    and "cs_outputs (prd_coinbase p) ! (length (cs_outputs (prd_coinbase p)) - 3) = (0, p2_expected aux)"
proof -
  from assms obtain head tail c b where x: "shape_parse head tail = Inr c" "p = \<lparr>prd_token = token, prd_coinbase = c\<rparr>" "cs_head c = prefix"
    "shape_extranonce_len c = 12" "sum_amounts 0 (cs_outputs c) = Some val" "checked_sub height 1 = Some b" "cs_locktime c = b"
    "\<not> length (cs_outputs c) < 3" "rp_token_hash reply = hex_encode (sha token)"
    "fst (cs_outputs c ! (length (cs_outputs c) - 3)) = 0" "snd (cs_outputs c ! (length (cs_outputs c) - 3)) = p2_expected aux"
    unfolding p2_validate_def by (auto simp: result_bind_Inr_iff ok_or_Inr_iff lifted_Inr Let_def case_prod_unfold split: if_splits)
  show "prd_token p = token" "cs_head (prd_coinbase p) = prefix" "shape_extranonce_len (prd_coinbase p) = 12" "3 \<le> length (cs_outputs (prd_coinbase p))"
    "rp_token_hash reply = hex_encode (sha token)" "cs_outputs (prd_coinbase p) ! (length (cs_outputs (prd_coinbase p)) - 3) = (0, p2_expected aux)"
    using x by (simp_all add: prod_eq_iff)
  show "shape_wf (prd_coinbase p)" using shape_parse_wf(1) [OF x(1)] by (simp add: x(2))
  show "paid_total (cs_outputs (prd_coinbase p)) = unat val" using sum_amounts_nat [OF x(5)] by (simp add: x(2))
  show "unat (cs_locktime (prd_coinbase p)) + 1 = unat height" using x(6,7) unat_sub [of 1 height]
    by (auto simp: x(2) checked_sub_def word_le_nat_alt split: if_splits)
qed

lemma p2_prepare_Inr:
  assumes "p2_prepare sha hex_decode hex_encode ask height bits prev val prefix aux plan = (Inr p, plan')"
  obtains reply where "p2_validate sha hex_decode hex_encode reply (prd_token p) height val prefix (p2_auxiliary aux) = Inr p"
    "pp_tokens plan = prd_token p # pp_tokens plan'" "pp_consumed plan' = pp_consumed plan + 1"
proof -
  obtain token rest where t: "pp_tokens plan = token # rest" using assms by (cases "pp_tokens plan") (auto simp: p2_prepare_def p2_take_def)
  then have k: "p2_take plan = Some (token, plan\<lparr>pp_tokens := rest\<rparr>)" by (simp add: p2_take_def)
  from assms obtain reply where r: "p2_validate sha hex_decode hex_encode reply token height val prefix (p2_auxiliary aux) = Inr p"
    unfolding p2_prepare_def k option.case prod.case Let_def prod.inject by (auto simp: result_bind_Inr_iff ok_or_Inr_iff split: if_splits)
  have "plan' = p2_count (plan\<lparr>pp_tokens := rest\<rparr>)" using prepare_plan [OF assms] by (simp add: k)
  with r p2_validate_Inr(1) [OF r] t show thesis by (intro that [of reply]) (simp_all add: p2_count_def)
qed

lemma auxiliary_commitment:
  "p2_expected (p2_auxiliary auxiliary) = [0x6a, 44, 0xfa, 0xbe, 0x6d, 0x6d] @
    (case auxiliary of None \<Rightarrow> replicate 40 0 | Some (mroot, tree_size, nonce) \<Rightarrow> mroot @ to_le_bytes tree_size @ to_le_bytes nonce)"
  by (simp add: p2_expected_def p2_auxiliary_def zero_bytes numeral_eq_Suc split: option.splits prod.splits)



text \<open>C13. A prepared coinbase is this template's: whatever the P2Pool process replies, a coinbase is accepted for a template only with the token at the
  head of the queue, which is used up; it opens with the template's script and leaves 12 bytes for the extranonce, its
  outputs are worth the template to the satoshi, its locktime is the height before, and the third output from its end is the commitment asked for,
  or the commitment to nothing (40 zero bytes) where, as in every call of the program, none was; the template then serves its parts to devices.\<close>

theorem prepared_coinbase_is_ours:
  assumes "p2_prepare sha hex_decode hex_encode ask (tm_height t) (tm_bits t) (tm_previous_hash t) (tm_coinbase_value t) (script_head t)
      auxiliary plan = (Inr p, plan')" and "\<not> is_safa t"
  shows "pp_tokens plan = prd_token p # pp_tokens plan' \<and> pp_consumed plan' = pp_consumed plan + 1 \<and>
    cs_head (prd_coinbase p) = script_head t \<and> shape_extranonce_len (prd_coinbase p) = 12 \<and> shape_wf (prd_coinbase p) \<and>
    paid_total (cs_outputs (prd_coinbase p)) = unat (tm_coinbase_value t) \<and> unat (cs_locktime (prd_coinbase p)) + 1 = unat (tm_height t) \<and>
    3 \<le> length (cs_outputs (prd_coinbase p)) \<and>
    cs_outputs (prd_coinbase p) ! (length (cs_outputs (prd_coinbase p)) - 3) =
      (0, [0x6a, 44, 0xfa, 0xbe, 0x6d, 0x6d] @
        (case auxiliary of None \<Rightarrow> replicate 40 0 | Some (mroot, tree_size, nonce) \<Rightarrow> mroot @ to_le_bytes tree_size @ to_le_bytes nonce)) \<and>
    prepared_for (t\<lparr>tm_p2pool := Some p\<rparr>)"
proof -
  obtain reply where r: "p2_validate sha hex_decode hex_encode reply (prd_token p) (tm_height t) (tm_coinbase_value t) (script_head t)
      (p2_auxiliary auxiliary) = Inr p" "pp_tokens plan = prd_token p # pp_tokens plan'" "pp_consumed plan' = pp_consumed plan + 1"
    by (rule p2_prepare_Inr [OF assms(1)])
  note V = p2_validate_Inr [OF r(1)]
  have "cs_prefix (prd_coinbase p) = shape_front (cs_tx_version (prd_coinbase p)) (cs_script_len (prd_coinbase p)) (script_head t)"
    using V(2,3) by (simp add: shape_wf_def)
  then have "prepared_for (t\<lparr>tm_p2pool := Some p\<rparr>)"
    using assms(2) by (simp add: prepared_for_def shape_front_def is_safa_def token_job_def script_head_def)
  then show ?thesis using V r(2,3) by (simp add: auxiliary_commitment)
qed

section \<open>One preparation\<close>








definition fixture_outputs :: "(u64 \<times> bytes) list" where
  "fixture_outputs = [(312500000, [0x51]), (0, p2_expected (p2_auxiliary None)), (0, [0x6a, 32]), (0, [0x6a])]"

definition fixture_shape :: CoinbaseShape where
  "fixture_shape = \<lparr>cs_tx_version = 2, cs_head = [1, 17], cs_script_len = 14, cs_sequence = 0xfffffffe, cs_outputs = fixture_outputs,
     cs_outputs_bytes = serialize_outputs fixture_outputs, cs_locktime = 16, cs_prefix = shape_front 2 14 [1, 17],
     cs_suffix = shape_back 0xfffffffe (serialize_outputs fixture_outputs) 16\<rparr>"

definition fixture_reply :: P2Reply where
  "fixture_reply = \<lparr>rp_version = 1, rp_token_hash = '''', rp_anchor = '''', rp_height = 17, rp_coinbase_value = 312500000, rp_coinbase_prefix = ''p'',
     rp_coinbase_suffix = ''s'', rp_extranonce_size = 12\<rparr>"

definition fixture_hex :: "string \<Rightarrow> bytes option" where
  "fixture_hex s = (if s = ''p'' then Some (cs_prefix fixture_shape) else if s = ''s'' then Some (cs_suffix fixture_shape) else None)"

definition fixture_plan :: P2Plan where
  "fixture_plan = \<lparr>pp_api = ''api'', pp_payout = ''payout'', pp_share_owner = ''owner'', pp_tokens = [1 # replicate 75 0], pp_consumed = 0\<rparr>"

lemma fixture_shape_parse: "shape_parse (cs_prefix fixture_shape) (cs_suffix fixture_shape) = Inr fixture_shape"
proof (rule shape_parse_built)
  have l: "length (serialize_outputs fixture_outputs) < 2 ^ 64" "9 \<le> length (serialize_outputs fixture_outputs)"
    by (simp_all add: serialize_outputs_def fixture_outputs_def p2_expected_def p2_auxiliary_def write_compact_size_def)
  have "parse_outputs (serialize_outputs fixture_outputs) = Inr fixture_outputs"
    unfolding parse_outputs_iff [OF l(1)] by (simp add: fixture_outputs_def jd_output_ok_def MAX_MONEY_def p2_expected_def p2_auxiliary_def)
  moreover have "65 \<le> length (shape_front 2 14 [1, 17]) + 12 + length (shape_back 0xfffffffe (serialize_outputs fixture_outputs) 16)"
    using l(2) by (simp add: shape_front_def shape_back_def)
  ultimately show "shape_wf fixture_shape" by (simp add: shape_wf_def fixture_shape_def shape_extranonce_len_def)
qed

lemma fixture_prepares:
  "p2_prepare one_sha fixture_hex (\<lambda>_. '''') (\<lambda>_ _. Some fixture_reply) 17 bits prev 312500000 [1, 17] None fixture_plan =
    (Inr \<lparr>prd_token = 1 # replicate 75 0, prd_coinbase = fixture_shape\<rparr>, fixture_plan\<lparr>pp_tokens := [], pp_consumed := 1\<rparr>)"
proof -
  have s: "cs_tx_version fixture_shape = 2" "cs_sequence fixture_shape = 0xfffffffe" "cs_locktime fixture_shape = 16" "shape_extranonce_len fixture_shape = 12"
    "cs_head fixture_shape = [1, 17]" "cs_outputs fixture_shape = fixture_outputs"
    by (simp_all add: fixture_shape_def shape_extranonce_len_def)
  have "sum_amounts 0 fixture_outputs = Some 312500000" by (simp add: fixture_outputs_def checked_add_def)
  then have v: "p2_validate one_sha fixture_hex (\<lambda>_. '''') fixture_reply (1 # replicate 75 0) 17 312500000 [1, 17]
      (p2_auxiliary None) = Inr \<lparr>prd_token = 1 # replicate 75 0, prd_coinbase = fixture_shape\<rparr>"
    unfolding p2_validate_def using fixture_shape_parse s
    by (simp add: fixture_reply_def fixture_hex_def ok_or_def checked_sub_def utf8_len_def fixture_outputs_def)
  show ?thesis unfolding p2_prepare_def using v by (simp add: fixture_plan_def p2_take_def p2_count_def Let_def get_byte_def ok_or_def)
qed

theorem prepared_coinbase_is_ours_witness:
  "\<exists>p plan'. p2_prepare one_sha fixture_hex (\<lambda>_. '''') (\<lambda>_ _. Some fixture_reply) 17 0x03000001 (replicate 32 0) 312500000 [1, 17]
       None fixture_plan = (Inr p, plan') \<and> pp_tokens plan' = [] \<and> prepared_for ((demo_template [])\<lparr>tm_p2pool := Some p\<rparr>)"
proof -
  have f: "tm_height (demo_template []) = 17" "tm_bits (demo_template []) = 0x03000001" "tm_previous_hash (demo_template []) = replicate 32 0"
    "tm_coinbase_value (demo_template []) = 312500000" "\<not> is_safa (demo_template [])"
    by (simp_all add: demo_template_def is_safa_def token_job_def)
  note P = fixture_prepares [of "0x03000001" "replicate 32 0"]
  have "p2_prepare one_sha fixture_hex (\<lambda>_. '''') (\<lambda>_ _. Some fixture_reply) (tm_height (demo_template [])) (tm_bits (demo_template []))
      (tm_previous_hash (demo_template [])) (tm_coinbase_value (demo_template [])) (script_head (demo_template [])) None fixture_plan =
      (Inr \<lparr>prd_token = 1 # replicate 75 0, prd_coinbase = fixture_shape\<rparr>, fixture_plan\<lparr>pp_tokens := [], pp_consumed := 1\<rparr>)"
    unfolding f demo_head_length(1) by (rule P)
  from prepared_coinbase_is_ours [OF this f(5)] P show ?thesis by (intro exI conjI) (rule P, simp_all)
qed

end
