(* ===== verification/Channels.thy ===== *)
theory Channels
  imports P2pool
begin

text \<open>
  Channels, from \<open>src/stratum_v2/channel.rs\<close>: the jobs a device mines, the target it mines at, and the check of every share, with its
  duplicates, blocks, token wins and what is forwarded to an upstream pool.

  Random bytes are an argument, and so is whether the clock reads. Hash rates are floating point and are never computed with here: a rate is its
  32 bits, and \<open>Vardiff\<close> holds what the vardiff package and the comparisons of rates say in one call. Of that package's state the count of
  shares is kept; its clock is the time elapsed. The
  set of hashes seen on a job is a list without repetition. The text of an error is its constructor; a slice out of range is \<open>SharePanics\<close>.
\<close>

section \<open>Data\<close>

definition MAX_SHARES_PER_JOB :: nat where "MAX_SHARES_PER_JOB = 16384"
definition MAX_ACTIVE_JOBS :: nat where "MAX_ACTIVE_JOBS = 8"
definition VARDIFF_SHARES :: u32 where "VARDIFF_SHARES = 72"
definition VARDIFF_SECONDS :: u64 where "VARDIFF_SECONDS = 240"
definition VARDIFF_SILENT_SECONDS :: u64 where "VARDIFF_SILENT_SECONDS = 60"
definition TOKEN_FLOOR_CAP :: u8 where "TOKEN_FLOOR_CAP = 15"

type_synonym f32 = u32

datatype ChannelKind = Standard | Extended

datatype JobKind = OwnJob | CustomJob (min_ntime: u32)

record Job =
  jb_id :: u32
  jb_generation :: u64
  jb_template :: BchTemplate
  jb_standard_coinbase :: Coinbase
  jb_parts :: CoinbaseParts
  jb_target :: hash
  jb_payout :: BchPayout
  jb_aux :: "AuxJob option"
  jb_kind :: JobKind

datatype token_refusal = TokensRefused refused | OwnRootRefused own_root_error | NoMinerScript | AuditRefused disclosure_error

record Channel =
  ch_id :: u32
  ch_kind :: ChannelKind
  ch_target :: hash
  ch_extranonce_prefix :: bytes
  ch_network :: MiningNetwork
  ch_payout :: string
  ch_operator :: "string option"
  ch_job :: "Job option"
  ch_previous :: "Job list"
  ch_sequence :: "u32 option"
  ch_seen :: "(u32 \<times> hash list) list"
  ch_accepted :: u64
  ch_rejected :: u64
  ch_desired :: hash
  ch_vardiff_target :: hash
  ch_vardiff_shares :: u32
  ch_hashrate :: f32
  ch_custom_only :: bool
  ch_rolled :: nat
  ch_compact :: bool
  ch_donation :: "BchDonation option"
  ch_token_refusal :: "token_refusal option"

record Share =
  sh_channel_id :: u32
  sh_job_id :: u32
  sh_sequence :: u32
  sh_version :: u32
  sh_time :: u32
  sh_nonce :: u32
  sh_extranonce :: bytes

record ForwardShare =
  fw_donation :: bool
  fw_serial :: u64
  fw_version :: u32
  fw_ntime :: u32
  fw_nonce :: u32
  fw_extranonce :: bytes
  fw_hash :: hash
  fw_block :: bool

record ValidatedShare =
  vs_generation :: u64
  vs_template :: BchTemplate
  vs_coinbase :: Coinbase
  vs_header :: bytes
  vs_block :: bool
  vs_share_target :: hash
  vs_payout :: BchPayout
  vs_miner :: string
  vs_operator :: "string option"
  vs_hash :: hash
  vs_aux :: "AuxJob option"
  vs_token_wins :: "u16 list"
  vs_merkle_path :: "hash list"
  vs_forward :: "ForwardShare option"
  vs_header_win :: bool

record TokenWin =
  tw_aux :: AuxJob
  tw_entries :: "u16 list"
  tw_coinbase :: bytes
  tw_merkle_path :: "hash list"
  tw_header :: bytes
  tw_hash :: hash
  tw_height :: u32
  tw_payout :: BchPayout
  tw_miner :: string
  tw_operator :: "string option"
  tw_declared :: "JdPlan option"

definition token_win :: "ValidatedShare \<Rightarrow> TokenWin option" where
  "token_win v =
     (if vs_token_wins v = [] then None
      else map_option (\<lambda>aux. \<lparr>tw_aux = aux, tw_entries = vs_token_wins v, tw_coinbase = cb_bytes (vs_coinbase v),
             tw_merkle_path = vs_merkle_path v, tw_header = vs_header v, tw_hash = vs_hash v, tw_height = tm_height (vs_template v),
             tw_payout = vs_payout v, tw_miner = vs_miner v, tw_operator = vs_operator v, tw_declared = tm_jd (vs_template v)\<rparr>) (vs_aux v))"

definition win_proof :: "TokenWin \<Rightarrow> u16 \<Rightarrow> (ProofError, AuxProof) result" where
  "win_proof w entry = assemble (tw_aux w) entry (tw_coinbase w) (tw_merkle_path w) (tw_header w)"

section \<open>Opening a channel\<close>

datatype channel_error = MaxTargetRange | InvalidPayout | InvalidClock | InvalidFeeAddress

definition channel_new ::
  "Addresses \<Rightarrow> bool \<Rightarrow> (hash \<Rightarrow> f32) \<Rightarrow> u32 \<Rightarrow> ChannelKind \<Rightarrow> hash \<Rightarrow> bytes \<Rightarrow> MiningNetwork \<Rightarrow> string \<Rightarrow> (channel_error, Channel) result" where
  "channel_new ad clock_reads rate i kind target session_salt network payout =
     (if target = replicate 32 0 then Inl MaxTargetRange else
      result_bind (ok_or InvalidPayout (ad_coinbase ad network payout)) (\<lambda>payout.
      if \<not> clock_reads then Inl InvalidClock else
      Inr \<lparr>ch_id = i, ch_kind = kind, ch_target = target, ch_extranonce_prefix = session_salt @ to_le_bytes i, ch_network = network,
           ch_payout = payout, ch_operator = None, ch_job = None, ch_previous = [], ch_sequence = None, ch_seen = [], ch_accepted = 0,
           ch_rejected = 0, ch_desired = target, ch_vardiff_target = target, ch_vardiff_shares = 0, ch_hashrate = rate target, ch_custom_only = False,
           ch_rolled = DEVICE_EXTRANONCE_SIZE, ch_compact = False, ch_donation = None, ch_token_refusal = None\<rparr>))"

definition set_lane :: "u32 \<Rightarrow> bool \<Rightarrow> Channel \<Rightarrow> Channel" where
  "set_lane lane short c =
     (let c = c\<lparr>ch_compact := short\<rparr>
      in if short then c\<lparr>ch_extranonce_prefix := to_le_bytes (ucast lane :: u16), ch_rolled := COMPACT_DEVICE_EXTRANONCE\<rparr>
         else c\<lparr>ch_extranonce_prefix := to_le_bytes lane, ch_rolled := DEVICE_EXTRANONCE_SIZE\<rparr>)"

definition set_custom_only :: "nat \<Rightarrow> Channel \<Rightarrow> Channel" where
  "set_custom_only rolled c = c\<lparr>ch_custom_only := True, ch_rolled := rolled\<rparr>"

definition rollable :: "Channel \<Rightarrow> nat" where
  "rollable c = ch_rolled c"

definition set_operator :: "Addresses \<Rightarrow> string option \<Rightarrow> Channel \<Rightarrow> (channel_error, unit) result \<times> Channel" where
  "set_operator ad operator c =
     (case operator of
        None \<Rightarrow> (Inr (), c\<lparr>ch_operator := None\<rparr>)
      | Some operator \<Rightarrow>
          (case ad_coinbase ad (ch_network c) operator of
             None \<Rightarrow> (Inl InvalidFeeAddress, c)
           | Some operator \<Rightarrow> (Inr (), c\<lparr>ch_operator := Some operator\<rparr>)))"

definition set_donation :: "BchDonation option \<Rightarrow> Channel \<Rightarrow> Channel" where
  "set_donation donation c = c\<lparr>ch_donation := donation\<rparr>"

section \<open>Jobs\<close>

definition own_root :: "AuxJob \<Rightarrow> bytes \<Rightarrow> CoinbaseParts \<Rightarrow> bytes \<Rightarrow> nat \<Rightarrow> (own_root_error, unit) result" where
  "own_root aux standard parts prefix rolled =
     result_bind (check_own_root standard (aj_commitment aux)) (\<lambda>_.
     check_own_root (pa_prefix parts @ prefix @ replicate rolled 0 @ pa_suffix parts) (aj_commitment aux))"

text \<open>A miner's own donation choice replaces the policy's.\<close>

definition own_policy :: "BchDonation option \<Rightarrow> BchPayout \<Rightarrow> BchPayout" where
  "own_policy donation payout =
     (case donation of
        None \<Rightarrow> payout
      | Some choice \<Rightarrow>
          if bp_donation payout = choice then payout
          else let work = (bp_donation_work payout \<and> rate_bps choice \<noteq> 0)
               in payout\<lparr>bp_donation := choice, bp_donation_work := work,
                    bp_token_donation_work := map_option (\<lambda>_. work) (bp_token_donation_work payout),
                    bp_token_fee_work := map_option (\<lambda>_. bp_fee_work payout) (bp_token_fee_work payout)\<rparr>)"

definition id_in_use :: "u32 \<Rightarrow> Channel \<Rightarrow> bool" where
  "id_in_use i c \<longleftrightarrow> (case ch_job c of None \<Rightarrow> False | Some job \<Rightarrow> jb_id job = i) \<or> list_ex (\<lambda>job. jb_id job = i) (ch_previous c)"

fun expire_jobs :: "Job list \<Rightarrow> (u32 \<times> hash list) list \<Rightarrow> Job list \<times> (u32 \<times> hash list) list" where
  "expire_jobs [] seen = ([], seen)"
| "expire_jobs (expired # rest) seen =
     (if length (expired # rest) \<ge> MAX_ACTIVE_JOBS then expire_jobs rest (filter (\<lambda>(i, _). i \<noteq> jb_id expired) seen) else (expired # rest, seen))"

definition retain_previous :: "BchTemplate \<Rightarrow> Channel \<Rightarrow> Channel" where
  "retain_previous t c =
     (case ch_job c of
        None \<Rightarrow> c
      | Some previous \<Rightarrow>
          if tm_previous_hash (jb_template previous) = tm_previous_hash t \<and> tm_bits (jb_template previous) = tm_bits t
          then let (kept, seen) = expire_jobs (ch_previous c @ [previous]) (ch_seen c)
               in c\<lparr>ch_job := None, ch_previous := kept, ch_seen := seen\<rparr>
          else c\<lparr>ch_job := None, ch_previous := [], ch_seen := []\<rparr>)"

datatype install_error = IdInUse | LayoutChange | FromTemplate tm_error | NotCustomChannel

definition job_extranonce :: "(nat \<Rightarrow> u8) \<Rightarrow> Channel \<Rightarrow> JdPlan option \<Rightarrow> bool \<Rightarrow> bytes" where
  "job_extranonce random c plan fresh =
     (let random_bytes = (\<lambda>n. map random [0..<n]);
          prefix = ch_extranonce_prefix c
      in if plan \<noteq> None \<and> ch_kind c = Standard
         then prefix @ (if fresh then random_bytes (ch_rolled c) else replicate (ch_rolled c) 0)
         else if fresh \<and> length prefix > 4
         then random_bytes (length prefix - 4) @ drop (length prefix - 4) prefix
         else prefix)"

definition job_audit ::
  "(bytes \<Rightarrow> bytes) \<Rightarrow> Addresses \<Rightarrow> Channel \<Rightarrow> AuxJob \<Rightarrow> (token_refusal, unit) result" where
  "job_audit sha ad c aux =
     (case ch_operator c of
        None \<Rightarrow> Inr ()
      | Some operator \<Rightarrow>
          (case payout_scripts ad (ch_network c) (ch_payout c) (Some operator) of
             Inl _ \<Rightarrow> Inl NoMinerScript
           | Inr scripts \<Rightarrow>
               (case audit_public sha (disclosure_from_job aux) (scripts ! 0) (scripts ! 1) (scripts ! 2) of
                  Inl e \<Rightarrow> Inl (AuditRefused e)
                | Inr u \<Rightarrow> Inr u)))"

text \<open>What opens the extranonce: the pool channel's prefix, the job id and the pad.\<close>

definition job_opening :: "BchTemplate \<Rightarrow> u32 \<Rightarrow> bytes" where
  "job_opening t i =
     (let (upstream, pad, id_bytes) =
            (case tm_jd t of None \<Rightarrow> ([], [], 4) | Some plan \<Rightarrow> (jp_upstream_prefix plan, jp_pad plan, fst (plan_layout plan)))
      in upstream @ take id_bytes (to_le_bytes i) @ pad)"

definition job_coinbases ::
  "(bytes \<Rightarrow> bytes) \<Rightarrow> Addresses \<Rightarrow> (nat \<Rightarrow> u8) \<Rightarrow> u32 \<Rightarrow> BchTemplate \<Rightarrow> BchPayout \<Rightarrow> AuxJob option \<Rightarrow> Channel
   \<Rightarrow> (tm_error, Coinbase \<times> CoinbaseParts) result" where
  "job_coinbases sha ad random i t payout aux c =
     (let fresh = (ch_kind c = Standard \<and> (case aux of None \<Rightarrow> False | Some job \<Rightarrow> \<not> job_is_empty job));
          start = job_opening t i;
          parts_extranonce = length start + length (ch_extranonce_prefix c) + ch_rolled c;
          extra = start @ job_extranonce random c (tm_jd t) fresh;
          commitment = map_option aj_output aux in
      result_bind (coinbase_with_aux sha ad t (ch_network c) (ch_payout c) (ch_operator c) extra payout commitment) (\<lambda>standard_coinbase.
      result_bind (coinbase_parts_with_aux sha ad t (ch_network c) (ch_payout c) (ch_operator c) parts_extranonce payout commitment) (\<lambda>parts.
      Inr (standard_coinbase, parts\<lparr>pa_prefix := pa_prefix parts @ start\<rparr>))))"

definition check_tokens ::
  "(bytes \<Rightarrow> bytes) \<Rightarrow> Addresses \<Rightarrow> Channel \<Rightarrow> Coinbase \<Rightarrow> CoinbaseParts \<Rightarrow> AuxJob \<Rightarrow> (token_refusal, unit) result" where
  "check_tokens sha ad c standard_coinbase parts aux =
     (case own_root aux (cb_bytes standard_coinbase) parts (ch_extranonce_prefix c) (ch_rolled c) of
        Inl e \<Rightarrow> Inl (OwnRootRefused e)
      | Inr _ \<Rightarrow> job_audit sha ad c aux)"

definition install_with_payout ::
  "(bytes \<Rightarrow> bytes) \<Rightarrow> Addresses \<Rightarrow> (nat \<Rightarrow> u8) \<Rightarrow> u32 \<Rightarrow> u64 \<Rightarrow> BchTemplate \<Rightarrow> BchPayout \<Rightarrow> Channel
   \<Rightarrow> (install_error, Job) result \<times> Channel" where
  "install_with_payout sha ad random i generation t payout c =
     (let payout = own_policy (ch_donation c) payout in
      if id_in_use i c then (Inl IdInUse, c)
      else if (case tm_jd t of None \<Rightarrow> False | Some plan \<Rightarrow> jp_compact plan \<noteq> ch_compact c) then (Inl LayoutChange, c)
      else
      case aux_job sha ad t (ch_network c) (ch_payout c) (ch_operator c) payout of
        Inl e \<Rightarrow> (Inl (FromTemplate e), c)
      | Inr aux \<Rightarrow>
      let c = (case tokens_refused t of Some reason \<Rightarrow> c\<lparr>ch_token_refusal := Some (TokensRefused reason)\<rparr> | None \<Rightarrow> c) in
      case job_coinbases sha ad random i t payout aux c of
        Inl e \<Rightarrow> (Inl (FromTemplate e), c)
      | Inr (standard_coinbase, parts) \<Rightarrow>
      let (aux, c) = (case map_option (check_tokens sha ad c standard_coinbase parts) aux of
                        Some (Inl reason) \<Rightarrow> (None, c\<lparr>ch_token_refusal := Some reason\<rparr>)
                      | _ \<Rightarrow> (aux, c));
          job = \<lparr>jb_id = i, jb_generation = generation, jb_template = t, jb_standard_coinbase = standard_coinbase, jb_parts = parts,
            jb_target = ch_target c, jb_payout = payout, jb_aux = aux, jb_kind = OwnJob\<rparr>
      in (Inr job, (retain_previous t c)\<lparr>ch_job := Some job\<rparr>))"

definition install :: "(bytes \<Rightarrow> bytes) \<Rightarrow> Addresses \<Rightarrow> (nat \<Rightarrow> u8) \<Rightarrow> u32 \<Rightarrow> u64 \<Rightarrow> BchTemplate \<Rightarrow> Channel \<Rightarrow> (install_error, Job) result \<times> Channel" where
  "install sha ad random i generation t c = install_with_payout sha ad random i generation t default_payout c"

definition install_custom ::
  "(bytes \<Rightarrow> bytes) \<Rightarrow> u32 \<Rightarrow> BchTemplate \<Rightarrow> CoinbaseParts \<Rightarrow> Channel \<Rightarrow> (install_error, Job) result \<times> Channel" where
  "install_custom sha i t parts c =
     (if \<not> ch_custom_only c then (Inl NotCustomChannel, c)
      else if id_in_use i c then (Inl IdInUse, c)
      else
      let bytes = pa_prefix parts @ ch_extranonce_prefix c @ replicate (rollable c) 0 @ pa_suffix parts;
          job = \<lparr>jb_id = i, jb_generation = 0, jb_template = t,
            jb_standard_coinbase = \<lparr>cb_bytes = bytes, cb_merkle_root = tm_fold sha (double_sha256 sha bytes) (pa_merkle_path parts)\<rparr>,
            jb_parts = parts, jb_target = ch_target c, jb_payout = default_payout, jb_aux = None, jb_kind = CustomJob (tm_min_time t)\<rparr>
      in (Inr job, (retain_previous t c)\<lparr>ch_job := Some job\<rparr>))"

definition revoke :: "Channel \<Rightarrow> Channel" where
  "revoke c = c\<lparr>ch_job := None, ch_previous := [], ch_seen := []\<rparr>"

section \<open>The target a device mines at\<close>

text \<open>\<open>target * scale\<close>, byte by byte with a carry of 16 bits.\<close>

fun times_from :: "u16 \<Rightarrow> u8 \<Rightarrow> bytes \<Rightarrow> bytes \<times> u16" where
  "times_from carry scale [] = ([], carry)"
| "times_from carry scale (byte # rest) =
     (let val = ucast byte * ucast scale + carry;
          (product, carry) = times_from (drop_bit 8 val) scale rest
      in (ucast val # product, carry))"

definition times_target :: "hash \<Rightarrow> u8 \<Rightarrow> hash" where
  "times_target target scale = (let (product, carry) = times_from 0 scale target in if carry = 0 then product else replicate 32 0xff)"

definition token_floor :: "hash \<Rightarrow> hash \<Rightarrow> hash" where
  "token_floor vardiff easiest = (let cap = times_target vardiff TOKEN_FLOOR_CAP in if meets_target easiest cap then easiest else cap)"

definition settle :: "hash \<Rightarrow> hash option \<Rightarrow> hash \<Rightarrow> Channel \<Rightarrow> bool \<times> Channel" where
  "settle block tokens maximum c =
     (let target = (if meets_target (ch_desired c) block then block else ch_desired c);
          target = (if \<not> meets_target target maximum then maximum else target);
          c = (if target \<noteq> ch_vardiff_target c then c\<lparr>ch_vardiff_target := target, ch_vardiff_shares := 0\<rparr> else c);
          target = (case map_option (token_floor target) tokens of
                      None \<Rightarrow> target
                    | Some floor_target \<Rightarrow>
                        if \<not> meets_target floor_target target
                        then (if meets_target floor_target maximum then floor_target else maximum)
                        else target)
      in if target = ch_target c then (False, c) else (True, c\<lparr>ch_target := target\<rparr>))"

definition floor_for :: "Channel \<Rightarrow> BchTemplate \<Rightarrow> hash option" where
  "floor_for c t = (if ch_custom_only c then None else map_option ts_easiest (tm_tokens t))"

definition job_floor :: "Channel \<Rightarrow> hash option" where
  "job_floor c = Option.bind (ch_job c) (\<lambda>job. Option.bind (jb_aux job) (\<lambda>_. floor_for c (jb_template job)))"

definition drop_token_floor :: "hash \<Rightarrow> Channel \<Rightarrow> bool \<times> Channel" where
  "drop_token_floor maximum c =
     (case ch_job c of
        None \<Rightarrow> (False, c)
      | Some job \<Rightarrow>
          let (changed, c) = settle (tm_target (jb_template job)) None maximum c
          in (changed, c\<lparr>ch_job := map_option (\<lambda>job. job\<lparr>jb_target := ch_target c\<rparr>) (ch_job c)\<rparr>))"

text \<open>
  The seconds since vardiff last counted afresh; its verdict on the shares, rate and target given (another rate, and the count it leaves); the
  target of a rate; whether a rate is at the floor; and whether one target is within a quarter of another, in expected hashes.
\<close>

record Vardiff =
  vd_elapsed :: u64
  vd_try :: "u32 \<Rightarrow> f32 \<Rightarrow> hash \<Rightarrow> f32 option \<times> u32"
  vd_rate_to_target :: "f32 \<Rightarrow> hash option"
  vd_at_floor :: "f32 \<Rightarrow> bool"
  vd_luck :: "hash \<Rightarrow> hash \<Rightarrow> bool"

definition vardiff_waits :: "u32 \<Rightarrow> u64 \<Rightarrow> bool" where
  "vardiff_waits counted elapsed \<longleftrightarrow>
     counted < VARDIFF_SHARES \<and> elapsed < VARDIFF_SECONDS \<and> \<not> (counted = 0 \<and> elapsed \<ge> VARDIFF_SILENT_SECONDS)"

definition retarget :: "Vardiff \<Rightarrow> hash \<Rightarrow> Channel \<Rightarrow> hash option \<times> Channel" where
  "retarget vd maximum c =
     (case ch_job c of
        None \<Rightarrow> (None, c)
      | Some job \<Rightarrow>
          if vardiff_waits (ch_vardiff_shares c) (vd_elapsed vd) then (None, c)
          else
          let (rate, left) = vd_try vd (ch_vardiff_shares c) (ch_hashrate c) (ch_vardiff_target c);
              c = c\<lparr>ch_vardiff_shares := left\<rparr>
          in (case rate of
                None \<Rightarrow> (None, c)
              | Some hashrate \<Rightarrow>
          (case vd_rate_to_target vd hashrate of
                None \<Rightarrow> (None, c)
              | Some desired \<Rightarrow>
                  if (if vd_at_floor vd hashrate then meets_target desired (ch_desired c) else vd_luck vd desired (ch_desired c)) then (None, c)
                  else
                  let (changed, c) = settle (tm_target (jb_template job)) (job_floor c) maximum (c\<lparr>ch_hashrate := hashrate, ch_desired := desired\<rparr>)
                  in (if changed then Some (ch_target c) else None, c))))"

definition take_token_refusal :: "Channel \<Rightarrow> token_refusal option \<times> Channel" where
  "take_token_refusal c = (ch_token_refusal c, c\<lparr>ch_token_refusal := None\<rparr>)"

text \<open>Big integers are natural numbers; a number of more than one 64-bit digit is over \<open>u64::MAX\<close>.\<close>

definition share_work :: "hash \<Rightarrow> u64" where
  "share_work target =
     (let hashes = 2 ^ 256 div (le_nat target + 1); work = hashes div 2 ^ 32 in if work \<ge> 2 ^ 64 then - 1 else word_of_nat work)"

section \<open>Shares\<close>

datatype share_error =
  InvalidChannelId | StaleShare | InvalidJobId | InvalidSequence | InvalidVersion | InvalidNtime | InvalidExtranonceSize
  | DifficultyTooLow | DuplicateShare | JobShareLimit | SharePanics

definition find_job :: "Channel \<Rightarrow> u32 \<Rightarrow> (share_error, Job) result" where
  "find_job c i =
     (case ch_job c of
        None \<Rightarrow> Inl StaleShare
      | Some current \<Rightarrow> if i = jb_id current then Inr current else ok_or InvalidJobId (List.find (\<lambda>job. jb_id job = i) (ch_previous c)))"

definition stale_sequence :: "Channel \<Rightarrow> Share \<Rightarrow> bool" where
  "stale_sequence c shr =
     (case ch_sequence c of None \<Rightarrow> False | Some before \<Rightarrow> let delta = sh_sequence shr - before in delta = 0 \<or> delta \<ge> 2 ^ 31)"

definition share_late :: "Job \<Rightarrow> Share \<Rightarrow> u32 \<Rightarrow> bool" where
  "share_late job shr now =
     (case jb_kind job of
        OwnJob \<Rightarrow> sh_time shr > saturating_add now 60
      | CustomJob start \<Rightarrow> sh_time shr > saturating_add (max now start) 60)"

definition share_coinbase :: "(bytes \<Rightarrow> bytes) \<Rightarrow> Channel \<Rightarrow> Job \<Rightarrow> Share \<Rightarrow> (share_error, Coinbase) result" where
  "share_coinbase sha c job shr =
     (case ch_kind c of
        Standard \<Rightarrow> if sh_extranonce shr \<noteq> [] then Inl InvalidExtranonceSize else Inr (jb_standard_coinbase job)
      | Extended \<Rightarrow>
          if length (sh_extranonce shr) \<noteq> rollable c then Inl InvalidExtranonceSize
          else let bytes = pa_prefix (jb_parts job) @ ch_extranonce_prefix c @ sh_extranonce shr @ pa_suffix (jb_parts job)
               in Inr \<lparr>cb_bytes = bytes, cb_merkle_root = tm_fold sha (double_sha256 sha bytes) (pa_merkle_path (jb_parts job))\<rparr>)"

definition share_block :: "Job \<Rightarrow> hash \<Rightarrow> u32 \<Rightarrow> bool" where
  "share_block job h time \<longleftrightarrow> is_block (jb_template job) \<and> meets_target h (tm_target (jb_template job)) \<and> \<not> wrong_bits (jb_template job) time"

definition share_header_win :: "Job \<Rightarrow> hash \<Rightarrow> bool" where
  "share_header_win job h \<longleftrightarrow>
     (case token_job (jb_template job) of None \<Rightarrow> False | Some token \<Rightarrow> tj_layout token = Safa) \<and> and (h ! 31) 0x80 = 0 \<and>
     meets_target h (tm_target (jb_template job))"

definition accepted_target :: "Channel \<Rightarrow> Job \<Rightarrow> hash" where
  "accepted_target c job = (if meets_target (ch_target c) (jb_target job) then jb_target job else ch_target c)"

text \<open>What the header of a share says, before duplicates: its coinbase, header and hash.\<close>

definition share_header :: "(bytes \<Rightarrow> bytes) \<Rightarrow> Channel \<Rightarrow> Job \<Rightarrow> Share \<Rightarrow> u32 \<Rightarrow> (share_error, Coinbase \<times> bytes \<times> hash) result" where
  "share_header sha c job shr now =
     (if and (xor (sh_version shr) (tm_version (jb_template job))) (not (version_mask (jb_template job))) \<noteq> 0 then Inl InvalidVersion
      else if sh_time shr < tm_current_time (jb_template job) \<or> share_late job shr now then Inl InvalidNtime
      else
      result_bind (share_coinbase sha c job shr) (\<lambda>coinbase.
      result_bind (case template_header (jb_template job) coinbase (sh_version shr) (sh_time shr) (sh_nonce shr) of
          Inl _ \<Rightarrow> Inl InvalidNtime | Inr header \<Rightarrow> Inr header) (\<lambda>header.
      let h = double_sha256 sha header
      in if \<not> meets_target h (accepted_target c job) \<and> \<not> share_block job h (sh_time shr) \<and> \<not> share_header_win job h then Inl DifficultyTooLow
         else Inr (coinbase, header, h))))"

definition seen_of :: "u32 \<Rightarrow> (u32 \<times> hash list) list \<Rightarrow> hash list" where
  "seen_of i seen = (case map_of seen i of Some hashes \<Rightarrow> hashes | None \<Rightarrow> [])"

fun seen_insert :: "u32 \<Rightarrow> hash \<Rightarrow> (u32 \<times> hash list) list \<Rightarrow> (u32 \<times> hash list) list" where
  "seen_insert i h [] = [(i, [h])]"
| "seen_insert i h ((k, hashes) # rest) = (if k = i then (k, h # hashes) # rest else (k, hashes) # seen_insert i h rest)"

definition share_forward :: "Job \<Rightarrow> Share \<Rightarrow> Coinbase \<Rightarrow> hash \<Rightarrow> (share_error, ForwardShare option) result" where
  "share_forward job shr coinbase h =
     (case tm_jd (jb_template job) of
        None \<Rightarrow> Inr None
      | Some plan \<Rightarrow>
          if length (pa_prefix (jb_parts job)) < length (jp_pad plan) + fst (plan_layout plan) then Inl SharePanics
          else let start = length (pa_prefix (jb_parts job)) - length (jp_pad plan) - fst (plan_layout plan)
               in result_bind (ok_or SharePanics (get_range (cb_bytes coinbase) start (start + plan_rollable plan))) (\<lambda>extranonce.
                  Inr (Some \<lparr>fw_donation = bp_donation_work (jb_payout job), fw_serial = declaration_id (jb_template job) (jb_generation job),
                    fw_version = sh_version shr, fw_ntime = sh_time shr, fw_nonce = sh_nonce shr, fw_extranonce = extranonce, fw_hash = h,
                    fw_block = share_block job h (sh_time shr)\<rparr>)))"

definition share_wins :: "Job \<Rightarrow> hash \<Rightarrow> u16 list" where
  "share_wins job h =
     (case jb_aux job of
        Some aux \<Rightarrow> (case aj_easiest aux of Some easiest \<Rightarrow> if meets_target h easiest then wins aux h else [] | None \<Rightarrow> [])
      | None \<Rightarrow> [])"

definition check_inner :: "(bytes \<Rightarrow> bytes) \<Rightarrow> Share \<Rightarrow> u32 \<Rightarrow> Channel \<Rightarrow> (share_error, ValidatedShare) result \<times> Channel" where
  "check_inner sha shr now c =
     (if sh_channel_id shr \<noteq> ch_id c then (Inl InvalidChannelId, c) else
      case find_job c (sh_job_id shr) of
        Inl e \<Rightarrow> (Inl e, c)
      | Inr job \<Rightarrow>
      if stale_sequence c shr then (Inl InvalidSequence, c) else
      let c = c\<lparr>ch_sequence := Some (sh_sequence shr)\<rparr> in
      case share_header sha c job shr now of
        Inl e \<Rightarrow> (Inl e, c)
      | Inr (coinbase, header, h) \<Rightarrow>
      if list_ex (\<lambda>(_, hashes). h \<in> set hashes) (ch_seen c) then (Inl DuplicateShare, c)
      else if length (seen_of (jb_id job) (ch_seen c)) \<ge> MAX_SHARES_PER_JOB then (Inl JobShareLimit, c)
      else
      let c = c\<lparr>ch_seen := seen_insert (jb_id job) h (ch_seen c)\<rparr>;
          token_wins = share_wins job h;
          merkle_path = (if token_wins = [] then [] else pa_merkle_path (jb_parts job)) in
      case share_forward job shr coinbase h of
        Inl e \<Rightarrow> (Inl e, c)
      | Inr forward \<Rightarrow>
      let c = (if meets_target h (ch_vardiff_target c) then c\<lparr>ch_vardiff_shares := ch_vardiff_shares c + 1\<rparr> else c)
      in (Inr \<lparr>vs_generation = jb_generation job, vs_template = jb_template job, vs_coinbase = coinbase, vs_header = header,
            vs_block = share_block job h (sh_time shr), vs_share_target = accepted_target c job, vs_payout = jb_payout job,
            vs_miner = ch_payout c, vs_operator = ch_operator c, vs_hash = h, vs_aux = jb_aux job, vs_token_wins = token_wins,
            vs_merkle_path = merkle_path, vs_forward = forward, vs_header_win = share_header_win job h\<rparr>, c))"

definition check_share :: "(bytes \<Rightarrow> bytes) \<Rightarrow> Share \<Rightarrow> u32 \<Rightarrow> Channel \<Rightarrow> (share_error, ValidatedShare) result \<times> Channel" where
  "check_share sha shr now c =
     (let (r, c) = check_inner sha shr now c
      in (r, case r of Inr _ \<Rightarrow> c\<lparr>ch_accepted := saturating_add (ch_accepted c) 1\<rparr> | Inl _ \<Rightarrow> c\<lparr>ch_rejected := saturating_add (ch_rejected c) 1\<rparr>))"

section \<open>The jobs in hand\<close>

definition active :: "Channel \<Rightarrow> Job list" where
  "active c = (case ch_job c of None \<Rightarrow> [] | Some job \<Rightarrow> [job]) @ ch_previous c"

definition active_ids :: "Channel \<Rightarrow> u32 set" where
  "active_ids c = jb_id ` set (active c)"

definition remembered :: "Channel \<Rightarrow> hash list" where
  "remembered c = concat (map snd (ch_seen c))"

definition same_parent :: "Job \<Rightarrow> BchTemplate \<Rightarrow> bool" where
  "same_parent job t \<longleftrightarrow> tm_previous_hash (jb_template job) = tm_previous_hash t \<and> tm_bits (jb_template job) = tm_bits t"

definition channel_ok :: "Channel \<Rightarrow> bool" where
  "channel_ok c \<longleftrightarrow>
     distinct (map jb_id (active c)) \<and> length (ch_previous c) < MAX_ACTIVE_JOBS \<and> (ch_job c = None \<longrightarrow> ch_previous c = []) \<and>
     (\<forall>job. ch_job c = Some job \<longrightarrow> list_all (\<lambda>old. same_parent old (jb_template job)) (ch_previous c)) \<and>
     distinct (map fst (ch_seen c)) \<and> fst ` set (ch_seen c) \<subseteq> active_ids c \<and> distinct (remembered c) \<and>
     list_all (\<lambda>(_, hashes). length hashes \<le> MAX_SHARES_PER_JOB) (ch_seen c)"

lemma id_in_use_iff: "id_in_use i c \<longleftrightarrow> i \<in> active_ids c"
  by (auto simp: id_in_use_def active_ids_def active_def list_ex_iff split: option.splits)

lemma distinct_concat_filter: "distinct (concat (map f xs)) \<Longrightarrow> distinct (concat (map f (filter P xs)))"
  by (induction xs) auto

lemma expire_jobs_spec:
  assumes "expire_jobs jobs seen = (kept, seen')"
  shows "length kept < MAX_ACTIVE_JOBS" and "\<exists>gone. jobs = gone @ kept \<and> seen' = filter (\<lambda>(i, _). i \<notin> jb_id ` set gone) seen"
proof -
  have "length kept < MAX_ACTIVE_JOBS \<and> (\<exists>gone. jobs = gone @ kept \<and> seen' = filter (\<lambda>(i, _). i \<notin> jb_id ` set gone) seen)"
    using assms
  proof (induction jobs seen rule: expire_jobs.induct)
    case (2 expired rest seen)
    show ?case
    proof (cases "length (expired # rest) \<ge> MAX_ACTIVE_JOBS")
      case True
      with 2 obtain gone where "length kept < MAX_ACTIVE_JOBS" "rest = gone @ kept"
        "seen' = filter (\<lambda>(i, _). i \<notin> jb_id ` set gone) (filter (\<lambda>(i, _). i \<noteq> jb_id expired) seen)" by auto
      then show ?thesis by (intro conjI exI [of _ "expired # gone"]) (auto simp: case_prod_unfold intro!: filter_cong)
    next
      case False
      with 2(2) show ?thesis by (intro conjI exI [of _ "[]"]) auto
    qed
  qed (auto simp: MAX_ACTIVE_JOBS_def)
  then show "length kept < MAX_ACTIVE_JOBS" "\<exists>gone. jobs = gone @ kept \<and> seen' = filter (\<lambda>(i, _). i \<notin> jb_id ` set gone) seen" by auto
qed

lemma retain_fields [simp]:
  "ch_id (retain_previous t c) = ch_id c" "ch_kind (retain_previous t c) = ch_kind c" "ch_target (retain_previous t c) = ch_target c"
  "ch_extranonce_prefix (retain_previous t c) = ch_extranonce_prefix c" "ch_rolled (retain_previous t c) = ch_rolled c"
  by (simp_all add: retain_previous_def Let_def split: option.splits prod.splits)

text \<open>After \<open>retain_previous\<close>: the jobs kept, all on the new template's parent, and what was seen on them.\<close>

lemma retain_spec:
  assumes ok: "channel_ok c"
  shows "set (ch_previous (retain_previous t c)) \<subseteq> set (active c)" and "distinct (map jb_id (ch_previous (retain_previous t c)))"
    and "length (ch_previous (retain_previous t c)) < MAX_ACTIVE_JOBS" and "list_all (\<lambda>old. same_parent old t) (ch_previous (retain_previous t c))"
    and "ch_seen (retain_previous t c) = filter (\<lambda>(i, _). i \<in> jb_id ` set (ch_previous (retain_previous t c))) (ch_seen c)"
proof -
  note o = ok [unfolded channel_ok_def]
  have "set (ch_previous (retain_previous t c)) \<subseteq> set (active c) \<and> distinct (map jb_id (ch_previous (retain_previous t c))) \<and>
    length (ch_previous (retain_previous t c)) < MAX_ACTIVE_JOBS \<and> list_all (\<lambda>old. same_parent old t) (ch_previous (retain_previous t c)) \<and>
    ch_seen (retain_previous t c) = filter (\<lambda>(i, _). i \<in> jb_id ` set (ch_previous (retain_previous t c))) (ch_seen c)"
  proof (cases "ch_job c")
    case None
    then have "ch_previous c = []" "ch_seen c = []" using o by (auto simp: active_ids_def active_def)
    then show ?thesis using None by (simp add: retain_previous_def MAX_ACTIVE_JOBS_def)
  next
    case (Some job)
    show ?thesis
    proof (cases "same_parent job t")
      case True
      obtain kept seen where e: "expire_jobs (ch_previous c @ [job]) (ch_seen c) = (kept, seen)" by fastforce
      obtain gone where g: "ch_previous c @ [job] = gone @ kept" "seen = filter (\<lambda>(i, _). i \<notin> jb_id ` set gone) (ch_seen c)"
        and l: "length kept < MAX_ACTIVE_JOBS" using expire_jobs_spec [OF e] by blast
      have r: "ch_previous (retain_previous t c) = kept" "ch_seen (retain_previous t c) = seen"
        using Some True e by (simp_all add: retain_previous_def same_parent_def)
      have d: "distinct (map jb_id (gone @ kept))" using o by (simp add: active_def Some g(1) [symmetric])
      have ids: "active_ids c = jb_id ` set gone \<union> jb_id ` set kept"
        using arg_cong [OF g(1), of "\<lambda>x. jb_id ` set x"] by (auto simp: active_ids_def active_def Some)
      have sub: "set kept \<subseteq> set (active c)" using arg_cong [OF g(1), of set] by (auto simp: active_def Some)
      have "list_all (\<lambda>old. same_parent old (jb_template job)) (ch_previous c)" using o Some by blast
      then have "list_all (\<lambda>old. same_parent old (jb_template job)) (ch_previous c @ [job])" by (simp add: same_parent_def)
      then have p: "list_all (\<lambda>old. same_parent old t) kept" using True unfolding g(1) by (auto simp: list_all_iff same_parent_def)
      have "fst ` set (ch_seen c) \<subseteq> jb_id ` set gone \<union> jb_id ` set kept" using o ids by blast
      then have "seen = filter (\<lambda>(i, _). i \<in> jb_id ` set kept) (ch_seen c)"
        unfolding g(2) using d by (intro filter_cong) (auto simp: image_iff, force+)
      then show ?thesis unfolding r using l sub p d by simp
    next
      case False
      then show ?thesis using Some by (auto simp: retain_previous_def same_parent_def MAX_ACTIVE_JOBS_def)
    qed
  qed
  then show "set (ch_previous (retain_previous t c)) \<subseteq> set (active c)" and "distinct (map jb_id (ch_previous (retain_previous t c)))"
    and "length (ch_previous (retain_previous t c)) < MAX_ACTIVE_JOBS" and "list_all (\<lambda>old. same_parent old t) (ch_previous (retain_previous t c))"
    and "ch_seen (retain_previous t c) = filter (\<lambda>(i, _). i \<in> jb_id ` set (ch_previous (retain_previous t c))) (ch_seen c)" by auto
qed

lemma remembered_filter: "distinct (remembered c) \<Longrightarrow> distinct (concat (map snd (filter P (ch_seen c))))"
  unfolding remembered_def by (rule distinct_concat_filter)

lemma installed_ok:
  assumes ok: "channel_ok c" and new: "\<not> id_in_use (jb_id job) c" and t: "jb_template job = t"
  shows "channel_ok ((retain_previous t c)\<lparr>ch_job := Some job\<rparr>)"
proof -
  note R = retain_spec [OF ok, of t] and o = ok [unfolded channel_ok_def]
  let ?p = "ch_previous (retain_previous t c)"
  have "jb_id job \<notin> jb_id ` set ?p" using new R(1) by (auto simp: id_in_use_iff active_ids_def)
  moreover have "distinct (map fst (ch_seen (retain_previous t c)))" unfolding R(5) using o by (intro distinct_map_filter) blast
  moreover have "fst ` set (ch_seen (retain_previous t c)) \<subseteq> jb_id ` set ?p" by (subst R(5)) auto
  moreover have "distinct (concat (map snd (ch_seen (retain_previous t c))))" unfolding R(5) using o by (intro remembered_filter) blast
  moreover have "list_all (\<lambda>(_, hashes). length hashes \<le> MAX_SHARES_PER_JOB) (ch_seen (retain_previous t c))"
    unfolding R(5) using o by (auto simp: list_all_iff)
  ultimately show ?thesis
    unfolding channel_ok_def using R(2-4) by (auto simp: active_def active_ids_def remembered_def t)
qed

lemma channel_ok_cong:
  assumes "ch_job c' = ch_job c" "ch_previous c' = ch_previous c" "ch_seen c' = ch_seen c"
  shows "channel_ok c' = channel_ok c" and "active c' = active c" and "active_ids c' = active_ids c"
  using assms by (simp_all add: channel_ok_def active_def active_ids_def remembered_def)

lemma settle_fields [simp]:
  "ch_job (snd (settle block tokens maximum c)) = ch_job c" "ch_previous (snd (settle block tokens maximum c)) = ch_previous c"
  "ch_seen (snd (settle block tokens maximum c)) = ch_seen c" "ch_kind (snd (settle block tokens maximum c)) = ch_kind c"
  "ch_extranonce_prefix (snd (settle block tokens maximum c)) = ch_extranonce_prefix c" "ch_rolled (snd (settle block tokens maximum c)) = ch_rolled c"
  by (simp_all add: settle_def Let_def)

text \<open>Lowering a job's target keeps everything else of it.\<close>

lemma drop_token_floor_eq:
  "snd (drop_token_floor maximum c) =
     (case ch_job c of None \<Rightarrow> c
      | Some job \<Rightarrow> let c' = snd (settle (tm_target (jb_template job)) None maximum c) in c'\<lparr>ch_job := Some (job\<lparr>jb_target := ch_target c'\<rparr>)\<rparr>)"
  by (auto simp: drop_token_floor_def Let_def case_prod_unfold split: option.splits)

lemma channel_ok_target: "channel_ok c \<Longrightarrow> ch_job c = Some job \<Longrightarrow> channel_ok (c\<lparr>ch_job := Some (job\<lparr>jb_target := target\<rparr>)\<rparr>)"
  by (auto simp: channel_ok_def active_def active_ids_def remembered_def same_parent_def)

lemma drop_floor_ok: "channel_ok c \<Longrightarrow> channel_ok (snd (drop_token_floor maximum c))"
proof (cases "ch_job c")
  case (Some job)
  assume "channel_ok c"
  then have "channel_ok (snd (settle (tm_target (jb_template job)) None maximum c))" by (subst channel_ok_cong(1) [of _ c]) simp_all
  then show ?thesis unfolding drop_token_floor_eq Let_def Some option.case by (rule channel_ok_target) (simp add: Some)
qed (simp add: drop_token_floor_eq)

lemma retarget_fields [simp]:
  "ch_job (snd (retarget vd maximum c)) = ch_job c" "ch_previous (snd (retarget vd maximum c)) = ch_previous c"
  "ch_seen (snd (retarget vd maximum c)) = ch_seen c" "ch_kind (snd (retarget vd maximum c)) = ch_kind c"
  "ch_extranonce_prefix (snd (retarget vd maximum c)) = ch_extranonce_prefix c" "ch_rolled (snd (retarget vd maximum c)) = ch_rolled c"
  by (simp_all add: retarget_def Let_def case_prod_unfold split: option.split)

section \<open>What was seen\<close>

lemma seen_of_simps [simp]: "seen_of i [] = []" "seen_of i ((k, hashes) # rest) = (if k = i then hashes else seen_of i rest)"
  by (simp_all add: seen_of_def)

lemma seen_insert_ids [simp]: "fst ` set (seen_insert i h seen) = insert i (fst ` set seen)"
  by (induction i h seen rule: seen_insert.induct) auto

lemma seen_insert_distinct: "distinct (map fst seen) \<Longrightarrow> distinct (map fst (seen_insert i h seen))"
proof (induction i h seen rule: seen_insert.induct)
  case (2 i h k hashes rest)
  then show ?case by (cases "k = i") (simp_all del: image_iff)
qed simp

lemma seen_insert_mset: "mset (concat (map snd (seen_insert i h seen))) = add_mset h (mset (concat (map snd seen)))"
  by (induction i h seen rule: seen_insert.induct) simp_all

lemma seen_insert_of: "seen_of k (seen_insert i h seen) = (if k = i then h # seen_of i seen else seen_of k seen)"
  by (induction i h seen rule: seen_insert.induct) auto

lemma seen_insert_lengths:
  "list_all (\<lambda>(_, hashes). length hashes \<le> n) seen \<Longrightarrow> length (seen_of i seen) < n \<Longrightarrow> list_all (\<lambda>(_, hashes). length hashes \<le> n) (seen_insert i h seen)"
  by (induction i h seen rule: seen_insert.induct) (simp_all split: if_splits)

lemma seen_of_filter: "seen_of i (filter (\<lambda>(k, _). P k) seen) = (if P i then seen_of i seen else [])"
  by (induction seen) auto

lemma seen_of_member: "h \<in> set (seen_of i seen) \<Longrightarrow> list_ex (\<lambda>(_, hashes). h \<in> set hashes) seen"
  by (induction seen) (auto split: if_splits)

section \<open>Checking a share\<close>

lemma find_job_active: "find_job c i = Inr job \<Longrightarrow> job \<in> set (active c) \<and> jb_id job = i"
  by (auto simp: find_job_def active_def ok_or_Inr_iff find_Some_iff split: option.splits if_splits)

lemma share_coinbase_cong:
  "ch_kind c' = ch_kind c \<Longrightarrow> ch_extranonce_prefix c' = ch_extranonce_prefix c \<Longrightarrow> ch_rolled c' = ch_rolled c \<Longrightarrow> share_coinbase sha c' job shr = share_coinbase sha c job shr"
  by (cases "ch_kind c") (simp_all add: share_coinbase_def rollable_def)

lemma share_header_sequence [simp]: "share_header sha (c\<lparr>ch_sequence := s\<rparr>) job shr now = share_header sha c job shr now"
proof -
  have "share_coinbase sha (c\<lparr>ch_sequence := s\<rparr>) job shr = share_coinbase sha c job shr" by (rule share_coinbase_cong) simp_all
  moreover have "accepted_target (c\<lparr>ch_sequence := s\<rparr>) job = accepted_target c job" by (simp add: accepted_target_def)
  ultimately show ?thesis unfolding share_header_def by simp
qed

lemma check_inner_Inr:
  assumes "check_inner sha shr now c = (Inr v, c')"
  obtains job coinbase header h forward where "sh_channel_id shr = ch_id c" "find_job c (sh_job_id shr) = Inr job" "\<not> stale_sequence c shr"
    "share_header sha c job shr now = Inr (coinbase, header, h)" "\<not> list_ex (\<lambda>(_, hashes). h \<in> set hashes) (ch_seen c)"
    "length (seen_of (jb_id job) (ch_seen c)) < MAX_SHARES_PER_JOB" "share_forward job shr coinbase h = Inr forward"
    "v = \<lparr>vs_generation = jb_generation job, vs_template = jb_template job, vs_coinbase = coinbase, vs_header = header,
            vs_block = share_block job h (sh_time shr), vs_share_target = accepted_target c job, vs_payout = jb_payout job,
            vs_miner = ch_payout c, vs_operator = ch_operator c, vs_hash = h, vs_aux = jb_aux job, vs_token_wins = share_wins job h,
            vs_merkle_path = (if share_wins job h = [] then [] else pa_merkle_path (jb_parts job)), vs_forward = forward,
            vs_header_win = share_header_win job h\<rparr>"
  using assms unfolding check_inner_def
  by (simp add: Let_def accepted_target_def not_le split: if_splits sum.splits prod.splits)

lemma check_inner_state:
  assumes "check_inner sha shr now c = (r, c')"
  shows "ch_job c' = ch_job c" and "ch_previous c' = ch_previous c" and "ch_kind c' = ch_kind c" and "ch_extranonce_prefix c' = ch_extranonce_prefix c"
    and "ch_rolled c' = ch_rolled c" and "ch_id c' = ch_id c" and "ch_target c' = ch_target c"
  using assms unfolding check_inner_def by (auto simp: Let_def split: if_splits sum.splits prod.splits)

lemma check_inner_seen:
  assumes "check_inner sha shr now c = (r, c')"
  shows "ch_seen c' = ch_seen c \<and> (\<forall>v. r \<noteq> Inr v) \<or>
    (\<exists>job h. find_job c (sh_job_id shr) = Inr job \<and> ch_seen c' = seen_insert (jb_id job) h (ch_seen c) \<and>
      \<not> list_ex (\<lambda>(_, hashes). h \<in> set hashes) (ch_seen c) \<and> length (seen_of (jb_id job) (ch_seen c)) < MAX_SHARES_PER_JOB \<and>
      (\<forall>v. r = Inr v \<longrightarrow> vs_hash v = h))"
  using assms unfolding check_inner_def
  by (auto simp: Let_def not_le split: if_splits sum.splits prod.splits)

lemma check_ok:
  assumes ok: "channel_ok c" and check: "check_inner sha shr now c = (r, c')"
  shows "channel_ok c'"
proof -
  note S = check_inner_state [OF check] and o = ok [unfolded channel_ok_def]
  consider "ch_seen c' = ch_seen c" | job h where "find_job c (sh_job_id shr) = Inr job" "ch_seen c' = seen_insert (jb_id job) h (ch_seen c)"
      "\<not> list_ex (\<lambda>(_, hashes). h \<in> set hashes) (ch_seen c)" "length (seen_of (jb_id job) (ch_seen c)) < MAX_SHARES_PER_JOB"
    using check_inner_seen [OF check] by blast
  then show ?thesis
  proof cases
    case 1
    then show ?thesis using channel_ok_cong(1) [OF S(1,2), of] ok by blast
  next
    case (2 job h)
    have j: "jb_id job \<in> active_ids c" using find_job_active [OF 2(1)] unfolding active_ids_def by blast
    have a: "active c' = active c" "active_ids c' = active_ids c" using S(1,2) by (simp_all add: active_def active_ids_def)
    have "h \<notin> set (remembered c)" using 2(3) by (auto simp: remembered_def list_ex_iff)
    moreover have m: "mset (remembered c') = add_mset h (mset (remembered c))" unfolding remembered_def 2(2) by (rule seen_insert_mset)
    ultimately have "distinct (remembered c')"
      using o by (metis distinct.simps(2) mset.simps(2) mset_eq_imp_distinct_iff)
    then show ?thesis
      unfolding channel_ok_def a S(1,2) using o j seen_insert_distinct [of "ch_seen c"] seen_insert_lengths [OF _ 2(4)] by (simp add: 2(2))
  qed
qed

section \<open>Installing a job\<close>

lemma refusal_fields [simp]:
  "job_extranonce random (c\<lparr>ch_token_refusal := x\<rparr>) plan fresh = job_extranonce random c plan fresh"
  "job_audit sha ad (c\<lparr>ch_token_refusal := x\<rparr>) a = job_audit sha ad c a"
  unfolding job_extranonce_def job_audit_def Let_def by (simp, cases "ch_operator c") simp_all

lemma refusal_irrelevant [simp]:
  "job_coinbases sha ad random i t payout aux (c\<lparr>ch_token_refusal := x\<rparr>) = job_coinbases sha ad random i t payout aux c"
  "check_tokens sha ad (c\<lparr>ch_token_refusal := x\<rparr>) standard parts a = check_tokens sha ad c standard parts a"
  unfolding job_coinbases_def check_tokens_def refusal_fields by simp_all

lemma install_Inr:
  assumes "install_with_payout sha ad random i generation t payout c = (Inr job, c')"
  obtains aux standard parts aux' x where "\<not> id_in_use i c" "\<forall>plan. tm_jd t = Some plan \<longrightarrow> jp_compact plan = ch_compact c"
    "aux_job sha ad t (ch_network c) (ch_payout c) (ch_operator c) (own_policy (ch_donation c) payout) = Inr aux"
    "job_coinbases sha ad random i t (own_policy (ch_donation c) payout) aux c = Inr (standard, parts)"
    "aux' = aux \<or> aux' = None" "\<forall>a. aux' = Some a \<longrightarrow> check_tokens sha ad c standard parts a = Inr ()"
    "job = \<lparr>jb_id = i, jb_generation = generation, jb_template = t, jb_standard_coinbase = standard, jb_parts = parts,
       jb_target = ch_target c, jb_payout = own_policy (ch_donation c) payout, jb_aux = aux', jb_kind = OwnJob\<rparr>"
    "c' = (retain_previous t (c\<lparr>ch_token_refusal := x\<rparr>))\<lparr>ch_job := Some job\<rparr>"
proof -
  define policy where "policy = own_policy (ch_donation c) payout"
  define c1 where "c1 = (case tokens_refused t of Some reason \<Rightarrow> c\<lparr>ch_token_refusal := Some (TokensRefused reason)\<rparr> | None \<Rightarrow> c)"
  obtain y where y: "c1 = c\<lparr>ch_token_refusal := y\<rparr>" 
  proof (cases "tokens_refused t")
    case None
    then show ?thesis using that [of "ch_token_refusal c"] by (simp add: c1_def)
  next
    case (Some reason)
    then show ?thesis using that [of "Some (TokensRefused reason)"] by (simp add: c1_def)
  qed
  have e: "(\<not> id_in_use i c) \<and> (\<forall>plan. tm_jd t = Some plan \<longrightarrow> jp_compact plan = ch_compact c)"
    using assms by (auto simp: install_with_payout_def Let_def split: if_splits option.splits)
  then obtain aux where aux: "aux_job sha ad t (ch_network c) (ch_payout c) (ch_operator c) policy = Inr aux"
    using assms unfolding install_with_payout_def Let_def policy_def [symmetric] by (cases "aux_job sha ad t (ch_network c) (ch_payout c) (ch_operator c) policy")
      (auto split: option.splits)
  have r: "(case job_coinbases sha ad random i t policy aux c1 of Inl e \<Rightarrow> (Inl (FromTemplate e), c1)
      | Inr (standard_coinbase, parts) \<Rightarrow>
        let (aux, c) = (case map_option (check_tokens sha ad c1 standard_coinbase parts) aux of
                        Some (Inl reason) \<Rightarrow> (None, c1\<lparr>ch_token_refusal := Some reason\<rparr>)
                      | _ \<Rightarrow> (aux, c1));
          job = \<lparr>jb_id = i, jb_generation = generation, jb_template = t, jb_standard_coinbase = standard_coinbase, jb_parts = parts,
            jb_target = ch_target c, jb_payout = policy, jb_aux = aux, jb_kind = OwnJob\<rparr>
        in (Inr job, (retain_previous t c)\<lparr>ch_job := Some job\<rparr>)) = (Inr job, c')"
    using assms e aux unfolding install_with_payout_def Let_def policy_def [symmetric] c1_def [symmetric] by (auto split: option.splits)
  then obtain standard parts where b: "job_coinbases sha ad random i t policy aux c1 = Inr (standard, parts)"
    by (cases "job_coinbases sha ad random i t policy aux c1") auto
  show thesis
  proof (cases "\<exists>a reason. aux = Some a \<and> check_tokens sha ad c1 standard parts a = Inl reason")
    case True
    then obtain a reason where a: "aux = Some a" "check_tokens sha ad c1 standard parts a = Inl reason" by blast
    show ?thesis using r b e aux a
      by (intro that [of aux standard parts None "Some reason"]) (auto simp: policy_def y Let_def)
  next
    case False
    have ok: "\<forall>a. aux = Some a \<longrightarrow> check_tokens sha ad c1 standard parts a = Inr ()"
      using False by (metis old.sum.exhaust old.unit.exhaust)
    then have "(case map_option (check_tokens sha ad c1 standard parts) aux of
        Some (Inl reason) \<Rightarrow> (None, c1\<lparr>ch_token_refusal := Some reason\<rparr>) | _ \<Rightarrow> (aux, c1)) = (aux, c1)" by (cases aux) auto
    then show ?thesis using r b e aux ok
      by (intro that [of aux standard parts aux y]) (auto simp: policy_def y Let_def)
  qed
qed

lemma install_Inl:
  assumes "install_with_payout sha ad random i generation t payout c = (Inl e, c')"
  obtains x where "c' = c\<lparr>ch_token_refusal := x\<rparr>"
proof -
  have "c' = c \<or> (\<exists>x. c' = c\<lparr>ch_token_refusal := x\<rparr>)"
    using assms unfolding install_with_payout_def Let_def
    by (cases "aux_job sha ad t (ch_network c) (ch_payout c) (ch_operator c) (own_policy (ch_donation c) payout)"; cases "tokens_refused t")
      (auto split: if_splits sum.splits prod.splits option.splits)
  then show thesis using that that [of "ch_token_refusal c"] by auto
qed

text \<open>A job's coinbases are the template's: every coinbase a share of it is checked with was built for the template, with the job's own
  merge-mining output where it has one.\<close>

definition mineable :: "BchTemplate \<Rightarrow> bool" where
  "mineable t \<longleftrightarrow> prepared_for t \<and> (is_safa t \<longrightarrow> tm_merkle_path t = [])"

definition built_for :: "(bytes \<Rightarrow> bytes) \<Rightarrow> Job \<Rightarrow> Coinbase \<Rightarrow> bool" where
  "built_for sha job cb \<longleftrightarrow>
     (\<exists>ad network payout operator en policy commitment. coinbase_with_aux sha ad (jb_template job) network payout operator en policy commitment = Inr cb \<and>
       (\<forall>a. jb_aux job = Some a \<longrightarrow> commitment = Some (aj_output a) \<and> aux_job sha ad (jb_template job) network payout operator policy = Inr (Some a)))"

lemma built_forI:
  assumes "coinbase_with_aux sha ad (jb_template job) network payout operator en policy commitment = Inr cb"
    and "\<forall>a. jb_aux job = Some a \<longrightarrow> commitment = Some (aj_output a) \<and> aux_job sha ad (jb_template job) network payout operator policy = Inr (Some a)"
  shows "built_for sha job cb"
  unfolding built_for_def using assms by (intro exI conjI)

definition job_built :: "(bytes \<Rightarrow> bytes) \<Rightarrow> Channel \<Rightarrow> Job \<Rightarrow> bool" where
  "job_built sha c job \<longleftrightarrow>
     (jb_aux job \<noteq> None \<longrightarrow> jb_kind job = OwnJob) \<and>
     (jb_kind job = OwnJob \<and> mineable (jb_template job) \<longrightarrow>
        pa_merkle_path (jb_parts job) = tm_merkle_path (jb_template job) \<and> (\<forall>shr cb. share_coinbase sha c job shr = Inr cb \<longrightarrow> built_for sha job cb))"

lemma job_built_cong:
  "ch_kind c' = ch_kind c \<Longrightarrow> ch_extranonce_prefix c' = ch_extranonce_prefix c \<Longrightarrow> ch_rolled c' = ch_rolled c \<Longrightarrow> job_built sha c' job = job_built sha c job"
  unfolding job_built_def using share_coinbase_cong [of c' c sha job] by simp

lemma job_coinbases_Inr:
  assumes "job_coinbases sha ad random i t policy aux c = Inr (standard, parts)" and "mineable t"
    and "length en = ch_rolled c"
  shows "pa_merkle_path parts = tm_merkle_path t" and "\<exists>en. coinbase_with_aux sha ad t (ch_network c) (ch_payout c) (ch_operator c) en policy (map_option aj_output aux) = Inr standard"
    and "coinbase_with_aux sha ad t (ch_network c) (ch_payout c) (ch_operator c) (job_opening t i @ ch_extranonce_prefix c @ en) policy (map_option aj_output aux) =
      Inr \<lparr>cb_bytes = pa_prefix parts @ ch_extranonce_prefix c @ en @ pa_suffix parts,
           cb_merkle_root = tm_fold sha (double_sha256 sha (pa_prefix parts @ ch_extranonce_prefix c @ en @ pa_suffix parts)) (pa_merkle_path parts)\<rparr>"
proof -
  let ?n = "length (job_opening t i) + length (ch_extranonce_prefix c) + ch_rolled c"
  from assms(1) obtain p where p: "coinbase_parts_with_aux sha ad t (ch_network c) (ch_payout c) (ch_operator c) ?n policy (map_option aj_output aux) = Inr p"
    "parts = p\<lparr>pa_prefix := pa_prefix p @ job_opening t i\<rparr>"
    and s: "\<exists>en. coinbase_with_aux sha ad t (ch_network c) (ch_payout c) (ch_operator c) en policy (map_option aj_output aux) = Inr standard"
    by (auto simp: job_coinbases_def Let_def result_bind_Inr_iff)
  show "\<exists>en. coinbase_with_aux sha ad t (ch_network c) (ch_payout c) (ch_operator c) en policy (map_option aj_output aux) = Inr standard" by (rule s)
  have path: "pa_merkle_path p = tm_merkle_path t"
    using p(1) by (auto simp: coinbase_parts_with_aux_def result_bind_Inr_iff split_coinbase_def Let_def split: if_splits)
  then show "pa_merkle_path parts = tm_merkle_path t" by (simp add: p(2))
  have l: "length (job_opening t i @ ch_extranonce_prefix c @ en) = ?n" using assms(3) by simp
  have m: "prepared_for t" "(if is_safa t then [] else tm_merkle_path t) = tm_merkle_path t" using assms(2) by (auto simp: mineable_def)
  show "coinbase_with_aux sha ad t (ch_network c) (ch_payout c) (ch_operator c) (job_opening t i @ ch_extranonce_prefix c @ en) policy (map_option aj_output aux) =
      Inr \<lparr>cb_bytes = pa_prefix parts @ ch_extranonce_prefix c @ en @ pa_suffix parts,
           cb_merkle_root = tm_fold sha (double_sha256 sha (pa_prefix parts @ ch_extranonce_prefix c @ en @ pa_suffix parts)) (pa_merkle_path parts)\<rparr>"
    unfolding coinbase_parts_rebuild [OF p(1) l m(1)] path m(2) p(2) by (simp add: path)
qed

lemma install_built:
  assumes "install_with_payout sha ad random i generation t payout c = (Inr job, c')"
  shows "job_built sha c' job"
  using assms
proof (rule install_Inr)
  fix aux standard parts aux' x
  assume a: "aux_job sha ad t (ch_network c) (ch_payout c) (ch_operator c) (own_policy (ch_donation c) payout) = Inr aux"
    and b: "job_coinbases sha ad random i t (own_policy (ch_donation c) payout) aux c = Inr (standard, parts)"
    and x: "aux' = aux \<or> aux' = None"
    and j: "job = \<lparr>jb_id = i, jb_generation = generation, jb_template = t, jb_standard_coinbase = standard, jb_parts = parts,
       jb_target = ch_target c, jb_payout = own_policy (ch_donation c) payout, jb_aux = aux', jb_kind = OwnJob\<rparr>"
    and c: "c' = (retain_previous t (c\<lparr>ch_token_refusal := x\<rparr>))\<lparr>ch_job := Some job\<rparr>"
  have "job_built sha c job"
    unfolding job_built_def
  proof (intro impI conjI allI)
    show "jb_kind job = OwnJob" by (simp add: j)
  next
    assume "jb_kind job = OwnJob \<and> mineable (jb_template job)"
    then have m: "mineable t" by (simp add: j)
    show "pa_merkle_path (jb_parts job) = tm_merkle_path (jb_template job)"
      using job_coinbases_Inr(1) [OF b m, of "replicate (ch_rolled c) 0"] by (simp add: j)
    fix shr cb
    assume s: "share_coinbase sha c job shr = Inr cb"
    have "\<exists>en. coinbase_with_aux sha ad t (ch_network c) (ch_payout c) (ch_operator c) en (own_policy (ch_donation c) payout) (map_option aj_output aux) = Inr cb"
    proof (cases "ch_kind c")
      case Standard
      then have "cb = standard" using s by (simp add: share_coinbase_def j split: if_splits)
      then show ?thesis using job_coinbases_Inr(2) [OF b m, of "replicate (ch_rolled c) 0"] by simp
    next
      case Extended
      then have "length (sh_extranonce shr) = ch_rolled c" using s by (simp add: share_coinbase_def rollable_def split: if_splits)
      from job_coinbases_Inr(3) [OF b m this] show ?thesis using s Extended
        by (auto simp: share_coinbase_def j Let_def split: if_splits)
    qed
    then obtain en where "coinbase_with_aux sha ad t (ch_network c) (ch_payout c) (ch_operator c) en (own_policy (ch_donation c) payout) (map_option aj_output aux) = Inr cb" ..
    moreover have "\<forall>a. jb_aux job = Some a \<longrightarrow> map_option aj_output aux = Some (aj_output a) \<and>
        aux_job sha ad t (ch_network c) (ch_payout c) (ch_operator c) (own_policy (ch_donation c) payout) = Inr (Some a)"
      using a x by (auto simp: j)
    ultimately show "built_for sha job cb" by (intro built_forI) (auto simp add: j)
  qed
  then show ?thesis by (subst job_built_cong [of _ c]) (simp_all add: c)
qed

section \<open>A channel's life\<close>

text \<open>
  \<open>channel_run c log\<close>: \<open>c\<close> is a channel after some operations, in any order and with any outcome, and \<open>log\<close> the shares accepted on the jobs still in
  hand, as job id and hash. The server gives a channel its lane, or makes it a Job Declaration client's, before its first job.
\<close>

definition live :: "Channel \<Rightarrow> (u32 \<times> hash) list \<Rightarrow> (u32 \<times> hash) list" where
  "live c log = filter (\<lambda>(i, _). i \<in> active_ids c) log"

inductive channel_run :: "(bytes \<Rightarrow> bytes) \<Rightarrow> Channel \<Rightarrow> (u32 \<times> hash) list \<Rightarrow> bool" for sha where
  opened: "channel_new ad clock_reads rate i kind target salt network payout = Inr c \<Longrightarrow> channel_run sha c []"
| laned: "channel_run sha c log \<Longrightarrow> ch_job c = None \<Longrightarrow> channel_run sha (set_lane lane short c) log"
| custom_only: "channel_run sha c log \<Longrightarrow> ch_job c = None \<Longrightarrow> channel_run sha (set_custom_only rolled c) log"
| operated: "channel_run sha c log \<Longrightarrow> channel_run sha (snd (set_operator ad operator c)) log"
| donating: "channel_run sha c log \<Longrightarrow> channel_run sha (set_donation donation c) log"
| installed: "channel_run sha c log \<Longrightarrow> install_with_payout sha ad random i generation t payout c = (r, c') \<Longrightarrow> channel_run sha c' (live c' log)"
| customised: "channel_run sha c log \<Longrightarrow> install_custom sha i t parts c = (r, c') \<Longrightarrow> channel_run sha c' (live c' log)"
| revoked: "channel_run sha c log \<Longrightarrow> channel_run sha (revoke c) []"
| settled: "channel_run sha c log \<Longrightarrow> channel_run sha (snd (settle block tokens maximum c)) log"
| floor_dropped: "channel_run sha c log \<Longrightarrow> channel_run sha (snd (drop_token_floor maximum c)) log"
| retargeted: "channel_run sha c log \<Longrightarrow> channel_run sha (snd (retarget vd maximum c)) log"
| refusal_taken: "channel_run sha c log \<Longrightarrow> channel_run sha (snd (take_token_refusal c)) log"
| checked: "channel_run sha c log \<Longrightarrow> check_share sha shr now c = (r, c') \<Longrightarrow>
    channel_run sha c' (case r of Inr v \<Rightarrow> (sh_job_id shr, vs_hash v) # log | Inl _ \<Rightarrow> log)"

definition log_ok :: "Channel \<Rightarrow> (u32 \<times> hash) list \<Rightarrow> bool" where
  "log_ok c log \<longleftrightarrow> distinct (map snd log) \<and> (\<forall>(i, h)\<in>set log. i \<in> active_ids c \<and> h \<in> set (seen_of i (ch_seen c)))"

definition run_ok :: "(bytes \<Rightarrow> bytes) \<Rightarrow> Channel \<Rightarrow> (u32 \<times> hash) list \<Rightarrow> bool" where
  "run_ok sha c log \<longleftrightarrow> channel_ok c \<and> log_ok c log \<and> list_all (job_built sha c) (active c)"

lemma run_ok_cong:
  assumes "ch_job c' = ch_job c" "ch_previous c' = ch_previous c" "ch_seen c' = ch_seen c"
    "ch_kind c' = ch_kind c" "ch_extranonce_prefix c' = ch_extranonce_prefix c" "ch_rolled c' = ch_rolled c"
  shows "run_ok sha c' log = run_ok sha c log"
proof -
  have "job_built sha c' = job_built sha c" using job_built_cong [OF assms(4-6)] by blast
  then show ?thesis unfolding run_ok_def log_ok_def channel_ok_cong [OF assms(1-3)] using assms(3) by simp
qed

lemma run_ok_idle:
  assumes "run_ok sha c log" and "ch_job c = None" and "ch_job c' = None" "ch_previous c' = ch_previous c" "ch_seen c' = ch_seen c"
  shows "run_ok sha c' log"
proof -
  have e: "ch_job c' = ch_job c" using assms(2,3) by simp
  have "ch_previous c = []" using assms(1,2) by (simp add: run_ok_def channel_ok_def)
  then have a: "active c = []" using assms(2) by (simp add: active_def)
  then show ?thesis using assms(1,5) unfolding run_ok_def log_ok_def channel_ok_cong [OF e assms(4,5)] a by simp
qed

lemma installed_run:
  assumes run: "run_ok sha c log" and new: "\<not> id_in_use (jb_id job) c" and t: "jb_template job = t" and built: "job_built sha c' job"
    and c': "c' = (retain_previous t c)\<lparr>ch_job := Some job\<rparr>"
  shows "run_ok sha c' (live c' log)"
proof -
  have ok: "channel_ok c" and l: "log_ok c log" and b: "list_all (job_built sha c) (active c)" using run by (simp_all add: run_ok_def)
  note R = retain_spec [OF ok, of t]
  have k: "job_built sha c' = job_built sha c" using job_built_cong [of c' c sha] by (auto simp: c')
  have act: "active c' = job # ch_previous (retain_previous t c)" by (simp add: active_def c')
  have "list_all (job_built sha c') (active c')" using b R(1) built unfolding act k by (auto simp: list_all_iff)
  moreover have "log_ok c' (live c' log)"
    unfolding log_ok_def
  proof
    show "distinct (map snd (live c' log))" using l by (simp add: log_ok_def live_def distinct_map_filter)
    show "\<forall>(i, h)\<in>set (live c' log). i \<in> active_ids c' \<and> h \<in> set (seen_of i (ch_seen c'))"
    proof (clarify, intro conjI)
      fix i h
      assume m: "(i, h) \<in> set (live c' log)"
      then show "i \<in> active_ids c'" by (simp add: live_def)
      have o: "(i, h) \<in> set log" using m by (simp add: live_def)
      then have "i \<in> active_ids c" "h \<in> set (seen_of i (ch_seen c))" using l by (auto simp: log_ok_def)
      moreover have "i \<noteq> jb_id job" using calculation(1) new by (auto simp: id_in_use_iff)
      then have "i \<in> jb_id ` set (ch_previous (retain_previous t c))"
        using \<open>i \<in> active_ids c'\<close> unfolding active_ids_def act by simp
      ultimately show "h \<in> set (seen_of i (ch_seen c'))" by (simp add: c' R(5) seen_of_filter [where P = "\<lambda>k. k \<in> jb_id ` set (ch_previous (retain_previous t c))"])
    qed
  qed
  ultimately show ?thesis using installed_ok [OF ok new t] by (simp add: run_ok_def c')
qed

lemma check_share_inner:
  assumes "check_share sha shr now c = (r, c')"
  obtains c1 where "check_inner sha shr now c = (r, c1)" "\<exists>a b. c' = c1\<lparr>ch_accepted := a, ch_rejected := b\<rparr>"
proof -
  obtain c1 where i: "check_inner sha shr now c = (r, c1)" "c' = (case r of Inr _ \<Rightarrow> c1\<lparr>ch_accepted := saturating_add (ch_accepted c1) 1\<rparr> | Inl _ \<Rightarrow> c1\<lparr>ch_rejected := saturating_add (ch_rejected c1) 1\<rparr>)"
    using assms by (auto simp: check_share_def Let_def split: prod.splits)
  show thesis
  proof (cases r)
    case (Inl e)
    then have "c' = c1\<lparr>ch_accepted := ch_accepted c1, ch_rejected := saturating_add (ch_rejected c1) 1\<rparr>" using i(2) by simp
    then show ?thesis by (intro that [OF i(1)] exI)
  next
    case (Inr v)
    then have "c' = c1\<lparr>ch_accepted := saturating_add (ch_accepted c1) 1, ch_rejected := ch_rejected c1\<rparr>" using i(2) by simp
    then show ?thesis by (intro that [OF i(1)] exI)
  qed
qed

lemma check_run:
  assumes run: "run_ok sha c log" and check: "check_inner sha shr now c = (r, c')"
  shows "run_ok sha c' (case r of Inr v \<Rightarrow> (sh_job_id shr, vs_hash v) # log | Inl _ \<Rightarrow> log)"
proof -
  have ok: "channel_ok c" and l: "log_ok c log" and b: "list_all (job_built sha c) (active c)" using run by (simp_all add: run_ok_def)
  note S = check_inner_state [OF check]
  have a: "active c' = active c" "active_ids c' = active_ids c" using S(1,2) by (simp_all add: active_def active_ids_def)
  have k: "job_built sha c' = job_built sha c" using job_built_cong [OF S(3-5), of sha] by blast
  have keep: "h \<in> set (seen_of i (ch_seen c'))" if "h \<in> set (seen_of i (ch_seen c))" for i h
    using check_inner_seen [OF check] that by (auto simp: seen_insert_of)
  have "log_ok c' (case r of Inr v \<Rightarrow> (sh_job_id shr, vs_hash v) # log | Inl _ \<Rightarrow> log)"
  proof (cases r)
    case (Inl e)
    then show ?thesis using l keep by (auto simp: log_ok_def a)
  next
    case (Inr v)
    then obtain job where j: "find_job c (sh_job_id shr) = Inr job" "ch_seen c' = seen_insert (jb_id job) (vs_hash v) (ch_seen c)"
        "\<not> list_ex (\<lambda>(_, hashes). vs_hash v \<in> set hashes) (ch_seen c)"
      using check_inner_seen [OF check] by auto
    note A = find_job_active [OF j(1)]
    have i: "sh_job_id shr \<in> active_ids c" using A by (metis active_ids_def image_eqI)
    have "vs_hash v \<notin> snd ` set log" using l j(3) seen_of_member by (fastforce simp: log_ok_def)
    then show ?thesis using l keep i A by (auto simp: log_ok_def Inr a j(2) seen_insert_of)
  qed
  then show ?thesis using check_ok [OF ok check] b by (simp add: run_ok_def a k)
qed

lemma log_ok_target: "log_ok (c\<lparr>ch_job := Some (job\<lparr>jb_target := x\<rparr>)\<rparr>) log = log_ok c log" if "ch_job c = Some job"
  using that by (simp add: log_ok_def active_ids_def active_def)

lemma job_target_fields [simp]:
  "share_coinbase sha c (job\<lparr>jb_target := x\<rparr>) shr = share_coinbase sha c job shr" "built_for sha (job\<lparr>jb_target := x\<rparr>) cb = built_for sha job cb"
  by (cases "ch_kind c"; simp add: share_coinbase_def) (simp add: built_for_def)

lemma job_built_target [simp]: "job_built sha c (job\<lparr>jb_target := x\<rparr>) = job_built sha c job"
  unfolding job_built_def job_target_fields by simp

lemma drop_floor_run: "run_ok sha c log \<Longrightarrow> run_ok sha (snd (drop_token_floor maximum c)) log"
proof (cases "ch_job c")
  case (Some job)
  assume r: "run_ok sha c log"
  define c1 where "c1 = snd (settle (tm_target (jb_template job)) None maximum c)"
  define c2 where "c2 = c1\<lparr>ch_job := Some (job\<lparr>jb_target := ch_target c1\<rparr>)\<rparr>"
  have "run_ok sha c1 log" using r by (subst run_ok_cong [of _ c]) (simp_all add: c1_def)
  moreover have j: "ch_job c1 = Some job" by (simp add: c1_def Some)
  moreover have "job_built sha c2 = job_built sha c1" using job_built_cong [of c2 c1 sha] by (auto simp: c2_def)
  ultimately have "run_ok sha c2 log"
    unfolding run_ok_def using channel_ok_target [OF _ j, of "ch_target c1"] log_ok_target [OF j, of "ch_target c1" log]
    by (simp add: c2_def [symmetric]) (simp add: c2_def active_def j)
  then show ?thesis unfolding drop_token_floor_eq by (simp add: Some Let_def c2_def c1_def)
qed (simp add: drop_token_floor_eq)

lemma new_run_ok: "channel_new ad clock_reads rate i kind target salt network payout = Inr c \<Longrightarrow> run_ok sha c []"
  by (auto simp: channel_new_def result_bind_Inr_iff run_ok_def channel_ok_def log_ok_def active_def active_ids_def remembered_def MAX_ACTIVE_JOBS_def
      split: if_splits)

lemma revoke_run_ok: "run_ok sha (revoke c) []"
  by (simp add: revoke_def run_ok_def channel_ok_def log_ok_def active_def active_ids_def remembered_def MAX_ACTIVE_JOBS_def)

lemma live_self: "log_ok c log \<Longrightarrow> active_ids c' = active_ids c \<Longrightarrow> live c' log = log"
  by (auto simp: live_def log_ok_def intro!: filter_True)

lemma install_run:
  assumes run: "run_ok sha c log" and i: "install_with_payout sha ad random i generation t payout c = (r, c')"
  shows "run_ok sha c' (live c' log)"
proof (cases r)
  case (Inl e)
  then obtain x where x: "c' = c\<lparr>ch_token_refusal := x\<rparr>" using install_Inl i by blast
  then have "active_ids c' = active_ids c" by (simp add: active_ids_def active_def)
  then have l: "live c' log = log" using run by (intro live_self) (simp_all add: run_ok_def)
  show ?thesis unfolding l using run by (subst run_ok_cong [of _ c]) (simp_all add: x)
next
  case (Inr job)
  note b = install_built [OF i [unfolded Inr]]
  show ?thesis
  proof (rule install_Inr [OF i [unfolded Inr]])
    fix aux standard parts aux' x
    assume n: "\<not> id_in_use i c" and j: "job = \<lparr>jb_id = i, jb_generation = generation, jb_template = t, jb_standard_coinbase = standard, jb_parts = parts,
       jb_target = ch_target c, jb_payout = own_policy (ch_donation c) payout, jb_aux = aux', jb_kind = OwnJob\<rparr>"
      and c': "c' = (retain_previous t (c\<lparr>ch_token_refusal := x\<rparr>))\<lparr>ch_job := Some job\<rparr>"
    have "run_ok sha (c\<lparr>ch_token_refusal := x\<rparr>) log" using run by (subst run_ok_cong [of _ c]) simp_all
    moreover have "\<not> id_in_use (jb_id job) (c\<lparr>ch_token_refusal := x\<rparr>)" using n by (simp add: j id_in_use_def)
    ultimately show ?thesis by (rule installed_run) (use b c' in \<open>simp_all add: j\<close>)
  qed
qed

lemma custom_run:
  assumes run: "run_ok sha c log" and i: "install_custom sha i t parts c = (r, c')"
  shows "run_ok sha c' (live c' log)"
proof (cases "\<not> ch_custom_only c \<or> id_in_use i c")
  case True
  then have "c' = c" using i by (auto simp: install_custom_def split: if_splits)
  then show ?thesis using run live_self [of c log c] by (simp add: run_ok_def)
next
  case False
  define bytes where "bytes = pa_prefix parts @ ch_extranonce_prefix c @ replicate (rollable c) 0 @ pa_suffix parts"
  define job where "job = \<lparr>jb_id = i, jb_generation = 0, jb_template = t,
    jb_standard_coinbase = \<lparr>cb_bytes = bytes, cb_merkle_root = tm_fold sha (double_sha256 sha bytes) (pa_merkle_path parts)\<rparr>,
    jb_parts = parts, jb_target = ch_target c, jb_payout = default_payout, jb_aux = None, jb_kind = CustomJob (tm_min_time t)\<rparr>"
  have j: "jb_id job = i" "jb_template job = t" "jb_kind job = CustomJob (tm_min_time t)" by (simp_all add: job_def)
  have c': "c' = (retain_previous t c)\<lparr>ch_job := Some job\<rparr>"
    using i False unfolding install_custom_def Let_def bytes_def [symmetric] job_def [symmetric] by simp
  show ?thesis using False by (intro installed_run [OF run _ j(2) _ c']) (simp_all add: job_built_def j, simp add: job_def)
qed

lemma channel_run_ok: "channel_run sha c log \<Longrightarrow> run_ok sha c log"
proof (induction rule: channel_run.induct)
  case (laned c log lane short)
  show ?case by (rule run_ok_idle [OF laned(3,2)]) (simp_all add: set_lane_def Let_def laned(2))
next
  case (custom_only c log rolled)
  show ?case by (rule run_ok_idle [OF custom_only(3,2)]) (simp_all add: set_custom_only_def custom_only(2))
next
  case (operated c log ad operator)
  have "run_ok sha (snd (set_operator ad operator c)) log = run_ok sha c log"
    by (rule run_ok_cong) (auto simp: set_operator_def split: option.splits)
  then show ?case using operated by simp
next
  case (donating c log donation)
  have "run_ok sha (set_donation donation c) log = run_ok sha c log" by (rule run_ok_cong) (simp_all add: set_donation_def)
  then show ?case using donating by simp
next
  case (settled c log block tokens maximum)
  have "run_ok sha (snd (settle block tokens maximum c)) log = run_ok sha c log" by (rule run_ok_cong) simp_all
  then show ?case using settled by simp
next
  case (retargeted c log vd maximum)
  have "run_ok sha (snd (retarget vd maximum c)) log = run_ok sha c log" by (rule run_ok_cong) simp_all
  then show ?case using retargeted by simp
next
  case (refusal_taken c log)
  have "run_ok sha (snd (take_token_refusal c)) log = run_ok sha c log" by (rule run_ok_cong) (simp_all add: take_token_refusal_def)
  then show ?case using refusal_taken by simp
next
  case (checked c log shr now r c')
  obtain c1 a b where i: "check_inner sha shr now c = (r, c1)" "c' = c1\<lparr>ch_accepted := a, ch_rejected := b\<rparr>" using check_share_inner [OF checked(2)] by metis
  have "run_ok sha c' l = run_ok sha c1 l" for l by (rule run_ok_cong) (simp_all add: i(2))
  then show ?case using check_run [OF checked(3) i(1)] by simp
next
  case (installed c log ad random i generation t payout r c')
  show ?case by (rule install_run [OF installed.IH installed.hyps(2)])
next
  case (customised c log i t parts r c')
  show ?case by (rule custom_run [OF customised.IH customised.hyps(2)])
qed (auto intro: new_run_ok revoke_run_ok drop_floor_run)

section \<open>Targets as numbers\<close>

lemma times_from_nat:
  "unat carry < 256 \<Longrightarrow> times_from carry scale bs = (product, over) \<Longrightarrow>
    length product = length bs \<and> unat over < 256 \<and> le_nat product + 256 ^ length bs * unat over = le_nat bs * unat scale + unat carry"
proof (induction carry scale bs arbitrary: product over rule: times_from.induct)
  case (2 carry scale byte rest)
  define val where "val = (ucast byte :: u16) * ucast scale + carry"
  obtain more up where m: "times_from (drop_bit 8 val) scale rest = (more, up)" by fastforce
  have b: "unat byte \<le> 255" "unat scale \<le> 255" using unsigned_less [of byte, where ?'a = nat] unsigned_less [of scale, where ?'a = nat] by simp_all
  then have p: "unat byte * unat scale \<le> 255 * 255" by (rule mult_le_mono)
  have v: "unat val = unat byte * unat scale + unat carry"
  proof -
    have "unat ((ucast byte :: u16) * ucast scale) = unat byte * unat scale"
      using p by (simp add: unat_word_ariths unat_ucast_up)
    then show ?thesis using p 2(2) by (simp add: val_def unat_word_ariths)
  qed
  then have c: "unat (drop_bit 8 val) = unat val div 256" "unat (drop_bit 8 val) < 256" using p 2(2) by (simp_all add: unat_drop_bit)
  have u: "unat (ucast val :: u8) = unat val mod 256" by (simp add: unsigned_ucast_eq take_bit_nat_def)
  have r: "product = ucast val # more" "over = up" using 2(3) m by (simp_all add: val_def [symmetric] Let_def)
  note I = 2(1) [OF val_def c(2) m]
  have "le_nat product + 256 ^ length (byte # rest) * unat over = unat val mod 256 + 256 * (le_nat more + 256 ^ length rest * unat up)"
    unfolding r by (simp add: u distrib_left)
  also have "\<dots> = unat val mod 256 + 256 * (unat val div 256) + 256 * (le_nat rest * unat scale)" using I by (simp add: c(1) distrib_left)
  also have "\<dots> = le_nat (byte # rest) * unat scale + unat carry" by (simp add: v distrib_right)
  finally show ?case using I unfolding r by simp
qed simp

lemma le_nat_ones: "le_nat (replicate n (0xff :: u8)) + 1 = 256 ^ n"
  by (induction n) simp_all

lemma times_target_nat:
  assumes "length target = 32"
  shows "length (times_target target scale) = 32" and "le_nat (times_target target scale) = min (le_nat target * unat scale) (2 ^ 256 - 1)"
proof -
  obtain product over where t: "times_from 0 scale target = (product, over)" by fastforce
  have T: "length product = 32" "le_nat product + 256 ^ 32 * unat over = le_nat target * unat scale" using times_from_nat [OF _ t] assms by simp_all
  have p: "le_nat product < 2 ^ 256" using le_nat_less [of product] T(1) by simp
  have f: "le_nat (replicate 32 (0xff :: u8)) = 2 ^ 256 - 1" using le_nat_ones [of 32] by simp
  show "length (times_target target scale) = 32" using T(1) by (simp add: times_target_def t)
  show "le_nat (times_target target scale) = min (le_nat target * unat scale) (2 ^ 256 - 1)"
  proof (cases "over = 0")
    case True
    then show ?thesis using T(2) p by (simp add: times_target_def t)
  next
    case False
    then have "1 \<le> unat over" by (simp add: Suc_leI unat_gt_0)
    then have "2 ^ 256 \<le> le_nat target * unat scale" using T(2) by simp
    then show ?thesis using False f by (simp add: times_target_def t)
  qed
qed

definition floor_nat :: "nat \<Rightarrow> nat \<Rightarrow> nat" where
  "floor_nat target easiest = min easiest (min (15 * target) (2 ^ 256 - 1))"

lemma token_floor_nat:
  assumes "length vardiff = 32" and "length easiest = 32"
  shows "length (token_floor vardiff easiest) = 32" and "le_nat (token_floor vardiff easiest) = floor_nat (le_nat vardiff) (le_nat easiest)"
  using times_target_nat [OF assms(1), of TOKEN_FLOOR_CAP] assms
  by (auto simp: token_floor_def Let_def meets_target_iff floor_nat_def TOKEN_FLOOR_CAP_def min_def)

definition settled_nat :: "nat \<Rightarrow> nat \<Rightarrow> nat \<Rightarrow> nat" where
  "settled_nat desired block maximum = min (max desired block) maximum"

lemma settle_numbers:
  assumes "length (ch_desired c) = 32" and "length block = 32" and "length maximum = 32" and "\<And>e. tokens = Some e \<Longrightarrow> length e = 32"
    and "length (ch_target c) = 32" and "settle block tokens maximum c = (changed, c')"
  shows "le_nat (ch_vardiff_target c') = settled_nat (le_nat (ch_desired c)) (le_nat block) (le_nat maximum)"
    and "le_nat (ch_target c') =
      (let plain = settled_nat (le_nat (ch_desired c)) (le_nat block) (le_nat maximum)
       in case tokens of None \<Rightarrow> plain | Some e \<Rightarrow> min (max plain (floor_nat plain (le_nat e))) (le_nat maximum))"
    and "changed \<longleftrightarrow> ch_target c' \<noteq> ch_target c" and "length (ch_target c') = 32"
proof -
  define first where "first = (if meets_target (ch_desired c) block then block else ch_desired c)"
  define plain where "plain = (if \<not> meets_target first maximum then maximum else first)"
  define final where "final = (case map_option (token_floor plain) tokens of None \<Rightarrow> plain
      | Some f \<Rightarrow> if \<not> meets_target f plain then (if meets_target f maximum then f else maximum) else plain)"
  have f: "length first = 32" "le_nat first = max (le_nat (ch_desired c)) (le_nat block)"
    using assms(1,2) by (auto simp: first_def meets_target_iff)
  then have p: "length plain = 32" "le_nat plain = settled_nat (le_nat (ch_desired c)) (le_nat block) (le_nat maximum)"
    using assms(3) by (auto simp: plain_def meets_target_iff settled_nat_def)
  have l: "le_nat plain \<le> le_nat maximum" unfolding p(2) by (simp add: settled_nat_def)
  have n: "length final = 32 \<and> le_nat final = (case tokens of None \<Rightarrow> le_nat plain | Some e \<Rightarrow> min (max (le_nat plain) (floor_nat (le_nat plain) (le_nat e))) (le_nat maximum))"
  proof (cases tokens)
    case (Some e)
    note T = token_floor_nat [OF p(1) assms(4) [OF Some]]
    show ?thesis using T p(1) l assms(3) by (auto simp: final_def Some meets_target_iff)
  qed (simp add: final_def p(1))
  have e: "settle block tokens maximum c =
    (let c1 = (if plain \<noteq> ch_vardiff_target c then c\<lparr>ch_vardiff_target := plain, ch_vardiff_shares := 0\<rparr> else c)
     in if final = ch_target c1 then (False, c1) else (True, c1\<lparr>ch_target := final\<rparr>))"
    unfolding settle_def first_def [symmetric] Let_def plain_def [symmetric] final_def [symmetric] by (rule refl)
  have r: "ch_vardiff_target c' = plain" "ch_target c' = final" "changed \<longleftrightarrow> final \<noteq> ch_target c"
    using assms(6) unfolding e by (auto simp: Let_def split: if_splits)
  show "le_nat (ch_vardiff_target c') = settled_nat (le_nat (ch_desired c)) (le_nat block) (le_nat maximum)" by (simp add: r p(2))
  show "le_nat (ch_target c') =
      (let plain = settled_nat (le_nat (ch_desired c)) (le_nat block) (le_nat maximum)
       in case tokens of None \<Rightarrow> plain | Some e \<Rightarrow> min (max plain (floor_nat plain (le_nat e))) (le_nat maximum))"
    using n unfolding r Let_def p(2) [symmetric] by blast
  show "changed \<longleftrightarrow> ch_target c' \<noteq> ch_target c" "length (ch_target c') = 32" using n by (simp_all add: r)
qed

section \<open>What an accepted share is worth\<close>

text \<open>A coinbase built for a block template is taken by it, whatever share it came with.\<close>

lemma coinbase_fits_block:
  assumes "coinbase_with_aux sha ad t network payout operator en policy aux = Inr cb" and "is_block t"
  shows "check_block_size t (length (cb_bytes cb)) = Inr ()" and "cb_merkle_root cb = tm_fold sha (double_sha256 sha (cb_bytes cb)) (tm_merkle_path t)"
proof -
  have n: "\<not> is_safa t" using assms(2) by (simp add: is_safa_def token_job_def is_block_def)
  have w: "check_block_size t (length (cb_bytes cb)) = Inr () \<and> cb_merkle_root cb = tm_fold sha (double_sha256 sha (cb_bytes cb)) (tm_merkle_path t)"
    if "coinbase_with_outputs sha t en outs aux = Inr cb" for outs
    using that by (auto simp: coinbase_with_outputs_def Let_def result_bind_Inr_iff split: if_splits)
  show "check_block_size t (length (cb_bytes cb)) = Inr ()" "cb_merkle_root cb = tm_fold sha (double_sha256 sha (cb_bytes cb)) (tm_merkle_path t)"
    using assms(1) n w by (cases "tm_p2pool t"; auto simp: coinbase_with_aux_def result_bind_Inr_iff split: if_splits)+
qed

lemma run_job_built: "channel_run sha c log \<Longrightarrow> find_job c i = Inr job \<Longrightarrow> job_built sha c job"
  using channel_run_ok find_job_active by (fastforce simp: run_ok_def list_all_iff)

lemma accepted_share:
  assumes "check_share sha shr now c = (Inr v, c')"
  obtains job where "find_job c (sh_job_id shr) = Inr job" "share_coinbase sha c job shr = Inr (vs_coinbase v)" "vs_template v = jb_template job"
    "template_header (jb_template job) (vs_coinbase v) (sh_version shr) (sh_time shr) (sh_nonce shr) = Inr (vs_header v)"
    "vs_hash v = double_sha256 sha (vs_header v)" "vs_aux v = jb_aux job" "vs_token_wins v = share_wins job (vs_hash v)"
    "vs_merkle_path v = (if vs_token_wins v = [] then [] else pa_merkle_path (jb_parts job))" "vs_block v = share_block job (vs_hash v) (sh_time shr)"
proof -
  obtain c1 where i: "check_inner sha shr now c = (Inr v, c1)" using check_share_inner [OF assms] by blast
  show thesis
  proof (rule check_inner_Inr [OF i])
    fix job coinbase header h forward
    assume a: "find_job c (sh_job_id shr) = Inr job" "share_header sha c job shr now = Inr (coinbase, header, h)"
      "v = \<lparr>vs_generation = jb_generation job, vs_template = jb_template job, vs_coinbase = coinbase, vs_header = header,
            vs_block = share_block job h (sh_time shr), vs_share_target = accepted_target c job, vs_payout = jb_payout job,
            vs_miner = ch_payout c, vs_operator = ch_operator c, vs_hash = h, vs_aux = jb_aux job, vs_token_wins = share_wins job h,
            vs_merkle_path = (if share_wins job h = [] then [] else pa_merkle_path (jb_parts job)), vs_forward = forward,
            vs_header_win = share_header_win job h\<rparr>"
    from a(2) have "share_coinbase sha c job shr = Inr coinbase"
      "template_header (jb_template job) coinbase (sh_version shr) (sh_time shr) (sh_nonce shr) = Inr header" "h = double_sha256 sha header"
      by (auto simp: share_header_def result_bind_Inr_iff Let_def split: if_splits sum.splits)
    with a show thesis by (intro that [of job]) simp_all
  qed
qed

lemma own_block:
  assumes run: "channel_run sha c log" and check: "check_share sha shr now c = (Inr v, c')" and kind: "find_job c (sh_job_id shr) = Inr job" "jb_kind job = OwnJob"
    and t: "prepared_for (vs_template v)" "tm_origin (vs_template v) \<noteq> HeaderOnly" "length (tm_previous_hash (vs_template v)) = 32"
    and sha: "hash32 sha" and block: "vs_block v"
  shows "template_block sha (vs_template v) (vs_coinbase v) (vs_header v) = Inr (template_assemble (vs_template v) (cb_bytes (vs_coinbase v)) (vs_header v))"
    and "meets_target (double_sha256 sha (vs_header v)) (tm_target (vs_template v))" and "\<not> wrong_bits (vs_template v) (sh_time shr)"
proof -
  note S = accepted_share [OF check]
  have V: "share_coinbase sha c job shr = Inr (vs_coinbase v)" "vs_template v = jb_template job"
    "template_header (jb_template job) (vs_coinbase v) (sh_version shr) (sh_time shr) (sh_nonce shr) = Inr (vs_header v)"
    "vs_hash v = double_sha256 sha (vs_header v)" "vs_block v = share_block job (vs_hash v) (sh_time shr)"
    using S kind(1) by (metis sum.inject(2))+
  have b: "is_block (jb_template job)" "meets_target (vs_hash v) (tm_target (jb_template job))" "\<not> wrong_bits (jb_template job) (sh_time shr)"
    using block by (simp_all add: V(5) share_block_def)
  then have "mineable (jb_template job)" using t(1) V(2) by (simp add: mineable_def is_safa_def token_job_def is_block_def)
  then have "built_for sha job (vs_coinbase v)" using run_job_built [OF run kind(1)] kind(2) V(1) by (auto simp: job_built_def)
  then obtain ad network payout operator en policy commitment where
    cb: "coinbase_with_aux sha ad (jb_template job) network payout operator en policy commitment = Inr (vs_coinbase v)" by (auto simp: built_for_def)
  note F = coinbase_fits_block [OF cb b(1)]
  have "length (double_sha256 sha x) = 32" for x by (simp add: double_sha256_def hash32.length_sha [OF sha])
  then have "length (cb_merkle_root (vs_coinbase v)) = 32" unfolding F(2) tm_fold_merkle_fold by (intro length_merkle_fold [OF sha])
  moreover have "vs_header v = to_le_bytes (sh_version shr) @ tm_previous_hash (jb_template job) @ cb_merkle_root (vs_coinbase v) @ to_le_bytes (sh_time shr) @
      to_le_bytes (tm_bits (jb_template job)) @ to_le_bytes (sh_nonce shr)" using V(3) by (simp add: template_header_def split: if_splits)
  ultimately have h: "subrange (vs_header v) 4 36 = tm_previous_hash (jb_template job)" "subrange (vs_header v) 36 68 = cb_merkle_root (vs_coinbase v)"
      "subrange (vs_header v) 72 76 = to_le_bytes (tm_bits (jb_template job))"
    using t(3) by (simp_all add: V(2) subrange_def)
  show "template_block sha (vs_template v) (vs_coinbase v) (vs_header v) = Inr (template_assemble (vs_template v) (cb_bytes (vs_coinbase v)) (vs_header v))"
    using F h b(1) t(2) by (simp add: template_block_def V(2))
  show "meets_target (double_sha256 sha (vs_header v)) (tm_target (vs_template v))" "\<not> wrong_bits (vs_template v) (sh_time shr)"
    using b V(2,4) by simp_all
qed

lemma own_win:
  assumes sha: "hash32 sha" and run: "channel_run sha c log" and check: "check_share sha shr now c = (Inr v, c')" and win: "token_win v = Some w"
    and t: "path_ok (vs_template v)" "is_block (vs_template v)" "prepared_for (vs_template v)"
    and ts: "tm_tokens (vs_template v) = Some ts" "search_entries sha (ts_entries ts) = Some (ts_layout ts)" "states_ok ts"
    and small: "length (cb_bytes (vs_coinbase v)) \<le> 65535" and i: "i \<in> set (tw_entries w)"
  shows "\<exists>p. win_proof w i = Inr p \<and>
    verify_leaf sha p (ae_leaf (aj_entries (tw_aux w) ! unat i)) (mt_max_aux_height (ae_token (aj_entries (tw_aux w) ! unat i))) = Inr ()"
proof (rule accepted_share [OF check])
  fix job
  assume V: "find_job c (sh_job_id shr) = Inr job" "share_coinbase sha c job shr = Inr (vs_coinbase v)" "vs_template v = jb_template job"
    "template_header (jb_template job) (vs_coinbase v) (sh_version shr) (sh_time shr) (sh_nonce shr) = Inr (vs_header v)"
    "vs_hash v = double_sha256 sha (vs_header v)" "vs_aux v = jb_aux job" "vs_token_wins v = share_wins job (vs_hash v)"
    "vs_merkle_path v = (if vs_token_wins v = [] then [] else pa_merkle_path (jb_parts job))"
  obtain aux where w: "jb_aux job = Some aux" "vs_token_wins v \<noteq> []" "tw_aux w = aux" "tw_entries w = vs_token_wins v" "tw_coinbase w = cb_bytes (vs_coinbase v)"
    "tw_merkle_path w = vs_merkle_path v" "tw_header w = vs_header v" using win by (auto simp: token_win_def V(6) split: if_splits)
  have n: "\<not> is_safa (jb_template job)" using t(2) by (simp add: V(3) is_safa_def token_job_def is_block_def)
  have "mineable (jb_template job)" using t(3) n by (simp add: V(3) mineable_def)
  then have built: "built_for sha job (vs_coinbase v)" and path: "pa_merkle_path (jb_parts job) = tm_merkle_path (jb_template job)"
    using run_job_built [OF run V(1)] w(1) V(2) by (auto simp: job_built_def)
  from built w(1) obtain ad network payout operator en policy where
    cb: "coinbase_with_aux sha ad (jb_template job) network payout operator en policy (Some (aj_output aux)) = Inr (vs_coinbase v)"
    and aj: "aux_job sha ad (jb_template job) network payout operator policy = Inr (Some aux)" by (auto simp: built_for_def)
  obtain terms where j: "aux = job_build sha ts terms" using aux_job_built [OF aj] ts(1) V(3) by auto
  obtain outs where outs: "coinbase_with_outputs sha (jb_template job) en outs (Some (aj_output aux)) = Inr (vs_coinbase v)" by (rule coinbase_aux_outputs [OF cb n])
  have m: "mined sha aux (coinbase_head (jb_template job) en (Suc (length outs))) (tail_bytes outs) (tm_merkle_path (jb_template job)) (vs_header v)"
    by (rule template_mines [OF sha _ outs small V(4)]) (use t(1) V(3) in simp)
  have "i \<in> set (wins aux (double_sha256 sha (vs_header v)))"
    using i by (auto simp: w V(7) V(5) share_wins_def split: option.splits if_splits)
  from assemble_verifies [OF sha ts(2,3) m [unfolded j] this [unfolded j]]
  show ?thesis unfolding win_proof_def w(3-7) V(8) j path
    using w(2) coinbase_around_output(1) [OF outs] by (auto simp: j path)
qed

section \<open>A share that wins\<close>

definition demo_share :: Share where
  "demo_share = \<lparr>sh_channel_id = 7, sh_job_id = 1, sh_sequence = 1, sh_version = 2, sh_time = 1000, sh_nonce = 5, sh_extranonce = replicate 8 0\<rparr>"

definition demo_channel :: Channel where
  "demo_channel = \<lparr>ch_id = 7, ch_kind = Extended, ch_target = replicate 32 255, ch_extranonce_prefix = to_le_bytes (3 :: u32), ch_network = Chipnet,
     ch_payout = ''m'', ch_operator = None, ch_job = None, ch_previous = [], ch_sequence = None, ch_seen = [], ch_accepted = 0, ch_rejected = 0,
     ch_desired = replicate 32 255, ch_vardiff_target = replicate 32 255, ch_vardiff_shares = 0, ch_hashrate = 0, ch_custom_only = False,
     ch_rolled = DEVICE_EXTRANONCE_SIZE, ch_compact = False, ch_donation = None, ch_token_refusal = None\<rparr>"

lemma demo_channel_run: "channel_run sha demo_channel []"
proof -
  have "channel_new demo_addresses True (\<lambda>_. 0) 7 Extended (replicate 32 255) (replicate 12 0) Chipnet ''m'' =
      Inr (demo_channel\<lparr>ch_extranonce_prefix := replicate 12 0 @ to_le_bytes (7 :: u32)\<rparr>)"
    by (simp add: channel_new_def demo_addresses_def ok_or_def demo_channel_def)
  then have "channel_run sha (set_lane 3 False (demo_channel\<lparr>ch_extranonce_prefix := replicate 12 0 @ to_le_bytes (7 :: u32)\<rparr>)) []"
    by (intro channel_run.laned [OF channel_run.opened]) (simp_all add: demo_channel_def)
  then show ?thesis by (simp add: set_lane_def demo_channel_def Let_def)
qed

lemma token_template_fields:
  "tm_p2pool (token_template target ts) = None" "tm_jd (token_template target ts) = None" "tm_work (token_template target ts) = BlockWork"
  "tm_coinbase_value (token_template target ts) = 312500000" "tm_merkle_path (token_template target ts) = []" "tm_tokens (token_template target ts) = Some ts"
  "tm_previous_hash (token_template target ts) = replicate 32 0" "tm_height (token_template target ts) = 17" "tm_version (token_template target ts) = 2"
  "tm_current_time (token_template target ts) = 1000" "tm_min_time (token_template target ts) = 1000" "tm_origin (token_template target ts) = OwnSource"
  "tm_parent_time (token_template target ts) = None" "tm_target (token_template target ts) = target"
  by (simp_all add: token_template_def commit_tokens_def demo_template_def)

lemma demo_small_coinbase:
  assumes "length en \<le> 16" and "length c = 53"
  shows "\<exists>bytes. coinbase_with_aux sha demo_addresses (token_template target ts) Chipnet ''m'' None en demo_work (Some c) =
    Inr \<lparr>cb_bytes = bytes, cb_merkle_root = double_sha256 sha bytes\<rparr> \<and> length bytes \<le> 1153"
proof -
  let ?t = "token_template target ts" and ?o = "[(312500000 :: u64, [0x52 :: u8])]"
  have s: "payout_scripts demo_addresses Chipnet ''m'' None = Inr [[0x51], [0x52]]" by (simp add: payout_scripts_def demo_addresses_def ok_or_def)
  let ?bytes = "front_bytes ?t (length en) @ en @ back_bytes ?t (length en) ?o (Some c)"
  have l: "length ?bytes \<le> 1153"
    using assms by (simp add: length_front_bytes back_bytes_def tail_bytes_def output_bytes_def tm_compact_size_def count_of_def demo_head_length)
  have small: "check_block_size ?t n = Inr ()" if "n \<le> 1153" for n
  proof -
    have "\<not> (1153 :: u64) < word_of_nat n" using that by (simp add: word_less_nat_alt unat_of_nat)
    then show ?thesis by (simp add: check_block_size_def demo_budget)
  qed
  have "check_block_size ?t (length (front_bytes ?t (length en)) + length en + length (back_bytes ?t (length en) ?o (Some c))) = Inr ()"
    by (rule small) (use l in simp)
  then have f: "fits_template ?t (length en) ?o (Some c) = Inr ()"
    using assms by (simp add: fits_template_def count_of_def demo_head_length)
  have "coinbase_with_aux sha demo_addresses ?t Chipnet ''m'' None en demo_work (Some c) = Inr \<lparr>cb_bytes = ?bytes, cb_merkle_root = double_sha256 sha ?bytes\<rparr>"
    using f by (simp add: coinbase_with_aux_def check_p2pool_prepared_def is_p2pool_def is_safa_def token_job_def s demo_outputs coinbase_with_outputs_eq Let_def
        token_template_fields)
  with l show ?thesis by blast
qed

lemma demo_win:
  fixes ts :: TokenSet
  defines "t \<equiv> token_template (replicate 32 0) ts"
  assumes ts: "set_new zero_sha (\<lambda>_. None) (\<lambda>_. []) Chipnet [demo_entry] 1 = Inr ts"
  obtains aux job c v c' where "channel_run zero_sha c []" "find_job c 1 = Inr job" "jb_kind job = OwnJob" "check_share zero_sha demo_share 1000 c = (Inr v, c')"
    "vs_template v = t" "vs_block v" "vs_aux v = Some aux" "0 \<in> set (vs_token_wins v)" "length (cb_bytes (vs_coinbase v)) \<le> 65535" "vs_hash v = ZERO_HASH"
proof -
  have s: "search_entries zero_sha (ts_entries ts) = Some (ts_layout ts)" "ts_entries ts = [demo_entry]" "ts_threads ts = []"
    by (rule demo_set_fields [OF ts])+
  note f = token_template_fields [of "replicate 32 0" ts, folded t_def]
  define terms where "terms = \<lparr>lt_payout = [0x52], lt_split = NO_SPLIT, lt_plain_payout = [0x52 :: u8]\<rparr>"
  define aux where "aux = job_build zero_sha ts terms"
  have aj: "aux_job zero_sha demo_addresses t Chipnet ''m'' None demo_work = Inr (Some aux)"
    by (simp add: aux_job_def f payout_scripts_def demo_addresses_def ok_or_def leaf_terms_def demo_work_def aux_def terms_def)
  have root: "length (ac_root (aj_commitment aux)) = 32"
    unfolding aux_def job_build_simps(3) by simp (rule root_length [OF zero_sha_hash32], auto simp: length_leaf_hash [OF zero_sha_hash32])
  have out: "aj_output aux = commitment_output (aj_commitment aux)" by (simp add: aux_def job_build_simps)
  then have o: "length (aj_output aux) = 53" using root length_commitment_output by (simp add: OUTPUT_LEN_def)
  have safa: "\<not> is_safa t" by (simp add: is_safa_def token_job_def f)
  have own: "check_own_root (cb_bytes cb) (aj_commitment aux) = Inr ()"
    if w: "coinbase_with_aux zero_sha demo_addresses t Chipnet ''m'' None en demo_work (Some (aj_output aux)) = Inr cb" for en cb
  proof -
    obtain outs where "coinbase_with_outputs zero_sha t en outs (Some (aj_output aux)) = Inr cb" by (rule coinbase_aux_outputs [OF w safa])
    from coinbase_around_output [OF this] show ?thesis unfolding check_own_root_iff [OF root] using out by auto
  qed
  have open8: "length (job_opening t 1) = 4" by (simp add: job_opening_def f)
  obtain standard where st: "coinbase_with_aux zero_sha demo_addresses t Chipnet ''m'' None (job_opening t 1 @ to_le_bytes (3 :: u32)) demo_work (Some (aj_output aux)) = Inr standard"
    using demo_small_coinbase [of "job_opening t 1 @ to_le_bytes (3 :: u32)" "aj_output aux" zero_sha "replicate 32 0" ts, folded t_def] o open8 by auto
  obtain z where z: "coinbase_with_aux zero_sha demo_addresses t Chipnet ''m'' None (replicate 16 0) demo_work (Some (aj_output aux)) = Inr z"
    using demo_small_coinbase [of "replicate 16 0" "aj_output aux" zero_sha "replicate 32 0" ts, folded t_def] o by auto
  define p where "p = split_coinbase t z 16"
  have pa: "coinbase_parts_with_aux zero_sha demo_addresses t Chipnet ''m'' None 16 demo_work (Some (aj_output aux)) = Inr p"
    using z by (simp add: coinbase_parts_with_aux_def p_def)
  define parts where "parts = p\<lparr>pa_prefix := pa_prefix p @ job_opening t 1\<rparr>"
  have jc: "job_coinbases zero_sha demo_addresses (\<lambda>_. 0) 1 t demo_work (Some aux) demo_channel = Inr (standard, parts)"
    using st pa open8 by (simp add: job_coinbases_def Let_def demo_channel_def job_extranonce_def f parts_def DEVICE_EXTRANONCE_SIZE_def)
  have m: "mineable t" by (simp add: mineable_def prepared_for_def f safa)
  note J = job_coinbases_Inr [OF jc m, of "replicate 8 0"]
  have ext: "coinbase_with_aux zero_sha demo_addresses t Chipnet ''m'' None (job_opening t 1 @ to_le_bytes (3 :: u32) @ replicate 8 0) demo_work (Some (aj_output aux)) =
      Inr \<lparr>cb_bytes = pa_prefix parts @ to_le_bytes (3 :: u32) @ replicate 8 0 @ pa_suffix parts,
           cb_merkle_root = tm_fold zero_sha (double_sha256 zero_sha (pa_prefix parts @ to_le_bytes (3 :: u32) @ replicate 8 0 @ pa_suffix parts)) (pa_merkle_path parts)\<rparr>"
    using J(3) by (simp add: demo_channel_def DEVICE_EXTRANONCE_SIZE_def)
  have ct: "check_tokens zero_sha demo_addresses demo_channel standard parts aux = Inr ()"
    using own [OF st] own [OF ext] by (simp add: check_tokens_def own_root_def demo_channel_def DEVICE_EXTRANONCE_SIZE_def job_audit_def)
  define job where "job = \<lparr>jb_id = 1, jb_generation = 9, jb_template = t, jb_standard_coinbase = standard, jb_parts = parts,
    jb_target = replicate 32 255, jb_payout = demo_work, jb_aux = Some aux, jb_kind = OwnJob\<rparr>"
  define c where "c = demo_channel\<lparr>ch_job := Some job\<rparr>"
  have "install_with_payout zero_sha demo_addresses (\<lambda>_. 0) 1 9 t demo_work demo_channel = (Inr job, c)"
    using aj jc ct by (simp add: install_with_payout_def own_policy_def id_in_use_def demo_channel_def f tokens_refused_def is_p2pool_def Let_def job_def c_def
        retain_previous_def)
  from channel_run.installed [OF demo_channel_run this] have run: "channel_run zero_sha c []" by (simp add: live_def)
  let ?cb = "\<lparr>cb_bytes = pa_prefix parts @ to_le_bytes (3 :: u32) @ replicate 8 0 @ pa_suffix parts,
      cb_merkle_root = tm_fold zero_sha (double_sha256 zero_sha (pa_prefix parts @ to_le_bytes (3 :: u32) @ replicate 8 0 @ pa_suffix parts)) (pa_merkle_path parts)\<rparr>"
  have cb: "share_coinbase zero_sha c job demo_share = Inr ?cb"
    by (simp add: share_coinbase_def c_def demo_channel_def demo_share_def rollable_def DEVICE_EXTRANONCE_SIZE_def job_def Let_def)
  have size: "length (cb_bytes ?cb) \<le> 65535"
    using demo_small_coinbase [of "job_opening t 1 @ to_le_bytes (3 :: u32) @ replicate 8 0" "aj_output aux" zero_sha "replicate 32 0" ts, folded t_def] o open8 ext by auto
  obtain header where h: "template_header t ?cb 2 1000 5 = Inr header" by (simp add: template_header_def f)
  have d: "double_sha256 zero_sha header = ZERO_HASH" by (simp add: double_sha256_def zero_sha_def)
  have low: "meets_target ZERO_HASH x" if "length x = 32" for x using that by (simp add: meets_target_iff ZERO_HASH_def)
  have q: "sh_channel_id demo_share = ch_id c" "sh_job_id demo_share = 1" "sh_sequence demo_share = 1" "sh_version demo_share = 2" "sh_time demo_share = 1000"
    "sh_nonce demo_share = 5" "\<not> stale_sequence c demo_share" "ch_seen c = []" "jb_id job = 1" "jb_template job = t" "jb_aux job = Some aux" "jb_kind job = OwnJob"
    "accepted_target c job = replicate 32 255"
    by (simp_all add: demo_share_def c_def demo_channel_def stale_sequence_def job_def accepted_target_def)
  have sh: "share_header zero_sha c job demo_share 1000 = Inr (?cb, header, ZERO_HASH)"
    unfolding share_header_def q using h low [of "replicate 32 255"] by (simp add: cb f share_late_def q saturating_add_def d Let_def)
  obtain k where k: "l_slots (ts_layout ts) = [k]" using search_entries_layout(2) [OF s(1)] by (cases "l_slots (ts_layout ts)") (auto simp: s)
  have e: "aj_easiest aux = Some (st_target demo_state)" "length (st_target demo_state) = 32"
    by (simp_all add: aux_def job_build_def Let_def s k job_entry_def set_threads_def demo_entry_def demo_token_def demo_state_def)
  have "0 \<in> set (wins aux ZERO_HASH)"
    using low [OF e(2)] by (simp add: wins_iff aux_def job_build_simps s k job_entry_def set_threads_def demo_entry_def demo_token_def)
  then have w: "0 \<in> set (share_wins job ZERO_HASH)" using low [OF e(2)] by (simp add: share_wins_def job_def e(1))
  have b: "share_block job ZERO_HASH 1000"
    using low [of "replicate 32 0"] by (simp add: share_block_def job_def is_block_def f wrong_bits_def stale_bits_def stale_from_def)
  have fw: "share_forward job demo_share ?cb ZERO_HASH = Inr None" by (simp add: share_forward_def job_def f)
  have fj: "find_job c 1 = Inr job" by (simp add: find_job_def c_def job_def)
  obtain v c1 where v: "check_inner zero_sha demo_share 1000 c = (Inr v, c1)" "vs_template v = t" "vs_block v" "vs_aux v = Some aux"
    "vs_token_wins v = share_wins job ZERO_HASH" "vs_coinbase v = ?cb" "vs_hash v = ZERO_HASH"
    by (rule that) (simp add: check_inner_def q fj sh fw b MAX_SHARES_PER_JOB_def Let_def, simp_all add: q b)
  obtain c' where "check_share zero_sha demo_share 1000 c = (Inr v, c')" by (simp add: check_share_def v(1))
  then show thesis using that [OF run fj] v w size q by simp
qed

lemma remembered_bound:
  assumes "channel_ok c"
  shows "length (active c) \<le> MAX_ACTIVE_JOBS" and "length (remembered c) \<le> MAX_ACTIVE_JOBS * MAX_SHARES_PER_JOB"
proof -
  note o = assms [unfolded channel_ok_def]
  show a: "length (active c) \<le> MAX_ACTIVE_JOBS" using o by (cases "ch_job c") (simp_all add: active_def)
  have "card (fst ` set (ch_seen c)) \<le> card (active_ids c)" using o by (intro card_mono) (simp_all add: active_ids_def)
  also have "\<dots> \<le> length (active c)" unfolding active_ids_def by (metis card_image_le card_length finite_set order_trans)
  finally have n: "length (ch_seen c) \<le> MAX_ACTIVE_JOBS" using a o distinct_card [of "map fst (ch_seen c)"] by simp
  have "length (concat (map snd seen)) \<le> length seen * MAX_SHARES_PER_JOB" if "list_all (\<lambda>(_, hashes). length hashes \<le> MAX_SHARES_PER_JOB) seen" for seen :: "(u32 \<times> hash list) list"
    using that by (induction seen) auto
  then have "length (remembered c) \<le> length (ch_seen c) * MAX_SHARES_PER_JOB" using o by (simp add: remembered_def)
  also have "\<dots> \<le> MAX_ACTIVE_JOBS * MAX_SHARES_PER_JOB" using n by (rule mult_le_mono1)
  finally show "length (remembered c) \<le> MAX_ACTIVE_JOBS * MAX_SHARES_PER_JOB" .
qed

section \<open>Properties\<close>

text \<open>C9. No share counts twice: over any life of a channel (jobs installed, replaced, expired and revoked, targets moved, shares of any kind checked in any
  order), the shares accepted on the jobs in hand have distinct header hashes, and no further share with one of these
  hashes is accepted, on whichever job in hand it is submitted.\<close>

theorem no_share_counts_twice:
  assumes "channel_run sha c log"
  shows "distinct (map snd log) \<and> (\<forall>(i, h)\<in>set log. i \<in> active_ids c \<and> h \<in> set (seen_of i (ch_seen c))) \<and>
    (\<forall>shr now v c'. check_share sha shr now c = (Inr v, c') \<longrightarrow> vs_hash v \<notin> snd ` set log \<and> sh_job_id shr \<in> active_ids c)"
proof -
  have l: "log_ok c log" using channel_run_ok [OF assms] by (simp add: run_ok_def)
  have "vs_hash v \<notin> snd ` set log \<and> sh_job_id shr \<in> active_ids c" if check: "check_share sha shr now c = (Inr v, c')" for shr now v c'
  proof -
    have "log_ok c' ((sh_job_id shr, vs_hash v) # log)"
      using channel_run_ok [OF channel_run.checked [OF assms check]] by (simp add: run_ok_def)
    then have "vs_hash v \<notin> snd ` set log" by (simp add: log_ok_def)
    moreover obtain job where "find_job c (sh_job_id shr) = Inr job" using accepted_share [OF check] by blast
    then have "sh_job_id shr \<in> active_ids c" using find_job_active by (metis active_ids_def image_eqI)
    ultimately show ?thesis by blast
  qed
  with l show ?thesis by (auto simp: log_ok_def)
qed

text \<open>A channel stays small and on one parent: at every moment a channel holds at most 8 jobs, under distinct ids and all on one parent and one difficulty,
  and remembers at most 131,072 hashes, without repetition and only of jobs it holds.\<close>

theorem channel_stays_bounded:
  assumes "channel_run sha c log"
  shows "length (active c) \<le> 8 \<and> distinct (map jb_id (active c)) \<and>
    (\<forall>a\<in>set (active c). \<forall>b\<in>set (active c). tm_previous_hash (jb_template a) = tm_previous_hash (jb_template b) \<and> tm_bits (jb_template a) = tm_bits (jb_template b)) \<and>
    length (remembered c) \<le> 131072 \<and> distinct (remembered c) \<and> fst ` set (ch_seen c) \<subseteq> active_ids c"
proof -
  have ok: "channel_ok c" using channel_run_ok [OF assms] by (simp add: run_ok_def)
  have "tm_previous_hash (jb_template a) = tm_previous_hash (jb_template b) \<and> tm_bits (jb_template a) = tm_bits (jb_template b)"
    if "a \<in> set (active c)" "b \<in> set (active c)" for a b
    using ok that by (cases "ch_job c") (auto simp: channel_ok_def active_def list_all_iff same_parent_def)
  moreover have "length (active c) \<le> 8" "length (remembered c) \<le> 131072"
    using remembered_bound [OF ok] by (simp_all add: MAX_ACTIVE_JOBS_def MAX_SHARES_PER_JOB_def)
  moreover have "distinct (map jb_id (active c))" "distinct (remembered c)" "fst ` set (ch_seen c) \<subseteq> active_ids c"
    using ok [unfolded channel_ok_def] by blast+
  ultimately show ?thesis by blast
qed

text \<open>C11. A share that finds a block is a block: whenever a channel accepts a share on one of the pool's own jobs and marks it a block, its header meets the
  template's target at a time that needs the template's bits, and the template takes its coinbase and header as a
  whole block (for a template with transactions and a parent hash of 32 bytes, prepared where it is a P2Pool one).\<close>

theorem share_blocks_are_whole:
  assumes "hash32 sha" and "channel_run sha c log" and "check_share sha shr now c = (Inr v, c')" and "find_job c (sh_job_id shr) = Inr job" and "jb_kind job = OwnJob"
    and "prepared_for (vs_template v)" and "tm_origin (vs_template v) \<noteq> HeaderOnly" and "length (tm_previous_hash (vs_template v)) = 32" and "vs_block v"
  shows "template_block sha (vs_template v) (vs_coinbase v) (vs_header v) =
      Inr (vs_header v @ tm_compact_size (length (tm_transactions (vs_template v)) + 1) @ cb_bytes (vs_coinbase v) @ concat (tm_transactions (vs_template v))) \<and>
    meets_target (double_sha256 sha (vs_header v)) (tm_target (vs_template v)) \<and> \<not> wrong_bits (vs_template v) (sh_time shr)"
  using own_block [OF assms(2-8,1,9)] by (simp add: template_assemble_def)

text \<open>C10. A share that wins tokens is claimable: whenever a channel accepts a share that wins tokens, on whatever job of its life the share is, the proof
  assembled from what the share hands on is accepted by the reference verifier for every entry it names, under the leaf the
  job committed to (for a sound token set, a block template prepared where it is a P2Pool one, and a coinbase of at most 65,535 bytes).\<close>

theorem share_wins_are_claimable:
  assumes "hash32 sha" and "channel_run sha c log" and "check_share sha shr now c = (Inr v, c')" and "token_win v = Some w"
    and "path_ok (vs_template v)" and "is_block (vs_template v)" and "prepared_for (vs_template v)" and "tm_tokens (vs_template v) = Some ts"
    and "search_entries sha (ts_entries ts) = Some (ts_layout ts)" and "states_ok ts" and "length (cb_bytes (vs_coinbase v)) \<le> 65535" and "i \<in> set (tw_entries w)"
  shows "\<exists>p. win_proof w i = Inr p \<and>
    verify_leaf sha p (ae_leaf (aj_entries (tw_aux w) ! unat i)) (mt_max_aux_height (ae_token (aj_entries (tw_aux w) ! unat i))) = Inr ()"
  by (rule own_win [OF assms])

text \<open>The target a device mines at is exact: read as numbers, the vardiff target is the wanted one eased to the block target and capped at the device's
  maximum; with tokens the device's target is eased further to the easiest token target, by a factor of at most 15 (saturating at
  256 bits) and never past its maximum; and the device is told exactly when its target changed.\<close>

theorem settle_exact:
  assumes "length (ch_desired c) = 32" and "length block = 32" and "length maximum = 32" and "\<forall>e. tokens = Some e \<longrightarrow> length e = 32"
    and "length (ch_target c) = 32" and "settle block tokens maximum c = (changed, c')"
  shows "le_nat (ch_vardiff_target c') = min (max (le_nat (ch_desired c)) (le_nat block)) (le_nat maximum) \<and>
    le_nat (ch_target c') =
      (let plain = min (max (le_nat (ch_desired c)) (le_nat block)) (le_nat maximum)
       in case tokens of None \<Rightarrow> plain
          | Some e \<Rightarrow> min (max plain (min (le_nat e) (min (15 * plain) (2 ^ 256 - 1)))) (le_nat maximum)) \<and>
    changed = (ch_target c' \<noteq> ch_target c)"
  using settle_numbers [OF assms(1-3) _ assms(5,6)] assms(4) unfolding settled_nat_def floor_nat_def by blast

theorem no_share_counts_twice_witness:
  "\<exists>c log v c'. channel_run zero_sha c log \<and> check_share zero_sha demo_share 1000 c = (Inr v, c') \<and> vs_hash v \<notin> snd ` set log \<and>
     (\<forall>shr now w c''. check_share zero_sha shr now c' = (Inr w, c'') \<longrightarrow> vs_hash w \<noteq> vs_hash v)"
proof -
  obtain ts where ts: "set_new zero_sha (\<lambda>_. None) (\<lambda>_. []) Chipnet [demo_entry] 1 = Inr ts" by (rule demo_set)
  obtain c v c' where c: "channel_run zero_sha c []" "check_share zero_sha demo_share 1000 c = (Inr v, c')" by (rule demo_win [OF ts])
  have "channel_run zero_sha c' [(1, vs_hash v)]" using channel_run.checked [OF c] by (simp add: demo_share_def)
  from no_share_counts_twice [OF this] have "vs_hash w \<noteq> vs_hash v" if "check_share zero_sha shr now c' = (Inr w, c'')" for shr now w c''
    using that by auto
  moreover have "vs_hash v \<notin> snd ` set ([] :: (u32 \<times> hash) list)" by simp
  ultimately show ?thesis using c by blast
qed

theorem channel_stays_bounded_witness:
  "\<exists>c v c'. channel_run zero_sha c [] \<and> check_share zero_sha demo_share 1000 c = (Inr v, c') \<and> length (active c) \<le> 8 \<and> active c \<noteq> []"
proof -
  obtain ts where ts: "set_new zero_sha (\<lambda>_. None) (\<lambda>_. []) Chipnet [demo_entry] 1 = Inr ts" by (rule demo_set)
  obtain c job v c' where c: "channel_run zero_sha c []" "find_job c 1 = Inr job" "check_share zero_sha demo_share 1000 c = (Inr v, c')" by (rule demo_win [OF ts])
  from channel_stays_bounded [OF c(1)] find_job_active [OF c(2)] c show ?thesis by fastforce
qed

theorem share_blocks_are_whole_witness:
  "\<exists>c v c' block. channel_run zero_sha c [] \<and> check_share zero_sha demo_share 1000 c = (Inr v, c') \<and>
     template_block zero_sha (vs_template v) (vs_coinbase v) (vs_header v) = Inr block"
proof -
  obtain ts where ts: "set_new zero_sha (\<lambda>_. None) (\<lambda>_. []) Chipnet [demo_entry] 1 = Inr ts" by (rule demo_set)
  obtain job c v c' where c: "channel_run zero_sha c []" "find_job c 1 = Inr job" "jb_kind job = OwnJob" "check_share zero_sha demo_share 1000 c = (Inr v, c')"
    "vs_template v = token_template (replicate 32 0) ts" "vs_block v" by (rule demo_win [OF ts])
  have "find_job c (sh_job_id demo_share) = Inr job" using c(2) by (simp add: demo_share_def)
  from share_blocks_are_whole [OF zero_sha_hash32 c(1,4) this c(3)] c show ?thesis by (auto simp: token_template_fields prepared_for_def)
qed

theorem share_wins_are_claimable_witness:
  "\<exists>c v c' w p. channel_run zero_sha c [] \<and> check_share zero_sha demo_share 1000 c = (Inr v, c') \<and> token_win v = Some w \<and> win_proof w 0 = Inr p"
proof -
  obtain ts where ts: "set_new zero_sha (\<lambda>_. None) (\<lambda>_. []) Chipnet [demo_entry] 1 = Inr ts" by (rule demo_set)
  have s: "search_entries zero_sha (ts_entries ts) = Some (ts_layout ts)" "ts_entries ts = [demo_entry]" "ts_threads ts = []" by (rule demo_set_fields [OF ts])+
  have ok: "states_ok ts" using demo_entry_ok(2) by (simp add: states_ok_def s)
  obtain aux c v c' where c: "channel_run zero_sha c []" "check_share zero_sha demo_share 1000 c = (Inr v, c')"
    "vs_template v = token_template (replicate 32 0) ts" "vs_aux v = Some aux" "0 \<in> set (vs_token_wins v)" "length (cb_bytes (vs_coinbase v)) \<le> 65535"
    by (rule demo_win [OF ts])
  have "vs_token_wins v \<noteq> []" using c(5) by auto
  then obtain w where w: "token_win v = Some w" "tw_entries w = vs_token_wins v" using c(4) by (simp add: token_win_def)
  have t: "path_ok (vs_template v)" "is_block (vs_template v)" "prepared_for (vs_template v)" "tm_tokens (vs_template v) = Some ts"
    by (simp_all add: c(3) path_ok_def token_template_fields is_block_def prepared_for_def)
  have "0 \<in> set (tw_entries w)" using w(2) c(5) by simp
  from share_wins_are_claimable [OF zero_sha_hash32 c(1,2) w(1) t s(1) ok c(6) this] c(1,2) w(1) show ?thesis by blast
qed

theorem settle_exact_witness:
  "\<exists>changed c'. settle (replicate 32 1) (Some (replicate 32 9)) (replicate 32 200) (demo_channel\<lparr>ch_desired := replicate 32 2\<rparr>) = (changed, c') \<and>
     le_nat (ch_target c') = le_nat (replicate 32 (9 :: u8))"
proof -
  let ?c = "demo_channel\<lparr>ch_desired := replicate 32 2\<rparr>"
  obtain changed c' where s: "settle (replicate 32 1) (Some (replicate 32 9)) (replicate 32 200) ?c = (changed, c')" by fastforce
  have l: "length (ch_desired ?c) = 32" "length (ch_target ?c) = 32" by (simp_all add: demo_channel_def)
  define r where "r = le_nat (replicate 32 (1 :: u8))"
  have g: "le_nat (replicate n (x :: u8)) = unat x * le_nat (replicate n (1 :: u8))" for n x by (induction n) (simp_all add: algebra_simps)
  have b: "30 * r < 2 ^ 256" using le_nat_less [of "replicate 32 (30 :: u8)"] g [of 32 30] by (simp add: r_def)
  have n: "le_nat (replicate 32 (2 :: u8)) = 2 * r" "le_nat (replicate 32 (9 :: u8)) = 9 * r" "le_nat (replicate 32 (200 :: u8)) = 200 * r"
    unfolding r_def by (subst g; simp)+
  have "le_nat (ch_target c') = min (max (2 * r) (min (9 * r) (min (15 * (2 * r)) (2 ^ 256 - 1)))) (200 * r)"
    using settle_exact [OF l(1) _ _ _ l(2) s] n by (simp add: Let_def r_def [symmetric] max_def min_def)
  also have "\<dots> = 9 * r" using b by (simp add: min_def max_def)
  finally have "le_nat (ch_target c') = le_nat (replicate 32 (9 :: u8))" by (simp only: n)
  with s show ?thesis by blast
qed

end
