(* ===== verification/Spec2Isabelle.thy ===== *)
theory Spec2Isabelle
  imports Window Claim Channels
begin

text \<open>
  Pickaxe Miner: the arithmetic engine, merge mining, payouts, token claims, block templates and Job Declaration.

  \<^bold>\<open>The program.\<close> Pickaxe mines proof-of-work tokens on Bitcoin Cash and runs a Stratum V2 pool. Its engine
  (\<open>rust-engine/src\<close>) computes, on every device, secp256k1 field and scalar arithmetic, SHA-256 and Schnorr signatures of
  candidate transactions. Its coordinator (\<open>src/stratum_v2\<close>) builds block templates that commit, in output 0 of the
  coinbase, to a tree of token leaves (\<open>merge\<close>), shares block rewards and token wins between miner, donation and
  pool operator (\<open>donation\<close>, \<open>payout.rs\<close>, \<open>merge/split.rs\<close>), claims the wins of the tSAFA token from its covenant
  (\<open>merge/safa_auxpow.rs\<close>), and lets miners declare their own jobs (\<open>jd\<close>).

  \<^bold>\<open>The theories\<close>, each on the sources it names:

  \<^item> \<open>Prelude\<close>: machine integers as words, little-endian digits, checked and saturating arithmetic, \<open>Result\<close>; the
    locale \<open>hash32\<close> states the only thing the coordinator relies on of a digest (its length), and \<open>Sha256\<close> interprets it.
  \<^item> \<open>Wide\<close>, \<open>Field\<close>, \<open>Scalar\<close>, \<open>Point\<close>, \<open>Binary_Euclid\<close> (\<open>wide.rs\<close>, \<open>field.rs\<close>, \<open>scalar.rs\<close>, \<open>point.rs\<close>, the loops of
    \<open>sign.rs\<close>): limb arithmetic at its 32-bit width. The locale \<open>wide_arith\<close> is the interface of the 64-bit intermediates; it
    is interpreted on both builds of the source, and the field and scalar operations are proved once over it to be
    arithmetic modulo \<open>p\<close> and \<open>n\<close>. The binary loops are partial functions into \<open>option\<close>,
    and it is proved that the inverse of a unit and the Jacobi loop return.
  \<^item> \<open>Sha256\<close>, \<open>Sign\<close>, \<open>Window\<close> (\<open>sha256.rs\<close>, \<open>sign.rs\<close>, \<open>nonce.rs\<close>, \<open>window.rs\<close>, \<open>t2_block.rs\<close>, \<open>electric.rs\<close>): every variant of
    the compression against a reference SHA-256, signatures that satisfy the verification equation, and the blocks and
    filters of transaction windows.
  \<^item> \<open>Aux_Tree\<close>, \<open>Merge_Format\<close>, \<open>Merge_Split\<close>, \<open>Merge_Verify\<close>, \<open>Merge_Set\<close> (\<open>merge/tree.rs\<close>, \<open>leaf.rs\<close>, \<open>commitment.rs\<close>,
    \<open>header.rs\<close>, \<open>split.rs\<close>, \<open>proof.rs\<close>, \<open>verify.rs\<close>, \<open>set.rs\<close>, \<open>registry.rs\<close>): the layout search, the tree, all byte formats,
    the shares of a win, proofs and their reference verifier, and the set of tokens a server mines with its jobs and wins.
  \<^item> \<open>Disclosure\<close> (\<open>merge/disclosure.rs\<close>): the leaves behind a commitment as they are shown to miners and pools.
  \<^item> \<open>Donation\<close>, \<open>Payout\<close> (\<open>donation.rs\<close>, \<open>donation/bch.rs\<close>, \<open>payout.rs\<close>): rates, the rotation of donated work, logins, coinbase
    outputs and the terms of token leaves.
  \<^item> \<open>Asert\<close>, \<open>Claim_Tx\<close>, \<open>Vaults\<close>, \<open>Claim\<close> (\<open>asert.rs\<close>, \<open>merge/safa_auxpow.rs\<close>): the difficulty rule at its widths and in the
    covenant's form, transaction bytes, deployments and vault listings, the plan of a claim, its construction and the
    covenant's check of it. The locale \<open>codec\<close> of \<open>Claim_Tx\<close> is the contract of a writer and its reader, interpreted for
    integers, sizes, inputs and outputs.
  \<^item> \<open>Job_Token\<close>, \<open>Job_Policy\<close> (\<open>jd/token.rs\<close>, \<open>codec.rs\<close>, \<open>policy.rs\<close>, \<open>plan.rs\<close>): the book of one-time tokens as a state
    machine with its step relation, coinbase outputs on the wire, the payout rule and the pool's checks, and the plan a
    client builds coinbases from. The locale \<open>ticketing\<close> is the contract of one-time tickets; the book interprets it.
  \<^item> \<open>Template\<close> (\<open>template.rs\<close>): templates from a node's JSON, a provider's messages, a custom or declared job or a token; what a
    server does to one it holds (\<open>held_template\<close> is the inductive set of these); the Chipnet difficulty rule, coinbases and
    their parts, merge-mining jobs, headers and blocks.
  \<^item> \<open>Declared\<close> (\<open>jd/declared.rs\<close>): a declared coinbase read from its halves, candidates and solved blocks, and the client's
    declaration of a template composed with the pool's checks of it.
  \<^item> \<open>P2pool\<close> (\<open>p2pool/jd.rs\<close> and the token queue of \<open>jd/client.rs\<close>): the coinbase a P2Pool process prepares, its check, and the queue
    of tokens as a step relation in which the template thread and the client's loop interleave.
  \<^item> \<open>Channels\<close> (\<open>channel.rs\<close>): the jobs of a device, its target and the check of its shares. \<open>channel_run\<close> is the inductive life of a
    channel: all its operations in any order, with the shares accepted on the jobs in hand as a log.

  \<^bold>\<open>State and errors.\<close> A struct is a record with prefixed fields, an enum a datatype, \<open>Result\<close> the sum type with the error left,
  \<open>Option\<close> an option; every early return is a branch. Methods that change their receiver return the new state. A cursor
  into immutable bytes is the bytes left. Indexing that panics is \<open>None\<close> where a caller can reach it, and is excluded by a
  proved bound elsewhere. Integers keep their width: \<open>+\<close>, \<open>-\<close> and \<open>*\<close> on words wrap as in a release build, and the properties
  show where that cannot happen.

  \<^bold>\<open>What is shown.\<close> The engine's operations are exact (products, squares, inverses, reductions, point addition, digests,
  signatures), and its variants agree. A header pays one leaf of each token; the layout found is the first one; a share
  that wins is claimable; a planned claim is built and accepted, and an accepted claim conserves the vault's
  tokens. Coinbases pay out the reward exactly, the schedule of donated work is fair, shares of a win are exact. Tokens of
  Job Declaration are spent once and only as issued; the pool's check of a custom coinbase is exact, a client's plan always
  passes it, and a leaf that opens an accepted token root pays as the rule says. Templates a server holds are sound, the
  branch computed once is the branch of their tree, their blocks are whole and fit, the parts a device rolls are the coinbase
  the server builds, and a win on one is claimable. What a client declares is what its pool reads and accepts, and a pushed
  solution is a whole block or nothing. P2Pool tokens are used once, and after a failed preparation the queue fills up again. Over
  any life of a channel no share counts twice, a share that finds a block is a whole block and one that wins tokens is claimable. This theory joins the payout terms,
  the token set, the disclosure and the public audit.

  Where a digest could collide, a property exhibits the two messages (\<open>collides\<close>) rather than claim that none exist.

  \<^bold>\<open>Bounds and fuel.\<close> The search for a signature's nonce (\<open>rfc_loop\<close>, \<open>nonce_loop\<close> and the functions over them) takes the number of passes
  it may make: the source loops until a digest lies below the group order, which no argument about an arbitrary digest can bound. Running out is
  \<open>None\<close>, and the two searches are shown equal for every number of passes. The binary Euclid and Jacobi loops are partial functions, and their return
  is a theorem. Loops over a counter recurse on it, loops over bytes on the bytes left,
  and the rest have termination proofs. The layout search is bounded by the salts and heights of the source. Byte counts
  are below \<open>2 ^ 64\<close> where a length is converted to a machine integer.

  \<^bold>\<open>Arguments.\<close> The coordinator's digest, hex and JSON readers, the Bitcoin transaction decoder, the cash address code, the HMAC of
  the nonce, the random secret and the clock of a token, the store of declared jobs, the pool's registry lookup and the P2Pool
  process's reply, and of a channel its random bytes and the vardiff estimate are arguments of the definitions that use them; what is needed
  of them is a hypothesis, discharged in a witness.

  \<^bold>\<open>Not modelled.\<close> Device drivers and kernels (\<open>cuda_*\<close>, \<open>hip_photon.rs\<close>, \<open>opencl_photon.rs\<close>, \<open>wgpu_photon.rs\<close>, \<open>backend.rs\<close>): foreign
  calls. The terminal interface and command line: terminal I/O. Sessions over the network (\<open>server.rs\<close>, \<open>sv1.rs\<close>, \<open>wire.rs\<close>,
  \<open>transport.rs\<close>, \<open>jd/client.rs\<close> beyond its P2Pool tokens, \<open>jd/server.rs\<close>, \<open>tdp\<close>, \<open>p2pool\<close> beyond \<open>jd.rs\<close>, \<open>node.rs\<close>, \<open>electrum.rs\<close>,
  \<open>merge/hub.rs\<close>) and the runtime around them
  (\<open>runtime.rs\<close>, \<open>search.rs\<close>): asynchronous I/O, threads and clocks. Work shares and difficulty in floating point
  (\<open>work_allocation.rs\<close>, the estimate of vardiff). Configuration, journals and logins on disk. Of a template, the
  donation session's template kept beside it and the cache behind its transaction index. Vendored and legacy code.
\<close>

section \<open>Public pools\<close>

lemma slot_new_pays: "slot_new sha rate script = Inr s \<Longrightarrow> slot_is_empty s \<or> sl_script_hash s = double_sha256 sha script"
  by (auto simp: slot_new_def slot_from_hash_def slot_is_empty_def EMPTY_SLOT_def split: if_splits bool.splits)

lemma leaf_terms_pay:
  assumes "leaf_terms sha [miner, donation, operator] policy = Inr terms"
  shows "lt_plain_payout terms \<in> {miner, donation, operator}"
    and "lt_payout terms \<in> {miner, donation, operator}"
    and "\<not> split_is_none (lt_split terms) \<Longrightarrow> lt_payout terms = miner"
    and "slot_is_empty (sp_donation (lt_split terms)) \<or> sl_script_hash (sp_donation (lt_split terms)) = double_sha256 sha donation"
    and "slot_is_empty (sp_fee (lt_split terms)) \<or> sl_script_hash (sp_fee (lt_split terms)) = double_sha256 sha operator"
proof -
  have n: "slot_is_empty (sp_donation NO_SPLIT)" "slot_is_empty (sp_fee NO_SPLIT)" "split_is_none NO_SPLIT" "slot_is_empty EMPTY_SLOT"
    by (simp_all add: NO_SPLIT_def slot_is_empty_def EMPTY_SLOT_def split_is_none_def)
  consider "lt_payout terms = donation" "lt_split terms = NO_SPLIT"
    | "lt_payout terms = operator" "lt_split terms = NO_SPLIT"
    | d f where "slot_new sha (reward_bps (bp_donation policy)) donation = Inr d"
        "f = EMPTY_SLOT \<or> (\<exists>fee. slot_new sha (fee_reward_bps fee) operator = Inr f)"
        "lt_payout terms = miner" "lt_split terms = \<lparr>sp_donation = d, sp_fee = f\<rparr>"
  proof (cases "bp_donation_work policy \<or> bp_fee_work policy")
    case True
    then show ?thesis using assms that(1,2) by (auto simp: leaf_terms_def Let_def result_bind_Inr_iff split: if_splits)
  next
    case False
    with assms obtain d f where "slot_new sha (reward_bps (bp_donation policy)) donation = Inr d"
        "(case bp_fee policy of Some fee \<Rightarrow> slot_new sha (fee_reward_bps fee) operator | None \<Rightarrow> Inr EMPTY_SLOT) = Inr f"
        "lt_payout terms = miner" "lt_split terms = \<lparr>sp_donation = d, sp_fee = f\<rparr>"
      by (cases "bp_fee policy") (auto simp: leaf_terms_def Let_def result_bind_Inr_iff)
    then show ?thesis using that(3) [of d f] by (auto split: option.splits)
  qed
  then show "lt_payout terms \<in> {miner, donation, operator}"
    and "\<not> split_is_none (lt_split terms) \<Longrightarrow> lt_payout terms = miner"
    and "slot_is_empty (sp_donation (lt_split terms)) \<or> sl_script_hash (sp_donation (lt_split terms)) = double_sha256 sha donation"
    and "slot_is_empty (sp_fee (lt_split terms)) \<or> sl_script_hash (sp_fee (lt_split terms)) = double_sha256 sha operator"
    using slot_new_pays by (cases; auto simp: n)+
  show "lt_plain_payout terms \<in> {miner, donation, operator}"
    using assms by (auto simp: leaf_terms_def Let_def result_bind_Inr_iff)
qed

text \<open>C3. Every job a public pool builds passes the public audit: whatever the token set, the policy and the thread choice, the
  leaves built from the terms of a miner, the donation and the operator are leaves that pay only these three, with a split
  only next to the miner and only to the donation and the operator.\<close>

theorem public_jobs_pass_the_audit:
  assumes "leaf_terms sha [miner, donation, operator] policy = Inr terms"
  shows "audit_public sha (disclosure_from_job (job_build sha ts terms)) miner donation operator = Inr ()"
proof -
  note p = leaf_terms_pay [OF assms]
  have n: "split_is_none NO_SPLIT" "slot_is_empty (sp_donation NO_SPLIT)" "slot_is_empty (sp_fee NO_SPLIT)"
    by (simp_all add: NO_SPLIT_def slot_is_empty_def EMPTY_SLOT_def split_is_none_def)
  show ?thesis using p n
    by (auto simp: audit_public_def Let_def disclosure_from_job_def job_build_simps job_entry_def leaf_new_def list_all_iff
        dest!: set_zip_leftD split: prod.splits)
qed

theorem public_jobs_pass_the_audit_witness:
  "\<exists>ts terms. set_new one_sha (\<lambda>_. None) (\<lambda>_. []) Chipnet [demo_entry] 1 = Inr ts \<and> leaf_terms one_sha [[1], [2], [3]] demo_policy = Inr terms \<and>
     \<not> split_is_none (lt_split terms) \<and> audit_public one_sha (disclosure_from_job (job_build one_sha ts terms)) [1] [2] [3] = Inr ()"
proof -
  obtain ts where ts: "set_new one_sha (\<lambda>_. None) (\<lambda>_. []) Chipnet [demo_entry] 1 = Inr ts" by (rule demo_set)
  have d: "reward_bps (BchDonation 150) = 100" "fee_reward_bps \<lparr>pf_rate = BchDonation 200, pf_mode = Coinbase\<rparr> = 200"
    by (simp_all add: reward_bps_def reward_units_def fee_reward_bps_def fee_reward_units_def)
  have h: "double_sha256 one_sha s = replicate 32 1" "replicate 32 (1 :: u8) \<noteq> ZERO_HASH" for s
    by (simp_all add: double_sha256_def one_sha_def ZERO_HASH_def)
  obtain terms where t: "leaf_terms one_sha [[1], [2], [3]] demo_policy = Inr terms" "\<not> split_is_none (lt_split terms)"
    using h by (simp add: leaf_terms_def demo_policy_def d slot_new_def slot_from_hash_def MAX_BPS_def split_is_none_def slot_is_empty_def)
  from public_jobs_pass_the_audit [OF t(1), of ts] t ts show ?thesis by blast
qed

end
